(* ===== verification/Prelude.thy ===== *)
theory Prelude
  imports Complex_Main
begin

text \<open>
  Shared vocabulary of the development.

  \<^item> Instants and durations. An aware \<open>datetime\<close> is its number of microseconds on the UTC
    time line (\<open>instant\<close>), a \<open>timedelta\<close> is a number of microseconds, a \<open>date\<close> is its
    proleptic ordinal (\<open>date.toordinal\<close>). Python's \<open>OverflowError\<close> outside the years 1 to
    9999 is not modelled. A \<open>datetime\<close> that may be naive is a \<open>stamp\<close>.
  \<^item> Errors. A function that may raise returns \<open>'e + 'a\<close>, \<open>Inl\<close> being the exception;
    \<open>bind_r\<close> is the sequencing of two such computations.
  \<^item> Generic lemmas on sorted lists, filters and association lists.
\<close>

section \<open>Rule collections\<close>

named_theorems invs \<open>preservation of well-formedness invariants\<close>
named_theorems period_simps \<open>facts about calendar periods\<close>

section \<open>Time\<close>

type_synonym instant = int
type_synonym timedelta = int
type_synonym day = int

abbreviation second :: timedelta where "second \<equiv> 1000000"
abbreviation minute :: timedelta where "minute \<equiv> 60000000"
abbreviation hour :: timedelta where "hour \<equiv> 3600000000"
abbreviation one_day :: timedelta where "one_day \<equiv> 86400000000"

datatype stamp = Aware instant | Naive int

fun is_aware :: "stamp \<Rightarrow> bool" where
  "is_aware (Aware _) = True"
| "is_aware (Naive _) = False"

fun instant_of :: "stamp \<Rightarrow> instant" where
  "instant_of (Aware t) = t"
| "instant_of (Naive t) = t"

section \<open>Results\<close>

fun bind_r :: "'e + 'a \<Rightarrow> ('a \<Rightarrow> 'e + 'b) \<Rightarrow> 'e + 'b" where
  "bind_r (Inl e) f = Inl e"
| "bind_r (Inr x) f = f x"

lemma bind_r_Inr_iff: "bind_r r f = Inr y \<longleftrightarrow> (\<exists>x. r = Inr x \<and> f x = Inr y)"
  by (cases r) auto

lemma bind_r_Inl_iff: "bind_r r f = Inl e \<longleftrightarrow> r = Inl e \<or> (\<exists>x. r = Inr x \<and> f x = Inl e)"
  by (cases r) auto

lemma bind_r_split: "P (bind_r r f) \<longleftrightarrow> (\<forall>e. r = Inl e \<longrightarrow> P (Inl e)) \<and> (\<forall>x. r = Inr x \<longrightarrow> P (f x))"
  by (cases r) auto

lemma bind_r_split_asm:
  "P (bind_r r f) \<longleftrightarrow> \<not> ((\<exists>e. r = Inl e \<and> \<not> P (Inl e)) \<or> (\<exists>x. r = Inr x \<and> \<not> P (f x)))"
  by (cases r) auto

lemmas bind_r_splits = bind_r_split bind_r_split_asm

text \<open>A comprehension whose condition may raise.\<close>

fun filter_r :: "('a \<Rightarrow> 'e + bool) \<Rightarrow> 'a list \<Rightarrow> 'e + 'a list" where
  "filter_r f [] = Inr []"
| "filter_r f (x # xs) =
     bind_r (f x) (\<lambda>b. bind_r (filter_r f xs) (\<lambda>ys. Inr (if b then x # ys else ys)))"

lemma filter_r_Inr:
  "(\<And>x. x \<in> set xs \<Longrightarrow> f x = Inr (P x)) \<Longrightarrow> filter_r f xs = Inr (filter P xs)"
  by (induction xs) auto

text \<open>A comprehension whose element may raise.\<close>

fun map_r :: "('a \<Rightarrow> 'e + 'b) \<Rightarrow> 'a list \<Rightarrow> 'e + 'b list" where
  "map_r f [] = Inr []"
| "map_r f (x # xs) = bind_r (f x) (\<lambda>y. bind_r (map_r f xs) (\<lambda>ys. Inr (y # ys)))"

lemma map_r_Inr: "(\<And>x. x \<in> set xs \<Longrightarrow> f x = Inr (g x)) \<Longrightarrow> map_r f xs = Inr (map g xs)"
  by (induction xs) auto

lemma map_r_all2: "map_r f xs = Inr ys \<longleftrightarrow> list_all2 (\<lambda>x y. f x = Inr y) xs ys"
  by (induction xs arbitrary: ys) (auto simp: bind_r_Inr_iff list_all2_Cons1)

section \<open>Lists in ascending order\<close>

abbreviation ascending :: "'a::linorder list \<Rightarrow> bool" where
  "ascending \<equiv> sorted_wrt (<)"

lemma ascending_filter [intro]: "ascending xs \<Longrightarrow> ascending (filter P xs)"
  by (rule sorted_wrt_filter)

lemma ascending_distinct: "ascending xs \<Longrightarrow> distinct xs"
  by (simp add: strict_sorted_iff)

lemma ascending_sorted: "ascending xs \<Longrightarrow> sorted xs"
  by (simp add: strict_sorted_iff)

lemma ascending_hd_le:
  assumes "ascending xs" and "x \<in> set xs"
  shows "hd xs \<le> x"
  using assms by (cases xs) auto

lemma ascending_le_last:
  assumes "ascending xs" and "x \<in> set xs"
  shows "x \<le> last xs"
  using assms by (induction xs) (auto split: if_splits dest: less_imp_le last_in_set)

lemma last_filter_le:
  assumes "ascending xs" and "x \<in> set xs" and "P x"
  shows "x \<le> last (filter P xs)" and "last (filter P xs) \<in> set xs" and "P (last (filter P xs))"
proof -
  have mem: "x \<in> set (filter P xs)" using assms by simp
  with assms(1) show "x \<le> last (filter P xs)"
    by (intro ascending_le_last) auto
  from mem have "filter P xs \<noteq> []" by (metis empty_iff empty_set)
  then have "last (filter P xs) \<in> set (filter P xs)" by (rule last_in_set)
  then show "last (filter P xs) \<in> set xs" and "P (last (filter P xs))" by auto
qed

lemma hd_filter_le:
  assumes "ascending xs" and "x \<in> set xs" and "P x"
  shows "hd (filter P xs) \<le> x" and "hd (filter P xs) \<in> set xs" and "P (hd (filter P xs))"
proof -
  have mem: "x \<in> set (filter P xs)" using assms by simp
  with assms(1) show "hd (filter P xs) \<le> x"
    by (intro ascending_hd_le) auto
  from mem have "filter P xs \<noteq> []" by (metis empty_iff empty_set)
  then have "hd (filter P xs) \<in> set (filter P xs)" by (rule hd_in_set)
  then show "hd (filter P xs) \<in> set xs" and "P (hd (filter P xs))" by auto
qed

lemma last_filter_in: "filter P xs \<noteq> [] \<Longrightarrow> last (filter P xs) \<in> set xs \<and> P (last (filter P xs))"
  using last_in_set [of "filter P xs"] by auto

lemma hd_filter_in: "filter P xs \<noteq> [] \<Longrightarrow> hd (filter P xs) \<in> set xs \<and> P (hd (filter P xs))"
  using hd_in_set [of "filter P xs"] by auto

lemma last_filter_eqI:
  assumes "ascending xs" and "x \<in> set xs" and "P x"
    and "\<And>y. y \<in> set xs \<Longrightarrow> P y \<Longrightarrow> y \<le> x"
  shows "last (filter P xs) = x"
  using last_filter_le [of xs x P] assms by (metis antisym)

lemma hd_filter_eqI:
  assumes "ascending xs" and "x \<in> set xs" and "P x"
    and "\<And>y. y \<in> set xs \<Longrightarrow> P y \<Longrightarrow> x \<le> y"
  shows "hd (filter P xs) = x"
  using hd_filter_le [of xs x P] assms by (metis antisym)

section \<open>Association lists\<close>

lemma map_of_rev_distinct:
  assumes "distinct (map fst xs)"
  shows "map_of (rev xs) = map_of xs"
proof
  fix k
  have "map_of (rev xs) k = Some v \<longleftrightarrow> map_of xs k = Some v" for v
    using assms by (simp add: map_of_eq_Some_iff rev_map [symmetric])
  then show "map_of (rev xs) k = map_of xs k"
    by (metis option.exhaust)
qed

section \<open>Reading numbers from text\<close>

text \<open>
  \<open>int(s)\<close> of a string: white space around it is dropped, an optional sign is followed by
  decimal digits, in which single underscores may separate digits. \<open>None\<close> is \<open>ValueError\<close>.
  Only the digits of ASCII are modelled.
\<close>

definition white :: "char \<Rightarrow> bool" where
  "white c \<longleftrightarrow> (of_char c :: nat) \<in> {9, 10, 11, 12, 13, 28, 29, 30, 31, 32, 133, 160}"

definition strip :: "string \<Rightarrow> string" where
  "strip s = rev (dropWhile white (rev (dropWhile white s)))"

definition digit_of :: "char \<Rightarrow> int option" where
  "digit_of c = (let n = (of_char c :: nat) in if 48 \<le> n \<and> n \<le> 57 then Some (int n - 48) else None)"

text \<open>\<open>after\<close> says that the previous character was a digit, so an underscore may follow.\<close>

fun digits_value :: "bool \<Rightarrow> int \<Rightarrow> string \<Rightarrow> int option" where
  "digits_value after acc [] = (if after then Some acc else None)"
| "digits_value after acc (c # cs) =
     (case digit_of c of
        Some d \<Rightarrow> digits_value True (acc * 10 + d) cs
      | None \<Rightarrow> if after \<and> c = CHR ''_'' then digits_value False acc cs else None)"

definition py_int :: "string \<Rightarrow> int option" where
  "py_int s =
     (let t = strip s
      in case t of
           [] \<Rightarrow> None
         | c # cs \<Rightarrow>
             if c = CHR ''-'' then map_option uminus (digits_value False 0 cs)
             else if c = CHR ''+'' then digits_value False 0 cs
             else digits_value False 0 t)"

lemma digits_value_nonneg: "digits_value after acc s = Some n \<Longrightarrow> 0 \<le> acc \<Longrightarrow> 0 \<le> n"
  by (induction after acc s rule: digits_value.induct)
    (auto split: if_splits option.splits simp: digit_of_def Let_def)

section \<open>Keys in insertion order\<close>

text \<open>\<open>list(dict.fromkeys(xs))\<close>: the distinct elements, each where it first occurs\<close>

definition from_keys :: "'a list \<Rightarrow> 'a list" where
  "from_keys xs = fold (\<lambda>x ks. if x \<in> set ks then ks else ks @ [x]) xs []"

lemma from_keys_snoc: "from_keys (xs @ [x]) = (if x \<in> set (from_keys xs) then from_keys xs else from_keys xs @ [x])"
  by (simp add: from_keys_def)

lemma set_from_keys [simp]: "set (from_keys xs) = set xs"
  by (induction xs rule: rev_induct) (auto simp: from_keys_snoc, simp add: from_keys_def)

lemma from_keys_sorted: "sorted xs \<Longrightarrow> ascending (from_keys xs)"
proof (induction xs rule: rev_induct)
  case (snoc x xs)
  then have "ascending (from_keys xs)" "\<forall>y \<in> set xs. y \<le> x" by (auto simp: sorted_append)
  moreover have "y < x" if "y \<in> set xs" "x \<notin> set xs" for y
    using that calculation(2) by (metis order_less_le)
  ultimately show ?case by (auto simp: from_keys_snoc sorted_wrt_append)
qed (simp add: from_keys_def)

section \<open>Rounding\<close>

text \<open>Round half to even, as \<open>round\<close> and \<open>timedelta\<close> do.\<close>

definition round_half_even :: "rat \<Rightarrow> int" where
  "round_half_even x =
     (let f = floor x; r = x - of_int f
      in if r < 1/2 then f else if r > 1/2 then f + 1 else if even f then f else f + 1)"

lemma round_half_even_near: "\<bar>of_int (round_half_even x) - x\<bar> \<le> 1/2"
  using floor_correct [of x] by (auto simp: round_half_even_def Let_def abs_le_iff)

lemma round_half_even_of_int [simp]: "round_half_even (of_int n) = n"
  by (simp add: round_half_even_def)

lemma round_half_even_mono:
  assumes "x \<le> y"
  shows "round_half_even x \<le> round_half_even y"
proof (cases "floor x = floor y")
  case True
  then show ?thesis using assms by (auto simp: round_half_even_def Let_def)
next
  case False
  then have "floor x + 1 \<le> floor y" using floor_mono [OF assms] by linarith
  then show ?thesis by (auto simp: round_half_even_def Let_def)
qed

text \<open>\<open>timedelta(seconds=x)\<close>, its argument taken as an exact rational\<close>

definition timedelta_of_seconds :: "rat \<Rightarrow> timedelta" where
  "timedelta_of_seconds x = round_half_even (x * 1000000)"

lemma timedelta_of_seconds_nonneg: "0 \<le> x \<Longrightarrow> 0 \<le> timedelta_of_seconds x"
  using round_half_even_mono [of 0 "x * 1000000"] round_half_even_of_int [of 0]
  by (simp add: timedelta_of_seconds_def)

end
