(* ===== verification/Vocabulary.thy ===== *)
theory Vocabulary
  imports Prelude
begin

text \<open>
  The error vocabulary of \<open>server/common/errors/vocabulary.py\<close>: the closed \<open>Reason\<close> enum,
  the one table \<open>REASONS\<close> (split here in its two blocks, REFUSED and NOT_READY), the row
  check of \<open>ReasonSpec.__post_init__\<close>, the import-time check \<open>_check_vocabulary\<close>, and
  the constructor of an error with everything it refuses. An error's \<open>detail\<close> and a row's
  \<open>summary\<close> are text for a human that nothing parses; they are left out.
\<close>

section \<open>The enums\<close>

datatype reason =
  INVALID_REQUEST | UNSUPPORTED_ASSET_TYPE | UNSUPPORTED_INSTRUMENT | FEED_NOT_AVAILABLE | VENDOR_INVALID_REQUEST
| RANGE_IN_FUTURE | VENDOR_REJECTED | NOT_FOUND | OWNER_MISMATCH | OVERRIDE_REQUIRED
| OWN_OVERLAP_CONFLICT | RANGE_COLLISION | RANGE_SHRINK | DUPLICATE_BAR_TIMESTAMP | DATABASE_INTEGRITY
| RATE_BUDGET | VENDOR_RATE_LIMITED | VENDOR_UNAVAILABLE | VENDOR_AUTH | DEADLINE
| PEER_UNAVAILABLE | PEER_INTERNAL | PEER_PROTOCOL_ERROR | DATABASE_UNAVAILABLE | DATABASE_CONFLICT

datatype outcome = REFUSED | NOT_READY

datatype disposition = PAGE | RECORD | CLIENT_FIX

text \<open>The base class and its two branches; a leaf counts as the branch it subclasses.\<close>

datatype err_class = TraderJoeError | ExogenousError | InvalidRequestError

record reason_spec =
  sp_branch :: err_class
  sp_outcome :: outcome
  sp_disposition :: disposition
  sp_grpc :: "string option"
  sp_http :: int
  sp_requires_reset_at :: bool

abbreviation spec ::
  "err_class \<Rightarrow> outcome \<Rightarrow> disposition \<Rightarrow> string option \<Rightarrow> int \<Rightarrow> bool \<Rightarrow> reason_spec" where
  "spec b oc d g h r \<equiv>
     \<lparr>sp_branch = b, sp_outcome = oc, sp_disposition = d, sp_grpc = g, sp_http = h,
      sp_requires_reset_at = r\<rparr>"

fun reason_name :: "reason \<Rightarrow> string" where
  "reason_name INVALID_REQUEST = ''INVALID_REQUEST''"
| "reason_name UNSUPPORTED_ASSET_TYPE = ''UNSUPPORTED_ASSET_TYPE''"
| "reason_name UNSUPPORTED_INSTRUMENT = ''UNSUPPORTED_INSTRUMENT''"
| "reason_name FEED_NOT_AVAILABLE = ''FEED_NOT_AVAILABLE''"
| "reason_name VENDOR_INVALID_REQUEST = ''VENDOR_INVALID_REQUEST''"
| "reason_name RANGE_IN_FUTURE = ''RANGE_IN_FUTURE''"
| "reason_name VENDOR_REJECTED = ''VENDOR_REJECTED''"
| "reason_name NOT_FOUND = ''NOT_FOUND''"
| "reason_name OWNER_MISMATCH = ''OWNER_MISMATCH''"
| "reason_name OVERRIDE_REQUIRED = ''OVERRIDE_REQUIRED''"
| "reason_name OWN_OVERLAP_CONFLICT = ''OWN_OVERLAP_CONFLICT''"
| "reason_name RANGE_COLLISION = ''RANGE_COLLISION''"
| "reason_name RANGE_SHRINK = ''RANGE_SHRINK''"
| "reason_name DUPLICATE_BAR_TIMESTAMP = ''DUPLICATE_BAR_TIMESTAMP''"
| "reason_name DATABASE_INTEGRITY = ''DATABASE_INTEGRITY''"
| "reason_name RATE_BUDGET = ''RATE_BUDGET''"
| "reason_name VENDOR_RATE_LIMITED = ''VENDOR_RATE_LIMITED''"
| "reason_name VENDOR_UNAVAILABLE = ''VENDOR_UNAVAILABLE''"
| "reason_name VENDOR_AUTH = ''VENDOR_AUTH''"
| "reason_name DEADLINE = ''DEADLINE''"
| "reason_name PEER_UNAVAILABLE = ''PEER_UNAVAILABLE''"
| "reason_name PEER_INTERNAL = ''PEER_INTERNAL''"
| "reason_name PEER_PROTOCOL_ERROR = ''PEER_PROTOCOL_ERROR''"
| "reason_name DATABASE_UNAVAILABLE = ''DATABASE_UNAVAILABLE''"
| "reason_name DATABASE_CONFLICT = ''DATABASE_CONFLICT''"

definition Reason :: "reason list" where
  "Reason =
     [INVALID_REQUEST, UNSUPPORTED_ASSET_TYPE, UNSUPPORTED_INSTRUMENT, FEED_NOT_AVAILABLE, VENDOR_INVALID_REQUEST,
      RANGE_IN_FUTURE, VENDOR_REJECTED, NOT_FOUND, OWNER_MISMATCH, OVERRIDE_REQUIRED,
      OWN_OVERLAP_CONFLICT, RANGE_COLLISION, RANGE_SHRINK, DUPLICATE_BAR_TIMESTAMP, DATABASE_INTEGRITY,
      RATE_BUDGET, VENDOR_RATE_LIMITED, VENDOR_UNAVAILABLE, VENDOR_AUTH, DEADLINE,
      PEER_UNAVAILABLE, PEER_INTERNAL, PEER_PROTOCOL_ERROR, DATABASE_UNAVAILABLE, DATABASE_CONFLICT]"

definition ERROR_DOMAIN :: string where
  "ERROR_DOMAIN = ''trader-joe''"

section \<open>The one table\<close>

fun refused_row :: "reason \<Rightarrow> reason_spec option" where
  "refused_row INVALID_REQUEST = Some (spec InvalidRequestError REFUSED CLIENT_FIX (Some ''INVALID_ARGUMENT'') 422 False)"
| "refused_row UNSUPPORTED_ASSET_TYPE = Some (spec InvalidRequestError REFUSED CLIENT_FIX (Some ''INVALID_ARGUMENT'') 422 False)"
| "refused_row UNSUPPORTED_INSTRUMENT = Some (spec InvalidRequestError REFUSED CLIENT_FIX (Some ''INVALID_ARGUMENT'') 422 False)"
| "refused_row FEED_NOT_AVAILABLE = Some (spec InvalidRequestError REFUSED CLIENT_FIX None 422 False)"
| "refused_row VENDOR_INVALID_REQUEST = Some (spec InvalidRequestError REFUSED CLIENT_FIX (Some ''INVALID_ARGUMENT'') 422 False)"
| "refused_row RANGE_IN_FUTURE = Some (spec InvalidRequestError REFUSED CLIENT_FIX (Some ''INVALID_ARGUMENT'') 422 False)"
| "refused_row VENDOR_REJECTED = Some (spec ExogenousError REFUSED PAGE (Some ''INVALID_ARGUMENT'') 422 False)"
| "refused_row NOT_FOUND = Some (spec InvalidRequestError REFUSED CLIENT_FIX (Some ''NOT_FOUND'') 404 False)"
| "refused_row OWNER_MISMATCH = Some (spec InvalidRequestError REFUSED CLIENT_FIX (Some ''PERMISSION_DENIED'') 403 False)"
| "refused_row OVERRIDE_REQUIRED = Some (spec InvalidRequestError REFUSED CLIENT_FIX (Some ''FAILED_PRECONDITION'') 409 False)"
| "refused_row OWN_OVERLAP_CONFLICT = Some (spec InvalidRequestError REFUSED CLIENT_FIX (Some ''ALREADY_EXISTS'') 409 False)"
| "refused_row RANGE_COLLISION = Some (spec InvalidRequestError REFUSED CLIENT_FIX (Some ''ALREADY_EXISTS'') 409 False)"
| "refused_row RANGE_SHRINK = Some (spec InvalidRequestError REFUSED CLIENT_FIX (Some ''FAILED_PRECONDITION'') 409 False)"
| "refused_row DUPLICATE_BAR_TIMESTAMP = Some (spec InvalidRequestError REFUSED CLIENT_FIX (Some ''INVALID_ARGUMENT'') 422 False)"
| "refused_row DATABASE_INTEGRITY = Some (spec ExogenousError REFUSED PAGE None 409 False)"
| "refused_row _ = None"

fun not_ready_row :: "reason \<Rightarrow> reason_spec option" where
  "not_ready_row RATE_BUDGET = Some (spec ExogenousError NOT_READY RECORD (Some ''FAILED_PRECONDITION'') 429 True)"
| "not_ready_row VENDOR_RATE_LIMITED = Some (spec ExogenousError NOT_READY PAGE (Some ''FAILED_PRECONDITION'') 429 True)"
| "not_ready_row VENDOR_UNAVAILABLE = Some (spec ExogenousError NOT_READY RECORD (Some ''FAILED_PRECONDITION'') 503 False)"
| "not_ready_row VENDOR_AUTH = Some (spec ExogenousError NOT_READY PAGE (Some ''FAILED_PRECONDITION'') 503 False)"
| "not_ready_row DEADLINE = Some (spec ExogenousError NOT_READY RECORD (Some ''FAILED_PRECONDITION'') 504 False)"
| "not_ready_row PEER_UNAVAILABLE = Some (spec ExogenousError NOT_READY PAGE None 503 False)"
| "not_ready_row PEER_INTERNAL = Some (spec ExogenousError NOT_READY PAGE None 502 False)"
| "not_ready_row PEER_PROTOCOL_ERROR = Some (spec ExogenousError NOT_READY PAGE None 502 False)"
| "not_ready_row DATABASE_UNAVAILABLE = Some (spec ExogenousError NOT_READY PAGE None 503 False)"
| "not_ready_row DATABASE_CONFLICT = Some (spec ExogenousError NOT_READY RECORD None 503 False)"
| "not_ready_row _ = None"

definition REASONS :: "reason \<Rightarrow> reason_spec option" where
  "REASONS r = (case refused_row r of Some s \<Rightarrow> Some s | None \<Rightarrow> not_ready_row r)"

lemma REASONS_total: "\<exists>s. REASONS r = Some s"
  by (cases r) (simp_all add: REASONS_def)

definition row_of :: "reason \<Rightarrow> reason_spec" where
  "row_of r = the (REASONS r)"

lemma REASONS_row_of: "REASONS r = Some (row_of r)"
  using REASONS_total [of r] by (auto simp: row_of_def)

definition refused :: "reason \<Rightarrow> bool" where
  "refused r \<longleftrightarrow> sp_outcome (row_of r) = REFUSED"

section \<open>What a row and the whole vocabulary must satisfy\<close>

definition GRPC_FAILURE_CODES :: "string list" where
  "GRPC_FAILURE_CODES =
     [''CANCELLED'', ''UNKNOWN'', ''INVALID_ARGUMENT'', ''DEADLINE_EXCEEDED'', ''NOT_FOUND'',
      ''ALREADY_EXISTS'', ''PERMISSION_DENIED'', ''RESOURCE_EXHAUSTED'', ''FAILED_PRECONDITION'',
      ''ABORTED'', ''OUT_OF_RANGE'', ''UNIMPLEMENTED'', ''INTERNAL'', ''UNAVAILABLE'',
      ''DATA_LOSS'', ''UNAUTHENTICATED'']"

text \<open>\<open>ReasonSpec.__post_init__\<close>: true when no \<open>ValueError\<close> is raised.\<close>

definition spec_ok :: "reason_spec \<Rightarrow> bool" where
  "spec_ok s \<longleftrightarrow>
     sp_branch s \<in> {ExogenousError, InvalidRequestError} \<and>
     sp_grpc s \<noteq> Some ''UNAVAILABLE'' \<and>
     (case sp_grpc s of None \<Rightarrow> True | Some c \<Rightarrow> c \<in> set GRPC_FAILURE_CODES) \<and>
     400 \<le> sp_http s \<and> sp_http s \<le> 599 \<and>
     \<not> (sp_requires_reset_at s \<and> sp_outcome s = REFUSED)"

definition METADATA_KEYS :: "string list" where
  "METADATA_KEYS =
     [''asset_symbol'', ''range_start'', ''range_end'', ''feed'', ''granularity'', ''vendor'',
      ''retry_after'', ''reset_at'', ''colliding_ids'', ''error_id'']"

definition DERIVED_METADATA_KEYS :: "string list" where
  "DERIVED_METADATA_KEYS = [''reset_at'', ''retry_after'']"

definition RESERVED_REASONS :: "string list" where
  "RESERVED_REASONS =
     [''OUTSIDE_LOOKBACK'', ''COVERAGE_GAP'', ''ADMISSION_REFUSED'', ''SUBSCRIBER_TOO_SLOW'',
      ''NOT_BOOTSTRAPPED'']"

abbreviation chars_upper :: string where "chars_upper \<equiv> ''ABCDEFGHIJKLMNOPQRSTUVWXYZ''"
abbreviation chars_lower :: string where "chars_lower \<equiv> ''abcdefghijklmnopqrstuvwxyz''"
abbreviation chars_digit :: string where "chars_digit \<equiv> ''0123456789''"

text \<open>\<open>[A-Z][A-Z0-9_]+[A-Z0-9]\<close>, matched in full, of at most 63 characters\<close>

definition reason_shaped :: "string \<Rightarrow> bool" where
  "reason_shaped s \<longleftrightarrow>
     3 \<le> length s \<and> length s \<le> 63 \<and> hd s \<in> set chars_upper \<and>
     last s \<in> set (chars_upper @ chars_digit) \<and>
     list_all (\<lambda>c. c \<in> set (chars_upper @ chars_digit @ ''_'')) s"

text \<open>\<open>[a-z][a-zA-Z0-9_-]+\<close>, matched in full\<close>

definition key_shaped :: "string \<Rightarrow> bool" where
  "key_shaped s \<longleftrightarrow>
     2 \<le> length s \<and> hd s \<in> set chars_lower \<and>
     list_all (\<lambda>c. c \<in> set (chars_lower @ chars_upper @ chars_digit @ ''_-'')) (tl s)"

definition check_vocabulary :: bool where
  "check_vocabulary \<longleftrightarrow>
     list_all (\<lambda>r. reason_shaped (reason_name r)) Reason \<and>
     list_all (\<lambda>r. REASONS r \<noteq> None) Reason \<and>
     distinct RESERVED_REASONS \<and>
     list_all (\<lambda>n. reason_shaped n \<and> n \<notin> set (map reason_name Reason)) RESERVED_REASONS \<and>
     list_all key_shaped METADATA_KEYS"

lemma Reason_complete: "r \<in> set Reason"
  by (cases r) (simp_all add: Reason_def)

lemma spec_ok_REASONS: "spec_ok (row_of r)"
  by (cases r) (simp_all add: row_of_def REASONS_def spec_ok_def GRPC_FAILURE_CODES_def)

section \<open>Building an error\<close>

datatype meta_value = Text string | Texts "string list"

type_synonym metadata = "(string \<times> meta_value) list"

record tj_error =
  te_class :: err_class
  te_reason :: reason
  te_metadata :: metadata
  te_reset_at :: "instant option"

datatype build_error = TypeError | ValueError

fun checked_metadata :: "metadata \<Rightarrow> build_error + metadata" where
  "checked_metadata [] = Inr []"
| "checked_metadata ((k, v) # kvs) =
     (if k \<notin> set METADATA_KEYS then Inl ValueError
      else if k \<in> set DERIVED_METADATA_KEYS then Inl ValueError
      else bind_r (checked_metadata kvs) (\<lambda>rest. Inr ((k, v) # rest)))"

definition checked_reset_at :: "reason_spec \<Rightarrow> stamp option \<Rightarrow> build_error + instant option" where
  "checked_reset_at s reset_at =
     (case reset_at of
        None \<Rightarrow> if sp_requires_reset_at s then Inl ValueError else Inr None
      | Some (Naive _) \<Rightarrow> Inl ValueError
      | Some (Aware t) \<Rightarrow> if sp_outcome s = REFUSED then Inl ValueError else Inr (Some t))"

definition build_tj_error ::
  "err_class \<Rightarrow> reason \<Rightarrow> metadata \<Rightarrow> stamp option \<Rightarrow> build_error + tj_error" where
  "build_tj_error cls r metadata reset_at =
     (if cls = TraderJoeError then Inl TypeError
      else if cls \<noteq> sp_branch (row_of r) then Inl TypeError
      else bind_r (checked_metadata metadata) (\<lambda>m.
           bind_r (checked_reset_at (row_of r) reset_at) (\<lambda>t.
             Inr \<lparr>te_class = cls, te_reason = r, te_metadata = m, te_reset_at = t\<rparr>)))"

text \<open>\<open>from_retry_after\<close>, its delay already a whole number of microseconds.\<close>

definition from_retry_after ::
  "err_class \<Rightarrow> reason \<Rightarrow> timedelta \<Rightarrow> metadata \<Rightarrow> instant \<Rightarrow> build_error + tj_error" where
  "from_retry_after cls r delay metadata now =
     (if delay < 0 then Inl ValueError
      else build_tj_error cls r metadata (Some (Aware (now + delay))))"

text \<open>The derived property: whole seconds left, rounded up, never negative.\<close>

definition retry_after :: "tj_error \<Rightarrow> instant \<Rightarrow> int option" where
  "retry_after e now =
     (case te_reset_at e of
        None \<Rightarrow> None
      | Some t \<Rightarrow> let remaining = t - now in Some (max 0 (- (- remaining div second))))"

fun join_with :: "string \<Rightarrow> string list \<Rightarrow> string" where
  "join_with sep [] = []"
| "join_with sep [x] = x"
| "join_with sep (x # xs) = x @ sep @ join_with sep xs"

definition own_error_id :: "tj_error \<Rightarrow> string option" where
  "own_error_id e =
     (case map_of (te_metadata e) ''error_id'' of
        None \<Rightarrow> None
      | Some (Text s) \<Rightarrow> if s = [] then None else Some s
      | Some (Texts ss) \<Rightarrow>
          if list_all (\<lambda>s. s = []) ss then None else Some (join_with '','' ss))"

subsection \<open>What a built error is\<close>

definition tj_error_ok :: "tj_error \<Rightarrow> bool" where
  "tj_error_ok e \<longleftrightarrow>
     te_class e = sp_branch (row_of (te_reason e)) \<and>
     (\<forall>k \<in> fst ` set (te_metadata e). k \<in> set METADATA_KEYS - set DERIVED_METADATA_KEYS) \<and>
     (sp_requires_reset_at (row_of (te_reason e)) \<longrightarrow> te_reset_at e \<noteq> None) \<and>
     (refused (te_reason e) \<longrightarrow> te_reset_at e = None)"

lemma checked_metadata_Inr:
  "checked_metadata m = Inr m' \<Longrightarrow>
     m' = m \<and> (\<forall>k \<in> fst ` set m. k \<in> set METADATA_KEYS - set DERIVED_METADATA_KEYS)"
  by (induction m arbitrary: m' rule: checked_metadata.induct)
    (auto simp: bind_r_Inr_iff split: if_splits)

lemma build_tj_error_ok:
  assumes "build_tj_error cls r m t = Inr e"
  shows "tj_error_ok e \<and> te_reason e = r \<and> te_class e = cls"
proof -
  from assms obtain m' t' where
    "cls = sp_branch (row_of r)" "checked_metadata m = Inr m'"
    "checked_reset_at (row_of r) t = Inr t'"
    "e = \<lparr>te_class = cls, te_reason = r, te_metadata = m', te_reset_at = t'\<rparr>"
    by (auto simp: build_tj_error_def bind_r_Inr_iff split: if_splits)
  then show ?thesis
    using checked_metadata_Inr [of m m']
    by (auto simp: tj_error_ok_def refused_def checked_reset_at_def
        split: if_splits option.splits stamp.splits)
qed

lemma retry_after_bounds:
  assumes "te_reset_at e = Some t" and "retry_after e now = Some n"
  shows "0 \<le> n" and "t \<le> now + n * second" and "now < t \<Longrightarrow> now + (n - 1) * second < t"
proof -
  define q where "q = (now - t) div 1000000"
  have n: "n = max 0 (- q)" using assms by (simp add: retry_after_def q_def)
  have "now - t = 1000000 * q + (now - t) mod 1000000" by (simp add: q_def)
  then have q: "1000000 * q \<le> now - t" "now - t < 1000000 * q + 1000000"
    using pos_mod_bound [of 1000000 "now - t"] pos_mod_sign [of 1000000 "now - t"] by simp_all
  show "0 \<le> n" "t \<le> now + n * second" using n q by auto
  show "now < t \<Longrightarrow> now + (n - 1) * second < t" using n q by auto
qed

section \<open>Properties\<close>

text \<open>The reason table is total and sound: every reason has a row, and each row is on a branch that
  can be raised, maps to a status of the failure codes other than UNAVAILABLE (or to none), to an
  HTTP error status, and never asks for a reset time of a refusal.\<close>

theorem reason_table_sound:
  "REASONS r = Some (row_of r) \<and> spec_ok (row_of r) \<and> r \<in> set Reason"
  using spec_ok_REASONS [of r] Reason_complete [of r] by (cases r) (simp_all add: row_of_def REASONS_def)

text \<open>An error that can be built is well formed: it is of the class its reason's row names, its
  metadata uses only caller-settable keys, a reset time is present when the row requires one and
  absent from a refusal.\<close>

theorem built_errors_well_formed:
  assumes "build_tj_error cls r metadata reset_at = Inr e"
  shows "tj_error_ok e \<and> te_reason e = r \<and> te_class e = cls"
  by (rule build_tj_error_ok [OF assms])

theorem built_errors_well_formed_witness:
  "\<exists>e. build_tj_error InvalidRequestError RANGE_COLLISION [(''asset_symbol'', Text ''AAPL'')] None = Inr e \<and> tj_error_ok e"
proof -
  have "build_tj_error InvalidRequestError RANGE_COLLISION [(''asset_symbol'', Text ''AAPL'')] None =
      Inr \<lparr>te_class = InvalidRequestError, te_reason = RANGE_COLLISION,
        te_metadata = [(''asset_symbol'', Text ''AAPL'')], te_reset_at = None\<rparr>"
    by code_simp
  with built_errors_well_formed [OF this] show ?thesis by blast
qed

text \<open>\<open>retry_after\<close> is the least whole number of seconds that reaches the reset time, and zero once
  it has passed: waiting it out never asks too early, and never a whole second too long.\<close>

theorem retry_after_is_ceiling:
  assumes "te_reset_at e = Some t"
  shows "\<exists>n. retry_after e now = Some n \<and> 0 \<le> n \<and> t \<le> now + n * second \<and> (now < t \<longrightarrow> now + (n - 1) * second < t)
    \<and> (t \<le> now \<longrightarrow> n = 0)"
proof -
  obtain n where n: "retry_after e now = Some n" using assms by (simp add: retry_after_def Let_def)
  have "n = 0" if "t \<le> now"
  proof -
    have "0 \<le> (now - t) div 1000000" using that by (simp add: pos_imp_zdiv_nonneg_iff)
    then show ?thesis using n assms by (simp add: retry_after_def Let_def)
  qed
  then show ?thesis using n retry_after_bounds [OF assms n] by blast
qed

theorem retry_after_is_ceiling_witness:
  "\<exists>n. retry_after \<lparr>te_class = ExogenousError, te_reason = DEADLINE, te_metadata = [], te_reset_at = Some 2500000\<rparr> 0 = Some n
     \<and> 2500000 \<le> n * second"
  using retry_after_is_ceiling [of "\<lparr>te_class = ExogenousError, te_reason = DEADLINE, te_metadata = [], te_reset_at = Some 2500000\<rparr>"
      2500000 0] by auto

text \<open>The one table gives DEADLINE the gRPC code FAILED_PRECONDITION, so it is not among the reasons
  that have no code: those are the unserved feed, the constraint violation, the three peer failures
  and the two database ones.\<close>

theorem deadline_has_grpc_code:
  "sp_grpc (row_of DEADLINE) = Some ''FAILED_PRECONDITION''
   \<and> set (filter (\<lambda>r. sp_grpc (row_of r) = None) Reason) =
     {FEED_NOT_AVAILABLE, DATABASE_INTEGRITY, PEER_UNAVAILABLE, PEER_INTERNAL, PEER_PROTOCOL_ERROR,
      DATABASE_UNAVAILABLE, DATABASE_CONFLICT}"
  by code_simp

end
