(* ===== verification/Civil_Dates.thy ===== *)
theory Civil_Dates
  imports Prelude
begin

text \<open>
  The part of Python's \<open>datetime.date\<close> the program uses, on proleptic Gregorian ordinals
  (\<open>date.toordinal\<close>: 1 is Monday 0001-01-01): \<open>weekday()\<close>, \<open>replace(day=1)\<close> and
  addition of whole days. \<open>year_of\<close> is a closed formula with one correction step;
  \<open>month_first_unique\<close> characterises it.
\<close>

section \<open>Years\<close>

text \<open>\<open>days_before y\<close> counts the days before January 1 of year \<open>y\<close>.\<close>

definition days_before :: "int \<Rightarrow> int" where
  "days_before y = (y - 1) * 365 + (y - 1) div 4 - (y - 1) div 100 + (y - 1) div 400"

definition is_leap :: "int \<Rightarrow> bool" where
  "is_leap y \<longleftrightarrow> y mod 4 = 0 \<and> (y mod 100 \<noteq> 0 \<or> y mod 400 = 0)"

definition year_of :: "day \<Rightarrow> int" where
  "year_of d =
     (let y = (400 * (d - 1)) div 146097 + 1
      in if d \<le> days_before y then y - 1
         else if days_before (y + 1) < d then y + 1 else y)"

lemma div_Suc_step: "0 < n \<Longrightarrow> (a + 1) div n = a div n + (if (a + 1) mod n = 0 then 1 else 0)"
  for a n :: int
proof -
  assume n: "0 < n"
  define q where "q = (a + 1) div n"
  define r where "r = (a + 1) mod n"
  have eq: "a + 1 = n * q + r" and r: "0 \<le> r" "r < n"
    using n by (auto simp: q_def r_def)
  show ?thesis
  proof (cases "r = 0")
    case True
    then have "a = n * (q - 1) + (n - 1)" using eq by (simp add: algebra_simps)
    then have "a div n = q - 1" using n by (intro int_div_pos_eq [where r = "n - 1"]) auto
    then show ?thesis using True by (simp add: q_def [symmetric] r_def [symmetric])
  next
    case False
    then have "a = n * q + (r - 1)" using eq by simp
    then have "a div n = q" using r False by (intro int_div_pos_eq [where r = "r - 1"]) auto
    then show ?thesis using False by (simp add: q_def [symmetric] r_def [symmetric])
  qed
qed

lemma days_before_Suc: "days_before (y + 1) = days_before y + (if is_leap y then 366 else 365)"
proof -
  have 4: "y div 4 = (y - 1) div 4 + (if y mod 4 = 0 then 1 else 0)"
    using div_Suc_step [of 4 "y - 1"] by simp
  have 100: "y div 100 = (y - 1) div 100 + (if y mod 100 = 0 then 1 else 0)"
    using div_Suc_step [of 100 "y - 1"] by simp
  have 400: "y div 400 = (y - 1) div 400 + (if y mod 400 = 0 then 1 else 0)"
    using div_Suc_step [of 400 "y - 1"] by simp
  have "y mod 100 = 0 \<longrightarrow> y mod 4 = 0" "y mod 400 = 0 \<longrightarrow> y mod 100 = 0" by presburger+
  then have m: "y mod 4 \<noteq> 0 \<Longrightarrow> y mod 100 \<noteq> 0" "y mod 100 \<noteq> 0 \<Longrightarrow> y mod 400 \<noteq> 0" by auto
  have "days_before (y + 1) = y * 365 + y div 4 - y div 100 + y div 400"
    by (simp add: days_before_def)
  also have "\<dots> = days_before y + 365 + (if y mod 4 = 0 then 1 else 0)
      - (if y mod 100 = 0 then 1 else 0) + (if y mod 400 = 0 then 1 else 0)"
    unfolding 4 100 400 days_before_def by simp
  also have "\<dots> = days_before y + (if is_leap y then 366 else 365)"
    unfolding is_leap_def using m
    by (cases "y mod 4 = 0"; cases "y mod 100 = 0"; cases "y mod 400 = 0") simp_all
  finally show ?thesis .
qed

lemma days_before_step: "days_before y + 365 \<le> days_before (y + 1)"
  by (simp add: days_before_Suc)

lemma days_before_mono: "y \<le> z \<Longrightarrow> days_before y \<le> days_before z"
proof (induction z rule: int_ge_induct)
  case base
  show ?case by simp
next
  case (step z)
  then show ?case using days_before_step [of z] by linarith
qed

lemma floor_bounds:
  fixes a n :: int
  assumes "0 < n"
  shows "n * (a div n) \<le> a" and "a < n * (a div n) + n"
proof -
  have "a = n * (a div n) + a mod n" "0 \<le> a mod n" "a mod n < n" using assms by auto
  then show "n * (a div n) \<le> a" and "a < n * (a div n) + n" by linarith+
qed

lemma days_before_bounds:
  "400 * days_before (b + 1) < 146097 * b + 400" "146097 * b - 700 \<le> 400 * days_before (b + 1)"
proof -
  define p q r where "p = b div 4" and "q = b div 100" and "r = b div 400"
  have "4 * p \<le> b" "b < 4 * p + 4" "100 * q \<le> b" "b < 100 * q + 100" "400 * r \<le> b" "b < 400 * r + 400"
    unfolding p_def q_def r_def by (simp_all only: floor_bounds zero_less_numeral)
  moreover have "days_before (b + 1) = b * 365 + p - q + r"
    by (simp add: days_before_def p_def q_def r_def)
  ultimately show "400 * days_before (b + 1) < 146097 * b + 400"
    "146097 * b - 700 \<le> 400 * days_before (b + 1)" by linarith+
qed

lemma year_of_bounds: "days_before (year_of d) < d \<and> d \<le> days_before (year_of d + 1)"
proof -
  define a where "a = (400 * (d - 1)) div 146097"
  have fl: "146097 * a \<le> 400 * (d - 1)" "400 * (d - 1) < 146097 * a + 146097"
    unfolding a_def by (simp_all only: floor_bounds zero_less_numeral)
  have lo: "days_before a < d"
    using fl days_before_bounds(1) [of "a - 1"] by simp
  have hi: "d \<le> days_before (a + 3)"
    using fl days_before_bounds(2) [of "a + 2"] by (simp add: add.commute)
  show ?thesis
    using lo hi unfolding year_of_def Let_def a_def [symmetric]
    by (auto simp: add.commute add.left_commute)
qed

lemma year_of_unique:
  assumes "days_before y < d" and "d \<le> days_before (y + 1)"
  shows "year_of d = y"
proof (rule ccontr)
  assume "year_of d \<noteq> y"
  then consider "year_of d + 1 \<le> y" | "y + 1 \<le> year_of d" by linarith
  then show False
    using assms year_of_bounds [of d] by cases (use days_before_mono in fastforce)+
qed

section \<open>Months\<close>

definition days_before_month :: "int \<Rightarrow> int \<Rightarrow> int" where
  "days_before_month y m =
     (let leap = (if is_leap y then 1 else 0) in
      if m \<le> 1 then 0 else if m \<le> 2 then 31 else if m \<le> 3 then 59 + leap
      else if m \<le> 4 then 90 + leap else if m \<le> 5 then 120 + leap else if m \<le> 6 then 151 + leap
      else if m \<le> 7 then 181 + leap else if m \<le> 8 then 212 + leap else if m \<le> 9 then 243 + leap
      else if m \<le> 10 then 273 + leap else if m \<le> 11 then 304 + leap else if m \<le> 12 then 334 + leap
      else 365 + leap)"

text \<open>The ordinal of the first day of a month; month 13 is January of the next year.\<close>

definition month_first :: "int \<Rightarrow> int \<Rightarrow> day" where
  "month_first y m = days_before y + days_before_month y m + 1"

definition month_of_yday :: "int \<Rightarrow> int \<Rightarrow> int" where
  "month_of_yday y n =
     (if n \<le> days_before_month y 2 then 1 else if n \<le> days_before_month y 3 then 2
      else if n \<le> days_before_month y 4 then 3 else if n \<le> days_before_month y 5 then 4
      else if n \<le> days_before_month y 6 then 5 else if n \<le> days_before_month y 7 then 6
      else if n \<le> days_before_month y 8 then 7 else if n \<le> days_before_month y 9 then 8
      else if n \<le> days_before_month y 10 then 9 else if n \<le> days_before_month y 11 then 10
      else if n \<le> days_before_month y 12 then 11 else 12)"

text \<open>\<open>day.replace(day=1)\<close>\<close>

definition first_of_month :: "day \<Rightarrow> day" where
  "first_of_month d =
     (let y = year_of d; m = month_of_yday y (d - days_before y) in month_first y m)"

text \<open>\<open>day.weekday()\<close>: Monday is 0\<close>

definition weekday :: "day \<Rightarrow> int" where
  "weekday d = (d - 1) mod 7"

definition day_of_month :: "day \<Rightarrow> int" where
  "day_of_month d = d - first_of_month d + 1"

lemma month_span:
  assumes "1 \<le> m" and "m \<le> 12"
  shows "28 \<le> month_first y (m + 1) - month_first y m"
    and "month_first y (m + 1) - month_first y m \<le> 31"
proof -
  have "m = 1 \<or> m = 2 \<or> m = 3 \<or> m = 4 \<or> m = 5 \<or> m = 6 \<or> m = 7 \<or> m = 8 \<or> m = 9 \<or> m = 10
      \<or> m = 11 \<or> m = 12"
    using assms by presburger
  then show "28 \<le> month_first y (m + 1) - month_first y m"
    and "month_first y (m + 1) - month_first y m \<le> 31"
    by (elim disjE; simp add: month_first_def days_before_month_def Let_def)+
qed

lemma month_first_13: "month_first y 13 = month_first (y + 1) 1"
  by (simp add: month_first_def days_before_month_def days_before_Suc)

lemma month_of_yday_bounds:
  assumes "1 \<le> n" and "n \<le> days_before_month y 13"
  shows "1 \<le> month_of_yday y n \<and> month_of_yday y n \<le> 12
    \<and> days_before_month y (month_of_yday y n) < n
    \<and> n \<le> days_before_month y (month_of_yday y n + 1)"
  using assms by (auto simp: month_of_yday_def days_before_month_def Let_def)

lemma days_before_month_ends:
  "days_before_month y 1 = 0" "days_before_month y 13 = (if is_leap y then 366 else 365)"
  by (simp_all add: days_before_month_def)

lemma first_of_month_bounds:
  obtains y m where "1 \<le> m" "m \<le> 12" "first_of_month d = month_first y m"
    "month_first y m \<le> d" "d < month_first y (m + 1)"
proof -
  define y where "y = year_of d"
  define n where "n = d - days_before y"
  define m where "m = month_of_yday y n"
  have "1 \<le> n" "n \<le> days_before_month y 13"
    using year_of_bounds [of d]
    by (auto simp: n_def y_def days_before_Suc days_before_month_ends)
  from month_of_yday_bounds [OF this]
  have "1 \<le> m" "m \<le> 12" "days_before_month y m < n" "n \<le> days_before_month y (m + 1)"
    by (auto simp: m_def)
  then show thesis
    by (intro that [of m y]) (auto simp: first_of_month_def month_first_def Let_def y_def n_def m_def)
qed

lemma days_before_month_mono:
  "m \<le> k \<Longrightarrow> days_before_month y m \<le> days_before_month y k"
  by (auto simp: days_before_month_def Let_def)

lemma first_of_month_unique:
  assumes m: "1 \<le> m" "m \<le> 12" and d: "month_first y m \<le> d" "d < month_first y (m + 1)"
  shows "first_of_month d = month_first y m"
proof -
  have le13: "month_first y (m + 1) \<le> month_first y 13"
    using days_before_month_mono [of "m + 1" 13 y] m by (simp add: month_first_def)
  have ge1: "month_first y 1 \<le> month_first y m"
    using days_before_month_mono [of 1 m y] m by (simp add: month_first_def)
  have "days_before y < d" using ge1 d by (simp add: month_first_def days_before_month_ends)
  moreover have "d \<le> days_before (y + 1)"
    using le13 d by (simp add: month_first_def days_before_month_ends days_before_Suc)
  ultimately have y: "year_of d = y" by (rule year_of_unique)
  obtain y' m' where m': "1 \<le> m'" "m' \<le> 12" "first_of_month d = month_first y' m'"
    "month_first y' m' \<le> d" "d < month_first y' (m' + 1)" and "y' = year_of d"
  proof -
    define n where "n = d - days_before y"
    have "1 \<le> n" "n \<le> days_before_month y 13"
      using \<open>days_before y < d\<close> \<open>d \<le> days_before (y + 1)\<close>
      by (auto simp: n_def days_before_Suc days_before_month_ends)
    from month_of_yday_bounds [OF this] show thesis
      by (intro that [of "month_of_yday y n" y])
        (auto simp: y first_of_month_def month_first_def Let_def n_def)
  qed
  have "m' = m"
  proof (rule ccontr)
    assume "m' \<noteq> m"
    then consider "m' + 1 \<le> m" | "m + 1 \<le> m'" by linarith
    then show False
      using days_before_month_mono [of "m' + 1" m y] days_before_month_mono [of "m + 1" m' y] m' d y
        \<open>y' = year_of d\<close>
      by cases (auto simp: month_first_def)
  qed
  then show ?thesis using m' y \<open>y' = year_of d\<close> by simp
qed

text \<open>
  \<open>(day.replace(day=1) + timedelta(days=32)).replace(day=1)\<close> is the first day of the next
  month: no month has more than 31 days and none fewer than 28.
\<close>

definition first_of_next_month :: "day \<Rightarrow> day" where
  "first_of_next_month d = first_of_month (first_of_month d + 32)"

lemma month_first_cases:
  assumes "1 \<le> m" "m \<le> 12"
  obtains y' m' where "1 \<le> m'" "m' \<le> 12" "month_first y (m + 1) = month_first y' m'"
proof (cases "m = 12")
  case True
  then show thesis using that [of 1 "y + 1"] by (simp add: month_first_13)
next
  case False
  then show thesis using that [of "m + 1" y] assms by simp
qed

lemma first_of_next_month_eq:
  assumes m: "1 \<le> m" "m \<le> 12" and d: "month_first y m \<le> d" "d < month_first y (m + 1)"
  shows "first_of_next_month d = month_first y (m + 1)"
proof -
  obtain y' m' where n: "1 \<le> m'" "m' \<le> 12" "month_first y (m + 1) = month_first y' m'"
    using month_first_cases [OF m] .
  have "first_of_month (month_first y m + 32) = month_first y' m'"
    using month_span [OF m, of y] month_span [OF n(1,2), of y'] n
    by (intro first_of_month_unique) auto
  then show ?thesis
    unfolding first_of_next_month_def first_of_month_unique [OF m d] n(3) .
qed

lemma first_of_month_le [period_simps]: "first_of_month d \<le> d"
  by (rule first_of_month_bounds [of d]) simp

lemma first_of_next_month_gt [period_simps]: "d < first_of_next_month d"
  by (rule first_of_month_bounds [of d]) (simp add: first_of_next_month_eq)

lemma first_of_month_within:
  assumes "first_of_month d \<le> e" and "e < first_of_next_month d"
  shows "first_of_month e = first_of_month d"
proof -
  obtain y m where m: "1 \<le> m" "m \<le> 12" "first_of_month d = month_first y m"
    "month_first y m \<le> d" "d < month_first y (m + 1)"
    by (rule first_of_month_bounds)
  then show ?thesis
    using assms first_of_month_unique [OF m(1,2)] by (simp add: first_of_next_month_eq)
qed

lemma first_of_next_month_within:
  assumes "first_of_month d = first_of_month e"
  shows "first_of_next_month d = first_of_next_month e"
  using assms by (simp add: first_of_next_month_def)

lemma weekday_bounds: "0 \<le> weekday d" "weekday d < 7"
  by (simp_all add: weekday_def)

lemma monday_within:
  assumes "d - weekday d \<le> e" and "e < d - weekday d + 7"
  shows "e - weekday e = d - weekday d"
  using assms unfolding weekday_def by presburger


end
