(* ===== verification/Calendar_Protocols.thy ===== *)
theory Calendar_Protocols
  imports Civil_Dates
begin

text \<open>
  The two structural protocols a trading calendar is used through. \<open>scal\<close> is
  \<open>common/scheduling.py\<close>'s \<open>SessionCalendar\<close>; \<open>tcal\<close> extends it to
  \<open>trading_calendar.py\<close>'s \<open>TradingCalendar\<close>, so every value of the second is one of the
  first. The locales \<open>session_calendar\<close> and \<open>trading_calendar\<close> state what a provider
  promises: \<open>inv c\<close> says that \<open>c\<close> is a proper calendar, \<open>sess c\<close> lists its sessions and
  \<open>opn c\<close>, \<open>cls c\<close> are their opening and closing instants; the operations are then exactly
  the look-ups in that table.

  A time zone (a \<open>ZoneInfo\<close>, whose data is not in the repository) is the pair of the local
  date of an instant and the instant of a local midnight.
\<close>

section \<open>Time zones\<close>

record zone =
  z_date :: "instant \<Rightarrow> day"
  z_midnight :: "day \<Rightarrow> instant"

text \<open>A zone in which midnight is the first instant of its date.\<close>

definition zone_ok :: "zone \<Rightarrow> bool" where
  "zone_ok z \<longleftrightarrow> (\<forall>t d. d \<le> z_date z t \<longleftrightarrow> z_midnight z d \<le> t)"

lemma zone_date_ge: "zone_ok z \<Longrightarrow> d \<le> z_date z t \<longleftrightarrow> z_midnight z d \<le> t"
  by (simp add: zone_ok_def)

lemma zone_date_less: "zone_ok z \<Longrightarrow> z_date z t < d \<longleftrightarrow> t < z_midnight z d"
  using zone_date_ge [of z d t] by linarith

lemma zone_midnight_mono:
  assumes "zone_ok z" and "d \<le> e"
  shows "z_midnight z d \<le> z_midnight z e"
proof -
  have "e \<le> z_date z (z_midnight z e)" using assms(1) by (simp add: zone_date_ge)
  then have "d \<le> z_date z (z_midnight z e)" using assms(2) by simp
  then show ?thesis using assms(1) by (simp add: zone_date_ge)
qed

lemma zone_date_mono:
  assumes "zone_ok z" and "t \<le> u"
  shows "z_date z t \<le> z_date z u"
proof -
  have "z_midnight z (z_date z t) \<le> t" using assms(1) zone_date_ge [of z "z_date z t" t] by simp
  then show ?thesis using assms by (simp add: zone_date_ge)
qed

lemma zone_dateI:
  assumes "zone_ok z" and "z_midnight z d \<le> t" and "t < z_midnight z (d + 1)"
  shows "z_date z t = d"
  using assms zone_date_ge [of z d t] zone_date_less [of z t "d + 1"] by simp

text \<open>The zone at a fixed offset from UTC; 719163 is the ordinal of 1970-01-01.\<close>

definition fixed_zone :: "timedelta \<Rightarrow> zone" where
  "fixed_zone off =
     \<lparr>z_date = (\<lambda>t. (t + off) div one_day + 719163),
      z_midnight = (\<lambda>d. (d - 719163) * one_day - off)\<rparr>"

lemma fixed_zone_ok [simp]: "zone_ok (fixed_zone off)"
proof -
  have "d \<le> (t + off) div one_day + 719163 \<longleftrightarrow> (d - 719163) * one_day - off \<le> t" for t d
  proof -
    have "d - 719163 \<le> (t + off) div one_day \<longleftrightarrow> (d - 719163) * one_day \<le> t + off"
      using floor_bounds [of one_day "t + off"] by (auto simp: algebra_simps)
    then show ?thesis by linarith
  qed
  then show ?thesis by (simp add: zone_ok_def fixed_zone_def)
qed

abbreviation UTC :: zone where "UTC \<equiv> fixed_zone 0"

section \<open>The protocols\<close>

datatype cal_error = CalendarRangeError | NaiveDatetimeError | UnknownCalendarError | LibraryError

record scal =
  session_open :: "day \<Rightarrow> cal_error + instant"
  session_close :: "day \<Rightarrow> cal_error + instant"
  next_session :: "day \<Rightarrow> cal_error + day"
  last_completed_session :: "instant \<Rightarrow> cal_error + day option"

record tcal = scal +
  tz :: zone
  sessions_overlapping :: "instant \<Rightarrow> instant \<Rightarrow> cal_error + day list"
  session_in_progress :: "instant \<Rightarrow> cal_error + day option"

text \<open>\<open>require_aware\<close>: refuse a naive stamp among the given ones; \<open>None\<close> passes.\<close>

definition require_aware :: "stamp option list \<Rightarrow> cal_error + unit" where
  "require_aware stamps =
     (if list_all (\<lambda>s. case s of None \<Rightarrow> True | Some t \<Rightarrow> is_aware t) stamps
      then Inr () else Inl NaiveDatetimeError)"

text \<open>\<open>session_of\<close> and \<open>local_midnight\<close>, on an aware timestamp\<close>

definition session_of :: "instant \<Rightarrow> tcal \<Rightarrow> day" where
  "session_of timestamp calendar = z_date (tz calendar) timestamp"

definition local_midnight :: "day \<Rightarrow> tcal \<Rightarrow> instant" where
  "local_midnight session calendar = z_midnight (tz calendar) session"

section \<open>What a provider promises\<close>

locale session_calendar =
  fixes proto :: "'c \<Rightarrow> 'p scal_scheme"
    and inv :: "'c \<Rightarrow> bool"
    and sess :: "'c \<Rightarrow> day list"
    and opn :: "'c \<Rightarrow> day \<Rightarrow> instant"
    and cls :: "'c \<Rightarrow> day \<Rightarrow> instant"
    and start_day :: "'c \<Rightarrow> day"
    and start_at :: "'c \<Rightarrow> instant"
  assumes sess_ascending: "inv c \<Longrightarrow> ascending (sess c)"
    and open_eq: "inv c \<Longrightarrow> s \<in> set (sess c) \<Longrightarrow> session_open (proto c) s = Inr (opn c s)"
    and close_eq: "inv c \<Longrightarrow> s \<in> set (sess c) \<Longrightarrow> session_close (proto c) s = Inr (cls c s)"
    and open_less_close: "inv c \<Longrightarrow> s \<in> set (sess c) \<Longrightarrow> opn c s < cls c s"
    and sessions_disjoint: "inv c \<Longrightarrow> s \<in> set (sess c) \<Longrightarrow> s' \<in> set (sess c) \<Longrightarrow> s < s' \<Longrightarrow>
      cls c s \<le> opn c s'"
    and next_session_eq: "inv c \<Longrightarrow> start_day c \<le> d \<Longrightarrow> filter (\<lambda>s. d < s) (sess c) \<noteq> [] \<Longrightarrow>
      next_session (proto c) d = Inr (hd (filter (\<lambda>s. d < s) (sess c)))"
    and next_session_end: "inv c \<Longrightarrow> filter (\<lambda>s. d < s) (sess c) = [] \<Longrightarrow>
      \<exists>e. next_session (proto c) d = Inl e"
    and last_completed_eq: "inv c \<Longrightarrow> start_at c \<le> t \<Longrightarrow>
      last_completed_session (proto c) t =
        Inr (if filter (\<lambda>s. cls c s \<le> t) (sess c) = [] then None
             else Some (last (filter (\<lambda>s. cls c s \<le> t) (sess c))))"
    and last_completed_before: "inv c \<Longrightarrow> t < start_at c \<Longrightarrow>
      last_completed_session (proto c) t = Inl CalendarRangeError"
begin

lemma close_less:
  assumes "inv c" "s \<in> set (sess c)" "s' \<in> set (sess c)" "s < s'"
  shows "cls c s < cls c s'"
  using sessions_disjoint [OF assms] open_less_close [OF assms(1,3)] by linarith

lemma close_le_iff:
  assumes "inv c" "s \<in> set (sess c)" "s' \<in> set (sess c)"
  shows "cls c s \<le> cls c s' \<longleftrightarrow> s \<le> s'"
  using close_less [OF assms(1,2,3)] close_less [OF assms(1,3,2)] by (cases s s' rule: linorder_cases) auto

lemma next_session_Inr:
  assumes "inv c" "start_day c \<le> d" "next_session (proto c) d = Inr s"
  shows "s \<in> set (sess c)" and "d < s" and "\<And>s'. s' \<in> set (sess c) \<Longrightarrow> d < s' \<Longrightarrow> s \<le> s'"
proof -
  have ne: "filter (\<lambda>s. d < s) (sess c) \<noteq> []"
    using next_session_end [OF assms(1), of d] assms(3) by auto
  have s: "s = hd (filter (\<lambda>s. d < s) (sess c))"
    using next_session_eq [OF assms(1,2) ne] assms(3) by simp
  show "s \<in> set (sess c)" "d < s" using hd_filter_in [OF ne] s by auto
  show "\<And>s'. s' \<in> set (sess c) \<Longrightarrow> d < s' \<Longrightarrow> s \<le> s'"
    using hd_filter_le(1) [OF sess_ascending [OF assms(1)]] s by blast
qed

lemma next_session_least:
  assumes "inv c" "start_day c \<le> d" "s \<in> set (sess c)" "d < s"
    "\<And>s'. s' \<in> set (sess c) \<Longrightarrow> d < s' \<Longrightarrow> s \<le> s'"
  shows "next_session (proto c) d = Inr s"
proof -
  have "filter (\<lambda>s. d < s) (sess c) \<noteq> []" using assms(3,4) by (metis empty_filter_conv)
  then show ?thesis
    using next_session_eq [OF assms(1,2)]
      hd_filter_eqI [where P = "\<lambda>s. d < s", OF sess_ascending [OF assms(1)] assms(3,4,5)]
    by simp
qed

lemma next_session_exists:
  assumes "inv c" "start_day c \<le> d" "s \<in> set (sess c)" "d < s"
  obtains s' where "next_session (proto c) d = Inr s'" "s' \<in> set (sess c)" "d < s'" "s' \<le> s"
proof -
  have "filter (\<lambda>s. d < s) (sess c) \<noteq> []" using assms(3,4) by (metis empty_filter_conv)
  then obtain s' where s': "next_session (proto c) d = Inr s'"
    using next_session_eq [OF assms(1,2)] by blast
  show thesis using that [OF s'] next_session_Inr [OF assms(1,2) s'] assms(3,4) by blast
qed

lemma last_completed_None:
  assumes "inv c" "start_at c \<le> t" "last_completed_session (proto c) t = Inr None"
    and "s \<in> set (sess c)"
  shows "t < cls c s"
  using last_completed_eq [OF assms(1,2)] assms(3,4)
  by (auto split: if_splits simp: filter_empty_conv not_le)

lemma last_completed_Some:
  assumes "inv c" "start_at c \<le> t" "last_completed_session (proto c) t = Inr (Some s)"
  shows "s \<in> set (sess c)" and "cls c s \<le> t"
    and "\<And>s'. s' \<in> set (sess c) \<Longrightarrow> s < s' \<Longrightarrow> t < cls c s'"
proof -
  let ?f = "filter (\<lambda>s. cls c s \<le> t) (sess c)"
  have ne: "?f \<noteq> []" and s: "s = last ?f"
    using last_completed_eq [OF assms(1,2)] assms(3) by (auto split: if_splits)
  show "s \<in> set (sess c)" "cls c s \<le> t" using last_filter_in [OF ne] s by auto
  show "t < cls c s'" if "s' \<in> set (sess c)" "s < s'" for s'
  proof (rule ccontr)
    assume "\<not> t < cls c s'"
    then have "s' \<le> s"
      using last_filter_le(1) [OF sess_ascending [OF assms(1)] that(1)] s by auto
    then show False using that(2) by simp
  qed
qed

end

locale trading_calendar = session_calendar proto inv sess opn cls start_day start_at
  for proto :: "'c \<Rightarrow> tcal" and inv :: "'c \<Rightarrow> bool" and sess :: "'c \<Rightarrow> day list"
    and opn :: "'c \<Rightarrow> day \<Rightarrow> instant" and cls :: "'c \<Rightarrow> day \<Rightarrow> instant"
    and start_day :: "'c \<Rightarrow> day" and start_at :: "'c \<Rightarrow> instant" +
  assumes tz_ok: "inv c \<Longrightarrow> zone_ok (tz (proto c))"
    and start_at_eq: "inv c \<Longrightarrow> start_at c = z_midnight (tz (proto c)) (start_day c)"
    and open_in_day: "inv c \<Longrightarrow> s \<in> set (sess c) \<Longrightarrow> z_midnight (tz (proto c)) s \<le> opn c s"
    and close_in_day: "inv c \<Longrightarrow> s \<in> set (sess c) \<Longrightarrow> cls c s < z_midnight (tz (proto c)) (s + 1)"
    and sess_covered: "inv c \<Longrightarrow> s \<in> set (sess c) \<Longrightarrow> start_day c \<le> s"
    and overlapping_eq: "inv c \<Longrightarrow> start_at c \<le> t \<Longrightarrow>
      sessions_overlapping (proto c) t u =
        Inr (filter (\<lambda>s. opn c s < u \<and> t < cls c s) (sess c))"
    and overlapping_before: "inv c \<Longrightarrow> t < start_at c \<Longrightarrow>
      sessions_overlapping (proto c) t u = Inl CalendarRangeError"
    and in_progress_eq: "inv c \<Longrightarrow> start_at c \<le> t \<Longrightarrow>
      session_in_progress (proto c) t = Inr (find (\<lambda>s. opn c s \<le> t \<and> t < cls c s) (sess c))"
    and in_progress_before: "inv c \<Longrightarrow> t < start_at c \<Longrightarrow>
      session_in_progress (proto c) t = Inl CalendarRangeError"
    and next_before: "inv c \<Longrightarrow> d < start_day c \<Longrightarrow> next_session (proto c) d = Inl CalendarRangeError"
begin

lemma next_session_spec:
  assumes "inv c" "next_session (proto c) d = Inr s"
  shows "s \<in> set (sess c)" and "d < s" and "\<And>s'. s' \<in> set (sess c) \<Longrightarrow> d < s' \<Longrightarrow> s \<le> s'"
proof -
  have "start_day c \<le> d" using next_before [OF assms(1), of d] assms(2) by (cases "start_day c \<le> d") auto
  from next_session_Inr [OF assms(1) this assms(2)]
  show "s \<in> set (sess c)" "d < s" "\<And>s'. s' \<in> set (sess c) \<Longrightarrow> d < s' \<Longrightarrow> s \<le> s'" by blast+
qed

lemma date_of_open: "inv c \<Longrightarrow> s \<in> set (sess c) \<Longrightarrow> z_date (tz (proto c)) (opn c s) = s"
  using open_in_day [of c s] close_in_day [of c s] open_less_close [of c s] tz_ok [of c]
  by (intro zone_dateI) auto

lemma date_of_close: "inv c \<Longrightarrow> s \<in> set (sess c) \<Longrightarrow> z_date (tz (proto c)) (cls c s) = s"
  using open_in_day [of c s] close_in_day [of c s] open_less_close [of c s] tz_ok [of c]
  by (intro zone_dateI) auto

end

end
