(* ===== verification/Market_Enums.thy ===== *)
theory Market_Enums
  imports Prelude
begin

text \<open>
  The closed vocabularies of \<open>server/common/enums\<close>: granularities with their offsets, data
  sources, tapes, update and expiry types, and the machinery of \<open>composed_enum.py\<close> that
  builds a superset enum out of per-market subsets and narrows it back. The broker code
  tables of \<open>broker_codes.py\<close> are searched by the generic \<open>from_broker_code\<close> and
  \<open>from_standard\<close>.

  An enum class under construction is its \<open>__members__\<close> table: an association list from
  member name to value, in definition order.
\<close>

section \<open>Plain enums\<close>

datatype granularity =
  ONE_MINUTE | FIVE_MINUTES | THIRTY_MINUTES | ONE_HOUR | ONE_DAY | ONE_WEEK | ONE_MONTH

fun offset_of :: "granularity \<Rightarrow> timedelta" where
  "offset_of ONE_MINUTE = minute"
| "offset_of FIVE_MINUTES = 5 * minute"
| "offset_of THIRTY_MINUTES = 30 * minute"
| "offset_of ONE_HOUR = hour"
| "offset_of ONE_DAY = one_day"
| "offset_of ONE_WEEK = 7 * one_day"
| "offset_of ONE_MONTH = 28 * one_day"

lemma offset_of_pos [simp]: "0 < offset_of g"
  by (cases g) simp_all

datatype data_source = IB_API | ALPACA_API | MANUAL_ENTRY

datatype asset_type = STOCK | CRYPTO | OPTION

datatype data_type = MARKET_ACTIVITY | QUOTE | TRADE

datatype expiry_type = BULK | BUFFER_1K | BUFFER_10K | BUFFER_100K | ROLLING

datatype update_type = STATIC | DAILY | STREAM

fun expiry_value :: "expiry_type \<Rightarrow> int" where
  "expiry_value BULK = 1"
| "expiry_value BUFFER_1K = 2"
| "expiry_value BUFFER_10K = 3"
| "expiry_value BUFFER_100K = 4"
| "expiry_value ROLLING = 5"

fun update_value :: "update_type \<Rightarrow> int" where
  "update_value STATIC = 1"
| "update_value DAILY = 2"
| "update_value STREAM = 3"

text \<open>The two integer enums are ordered by value, as \<open>IntEnum\<close> members are.\<close>

lemma update_value_inject: "update_value a = update_value b \<longleftrightarrow> a = b"
  by (cases a; cases b) simp_all

lemma expiry_value_inject: "expiry_value a = expiry_value b \<longleftrightarrow> a = b"
  by (cases a; cases b) simp_all

instantiation update_type :: linorder
begin

definition less_eq_update_type :: "update_type \<Rightarrow> update_type \<Rightarrow> bool" where
  "a \<le> b \<longleftrightarrow> update_value a \<le> update_value b"

definition less_update_type :: "update_type \<Rightarrow> update_type \<Rightarrow> bool" where
  "a < b \<longleftrightarrow> update_value a < update_value b"

instance
  by standard (auto simp: less_eq_update_type_def less_update_type_def update_value_inject)

end

instantiation expiry_type :: linorder
begin

definition less_eq_expiry_type :: "expiry_type \<Rightarrow> expiry_type \<Rightarrow> bool" where
  "a \<le> b \<longleftrightarrow> expiry_value a \<le> expiry_value b"

definition less_expiry_type :: "expiry_type \<Rightarrow> expiry_type \<Rightarrow> bool" where
  "a < b \<longleftrightarrow> expiry_value a < expiry_value b"

instance
  by standard (auto simp: less_eq_expiry_type_def less_expiry_type_def expiry_value_inject)

end

section \<open>Composed enums\<close>

type_synonym members = "(string \<times> string) list"

datatype compose_error = NameCollision string string string

text \<open>
  One member of one subset: already present with the same value is skipped, present with
  another value raises, absent is added with \<open>extend_enum\<close>.
\<close>

definition compose_member :: "members \<Rightarrow> string \<times> string \<Rightarrow> compose_error + members" where
  "compose_member cls m =
     (case m of (name, v) \<Rightarrow>
        (case map_of cls name of
           Some v' \<Rightarrow> if v' \<noteq> v then Inl (NameCollision name v v') else Inr cls
         | None \<Rightarrow> Inr (cls @ [(name, v)])))"

text \<open>
  The two nested loops of \<open>compose\<close>. The members added before a collision stay added, so
  the error comes with the class as it was left.
\<close>

fun compose_members :: "members \<Rightarrow> members \<Rightarrow> members \<times> compose_error option" where
  "compose_members cls [] = (cls, None)"
| "compose_members cls (m # ms) =
     (case compose_member cls m of
        Inl e \<Rightarrow> (cls, Some e)
      | Inr cls' \<Rightarrow> compose_members cls' ms)"

fun compose :: "members \<Rightarrow> members list \<Rightarrow> members \<times> compose_error option" where
  "compose cls [] = (cls, None)"
| "compose cls (s # ss) =
     (case compose_members cls s of
        (cls', Some e) \<Rightarrow> (cls', Some e)
      | (cls', None) \<Rightarrow> compose cls' ss)"

text \<open>\<open>SubsetStrEnum.from_superset\<close>: the member of the subset with this value.\<close>

definition from_superset :: "members \<Rightarrow> string \<Rightarrow> string + string" where
  "from_superset sub raw =
     (case find (\<lambda>m. snd m = raw) sub of
        Some m \<Rightarrow> Inr (fst m)
      | None \<Rightarrow> Inl raw)"

definition UsEquityFeed :: members where
  "UsEquityFeed = [(''IEX'', ''IEX''), (''SIP'', ''SIP'')]"

definition NoTapeFeed :: members where
  "NoTapeFeed = [(''NOT_APPLICABLE'', ''NOT_APPLICABLE'')]"

definition Feed :: "members \<times> compose_error option" where
  "Feed = compose [] [UsEquityFeed, NoTapeFeed]"

text \<open>The members \<open>Feed\<close> ends up with, as the type the rest of the model uses.\<close>

datatype feed = IEX | SIP | NOT_APPLICABLE

lemma Feed_members:
  "Feed = ([(''IEX'', ''IEX''), (''SIP'', ''SIP''), (''NOT_APPLICABLE'', ''NOT_APPLICABLE'')], None)"
  by (simp add: Feed_def UsEquityFeed_def NoTapeFeed_def compose_member_def)

subsection \<open>What composition guarantees\<close>

lemma compose_member_extends:
  "compose_member cls m = Inr cls' \<Longrightarrow>
     map_of cls \<subseteq>\<^sub>m map_of cls' \<and> map_of cls' (fst m) = Some (snd m) \<and>
     (distinct (map fst cls) \<longrightarrow> distinct (map fst cls'))"
  by (auto simp: compose_member_def map_le_def map_add_def map_of_eq_None_iff [symmetric]
      split: prod.splits option.splits if_splits)

lemma compose_members_extends:
  "compose_members cls s = (cls', r) \<Longrightarrow>
     map_of cls \<subseteq>\<^sub>m map_of cls' \<and> (distinct (map fst cls) \<longrightarrow> distinct (map fst cls')) \<and>
     (r = None \<longrightarrow> (\<forall>m \<in> set s. map_of cls' (fst m) = Some (snd m)))"
proof (induction cls s rule: compose_members.induct)
  case (1 cls)
  then show ?case by simp
next
  case (2 cls m ms)
  show ?case
  proof (cases "compose_member cls m")
    case (Inl e)
    with "2.prems" show ?thesis by auto
  next
    case (Inr c)
    note step = compose_member_extends [OF Inr]
    from Inr "2.prems" have "compose_members c ms = (cls', r)" by simp
    note rest = "2.IH" [OF Inr this]
    have "map_of cls' (fst m) = Some (snd m)"
      using step rest by (metis domI map_le_def)
    then show ?thesis using step rest map_le_trans by auto
  qed
qed

lemma compose_extends:
  "compose cls ss = (cls', r) \<Longrightarrow>
     map_of cls \<subseteq>\<^sub>m map_of cls' \<and> (distinct (map fst cls) \<longrightarrow> distinct (map fst cls')) \<and>
     (r = None \<longrightarrow> (\<forall>s \<in> set ss. \<forall>m \<in> set s. map_of cls' (fst m) = Some (snd m)))"
proof (induction cls ss rule: compose.induct)
  case (1 cls)
  then show ?case by simp
next
  case (2 cls s ss)
  obtain c q where c: "compose_members cls s = (c, q)" by fastforce
  note step = compose_members_extends [OF c]
  show ?case
  proof (cases q)
    case (Some e)
    with "2.prems" c step show ?thesis by auto
  next
    case None
    with "2.prems" c have "compose c ss = (cls', r)" by simp
    note rest = "2.IH" [OF c [symmetric] None this]
    have "\<forall>m \<in> set s. map_of cls' (fst m) = Some (snd m)"
      using step rest None by (metis domI map_le_def)
    then show ?thesis using step rest map_le_trans by auto
  qed
qed

lemma compose_member_origin:
  "compose_member cls m = Inr cls' \<Longrightarrow> set cls' \<subseteq> insert m (set cls)"
  by (auto simp: compose_member_def split: prod.splits option.splits if_splits)

lemma compose_members_origin:
  "compose_members cls s = (cls', r) \<Longrightarrow> set cls' \<subseteq> set cls \<union> set s"
proof (induction cls s rule: compose_members.induct)
  case (2 cls m ms)
  show ?case
  proof (cases "compose_member cls m")
    case (Inr c)
    with "2.prems" have "compose_members c ms = (cls', r)" by simp
    with "2.IH" [OF Inr] compose_member_origin [OF Inr] show ?thesis by auto
  qed (use "2.prems" in auto)
qed simp

lemma compose_origin:
  "compose cls ss = (cls', r) \<Longrightarrow> set cls' \<subseteq> set cls \<union> (\<Union>s \<in> set ss. set s)"
proof (induction cls ss rule: compose.induct)
  case (2 cls s ss)
  obtain c q where c: "compose_members cls s = (c, q)" by fastforce
  show ?case
  proof (cases q)
    case None
    with "2.prems" c have "compose c ss = (cls', r)" by simp
    with "2.IH" [OF c [symmetric] None] compose_members_origin [OF c] show ?thesis by auto
  qed (use "2.prems" c compose_members_origin [OF c] in auto)
qed simp

lemma from_superset_Inr:
  "from_superset s v = Inr n \<Longrightarrow> (n, v) \<in> set s"
  by (auto simp: from_superset_def find_Some_iff split: option.splits)

lemma from_superset_Inl_iff:
  "(\<exists>e. from_superset s v = Inl e) \<longleftrightarrow> v \<notin> snd ` set s"
proof (cases "find (\<lambda>m. snd m = v) s")
  case None
  then have "v \<notin> snd ` set s" by (auto simp: find_None_iff)
  with None show ?thesis by (simp add: from_superset_def)
next
  case (Some m)
  then have "m \<in> set s" "snd m = v" by (auto simp: find_Some_iff)
  with Some show ?thesis by (auto simp: from_superset_def)
qed

section \<open>Broker code tables\<close>

text \<open>
  A broker enum is the list of its members \<open>(broker_code, standard)\<close> in definition order;
  both searches return the first match or raise \<open>ValueError\<close> with the value asked for.
\<close>

definition from_broker_code :: "('b \<times> 's) list \<Rightarrow> 'b \<Rightarrow> 'b + ('b \<times> 's)" where
  "from_broker_code cls code =
     (case find (\<lambda>m. fst m = code) cls of Some m \<Rightarrow> Inr m | None \<Rightarrow> Inl code)"

definition from_standard :: "('b \<times> 's) list \<Rightarrow> 's \<Rightarrow> 's + ('b \<times> 's)" where
  "from_standard cls std =
     (case find (\<lambda>m. snd m = std) cls of Some m \<Rightarrow> Inr m | None \<Rightarrow> Inl std)"

datatype exchange_code =
  X_AMEX | X_ARCA | X_BATS | X_BYX | X_CBOE | X_CHX | X_EDGA | X_EDGX | X_FINRA_ADF | X_IEX
| X_LTSE | X_MEMX | X_MIAX | X_NASDAQ | X_NSX | X_NYSE | X_OTC | X_OTHER | X_PEARL

definition AlpacaExchangeCode :: "(string \<times> exchange_code) list" where
  "AlpacaExchangeCode =
     [(''W'', X_CBOE), (''Y'', X_BYX), (''Z'', X_OTHER), (''J'', X_EDGA), (''K'', X_EDGX),
      (''M'', X_CHX), (''D'', X_FINRA_ADF), (''V'', X_IEX), (''I'', X_OTHER), (''L'', X_LTSE),
      (''U'', X_MEMX), (''E'', X_OTHER), (''H'', X_MIAX), (''T'', X_NASDAQ), (''Q'', X_NASDAQ),
      (''B'', X_NASDAQ), (''X'', X_NASDAQ), (''S'', X_NASDAQ), (''C'', X_NSX), (''N'', X_NYSE),
      (''A'', X_AMEX), (''P'', X_ARCA)]"

text \<open>Alpaca's \<open>TimeFrame(amount, unit)\<close> is kept as the pair it is built from.\<close>

datatype time_unit = U_Minute | U_Hour | U_Day | U_Week | U_Month

definition AlpacaGranularity :: "((int \<times> time_unit) \<times> granularity) list" where
  "AlpacaGranularity =
     [((1, U_Minute), ONE_MINUTE), ((5, U_Minute), FIVE_MINUTES), ((30, U_Minute), THIRTY_MINUTES),
      ((1, U_Hour), ONE_HOUR), ((1, U_Day), ONE_DAY), ((1, U_Week), ONE_WEEK),
      ((1, U_Month), ONE_MONTH)]"

lemma from_standard_total: "\<exists>m. from_standard AlpacaGranularity g = Inr m \<and> snd m = g"
  by (cases g) (simp_all add: from_standard_def AlpacaGranularity_def)

lemma from_broker_code_of_standard:
  assumes "distinct (map fst cls)" and "from_standard cls s = Inr m"
  shows "from_broker_code cls (fst m) = Inr m"
proof -
  from assms(2) have m: "m \<in> set cls"
    by (auto simp: from_standard_def find_Some_iff split: option.splits)
  then obtain m' where m': "find (\<lambda>x. fst x = fst m) cls = Some m'"
    by (metis (mono_tags) find_None_iff option.exhaust)
  then have "m' \<in> set cls" "fst m' = fst m" by (auto simp: find_Some_iff)
  with m assms(1) have "m' = m" by (metis distinct_map inj_onD)
  with m' show ?thesis by (simp add: from_broker_code_def)
qed

end
