(* ===== verification/Trading_Calendar.thy ===== *)
theory Trading_Calendar
  imports Calendar_Protocols Market_Enums
begin

text \<open>
  \<open>server/data/store/app/trading_calendar.py\<close>: the adapter that answers the
  \<open>TradingCalendar\<close> protocol from an \<open>exchange_calendars\<close> calendar, with its session table
  read out once and ranges answered by bisection. The library calendar is not in the
  repository: it is a value of the record \<open>xcal\<close>, whose documented behaviour is the
  predicate \<open>xcal_ok\<close>. \<open>table_xcal\<close> builds such a calendar from a table of sessions, for
  the concrete instances.
\<close>

section \<open>The library calendar\<close>

record xcal =
  xc_zone :: zone
  xc_sessions :: "day list"
  xc_opens :: "instant list"
  xc_closes :: "instant list"
  xc_session_open :: "day \<Rightarrow> cal_error + instant"
  xc_session_close :: "day \<Rightarrow> cal_error + instant"
  xc_is_session :: "day \<Rightarrow> bool"
  xc_date_to_session_previous :: "day \<Rightarrow> cal_error + day"
  xc_date_to_session_next :: "day \<Rightarrow> cal_error + day"
  xc_next_session :: "day \<Rightarrow> cal_error + day"
  xc_previous_session :: "day \<Rightarrow> cal_error + day"

text \<open>
  What the adapter relies on. The sessions ascend, each trades inside its own local date, and
  the look-up methods are what the library's documentation says; a label that is not a
  session, or a search past either end, is refused.
\<close>

definition xcal_table_ok :: "xcal \<Rightarrow> bool" where
  "xcal_table_ok c \<longleftrightarrow>
     zone_ok (xc_zone c) \<and> xc_sessions c \<noteq> [] \<and> ascending (xc_sessions c) \<and>
     length (xc_opens c) = length (xc_sessions c) \<and> length (xc_closes c) = length (xc_sessions c) \<and>
     (\<forall>i < length (xc_sessions c).
        z_midnight (xc_zone c) (xc_sessions c ! i) \<le> xc_opens c ! i \<and>
        xc_opens c ! i < xc_closes c ! i \<and>
        xc_closes c ! i < z_midnight (xc_zone c) (xc_sessions c ! i + 1))"

definition xcal_lookups_ok :: "xcal \<Rightarrow> bool" where
  "xcal_lookups_ok c \<longleftrightarrow>
     (\<forall>d. d \<notin> set (xc_sessions c) \<longrightarrow> (\<exists>e. xc_session_open c d = Inl e)) \<and>
     (\<forall>d. d \<notin> set (xc_sessions c) \<longrightarrow> (\<exists>e. xc_session_close c d = Inl e)) \<and>
     (\<forall>d. xc_is_session c d \<longleftrightarrow> d \<in> set (xc_sessions c)) \<and>
     (\<forall>d. hd (xc_sessions c) \<le> d \<and> d \<le> last (xc_sessions c) \<longrightarrow>
        xc_date_to_session_previous c d = Inr (last (filter (\<lambda>s. s \<le> d) (xc_sessions c)))) \<and>
     (\<forall>d. hd (xc_sessions c) \<le> d \<and> d \<le> last (xc_sessions c) \<longrightarrow>
        xc_date_to_session_next c d = Inr (hd (filter (\<lambda>s. d \<le> s) (xc_sessions c)))) \<and>
     (\<forall>d. last (xc_sessions c) < d \<longrightarrow> (\<exists>e. xc_date_to_session_next c d = Inl e)) \<and>
     (\<forall>s \<in> set (xc_sessions c). s < last (xc_sessions c) \<longrightarrow>
        xc_next_session c s = Inr (hd (filter (\<lambda>r. s < r) (xc_sessions c)))) \<and>
     (\<exists>e. xc_next_session c (last (xc_sessions c)) = Inl e) \<and>
     (\<forall>s \<in> set (xc_sessions c). hd (xc_sessions c) < s \<longrightarrow>
        xc_previous_session c s = Inr (last (filter (\<lambda>r. r < s) (xc_sessions c))))"

definition xcal_ok :: "xcal \<Rightarrow> bool" where
  "xcal_ok c \<longleftrightarrow> xcal_table_ok c \<and> xcal_lookups_ok c"

section \<open>Bisection\<close>

text \<open>The loops of the standard library's \<open>bisect_left\<close> and \<open>bisect_right\<close>.\<close>

function bisect_left_loop :: "'a::linorder list \<Rightarrow> 'a \<Rightarrow> nat \<Rightarrow> nat \<Rightarrow> nat" where
  "bisect_left_loop a x lo hi =
     (if lo < hi
      then let mid = (lo + hi) div 2
           in if a ! mid < x then bisect_left_loop a x (mid + 1) hi
              else bisect_left_loop a x lo mid
      else lo)"
  by pat_completeness auto
termination
  by (relation "measure (\<lambda>(a, x, lo, hi). hi - lo)") auto

function bisect_right_loop :: "'a::linorder list \<Rightarrow> 'a \<Rightarrow> nat \<Rightarrow> nat \<Rightarrow> nat" where
  "bisect_right_loop a x lo hi =
     (if lo < hi
      then let mid = (lo + hi) div 2
           in if x < a ! mid then bisect_right_loop a x lo mid
              else bisect_right_loop a x (mid + 1) hi
      else lo)"
  by pat_completeness auto
termination
  by (relation "measure (\<lambda>(a, x, lo, hi). hi - lo)") auto

definition bisect_left :: "'a::linorder list \<Rightarrow> 'a \<Rightarrow> nat" where
  "bisect_left a x = bisect_left_loop a x 0 (length a)"

definition bisect_right :: "'a::linorder list \<Rightarrow> 'a \<Rightarrow> nat" where
  "bisect_right a x = bisect_right_loop a x 0 (length a)"

declare bisect_left_loop.simps [simp del] bisect_right_loop.simps [simp del]

lemma bisect_left_loop_bounds:
  assumes "sorted a" "lo \<le> hi" "hi \<le> length a"
    and "\<forall>i < lo. a ! i < x" "\<forall>i. hi \<le> i \<and> i < length a \<longrightarrow> x \<le> a ! i"
  shows "bisect_left_loop a x lo hi \<le> length a \<and>
    (\<forall>i < bisect_left_loop a x lo hi. a ! i < x) \<and>
    (\<forall>i. bisect_left_loop a x lo hi \<le> i \<and> i < length a \<longrightarrow> x \<le> a ! i)"
  using assms
proof (induction a x lo hi rule: bisect_left_loop.induct)
  case (1 a x lo hi)
  let ?post = "\<lambda>r. r \<le> length a \<and> (\<forall>i < r. a ! i < x) \<and>
    (\<forall>i. r \<le> i \<and> i < length a \<longrightarrow> x \<le> a ! i)"
  show "?post (bisect_left_loop a x lo hi)"
  proof (cases "lo < hi")
    case False
    then have "bisect_left_loop a x lo hi = lo" by (subst bisect_left_loop.simps) simp
    moreover have "lo = hi" using False "1.prems" by simp
    ultimately show ?thesis using "1.prems"(3-5) by simp
  next
    case True
    define mid where "mid = (lo + hi) div 2"
    have mid: "lo \<le> mid" "mid < hi" using True by (auto simp: mid_def)
    have sorted: "\<And>i j. i \<le> j \<Longrightarrow> j < length a \<Longrightarrow> a ! i \<le> a ! j"
      using "1.prems"(1) by (simp add: sorted_nth_mono)
    show ?thesis
    proof (cases "a ! mid < x")
      case less: True
      have "\<forall>i < mid + 1. a ! i < x"
        using sorted [of _ mid] less mid "1.prems"(3) by (metis Suc_eq_plus1 less_Suc_eq_le le_less_trans less_le_trans)
      then have "?post (bisect_left_loop a x (mid + 1) hi)"
        using "1.prems" mid by (intro "1.IH"(1) [OF True mid_def less]) simp_all
      moreover have "bisect_left_loop a x lo hi = bisect_left_loop a x (mid + 1) hi"
        using True less by (subst bisect_left_loop.simps) (simp add: Let_def mid_def [symmetric])
      ultimately show ?thesis by simp
    next
      case ge: False
      have "\<forall>i. mid \<le> i \<and> i < length a \<longrightarrow> x \<le> a ! i"
        using sorted [of mid] ge by (metis le_less_trans not_le)
      then have "?post (bisect_left_loop a x lo mid)"
        using "1.prems" mid by (intro "1.IH"(2) [OF True mid_def ge]) simp_all
      moreover have "bisect_left_loop a x lo hi = bisect_left_loop a x lo mid"
        using True ge by (subst bisect_left_loop.simps) (simp add: Let_def mid_def [symmetric])
      ultimately show ?thesis by simp
    qed
  qed
qed

lemma bisect_right_loop_bounds:
  assumes "sorted a" "lo \<le> hi" "hi \<le> length a"
    and "\<forall>i < lo. a ! i \<le> x" "\<forall>i. hi \<le> i \<and> i < length a \<longrightarrow> x < a ! i"
  shows "bisect_right_loop a x lo hi \<le> length a \<and>
    (\<forall>i < bisect_right_loop a x lo hi. a ! i \<le> x) \<and>
    (\<forall>i. bisect_right_loop a x lo hi \<le> i \<and> i < length a \<longrightarrow> x < a ! i)"
  using assms
proof (induction a x lo hi rule: bisect_right_loop.induct)
  case (1 a x lo hi)
  let ?post = "\<lambda>r. r \<le> length a \<and> (\<forall>i < r. a ! i \<le> x) \<and>
    (\<forall>i. r \<le> i \<and> i < length a \<longrightarrow> x < a ! i)"
  show "?post (bisect_right_loop a x lo hi)"
  proof (cases "lo < hi")
    case False
    then have "bisect_right_loop a x lo hi = lo" by (subst bisect_right_loop.simps) simp
    moreover have "lo = hi" using False "1.prems" by simp
    ultimately show ?thesis using "1.prems"(3-5) by simp
  next
    case True
    define mid where "mid = (lo + hi) div 2"
    have mid: "lo \<le> mid" "mid < hi" using True by (auto simp: mid_def)
    have sorted: "\<And>i j. i \<le> j \<Longrightarrow> j < length a \<Longrightarrow> a ! i \<le> a ! j"
      using "1.prems"(1) by (simp add: sorted_nth_mono)
    show ?thesis
    proof (cases "x < a ! mid")
      case less: True
      have "\<forall>i. mid \<le> i \<and> i < length a \<longrightarrow> x < a ! i"
        using sorted [of mid] less by (metis less_le_trans)
      then have "?post (bisect_right_loop a x lo mid)"
        using "1.prems" mid by (intro "1.IH"(1) [OF True mid_def less]) simp_all
      moreover have "bisect_right_loop a x lo hi = bisect_right_loop a x lo mid"
        using True less by (subst bisect_right_loop.simps) (simp add: Let_def mid_def [symmetric])
      ultimately show ?thesis by simp
    next
      case ge: False
      have "\<forall>i < mid + 1. a ! i \<le> x"
        using sorted [of _ mid] ge mid "1.prems"(3) by (metis Suc_eq_plus1 less_Suc_eq_le order_trans less_le_trans not_le)
      then have "?post (bisect_right_loop a x (mid + 1) hi)"
        using "1.prems" mid by (intro "1.IH"(2) [OF True mid_def ge]) simp_all
      moreover have "bisect_right_loop a x lo hi = bisect_right_loop a x (mid + 1) hi"
        using True ge by (subst bisect_right_loop.simps) (simp add: Let_def mid_def [symmetric])
      ultimately show ?thesis by simp
    qed
  qed
qed

lemma bisect_left_bounds:
  assumes "sorted a"
  shows "bisect_left a x \<le> length a"
    and "i < bisect_left a x \<Longrightarrow> a ! i < x"
    and "bisect_left a x \<le> i \<Longrightarrow> i < length a \<Longrightarrow> x \<le> a ! i"
proof -
  have "bisect_left a x \<le> length a \<and> (\<forall>i < bisect_left a x. a ! i < x) \<and>
      (\<forall>i. bisect_left a x \<le> i \<and> i < length a \<longrightarrow> x \<le> a ! i)"
    unfolding bisect_left_def by (rule bisect_left_loop_bounds) (use assms in auto)
  then show "bisect_left a x \<le> length a"
    and "i < bisect_left a x \<Longrightarrow> a ! i < x"
    and "bisect_left a x \<le> i \<Longrightarrow> i < length a \<Longrightarrow> x \<le> a ! i" by blast+
qed

lemma bisect_right_bounds:
  assumes "sorted a"
  shows "bisect_right a x \<le> length a"
    and "i < bisect_right a x \<Longrightarrow> a ! i \<le> x"
    and "bisect_right a x \<le> i \<Longrightarrow> i < length a \<Longrightarrow> x < a ! i"
proof -
  have "bisect_right a x \<le> length a \<and> (\<forall>i < bisect_right a x. a ! i \<le> x) \<and>
      (\<forall>i. bisect_right a x \<le> i \<and> i < length a \<longrightarrow> x < a ! i)"
    unfolding bisect_right_def by (rule bisect_right_loop_bounds) (use assms in auto)
  then show "bisect_right a x \<le> length a"
    and "i < bisect_right a x \<Longrightarrow> a ! i \<le> x"
    and "bisect_right a x \<le> i \<Longrightarrow> i < length a \<Longrightarrow> x < a ! i" by blast+
qed

lemma filter_prefix_slice:
  assumes "n \<le> length xs" "\<forall>i < n. P (xs ! i)" "\<forall>i. n \<le> i \<and> i < length xs \<longrightarrow> \<not> P (xs ! i)"
  shows "filter P xs = take n xs"
proof -
  have "filter P (take n xs) = take n xs"
    using assms by (auto simp: filter_id_conv in_set_conv_nth)
  moreover have "filter P (drop n xs) = []"
    using assms by (auto simp: filter_empty_conv in_set_conv_nth)
  ultimately show ?thesis
    using filter_append [of P "take n xs" "drop n xs"] by simp
qed

lemma bisect_left_drop:
  assumes "sorted a"
  shows "drop (bisect_left a x) a = filter (\<lambda>y. x \<le> y) a"
proof -
  let ?n = "bisect_left a x"
  note b = bisect_left_bounds [OF assms, where x = x]
  have "filter (\<lambda>y. x \<le> y) (take ?n a) = []"
    using b by (auto simp: filter_empty_conv in_set_conv_nth not_le)
  moreover have "filter (\<lambda>y. x \<le> y) (drop ?n a) = drop ?n a"
    using b by (auto simp: filter_id_conv in_set_conv_nth)
  ultimately show ?thesis
    using filter_append [of "\<lambda>y. x \<le> y" "take ?n a" "drop ?n a"] by simp
qed

text \<open>The slice between the two bisections is the sub-list of the values in between.\<close>

lemma bisect_slice:
  assumes "sorted a"
  shows "drop (bisect_left a x) (take (bisect_right a y) a) = filter (\<lambda>z. x \<le> z \<and> z \<le> y) a"
proof (cases "bisect_left a x \<le> bisect_right a y")
  case True
  note b = bisect_right_bounds [OF assms, where x = y]
  have "filter (\<lambda>z. z \<le> y) (drop (bisect_left a x) a)
      = take (bisect_right a y - bisect_left a x) (drop (bisect_left a x) a)"
    using b True by (intro filter_prefix_slice) (auto simp: less_diff_conv add.commute not_le)
  then show ?thesis
    by (simp add: drop_take bisect_left_drop [OF assms] conj_commute)
next
  case False
  have "\<not> (x \<le> z \<and> z \<le> y)" if "z \<in> set a" for z
  proof
    assume z: "x \<le> z \<and> z \<le> y"
    from that obtain i where i: "i < length a" "a ! i = z" by (auto simp: in_set_conv_nth)
    then have "bisect_left a x \<le> i" "i < bisect_right a y"
      using z bisect_left_bounds(2) [OF assms, where i = i and x = x]
        bisect_right_bounds(3) [OF assms, where i = i and x = y]
      by (meson leD not_le)+
    then show False using False by simp
  qed
  then have "filter (\<lambda>z. x \<le> z \<and> z \<le> y) a = []" by (simp add: filter_empty_conv)
  then show ?thesis using False by simp
qed

section \<open>The adapter\<close>

record adapter =
  ad_cal :: xcal
  ad_tz :: zone
  ad_first :: day
  ad_last :: day
  ad_start :: day
  ad_sessions :: "day list"
  ad_opens :: "day \<rightharpoonup> instant"
  ad_closes :: "day \<rightharpoonup> instant"

text \<open>
  \<open>ExchangeCalendarAdapter.__init__\<close>. \<open>zip(..., strict=True)\<close> refuses tables of different
  lengths; a later entry of \<open>dict(zip(...))\<close> replaces an earlier one.
\<close>

definition mk_adapter :: "xcal \<Rightarrow> day option \<Rightarrow> cal_error + adapter" where
  "mk_adapter calendar start =
     (if length (xc_opens calendar) \<noteq> length (xc_sessions calendar) \<or>
         length (xc_closes calendar) \<noteq> length (xc_sessions calendar)
      then Inl LibraryError
      else Inr
        \<lparr>ad_cal = calendar,
         ad_tz = xc_zone calendar,
         ad_first = hd (xc_sessions calendar),
         ad_last = last (xc_sessions calendar),
         ad_start = (case start of Some d \<Rightarrow> d | None \<Rightarrow> hd (xc_sessions calendar)),
         ad_sessions = xc_sessions calendar,
         ad_opens = map_of (rev (zip (xc_sessions calendar) (xc_opens calendar))),
         ad_closes = map_of (rev (zip (xc_sessions calendar) (xc_closes calendar)))\<rparr>)"

definition ad_session_open :: "adapter \<Rightarrow> day \<Rightarrow> cal_error + instant" where
  "ad_session_open A session =
     (case ad_opens A session of
        Some known \<Rightarrow> Inr known
      | None \<Rightarrow> xc_session_open (ad_cal A) session)"

definition ad_session_close :: "adapter \<Rightarrow> day \<Rightarrow> cal_error + instant" where
  "ad_session_close A session =
     (case ad_closes A session of
        Some known \<Rightarrow> Inr known
      | None \<Rightarrow> xc_session_close (ad_cal A) session)"

definition require_covered :: "adapter \<Rightarrow> day \<Rightarrow> cal_error + unit" where
  "require_covered A d = (if d < ad_start A then Inl CalendarRangeError else Inr ())"

text \<open>
  The dictionaries hold every session of the window, so the subscripts \<open>self._opens[s]\<close> and
  \<open>self._closes[s]\<close> never raise \<open>KeyError\<close>; \<open>the\<close> is applied to a \<open>Some\<close> there.
\<close>

definition ad_sessions_overlapping :: "adapter \<Rightarrow> instant \<Rightarrow> instant \<Rightarrow> cal_error + day list" where
  "ad_sessions_overlapping A start until =
     bind_r (require_covered A (z_date (ad_tz A) start)) (\<lambda>_.
       let first = max (z_date (ad_tz A) start - 1) (ad_first A);
           last = min (z_date (ad_tz A) until + 1) (ad_last A)
       in if first > last then Inr []
          else let window = drop (bisect_left (ad_sessions A) first)
                              (take (bisect_right (ad_sessions A) last) (ad_sessions A))
               in Inr (filter (\<lambda>s. the (ad_opens A s) < until \<and> the (ad_closes A s) > start) window))"

definition ad_last_completed_session :: "adapter \<Rightarrow> instant \<Rightarrow> cal_error + day option" where
  "ad_last_completed_session A now =
     (let local = z_date (ad_tz A) now
      in bind_r (require_covered A local) (\<lambda>_.
         if local < ad_first A then Inr None
         else bind_r (xc_date_to_session_previous (ad_cal A) (min local (ad_last A))) (\<lambda>candidate.
              bind_r (ad_session_close A candidate) (\<lambda>close.
                if close > now
                then if candidate = ad_first A then Inr None
                     else bind_r (xc_previous_session (ad_cal A) candidate) (\<lambda>p. Inr (Some p))
                else Inr (Some candidate)))))"

definition ad_session_in_progress :: "adapter \<Rightarrow> instant \<Rightarrow> cal_error + day option" where
  "ad_session_in_progress A now =
     (let local = z_date (ad_tz A) now
      in bind_r (require_covered A local) (\<lambda>_.
         if \<not> (ad_first A \<le> local \<and> local \<le> ad_last A) then Inr None
         else bind_r (xc_date_to_session_previous (ad_cal A) local) (\<lambda>session.
              bind_r (ad_session_open A session) (\<lambda>open.
                if open \<le> now
                then bind_r (ad_session_close A session) (\<lambda>close.
                       if now < close then Inr (Some session) else Inr None)
                else Inr None))))"

definition ad_next_session :: "adapter \<Rightarrow> day \<Rightarrow> cal_error + day" where
  "ad_next_session A session =
     bind_r (require_covered A session) (\<lambda>_.
       if session < ad_first A then Inr (ad_first A)
       else if xc_is_session (ad_cal A) session then xc_next_session (ad_cal A) session
       else xc_date_to_session_next (ad_cal A) session)"

definition adapter_calendar :: "adapter \<Rightarrow> tcal" where
  "adapter_calendar A =
     \<lparr>session_open = ad_session_open A, session_close = ad_session_close A,
      next_session = ad_next_session A, last_completed_session = ad_last_completed_session A,
      tz = ad_tz A, sessions_overlapping = ad_sessions_overlapping A,
      session_in_progress = ad_session_in_progress A\<rparr>"

subsection \<open>The calendar of a source\<close>

definition CALENDAR_START :: day where
  "CALENDAR_START = 726468"

fun SOURCE_CALENDARS :: "data_source \<Rightarrow> string option" where
  "SOURCE_CALENDARS ALPACA_API = Some ''XNYS''"
| "SOURCE_CALENDARS _ = None"

text \<open>\<open>exchange_calendars.get_calendar\<close> is the argument \<open>get_calendar\<close>.\<close>

definition calendar_for_source ::
  "(string \<Rightarrow> day \<Rightarrow> xcal) \<Rightarrow> data_source \<Rightarrow> cal_error + adapter" where
  "calendar_for_source get_calendar source =
     (case SOURCE_CALENDARS source of
        None \<Rightarrow> Inl UnknownCalendarError
      | Some code \<Rightarrow> mk_adapter (get_calendar code CALENDAR_START) (Some CALENDAR_START))"

section \<open>The adapter keeps the protocol\<close>

definition adapter_ok :: "adapter \<Rightarrow> bool" where
  "adapter_ok A \<longleftrightarrow>
     xcal_ok (ad_cal A) \<and> ad_start A \<le> hd (xc_sessions (ad_cal A)) \<and>
     mk_adapter (ad_cal A) (Some (ad_start A)) = Inr A"

definition ad_open_at :: "adapter \<Rightarrow> day \<Rightarrow> instant" where
  "ad_open_at A s = the (ad_opens A s)"

definition ad_close_at :: "adapter \<Rightarrow> day \<Rightarrow> instant" where
  "ad_close_at A s = the (ad_closes A s)"

definition ad_start_at :: "adapter \<Rightarrow> instant" where
  "ad_start_at A = z_midnight (ad_tz A) (ad_start A)"

lemma mk_adapter_ok:
  assumes "xcal_ok c" and "start \<le> hd (xc_sessions c)" and "mk_adapter c (Some start) = Inr A"
  shows "adapter_ok A"
  using assms by (auto simp: adapter_ok_def mk_adapter_def split: if_splits)

lemma mk_adapter_fields:
  assumes "mk_adapter c (Some start) = Inr A"
  shows "ad_sessions A = xc_sessions c" "ad_tz A = xc_zone c" "ad_first A = hd (xc_sessions c)"
    "ad_last A = last (xc_sessions c)" "ad_start A = start" "ad_cal A = c"
    "ad_opens A = map_of (rev (zip (xc_sessions c) (xc_opens c)))"
    "ad_closes A = map_of (rev (zip (xc_sessions c) (xc_closes c)))"
  using assms by (auto simp: mk_adapter_def split: if_splits)

lemma adapter_ok_fields:
  assumes "adapter_ok A"
  shows "ad_sessions A = xc_sessions (ad_cal A)" "ad_tz A = xc_zone (ad_cal A)"
    "ad_first A = hd (ad_sessions A)" "ad_last A = last (ad_sessions A)"
    "ad_sessions A \<noteq> []" "ascending (ad_sessions A)" "zone_ok (ad_tz A)" "ad_start A \<le> ad_first A"
proof -
  from assms have x: "xcal_table_ok (ad_cal A)"
    and m: "mk_adapter (ad_cal A) (Some (ad_start A)) = Inr A"
    and st: "ad_start A \<le> hd (xc_sessions (ad_cal A))"
    by (auto simp: adapter_ok_def xcal_ok_def)
  note f = mk_adapter_fields(1-4) [OF m]
  show "ad_sessions A = xc_sessions (ad_cal A)" "ad_tz A = xc_zone (ad_cal A)" by (fact f)+
  show "ad_first A = hd (ad_sessions A)" "ad_last A = last (ad_sessions A)"
    using f by metis+
  show "ad_sessions A \<noteq> []" "ascending (ad_sessions A)" "zone_ok (ad_tz A)"
    using x f(1,2) unfolding xcal_table_ok_def by metis+
  show "ad_start A \<le> ad_first A" using st f(3) by metis
qed

lemma adapter_tables:
  assumes ok: "adapter_ok A" and i: "i < length (ad_sessions A)"
  shows "ad_opens A (ad_sessions A ! i) = Some (xc_opens (ad_cal A) ! i)"
    and "ad_closes A (ad_sessions A ! i) = Some (xc_closes (ad_cal A) ! i)"
proof -
  let ?c = "ad_cal A"
  from ok have len: "length (xc_opens ?c) = length (xc_sessions ?c)"
    "length (xc_closes ?c) = length (xc_sessions ?c)"
    by (auto simp: adapter_ok_def xcal_ok_def xcal_table_ok_def)
  from ok have "mk_adapter ?c (Some (ad_start A)) = Inr A" by (simp add: adapter_ok_def)
  note oc = mk_adapter_fields(7,8) [OF this]
  note f = adapter_ok_fields [OF ok]
  have d: "distinct (xc_sessions ?c)" using f(1,6) ascending_distinct by metis
  have i': "i < length (xc_sessions ?c)" using i f(1) by metis
  have *: "map_of (rev (zip (xc_sessions ?c) ys)) (xc_sessions ?c ! i) = Some (ys ! i)"
    if "length ys = length (xc_sessions ?c)" for ys :: "int list"
    using d that i' by (simp add: map_of_rev_distinct map_of_zip_nth)
  show "ad_opens A (ad_sessions A ! i) = Some (xc_opens ?c ! i)"
    "ad_closes A (ad_sessions A ! i) = Some (xc_closes ?c ! i)"
    unfolding oc f(1) using * [OF len(1)] * [OF len(2)] by simp_all
qed

lemma adapter_session:
  assumes ok: "adapter_ok A" and s: "s \<in> set (ad_sessions A)"
  shows "ad_opens A s = Some (ad_open_at A s)" and "ad_closes A s = Some (ad_close_at A s)"
    and "z_midnight (ad_tz A) s \<le> ad_open_at A s" and "ad_open_at A s < ad_close_at A s"
    and "ad_close_at A s < z_midnight (ad_tz A) (s + 1)"
proof -
  from s obtain i where i: "i < length (ad_sessions A)" "ad_sessions A ! i = s"
    by (auto simp: in_set_conv_nth)
  note t = adapter_tables [OF ok i(1), unfolded i(2)]
  show "ad_opens A s = Some (ad_open_at A s)" "ad_closes A s = Some (ad_close_at A s)"
    using t by (simp_all add: ad_open_at_def ad_close_at_def)
  have "z_midnight (ad_tz A) s \<le> xc_opens (ad_cal A) ! i \<and>
      xc_opens (ad_cal A) ! i < xc_closes (ad_cal A) ! i \<and>
      xc_closes (ad_cal A) ! i < z_midnight (ad_tz A) (s + 1)"
    using ok i adapter_ok_fields(1,2) [OF ok]
    by (auto simp: adapter_ok_def xcal_ok_def xcal_table_ok_def)
  then show "z_midnight (ad_tz A) s \<le> ad_open_at A s" "ad_open_at A s < ad_close_at A s"
    "ad_close_at A s < z_midnight (ad_tz A) (s + 1)"
    using t by (simp_all add: ad_open_at_def ad_close_at_def)
qed

lemma adapter_disjoint:
  assumes ok: "adapter_ok A" and "s \<in> set (ad_sessions A)" "s' \<in> set (ad_sessions A)" "s < s'"
  shows "ad_close_at A s < ad_open_at A s'"
proof -
  have "z_midnight (ad_tz A) (s + 1) \<le> z_midnight (ad_tz A) s'"
    using zone_midnight_mono adapter_ok_fields(7) [OF ok] assms(4) by simp
  then show ?thesis
    using adapter_session(3) [OF ok assms(3)] adapter_session(5) [OF ok assms(2)] by linarith
qed

subsection \<open>Each look-up is the search of the session table\<close>

lemma adapter_overlapping:
  assumes ok: "adapter_ok A" and t: "ad_start_at A \<le> t"
  shows "ad_sessions_overlapping A t u =
    Inr (filter (\<lambda>s. ad_open_at A s < u \<and> t < ad_close_at A s) (ad_sessions A))"
proof -
  note f = adapter_ok_fields [OF ok]
  define lo where "lo = max (z_date (ad_tz A) t - 1) (ad_first A)"
  define hi where "hi = min (z_date (ad_tz A) u + 1) (ad_last A)"
  have cov: "require_covered A (z_date (ad_tz A) t) = Inr ()"
    using t f(7) by (simp add: require_covered_def ad_start_at_def zone_date_less not_less)
  have within: "lo \<le> s \<and> s \<le> hi"
    if s: "s \<in> set (ad_sessions A)" "ad_open_at A s < u" "t < ad_close_at A s" for s
  proof -
    note a = adapter_session(3-5) [OF ok s(1)]
    have "s \<le> z_date (ad_tz A) u" using a s(2) f(7) by (simp add: zone_date_ge)
    moreover have "z_date (ad_tz A) t < s + 1"
      using zone_date_less [OF f(7), of t "s + 1"] a s(3) by linarith
    moreover have "ad_first A \<le> s" "s \<le> ad_last A"
      using ascending_hd_le ascending_le_last f(3,4,6) s(1) by metis+
    ultimately show ?thesis by (simp add: lo_def hi_def)
  qed
  have eq: "filter (\<lambda>s. the (ad_opens A s) < u \<and> t < the (ad_closes A s))
      (filter (\<lambda>s. lo \<le> s \<and> s \<le> hi) (ad_sessions A)) =
    filter (\<lambda>s. ad_open_at A s < u \<and> t < ad_close_at A s) (ad_sessions A)"
    unfolding filter_filter using within
    by (intro filter_cong) (auto simp: ad_open_at_def ad_close_at_def)
  have slice: "drop (bisect_left (ad_sessions A) lo) (take (bisect_right (ad_sessions A) hi) (ad_sessions A))
      = filter (\<lambda>s. lo \<le> s \<and> s \<le> hi) (ad_sessions A)"
    using bisect_slice [OF ascending_sorted [OF f(6)]] .
  have empty: "filter (\<lambda>s. ad_open_at A s < u \<and> t < ad_close_at A s) (ad_sessions A) = []" if "hi < lo"
    using within that by (fastforce simp: filter_empty_conv)
  show ?thesis
    unfolding ad_sessions_overlapping_def cov lo_def [symmetric] hi_def [symmetric] Let_def slice
    using eq empty by simp
qed

lemma adapter_previous:
  assumes ok: "adapter_ok A" and d: "ad_first A \<le> d" "d \<le> ad_last A"
  shows "xc_date_to_session_previous (ad_cal A) d = Inr (last (filter (\<lambda>s. s \<le> d) (ad_sessions A)))"
    and "filter (\<lambda>s. s \<le> d) (ad_sessions A) \<noteq> []"
proof -
  note f = adapter_ok_fields [OF ok]
  show "xc_date_to_session_previous (ad_cal A) d = Inr (last (filter (\<lambda>s. s \<le> d) (ad_sessions A)))"
    using ok d f(1,3,4) by (simp add: adapter_ok_def xcal_ok_def xcal_lookups_ok_def)
  show "filter (\<lambda>s. s \<le> d) (ad_sessions A) \<noteq> []"
    using d(1) f(3,5) by (auto simp: filter_empty_conv neq_Nil_conv)
qed

lemma adapter_close_cases:
  assumes ok: "adapter_ok A" and s: "s \<in> set (ad_sessions A)" and t: "z_date (ad_tz A) t = d"
  shows "s < d \<Longrightarrow> ad_close_at A s \<le> t" and "d < s \<Longrightarrow> t < ad_open_at A s"
proof -
  note f = adapter_ok_fields [OF ok] and a = adapter_session(3-5) [OF ok s]
  show "ad_close_at A s \<le> t" if "s < d"
    using zone_date_ge [OF f(7), of "s + 1" t] that t a by simp
  show "t < ad_open_at A s" if "d < s"
    using zone_date_less [OF f(7), of t s] that t a by simp
qed

text \<open>The session the searches start from: every earlier one is over, no later one is open.\<close>

lemma adapter_candidate:
  assumes ok: "adapter_ok A" and first: "ad_first A \<le> z_date (ad_tz A) t"
  obtains c where
    "xc_date_to_session_previous (ad_cal A) (min (z_date (ad_tz A) t) (ad_last A)) = Inr c"
    "c \<in> set (ad_sessions A)"
    "\<And>s. s \<in> set (ad_sessions A) \<Longrightarrow> s < c \<Longrightarrow> ad_close_at A s \<le> t"
    "\<And>s. s \<in> set (ad_sessions A) \<Longrightarrow> c < s \<Longrightarrow> t < ad_open_at A s"
proof -
  note f = adapter_ok_fields [OF ok]
  define d where "d = z_date (ad_tz A) t"
  define m where "m = min d (ad_last A)"
  define c where "c = last (filter (\<lambda>s. s \<le> m) (ad_sessions A))"
  note cases = adapter_close_cases [OF ok _ d_def [symmetric]]
  have m: "ad_first A \<le> m" "m \<le> ad_last A"
    using first f(3,4,5,6) ascending_le_last [OF f(6), of "hd (ad_sessions A)"]
    by (auto simp: m_def d_def)
  note prev = adapter_previous [OF ok m]
  have c: "c \<in> set (ad_sessions A)" "c \<le> m"
    using last_filter_in [OF prev(2)] by (simp_all add: c_def)
  have c_max: "s \<le> c" if "s \<in> set (ad_sessions A)" "s \<le> d" for s
  proof -
    have "s \<le> m" using that ascending_le_last [OF f(6) that(1)] f(4) by (simp add: m_def)
    then show ?thesis using last_filter_le(1) [OF f(6) that(1)] by (simp add: c_def)
  qed
  show thesis
  proof (rule that [of c])
    show "xc_date_to_session_previous (ad_cal A) (min (z_date (ad_tz A) t) (ad_last A)) = Inr c"
      using prev(1) by (simp add: c_def m_def d_def)
    show "ad_close_at A s \<le> t" if "s \<in> set (ad_sessions A)" "s < c" for s
      using that c(2) cases(1) [OF that(1)] by (simp add: m_def)
    show "t < ad_open_at A s" if "s \<in> set (ad_sessions A)" "c < s" for s
      using c_max [OF that(1)] that(2) cases(2) [OF that(1)] by force
  qed (fact c(1))
qed

lemma adapter_before_first:
  assumes ok: "adapter_ok A" and "z_date (ad_tz A) t < ad_first A" and s: "s \<in> set (ad_sessions A)"
  shows "t < ad_open_at A s"
proof -
  have "z_date (ad_tz A) t < s"
    using assms(2) ascending_hd_le [OF adapter_ok_fields(6) [OF ok] s] adapter_ok_fields(3) [OF ok] by simp
  then show ?thesis by (rule adapter_close_cases(2) [OF ok s refl])
qed

lemma adapter_covered:
  assumes "adapter_ok A" and "ad_start_at A \<le> t"
  shows "require_covered A (z_date (ad_tz A) t) = Inr ()"
  using assms adapter_ok_fields(7) [OF assms(1)]
  by (simp add: require_covered_def ad_start_at_def zone_date_less not_less)

lemma adapter_last_completed:
  assumes ok: "adapter_ok A" and t: "ad_start_at A \<le> t"
  defines "over \<equiv> filter (\<lambda>s. ad_close_at A s \<le> t) (ad_sessions A)"
  shows "ad_last_completed_session A t = Inr (if over = [] then None else Some (last over))"
proof (cases "z_date (ad_tz A) t < ad_first A")
  case True
  have "t < ad_close_at A s" if "s \<in> set (ad_sessions A)" for s
    using adapter_before_first [OF ok True that] adapter_session(4) [OF ok that] by linarith
  then have "over = []" by (auto simp: over_def filter_empty_conv not_le)
  then show ?thesis using True adapter_covered [OF ok t] by (simp add: ad_last_completed_session_def)
next
  case False
  note f = adapter_ok_fields [OF ok]
  obtain c where prev: "xc_date_to_session_previous (ad_cal A)
      (min (z_date (ad_tz A) t) (ad_last A)) = Inr c"
    and c: "c \<in> set (ad_sessions A)"
    and before: "\<And>s. s \<in> set (ad_sessions A) \<Longrightarrow> s < c \<Longrightarrow> ad_close_at A s \<le> t"
    and later: "\<And>s. s \<in> set (ad_sessions A) \<Longrightarrow> c < s \<Longrightarrow> t < ad_open_at A s"
    using adapter_candidate [OF ok, of t] False by (metis not_less)
  have late: "t < ad_close_at A s" if "s \<in> set (ad_sessions A)" "c < s" for s
    using later [OF that] adapter_session(4) [OF ok that(1)] by linarith
  have over_iff: "ad_close_at A s \<le> t \<longleftrightarrow> s < c \<or> s = c \<and> ad_close_at A c \<le> t"
    if "s \<in> set (ad_sessions A)" for s
    using late [OF that] before [OF that] by (cases s c rule: linorder_cases) auto
  have step: "ad_last_completed_session A t =
      (if t < ad_close_at A c
       then if c = ad_first A then Inr None
            else bind_r (xc_previous_session (ad_cal A) c) (\<lambda>p. Inr (Some p))
       else Inr (Some c))"
    using False adapter_covered [OF ok t] prev adapter_session(2) [OF ok c]
    by (simp add: ad_last_completed_session_def ad_session_close_def)
  show ?thesis
  proof (cases "t < ad_close_at A c")
    case False
    have "last over = c" unfolding over_def
      using over_iff c False by (intro last_filter_eqI [OF f(6)]) auto
    moreover have "over \<noteq> []" using c False by (auto simp: over_def filter_empty_conv not_less)
    ultimately show ?thesis using step False by simp
  next
    case True
    have over_eq: "over = filter (\<lambda>s. s < c) (ad_sessions A)"
      unfolding over_def using over_iff True by (intro filter_cong) auto
    show ?thesis
    proof (cases "c = ad_first A")
      case first: True
      then have "over = []"
        using ascending_hd_le [OF f(6)] f(3) by (auto simp: over_eq filter_empty_conv not_less)
      then show ?thesis using step True first by simp
    next
      case other: False
      have first: "ad_first A \<in> set (ad_sessions A)" "ad_first A < c"
        using f(3,5) other ascending_hd_le [OF f(6) c] by (auto simp: order_less_le)
      then have "xc_previous_session (ad_cal A) c = Inr (last over)"
        using ok c f(1,3) over_eq by (simp add: adapter_ok_def xcal_ok_def xcal_lookups_ok_def)
      moreover have "over \<noteq> []" using first by (auto simp: over_eq filter_empty_conv)
      ultimately show ?thesis using step True other by simp
    qed
  qed
qed

lemma find_unique:
  assumes "\<And>y. y \<in> set xs \<Longrightarrow> P y \<Longrightarrow> y = x"
  shows "find P xs = (if x \<in> set xs \<and> P x then Some x else None)"
  using assms by (induction xs) auto

lemma adapter_in_progress:
  assumes ok: "adapter_ok A" and t: "ad_start_at A \<le> t"
  shows "ad_session_in_progress A t =
    Inr (find (\<lambda>s. ad_open_at A s \<le> t \<and> t < ad_close_at A s) (ad_sessions A))"
proof (cases "ad_first A \<le> z_date (ad_tz A) t \<and> z_date (ad_tz A) t \<le> ad_last A")
  case False
  note f = adapter_ok_fields [OF ok]
  have "\<not> (ad_open_at A s \<le> t \<and> t < ad_close_at A s)" if s: "s \<in> set (ad_sessions A)" for s
  proof (cases "ad_first A \<le> z_date (ad_tz A) t")
    case True
    then have "s < z_date (ad_tz A) t" using False ascending_le_last [OF f(6) s] f(4) by simp
    then show ?thesis using adapter_close_cases(1) [OF ok s refl] by fastforce
  next
    case before: False
    then show ?thesis using adapter_before_first [OF ok _ s, of t] by simp
  qed
  then have "find (\<lambda>s. ad_open_at A s \<le> t \<and> t < ad_close_at A s) (ad_sessions A) = None"
    by (simp add: find_None_iff)
  then show ?thesis using False adapter_covered [OF ok t] by (simp add: ad_session_in_progress_def)
next
  case True
  obtain c where prev: "xc_date_to_session_previous (ad_cal A)
      (min (z_date (ad_tz A) t) (ad_last A)) = Inr c"
    and c: "c \<in> set (ad_sessions A)"
    and before: "\<And>s. s \<in> set (ad_sessions A) \<Longrightarrow> s < c \<Longrightarrow> ad_close_at A s \<le> t"
    and later: "\<And>s. s \<in> set (ad_sessions A) \<Longrightarrow> c < s \<Longrightarrow> t < ad_open_at A s"
    using adapter_candidate [OF ok, of t] True by metis
  have "s = c" if "s \<in> set (ad_sessions A)" "ad_open_at A s \<le> t \<and> t < ad_close_at A s" for s
    using before [OF that(1)] later [OF that(1)] that(2) by (cases s c rule: linorder_cases) auto
  from find_unique [where P = "\<lambda>s. ad_open_at A s \<le> t \<and> t < ad_close_at A s", OF this] c
  have "find (\<lambda>s. ad_open_at A s \<le> t \<and> t < ad_close_at A s) (ad_sessions A) =
      (if ad_open_at A c \<le> t \<and> t < ad_close_at A c then Some c else None)" by simp
  then show ?thesis
    using True adapter_covered [OF ok t] prev adapter_session(1,2) [OF ok c]
    by (simp add: ad_session_in_progress_def ad_session_open_def ad_session_close_def min_absorb1)
qed

lemma adapter_next:
  assumes ok: "adapter_ok A" and d: "ad_start A \<le> d"
  defines "after \<equiv> filter (\<lambda>s. d < s) (ad_sessions A)"
  shows "after \<noteq> [] \<Longrightarrow> ad_next_session A d = Inr (hd after)"
    and "after = [] \<Longrightarrow> \<exists>e. ad_next_session A d = Inl e"
proof -
  note f = adapter_ok_fields [OF ok]
  have cov: "require_covered A d = Inr ()" using d by (simp add: require_covered_def)
  have lib: "xcal_lookups_ok (ad_cal A)" using ok by (simp add: adapter_ok_def xcal_ok_def)
  have first: "ad_first A \<in> set (ad_sessions A)" and last: "ad_last A \<in> set (ad_sessions A)"
    using f(3,4,5) by simp_all
  have step: "ad_next_session A d =
      (if d < ad_first A then Inr (ad_first A)
       else if d \<in> set (ad_sessions A) then xc_next_session (ad_cal A) d
       else xc_date_to_session_next (ad_cal A) d)"
    using lib cov f(1) by (simp add: ad_next_session_def xcal_lookups_ok_def)
  show "ad_next_session A d = Inr (hd after)" if ne: "after \<noteq> []"
  proof -
    have h: "hd after \<in> set (ad_sessions A)" "d < hd after"
      using hd_filter_in ne unfolding after_def by blast+
    have dlast: "d < ad_last A" using h ascending_le_last [OF f(6) h(1)] f(4) by simp
    show ?thesis
    proof (cases "d < ad_first A")
      case True
      then have "hd after = ad_first A"
        unfolding after_def using first ascending_hd_le [OF f(6)] f(3) by (intro hd_filter_eqI [OF f(6)]) auto
      then show ?thesis using step True by simp
    next
      case False
      have "filter (\<lambda>s. d \<le> s) (ad_sessions A) = after" if "d \<notin> set (ad_sessions A)"
        unfolding after_def using that by (intro filter_cong) (auto simp: order_less_le)
      then show ?thesis
        using False dlast lib step f(1,3,4)
        by (cases "d \<in> set (ad_sessions A)") (auto simp: xcal_lookups_ok_def after_def)
    qed
  qed
  show "\<exists>e. ad_next_session A d = Inl e" if e: "after = []"
  proof -
    have le: "ad_last A \<le> d" "\<not> d < ad_first A"
      using e first last by (auto simp: after_def filter_empty_conv not_less)
    show ?thesis
    proof (cases "d = ad_last A")
      case True
      then show ?thesis using le step last lib f(1,4) by (auto simp: xcal_lookups_ok_def)
    next
      case False
      then have "d \<notin> set (ad_sessions A)" "ad_last A < d"
        using le ascending_le_last [OF f(6)] f(4) by force+
      then show ?thesis using le step lib f(1,4) by (auto simp: xcal_lookups_ok_def)
    qed
  qed
qed

lemma adapter_refused:
  assumes "adapter_ok A" and "t < ad_start_at A"
  shows "require_covered A (z_date (ad_tz A) t) = Inl CalendarRangeError"
  using assms adapter_ok_fields(7) [OF assms(1)]
  by (simp add: require_covered_def ad_start_at_def zone_date_less)

lemma adapter_next_end:
  assumes ok: "adapter_ok A" and "filter (\<lambda>s. d < s) (ad_sessions A) = []"
  shows "\<exists>e. ad_next_session A d = Inl e"
proof (cases "ad_start A \<le> d")
  case True
  then show ?thesis using adapter_next(2) [OF ok True] assms(2) by blast
next
  case False
  then show ?thesis by (simp add: ad_next_session_def require_covered_def)
qed

text \<open>
  The adapter keeps both protocols: every law of \<open>session_calendar\<close> and
  \<open>trading_calendar\<close>, for every adapter built from a proper library calendar.
\<close>

interpretation cal: trading_calendar adapter_calendar adapter_ok ad_sessions ad_open_at ad_close_at
  ad_start ad_start_at
proof (unfold_locales, goal_cases)
  case (1 A)
  then show ?case by (rule adapter_ok_fields(6))
next
  case (2 A s)
  then show ?case using adapter_session(1) [OF 2] by (simp add: adapter_calendar_def ad_session_open_def)
next
  case (3 A s)
  then show ?case using adapter_session(2) [OF 3] by (simp add: adapter_calendar_def ad_session_close_def)
next
  case (4 A s)
  then show ?case by (rule adapter_session(4))
next
  case (5 A s s')
  then show ?case using adapter_disjoint [OF 5] by simp
next
  case (6 A d)
  then show ?case using adapter_next(1) [OF 6(1,2)] by (simp add: adapter_calendar_def)
next
  case (7 A d)
  then show ?case using adapter_next_end [OF 7] by (simp add: adapter_calendar_def)
next
  case (8 A t)
  then show ?case using adapter_last_completed [OF 8] by (simp add: adapter_calendar_def)
next
  case (9 A t)
  then show ?case using adapter_refused [OF 9]
    by (simp add: adapter_calendar_def ad_last_completed_session_def)
next
  case (10 A)
  then show ?case using adapter_ok_fields(7) [OF 10] by (simp add: adapter_calendar_def)
next
  case (11 A)
  then show ?case by (simp add: adapter_calendar_def ad_start_at_def)
next
  case (12 A s)
  then show ?case using adapter_session(3) [OF 12] by (simp add: adapter_calendar_def)
next
  case (13 A s)
  then show ?case using adapter_session(5) [OF 13] by (simp add: adapter_calendar_def)
next
  case (14 A s)
  then show ?case
    using adapter_ok_fields(3,6,8) [OF 14(1)] ascending_hd_le [of "ad_sessions A" s] by simp
next
  case (15 A t u)
  then show ?case using adapter_overlapping [OF 15] by (simp add: adapter_calendar_def)
next
  case (16 A t u)
  then show ?case using adapter_refused [OF 16]
    by (simp add: adapter_calendar_def ad_sessions_overlapping_def)
next
  case (17 A t)
  then show ?case using adapter_in_progress [OF 17] by (simp add: adapter_calendar_def)
next
  case (18 A t)
  then show ?case using adapter_refused [OF 18]
    by (simp add: adapter_calendar_def ad_session_in_progress_def)
next
  case (19 A d)
  then show ?case by (simp add: adapter_calendar_def ad_next_session_def require_covered_def)
qed

lemma tz_adapter_calendar [simp]: "tz (adapter_calendar A) = ad_tz A"
  by (simp add: adapter_calendar_def)

section \<open>A calendar from a table\<close>

text \<open>
  A library calendar with the documented look-ups over a table of \<open>(session, open, close)\<close>,
  used to instantiate the hypotheses.
\<close>

definition lookup_or :: "('a \<rightharpoonup> 'b) \<Rightarrow> 'a \<Rightarrow> cal_error + 'b" where
  "lookup_or m k = (case m k of Some v \<Rightarrow> Inr v | None \<Rightarrow> Inl LibraryError)"

definition first_or :: "'a list \<Rightarrow> cal_error + 'a" where
  "first_or xs = (case xs of [] \<Rightarrow> Inl LibraryError | x # _ \<Rightarrow> Inr x)"

definition table_xcal :: "zone \<Rightarrow> (day \<times> instant \<times> instant) list \<Rightarrow> xcal" where
  "table_xcal z rows =
     (let sessions = map fst rows in
      \<lparr>xc_zone = z, xc_sessions = sessions,
       xc_opens = map (fst \<circ> snd) rows, xc_closes = map (snd \<circ> snd) rows,
       xc_session_open = lookup_or (map_of (map (\<lambda>(s, o1, c). (s, o1)) rows)),
       xc_session_close = lookup_or (map_of (map (\<lambda>(s, o1, c). (s, c)) rows)),
       xc_is_session = (\<lambda>d. d \<in> set sessions),
       xc_date_to_session_previous = (\<lambda>d. first_or (rev (filter (\<lambda>s. s \<le> d) sessions))),
       xc_date_to_session_next = (\<lambda>d. first_or (filter (\<lambda>s. d \<le> s) sessions)),
       xc_next_session = (\<lambda>d. first_or (filter (\<lambda>s. d < s) sessions)),
       xc_previous_session = (\<lambda>d. first_or (rev (filter (\<lambda>s. s < d) sessions)))\<rparr>)"

definition table_ok :: "zone \<Rightarrow> (day \<times> instant \<times> instant) list \<Rightarrow> bool" where
  "table_ok z rows \<longleftrightarrow>
     rows \<noteq> [] \<and> ascending (map fst rows) \<and>
     list_all (\<lambda>(s, o1, c). z_midnight z s \<le> o1 \<and> o1 < c \<and> c < z_midnight z (s + 1)) rows"

lemma first_or_hd: "xs \<noteq> [] \<Longrightarrow> first_or xs = Inr (hd xs)"
  by (cases xs) (simp_all add: first_or_def)

lemma first_or_rev: "xs \<noteq> [] \<Longrightarrow> first_or (rev xs) = Inr (last xs)"
  by (simp add: first_or_hd hd_rev)

lemma lookup_or_missing: "k \<notin> dom m \<Longrightarrow> lookup_or m k = Inl LibraryError"
  by (cases "m k") (auto simp: lookup_or_def)

lemma filter_hd_last:
  assumes "xs \<noteq> []"
  shows "hd xs \<le> d \<Longrightarrow> filter (\<lambda>s. s \<le> d) xs \<noteq> []" and "d \<le> last xs \<Longrightarrow> filter (\<lambda>s. d \<le> s) xs \<noteq> []"
    and "d < last xs \<Longrightarrow> filter (\<lambda>s. d < s) xs \<noteq> []" and "hd xs < d \<Longrightarrow> filter (\<lambda>s. s < d) xs \<noteq> []"
  using hd_in_set [OF assms] last_in_set [OF assms] by (auto simp only: filter_empty_conv)

lemma filter_past_last:
  assumes "ascending xs" and "last xs \<le> d"
  shows "filter (\<lambda>s. d < s) xs = []"
  using ascending_le_last [OF assms(1)] assms(2) by (force simp: filter_empty_conv)

lemma table_xcal_ok:
  assumes z: "zone_ok z" and t: "table_ok z rows"
  shows "xcal_ok (table_xcal z rows)"
proof -
  define ss where "ss = map fst rows"
  have ss: "ss \<noteq> []" "ascending ss" using t by (auto simp: ss_def table_ok_def)
  have row: "z_midnight z (fst r) \<le> fst (snd r) \<and> fst (snd r) < snd (snd r) \<and>
      snd (snd r) < z_midnight z (fst r + 1)" if "r \<in> set rows" for r
    using t that by (cases r) (auto simp: table_ok_def list_all_iff)
  have "xcal_table_ok (table_xcal z rows)"
    using z ss row by (auto simp: xcal_table_ok_def table_xcal_def ss_def Let_def)
  moreover have "xcal_lookups_ok (table_xcal z rows)"
  proof -
    have past: "filter (\<lambda>s. d \<le> s) ss = []" if "last ss < d" for d
      using ascending_le_last [OF ss(2)] that by (force simp: filter_empty_conv)
    have end_: "filter (\<lambda>s. last ss < s) ss = []" by (rule filter_past_last [OF ss(2)]) simp
    have dom: "dom (map_of (map (\<lambda>(s, o1, c). (s, f o1 c)) rows)) = set ss" for f :: "int \<Rightarrow> int \<Rightarrow> int"
      by (force simp: dom_map_of_conv_image_fst ss_def)
    show ?thesis
      unfolding xcal_lookups_ok_def table_xcal_def Let_def ss_def [symmetric] xcal.simps
      using filter_hd_last [OF ss(1)] past end_ dom [of "\<lambda>o1 c. o1"] dom [of "\<lambda>o1 c. c"]
      by (auto simp: first_or_hd hd_rev lookup_or_missing) (auto simp: first_or_def)
  qed
  ultimately show ?thesis by (simp add: xcal_ok_def)
qed

text \<open>A week of New York sessions in July 2025, at UTC-4: Monday 7th to Friday 11th, the
  Thursday closing early.\<close>

definition day_at :: "day \<Rightarrow> int \<Rightarrow> int \<Rightarrow> instant" where
  "day_at d h m = (d - 719163) * one_day + h * hour + m * minute"

definition new_york_summer :: zone where
  "new_york_summer = fixed_zone (- 4 * hour)"

definition sample_rows :: "(day \<times> instant \<times> instant) list" where
  "sample_rows =
     [(739439, day_at 739439 13 30, day_at 739439 20 0),
      (739440, day_at 739440 13 30, day_at 739440 20 0),
      (739441, day_at 739441 13 30, day_at 739441 20 0),
      (739442, day_at 739442 13 30, day_at 739442 17 0),
      (739443, day_at 739443 13 30, day_at 739443 20 0)]"

definition sample_adapter :: adapter where
  "sample_adapter =
     (let c = table_xcal new_york_summer sample_rows in
      \<lparr>ad_cal = c, ad_tz = xc_zone c, ad_first = hd (xc_sessions c), ad_last = last (xc_sessions c),
       ad_start = CALENDAR_START, ad_sessions = xc_sessions c,
       ad_opens = map_of (rev (zip (xc_sessions c) (xc_opens c))),
       ad_closes = map_of (rev (zip (xc_sessions c) (xc_closes c)))\<rparr>)"

lemma sample_table_ok: "table_ok new_york_summer sample_rows"
  by (simp add: table_ok_def sample_rows_def new_york_summer_def fixed_zone_def day_at_def)

lemma sample_adapter_ok: "adapter_ok sample_adapter"
proof -
  have "xcal_ok (table_xcal new_york_summer sample_rows)"
    by (rule table_xcal_ok [OF _ sample_table_ok]) (simp add: new_york_summer_def)
  then show ?thesis
    by (rule mk_adapter_ok [where start = CALENDAR_START])
      (simp_all add: table_xcal_def sample_rows_def CALENDAR_START_def mk_adapter_def sample_adapter_def Let_def)
qed

section \<open>Properties\<close>

text \<open>The adapter's bisected and per-day look-ups over the library calendar answer exactly the plain
  questions about its session table: which sessions overlap an interval, which is the last one
  closed at or before an instant, which one is open at it.\<close>

theorem adapter_answers_from_table:
  assumes "adapter_ok A" and "ad_start_at A \<le> t"
  shows "ad_sessions_overlapping A t u =
      Inr (filter (\<lambda>s. ad_open_at A s < u \<and> t < ad_close_at A s) (ad_sessions A))
    \<and> ad_last_completed_session A t =
      (let closed = filter (\<lambda>s. ad_close_at A s \<le> t) (ad_sessions A)
       in Inr (if closed = [] then None else Some (last closed)))
    \<and> ad_session_in_progress A t = Inr (find (\<lambda>s. ad_open_at A s \<le> t \<and> t < ad_close_at A s) (ad_sessions A))"
  using adapter_overlapping [OF assms] adapter_last_completed [OF assms] adapter_in_progress [OF assms]
  by (simp add: Let_def)

theorem adapter_answers_from_table_witness:
  "ad_last_completed_session sample_adapter (day_at 739440 21 0) = Inr (Some 739440)
   \<and> ad_session_in_progress sample_adapter (day_at 739440 21 0) = Inr None"
proof -
  have "ad_start_at sample_adapter \<le> day_at 739440 21 0" by code_simp
  note t = adapter_answers_from_table [OF sample_adapter_ok this]
  have "filter (\<lambda>s. ad_close_at sample_adapter s \<le> day_at 739440 21 0) (ad_sessions sample_adapter) = [739439, 739440]"
    "find (\<lambda>s. ad_open_at sample_adapter s \<le> day_at 739440 21 0 \<and> day_at 739440 21 0 < ad_close_at sample_adapter s)
      (ad_sessions sample_adapter) = None" by code_simp+
  then show ?thesis using t by (simp add: Let_def)
qed

text \<open>\<open>next_session\<close> is the first session strictly after a date, whether or not the date is itself a
  session, down to the calendar's start; past the last session, and before the start, it raises.\<close>

theorem next_session_is_least:
  assumes "adapter_ok A"
  shows "case ad_next_session A d of
      Inr s \<Rightarrow> ad_start A \<le> d \<and> s \<in> set (ad_sessions A) \<and> d < s \<and> list_all (\<lambda>s'. s' \<le> d \<or> s \<le> s') (ad_sessions A)
    | Inl e \<Rightarrow> d < ad_start A \<or> list_all (\<lambda>s'. s' \<le> d) (ad_sessions A)"
proof (cases "d < ad_start A")
  case True
  then show ?thesis by (simp add: ad_next_session_def require_covered_def)
next
  case False
  then have n: "ad_start A \<le> d" by simp
  let ?after = "filter (\<lambda>s. d < s) (ad_sessions A)"
  show ?thesis
  proof (cases "?after = []")
    case True
    then show ?thesis using adapter_next(2) [OF assms n] by (auto simp: list_all_iff filter_empty_conv not_less)
  next
    case ne: False
    have "hd ?after \<le> s'" if "s' \<in> set (ad_sessions A)" "d < s'" for s'
      using hd_filter_le(1) [OF adapter_ok_fields(6) [OF assms] that(1), of "\<lambda>s. d < s"] that(2) by simp
    then have "\<forall>s' \<in> set (ad_sessions A). s' \<le> d \<or> hd ?after \<le> s'" by (meson not_less)
    then show ?thesis
      using adapter_next(1) [OF assms n ne] hd_filter_in [OF ne] n by (simp add: list_all_iff)
  qed
qed

theorem next_session_is_least_witness:
  "ad_next_session sample_adapter 739440 = Inr 739441 \<and>
   list_all (\<lambda>s'. s' \<le> 739440 \<or> 739441 \<le> s') (ad_sessions sample_adapter)"
proof -
  have "ad_next_session sample_adapter 739440 = Inr 739441" by code_simp
  then show ?thesis using next_session_is_least [OF sample_adapter_ok, of 739440] by simp
qed

text \<open>A question about a date before the calendar's first day is refused with the range error by
  every operation of the adapter that takes a date or an instant, instead of being answered from a
  calendar that does not reach it.\<close>

theorem adapter_refuses_before_start:
  assumes "adapter_ok A" and "t < ad_start_at A"
  shows "ad_sessions_overlapping A t u = Inl CalendarRangeError
    \<and> ad_last_completed_session A t = Inl CalendarRangeError
    \<and> ad_session_in_progress A t = Inl CalendarRangeError
    \<and> ad_next_session A (z_date (ad_tz A) t) = Inl CalendarRangeError"
  using adapter_refused [OF assms]
  by (simp add: ad_sessions_overlapping_def ad_last_completed_session_def ad_session_in_progress_def
      ad_next_session_def Let_def)

theorem adapter_refuses_before_start_witness:
  "ad_last_completed_session sample_adapter (day_at 700000 0 0) = Inl CalendarRangeError"
proof -
  have "day_at 700000 0 0 < ad_start_at sample_adapter" by code_simp
  from adapter_refuses_before_start [OF sample_adapter_ok this] show ?thesis by simp
qed

end
