(* ===== verification/Completeness.thy ===== *)
theory Completeness
  imports Trading_Calendar
begin

text \<open>
  \<open>server/data/store/app/completeness.py\<close>: which sessions of a range are expected to hold a
  bar, which are missing, the runs of missing sessions and the coverage strip. A \<open>dict\<close> from
  sessions to periods is an association list in insertion order; the set \<open>covered\<close> of
  sessions holding a bar is a HOL set. Instants are aware; the two public functions that
  refuse naive datetimes take \<open>stamp\<close>s.
\<close>

section \<open>Periods\<close>

definition PERIODIC :: "granularity set" where
  "PERIODIC = {ONE_WEEK, ONE_MONTH}"

definition period_start :: "day \<Rightarrow> granularity \<Rightarrow> day" where
  "period_start d g =
     (if g = ONE_WEEK then d - weekday d
      else if g = ONE_MONTH then first_of_month d
      else d)"

definition next_period_start :: "day \<Rightarrow> granularity \<Rightarrow> day" where
  "next_period_start d g =
     (if g = ONE_WEEK then period_start d g + 7
      else if g = ONE_MONTH then first_of_next_month d
      else d + 1)"

lemma period_start_le [period_simps]: "period_start d g \<le> d"
  using weekday_bounds [of d] first_of_month_le [of d] by (simp add: period_start_def)

lemma next_period_start_gt [period_simps]: "d < next_period_start d g"
  using weekday_bounds [of d] first_of_next_month_gt [of d]
  by (simp add: next_period_start_def period_start_def)

text \<open>A period is the days from its start up to the start of the next.\<close>

lemma period_start_within:
  assumes "period_start d g \<le> e" and "e < next_period_start d g"
  shows "period_start e g = period_start d g"
  using assms monday_within [of d e] first_of_month_within [of d e]
  by (auto simp: period_start_def next_period_start_def split: if_splits)

lemma period_start_idem [simp]: "period_start (period_start d g) g = period_start d g"
  using period_start_le [of d g] next_period_start_gt [of d g] by (intro period_start_within) auto

lemma next_period_start_cong:
  "period_start d g = period_start e g \<Longrightarrow> next_period_start d g = next_period_start e g"
  using first_of_next_month_within [of d e]
  by (auto simp: period_start_def next_period_start_def split: if_splits)

lemma next_period_of_start [simp]: "next_period_start (period_start d g) g = next_period_start d g"
  by (rule next_period_start_cong) simp

lemma period_eq_iff:
  "period_start e g = period_start d g \<longleftrightarrow> period_start d g \<le> e \<and> e < next_period_start d g"
  using period_start_within [of d g e] period_start_le [of e g] next_period_start_gt [of e g]
    next_period_start_cong [of e g d] by fastforce

lemma period_start_mono:
  assumes "d \<le> e"
  shows "period_start d g \<le> period_start e g"
proof (rule ccontr)
  assume "\<not> period_start d g \<le> period_start e g"
  then have lt: "period_start e g < period_start d g" by linarith
  have "d < next_period_start e g"
    using assms next_period_start_gt [of e g] by linarith
  moreover have "period_start e g \<le> d" using lt period_start_le [of d g] by linarith
  ultimately have "period_start d g = period_start e g" by (intro period_start_within)
  then show False using lt by linarith
qed

lemma next_period_start_mono:
  assumes "d \<le> e"
  shows "next_period_start d g \<le> next_period_start e g"
proof (cases "period_start d g = period_start e g")
  case True
  from next_period_start_cong [OF this] show ?thesis by simp
next
  case False
  then have "next_period_start d g \<le> e"
    using assms period_eq_iff [of e g d] period_start_le [of d g] by force
  then show ?thesis using next_period_start_gt [of e g] by simp
qed

lemma period_start_less_next:
  assumes "period_start d g < period_start e g"
  shows "next_period_start d g \<le> period_start e g"
  using assms period_eq_iff [of "period_start e g" g d] period_start_le [of d g] by force

lemma nonperiodic_period [simp]:
  "g \<notin> PERIODIC \<Longrightarrow> period_start d g = d" "g \<notin> PERIODIC \<Longrightarrow> next_period_start d g = d + 1"
  by (auto simp: PERIODIC_def period_start_def next_period_start_def)

section \<open>Grouping by key\<close>

text \<open>\<open>d.setdefault(k, []).append(v)\<close>, and the loop that groups a list with it\<close>

fun add_member :: "'k \<Rightarrow> 'v \<Rightarrow> ('k \<times> 'v list) list \<Rightarrow> ('k \<times> 'v list) list" where
  "add_member k v [] = [(k, [v])]"
| "add_member k v ((k', vs) # rest) =
     (if k = k' then (k', vs @ [v]) # rest else (k', vs) # add_member k v rest)"

definition group_by :: "('v \<Rightarrow> 'k) \<Rightarrow> 'v list \<Rightarrow> ('k \<times> 'v list) list" where
  "group_by f xs = fold (\<lambda>x gs. add_member (f x) x gs) xs []"

lemma group_by_snoc: "group_by f (xs @ [x]) = add_member (f x) x (group_by f xs)"
  by (simp add: group_by_def)

text \<open>Appending with a key that is at least every earlier one keeps the groups in order.\<close>

lemma add_member_last:
  assumes "ascending (map fst gs)" "\<forall>k' \<in> set (map fst gs). k' \<le> k"
  shows "ascending (map fst (add_member k v gs)) \<and> set (map fst (add_member k v gs)) = insert k (set (map fst gs))
    \<and> concat (map snd (add_member k v gs)) = concat (map snd gs) @ [v]"
  using assms
proof (induction gs)
  case (Cons g gs)
  obtain k' vs where g: "g = (k', vs)" by fastforce
  show ?case
  proof (cases "k = k'")
    case True
    then have "gs = []" using Cons.prems g by (cases gs) force+
    then show ?thesis using True g by simp
  next
    case False
    then have "k' < k" using Cons.prems g by (simp add: order_less_le)
    then show ?thesis using Cons.IH Cons.prems g False by auto
  qed
qed simp

lemma add_member_elems:
  assumes "(k', vs) \<in> set (add_member k v gs)"
    and "\<forall>(k0, vs0) \<in> set gs. vs0 \<noteq> [] \<and> (\<forall>x \<in> set vs0. f x = k0)" and "f v = k"
  shows "vs \<noteq> [] \<and> (\<forall>x \<in> set vs. f x = k')"
  using assms by (induction k v gs rule: add_member.induct) (auto split: if_splits)

lemma group_by_ordered:
  assumes "\<And>x y. x \<le> y \<Longrightarrow> f x \<le> f y" and "ascending xs"
  shows "ascending (map fst (group_by f xs)) \<and> set (map fst (group_by f xs)) = f ` set xs
    \<and> concat (map snd (group_by f xs)) = xs"
  using assms(2)
proof (induction xs rule: rev_induct)
  case Nil
  show ?case by (simp add: group_by_def)
next
  case (snoc x xs)
  then have IH: "ascending (map fst (group_by f xs))" "set (map fst (group_by f xs)) = f ` set xs"
    "concat (map snd (group_by f xs)) = xs"
    by (auto simp: sorted_wrt_append)
  have "\<forall>k' \<in> set (map fst (group_by f xs)). k' \<le> f x"
    unfolding IH(2) using snoc.prems assms(1) by (auto simp: sorted_wrt_append less_imp_le)
  from add_member_last [OF IH(1) this, of x] show ?case
    unfolding group_by_snoc IH by auto
qed

lemma group_by_elems: "(k, vs) \<in> set (group_by f xs) \<Longrightarrow> vs \<noteq> [] \<and> (\<forall>x \<in> set vs. f x = k)"
proof (induction xs arbitrary: k vs rule: rev_induct)
  case Nil
  then show ?case by (simp add: group_by_def)
next
  case (snoc x xs)
  have "(k, vs) \<in> set (add_member (f x) x (group_by f xs))"
    using snoc.prems by (simp add: group_by_snoc)
  then show ?case using snoc.IH by (intro add_member_elems) auto
qed

lemma group_members:
  assumes gs: "ascending (map fst gs)" "\<And>k vs x. (k, vs) \<in> set gs \<Longrightarrow> x \<in> set vs \<Longrightarrow> f x = k"
    and kv: "(k, vs) \<in> set gs"
  shows "set vs = {x \<in> set (concat (map snd gs)). f x = k}"
proof -
  have same: "vs' = vs" if "(k, vs') \<in> set gs" for vs'
    using ascending_distinct [OF gs(1)] kv that by (metis eq_key_imp_eq_value)
  show ?thesis
  proof (intro equalityI subsetI)
    fix x assume "x \<in> set vs"
    then show "x \<in> {x \<in> set (concat (map snd gs)). f x = k}" using kv gs(2) by force
  next
    fix x assume "x \<in> {x \<in> set (concat (map snd gs)). f x = k}"
    then obtain k' vs' where "(k', vs') \<in> set gs" "x \<in> set vs'" "f x = k" by auto
    then show "x \<in> set vs" using gs(2) same by blast
  qed
qed

section \<open>Expected sessions\<close>

fun expected_loop ::
  "instant \<Rightarrow> instant \<Rightarrow> tcal \<Rightarrow> instant \<Rightarrow> (day \<times> day list) list \<Rightarrow> cal_error + (day \<times> day) list" where
  "expected_loop start until calendar now [] = Inr []"
| "expected_loop start until calendar now ((period, members) # rest) =
     bind_r (if start \<le> local_midnight period calendar \<and> local_midnight period calendar < until
             then bind_r (session_close calendar (last members)) (\<lambda>c. Inr (c \<le> now))
             else Inr False) (\<lambda>ended.
     bind_r (expected_loop start until calendar now rest) (\<lambda>more.
       Inr (if ended then map (\<lambda>s. (s, period)) members @ more else more)))"

definition judged ::
  "instant \<Rightarrow> instant \<Rightarrow> tcal \<Rightarrow> instant \<Rightarrow> granularity \<Rightarrow> cal_error + day list \<times> (day \<times> day) list" where
  "judged start until calendar now g =
     (if g \<notin> PERIODIC
      then bind_r (sessions_overlapping calendar start until) (\<lambda>sessions.
           bind_r (filter_r (\<lambda>s. bind_r (session_close calendar s) (\<lambda>c. Inr (c \<le> now))) sessions)
             (\<lambda>completed. Inr (sessions, map (\<lambda>s. (s, s)) completed)))
      else let bound = min until now
           in bind_r (sessions_overlapping calendar start (start + 1)) (\<lambda>_.
              if bound \<le> start then Inr ([], [])
              else let window_end = local_midnight (next_period_start (z_date (tz calendar) bound) g) calendar
                   in bind_r (sessions_overlapping calendar start window_end) (\<lambda>sessions.
                      let by_period = group_by (\<lambda>s. period_start s g) sessions
                      in bind_r (expected_loop start until calendar now by_period) (\<lambda>expected.
                           Inr (sessions, expected)))))"

definition covered_sessions :: "instant list \<Rightarrow> tcal \<Rightarrow> day set" where
  "covered_sessions timestamps calendar = set (map (\<lambda>ts. session_of ts calendar) timestamps)"

definition covered_periods :: "day set \<Rightarrow> granularity \<Rightarrow> day set" where
  "covered_periods covered g =
     (if g \<notin> PERIODIC then covered else (\<lambda>d. period_start d g) ` covered)"

definition in_range ::
  "(day \<times> day) list \<Rightarrow> instant \<Rightarrow> instant \<Rightarrow> tcal \<Rightarrow> granularity \<Rightarrow> cal_error + (day \<times> day) list" where
  "in_range expected start until calendar g =
     (if g \<notin> PERIODIC then Inr expected
      else bind_r (sessions_overlapping calendar start until) (\<lambda>inside.
           Inr (filter (\<lambda>(s, p). s \<in> set inside) expected)))"

definition missing_sessions ::
  "instant \<Rightarrow> instant \<Rightarrow> day set \<Rightarrow> tcal \<Rightarrow> instant \<Rightarrow> granularity \<Rightarrow> cal_error + day list" where
  "missing_sessions start until covered calendar now g =
     bind_r (judged start until calendar now g) (\<lambda>(_, expected).
     bind_r (in_range expected start until calendar g) (\<lambda>expected.
       let held = covered_periods covered g
       in Inr (map fst (filter (\<lambda>(s, period). period \<notin> held) expected))))"

datatype completeness_status = COMPLETE | GAPS

record completeness_result =
  cr_status :: completeness_status
  cr_gap_count :: nat

definition assess_completeness ::
  "instant \<Rightarrow> instant \<Rightarrow> day set \<Rightarrow> granularity \<Rightarrow> tcal \<Rightarrow> instant \<Rightarrow> cal_error + completeness_result" where
  "assess_completeness start until covered g calendar now =
     bind_r (missing_sessions start until covered calendar now g) (\<lambda>missing.
       if missing \<noteq> [] then Inr \<lparr>cr_status = GAPS, cr_gap_count = length missing\<rparr>
       else Inr \<lparr>cr_status = COMPLETE, cr_gap_count = 0\<rparr>)"

section \<open>Gap windows\<close>

record gap_interval =
  first_session :: day
  last_session :: day
  sessions :: nat

definition gap_of :: "day list \<Rightarrow> gap_interval" where
  "gap_of run = \<lparr>first_session = hd run, last_session = last run, sessions = length run\<rparr>"

fun gap_loop :: "day set \<Rightarrow> day list \<Rightarrow> day list \<Rightarrow> gap_interval list" where
  "gap_loop missing [] run = (if run \<noteq> [] then [gap_of run] else [])"
| "gap_loop missing (s # ss) run =
     (if s \<in> missing then gap_loop missing ss (run @ [s])
      else if run \<noteq> [] then gap_of run # gap_loop missing ss []
      else gap_loop missing ss [])"

definition gap_intervals_at ::
  "instant \<Rightarrow> instant \<Rightarrow> day set \<Rightarrow> tcal \<Rightarrow> instant \<Rightarrow> granularity \<Rightarrow> cal_error + gap_interval list" where
  "gap_intervals_at start until covered calendar now g =
     bind_r (judged start until calendar now g) (\<lambda>(sessions, expected).
     bind_r (in_range expected start until calendar g) (\<lambda>expected.
       let held = covered_periods covered g;
           missing = fst ` set (filter (\<lambda>(s, period). period \<notin> held) expected)
       in Inr (gap_loop missing sessions [])))"

definition gap_intervals ::
  "stamp \<Rightarrow> stamp \<Rightarrow> day set \<Rightarrow> tcal \<Rightarrow> stamp \<Rightarrow> granularity \<Rightarrow> cal_error + gap_interval list" where
  "gap_intervals start until covered calendar now g =
     bind_r (require_aware [Some start, Some until, Some now]) (\<lambda>_.
       gap_intervals_at (instant_of start) (instant_of until) covered calendar (instant_of now) g)"

section \<open>The coverage strip\<close>

record coverage_bucket =
  cb_start :: instant
  cb_end :: instant
  expected_sessions :: nat
  sessions_with_bars :: nat

datatype coverage_error = CoverageCalendar cal_error | BadBuckets int

fun bucket_loop ::
  "instant \<Rightarrow> instant \<Rightarrow> tcal \<Rightarrow> (day \<times> day) list \<Rightarrow> day set \<Rightarrow> day list \<Rightarrow> nat \<Rightarrow> nat \<Rightarrow> nat \<Rightarrow>
   nat list \<Rightarrow> nat \<Rightarrow> coverage_bucket list" where
  "bucket_loop start until calendar judged_ss held ss groups per extra [] first = []"
| "bucket_loop start until calendar judged_ss held ss groups per extra (index # indices) first =
     (let last = first + per + (if index < extra then 1 else 0);
          members = take (last - first) (drop first ss);
          expected = filter (\<lambda>s. map_of judged_ss s \<noteq> None) members;
          bucket_start = (if index = 0 then start else local_midnight (hd members) calendar);
          bucket_end = (if index = groups - 1 then until else local_midnight (ss ! last) calendar)
      in \<lparr>cb_start = bucket_start, cb_end = bucket_end, expected_sessions = length expected,
          sessions_with_bars = length (filter (\<lambda>s. the (map_of judged_ss s) \<in> held) expected)\<rparr>
         # bucket_loop start until calendar judged_ss held ss groups per extra indices last)"

definition coverage_buckets_at ::
  "instant \<Rightarrow> instant \<Rightarrow> day set \<Rightarrow> tcal \<Rightarrow> instant \<Rightarrow> nat \<Rightarrow> granularity \<Rightarrow> cal_error + coverage_bucket list" where
  "coverage_buckets_at start until covered calendar now buckets g =
     bind_r (judged start until calendar now g) (\<lambda>(window, judged_ss).
     bind_r (if g \<notin> PERIODIC then Inr window else sessions_overlapping calendar start until) (\<lambda>ss.
       if ss = [] then Inr []
       else let held = covered_periods covered g;
                groups = min buckets (length ss);
                per = length ss div groups;
                extra = length ss mod groups
            in Inr (bucket_loop start until calendar judged_ss held ss groups per extra [0..<groups] 0)))"

fun lift_calendar :: "cal_error + 'a \<Rightarrow> coverage_error + 'a" where
  "lift_calendar (Inl e) = Inl (CoverageCalendar e)"
| "lift_calendar (Inr x) = Inr x"

definition coverage_buckets ::
  "stamp \<Rightarrow> stamp \<Rightarrow> day set \<Rightarrow> tcal \<Rightarrow> stamp \<Rightarrow> int \<Rightarrow> granularity \<Rightarrow>
   coverage_error + coverage_bucket list" where
  "coverage_buckets start until covered calendar now buckets g =
     bind_r (lift_calendar (require_aware [Some start, Some until, Some now])) (\<lambda>_.
       if buckets < 1 then Inl (BadBuckets buckets)
       else lift_calendar
         (coverage_buckets_at (instant_of start) (instant_of until) covered calendar
            (instant_of now) (nat buckets) g))"

section \<open>Which sessions are expected\<close>

text \<open>
  The expected sessions of \<open>[start, until)\<close>, said without periods being grouped: the session
  overlaps the range and, for 1min to 1day, has closed by \<open>now\<close>; for 1week and 1month its
  period starts inside the range and every session of that period has closed by \<open>now\<close>.
\<close>

definition period_ended :: "day list \<Rightarrow> (day \<Rightarrow> instant) \<Rightarrow> instant \<Rightarrow> granularity \<Rightarrow> day \<Rightarrow> bool" where
  "period_ended ss cl now g s \<longleftrightarrow>
     list_all (\<lambda>s'. period_start s' g = period_start s g \<longrightarrow> cl s' \<le> now) ss"

definition period_expected ::
  "zone \<Rightarrow> day list \<Rightarrow> (day \<Rightarrow> instant) \<Rightarrow> instant \<Rightarrow> instant \<Rightarrow> instant \<Rightarrow> granularity \<Rightarrow> day \<Rightarrow> bool" where
  "period_expected z ss cl start until now g s \<longleftrightarrow>
     start \<le> z_midnight z (period_start s g) \<and> z_midnight z (period_start s g) < until \<and>
     period_ended ss cl now g s"

definition overlaps ::
  "(day \<Rightarrow> instant) \<Rightarrow> (day \<Rightarrow> instant) \<Rightarrow> instant \<Rightarrow> instant \<Rightarrow> day \<Rightarrow> bool" where
  "overlaps op cl start until s \<longleftrightarrow> op s < until \<and> start < cl s"

definition is_expected ::
  "zone \<Rightarrow> day list \<Rightarrow> (day \<Rightarrow> instant) \<Rightarrow> (day \<Rightarrow> instant) \<Rightarrow> instant \<Rightarrow> instant \<Rightarrow> instant \<Rightarrow>
   granularity \<Rightarrow> day \<Rightarrow> bool" where
  "is_expected z ss op cl start until now g s \<longleftrightarrow>
     overlaps op cl start until s \<and>
     (if g \<in> PERIODIC then period_expected z ss cl start until now g s else cl s \<le> now)"

definition holds_bar :: "day set \<Rightarrow> granularity \<Rightarrow> day \<Rightarrow> bool" where
  "holds_bar covered g s \<longleftrightarrow> (\<exists>d \<in> covered. period_start d g = period_start s g)"

lemma covered_periods_iff: "period_start s g \<in> covered_periods covered g \<longleftrightarrow> holds_bar covered g s"
proof (cases "g \<in> PERIODIC")
  case True
  then show ?thesis unfolding covered_periods_def holds_bar_def by (simp add: image_iff) metis
qed (simp add: covered_periods_def holds_bar_def)

context trading_calendar
begin

lemma midnight_le_open: "inv c \<Longrightarrow> s \<in> set (sess c) \<Longrightarrow> d \<le> s \<Longrightarrow> z_midnight (tz (proto c)) d \<le> opn c s"
  using zone_midnight_mono [OF tz_ok, of c d s] open_in_day [of c s] by linarith

lemma close_less_midnight: "inv c \<Longrightarrow> s \<in> set (sess c) \<Longrightarrow> s < d \<Longrightarrow> cls c s < z_midnight (tz (proto c)) d"
  using zone_midnight_mono [OF tz_ok, of c "s + 1" d] close_in_day [of c s] by linarith

lemma filter_closed:
  assumes "inv c" and "set ss \<subseteq> set (sess c)"
  shows "filter_r (\<lambda>s. bind_r (session_close (proto c) s) (\<lambda>x. Inr (x \<le> now))) ss
       = Inr (filter (\<lambda>s. cls c s \<le> now) ss)"
  using assms close_eq by (intro filter_r_Inr) auto

lemma judged_daily:
  assumes "inv c" and "start_at c \<le> start" and "g \<notin> PERIODIC"
  shows "judged start until (proto c) now g =
    Inr (filter (overlaps (opn c) (cls c) start until) (sess c),
         map (\<lambda>s. (s, s)) (filter (\<lambda>s. overlaps (opn c) (cls c) start until s \<and> cls c s \<le> now) (sess c)))"
  using assms filter_closed [OF assms(1), of "filter (\<lambda>s. opn c s < until \<and> start < cls c s) (sess c)" now]
  by (simp add: judged_def overlapping_eq overlaps_def conj_commute cong: filter_cong)

lemma expected_loop_eq:
  assumes "inv c"
    and "\<And>p ms. (p, ms) \<in> set gs \<Longrightarrow> ms \<noteq> [] \<and> set ms \<subseteq> set (sess c)"
  shows "expected_loop start until (proto c) now gs =
    Inr (concat (map (\<lambda>(p, ms).
      if start \<le> z_midnight (tz (proto c)) p \<and> z_midnight (tz (proto c)) p < until \<and> cls c (last ms) \<le> now
      then map (\<lambda>s. (s, p)) ms else []) gs))"
  using assms(2)
proof (induction gs)
  case (Cons g gs)
  obtain p ms where g: "g = (p, ms)" by fastforce
  have "last ms \<in> set (sess c)" using Cons.prems [of p ms] g last_in_set [of ms] by auto
  then have "session_close (proto c) (last ms) = Inr (cls c (last ms))" by (rule close_eq [OF assms(1)])
  moreover have "expected_loop start until (proto c) now gs = Inr (concat (map (\<lambda>(p, ms).
      if start \<le> z_midnight (tz (proto c)) p \<and> z_midnight (tz (proto c)) p < until \<and> cls c (last ms) \<le> now
      then map (\<lambda>s. (s, p)) ms else []) gs))"
    using Cons.prems by (intro Cons.IH) auto
  ultimately show ?case by (auto simp: g local_midnight_def)
qed simp

end

lemma sorted_wrt_concat_member: "sorted_wrt P (concat (map snd gs)) \<Longrightarrow> (k, vs) \<in> set gs \<Longrightarrow> sorted_wrt P vs"
  by (induction gs) (auto simp: sorted_wrt_append)

lemma concat_due_groups:
  assumes "\<And>p ms s. (p, ms) \<in> set gs \<Longrightarrow> s \<in> set ms \<Longrightarrow> f s = p \<and> (due p ms \<longleftrightarrow> Q s)"
  shows "concat (map (\<lambda>(p, ms). if due p ms then map (\<lambda>s. (s, p)) ms else []) gs)
       = map (\<lambda>s. (s, f s)) (filter Q (concat (map snd gs)))"
  using assms
proof (induction gs)
  case (Cons g gs)
  obtain p ms where g: "g = (p, ms)" by fastforce
  have fs: "f s = p" if "s \<in> set ms" for s using Cons.prems [of p ms s] that g by simp
  have "filter Q ms = (if due p ms then ms else [])"
    using Cons.prems [of p ms] g by (cases "due p ms") (auto simp: filter_id_conv filter_empty_conv)
  then show ?case using Cons.IH Cons.prems fs by (auto simp: g)
qed simp

context trading_calendar
begin

text \<open>A period starting before the bound lies wholly inside the window walked.\<close>

lemma window_holds_period:
  assumes "inv c" and s: "s \<in> set (sess c)" "s' \<in> set (sess c)"
    and same: "period_start s' g = period_start s g"
    and start: "start \<le> z_midnight (tz (proto c)) (period_start s g)"
    and bound: "z_midnight (tz (proto c)) (period_start s g) \<le> bound"
  shows "overlaps (opn c) (cls c) start
    (z_midnight (tz (proto c)) (next_period_start (z_date (tz (proto c)) bound) g)) s'"
proof -
  let ?z = "tz (proto c)"
  have z: "zone_ok ?z" by (rule tz_ok [OF assms(1)])
  have le: "period_start s g \<le> s'" using period_start_le [of s' g] same by simp
  have "start < cls c s'"
    using midnight_le_open [OF assms(1) s(2) le] open_less_close [OF assms(1) s(2)] start by linarith
  moreover have "opn c s' < z_midnight ?z (next_period_start (z_date ?z bound) g)"
  proof -
    have "period_start s g \<le> z_date ?z bound" using bound zone_date_ge [OF z] by simp
    then have "next_period_start (period_start s g) g \<le> next_period_start (z_date ?z bound) g"
      by (rule next_period_start_mono)
    moreover have "next_period_start (period_start s g) g = next_period_start s' g"
      using next_period_start_cong [OF same] by simp
    ultimately have "s' < next_period_start (z_date ?z bound) g"
      using next_period_start_gt [of s' g] by linarith
    from close_less_midnight [OF assms(1) s(2) this] open_less_close [OF assms(1) s(2)]
    show ?thesis by linarith
  qed
  ultimately show ?thesis by (simp add: overlaps_def)
qed

text \<open>For a group of sessions of the window, its last session having closed is the whole period
  having ended.\<close>

lemma due_iff_expected:
  assumes c: "inv c" and W: "W = z_midnight (tz (proto c)) (next_period_start (z_date (tz (proto c)) (min until now)) g)"
    and ms: "set ms = {s \<in> set (sess c). overlaps (opn c) (cls c) start W s \<and> period_start s g = p}"
    and asc: "ascending ms" and s: "s \<in> set ms"
  shows "start \<le> z_midnight (tz (proto c)) p \<and> z_midnight (tz (proto c)) p < until \<and> cls c (last ms) \<le> now \<longleftrightarrow>
    period_expected (tz (proto c)) (sess c) (cls c) start until now g s"
proof -
  have s': "s \<in> set (sess c)" "period_start s g = p" using s ms by auto
  have last: "last ms \<in> set ms" using s by (metis last_in_set list.set_cases list.distinct(1))
  then have last': "last ms \<in> set (sess c)" "period_start (last ms) g = p" using ms by auto
  have all: "cls c x \<le> now" if due: "start \<le> z_midnight (tz (proto c)) p" "z_midnight (tz (proto c)) p < until"
    "cls c (last ms) \<le> now" and x: "x \<in> set (sess c)" "period_start x g = p" for x
  proof -
    have "z_midnight (tz (proto c)) p \<le> now"
      using midnight_le_open [OF c last'(1), of p] open_less_close [OF c last'(1)] due(3)
        period_start_le [of "last ms" g] last'(2) by linarith
    then have "overlaps (opn c) (cls c) start W x"
      unfolding W using due s' x by (intro window_holds_period [OF c s'(1) x(1)]) auto
    then have "x \<in> set ms" using ms x by simp
    then have "x \<le> last ms" by (rule ascending_le_last [OF asc])
    then show ?thesis using close_le_iff [OF c x(1) last'(1)] due(3) by linarith
  qed
  show ?thesis
    using all s'(2) last' by (auto simp: period_expected_def period_ended_def list_all_iff)
qed

lemma period_expected_bounds:
  assumes c: "inv c" and s: "s \<in> set (sess c)"
    and e: "period_expected (tz (proto c)) (sess c) (cls c) start until now g s"
  shows "start < min until now" and "z_midnight (tz (proto c)) (period_start s g) \<le> min until now"
    and "start < cls c s" and "cls c s \<le> now"
proof -
  have cl: "cls c s \<le> now" using e s by (simp add: period_expected_def period_ended_def list_all_iff)
  have m: "z_midnight (tz (proto c)) (period_start s g) < cls c s"
    using midnight_le_open [OF c s period_start_le [of s g]] open_less_close [OF c s] by linarith
  show "start < min until now" "z_midnight (tz (proto c)) (period_start s g) \<le> min until now"
    "start < cls c s" "cls c s \<le> now"
    using e m cl by (auto simp: period_expected_def)
qed

lemma judged_periodic_window:
  assumes c: "inv c" and start: "start_at c \<le> start" and g: "g \<in> PERIODIC" and b: "start < min until now"
    and W: "W = z_midnight (tz (proto c)) (next_period_start (z_date (tz (proto c)) (min until now)) g)"
  shows "judged start until (proto c) now g =
    Inr (filter (overlaps (opn c) (cls c) start W) (sess c),
         map (\<lambda>s. (s, period_start s g))
           (filter (period_expected (tz (proto c)) (sess c) (cls c) start until now g)
             (filter (overlaps (opn c) (cls c) start W) (sess c))))"
proof -
  let ?w = "filter (overlaps (opn c) (cls c) start W) (sess c)"
  let ?gs = "group_by (\<lambda>s. period_start s g) ?w"
  have asc: "ascending ?w" using sess_ascending [OF c] by auto
  have ord: "ascending (map fst ?gs)" "set (map fst ?gs) = (\<lambda>s. period_start s g) ` set ?w"
    "concat (map snd ?gs) = ?w"
    using group_by_ordered [of "\<lambda>s. period_start s g" ?w] period_start_mono asc by auto
  have grp: "set ms = {s \<in> set (sess c). overlaps (opn c) (cls c) start W s \<and> period_start s g = p} \<and>
      ms \<noteq> [] \<and> ascending ms \<and> (\<forall>s \<in> set ms. period_start s g = p)" if pm: "(p, ms) \<in> set ?gs" for p ms
  proof -
    have "set ms = {s \<in> set (concat (map snd ?gs)). period_start s g = p}"
      by (rule group_members [OF ord(1) _ pm]) (drule group_by_elems, simp)
    moreover have "ascending ms"
      using asc ord(3) pm by (metis sorted_wrt_concat_member)
    moreover have "ms \<noteq> [] \<and> (\<forall>x \<in> set ms. period_start x g = p)"
      using pm by (rule group_by_elems)
    ultimately show ?thesis unfolding ord(3) by simp
  qed
  have "expected_loop start until (proto c) now ?gs = Inr (concat (map (\<lambda>(p, ms).
      if start \<le> z_midnight (tz (proto c)) p \<and> z_midnight (tz (proto c)) p < until \<and> cls c (last ms) \<le> now
      then map (\<lambda>s. (s, p)) ms else []) ?gs))"
  proof (rule expected_loop_eq [OF c])
    fix p ms assume "(p, ms) \<in> set ?gs"
    from grp [OF this] show "ms \<noteq> [] \<and> set ms \<subseteq> set (sess c)" by blast
  qed
  moreover have "concat (map (\<lambda>(p, ms).
      if start \<le> z_midnight (tz (proto c)) p \<and> z_midnight (tz (proto c)) p < until \<and> cls c (last ms) \<le> now
      then map (\<lambda>s. (s, p)) ms else []) ?gs) = map (\<lambda>s. (s, period_start s g))
      (filter (period_expected (tz (proto c)) (sess c) (cls c) start until now g) (concat (map snd ?gs)))"
  proof (rule concat_due_groups, goal_cases)
    case (1 p ms s)
    then show ?case using grp [OF 1(1)] due_iff_expected [OF c W, of ms start p s] by blast
  qed
  ultimately have loop: "expected_loop start until (proto c) now ?gs = Inr (map (\<lambda>s. (s, period_start s g))
      (filter (period_expected (tz (proto c)) (sess c) (cls c) start until now g) ?w))"
    using ord(3) by simp
  have "sessions_overlapping (proto c) start u = Inr (filter (overlaps (opn c) (cls c) start u) (sess c))" for u
    by (simp add: overlapping_eq [OF c start] overlaps_def [abs_def])
  moreover have "\<not> min until now \<le> start" using b by (simp only: not_le)
  ultimately show ?thesis
    using g by (simp add: judged_def Let_def local_midnight_def W [symmetric] loop
      del: filter_filter min_le_iff_disj)
qed

text \<open>Both cases of \<open>judged\<close> and the clip of \<open>in_range\<close> come to \<open>is_expected\<close>.\<close>

abbreviation expected_at :: "'c \<Rightarrow> instant \<Rightarrow> instant \<Rightarrow> instant \<Rightarrow> granularity \<Rightarrow> day \<Rightarrow> bool" where
  "expected_at c start until now g \<equiv> is_expected (tz (proto c)) (sess c) (opn c) (cls c) start until now g"

lemma judged_periodic_empty:
  assumes "inv c" and "start_at c \<le> start" and "g \<in> PERIODIC" and "min until now \<le> start"
  shows "judged start until (proto c) now g = Inr ([], [])"
  using assms(3,4) overlapping_eq [OF assms(1,2)]
  by (simp add: judged_def Let_def del: min_le_iff_disj)

lemma judged_block:
  assumes "inv c" and "start_at c \<le> start"
  obtains W ex where
    "judged start until (proto c) now g = Inr (filter (overlaps (opn c) (cls c) start W) (sess c), ex)"
    and "in_range ex start until (proto c) g =
      Inr (map (\<lambda>s. (s, period_start s g)) (filter (expected_at c start until now g) (sess c)))"
    and "\<And>s. s \<in> set (sess c) \<Longrightarrow> expected_at c start until now g s \<Longrightarrow> overlaps (opn c) (cls c) start W s"
    and "\<And>s. s \<in> set (sess c) \<Longrightarrow> overlaps (opn c) (cls c) start until s \<Longrightarrow>
      map_of ex s = (if expected_at c start until now g s then Some (period_start s g) else None)"
    and "g \<notin> PERIODIC \<Longrightarrow> W = until"
proof -
  let ?e = "expected_at c start until now g"
  let ?pe = "period_expected (tz (proto c)) (sess c) (cls c) start until now g"
  have so: "sessions_overlapping (proto c) start u = Inr (filter (overlaps (opn c) (cls c) start u) (sess c))" for u
    by (simp add: overlapping_eq [OF assms] overlaps_def [abs_def])
  consider (daily) "g \<notin> PERIODIC" | (window) "g \<in> PERIODIC" "start < min until now"
    | (none) "g \<in> PERIODIC" "min until now \<le> start" by linarith
  then show thesis
  proof cases
    case daily
    show thesis
      by (rule that [OF judged_daily [OF assms daily]])
        (use daily in \<open>auto simp: in_range_def is_expected_def [abs_def] map_of_map_restrict restrict_map_def\<close>)
  next
    case window
    let ?W = "z_midnight (tz (proto c)) (next_period_start (z_date (tz (proto c)) (min until now)) g)"
    have whole: "overlaps (opn c) (cls c) start ?W s" if "s \<in> set (sess c)" "?pe s" for s
      using that period_expected_bounds(2) [OF assms(1) that]
      by (intro window_holds_period [OF assms(1) that(1) that(1) refl]) (auto simp: period_expected_def)
    show thesis
      by (rule that [OF judged_periodic_window [OF assms window refl]])
        (use window whole in \<open>auto simp: in_range_def so is_expected_def filter_map o_def
          map_of_map_restrict restrict_map_def intro!: filter_cong arg_cong [where f = "map _"]\<close>)
  next
    case none
    have no: "\<not> ?pe s" if "s \<in> set (sess c)" for s
      using period_expected_bounds(1) [OF assms(1) that, of start until now g] none(2) by linarith
    have "\<not> overlaps (opn c) (cls c) start (start_at c) s" if "s \<in> set (sess c)" for s
      using midnight_le_open [OF assms(1) that sess_covered [OF assms(1) that]]
      by (simp add: overlaps_def start_at_eq [OF assms(1)])
    then have "judged start until (proto c) now g =
        Inr (filter (overlaps (opn c) (cls c) start (start_at c)) (sess c), [])"
      using judged_periodic_empty [OF assms none] by (simp add: filter_empty_conv)
    then show thesis
      by (rule that) (use none no in \<open>auto simp: in_range_def so is_expected_def filter_empty_conv\<close>)
  qed
qed

text \<open>The missing sessions: expected, with no bar in their period.\<close>

abbreviation missing_at :: "'c \<Rightarrow> instant \<Rightarrow> instant \<Rightarrow> day set \<Rightarrow> instant \<Rightarrow> granularity \<Rightarrow> day \<Rightarrow> bool" where
  "missing_at c start until covered now g s \<equiv> expected_at c start until now g s \<and> \<not> holds_bar covered g s"

lemma uncovered_firsts:
  "map fst (filter (\<lambda>(s, period). period \<notin> covered_periods covered g)
     (map (\<lambda>s. (s, period_start s g)) (filter Q ss))) = filter (\<lambda>s. Q s \<and> \<not> holds_bar covered g s) ss"
  by (induction ss) (auto simp: covered_periods_iff)

lemma missing_sessions_eq:
  assumes "inv c" and "start_at c \<le> start"
  shows "missing_sessions start until covered (proto c) now g =
    Inr (filter (missing_at c start until covered now g) (sess c))"
proof -
  obtain W ex where "judged start until (proto c) now g = Inr (filter (overlaps (opn c) (cls c) start W) (sess c), ex)"
    "in_range ex start until (proto c) g =
      Inr (map (\<lambda>s. (s, period_start s g)) (filter (expected_at c start until now g) (sess c)))"
    by (rule judged_block [OF assms])
  then show ?thesis by (simp add: missing_sessions_def Let_def uncovered_firsts)
qed

lemma missing_sessions_before:
  assumes "inv c" and "start < start_at c"
  shows "missing_sessions start until covered (proto c) now g = Inl CalendarRangeError"
  by (simp add: missing_sessions_def judged_def Let_def overlapping_before [OF assms])

end

section \<open>Runs of missing sessions\<close>

fun split_runs :: "('a \<Rightarrow> bool) \<Rightarrow> 'a list \<Rightarrow> 'a list \<Rightarrow> 'a list list" where
  "split_runs P [] run = (if run \<noteq> [] then [run] else [])"
| "split_runs P (s # ss) run =
     (if P s then split_runs P ss (run @ [s])
      else if run \<noteq> [] then run # split_runs P ss [] else split_runs P ss [])"

text \<open>\<open>r\<close> is a maximal block of members of \<open>P\<close> in \<open>ss\<close>.\<close>

definition maximal_run :: "('a \<Rightarrow> bool) \<Rightarrow> 'a list \<Rightarrow> 'a list \<Rightarrow> bool" where
  "maximal_run P ss r \<longleftrightarrow> r \<noteq> [] \<and> (\<forall>s \<in> set r. P s) \<and>
     (\<exists>before after. ss = before @ r @ after \<and> (before \<noteq> [] \<longrightarrow> \<not> P (last before)) \<and>
        (after \<noteq> [] \<longrightarrow> \<not> P (hd after)))"

lemma maximal_run_cong:
  assumes "maximal_run P ss r" and "\<And>s. s \<in> set ss \<Longrightarrow> P s = Q s"
  shows "maximal_run Q ss r"
proof -
  obtain b a where "r \<noteq> []" "\<forall>s \<in> set r. P s" and ss: "ss = b @ r @ a"
    and "b \<noteq> [] \<longrightarrow> \<not> P (last b)" "a \<noteq> [] \<longrightarrow> \<not> P (hd a)"
    using assms(1) by (auto simp: maximal_run_def)
  then have "r \<noteq> []" "\<forall>s \<in> set r. Q s" "b \<noteq> [] \<longrightarrow> \<not> Q (last b)" "a \<noteq> [] \<longrightarrow> \<not> Q (hd a)"
    using assms(2) by auto
  then show ?thesis using ss unfolding maximal_run_def by blast
qed

lemma maximal_run_extend:
  assumes "maximal_run P ss r" and "before \<noteq> [] \<Longrightarrow> \<not> P (last before)" and "after \<noteq> [] \<Longrightarrow> \<not> P (hd after)"
  shows "maximal_run P (before @ ss @ after) r"
proof -
  obtain b a where r: "r \<noteq> []" "\<forall>s \<in> set r. P s" and ss: "ss = b @ r @ a"
    and ends: "b \<noteq> [] \<longrightarrow> \<not> P (last b)" "a \<noteq> [] \<longrightarrow> \<not> P (hd a)"
    using assms(1) by (auto simp: maximal_run_def)
  have "before @ ss @ after = (before @ b) @ r @ (a @ after)" by (simp add: ss)
  moreover have "before @ b \<noteq> [] \<longrightarrow> \<not> P (last (before @ b))" using ends(1) assms(2) by (cases b) auto
  moreover have "a @ after \<noteq> [] \<longrightarrow> \<not> P (hd (a @ after))" using ends(2) assms(3) by (cases a) auto
  ultimately show ?thesis using r unfolding maximal_run_def by blast
qed

lemma concat_split_runs: "concat (split_runs P ss run) = run @ filter P ss"
  by (induction P ss run rule: split_runs.induct) auto

lemma split_runs_maximal:
  assumes "r \<in> set (split_runs P ss run)" and "\<forall>s \<in> set run. P s"
  shows "maximal_run P (run @ ss) r"
  using assms
proof (induction P ss run rule: split_runs.induct)
  case (1 P run)
  then have "r = run" "r \<noteq> []" by (auto split: if_splits)
  then show ?case using 1(2) by (auto simp: maximal_run_def intro!: exI [of _ "[]"])
next
  case (2 P s ss run)
  show ?case
  proof (cases "P s")
    case True
    then show ?thesis using 2 by simp
  next
    case no: False
    show ?thesis
    proof (cases "run \<noteq> [] \<and> r = run")
      case True
      then have "run @ s # ss = [] @ r @ (s # ss)" by simp
      then show ?thesis using True no 2(5) unfolding maximal_run_def by (metis hd_conv_nth list.sel(1))
    next
      case False
      then have "maximal_run P ss r" using 2 no by (auto split: if_splits)
      then have "maximal_run P ((run @ [s]) @ ss @ []) r"
        by (rule maximal_run_extend) (use 2(5) no in \<open>auto\<close>)
      then show ?thesis by simp
    qed
  qed
qed

lemma split_runs_cong: "(\<And>s. s \<in> set ss \<Longrightarrow> P s = Q s) \<Longrightarrow> split_runs P ss run = split_runs Q ss run"
  by (induction P ss run rule: split_runs.induct) auto

lemma gap_loop_runs: "gap_loop M ss run = map gap_of (split_runs (\<lambda>s. s \<in> M) ss run)"
  by (induction M ss run rule: gap_loop.induct) auto

text \<open>Sessions overlapping an interval are a block of the session list.\<close>

lemma ascending_block:
  assumes "ascending (xs :: 'a::linorder list)"
    and "\<And>x y. x \<in> set xs \<Longrightarrow> y \<in> set xs \<Longrightarrow> x < y \<Longrightarrow> A x \<Longrightarrow> A y"
    and "\<And>x y. x \<in> set xs \<Longrightarrow> y \<in> set xs \<Longrightarrow> x < y \<Longrightarrow> B y \<Longrightarrow> B x"
  obtains before after where "xs = before @ filter (\<lambda>x. A x \<and> B x) xs @ after"
    and "\<And>x. x \<in> set before \<union> set after \<Longrightarrow> \<not> (A x \<and> B x)"
proof -
  define late where "late = dropWhile (\<lambda>x. \<not> A x) xs"
  have xs: "xs = takeWhile (\<lambda>x. \<not> A x) xs @ late" by (simp add: late_def)
  have A: "A x" if "x \<in> set late" for x
  proof (cases late)
    case (Cons y ys)
    then have "A y" using hd_dropWhile [of "\<lambda>x. \<not> A x" xs] by (simp add: late_def)
    moreover have "sorted_wrt (<) late" using assms(1) by (simp add: late_def sorted_wrt_dropWhile)
    moreover have "set late \<subseteq> set xs" by (simp add: late_def set_dropWhileD subsetI)
    ultimately show ?thesis using that Cons assms(2) [of y x] by auto
  qed (use that in simp)
  have late_block: "filter B late = takeWhile B late"
  proof -
    have "sorted_wrt (<) late" using assms(1) by (simp add: late_def sorted_wrt_dropWhile)
    moreover have "set late \<subseteq> set xs" by (simp add: late_def set_dropWhileD subsetI)
    ultimately show ?thesis using assms(3)
    proof (induction late)
      case (Cons y ys)
      show ?case
      proof (cases "B y")
        case False
        then have "\<forall>z \<in> set ys. \<not> B z" using Cons.prems by (auto dest: Cons.prems(3))
        then show ?thesis using False by (simp add: filter_empty_conv)
      qed (use Cons in auto)
    qed simp
  qed
  have early: "\<not> A x" if "x \<in> set (takeWhile (\<lambda>x. \<not> A x) xs)" for x
    using that by (auto dest: set_takeWhileD)
  have "filter (\<lambda>x. A x \<and> B x) xs = filter B late"
    using early A by (subst xs, unfold filter_append) (auto simp: filter_empty_conv intro!: filter_cong)
  then have "xs = takeWhile (\<lambda>x. \<not> A x) xs @ filter (\<lambda>x. A x \<and> B x) xs @ dropWhile B late"
    using xs late_block by simp
  moreover have "\<not> (A x \<and> B x)" if "x \<in> set (dropWhile B late)" for x
  proof -
    have "distinct late" using ascending_distinct [OF assms(1)] by (simp add: late_def)
    then have "x \<notin> set (takeWhile B late)" using that
      by (metis IntI distinct_append empty_iff takeWhile_dropWhile_id)
    moreover have "x \<in> set late" using that by (rule set_dropWhileD)
    ultimately show ?thesis unfolding late_block [symmetric] by simp
  qed
  ultimately show thesis using that early by blast
qed

context trading_calendar
begin

lemma overlap_block:
  assumes "inv c"
  obtains before after where "sess c = before @ filter (overlaps (opn c) (cls c) start W) (sess c) @ after"
    and "\<And>s. s \<in> set before \<union> set after \<Longrightarrow> \<not> overlaps (opn c) (cls c) start W s"
proof -
  obtain before after where "sess c = before @ filter (\<lambda>s. start < cls c s \<and> opn c s < W) (sess c) @ after"
    "\<And>s. s \<in> set before \<union> set after \<Longrightarrow> \<not> (start < cls c s \<and> opn c s < W)"
  proof (rule ascending_block [OF sess_ascending [OF assms], of "\<lambda>s. start < cls c s" "\<lambda>s. opn c s < W"])
    fix x y assume xy: "x \<in> set (sess c)" "y \<in> set (sess c)" "x < y"
    show "start < cls c x \<Longrightarrow> start < cls c y" using close_less [OF assms xy] by simp
    show "opn c y < W \<Longrightarrow> opn c x < W"
      using sessions_disjoint [OF assms xy] open_less_close [OF assms xy(1)] by simp
  qed blast
  then show thesis using that by (simp add: overlaps_def [abs_def] conj_commute)
qed

lemma gap_intervals_runs:
  assumes c: "inv c" and start: "start_at c \<le> start"
  obtains runs where "gap_intervals_at start until covered (proto c) now g = Inr (map gap_of runs)"
    and "concat runs = filter (missing_at c start until covered now g) (sess c)"
    and "\<And>r. r \<in> set runs \<Longrightarrow> maximal_run (missing_at c start until covered now g) (sess c) r"
proof -
  obtain W ex where j: "judged start until (proto c) now g = Inr (filter (overlaps (opn c) (cls c) start W) (sess c), ex)"
    "in_range ex start until (proto c) g =
      Inr (map (\<lambda>s. (s, period_start s g)) (filter (expected_at c start until now g) (sess c)))"
    and sub: "\<And>s. s \<in> set (sess c) \<Longrightarrow> expected_at c start until now g s \<Longrightarrow> overlaps (opn c) (cls c) start W s"
    by (rule judged_block [OF assms]) blast
  obtain before after where ss: "sess c = before @ filter (overlaps (opn c) (cls c) start W) (sess c) @ after"
    and out: "\<And>s. s \<in> set before \<union> set after \<Longrightarrow> \<not> overlaps (opn c) (cls c) start W s"
    by (rule overlap_block [OF c, of start W]) blast
  let ?w = "filter (overlaps (opn c) (cls c) start W) (sess c)"
  let ?m = "missing_at c start until covered now g"
  let ?M = "fst ` set (filter (\<lambda>(s, period). period \<notin> covered_periods covered g)
      (map (\<lambda>s. (s, period_start s g)) (filter (expected_at c start until now g) (sess c))))"
  have M: "s \<in> ?M \<longleftrightarrow> s \<in> set (sess c) \<and> ?m s" for s
    by (force simp: covered_periods_iff)
  have eq: "split_runs (\<lambda>s. s \<in> ?M) ?w [] = split_runs ?m ?w []"
  proof (rule split_runs_cong)
    fix s assume "s \<in> set ?w"
    then show "(s \<in> ?M) = ?m s" using M by auto
  qed
  show thesis
  proof (rule that)
    show "gap_intervals_at start until covered (proto c) now g = Inr (map gap_of (split_runs ?m ?w []))"
      using j eq by (simp add: gap_intervals_at_def gap_loop_runs Let_def)
    show "concat (split_runs ?m ?w []) = filter ?m (sess c)"
      using sub by (auto simp: concat_split_runs intro!: filter_cong)
    fix r assume "r \<in> set (split_runs ?m ?w [])"
    then have "maximal_run ?m ([] @ ?w) r" by (rule split_runs_maximal) simp
    moreover have "\<not> ?m s" if "s \<in> set before \<union> set after" for s
      using out [OF that] sub ss that by (metis Un_iff set_append)
    ultimately have "maximal_run ?m (before @ ?w @ after) r"
      by (intro maximal_run_extend) auto
    then show "maximal_run ?m (sess c) r" using ss by simp
  qed
qed

end

section \<open>Near-equal groups\<close>

text \<open>The first index of group \<open>i\<close>: every group has \<open>per\<close> members, the first \<open>extra\<close> one more.\<close>

definition cut_at :: "nat \<Rightarrow> nat \<Rightarrow> nat \<Rightarrow> nat" where
  "cut_at per extra i = i * per + min i extra"

lemma cut_at_0 [simp]: "cut_at per extra 0 = 0"
  by (simp add: cut_at_def)

lemma cut_at_Suc: "cut_at per extra (Suc i) = cut_at per extra i + per + (if i < extra then 1 else 0)"
  by (simp add: cut_at_def)

lemma cut_at_mono: "i \<le> j \<Longrightarrow> cut_at per extra i \<le> cut_at per extra j"
  by (simp add: cut_at_def add_mono mult_right_mono min_def)

lemma cut_at_less: "0 < per \<Longrightarrow> cut_at per extra i < cut_at per extra (Suc i)"
  by (simp add: cut_at_Suc)

lemma cut_at_groups: "0 < groups \<Longrightarrow> cut_at (n div groups) (n mod groups) groups = n"
  by (simp add: cut_at_def min_absorb2 less_imp_le)

lemma group_sizes_near:
  "\<bar>int (cut_at per extra (Suc i) - cut_at per extra i) - int (cut_at per extra (Suc j) - cut_at per extra j)\<bar> \<le> 1"
  by (simp add: cut_at_Suc)

definition slice :: "nat \<Rightarrow> nat \<Rightarrow> 'a list \<Rightarrow> 'a list" where
  "slice a b xs = take (b - a) (drop a xs)"

lemma take_slice: "a \<le> b \<Longrightarrow> take a xs @ slice a b xs = take b xs"
  unfolding slice_def by (metis le_add_diff_inverse take_add)

lemma slice_members: "x \<in> set (slice a b xs) \<Longrightarrow> x \<in> set xs"
  unfolding slice_def by (auto dest: in_set_takeD in_set_dropD)

lemma hd_slice: "a < b \<Longrightarrow> a < length xs \<Longrightarrow> hd (slice a b xs) = xs ! a"
  by (simp add: slice_def hd_take hd_drop_conv_nth)

lemma sum_slices:
  assumes "\<And>i. bnd i \<le> bnd (Suc i)" and "bnd 0 = 0"
  shows "sum_list (map (\<lambda>i. length (filter P (slice (bnd i) (bnd (Suc i)) xs))) [0..<n])
       = length (filter P (take (bnd n) xs))"
proof (induction n)
  case (Suc n)
  have "filter P (take (bnd (Suc n)) xs) = filter P (take (bnd n) xs) @ filter P (slice (bnd n) (bnd (Suc n)) xs)"
    using take_slice [OF assms(1), of n xs] by (metis filter_append)
  then show ?case using Suc by simp
qed (simp add: assms(2))

definition bucket_at ::
  "instant \<Rightarrow> instant \<Rightarrow> tcal \<Rightarrow> (day \<times> day) list \<Rightarrow> day set \<Rightarrow> day list \<Rightarrow> nat \<Rightarrow> (nat \<Rightarrow> nat) \<Rightarrow> nat \<Rightarrow>
   coverage_bucket" where
  "bucket_at start until calendar judged_ss held ss groups bnd i =
     \<lparr>cb_start = (if i = 0 then start else local_midnight (ss ! bnd i) calendar),
      cb_end = (if i = groups - 1 then until else local_midnight (ss ! bnd (Suc i)) calendar),
      expected_sessions = length (filter (\<lambda>s. map_of judged_ss s \<noteq> None) (slice (bnd i) (bnd (Suc i)) ss)),
      sessions_with_bars = length (filter (\<lambda>s. map_of judged_ss s \<noteq> None \<and> the (map_of judged_ss s) \<in> held)
        (slice (bnd i) (bnd (Suc i)) ss))\<rparr>"

lemma bucket_loop_eq:
  assumes "0 < per" and "cut_at per extra groups = length ss" and "k \<le> groups"
  shows "bucket_loop start until calendar judged_ss held ss groups per extra [k..<groups] (cut_at per extra k)
    = map (bucket_at start until calendar judged_ss held ss groups (cut_at per extra)) [k..<groups]"
  using assms(3)
proof (induction "groups - k" arbitrary: k)
  case (Suc n)
  then have k: "k < groups" by simp
  have "cut_at per extra k < length ss"
    using cut_at_less [OF assms(1), of extra k] cut_at_mono [of "Suc k" groups per extra] k assms(2) by simp
  then have hd: "hd (slice (cut_at per extra k) (cut_at per extra (Suc k)) ss) = ss ! cut_at per extra k"
    using cut_at_less [OF assms(1)] by (intro hd_slice)
  have last: "cut_at per extra k + per + (if k < extra then 1 else 0) = cut_at per extra (Suc k)"
    by (simp add: cut_at_Suc)
  have "bucket_loop start until calendar judged_ss held ss groups per extra [Suc k..<groups] (cut_at per extra (Suc k))
    = map (bucket_at start until calendar judged_ss held ss groups (cut_at per extra)) [Suc k..<groups]"
    using Suc(2) k by (intro Suc(1)) auto
  then show ?case
    using hd by (simp add: upt_conv_Cons [OF k] Let_def last bucket_at_def slice_def [symmetric]
      filter_filter conj_commute)
qed simp

context trading_calendar
begin

lemma coverage_buckets_eq:
  assumes c: "inv c" and start: "start_at c \<le> start" and n: "0 < n"
    and ss: "ss = filter (overlaps (opn c) (cls c) start until) (sess c)" "ss \<noteq> []"
    and groups: "groups = min n (length ss)"
  obtains ex where
    "coverage_buckets_at start until covered (proto c) now n g =
      Inr (map (bucket_at start until (proto c) ex (covered_periods covered g) ss groups
                  (cut_at (length ss div groups) (length ss mod groups))) [0..<groups])"
    and "\<And>s. s \<in> set ss \<Longrightarrow>
      map_of ex s = (if expected_at c start until now g s then Some (period_start s g) else None)"
proof -
  obtain W ex where j: "judged start until (proto c) now g = Inr (filter (overlaps (opn c) (cls c) start W) (sess c), ex)"
    and ex: "\<And>s. s \<in> set (sess c) \<Longrightarrow> overlaps (opn c) (cls c) start until s \<Longrightarrow>
      map_of ex s = (if expected_at c start until now g s then Some (period_start s g) else None)"
    and W: "g \<notin> PERIODIC \<Longrightarrow> W = until"
    by (rule judged_block [OF assms(1,2), of until now g]) blast
  have len: "0 < length ss" "0 < groups" "groups \<le> length ss" using ss(2) n groups by auto
  then have per: "0 < length ss div groups" by (simp add: div_greater_zero_iff)
  have so: "sessions_overlapping (proto c) start until = Inr ss"
    by (simp add: overlapping_eq [OF c start] ss(1) overlaps_def [abs_def])
  have "coverage_buckets_at start until covered (proto c) now n g =
      Inr (bucket_loop start until (proto c) ex (covered_periods covered g) ss groups
        (length ss div groups) (length ss mod groups) [0..<groups] 0)"
    using j so ss W by (auto simp: coverage_buckets_at_def Let_def groups)
  also have "\<dots> = Inr (map (bucket_at start until (proto c) ex (covered_periods covered g) ss groups
      (cut_at (length ss div groups) (length ss mod groups))) [0..<groups])"
    using bucket_loop_eq [OF per cut_at_groups [OF len(2)], of 0] by simp
  finally show thesis using ex by (rule that) (simp_all add: ss(1))
qed

lemma slice_counts:
  assumes ex: "\<And>s. s \<in> set ss \<Longrightarrow>
      map_of ex s = (if expected_at c start until now g s then Some (period_start s g) else None)"
  shows "length (filter (\<lambda>s. map_of ex s \<noteq> None) (slice a b ss)) =
      length (filter (expected_at c start until now g) (slice a b ss))"
    and "length (filter (\<lambda>s. map_of ex s \<noteq> None \<and> the (map_of ex s) \<in> covered_periods covered g) (slice a b ss)) =
      length (filter (\<lambda>s. expected_at c start until now g s \<and> holds_bar covered g s) (slice a b ss))"
proof -
  have e: "map_of ex s = (if expected_at c start until now g s then Some (period_start s g) else None)"
    if "s \<in> set (slice a b ss)" for s
    using ex that by (blast dest: slice_members)
  show "length (filter (\<lambda>s. map_of ex s \<noteq> None) (slice a b ss)) =
      length (filter (expected_at c start until now g) (slice a b ss))"
    by (simp add: e cong: filter_cong)
  show "length (filter (\<lambda>s. map_of ex s \<noteq> None \<and> the (map_of ex s) \<in> covered_periods covered g) (slice a b ss)) =
      length (filter (\<lambda>s. expected_at c start until now g s \<and> holds_bar covered g s) (slice a b ss))"
    by (intro arg_cong [where f = length] filter_cong) (auto simp: e covered_periods_iff split: if_splits)
qed

text \<open>The buckets tile the range, and their counts add up to the expected and the missing sessions.\<close>

lemma coverage_totals:
  assumes c: "inv c" and start: "start_at c \<le> start" and n: "0 < n"
    and ss: "ss = filter (overlaps (opn c) (cls c) start until) (sess c)" "ss \<noteq> []"
  obtains bs where "coverage_buckets_at start until covered (proto c) now n g = Inr bs"
    and "length bs = min n (length ss)"
    and "sum_list (map expected_sessions bs) = length (filter (expected_at c start until now g) (sess c))"
    and "sum_list (map sessions_with_bars bs) + length (filter (missing_at c start until covered now g) (sess c))
       = sum_list (map expected_sessions bs)"
proof -
  let ?k = "min n (length ss)"
  let ?cut = "cut_at (length ss div ?k) (length ss mod ?k)"
  obtain ex where eq: "coverage_buckets_at start until covered (proto c) now n g =
      Inr (map (bucket_at start until (proto c) ex (covered_periods covered g) ss ?k ?cut) [0..<?k])"
    and ex: "\<And>s. s \<in> set ss \<Longrightarrow>
      map_of ex s = (if expected_at c start until now g s then Some (period_start s g) else None)"
    by (rule coverage_buckets_eq [OF c start n ss refl, of covered now g]) (rule that; assumption)
  let ?bs = "map (bucket_at start until (proto c) ex (covered_periods covered g) ss ?k ?cut) [0..<?k]"
  have k: "0 < ?k" using n ss(2) by simp
  have mono: "?cut i \<le> ?cut (Suc i)" for i by (rule cut_at_mono) simp
  have sum: "sum_list (map (\<lambda>i. length (filter P (slice (?cut i) (?cut (Suc i)) ss))) [0..<?k]) = length (filter P ss)"
    for P using sum_slices [of ?cut P ss ?k] mono cut_at_groups [OF k, of "length ss"] by simp
  have in_ss: "filter P ss = filter P (sess c)" if "\<And>s. P s \<Longrightarrow> expected_at c start until now g s" for P
    using that unfolding ss(1) filter_filter by (intro filter_cong) (auto simp: is_expected_def)
  have counts: "expected_sessions (bucket_at start until (proto c) ex (covered_periods covered g) ss ?k ?cut i) =
        length (filter (expected_at c start until now g) (slice (?cut i) (?cut (Suc i)) ss))"
      "sessions_with_bars (bucket_at start until (proto c) ex (covered_periods covered g) ss ?k ?cut i) =
        length (filter (\<lambda>s. expected_at c start until now g s \<and> holds_bar covered g s)
          (slice (?cut i) (?cut (Suc i)) ss))" for i
    by (simp_all only: bucket_at_def coverage_bucket.simps slice_counts [OF ex])
  have "sum_list (map expected_sessions ?bs) = length (filter (expected_at c start until now g) (sess c))"
    by (simp add: o_def counts sum in_ss)
  moreover have "sum_list (map sessions_with_bars ?bs) =
      length (filter (\<lambda>s. expected_at c start until now g s \<and> holds_bar covered g s) (sess c))"
    using in_ss [of "\<lambda>s. expected_at c start until now g s \<and> holds_bar covered g s"]
    by (simp add: o_def counts sum)
  moreover have "length (filter (\<lambda>s. Q s \<and> R s) xs) + length (filter (\<lambda>s. Q s \<and> \<not> R s) xs) = length (filter Q xs)"
    for Q R and xs :: "day list" by (induction xs) auto
  ultimately show thesis using eq k by (intro that [of ?bs]) simp_all
qed

lemma bucket_tiles:
  assumes c: "inv c" and lt: "start < until"
    and ss: "ss = filter (overlaps (opn c) (cls c) start until) (sess c)"
    and per: "0 < per" and all: "cut_at per extra groups = length ss" and i: "i < groups"
  shows "cb_start (bucket_at start until (proto c) ex held ss groups (cut_at per extra) i) <
    cb_end (bucket_at start until (proto c) ex held ss groups (cut_at per extra) i)"
proof -
  let ?cut = "cut_at per extra"
  have ix: "?cut i < ?cut (Suc i)" "?cut (Suc i) \<le> length ss"
    using cut_at_less [OF per, of extra i] cut_at_mono [of "Suc i" groups per extra] i all by simp_all
  then have mem: "ss ! ?cut i \<in> set ss" by simp
  then have s: "ss ! ?cut i \<in> set (sess c)" "opn c (ss ! ?cut i) < until" "start < cls c (ss ! ?cut i)"
    by (auto simp: ss overlaps_def)
  have asc: "ascending ss" using sess_ascending [OF c] ss by auto
  have next_: "cls c (ss ! ?cut i) < local_midnight (ss ! ?cut (Suc i)) (proto c)" if "i < groups - 1"
  proof -
    have "?cut (Suc i) < length ss"
      using that cut_at_less [OF per, of extra "Suc i"] cut_at_mono [of "Suc (Suc i)" groups per extra] all by linarith
    then have "ss ! ?cut i < ss ! ?cut (Suc i)" using asc ix by (simp add: sorted_wrt_nth_less)
    from close_less_midnight [OF c s(1) this] show ?thesis by (simp add: local_midnight_def)
  qed
  have before: "local_midnight (ss ! ?cut i) (proto c) \<le> opn c (ss ! ?cut i)"
    using midnight_le_open [OF c s(1)] by (simp add: local_midnight_def)
  have "opn c (ss ! ?cut i) < cls c (ss ! ?cut i)" by (rule open_less_close [OF c s(1)])
  then show ?thesis
    using next_ before s lt i by (cases "i < groups - 1") (auto simp: bucket_at_def)
qed

lemma coverage_tiling:
  assumes c: "inv c" and start: "start_at c \<le> start" and n: "0 < n" and lt: "start < until"
    and ss: "ss = filter (overlaps (opn c) (cls c) start until) (sess c)" "ss \<noteq> []"
    and bs: "coverage_buckets_at start until covered (proto c) now n g = Inr bs"
  shows "cb_start (hd bs) = start \<and> cb_end (last bs) = until"
    and "\<And>i. Suc i < length bs \<Longrightarrow> cb_end (bs ! i) = cb_start (bs ! Suc i)"
    and "\<And>b. b \<in> set bs \<Longrightarrow> cb_start b < cb_end b"
proof -
  let ?k = "min n (length ss)"
  let ?per = "length ss div ?k" and ?extra = "length ss mod ?k"
  have k: "0 < ?k" "?k \<le> length ss" using n ss(2) by auto
  then have per: "0 < ?per" by (simp only: div_greater_zero_iff)
  obtain ex where eq: "bs = map (bucket_at start until (proto c) ex (covered_periods covered g) ss ?k
      (cut_at ?per ?extra)) [0..<?k]"
    using coverage_buckets_eq [OF c start n ss refl, of covered now g] bs by (metis sum.inject(2))
  show "cb_start (hd bs) = start \<and> cb_end (last bs) = until"
    using k by (simp add: eq hd_map last_map bucket_at_def del: upt_Suc)
  show "cb_end (bs ! i) = cb_start (bs ! Suc i)" if "Suc i < length bs" for i
  proof -
    have "i \<noteq> ?k - 1" using that by (simp add: eq del: min_less_iff_conj)
    then show ?thesis using that by (simp add: eq bucket_at_def)
  qed
  show "cb_start b < cb_end b" if "b \<in> set bs" for b
    using that bucket_tiles [OF c lt ss(1) per cut_at_groups [OF k(1)]] by (auto simp: eq)
qed

end

section \<open>Properties\<close>

abbreviation missing_of :: "adapter \<Rightarrow> instant \<Rightarrow> instant \<Rightarrow> day set \<Rightarrow> instant \<Rightarrow> granularity \<Rightarrow> day list" where
  "missing_of A start until covered now g \<equiv>
     filter (\<lambda>s. is_expected (ad_tz A) (ad_sessions A) (ad_open_at A) (ad_close_at A) start until now g s \<and>
       \<not> holds_bar covered g s) (ad_sessions A)"

lemmas adapter_missing = cal.missing_sessions_eq [unfolded tz_adapter_calendar]
lemmas adapter_gaps = cal.gap_intervals_runs [unfolded tz_adapter_calendar]
lemmas adapter_buckets = cal.coverage_totals [unfolded tz_adapter_calendar]

lemma require_aware_Aware [simp]: "require_aware [Some (Aware a), Some (Aware b), Some (Aware c)] = Inr ()"
  by (simp add: require_aware_def)

lemma missing_of_sample:
  "missing_of sample_adapter (day_at 739439 0 0) (day_at 739444 0 0) {739440, 739442} (day_at 739443 12 0) ONE_DAY
     = [739439, 739441]"
  by (simp add: sample_adapter_def Let_def table_xcal_def sample_rows_def is_expected_def overlaps_def PERIODIC_def
      holds_bar_def ad_open_at_def ad_close_at_def day_at_def)

lemma ad_start_at_sample: "ad_start_at sample_adapter \<le> day_at 739439 0 0"
  by (simp add: ad_start_at_def sample_adapter_def Let_def table_xcal_def CALENDAR_START_def
      new_york_summer_def fixed_zone_def day_at_def)

text \<open>C7. A dataset is assessed COMPLETE exactly when no session is missing, and otherwise GAPS with
  the number of missing sessions: those that overlap the range, whose period is due by \<open>now\<close>
  (the session closed for 1min to 1day; for 1week and 1month the period starting inside the range
  and all of its sessions closed) and in whose period no bar is stored.\<close>

theorem completeness_counts_missing:
  assumes "adapter_ok A" and "ad_start_at A \<le> start"
  shows "assess_completeness start until covered g (adapter_calendar A) now =
    (let missing = missing_of A start until covered now g in
     if missing = [] then Inr \<lparr>cr_status = COMPLETE, cr_gap_count = 0\<rparr>
     else Inr \<lparr>cr_status = GAPS, cr_gap_count = length missing\<rparr>)"
  using adapter_missing [OF assms] by (simp add: assess_completeness_def Let_def)

theorem completeness_counts_missing_witness:
  "assess_completeness (day_at 739439 0 0) (day_at 739444 0 0) {739440, 739442} ONE_DAY
     (adapter_calendar sample_adapter) (day_at 739443 12 0)
   = Inr \<lparr>cr_status = GAPS, cr_gap_count = 2\<rparr>"
  unfolding completeness_counts_missing [OF sample_adapter_ok ad_start_at_sample] missing_of_sample
  by (simp add: Let_def)

text \<open>The gap windows are exactly the maximal runs of missing sessions in the calendar's session
  sequence, in order: run after run they list the missing sessions, each window reports its run's
  first and last session and length, and no run can be extended on either side.\<close>

theorem gap_windows_are_maximal_runs:
  assumes "adapter_ok A" and "ad_start_at A \<le> start"
  shows "\<exists>runs. gap_intervals (Aware start) (Aware until) covered (adapter_calendar A) (Aware now) g
      = Inr (map gap_of runs)
    \<and> concat runs = missing_of A start until covered now g
    \<and> list_all (maximal_run (\<lambda>s. s \<in> set (missing_of A start until covered now g)) (ad_sessions A)) runs"
proof -
  let ?m = "\<lambda>s. is_expected (ad_tz A) (ad_sessions A) (ad_open_at A) (ad_close_at A) start until now g s \<and>
       \<not> holds_bar covered g s"
  obtain runs where "gap_intervals_at start until covered (adapter_calendar A) now g = Inr (map gap_of runs)"
    "concat runs = missing_of A start until covered now g"
    "\<And>r. r \<in> set runs \<Longrightarrow> maximal_run ?m (ad_sessions A) r"
    by (rule adapter_gaps [OF assms]) blast
  moreover have "maximal_run (\<lambda>s. s \<in> set (missing_of A start until covered now g)) (ad_sessions A) r"
    if "maximal_run ?m (ad_sessions A) r" for r
    using that by (rule maximal_run_cong) simp
  ultimately show ?thesis by (auto simp: gap_intervals_def list_all_iff)
qed

theorem gap_windows_are_maximal_runs_witness:
  "\<exists>runs. gap_intervals (Aware (day_at 739439 0 0)) (Aware (day_at 739444 0 0)) {739440, 739442}
      (adapter_calendar sample_adapter) (Aware (day_at 739443 12 0)) ONE_DAY = Inr (map gap_of runs)
    \<and> concat runs = [739439, 739441]"
  using gap_windows_are_maximal_runs [OF sample_adapter_ok ad_start_at_sample,
      of "day_at 739444 0 0" "{739440, 739442}" "day_at 739443 12 0" ONE_DAY]
  unfolding missing_of_sample by blast

text \<open>The coverage strip of a non-empty range with at least one overlapping session has
  \<open>min buckets sessions\<close> buckets; they tile \<open>[start, until)\<close> without hole or overlap, each a
  non-empty interval, and over all of them the expected sessions without a bar are exactly the
  missing sessions that \<open>assess_completeness\<close> counts.\<close>

theorem coverage_strip_tiles:
  assumes A: "adapter_ok A" "ad_start_at A \<le> start" and b: "1 \<le> buckets" and lt: "start < until"
    and ss: "ss = filter (overlaps (ad_open_at A) (ad_close_at A) start until) (ad_sessions A)" "ss \<noteq> []"
  shows "\<exists>bs. coverage_buckets (Aware start) (Aware until) covered (adapter_calendar A) (Aware now) buckets g = Inr bs
    \<and> length bs = min (nat buckets) (length ss)
    \<and> cb_start (hd bs) = start \<and> cb_end (last bs) = until
    \<and> (\<forall>i. Suc i < length bs \<longrightarrow> cb_end (bs ! i) = cb_start (bs ! Suc i))
    \<and> list_all (\<lambda>b. cb_start b < cb_end b) bs
    \<and> sum_list (map expected_sessions bs) - sum_list (map sessions_with_bars bs)
      = length (missing_of A start until covered now g)"
proof -
  have n: "0 < nat buckets" using b by simp
  obtain bs where bs: "coverage_buckets_at start until covered (adapter_calendar A) now (nat buckets) g = Inr bs"
    and len: "length bs = min (nat buckets) (length ss)"
    and sum: "sum_list (map sessions_with_bars bs) + length (missing_of A start until covered now g)
       = sum_list (map expected_sessions bs)"
    by (rule adapter_buckets [OF A n ss, of covered now g]) blast
  note tile = cal.coverage_tiling [OF A n lt ss bs]
  have "coverage_buckets (Aware start) (Aware until) covered (adapter_calendar A) (Aware now) buckets g = Inr bs"
    using b bs by (simp add: coverage_buckets_def)
  moreover have "sum_list (map expected_sessions bs) - sum_list (map sessions_with_bars bs)
      = length (missing_of A start until covered now g)"
    using sum by linarith
  ultimately show ?thesis using len tile unfolding list_all_iff by blast
qed

theorem coverage_strip_tiles_witness:
  "\<exists>bs. coverage_buckets (Aware (day_at 739439 0 0)) (Aware (day_at 739444 0 0)) {739440, 739442}
      (adapter_calendar sample_adapter) (Aware (day_at 739443 12 0)) 2 ONE_DAY = Inr bs \<and> length bs = 2
    \<and> sum_list (map expected_sessions bs) - sum_list (map sessions_with_bars bs) = 2"
proof -
  have ss: "filter (overlaps (ad_open_at sample_adapter) (ad_close_at sample_adapter)
      (day_at 739439 0 0) (day_at 739444 0 0)) (ad_sessions sample_adapter) = [739439, 739440, 739441, 739442, 739443]"
    by (simp add: sample_adapter_def Let_def table_xcal_def sample_rows_def overlaps_def [abs_def]
        ad_open_at_def ad_close_at_def day_at_def)
  have "day_at 739439 0 0 < day_at 739444 0 0" by (simp add: day_at_def)
  from coverage_strip_tiles [OF sample_adapter_ok ad_start_at_sample, of 2 "day_at 739444 0 0"
      "[739439, 739440, 739441, 739442, 739443]" "{739440, 739442}" "day_at 739443 12 0" ONE_DAY, OF _ this ss [symmetric]]
  show ?thesis unfolding missing_of_sample by (auto simp: numeral_2_eq_2)
qed

text \<open>Refusals, in order: the gap windows and the strip refuse a naive datetime before anything
  else; the strip then refuses fewer than one bucket; and a range that starts before the
  calendar's first day is a range error, never a silently empty answer.\<close>

theorem completeness_refusals:
  assumes "adapter_ok A"
  shows "gap_intervals start until covered (adapter_calendar A) now g =
      (if \<not> (is_aware start \<and> is_aware until \<and> is_aware now) then Inl NaiveDatetimeError
       else if instant_of start < ad_start_at A then Inl CalendarRangeError
       else gap_intervals_at (instant_of start) (instant_of until) covered (adapter_calendar A) (instant_of now) g)
    \<and> coverage_buckets start until covered (adapter_calendar A) now buckets g =
      (if \<not> (is_aware start \<and> is_aware until \<and> is_aware now) then Inl (CoverageCalendar NaiveDatetimeError)
       else if buckets < 1 then Inl (BadBuckets buckets)
       else if instant_of start < ad_start_at A then Inl (CoverageCalendar CalendarRangeError)
       else lift_calendar (coverage_buckets_at (instant_of start) (instant_of until) covered
         (adapter_calendar A) (instant_of now) (nat buckets) g))"
  using cal.overlapping_before [OF assms, of "instant_of start"]
  by (auto simp: gap_intervals_def gap_intervals_at_def coverage_buckets_def coverage_buckets_at_def
      require_aware_def judged_def Let_def)

theorem completeness_refusals_witness:
  "gap_intervals (Naive 0) (Aware 1) {} (adapter_calendar sample_adapter) (Aware 2) ONE_DAY = Inl NaiveDatetimeError
   \<and> coverage_buckets (Aware 0) (Aware 1) {} (adapter_calendar sample_adapter) (Aware 2) 0 ONE_WEEK
     = Inl (BadBuckets 0)"
  using completeness_refusals [OF sample_adapter_ok, where start = "Naive 0" and until = "Aware 1" and now = "Aware 2"
      and covered = "{}" and g = ONE_DAY and buckets = 0]
    completeness_refusals [OF sample_adapter_ok, where start = "Aware 0" and until = "Aware 1" and now = "Aware 2"
      and covered = "{}" and g = ONE_WEEK and buckets = 0]
  by simp

end
