(* ===== verification/Health.thy ===== *)
theory Health
  imports Completeness
begin

text \<open>
  \<open>server/data/store/app/health.py\<close>: the health of a dataset at an instant. The environment is a
  map from names to texts; the calendar and \<open>now\<close> are arguments, as in the code. A raised
  \<open>ValueError\<close> of the configuration is \<open>None\<close>.
\<close>

section \<open>Configuration\<close>

abbreviation STREAM_BAR_MULTIPLE_ENV :: string where
  "STREAM_BAR_MULTIPLE_ENV \<equiv> ''FRESHNESS_STREAM_BAR_MULTIPLE''"
abbreviation SETTLE_ENV :: string where "SETTLE_ENV \<equiv> ''DAILY_REFRESH_SETTLE_MINUTES''"

definition DEFAULT_STREAM_BAR_MULTIPLE :: int where "DEFAULT_STREAM_BAR_MULTIPLE = 3"
definition DEFAULT_SETTLE_MARGIN :: timedelta where "DEFAULT_SETTLE_MARGIN = 30 * minute"

definition settle_margin_from_env :: "(string \<rightharpoonup> string) \<Rightarrow> timedelta" where
  "settle_margin_from_env env =
     (case env SETTLE_ENV of
        None \<Rightarrow> DEFAULT_SETTLE_MARGIN
      | Some raw \<Rightarrow>
          (case py_int raw of
             None \<Rightarrow> DEFAULT_SETTLE_MARGIN
           | Some minutes \<Rightarrow> if minutes \<ge> 0 then minutes * minute else DEFAULT_SETTLE_MARGIN))"

record freshness_config =
  stream_bar_multiple :: int
  settle_margin :: timedelta

definition mk_freshness_config :: "int \<Rightarrow> timedelta \<Rightarrow> freshness_config option" where
  "mk_freshness_config multiple margin =
     (if multiple < 1 then None
      else if margin < 0 then None
      else Some \<lparr>stream_bar_multiple = multiple, settle_margin = margin\<rparr>)"

definition default_config :: freshness_config where
  "default_config = \<lparr>stream_bar_multiple = DEFAULT_STREAM_BAR_MULTIPLE, settle_margin = DEFAULT_SETTLE_MARGIN\<rparr>"

definition freshness_config_from_env :: "(string \<rightharpoonup> string) \<Rightarrow> freshness_config option" where
  "freshness_config_from_env env =
     (case env STREAM_BAR_MULTIPLE_ENV of
        None \<Rightarrow> mk_freshness_config DEFAULT_STREAM_BAR_MULTIPLE (settle_margin_from_env env)
      | Some raw \<Rightarrow>
          (case py_int raw of
             None \<Rightarrow> None
           | Some multiple \<Rightarrow> mk_freshness_config multiple (settle_margin_from_env env)))"

lemma default_config_built:
  "mk_freshness_config DEFAULT_STREAM_BAR_MULTIPLE DEFAULT_SETTLE_MARGIN = Some default_config"
  by (simp add: mk_freshness_config_def default_config_def DEFAULT_STREAM_BAR_MULTIPLE_def DEFAULT_SETTLE_MARGIN_def)

lemma settle_margin_nonneg: "0 \<le> settle_margin_from_env env"
  by (auto simp: settle_margin_from_env_def DEFAULT_SETTLE_MARGIN_def split: option.splits)

section \<open>Verdicts\<close>

datatype freshness_status = FRESH | LATE | OVERDUE | F_COMPLETE | F_GAPS | RETIRED

definition FAILURES :: "freshness_status set" where
  "FAILURES = {OVERDUE, F_GAPS}"

fun from_completeness :: "completeness_status \<Rightarrow> freshness_status" where
  "from_completeness COMPLETE = F_COMPLETE"
| "from_completeness GAPS = F_GAPS"

record dataset_health =
  h_status :: freshness_status
  expected_last_session :: "day option"
  expected_last_bar :: "instant option"
  h_gap_count :: nat

definition is_failure :: "dataset_health \<Rightarrow> bool" where
  "is_failure h \<longleftrightarrow> h_status h \<in> FAILURES"

definition verdict :: "freshness_status \<Rightarrow> day option \<Rightarrow> instant option \<Rightarrow> dataset_health" where
  "verdict s d b = \<lparr>h_status = s, expected_last_session = d, expected_last_bar = b, h_gap_count = 0\<rparr>"

section \<open>Final and provisional bars\<close>

definition bar_period_close :: "stamp \<Rightarrow> tcal \<Rightarrow> granularity \<Rightarrow> cal_error + instant option" where
  "bar_period_close bar calendar g =
     bind_r (require_aware [Some bar]) (\<lambda>_.
       let period = period_start (session_of (instant_of bar) calendar) g
       in bind_r (sessions_overlapping calendar (local_midnight period calendar)
                    (local_midnight (next_period_start period g) calendar)) (\<lambda>ss.
            if ss \<noteq> [] then bind_r (session_close calendar (last ss)) (\<lambda>c. Inr (Some c)) else Inr None))"

definition last_bar_is_provisional ::
  "stamp option \<Rightarrow> stamp option \<Rightarrow> tcal \<Rightarrow> granularity \<Rightarrow> timedelta \<Rightarrow> cal_error + bool" where
  "last_bar_is_provisional last_bar written_at calendar g margin =
     (case (last_bar, written_at) of
        (Some bar, Some written) \<Rightarrow>
          bind_r (require_aware [Some written]) (\<lambda>_.
          bind_r (bar_period_close bar calendar g) (\<lambda>closes.
            Inr (case closes of None \<Rightarrow> False | Some c \<Rightarrow> instant_of written < c + margin)))
      | _ \<Rightarrow> Inr False)"

section \<open>The three rules\<close>

definition daily_deadline :: "day \<Rightarrow> tcal \<Rightarrow> granularity \<Rightarrow> cal_error + instant" where
  "daily_deadline missed calendar g =
     bind_r (next_session calendar (next_period_start missed g - 1)) (session_open calendar)"

definition daily ::
  "instant \<Rightarrow> instant \<Rightarrow> stamp option \<Rightarrow> tcal \<Rightarrow> instant \<Rightarrow> granularity \<Rightarrow> stamp option \<Rightarrow> timedelta \<Rightarrow>
   cal_error + dataset_health" where
  "daily start until last_bar calendar now g written_at margin =
     bind_r (judged start (min until now) calendar now g) (\<lambda>(_, owed_sessions).
       if owed_sessions = [] then Inr (verdict FRESH None None)
       else
         let owed = from_keys (map snd owed_sessions);
             expected = last owed;
             expected_bar = local_midnight expected calendar;
             last_period = map_option (\<lambda>b. period_start (session_of (instant_of b) calendar) g) last_bar
         in bind_r (if last_period = Some expected
                    then last_bar_is_provisional last_bar written_at calendar g margin
                    else Inr False) (\<lambda>provisional.
              if (case last_period of None \<Rightarrow> False | Some p \<Rightarrow> expected \<le> p) \<and> \<not> provisional
              then Inr (verdict FRESH (Some expected) (Some expected_bar))
              else bind_r (case last_period of
                             None \<Rightarrow> Inr (if provisional then expected else hd owed)
                           | Some p \<Rightarrow>
                               if provisional then Inr expected
                               else bind_r (next_session calendar (next_period_start p g - 1)) (\<lambda>after_last.
                                      Inr (min expected (period_start after_last g)))) (\<lambda>missed.
                   bind_r (daily_deadline missed calendar g) (\<lambda>deadline.
                     Inr (verdict (if now < deadline then LATE else OVERDUE) (Some expected) (Some expected_bar))))))"

definition stream_rule ::
  "stamp option \<Rightarrow> granularity \<Rightarrow> tcal \<Rightarrow> instant \<Rightarrow> freshness_config \<Rightarrow> cal_error + dataset_health" where
  "stream_rule last_bar g calendar now config =
     (let judge = (\<lambda>threshold.
        let fresh = (case last_bar of None \<Rightarrow> False | Some b \<Rightarrow> threshold \<le> instant_of b)
        in verdict (if fresh then FRESH else OVERDUE) None (Some threshold))
      in bind_r (session_in_progress calendar now) (\<lambda>open_session.
           case open_session of
             Some _ \<Rightarrow> Inr (judge (now - stream_bar_multiple config * offset_of g))
           | None \<Rightarrow>
               bind_r (last_completed_session calendar now) (\<lambda>previous.
                 case previous of
                   None \<Rightarrow> Inr (verdict FRESH None None)
                 | Some s \<Rightarrow> bind_r (session_close calendar s) (\<lambda>c. Inr (judge (c - offset_of g))))))"

definition evaluate_dataset ::
  "update_type \<Rightarrow> granularity \<Rightarrow> bool option \<Rightarrow> stamp \<Rightarrow> stamp \<Rightarrow> stamp option \<Rightarrow> day set option \<Rightarrow> tcal \<Rightarrow> stamp \<Rightarrow>
   freshness_config option \<Rightarrow> stamp option \<Rightarrow> cal_error + dataset_health" where
  "evaluate_dataset u g collect start until last_bar covered calendar now config written_at =
     bind_r (require_aware [Some start, Some until, last_bar, Some now, written_at]) (\<lambda>_.
       let config = (case config of None \<Rightarrow> default_config | Some c \<Rightarrow> c)
       in if collect = Some False \<and> u \<in> {DAILY, STREAM} then Inr (verdict RETIRED None None)
          else if u = STATIC
          then bind_r (assess_completeness (instant_of start) (instant_of until)
                 (case covered of None \<Rightarrow> {} | Some c \<Rightarrow> c) g calendar (instant_of now)) (\<lambda>r.
                 Inr \<lparr>h_status = from_completeness (cr_status r), expected_last_session = None,
                      expected_last_bar = None, h_gap_count = cr_gap_count r\<rparr>)
          else if u = DAILY
          then daily (instant_of start) (instant_of until) last_bar calendar (instant_of now) g written_at
                 (settle_margin config)
          else stream_rule last_bar g calendar (instant_of now) config)"

section \<open>What a DAILY dataset owes\<close>

text \<open>The session's period is owed at \<open>now\<close>: it is in range and has ended.\<close>

definition is_due ::
  "zone \<Rightarrow> day list \<Rightarrow> (day \<Rightarrow> instant) \<Rightarrow> (day \<Rightarrow> instant) \<Rightarrow> instant \<Rightarrow> instant \<Rightarrow> instant \<Rightarrow> granularity \<Rightarrow>
   day \<Rightarrow> bool" where
  "is_due z ss op cl start until now g s \<longleftrightarrow>
     (if g \<in> PERIODIC then period_expected z ss cl start until now g s
      else overlaps op cl start until s \<and> cl s \<le> now)"

lemma sorted_periods: "sorted ss \<Longrightarrow> sorted (map (\<lambda>s. period_start s g) ss)"
  by (induction ss) (auto intro: period_start_mono)

lemma sorted_filter': "sorted xs \<Longrightarrow> sorted (filter P xs)"
  by (rule sorted_wrt_filter)

context trading_calendar
begin

abbreviation due_at :: "'c \<Rightarrow> instant \<Rightarrow> instant \<Rightarrow> instant \<Rightarrow> granularity \<Rightarrow> day \<Rightarrow> bool" where
  "due_at c start until now g \<equiv> is_due (tz (proto c)) (sess c) (opn c) (cls c) start until now g"

lemma judged_due:
  assumes c: "inv c" and start: "start_at c \<le> start"
  obtains ss where "judged start until (proto c) now g =
    Inr (ss, map (\<lambda>s. (s, period_start s g)) (filter (due_at c start until now g) (sess c)))"
proof -
  consider (daily) "g \<notin> PERIODIC" | (window) "g \<in> PERIODIC" "start < min until now"
    | (none) "g \<in> PERIODIC" "min until now \<le> start" by linarith
  then show thesis
  proof cases
    case daily
    show thesis using that judged_daily [OF assms daily] daily by (simp add: is_due_def [abs_def])
  next
    case window
    let ?W = "z_midnight (tz (proto c)) (next_period_start (z_date (tz (proto c)) (min until now)) g)"
    have "overlaps (opn c) (cls c) start ?W s"
      if "s \<in> set (sess c)" "period_expected (tz (proto c)) (sess c) (cls c) start until now g s" for s
      using that period_expected_bounds(2) [OF c that]
      by (intro window_holds_period [OF c that(1) that(1) refl]) (auto simp: period_expected_def)
    then have "filter (period_expected (tz (proto c)) (sess c) (cls c) start until now g)
        (filter (overlaps (opn c) (cls c) start ?W) (sess c)) = filter (due_at c start until now g) (sess c)"
      unfolding filter_filter using window(1) by (intro filter_cong) (auto simp: is_due_def)
    then show thesis using that judged_periodic_window [OF assms window refl] by simp
  next
    case none
    have "\<not> due_at c start until now g s" if "s \<in> set (sess c)" for s
      using period_expected_bounds(1) [OF c that, of start until now g] none by (auto simp: is_due_def)
    then have "filter (due_at c start until now g) (sess c) = []" by (simp add: filter_empty_conv)
    then show thesis using that judged_periodic_empty [OF assms none] by simp
  qed
qed

abbreviation owed_at :: "'c \<Rightarrow> instant \<Rightarrow> instant \<Rightarrow> instant \<Rightarrow> granularity \<Rightarrow> day list" where
  "owed_at c start until now g \<equiv>
     from_keys (map (\<lambda>s. period_start s g) (filter (due_at c start (min until now) now g) (sess c)))"

lemma due_closed:
  assumes "inv c" "s \<in> set (sess c)" "due_at c start until now g s"
  shows "cls c s \<le> now"
  using assms period_expected_bounds(4) [OF assms(1,2)] by (auto simp: is_due_def split: if_splits)

lemma due_later:
  assumes "now \<le> now'" and "due_at c start (min until now) now g s"
  shows "due_at c start (min until now') now' g s"
  using assms
  by (auto simp: is_due_def period_expected_def period_ended_def overlaps_def list_all_iff split: if_splits)

text \<open>Periods end in order: one that is owed later and starts no later than one owed now is owed now.\<close>

lemma due_earlier:
  assumes c: "inv c" and s: "s \<in> set (sess c)" "s' \<in> set (sess c)"
    and due: "due_at c start (min until now) now g s" and later: "due_at c start (min until now') now' g s'"
    and le: "period_start s' g \<le> period_start s g"
  shows "due_at c start (min until now) now g s'"
proof (cases "g \<in> PERIODIC")
  case True
  then have pe: "period_expected (tz (proto c)) (sess c) (cls c) start (min until now) now g s"
      "period_expected (tz (proto c)) (sess c) (cls c) start (min until now') now' g s'"
    using due later by (simp_all add: is_due_def)
  have "cls c x \<le> now" if x: "x \<in> set (sess c)" "period_start x g = period_start s' g" for x
  proof (cases "period_start x g = period_start s g")
    case True
    then show ?thesis using pe(1) x(1) by (simp add: period_expected_def period_ended_def list_all_iff)
  next
    case False
    then have "period_start x g < period_start s g" using le x(2) by simp
    then have "x < s" using period_start_mono [of s x g] by (cases "x < s") auto
    then show ?thesis
      using close_less [OF c x(1) s(1)] due_closed [OF c s(1) due] by linarith
  qed
  moreover have "z_midnight (tz (proto c)) (period_start s' g) \<le> z_midnight (tz (proto c)) (period_start s g)"
    using zone_midnight_mono [OF tz_ok [OF c] le] .
  ultimately show ?thesis
    using True pe by (auto simp: is_due_def period_expected_def period_ended_def list_all_iff)
next
  case False
  then have le': "s' \<le> s" using le by simp
  then have "cls c s' \<le> cls c s" using close_le_iff [OF c s(2,1)] by simp
  moreover have "opn c s' \<le> opn c s"
    using le' sessions_disjoint [OF c s(2,1)] open_less_close [OF c s(2)] by (cases "s' = s") auto
  ultimately show ?thesis using False due later by (auto simp: is_due_def overlaps_def)
qed

lemma owed_ascending: "inv c \<Longrightarrow> ascending (owed_at c start until now g)"
  by (intro from_keys_sorted sorted_periods sorted_filter' ascending_sorted sess_ascending)

lemma owed_grows:
  assumes c: "inv c" and le: "now \<le> now'" and ne: "owed_at c start until now g \<noteq> []"
  shows "owed_at c start until now' g \<noteq> []"
    and "hd (owed_at c start until now' g) = hd (owed_at c start until now g)"
    and "last (owed_at c start until now g) \<le> last (owed_at c start until now' g)"
proof -
  let ?o = "owed_at c start until now g" and ?o' = "owed_at c start until now' g"
  have sub: "set ?o \<subseteq> set ?o'" using due_later [OF le] by auto
  then show ne': "?o' \<noteq> []" using ne by (metis empty_subsetI list.set(1) set_empty subset_antisym)
  show "last ?o \<le> last ?o'"
    using ascending_le_last [OF owed_ascending [OF c]] last_in_set [OF ne] sub by blast
  have h: "hd ?o \<in> set ?o'" "hd ?o' \<in> set ?o'" using sub hd_in_set [OF ne] hd_in_set [OF ne'] by auto
  have "hd ?o' \<le> hd ?o" by (rule ascending_hd_le [OF owed_ascending [OF c] h(1)])
  moreover obtain s where s: "s \<in> set (sess c)" "due_at c start (min until now) now g s" "hd ?o = period_start s g"
    using hd_in_set [OF ne] by auto
  moreover obtain s' where s': "s' \<in> set (sess c)" "due_at c start (min until now') now' g s'"
    "hd ?o' = period_start s' g" using h(2) by auto
  ultimately have "due_at c start (min until now) now g s'" by (intro due_earlier [OF c s(1) s'(1) s(2) s'(2)]) simp
  then have "hd ?o' \<in> set ?o" using s' by auto
  then have "hd ?o \<le> hd ?o'" by (rule ascending_hd_le [OF owed_ascending [OF c]])
  with \<open>hd ?o' \<le> hd ?o\<close> show "hd ?o' = hd ?o" by simp
qed

text \<open>The rule over the owed periods, \<open>judged\<close> evaluated.\<close>

lemma daily_eq:
  assumes "inv c" and "start_at c \<le> start"
    and owed: "owed = owed_at c start until now g"
    and period: "last_period = map_option (\<lambda>b. period_start (session_of (instant_of b) (proto c)) g) last_bar"
  shows "daily start until last_bar (proto c) now g written_at margin =
    (if owed = [] then Inr (verdict FRESH None None)
     else bind_r (if last_period = Some (last owed)
                  then last_bar_is_provisional last_bar written_at (proto c) g margin else Inr False) (\<lambda>provisional.
       if (case last_period of None \<Rightarrow> False | Some p \<Rightarrow> last owed \<le> p) \<and> \<not> provisional
       then Inr (verdict FRESH (Some (last owed)) (Some (local_midnight (last owed) (proto c))))
       else bind_r (case last_period of
                      None \<Rightarrow> Inr (if provisional then last owed else hd owed)
                    | Some p \<Rightarrow>
                        if provisional then Inr (last owed)
                        else bind_r (next_session (proto c) (next_period_start p g - 1)) (\<lambda>after_last.
                               Inr (min (last owed) (period_start after_last g)))) (\<lambda>missed.
            bind_r (daily_deadline missed (proto c) g) (\<lambda>deadline.
              Inr (verdict (if now < deadline then LATE else OVERDUE) (Some (last owed))
                (Some (local_midnight (last owed) (proto c))))))))"
proof -
  obtain ss where "judged start (min until now) (proto c) now g =
      Inr (ss, map (\<lambda>s. (s, period_start s g)) (filter (due_at c start (min until now) now g) (sess c)))"
    by (rule judged_due [OF assms(1,2)])
  moreover have "owed = [] \<longleftrightarrow> filter (due_at c start (min until now) now g) (sess c) = []"
    unfolding owed by (metis list.map_disc_iff set_empty set_from_keys)
  ultimately show ?thesis
    unfolding daily_def by (simp add: Let_def o_def owed [symmetric] period [symmetric])
qed

text \<open>While a period after the last bar's is owed, the first missed period does not depend on the clock.\<close>

lemma missed_period:
  assumes c: "inv c" and n: "next_session (proto c) (next_period_start p g - 1) = Inr n"
    and owed: "owed_at c start until now g \<noteq> []" and p: "p = period_start d g"
    and lt: "p < last (owed_at c start until now g)"
  shows "period_start n g \<le> last (owed_at c start until now g)"
proof -
  obtain s where s: "s \<in> set (sess c)" "last (owed_at c start until now g) = period_start s g"
    using last_in_set [OF owed] by auto
  have "period_start p g < period_start s g" using lt s(2) p by simp
  then have "next_period_start p g \<le> period_start s g" by (rule period_start_less_next)
  then have "next_period_start p g - 1 < s" using period_start_le [of s g] by linarith
  then have "n \<le> s" by (rule next_session_spec(3) [OF c n s(1)])
  then show ?thesis using s(2) period_start_mono by simp
qed

lemma daily_overdue_stays:
  assumes c: "inv c" and start: "start_at c \<le> start" and le: "now \<le> now'"
    and final: "last_bar_is_provisional last_bar written_at (proto c) g margin = Inr False"
    and od: "daily start until last_bar (proto c) now g written_at margin = Inr h" "h_status h = OVERDUE"
  shows "\<exists>h'. daily start until last_bar (proto c) now' g written_at margin = Inr h' \<and> h_status h' = OVERDUE"
proof -
  define owed where "owed = owed_at c start until now g"
  define owed' where "owed' = owed_at c start until now' g"
  define lp where "lp = map_option (\<lambda>b. period_start (session_of (instant_of b) (proto c)) g) last_bar"
  note eq = daily_eq [OF c start owed_def lp_def, of written_at margin]
    and eq' = daily_eq [OF c start owed'_def lp_def, of written_at margin]
  have ne: "owed \<noteq> []" using od eq by (auto simp: verdict_def)
  have grow: "owed' \<noteq> []" "hd owed' = hd owed" "last owed \<le> last owed'"
    using owed_grows [OF c le] ne by (simp_all add: owed_def owed'_def)
  have behind: "\<not> (case lp of None \<Rightarrow> False | Some p \<Rightarrow> last owed \<le> p)"
    using od eq ne by (auto simp: verdict_def final split: if_splits)
  then have behind': "\<not> (case lp of None \<Rightarrow> False | Some p \<Rightarrow> last owed' \<le> p)"
    using grow(3) by (auto split: option.splits)
  have prov: "lp \<noteq> Some (last owed)" "lp \<noteq> Some (last owed')" using behind behind' by auto
  show ?thesis
  proof (cases lp)
    case None
    obtain t where "daily_deadline (hd owed) (proto c) g = Inr t" "t \<le> now"
      using od eq ne None by (auto simp: verdict_def bind_r_Inr_iff not_less split: if_splits)
    then show ?thesis using eq' grow None le by (auto simp: verdict_def)
  next
    case (Some p)
    then have lt: "p < last owed" "p < last owed'" using behind behind' by force+
    obtain n t where n: "next_session (proto c) (next_period_start p g - 1) = Inr n"
      and t: "daily_deadline (min (last owed) (period_start n g)) (proto c) g = Inr t" "t \<le> now"
      using od eq ne Some behind prov by (auto simp: verdict_def bind_r_Inr_iff not_less split: if_splits)
    obtain d where d: "p = period_start d g" using Some by (auto simp: lp_def)
    have "period_start n g \<le> last owed" "period_start n g \<le> last owed'"
      using missed_period [OF c n _ d] ne grow(1) lt by (auto simp: owed_def owed'_def)
    then show ?thesis using eq' grow Some behind' prov n t le by (auto simp: verdict_def min_absorb2)
  qed
qed

lemma bar_period_close_eq:
  assumes c: "inv c" and start: "start_at c \<le> local_midnight (period_start (session_of t (proto c)) g) (proto c)"
  shows "bar_period_close (Aware t) (proto c) g =
    (let members = filter (\<lambda>s. period_start s g = period_start (session_of t (proto c)) g) (sess c)
     in Inr (if members = [] then None else Some (cls c (last members))))"
proof -
  let ?p = "period_start (session_of t (proto c)) g"
  have iff: "opn c s < local_midnight (next_period_start ?p g) (proto c) \<and> local_midnight ?p (proto c) < cls c s \<longleftrightarrow>
      period_start s g = ?p" if s: "s \<in> set (sess c)" for s
  proof -
    have "?p \<le> s \<longleftrightarrow> local_midnight ?p (proto c) < cls c s"
      using midnight_le_open [OF c s, of ?p] close_less_midnight [OF c s, of ?p] open_less_close [OF c s]
      by (cases "?p \<le> s") (auto simp: local_midnight_def)
    moreover have "s < next_period_start ?p g \<longleftrightarrow> opn c s < local_midnight (next_period_start ?p g) (proto c)"
      using midnight_le_open [OF c s, of "next_period_start ?p g"] open_less_close [OF c s]
        close_less_midnight [OF c s, of "next_period_start ?p g"]
      by (cases "s < next_period_start ?p g") (auto simp: local_midnight_def)
    ultimately show ?thesis using period_eq_iff [of s g ?p] by auto
  qed
  have "sessions_overlapping (proto c) (local_midnight ?p (proto c)) (local_midnight (next_period_start ?p g) (proto c))
      = Inr (filter (\<lambda>s. period_start s g = ?p) (sess c))"
    unfolding overlapping_eq [OF c start] using iff by (simp cong: filter_cong)
  moreover have "session_close (proto c) (last members) = Inr (cls c (last members))"
    if "members = filter (\<lambda>s. period_start s g = ?p) (sess c)" "members \<noteq> []" for members
    using close_eq [OF c] last_filter_in that by blast
  ultimately show ?thesis by (auto simp: bar_period_close_def require_aware_def Let_def)
qed

end

section \<open>Evaluations\<close>

text \<open>A daily dataset of the sample week, from Monday on, its last bar Monday's.\<close>

abbreviation sample_health :: "stamp option \<Rightarrow> stamp option \<Rightarrow> instant \<Rightarrow> cal_error + dataset_health" where
  "sample_health last_bar written_at now \<equiv>
     evaluate_dataset DAILY ONE_DAY (Some True) (Aware (day_at 739439 4 0)) (Aware (day_at 739460 4 0)) last_bar None
       (adapter_calendar sample_adapter) (Aware now) None written_at"

lemmas adapter_daily = cal.daily_eq [unfolded tz_adapter_calendar]

abbreviation owed_of :: "adapter \<Rightarrow> instant \<Rightarrow> instant \<Rightarrow> instant \<Rightarrow> granularity \<Rightarrow> day list" where
  "owed_of A start until now g \<equiv>
     from_keys (map (\<lambda>s. period_start s g)
       (filter (is_due (ad_tz A) (ad_sessions A) (ad_open_at A) (ad_close_at A) start (min until now) now g) (ad_sessions A)))"

section \<open>Properties\<close>

text \<open>C14. A DAILY dataset that is collected reads FRESH exactly when nothing in its range is owed yet,
  or its newest bar lies in the last owed period or a later one and, when it lies in the last owed
  period itself, is final (not written before that period closed and settled).\<close>

theorem daily_fresh_iff:
  assumes "adapter_ok A" and "ad_start_at A \<le> start" and "collect \<noteq> Some False"
    and h: "evaluate_dataset DAILY g collect (Aware start) (Aware until) (map_option Aware last_bar) covered
      (adapter_calendar A) (Aware now) (Some config) written_at = Inr h"
  shows "h_status h = FRESH \<longleftrightarrow>
    owed_of A start until now g = [] \<or>
    (\<exists>b. last_bar = Some b \<and> last (owed_of A start until now g) \<le> period_start (z_date (ad_tz A) b) g \<and>
      (period_start (z_date (ad_tz A) b) g = last (owed_of A start until now g) \<longrightarrow>
        last_bar_is_provisional (Some (Aware b)) written_at (adapter_calendar A) g (settle_margin config) = Inr False))"
proof -
  have "daily start until (map_option Aware last_bar) (adapter_calendar A) now g written_at (settle_margin config) = Inr h"
    using h assms(3) by (auto simp: evaluate_dataset_def bind_r_Inr_iff)
  then show ?thesis
    unfolding adapter_daily [OF assms(1,2) refl refl]
    by (cases last_bar) (auto simp: verdict_def bind_r_Inr_iff session_of_def split: if_splits)
qed

theorem daily_fresh_iff_witness:
  "\<exists>h. evaluate_dataset DAILY ONE_DAY (Some True) (Aware (day_at 739439 4 0)) (Aware (day_at 739460 4 0))
       (map_option Aware (Some (day_at 739440 4 0))) None (adapter_calendar sample_adapter) (Aware (day_at 739441 14 0))
       (Some default_config) None = Inr h \<and> h_status h = FRESH"
proof -
  let ?h = "verdict FRESH (Some 739440) (Some (day_at 739440 4 0))"
  have h: "evaluate_dataset DAILY ONE_DAY (Some True) (Aware (day_at 739439 4 0)) (Aware (day_at 739460 4 0))
       (map_option Aware (Some (day_at 739440 4 0))) None (adapter_calendar sample_adapter) (Aware (day_at 739441 14 0))
       (Some default_config) None = Inr ?h" by code_simp
  have owed: "owed_of sample_adapter (day_at 739439 4 0) (day_at 739460 4 0) (day_at 739441 14 0) ONE_DAY
      = [739439, 739440]" by code_simp
  have start: "ad_start_at sample_adapter \<le> day_at 739439 4 0"
    using ad_start_at_sample by (simp add: day_at_def)
  have "z_date (ad_tz sample_adapter) (day_at 739440 4 0) = 739440" by code_simp
  then have "h_status ?h = FRESH"
    using daily_fresh_iff [OF sample_adapter_ok start _ h] unfolding owed
    by (simp add: last_bar_is_provisional_def PERIODIC_def)
  then show ?thesis using h by blast
qed

text \<open>C15. An OVERDUE dataset whose newest bar is final stays OVERDUE, for every granularity, until a
  bar is stored: neither the clock nor the ending of a later period turns it back to LATE or FRESH.\<close>

theorem overdue_is_permanent:
  assumes "adapter_ok A" and "ad_start_at A \<le> start" and "now \<le> now'"
    and final: "last_bar_is_provisional last_bar written_at (adapter_calendar A) g (settle_margin config) = Inr False"
    and od: "evaluate_dataset DAILY g collect (Aware start) (Aware until) last_bar covered
      (adapter_calendar A) (Aware now) (Some config) written_at = Inr h" "h_status h = OVERDUE"
  shows "\<exists>h'. evaluate_dataset DAILY g collect (Aware start) (Aware until) last_bar covered
      (adapter_calendar A) (Aware now') (Some config) written_at = Inr h' \<and> h_status h' = OVERDUE"
proof -
  have "collect \<noteq> Some False" and aware: "require_aware [Some (Aware start), Some (Aware until), last_bar, Some (Aware now), written_at] = Inr ()"
    and d: "daily start until last_bar (adapter_calendar A) now g written_at (settle_margin config) = Inr h"
    using od by (auto simp: evaluate_dataset_def bind_r_Inr_iff verdict_def split: if_splits)
  moreover have "require_aware [Some (Aware start), Some (Aware until), last_bar, Some (Aware now'), written_at] = Inr ()"
    using aware by (simp add: require_aware_def split: if_splits)
  ultimately show ?thesis
    using cal.daily_overdue_stays [OF assms(1,2,3) final d od(2)] by (simp add: evaluate_dataset_def)
qed

theorem overdue_is_permanent_witness:
  "\<exists>h'. sample_health (Some (Aware (day_at 739439 4 0))) None (day_at 739442 18 0) = Inr h' \<and> h_status h' = OVERDUE"
proof -
  have now: "day_at 739441 14 0 \<le> day_at 739442 18 0" by (simp add: day_at_def)
  have start: "ad_start_at sample_adapter \<le> day_at 739439 4 0"
    using ad_start_at_sample by (simp add: day_at_def)
  obtain h where "sample_health (Some (Aware (day_at 739439 4 0))) None (day_at 739441 14 0) = Inr h" "h_status h = OVERDUE"
    by (rule that [of "verdict OVERDUE (Some 739440) (Some (day_at 739440 4 0))"]) (code_simp, simp add: verdict_def)
  then have "evaluate_dataset DAILY ONE_DAY (Some True) (Aware (day_at 739439 4 0)) (Aware (day_at 739460 4 0))
     (Some (Aware (day_at 739439 4 0))) None (adapter_calendar sample_adapter) (Aware (day_at 739441 14 0)) (Some default_config) None
     = Inr h" by (simp add: evaluate_dataset_def)
  from overdue_is_permanent [OF sample_adapter_ok start now _ this \<open>h_status h = OVERDUE\<close>]
  show ?thesis by (simp add: evaluate_dataset_def last_bar_is_provisional_def)
qed

text \<open>The other way round for a provisional newest bar: Monday's bar fetched during Monday's
  session reads LATE on Monday evening and OVERDUE once Tuesday's session has opened, but LATE again
  after Tuesday's close, although nothing was stored in between.\<close>

theorem provisional_overdue_reads_late_again:
  "map (\<lambda>now. map_sum id h_status
       (sample_health (Some (Aware (day_at 739439 4 0))) (Some (Aware (day_at 739439 18 0))) now))
     [day_at 739439 21 0, day_at 739440 14 0, day_at 739440 21 0]
   = [Inr LATE, Inr OVERDUE, Inr LATE]"
  by code_simp

text \<open>The close of a bar's period is the close of the last session of that period, for every
  granularity; a period without a session has none, and a bar in it is never provisional.\<close>

theorem period_close_is_last_session:
  assumes "adapter_ok A" and "ad_start_at A \<le> z_midnight (ad_tz A) (period_start (z_date (ad_tz A) t) g)"
  defines "members \<equiv> filter (\<lambda>s. period_start s g = period_start (z_date (ad_tz A) t) g) (ad_sessions A)"
  shows "bar_period_close (Aware t) (adapter_calendar A) g =
      Inr (if members = [] then None else Some (ad_close_at A (last members)))
    \<and> last_bar_is_provisional (Some (Aware t)) (Some (Aware written)) (adapter_calendar A) g margin =
      Inr (members \<noteq> [] \<and> written < ad_close_at A (last members) + margin)"
  using cal.bar_period_close_eq [OF assms(1), of t g] assms(2)
  by (simp add: members_def session_of_def local_midnight_def Let_def last_bar_is_provisional_def require_aware_def)

theorem period_close_is_last_session_witness:
  "bar_period_close (Aware (day_at 739440 15 0)) (adapter_calendar sample_adapter) ONE_WEEK
     = Inr (Some (day_at 739443 20 0))"
proof -
  have "ad_start_at sample_adapter \<le> z_midnight (ad_tz sample_adapter)
      (period_start (z_date (ad_tz sample_adapter) (day_at 739440 15 0)) ONE_WEEK)"
    by code_simp
  moreover have "filter (\<lambda>s. period_start s ONE_WEEK =
      period_start (z_date (ad_tz sample_adapter) (day_at 739440 15 0)) ONE_WEEK) (ad_sessions sample_adapter)
      = [739439, 739440, 739441, 739442, 739443]" by code_simp
  moreover have "ad_close_at sample_adapter 739443 = day_at 739443 20 0" by code_simp
  ultimately show ?thesis
    using period_close_is_last_session [OF sample_adapter_ok, of "day_at 739440 15 0" ONE_WEEK] by simp
qed

text \<open>Whatever the environment holds, the settle margin read from it is never negative; and a
  configuration read from it, when one is built, has a bar multiple of at least one and that margin.\<close>

theorem config_from_env_sound:
  "0 \<le> settle_margin_from_env env \<and>
   (case freshness_config_from_env env of
      None \<Rightarrow> env STREAM_BAR_MULTIPLE_ENV \<noteq> None
    | Some c \<Rightarrow> 1 \<le> stream_bar_multiple c \<and> settle_margin c = settle_margin_from_env env)"
  using settle_margin_nonneg [of env]
  by (auto simp: freshness_config_from_env_def mk_freshness_config_def DEFAULT_STREAM_BAR_MULTIPLE_def
      split: option.splits)

text \<open>A STREAM dataset that is collected reads FRESH exactly when its newest bar is at least the
  threshold: \<open>stream_bar_multiple\<close> bar lengths before now while a session is open, and one bar
  length before the last completed session's close otherwise; before the first session it is FRESH.\<close>

theorem stream_fresh_iff:
  assumes "adapter_ok A" and "ad_start_at A \<le> now" and "collect \<noteq> Some False"
  shows "\<exists>h. evaluate_dataset STREAM g collect (Aware start) (Aware until) (map_option Aware last_bar) covered
      (adapter_calendar A) (Aware now) (Some config) None = Inr h \<and>
    (h_status h = FRESH \<or> h_status h = OVERDUE) \<and>
    (let in_session = list_ex (\<lambda>s. ad_open_at A s \<le> now \<and> now < ad_close_at A s) (ad_sessions A);
         done = filter (\<lambda>s. ad_close_at A s \<le> now) (ad_sessions A);
         threshold = (if in_session then now - stream_bar_multiple config * offset_of g
                      else ad_close_at A (last done) - offset_of g)
     in h_status h = FRESH \<longleftrightarrow> (\<not> in_session \<and> done = []) \<or> (\<exists>b. last_bar = Some b \<and> threshold \<le> b))"
proof -
  have ex: "list_ex P xs \<longleftrightarrow> find P xs \<noteq> None" for P and xs :: "day list"
    by (auto simp: find_None_iff list_ex_iff)
  have close: "session_close (adapter_calendar A) (last (filter (\<lambda>s. ad_close_at A s \<le> now) (ad_sessions A)))
      = Inr (ad_close_at A (last (filter (\<lambda>s. ad_close_at A s \<le> now) (ad_sessions A))))"
    if "filter (\<lambda>s. ad_close_at A s \<le> now) (ad_sessions A) \<noteq> []"
    using cal.close_eq [OF assms(1)] last_filter_in [OF that] by blast
  have "require_aware [Some (Aware start), Some (Aware until), map_option Aware last_bar, Some (Aware now), None] = Inr ()"
    by (cases last_bar) (simp_all add: require_aware_def)
  then show ?thesis
    using assms(3) cal.in_progress_eq [OF assms(1,2)] cal.last_completed_eq [OF assms(1,2)] close
    by (cases last_bar; cases "find (\<lambda>s. ad_open_at A s \<le> now \<and> now < ad_close_at A s) (ad_sessions A)")
      (auto simp: evaluate_dataset_def stream_rule_def verdict_def Let_def ex)
qed

theorem stream_fresh_iff_witness:
  "\<exists>h. evaluate_dataset STREAM ONE_MINUTE (Some True) (Aware 0) (Aware 1) (map_option Aware (Some (day_at 739440 14 58))) None
      (adapter_calendar sample_adapter) (Aware (day_at 739440 15 0)) (Some default_config) None = Inr h
    \<and> (h_status h = FRESH \<or> h_status h = OVERDUE)"
proof -
  have "ad_start_at sample_adapter \<le> day_at 739440 15 0" using ad_start_at_sample by (simp add: day_at_def)
  from stream_fresh_iff [OF sample_adapter_ok this, of "Some True"] show ?thesis by blast
qed

end
