(* ===== verification/Scheduling.thy ===== *)
theory Scheduling
  imports Trading_Calendar
begin

text \<open>
  \<open>server/common/scheduling.py\<close>: the three schedule kinds and the loop that runs a periodic job.
  A schedule is asked with the clock and the start of the last run; a random draw of \<open>Every\<close> is
  an argument \<open>u\<close> in [0, 1). The loop is a step relation over the awaits of \<open>_run_loop\<close>: the
  clock, the wake event and the end of the job are moves of the environment.
\<close>

section \<open>Schedules\<close>

datatype sched_error = SchedCalendar cal_error | SchedRuntimeError | SchedValueError

fun lift_sched :: "cal_error + 'a \<Rightarrow> sched_error + 'a" where
  "lift_sched (Inl e) = Inl (SchedCalendar e)"
| "lift_sched (Inr x) = Inr x"

lemma lift_sched_Inr_iff [simp]: "lift_sched r = Inr x \<longleftrightarrow> r = Inr x"
  by (cases r) auto

definition MAX_SESSIONS_SCANNED :: nat where
  "MAX_SESSIONS_SCANNED = 8"

fun aware_or_raise :: "stamp \<Rightarrow> sched_error + instant" where
  "aware_or_raise (Aware t) = Inr t"
| "aware_or_raise (Naive t) = Inl SchedValueError"

datatype trading_event = OPEN | CLOSE

subsection \<open>Once\<close>

record once = fire_at :: instant

definition mk_once :: "stamp \<Rightarrow> sched_error + once" where
  "mk_once t = bind_r (aware_or_raise t) (\<lambda>t. Inr \<lparr>fire_at = t\<rparr>)"

definition once_after :: "timedelta \<Rightarrow> stamp \<Rightarrow> sched_error + once" where
  "once_after delay now = bind_r (aware_or_raise now) (\<lambda>now. mk_once (Aware (now + delay)))"

definition once_next_fire :: "once \<Rightarrow> stamp \<Rightarrow> stamp option \<Rightarrow> sched_error + instant option" where
  "once_next_fire s now last_run =
     bind_r (aware_or_raise now) (\<lambda>now.
       case last_run of
         Some r \<Rightarrow> bind_r (aware_or_raise r) (\<lambda>_. Inr None)
       | None \<Rightarrow> Inr (Some (max (fire_at s) now)))"

subsection \<open>AfterTradingEvent\<close>

record 'p after_event =
  ae_calendar :: "'p scal_scheme"
  ae_event :: trading_event
  ae_offset :: timedelta

definition event_instant :: "'p after_event \<Rightarrow> day \<Rightarrow> sched_error + instant" where
  "event_instant s session =
     bind_r (lift_sched (if ae_event s = OPEN then session_open (ae_calendar s) session
                         else session_close (ae_calendar s) session)) (\<lambda>t. Inr (t + ae_offset s))"

fun scan_sessions :: "'p after_event \<Rightarrow> instant \<Rightarrow> nat \<Rightarrow> day \<Rightarrow> sched_error + instant option" where
  "scan_sessions s floor_at 0 session = Inl SchedRuntimeError"
| "scan_sessions s floor_at (Suc n) session =
     bind_r (event_instant s session) (\<lambda>fire.
       if fire > floor_at then Inr (Some fire)
       else bind_r (lift_sched (next_session (ae_calendar s) session)) (scan_sessions s floor_at n))"

definition after_next_fire :: "'p after_event \<Rightarrow> stamp \<Rightarrow> stamp option \<Rightarrow> sched_error + instant option" where
  "after_next_fire s now last_run =
     bind_r (aware_or_raise now) (\<lambda>now.
     bind_r (case last_run of
               None \<Rightarrow> Inr now
             | Some r \<Rightarrow> bind_r (aware_or_raise r) (\<lambda>r. Inr (max now r))) (\<lambda>floor_at.
     let target = floor_at - ae_offset s
     in bind_r (lift_sched (last_completed_session (ae_calendar s) target)) (\<lambda>last.
        bind_r (lift_sched (case last of
                  None \<Rightarrow> next_session (ae_calendar s) (z_date UTC target - 1)
                | Some l \<Rightarrow> next_session (ae_calendar s) l)) (\<lambda>session.
          scan_sessions s floor_at MAX_SESSIONS_SCANNED session))))"

subsection \<open>Every\<close>

record every =
  interval :: timedelta
  ev_first :: "instant option"
  jitter :: timedelta

definition mk_every :: "timedelta \<Rightarrow> stamp option \<Rightarrow> timedelta \<Rightarrow> sched_error + every" where
  "mk_every i f j =
     (if i \<le> 0 then Inl SchedValueError
      else if j < 0 then Inl SchedValueError
      else case f of
             None \<Rightarrow> Inr \<lparr>interval = i, ev_first = None, jitter = j\<rparr>
           | Some t \<Rightarrow> bind_r (aware_or_raise t) (\<lambda>t. Inr \<lparr>interval = i, ev_first = Some t, jitter = j\<rparr>))"

definition every_next_fire :: "every \<Rightarrow> rat \<Rightarrow> stamp \<Rightarrow> stamp option \<Rightarrow> sched_error + instant option" where
  "every_next_fire s u now last_run =
     bind_r (aware_or_raise now) (\<lambda>now.
     bind_r (case last_run of
               None \<Rightarrow> Inr (case ev_first s of None \<Rightarrow> now | Some f \<Rightarrow> f)
             | Some r \<Rightarrow> bind_r (aware_or_raise r) (\<lambda>r. Inr (r + interval s))) (\<lambda>base.
       let fire = max base now
       in Inr (Some (if jitter s > 0 then fire + round_half_even (of_int (jitter s) * u) else fire))))"

definition every_ok :: "every \<Rightarrow> bool" where
  "every_ok s \<longleftrightarrow> 0 < interval s \<and> 0 \<le> jitter s"

lemma mk_every_ok: "mk_every i f j = Inr s \<Longrightarrow> every_ok s"
  by (auto simp: mk_every_def every_ok_def bind_r_Inr_iff split: if_splits option.splits)

section \<open>What every schedule promises the loop\<close>

text \<open>
  \<open>fire s u now r\<close> is the schedule asked at the aware instants \<open>now\<close> and \<open>r\<close>; \<open>gap s\<close> is the least
  time it leaves between the start of the last run and the next fire.
\<close>

locale schedule =
  fixes fire :: "'s \<Rightarrow> rat \<Rightarrow> instant \<Rightarrow> instant option \<Rightarrow> sched_error + instant option"
    and ok :: "'s \<Rightarrow> bool"
    and gap :: "'s \<Rightarrow> timedelta"
  assumes fire_not_before: "ok s \<Longrightarrow> 0 \<le> u \<Longrightarrow> fire s u now r = Inr (Some f) \<Longrightarrow> now \<le> f"
    and fire_after_gap: "ok s \<Longrightarrow> 0 \<le> u \<Longrightarrow> fire s u now (Some q) = Inr (Some f) \<Longrightarrow> q + gap s \<le> f"
    and gap_nonneg: "ok s \<Longrightarrow> 0 \<le> gap s"

definition once_fire :: "once \<Rightarrow> rat \<Rightarrow> instant \<Rightarrow> instant option \<Rightarrow> sched_error + instant option" where
  "once_fire s u now r = once_next_fire s (Aware now) (map_option Aware r)"

definition after_fire :: "'p after_event \<Rightarrow> rat \<Rightarrow> instant \<Rightarrow> instant option \<Rightarrow> sched_error + instant option" where
  "after_fire s u now r = after_next_fire s (Aware now) (map_option Aware r)"

definition every_fire :: "every \<Rightarrow> rat \<Rightarrow> instant \<Rightarrow> instant option \<Rightarrow> sched_error + instant option" where
  "every_fire s u now r = every_next_fire s u (Aware now) (map_option Aware r)"

lemma scan_sessions_after: "scan_sessions s fl n d = Inr r \<Longrightarrow> \<exists>f. r = Some f \<and> fl < f"
  by (induction s fl n d rule: scan_sessions.induct) (auto simp: bind_r_Inr_iff split: if_splits)

lemma after_fire_floor: "after_fire s u now r = Inr x \<Longrightarrow>
  \<exists>f. x = Some f \<and> now < f \<and> (case r of None \<Rightarrow> True | Some q \<Rightarrow> q < f)"
  by (cases r) (auto simp: after_fire_def after_next_fire_def Let_def bind_r_Inr_iff dest!: scan_sessions_after)

lemma max_sessions_two: "MAX_SESSIONS_SCANNED = Suc (Suc 6)"
  by (simp add: MAX_SESSIONS_SCANNED_def)

lemma after_fire_eq:
  assumes "floor_at = (case r of None \<Rightarrow> now | Some q \<Rightarrow> max now q)"
  shows "after_fire s u now r =
     bind_r (lift_sched (last_completed_session (ae_calendar s) (floor_at - ae_offset s))) (\<lambda>last.
     bind_r (lift_sched (case last of
               None \<Rightarrow> next_session (ae_calendar s) (z_date UTC (floor_at - ae_offset s) - 1)
             | Some l \<Rightarrow> next_session (ae_calendar s) l)) (scan_sessions s floor_at MAX_SESSIONS_SCANNED))"
  unfolding assms by (cases r) (simp_all add: after_fire_def after_next_fire_def Let_def cong: option.case_cong)

lemma every_fire_eq: "every_fire s u now r =
  Inr (Some (max (case r of None \<Rightarrow> (case ev_first s of None \<Rightarrow> now | Some f \<Rightarrow> f) | Some q \<Rightarrow> q + interval s) now
    + (if jitter s > 0 then round_half_even (of_int (jitter s) * u) else 0)))"
  by (cases r) (auto simp: every_fire_def every_next_fire_def Let_def)

lemma jitter_nonneg: "0 \<le> u \<Longrightarrow> 0 \<le> j \<Longrightarrow> 0 \<le> round_half_even (of_int j * u)"
  using round_half_even_mono [of 0 "of_int j * u"] round_half_even_of_int [of 0] by simp

lemma jitter_le:
  assumes "u < 1" and "0 < j"
  shows "round_half_even (of_int j * u) \<le> j"
proof -
  have "of_int j * u \<le> of_int j * 1" using assms by (intro mult_left_mono) auto
  then show ?thesis using round_half_even_mono [of "of_int j * u" "of_int j"] by simp
qed

interpretation once: schedule once_fire "\<lambda>s. True" "\<lambda>s. 0"
  by unfold_locales (auto simp: once_fire_def once_next_fire_def split: option.splits)

interpretation after: schedule after_fire "\<lambda>s. True" "\<lambda>s. 0"
  by unfold_locales (auto dest: after_fire_floor)

interpretation every: schedule every_fire every_ok interval
  by unfold_locales
    (use jitter_nonneg in \<open>auto simp: every_fire_eq every_ok_def le_max_iff_disj intro: add_increasing2 split: if_splits\<close>)

section \<open>The event a schedule fires after\<close>

lemmas bind_r_simps = bind_r_Inr_iff Let_def

context trading_calendar
begin

abbreviation event_at :: "'c \<Rightarrow> trading_event \<Rightarrow> timedelta \<Rightarrow> day \<Rightarrow> instant" where
  "event_at c e off x \<equiv> (if e = OPEN then opn c x else cls c x) + off"

abbreviation sched_of where
  "sched_of c e off \<equiv> \<lparr>ae_calendar = proto c, ae_event = e, ae_offset = off\<rparr>"

lemma event_instant_eq: "inv c \<Longrightarrow> x \<in> set (sess c) \<Longrightarrow>
    event_instant (sched_of c e off) x = Inr (event_at c e off x)"
  by (simp add: event_instant_def open_eq close_eq)

lemma event_at_mono:
  assumes "inv c" "x \<in> set (sess c)" "y \<in> set (sess c)" "x \<le> y"
  shows "event_at c e off x \<le> event_at c e off y"
  using assms close_le_iff [OF assms(1,2,3)] sessions_disjoint [OF assms(1,2,3)] open_less_close [OF assms(1,2)]
  by (cases "x = y") auto

text \<open>From a session that no session firing after the floor precedes, the scan needs two steps.\<close>

lemma scan_least:
  assumes c: "inv c" and d: "d \<in> set (sess c)" "floor_at - off < cls c d"
    and first: "\<And>y. y \<in> set (sess c) \<Longrightarrow> floor_at < event_at c e off y \<Longrightarrow> d \<le> y"
    and r: "scan_sessions (sched_of c e off) floor_at (Suc (Suc n)) d = Inr r"
  shows "\<exists>x \<in> set (sess c). r = Some (event_at c e off x) \<and> floor_at < event_at c e off x \<and>
    (\<forall>y \<in> set (sess c). floor_at < event_at c e off y \<longrightarrow> event_at c e off x \<le> event_at c e off y)"
proof (cases "floor_at < event_at c e off d")
  case True
  then have "r = Some (event_at c e off d)" using r event_instant_eq [OF c d(1), of e off] by auto
  then show ?thesis using True d(1) first event_at_mono [OF c d(1)] by blast
next
  case False
  then have e: "e = OPEN" using d(2) by (auto split: if_splits)
  obtain x where x: "next_session (proto c) d = Inr x" "scan_sessions (sched_of c e off) floor_at (Suc n) x = Inr r"
    using r False event_instant_eq [OF c d(1), of e off] by (auto simp: bind_r_Inr_iff)
  note nx = next_session_spec [OF c x(1)]
  have fires: "floor_at < event_at c e off x" using sessions_disjoint [OF c d(1) nx(1,2)] d(2) e by simp
  then have "r = Some (event_at c e off x)" using x(2) event_instant_eq [OF c nx(1), of e off] by simp
  moreover have "event_at c e off x \<le> event_at c e off y"
    if y: "y \<in> set (sess c)" "floor_at < event_at c e off y" for y
  proof -
    have "d < y" using first [OF y] y(2) False by (cases "d = y") auto
    then show ?thesis using event_at_mono [OF c nx(1) y(1) nx(3) [OF y(1)]] by blast
  qed
  ultimately show ?thesis using nx(1) fires by blast
qed

lemma scan_total:
  assumes c: "inv c" and d: "d \<in> set (sess c)" "floor_at - off < cls c d"
    and y: "y \<in> set (sess c)" "floor_at < event_at c e off y" "d \<le> y"
  shows "\<exists>f. scan_sessions (sched_of c e off) floor_at (Suc (Suc n)) d = Inr (Some f)"
proof (cases "floor_at < event_at c e off d")
  case True
  then show ?thesis using event_instant_eq [OF c d(1), of e off] by auto
next
  case False
  then have e: "e = OPEN" and "d < y" using d(2) y by (auto split: if_splits simp: order_less_le)
  then obtain x where x: "next_session (proto c) d = Inr x" "x \<in> set (sess c)" "d < x"
    using next_session_exists [OF c sess_covered [OF c d(1)] y(1)] by metis
  have "floor_at < event_at c e off x" using sessions_disjoint [OF c d(1) x(2,3)] d(2) e by simp
  then show ?thesis using x False event_instant_eq [OF c d(1), of e off] event_instant_eq [OF c x(2), of e off] by simp
qed

text \<open>The session the scan starts from.\<close>

lemma after_start:
  assumes c: "inv c" and t: "start_at c \<le> t"
    and utc: "\<forall>x \<in> set (sess c). z_date UTC (cls c x) \<le> x"
    and last: "last_completed_session (proto c) t = Inr l"
    and next_: "(case l of None \<Rightarrow> next_session (proto c) (z_date UTC t - 1) | Some l \<Rightarrow> next_session (proto c) l) = Inr d"
  shows "d \<in> set (sess c)" and "t < cls c d" and "\<And>y. y \<in> set (sess c) \<Longrightarrow> t < cls c y \<Longrightarrow> d \<le> y"
proof -
  have open_after: "t < cls c y" if "l = None" "y \<in> set (sess c)" for y
    using last_completed_eq [OF c t] last that by (auto simp: filter_empty_conv split: if_splits)
  have d: "d \<in> set (sess c) \<and> t < cls c d \<and> (\<forall>y \<in> set (sess c). t < cls c y \<longrightarrow> d \<le> y)"
  proof (cases l)
    case None
    then have n: "next_session (proto c) (z_date UTC t - 1) = Inr d" using next_ by simp
    have "z_date UTC t - 1 < y" if "y \<in> set (sess c)" "t < cls c y" for y
      using utc that(1) zone_date_mono [OF fixed_zone_ok, of t "cls c y" 0] that(2) by force
    then show ?thesis using next_session_spec [OF c n] open_after [OF None] by blast
  next
    case (Some l')
    then have n: "next_session (proto c) l' = Inr d" using next_ by simp
    have lc: "last_completed_session (proto c) t = Inr (Some l')" using last Some by simp
    note l = last_completed_Some [OF c t lc]
    have "l' < y" if "y \<in> set (sess c)" "t < cls c y" for y
      using close_le_iff [OF c that(1) l(1)] l(2) that(2) by force
    then show ?thesis using next_session_spec [OF c n] l by blast
  qed
  then show "d \<in> set (sess c)" "t < cls c d" "\<And>y. y \<in> set (sess c) \<Longrightarrow> t < cls c y \<Longrightarrow> d \<le> y" by blast+
qed

lemma after_fire_least:
  assumes c: "inv c" and utc: "\<forall>x \<in> set (sess c). z_date UTC (cls c x) \<le> x"
    and f: "after_fire (sched_of c e off) u now r = Inr q"
    and floor: "floor_at = (case r of None \<Rightarrow> now | Some q \<Rightarrow> max now q)"
  shows "\<exists>x \<in> set (sess c). q = Some (event_at c e off x) \<and> floor_at < event_at c e off x \<and>
    (\<forall>y \<in> set (sess c). floor_at < event_at c e off y \<longrightarrow> event_at c e off x \<le> event_at c e off y)"
proof -
  let ?t = "floor_at - off"
  obtain l d where l: "last_completed_session (proto c) ?t = Inr l"
    and d: "(case l of None \<Rightarrow> next_session (proto c) (z_date UTC ?t - 1) | Some l \<Rightarrow> next_session (proto c) l) = Inr d"
    and scan: "scan_sessions (sched_of c e off) floor_at MAX_SESSIONS_SCANNED d = Inr q"
    using f unfolding after_fire_eq [OF floor] bind_r_Inr_iff lift_sched_Inr_iff after_event.simps by blast
  have t: "start_at c \<le> ?t" using last_completed_before [OF c, of ?t] l by (cases "start_at c \<le> ?t") auto
  note start = after_start [OF c t utc l d]
  have "d \<le> y" if "y \<in> set (sess c)" "floor_at < event_at c e off y" for y
    using start(3) [OF that(1)] that(2) open_less_close [OF c that(1)] by (auto split: if_splits)
  with scan show ?thesis
    unfolding max_sessions_two by (intro scan_least [OF c start(1,2)]) blast+
qed

lemma after_fire_total:
  assumes c: "inv c" and utc: "\<forall>x \<in> set (sess c). z_date UTC (cls c x) \<le> x"
    and floor: "floor_at = (case r of None \<Rightarrow> now | Some q \<Rightarrow> max now q)"
    and t: "start_at c \<le> floor_at - off" "start_day c < z_date UTC (floor_at - off)"
    and y: "y \<in> set (sess c)" "floor_at < event_at c e off y"
  shows "\<exists>f. after_fire (sched_of c e off) u now r = Inr (Some f)"
proof -
  let ?t = "floor_at - off"
  obtain l where l: "last_completed_session (proto c) ?t = Inr l"
    using last_completed_eq [OF c t(1)] by blast
  have late: "?t < cls c y" using y open_less_close [OF c y(1)] by (auto split: if_splits)
  have "\<exists>d. (case l of None \<Rightarrow> next_session (proto c) (z_date UTC ?t - 1)
      | Some l \<Rightarrow> next_session (proto c) l) = Inr d"
  proof (cases l)
    case None
    have "z_date UTC ?t - 1 < y"
      using utc y(1) zone_date_mono [OF fixed_zone_ok, of ?t "cls c y" 0] late by force
    then show ?thesis using None next_session_exists [OF c _ y(1)] t(2)
      by (metis option.case(1) zle_diff1_eq)
  next
    case (Some l')
    have lc: "last_completed_session (proto c) ?t = Inr (Some l')" using l Some by simp
    note l' = last_completed_Some [OF c t(1) lc]
    have "l' < y" using close_le_iff [OF c y(1) l'(1)] l'(2) late by force
    then show ?thesis using Some next_session_exists [OF c sess_covered [OF c l'(1)] y(1)] by (metis option.case(2))
  qed
  then obtain d where d: "(case l of None \<Rightarrow> next_session (proto c) (z_date UTC ?t - 1)
      | Some l \<Rightarrow> next_session (proto c) l) = Inr d" by blast
  note start = after_start [OF c t(1) utc l d]
  have "\<exists>f. scan_sessions (sched_of c e off) floor_at MAX_SESSIONS_SCANNED d = Inr (Some f)"
    unfolding max_sessions_two by (rule scan_total [OF c start(1,2) y start(3) [OF y(1) late]])
  moreover have "after_fire (sched_of c e off) u now r = scan_sessions (sched_of c e off) floor_at MAX_SESSIONS_SCANNED d"
    unfolding after_fire_eq [OF floor] using l d by (simp cong: option.case_cong)
  ultimately show ?thesis by simp
qed

end

section \<open>The loop\<close>

text \<open>
  The awaits of \<open>_run_loop\<close>. \<open>Asking\<close> is the head of the loop; \<open>Sleeping f\<close> waits for the fire
  \<open>f\<close>, \<open>Retrying d\<close> for a failed schedule's retry instant \<open>d\<close>; \<open>Running\<close> awaits the job.
  \<open>wake\<close> is the event's flag, \<open>has_wake\<close> whether one was passed. A sleep ends by itself no
  earlier than its instant, as the documentation of \<open>asyncio.sleep\<close> promises.
\<close>

datatype phase = Asking | Sleeping instant | Retrying instant | Running | Finished | Cancelled

record run_loop =
  clock :: instant
  phase :: phase
  last_run :: "instant option"
  has_wake :: bool
  wake :: bool

datatype move = Elapse timedelta | SetWake | Ask rat | Fire | Retry | JobEnds bool | Cancel

definition start_run :: "run_loop \<Rightarrow> run_loop" where
  "start_run l = l\<lparr>phase := Running, last_run := Some (clock l), wake := False\<rparr>"

definition initial_loop :: "instant \<Rightarrow> bool \<Rightarrow> run_loop" where
  "initial_loop t w = \<lparr>clock = t, phase = Asking, last_run = None, has_wake = w, wake = False\<rparr>"

text \<open>One move; \<open>None\<close> where the loop does not allow it.\<close>

definition loop_move ::
  "(rat \<Rightarrow> instant \<Rightarrow> instant option \<Rightarrow> sched_error + instant option) \<Rightarrow> timedelta \<Rightarrow> move \<Rightarrow> run_loop \<Rightarrow>
   run_loop option" where
  "loop_move next_fire retry_delay m l =
     (case m of
        Elapse d \<Rightarrow> if 0 \<le> d then Some (l\<lparr>clock := clock l + d\<rparr>) else None
      | SetWake \<Rightarrow> if has_wake l then Some (l\<lparr>wake := True\<rparr>) else None
      | Ask u \<Rightarrow>
          if phase l \<noteq> Asking \<or> u < 0 \<or> 1 \<le> u then None
          else (case next_fire u (clock l) (last_run l) of
                  Inl e \<Rightarrow> Some (l\<lparr>phase := Retrying (clock l + retry_delay)\<rparr>)
                | Inr None \<Rightarrow> Some (l\<lparr>phase := Finished\<rparr>)
                | Inr (Some f) \<Rightarrow>
                    if clock l < f \<and> \<not> wake l then Some (l\<lparr>phase := Sleeping f\<rparr>) else Some (start_run l))
      | Fire \<Rightarrow>
          (case phase l of
             Sleeping f \<Rightarrow> if f \<le> clock l \<or> wake l then Some (start_run l) else None
           | _ \<Rightarrow> None)
      | Retry \<Rightarrow>
          (case phase l of
             Retrying d \<Rightarrow> if d \<le> clock l \<or> wake l then Some (l\<lparr>phase := Asking, wake := False\<rparr>) else None
           | _ \<Rightarrow> None)
      | JobEnds ok \<Rightarrow> if phase l = Running then Some (l\<lparr>phase := Asking\<rparr>) else None
      | Cancel \<Rightarrow> if phase l = Finished then None else Some (l\<lparr>phase := Cancelled\<rparr>))"

inductive runs ::
  "(rat \<Rightarrow> instant \<Rightarrow> instant option \<Rightarrow> sched_error + instant option) \<Rightarrow> timedelta \<Rightarrow> run_loop \<Rightarrow> move list \<Rightarrow>
   run_loop \<Rightarrow> bool" for next_fire retry_delay where
  stop: "runs next_fire retry_delay l [] l"
| go: "loop_move next_fire retry_delay m l = Some l' \<Longrightarrow> runs next_fire retry_delay l' ms l'' \<Longrightarrow>
    runs next_fire retry_delay l (m # ms) l''"

inductive_cases runs_ConsE: "runs next_fire retry_delay l (m # ms) l'"
inductive_cases runs_NilE: "runs next_fire retry_delay l [] l'"

text \<open>\<open>run_periodic\<close> refuses a retry delay that is not positive.\<close>

definition run_periodic :: "timedelta \<Rightarrow> instant \<Rightarrow> bool \<Rightarrow> sched_error + run_loop" where
  "run_periodic retry_delay t w =
     (if retry_delay \<le> 0 then Inl SchedValueError else Inr (initial_loop t w))"

text \<open>The instants at which runs of the job start, along a sequence of moves.\<close>

fun starts ::
  "(rat \<Rightarrow> instant \<Rightarrow> instant option \<Rightarrow> sched_error + instant option) \<Rightarrow> timedelta \<Rightarrow> move list \<Rightarrow> run_loop \<Rightarrow>
   instant list" where
  "starts next_fire retry_delay [] l = []"
| "starts next_fire retry_delay (m # ms) l =
     (case loop_move next_fire retry_delay m l of
        None \<Rightarrow> []
      | Some l' \<Rightarrow> (if phase l \<noteq> Running \<and> phase l' = Running then [clock l'] else [])
          @ starts next_fire retry_delay ms l')"

lemma loop_moveE:
  assumes "loop_move nf rd m l = Some l'"
  obtains (elapse) d where "m = Elapse d" "0 \<le> d" "l' = l\<lparr>clock := clock l + d\<rparr>"
  | (set_wake) "m = SetWake" "has_wake l" "l' = l\<lparr>wake := True\<rparr>"
  | (retry_later) u e where "m = Ask u" "phase l = Asking" "nf u (clock l) (last_run l) = Inl e"
      "l' = l\<lparr>phase := Retrying (clock l + rd)\<rparr>"
  | (finish) u where "m = Ask u" "phase l = Asking" "nf u (clock l) (last_run l) = Inr None" "l' = l\<lparr>phase := Finished\<rparr>"
  | (sleep) u f where "m = Ask u" "0 \<le> u" "phase l = Asking" "nf u (clock l) (last_run l) = Inr (Some f)"
      "clock l < f" "\<not> wake l" "l' = l\<lparr>phase := Sleeping f\<rparr>"
  | (run_now) u f where "m = Ask u" "0 \<le> u" "phase l = Asking" "nf u (clock l) (last_run l) = Inr (Some f)"
      "f \<le> clock l \<or> wake l" "l' = start_run l"
  | (fired) f where "m = Fire" "phase l = Sleeping f" "f \<le> clock l \<or> wake l" "l' = start_run l"
  | (again) d where "m = Retry" "phase l = Retrying d" "d \<le> clock l \<or> wake l" "l' = l\<lparr>phase := Asking, wake := False\<rparr>"
  | (job_ends) ok where "m = JobEnds ok" "phase l = Running" "l' = l\<lparr>phase := Asking\<rparr>"
  | (cancel) "m = Cancel" "phase l \<noteq> Finished" "l' = l\<lparr>phase := Cancelled\<rparr>"
proof (cases m)
  case (Elapse d)
  then show thesis using assms elapse by (simp add: loop_move_def split: if_splits)
next
  case SetWake
  then show thesis using assms set_wake by (simp add: loop_move_def split: if_splits)
next
  case (Ask u)
  then have ask: "phase l = Asking" "0 \<le> u" using assms by (auto simp: loop_move_def split: if_splits)
  show thesis
  proof (cases "nf u (clock l) (last_run l)")
    case (Inl e)
    then show thesis using assms Ask ask retry_later by (simp add: loop_move_def split: if_splits)
  next
    case (Inr q)
    show thesis
    proof (cases q)
      case None
      then show thesis using assms Ask ask Inr finish by (simp add: loop_move_def split: if_splits)
    next
      case (Some f)
      then show thesis
        using assms Ask ask Inr sleep [of u f] run_now [of u f]
        by (cases "clock l < f \<and> \<not> wake l") (auto simp: loop_move_def not_less split: if_splits)
    qed
  qed
next
  case Fire
  then show thesis using assms fired by (auto simp: loop_move_def split: if_splits phase.splits)
next
  case Retry
  then show thesis using assms again by (auto simp: loop_move_def split: if_splits phase.splits)
next
  case (JobEnds ok)
  then show thesis using assms job_ends by (simp add: loop_move_def split: if_splits)
next
  case Cancel
  then show thesis using assms cancel by (simp add: loop_move_def split: if_splits)
qed

lemma start_run_simps [simp]:
  "phase (start_run l) = Running" "last_run (start_run l) = Some (clock l)" "wake (start_run l) = False"
  "clock (start_run l) = clock l" "has_wake (start_run l) = has_wake l"
  by (simp_all add: start_run_def)

context schedule
begin

text \<open>Without wakes: the sleeping loop waits for an instant at least a gap after the last run.\<close>

definition quiet_inv :: "'s \<Rightarrow> run_loop \<Rightarrow> bool" where
  "quiet_inv s l \<longleftrightarrow> \<not> wake l \<and> (\<forall>r. last_run l = Some r \<longrightarrow> r \<le> clock l \<and>
     (\<forall>f. phase l = Sleeping f \<longrightarrow> r + gap s \<le> f))"

lemma quiet_inv_move:
  assumes "ok s" "m \<noteq> SetWake" "quiet_inv s l" "loop_move (fire s) rd m l = Some l'"
  shows "quiet_inv s l'"
  using assms(4)
proof (cases rule: loop_moveE)
  case (sleep u f)
  then show ?thesis using assms(1,3) fire_after_gap [OF assms(1) sleep(2)] by (auto simp: quiet_inv_def)
qed (use assms in \<open>auto simp: quiet_inv_def\<close>)

lemma quiet_start:
  assumes "ok s" "quiet_inv s l" "loop_move (fire s) rd m l = Some l'"
    and "phase l \<noteq> Running" "phase l' = Running"
  shows "last_run l' = Some (clock l) \<and> clock l' = clock l \<and> (\<forall>r. last_run l = Some r \<longrightarrow> r + gap s \<le> clock l)"
  using assms(3)
proof (cases rule: loop_moveE)
  case (run_now u f)
  then show ?thesis using assms(2) fire_after_gap [OF assms(1) run_now(2)] by (fastforce simp: quiet_inv_def)
next
  case (fired f)
  then show ?thesis using assms(2) by (fastforce simp: quiet_inv_def)
qed (use assms in \<open>auto\<close>)

lemma quiet_starts:
  assumes "ok s" "SetWake \<notin> set ms" "quiet_inv s l"
  shows "sorted_wrt (\<lambda>a b. a + gap s \<le> b) (starts (fire s) rd ms l) \<and>
    (\<forall>r. last_run l = Some r \<longrightarrow> (\<forall>b \<in> set (starts (fire s) rd ms l). r + gap s \<le> b))"
  using assms(2,3)
proof (induction ms arbitrary: l)
  case (Cons m ms)
  show ?case
  proof (cases "loop_move (fire s) rd m l")
    case (Some l')
    have q: "quiet_inv s l'" using quiet_inv_move [OF assms(1) _ Cons.prems(2) Some] Cons.prems(1) by auto
    note IH = Cons.IH [OF _ q]
    show ?thesis
    proof (cases "phase l \<noteq> Running \<and> phase l' = Running")
      case True
      note st = quiet_start [OF assms(1) Cons.prems(2) Some]
      show ?thesis
        using IH Cons.prems(1) st True gap_nonneg [OF assms(1)] Some by fastforce
    next
      case False
      have "last_run l' = last_run l"
        using Some by (cases rule: loop_moveE) (use False in auto)
      then show ?thesis using IH Cons.prems(1) False Some by auto
    qed
  qed simp
qed simp

lemma quiet_initial: "quiet_inv s (initial_loop t w)"
  by (simp add: quiet_inv_def initial_loop_def)

text \<open>A schedule that always names a fire keeps the loop going until it is cancelled.\<close>

lemma loop_never_ends:
  assumes "\<And>u now r. fire s u now r \<noteq> Inr None"
    and "runs (fire s) rd l ms l'" "Cancel \<notin> set ms" "phase l \<notin> {Finished, Cancelled}"
  shows "phase l' \<notin> {Finished, Cancelled}"
  using assms(2,3,4)
proof (induction rule: runs.induct)
  case (go m l l' ms l'')
  from go.hyps(1) have "phase l' \<notin> {Finished, Cancelled}"
    by (cases rule: loop_moveE) (use go.prems assms(1) in auto)
  then show ?case using go by simp
qed simp

end

section \<open>Properties\<close>

abbreviation event_sched :: "adapter \<Rightarrow> trading_event \<Rightarrow> timedelta \<Rightarrow> unit tcal_ext after_event" where
  "event_sched A e off \<equiv> \<lparr>ae_calendar = adapter_calendar A, ae_event = e, ae_offset = off\<rparr>"

abbreviation ad_event :: "adapter \<Rightarrow> trading_event \<Rightarrow> timedelta \<Rightarrow> day \<Rightarrow> instant" where
  "ad_event A e off x \<equiv> (if e = OPEN then ad_open_at A x else ad_close_at A x) + off"

text \<open>C33. \<open>AfterTradingEvent\<close> names the earliest event plus offset that is after both the clock and the
  last run, among all sessions of the calendar, whichever the event and the sign of the offset; it
  finds it whenever there is one, so its scan of at most eight sessions is never exhausted.\<close>

theorem after_event_fires_earliest:
  assumes A: "adapter_ok A" and utc: "\<forall>x \<in> set (ad_sessions A). z_date UTC (ad_close_at A x) \<le> x"
    and floor: "floor_at = (case r of None \<Rightarrow> now | Some q \<Rightarrow> max now q)"
    and t: "ad_start_at A \<le> floor_at - off" "ad_start A < z_date UTC (floor_at - off)"
    and y: "y \<in> set (ad_sessions A)" "floor_at < ad_event A e off y"
  shows "\<exists>x \<in> set (ad_sessions A).
    after_next_fire (event_sched A e off) (Aware now) (map_option Aware r) = Inr (Some (ad_event A e off x)) \<and>
    floor_at < ad_event A e off x \<and>
    (\<forall>y \<in> set (ad_sessions A). floor_at < ad_event A e off y \<longrightarrow> ad_event A e off x \<le> ad_event A e off y)"
proof -
  obtain f where f: "after_fire (event_sched A e off) 0 now r = Inr (Some f)"
    using cal.after_fire_total [OF A utc floor t y] by blast
  then show ?thesis using cal.after_fire_least [OF A utc f floor] by (simp add: after_fire_def)
qed

theorem after_event_fires_earliest_witness:
  "\<exists>x \<in> set (ad_sessions sample_adapter).
    after_next_fire (event_sched sample_adapter CLOSE (30 * minute)) (Aware (day_at 739440 21 0)) None
      = Inr (Some (ad_event sample_adapter CLOSE (30 * minute) x))"
proof -
  have utc: "\<forall>x \<in> set (ad_sessions sample_adapter). z_date UTC (ad_close_at sample_adapter x) \<le> x" by code_simp
  have t: "ad_start_at sample_adapter \<le> day_at 739440 21 0 - 30 * minute"
    "ad_start sample_adapter < z_date UTC (day_at 739440 21 0 - 30 * minute)" by code_simp+
  have y: "739441 \<in> set (ad_sessions sample_adapter)"
    "day_at 739440 21 0 < ad_event sample_adapter CLOSE (30 * minute) 739441" by code_simp+
  from after_event_fires_earliest [OF sample_adapter_ok utc _ t y, where r = None and now = "day_at 739440 21 0"]
  show ?thesis by auto
qed

text \<open>Jitter never makes \<open>Every\<close> early and delays it by at most the jitter: the fire lies between the
  due instant (the last run plus the interval, the first fire, or now, and never before now) and
  that instant plus the jitter.\<close>

theorem every_fire_bounds:
  assumes "every_ok s" and "0 \<le> u" "u < 1"
  shows "\<exists>f due. every_next_fire s u (Aware now) (map_option Aware r) = Inr (Some f) \<and>
    due = max now (case r of None \<Rightarrow> (case ev_first s of None \<Rightarrow> now | Some t \<Rightarrow> t) | Some q \<Rightarrow> q + interval s) \<and>
    due \<le> f \<and> f \<le> due + jitter s"
  using every_fire_eq [of s u now r] jitter_nonneg [OF assms(2), of "jitter s"] jitter_le [OF assms(3), of "jitter s"] assms(1)
  by (auto simp: every_fire_def every_ok_def max.commute)

theorem every_fire_bounds_witness:
  "\<exists>f due. every_next_fire \<lparr>interval = hour, ev_first = None, jitter = minute\<rparr> (1/3) (Aware 7) (Some (Aware 5)) = Inr (Some f) \<and>
    due = 5 + hour \<and> due \<le> f \<and> f \<le> due + minute"
  using every_fire_bounds [of "\<lparr>interval = hour, ev_first = None, jitter = minute\<rparr>" "1/3" 7 "Some 5"]
  by (simp add: every_ok_def)

text \<open>Without wakes, the loop starts the runs of an \<open>Every\<close> job at least one interval apart, however
  long the runs take, whatever the draws and wherever the clock stands when they end: an overrun is
  one fire, never a burst.\<close>

theorem every_runs_spaced:
  assumes "every_ok s" and "SetWake \<notin> set ms"
  shows "sorted_wrt (\<lambda>a b. a + interval s \<le> b) (starts (every_fire s) retry_delay ms (initial_loop t w))"
  using every.quiet_starts [OF assms every.quiet_initial] by blast

theorem every_runs_spaced_witness:
  "starts (every_fire \<lparr>interval = hour, ev_first = None, jitter = 0\<rparr>) minute
     [Ask 0, Elapse (3 * hour), JobEnds True, Ask 0, JobEnds True, Ask 0, Elapse hour, Fire] (initial_loop 0 False)
     = [0, 3 * hour, 4 * hour] \<and>
   sorted_wrt (\<lambda>a b. a + hour \<le> b) (starts (every_fire \<lparr>interval = hour, ev_first = None, jitter = 0\<rparr>) minute
     [Ask 0, Elapse (3 * hour), JobEnds True, Ask 0, JobEnds True, Ask 0, Elapse hour, Fire] (initial_loop 0 False))"
proof
  show "starts (every_fire \<lparr>interval = hour, ev_first = None, jitter = 0\<rparr>) minute
     [Ask 0, Elapse (3 * hour), JobEnds True, Ask 0, JobEnds True, Ask 0, Elapse hour, Fire] (initial_loop 0 False)
     = [0, 3 * hour, 4 * hour]" by code_simp
qed (use every_runs_spaced [of "\<lparr>interval = hour, ev_first = None, jitter = 0\<rparr>"
      "[Ask 0, Elapse (3 * hour), JobEnds True, Ask 0, JobEnds True, Ask 0, Elapse hour, Fire]"] in
    \<open>simp add: every_ok_def\<close>)

lemma once_stays:
  "last_run l \<noteq> None \<Longrightarrow> (\<forall>f. phase l \<noteq> Sleeping f) \<Longrightarrow> starts (once_fire s) rd ms l = []"
proof (induction ms arbitrary: l)
  case (Cons m ms)
  show ?case
  proof (cases "loop_move (once_fire s) rd m l")
    case (Some l')
    then have "last_run l' \<noteq> None \<and> (\<forall>f. phase l' \<noteq> Sleeping f) \<and> \<not> (phase l \<noteq> Running \<and> phase l' = Running)"
      by (cases rule: loop_moveE) (use Cons.prems in \<open>auto simp: once_fire_def once_next_fire_def\<close>)
    then show ?thesis using Cons.IH Some by simp
  qed simp
qed simp

lemma once_starts:
  "last_run l = None \<Longrightarrow> phase l \<noteq> Running \<Longrightarrow> length (starts (once_fire s) rd ms l) \<le> 1"
proof (induction ms arbitrary: l)
  case (Cons m ms)
  show ?case
  proof (cases "loop_move (once_fire s) rd m l")
    case (Some l')
    then have "last_run l' = None \<and> phase l' \<noteq> Running \<or> last_run l' \<noteq> None \<and> (\<forall>f. phase l' \<noteq> Sleeping f)"
      by (cases rule: loop_moveE) (use Cons.prems in auto)
    then show ?thesis using Cons.IH [of l'] once_stays [of l' s rd ms] Some by (auto simp del: One_nat_def)
  qed simp
qed simp

text \<open>A \<open>Once\<close> job runs at most once, whatever wakes arrive and however often the loop is asked.\<close>

theorem once_runs_at_most_once:
  "length (starts (once_fire s) retry_delay ms (initial_loop t w)) \<le> 1"
  by (rule once_starts) (simp_all add: initial_loop_def)

text \<open>A job whose schedule always names a fire or fails (\<open>Every\<close>, \<open>AfterTradingEvent\<close>) is never
  dropped: along any moves without a cancellation, failing jobs and failing schedules included, the
  loop has neither finished nor been cancelled.\<close>

theorem recurring_loop_never_ends:
  assumes "next_fire = every_fire s \<or> next_fire = after_fire e"
    and "runs next_fire retry_delay (initial_loop t w) ms l" and "Cancel \<notin> set ms"
  shows "phase l \<notin> {Finished, Cancelled}"
proof -
  have start: "phase (initial_loop t w) \<notin> {Finished, Cancelled}" by (simp add: initial_loop_def)
  have "every_fire s u now r \<noteq> Inr None" for u now r by (simp add: every_fire_eq)
  moreover have "after_fire e u now r \<noteq> Inr None" for u now r using after_fire_floor by fastforce
  ultimately show ?thesis
    using assms every.loop_never_ends [OF _ _ assms(3) start] after.loop_never_ends [OF _ _ assms(3) start] by blast
qed

theorem recurring_loop_never_ends_witness:
  "phase (initial_loop 0 False \<lparr>phase := Retrying minute\<rparr>) \<notin> {Finished, Cancelled}"
proof -
  let ?e = "event_sched sample_adapter CLOSE 0"
  have "loop_move (after_fire ?e) minute (Ask 0) (initial_loop 0 False) = Some (initial_loop 0 False \<lparr>phase := Retrying minute\<rparr>)"
    by code_simp
  then have "runs (after_fire ?e) minute (initial_loop 0 False) [Ask 0] (initial_loop 0 False \<lparr>phase := Retrying minute\<rparr>)"
    by (rule runs.go [OF _ runs.stop])
  from recurring_loop_never_ends [OF disjI2 [OF refl] this] show ?thesis by simp
qed

text \<open>A wake during a run is exactly one more run, not a queue: however many wakes arrive while the
  job runs, the next ask starts a run at once and leaves the event cleared, and the ask after that
  run sleeps until its fire.\<close>

theorem wake_during_run_is_one_more:
  assumes l: "phase l = Running" "has_wake l" and u: "0 \<le> u" "u < 1" "0 \<le> v" "v < 1"
    and f: "next_fire u (clock l) (last_run l) = Inr (Some f)"
    and f': "next_fire v (clock l) (Some (clock l)) = Inr (Some f')" "clock l < f'"
  shows "\<exists>l1 l2. runs next_fire retry_delay l (replicate (Suc n) SetWake @ [JobEnds ok, Ask u]) l1 \<and>
    phase l1 = Running \<and> \<not> wake l1 \<and> last_run l1 = Some (clock l) \<and>
    runs next_fire retry_delay l1 [JobEnds ok', Ask v] l2 \<and> phase l2 = Sleeping f'"
proof -
  have tail: "runs next_fire retry_delay (l\<lparr>wake := True\<rparr>) [JobEnds ok, Ask u] (start_run (l\<lparr>wake := True, phase := Asking\<rparr>))"
    using l u f by (intro runs.go [OF _ runs.go [OF _ runs.stop]]) (auto simp: loop_move_def)
  have more: "runs next_fire retry_delay (l\<lparr>wake := True\<rparr>) (replicate n SetWake @ [JobEnds ok, Ask u])
      (start_run (l\<lparr>wake := True, phase := Asking\<rparr>))" for n
  proof (induction n)
    case (Suc n)
    then show ?case using l by (auto simp: loop_move_def intro!: runs.go)
  qed (use tail in simp)
  have first: "runs next_fire retry_delay l (replicate (Suc n) SetWake @ [JobEnds ok, Ask u])
      (start_run (l\<lparr>wake := True, phase := Asking\<rparr>))"
    using more [of n] l by (auto simp: loop_move_def intro!: runs.go)
  let ?l1 = "start_run (l\<lparr>wake := True, phase := Asking\<rparr>)"
  have "runs next_fire retry_delay ?l1 [JobEnds ok', Ask v] (?l1\<lparr>phase := Sleeping f'\<rparr>)"
    using u f' by (intro runs.go [OF _ runs.go [OF _ runs.stop]]) (auto simp: loop_move_def)
  with first show ?thesis
    by (intro exI [of _ ?l1] exI [of _ "?l1\<lparr>phase := Sleeping f'\<rparr>"]) simp
qed

theorem wake_during_run_is_one_more_witness:
  "\<exists>l1 l2. runs (every_fire \<lparr>interval = hour, ev_first = None, jitter = 0\<rparr>) minute
      (start_run (initial_loop 0 True)) (replicate 2 SetWake @ [JobEnds True, Ask 0]) l1 \<and> phase l1 = Running \<and>
    runs (every_fire \<lparr>interval = hour, ev_first = None, jitter = 0\<rparr>) minute l1 [JobEnds True, Ask 0] l2 \<and>
    phase l2 = Sleeping hour"
proof -
  have "phase (start_run (initial_loop 0 True)) = Running" "has_wake (start_run (initial_loop 0 True))"
    by (simp_all add: initial_loop_def)
  from wake_during_run_is_one_more [OF this, of 0 0 "every_fire \<lparr>interval = hour, ev_first = None, jitter = 0\<rparr>" hour hour
      minute 1 True True]
  show ?thesis by (auto simp: every_fire_eq initial_loop_def numeral_2_eq_2)
qed

end
