(* ===== verification/Rpc_Errors.thy ===== *)
theory Rpc_Errors
  imports Vocabulary
begin

text \<open>
  The vocabulary on the gRPC hop: \<open>server/common/rpc/errors.py\<close>. A \<open>google.rpc.Status\<close> is its code, its
  message and the two details the code packs. An error's \<open>detail\<close> travels beside the \<open>tj_error\<close>.
  \<open>isofmt\<close> is \<open>datetime.isoformat\<close> and \<open>parse\<close> is \<open>datetime.fromisoformat\<close> (\<open>None\<close> where it raises); \<open>minted\<close> is
  what \<open>new_error_id()\<close> answers.
\<close>

section \<open>Rendering\<close>

record error_info =
  ei_reason :: string
  ei_domain :: string
  ei_metadata :: "(string \<times> string) list"

record rich_status =
  st_code :: string
  st_message :: string
  st_info :: "error_info option"
  st_retry :: "int option"

text \<open>What the caller's side gets: the code, the details and the status of the trailer, if it decodes.\<close>

record rpc_failure =
  rf_code :: string
  rf_details :: string
  rf_status :: "rich_status option"

definition ERROR_ID_KEY :: string where
  "ERROR_ID_KEY = ''error_id''"

definition RESET_AT_KEY :: string where
  "RESET_AT_KEY = ''reset_at''"

definition INTERNAL_MESSAGE_PREFIX :: string where
  "INTERNAL_MESSAGE_PREFIX = ''internal error; error_id ''"

fun wire_value :: "meta_value \<Rightarrow> string" where
  "wire_value (Text s) = s"
| "wire_value (Texts ss) = join_with '','' ss"

text \<open>\<open>metadata[key] = value\<close>\<close>

fun dict_set :: "string \<Rightarrow> 'v \<Rightarrow> (string \<times> 'v) list \<Rightarrow> (string \<times> 'v) list" where
  "dict_set k v [] = [(k, v)]"
| "dict_set k v ((k', v') # kvs) = (if k' = k then (k, v) # kvs else (k', v') # dict_set k v kvs)"

definition wire_metadata :: "tj_error \<Rightarrow> string option \<Rightarrow> string \<Rightarrow> (string \<times> string) list" where
  "wire_metadata e error_id minted =
     (let m = map (\<lambda>(k, v). (k, wire_value v)) (te_metadata e)
      in if own_error_id e = None
         then dict_set ERROR_ID_KEY (case error_id of None \<Rightarrow> minted | Some i \<Rightarrow> if i = [] then minted else i) m
         else m)"

definition render ::
  "(instant \<Rightarrow> string) \<Rightarrow> tj_error \<Rightarrow> string \<Rightarrow> string option \<Rightarrow> string \<Rightarrow> instant \<Rightarrow> build_error + rich_status" where
  "render isofmt e detail error_id minted now =
     (case sp_grpc (row_of (te_reason e)) of
        None \<Rightarrow> Inl ValueError
      | Some code \<Rightarrow>
          if code = ''UNAVAILABLE'' then Inl ValueError
          else
            let m = wire_metadata e error_id minted;
                m' = (case te_reset_at e of None \<Rightarrow> m | Some t \<Rightarrow> dict_set RESET_AT_KEY (isofmt t) m)
            in Inr \<lparr>st_code = code, st_message = detail,
                    st_info = Some \<lparr>ei_reason = reason_name (te_reason e), ei_domain = ERROR_DOMAIN, ei_metadata = m'\<rparr>,
                    st_retry = retry_after e now\<rparr>)"

text \<open>\<open>rpc_status.to_status\<close> and \<open>context.abort\<close>\<close>

definition sent :: "rich_status \<Rightarrow> rpc_failure" where
  "sent s = \<lparr>rf_code = st_code s, rf_details = st_message s, rf_status = Some s\<rparr>"

definition abort_with_error ::
  "(instant \<Rightarrow> string) \<Rightarrow> tj_error \<Rightarrow> string \<Rightarrow> string \<Rightarrow> instant \<Rightarrow> build_error + rpc_failure" where
  "abort_with_error isofmt e detail minted now =
     (let error_id = (case own_error_id e of None \<Rightarrow> minted | Some i \<Rightarrow> i)
      in bind_r (render isofmt e detail (Some error_id) minted now) (\<lambda>status. Inr (sent status)))"

definition abort_with_bug :: "string \<Rightarrow> rpc_failure" where
  "abort_with_bug minted = \<lparr>rf_code = ''INTERNAL'', rf_details = INTERNAL_MESSAGE_PREFIX @ minted, rf_status = None\<rparr>"

section \<open>The boundary\<close>

datatype escaped = RaisedTyped tj_error string | RaisedOther

definition abort_for :: "(instant \<Rightarrow> string) \<Rightarrow> escaped \<Rightarrow> string \<Rightarrow> instant \<Rightarrow> build_error + rpc_failure" where
  "abort_for isofmt exc minted now =
     (case exc of
        RaisedTyped e detail \<Rightarrow>
          if sp_grpc (row_of (te_reason e)) \<noteq> None then abort_with_error isofmt e detail minted now
          else Inr (abort_with_bug minted)
      | RaisedOther \<Rightarrow> Inr (abort_with_bug minted))"

section \<open>Reading it back\<close>

fun drop_prefix :: "string \<Rightarrow> string \<Rightarrow> string option" where
  "drop_prefix [] s = Some s"
| "drop_prefix (c # p) [] = None"
| "drop_prefix (c # p) (d # s) = (if c = d then drop_prefix p s else None)"

definition bug_error_id :: "string \<Rightarrow> string option" where
  "bug_error_id detail =
     (case drop_prefix INTERNAL_MESSAGE_PREFIX detail of
        None \<Rightarrow> None
      | Some rest \<Rightarrow> let i = strip rest in if i = [] then None else Some i)"

definition known_reason :: "string \<Rightarrow> reason option" where
  "known_reason s = find (\<lambda>r. reason_name r = s) Reason"

definition peer_error :: "reason \<Rightarrow> tj_error" where
  "peer_error r = \<lparr>te_class = ExogenousError, te_reason = r, te_metadata = [], te_reset_at = None\<rparr>"

text \<open>\<open>written\<close> tests truthiness, so an empty \<open>reset_at\<close> is none.\<close>

definition rebuilt ::
  "(string \<Rightarrow> stamp option) \<Rightarrow> reason \<Rightarrow> error_info \<Rightarrow> int option \<Rightarrow> instant \<Rightarrow> build_error + tj_error" where
  "rebuilt parse r info retry now =
     (let branch = sp_branch (row_of r);
          m = map (\<lambda>(k, v). (k, Text v)) (filter (\<lambda>(k, v). k \<notin> set DERIVED_METADATA_KEYS) (ei_metadata info));
          written = (case map_of (ei_metadata info) RESET_AT_KEY of None \<Rightarrow> [] | Some w \<Rightarrow> w)
      in if written \<noteq> []
         then (case parse written of None \<Rightarrow> Inl ValueError | Some t \<Rightarrow> build_tj_error branch r m (Some t))
         else case retry of
                Some seconds \<Rightarrow> from_retry_after branch r (seconds * second) m now
              | None \<Rightarrow> build_tj_error branch r m None)"

definition read_status ::
  "(string \<Rightarrow> stamp option) \<Rightarrow> instant \<Rightarrow> rich_status option \<Rightarrow> tj_error" where
  "read_status parse now status =
     (case status of
        None \<Rightarrow> peer_error PEER_PROTOCOL_ERROR
      | Some s \<Rightarrow> (case st_info s of
          None \<Rightarrow> peer_error PEER_PROTOCOL_ERROR
        | Some info \<Rightarrow>
            if ei_domain info \<noteq> ERROR_DOMAIN then peer_error PEER_PROTOCOL_ERROR
            else (case known_reason (ei_reason info) of
                    None \<Rightarrow> peer_error PEER_PROTOCOL_ERROR
                  | Some r \<Rightarrow> (case rebuilt parse r info (st_retry s) now of
                                Inl e \<Rightarrow> peer_error PEER_PROTOCOL_ERROR
                              | Inr e \<Rightarrow> e))))"

definition from_rpc_error :: "(string \<Rightarrow> stamp option) \<Rightarrow> instant \<Rightarrow> rpc_failure \<Rightarrow> tj_error" where
  "from_rpc_error parse now f =
     (if rf_code f = ''UNAVAILABLE'' then peer_error PEER_UNAVAILABLE
      else if rf_code f = ''DEADLINE_EXCEEDED'' then peer_error DEADLINE
      else if rf_code f = ''INTERNAL''
      then (peer_error PEER_INTERNAL)\<lparr>te_metadata :=
             (case bug_error_id (rf_details f) of None \<Rightarrow> [] | Some i \<Rightarrow> [(ERROR_ID_KEY, Text i)])\<rparr>
      else read_status parse now (rf_status f))"

section \<open>The metadata\<close>

lemma dict_set_keys: "fst ` set (dict_set k v kvs) = insert k (fst ` set kvs)"
  by (induction k v kvs rule: dict_set.induct) auto

lemma map_of_dict_set: "map_of (dict_set k v kvs) x = (if x = k then Some v else map_of kvs x)"
  by (induction k v kvs rule: dict_set.induct) auto

lemma filter_dict_set: "\<not> P (k, v) \<Longrightarrow> (\<And>v. \<not> P (k, v)) \<Longrightarrow> filter P (dict_set k v kvs) = filter P kvs"
  by (induction k v kvs rule: dict_set.induct) auto

lemma map_of_wire: "map_of (map (\<lambda>(k, v). (k, f v)) m) x = map_option f (map_of m x)"
  by (induction m) auto

lemma drop_prefix_append [simp]: "drop_prefix p (p @ s) = Some s"
  by (induction p) auto

lemma known_reason_name [simp]: "known_reason (reason_name r) = Some r"
  by (cases r) (simp_all add: known_reason_def Reason_def)

abbreviation key_ok :: "string \<Rightarrow> bool" where
  "key_ok k \<equiv> k \<in> set METADATA_KEYS \<and> k \<notin> set DERIVED_METADATA_KEYS"

lemma checked_metadata_iff:
  "checked_metadata m = (if \<forall>k \<in> fst ` set m. key_ok k then Inr m else Inl ValueError)"
proof -
  have "checked_metadata m = (if list_all (\<lambda>(k, v). key_ok k) m then Inr m else Inl ValueError)"
    by (induction m) (auto split: if_splits)
  also have "list_all (\<lambda>(k, v). key_ok k) m \<longleftrightarrow> (\<forall>k \<in> fst ` set m. key_ok k)"
    by (induction m) auto
  finally show ?thesis .
qed

lemma keys_map_snd [simp]: "fst ` set (map (\<lambda>(k, v). (k, f v)) m) = fst ` set m"
  by (induction m) auto

lemma renderable_code:
  "sp_grpc (row_of r) = Some c \<Longrightarrow> c \<noteq> ''UNAVAILABLE'' \<and> c \<noteq> ''DEADLINE_EXCEEDED'' \<and> c \<noteq> ''INTERNAL''"
  by (cases r) (auto simp: row_of_def REASONS_def)

lemma join_with_nil: "sep \<noteq> [] \<Longrightarrow> join_with sep ss = [] \<Longrightarrow> list_all (\<lambda>s. s = []) ss"
  by (induction sep ss rule: join_with.induct) auto

lemma own_error_id_wire:
  "own_error_id e = Some i \<Longrightarrow> i \<noteq> [] \<and> map_option wire_value (map_of (te_metadata e) ERROR_ID_KEY) = Some i"
  using join_with_nil [of "'',''"]
  by (auto simp: own_error_id_def ERROR_ID_KEY_def split: option.splits meta_value.splits if_splits)

lemma own_error_id_text:
  "map_of (te_metadata e) ERROR_ID_KEY = Some (Text i) \<Longrightarrow> i \<noteq> [] \<Longrightarrow> own_error_id e = Some i"
  by (simp add: own_error_id_def ERROR_ID_KEY_def)

lemma wire_metadata_keys:
  "fst ` set (wire_metadata e x y) \<subseteq> insert ERROR_ID_KEY (fst ` set (te_metadata e))"
  by (simp add: wire_metadata_def Let_def dict_set_keys subset_insertI del: set_map)

definition settled_id :: "tj_error \<Rightarrow> string option \<Rightarrow> string \<Rightarrow> string" where
  "settled_id e error_id minted =
     (case own_error_id e of Some i \<Rightarrow> i
      | None \<Rightarrow> (case error_id of None \<Rightarrow> minted | Some i \<Rightarrow> if i = [] then minted else i))"

lemma wire_metadata_map:
  "map_of (wire_metadata e x y) k =
     (if k = ERROR_ID_KEY then Some (settled_id e x y) else map_option wire_value (map_of (te_metadata e) k))"
  using own_error_id_wire [of e]
  by (auto simp: wire_metadata_def Let_def map_of_dict_set map_of_wire settled_id_def split: option.splits)

text \<open>What the other side rebuilds from a rendered status.\<close>

lemma rebuilt_rendered:
  assumes ok: "tj_error_ok e" and fmt: "\<And>t. isofmt t \<noteq> [] \<and> parse (isofmt t) = Some (Aware t)"
    and s: "render isofmt e detail x minted now = Inr s"
  shows "from_rpc_error parse now' (sent s) = e\<lparr>te_metadata := map (\<lambda>(k, v). (k, Text v)) (wire_metadata e x minted)\<rparr>"
    and "st_message s = detail"
proof -
  let ?m = "wire_metadata e x minted"
  let ?m' = "case te_reset_at e of None \<Rightarrow> ?m | Some t \<Rightarrow> dict_set RESET_AT_KEY (isofmt t) ?m"
  let ?info = "\<lparr>ei_reason = reason_name (te_reason e), ei_domain = ERROR_DOMAIN, ei_metadata = ?m'\<rparr>"
  from s obtain code where code: "sp_grpc (row_of (te_reason e)) = Some code"
    and s: "s = \<lparr>st_code = code, st_message = detail, st_info = Some ?info, st_retry = retry_after e now\<rparr>"
    by (auto simp: render_def Let_def split: option.splits if_splits)
  have keys: "key_ok k" if "k \<in> fst ` set ?m" for k
  proof -
    have "k = ERROR_ID_KEY \<or> k \<in> fst ` set (te_metadata e)" using that wire_metadata_keys by blast
    then show ?thesis
      using ok by (auto simp: tj_error_ok_def ERROR_ID_KEY_def METADATA_KEYS_def DERIVED_METADATA_KEYS_def)
  qed
  have kept: "filter (\<lambda>(k, v). k \<notin> set DERIVED_METADATA_KEYS) ?m' = ?m"
  proof -
    have "filter (\<lambda>(k, v). k \<notin> set DERIVED_METADATA_KEYS) ?m = ?m"
      using keys by (intro filter_True) force
    then show ?thesis
      by (simp add: filter_dict_set RESET_AT_KEY_def DERIVED_METADATA_KEYS_def split: option.split)
  qed
  have checked: "checked_metadata (map (\<lambda>(k, v). (k, Text v)) ?m) = Inr (map (\<lambda>(k, v). (k, Text v)) ?m)"
    unfolding checked_metadata_iff keys_map_snd by (rule if_P) (use keys in blast)
  have branch: "te_class e = sp_branch (row_of (te_reason e))" "sp_branch (row_of r) \<noteq> TraderJoeError" for r
    using ok spec_ok_REASONS [of r] by (auto simp: tj_error_ok_def spec_ok_def)
  have "rebuilt parse (te_reason e) ?info (retry_after e now) now' =
      Inr (e\<lparr>te_metadata := map (\<lambda>(k, v). (k, Text v)) ?m\<rparr>)"
  proof (cases "te_reset_at e")
    case None
    have "RESET_AT_KEY \<notin> fst ` set ?m"
      using keys by (auto simp: RESET_AT_KEY_def DERIVED_METADATA_KEYS_def)
    then have "map_of ?m RESET_AT_KEY = None" by (simp add: map_of_eq_None_iff)
    moreover have "retry_after e now = None" using None by (simp add: retry_after_def)
    moreover have "\<not> sp_requires_reset_at (row_of (te_reason e))" using ok None by (auto simp: tj_error_ok_def)
    ultimately show ?thesis
      using None kept checked branch
      by (simp add: rebuilt_def Let_def build_tj_error_def checked_reset_at_def del: map_of_eq_None_iff)
  next
    case (Some t)
    have "map_of ?m' RESET_AT_KEY = Some (isofmt t)" using Some by (simp add: map_of_dict_set)
    moreover have "sp_outcome (row_of (te_reason e)) \<noteq> REFUSED" using ok Some by (auto simp: tj_error_ok_def refused_def)
    ultimately show ?thesis
      using Some kept checked branch fmt [of t]
      by (simp add: rebuilt_def Let_def build_tj_error_def checked_reset_at_def)
  qed
  then show "from_rpc_error parse now' (sent s) = e\<lparr>te_metadata := map (\<lambda>(k, v). (k, Text v)) ?m\<rparr>"
    using renderable_code [OF code] by (simp add: from_rpc_error_def sent_def read_status_def s)
  show "st_message s = detail" by (simp add: s)
qed

section \<open>Properties\<close>

lemma settled_own_id:
  assumes "minted \<noteq> []"
  shows "own_error_id (e\<lparr>te_metadata := map (\<lambda>(k, v). (k, Text v)) (wire_metadata e x minted)\<rparr>) = Some (settled_id e x minted)"
proof -
  have "settled_id e x minted \<noteq> []"
    using assms own_error_id_wire [of e] by (auto simp: settled_id_def split: option.split)
  then show ?thesis
    by (intro own_error_id_text) (simp_all add: map_of_wire wire_metadata_map)
qed

lemma round_trip:
  assumes "tj_error_ok e" and "\<forall>t. isofmt t \<noteq> [] \<and> parse (isofmt t) = Some (Aware t)" and "minted \<noteq> []"
    and "render isofmt e detail error_id minted now = Inr s"
  shows "let e' = from_rpc_error parse later (sent s)
    in te_reason e' = te_reason e \<and> te_class e' = te_class e \<and> te_reset_at e' = te_reset_at e \<and> rf_details (sent s) = detail
     \<and> own_error_id e' = Some (settled_id e error_id minted)
     \<and> (\<forall>k. k \<noteq> ''error_id'' \<longrightarrow> map_of (te_metadata e') k = map_option (Text \<circ> wire_value) (map_of (te_metadata e) k))"
proof -
  let ?e' = "e\<lparr>te_metadata := map (\<lambda>(k, v). (k, Text v)) (wire_metadata e error_id minted)\<rparr>"
  have e': "from_rpc_error parse later (sent s) = ?e'" "st_message s = detail"
    using rebuilt_rendered [OF assms(1) _ assms(4)] assms(2) by blast+
  have "map_of (te_metadata ?e') k = map_option (Text \<circ> wire_value) (map_of (te_metadata e) k)" if "k \<noteq> ''error_id''" for k
    using that by (simp add: map_of_wire wire_metadata_map ERROR_ID_KEY_def option.map_comp)
  then show ?thesis unfolding e' Let_def using e'(2) settled_own_id [OF assms(3)] by (simp add: sent_def)
qed


definition unary :: "int \<Rightarrow> string" where
  "unary t = (if t < 0 then CHR ''-'' else CHR ''+'') # replicate (nat \<bar>t\<bar>) CHR ''I''"

definition read_unary :: "string \<Rightarrow> stamp option" where
  "read_unary s = (case s of [] \<Rightarrow> None | c # cs \<Rightarrow> Some (Aware (if c = CHR ''-'' then - int (length cs) else int (length cs))))"

lemma read_unary: "unary t \<noteq> [] \<and> read_unary (unary t) = Some (Aware t)"
  by (simp add: unary_def read_unary_def)

definition sample_error :: tj_error where
  "sample_error = \<lparr>te_class = ExogenousError, te_reason = RATE_BUDGET, te_metadata = [(''vendor'', Text ''alpaca'')],
     te_reset_at = Some 5\<rparr>"


text \<open>The servicer boundary is total: every exception a servicer lets escape becomes a reply, none
  of them \<open>UNAVAILABLE\<close>, and the caller reads back either the typed reason that was raised or, for
  everything else, a peer-internal failure, in both cases with the id under which the peer logged it.\<close>

theorem boundary_answers_everything:
  assumes "\<forall>t. isofmt t \<noteq> [] \<and> parse (isofmt t) = Some (Aware t)" and "minted \<noteq> []" and "strip minted = minted"
    and "\<forall>e detail. exc = RaisedTyped e detail \<longrightarrow> tj_error_ok e"
  shows "\<exists>f. abort_for isofmt exc minted now = Inr f \<and> rf_code f \<noteq> ''UNAVAILABLE''
    \<and> (case exc of
         RaisedTyped e detail \<Rightarrow>
           if sp_grpc (row_of (te_reason e)) \<noteq> None
           then te_reason (from_rpc_error parse later f) = te_reason e
              \<and> own_error_id (from_rpc_error parse later f) = Some (case own_error_id e of None \<Rightarrow> minted | Some i \<Rightarrow> i)
           else te_reason (from_rpc_error parse later f) = PEER_INTERNAL \<and> own_error_id (from_rpc_error parse later f) = Some minted
       | RaisedOther \<Rightarrow> te_reason (from_rpc_error parse later f) = PEER_INTERNAL
              \<and> own_error_id (from_rpc_error parse later f) = Some minted)"
proof -
  let ?bug = "abort_with_bug minted"
  have bug: "te_reason (from_rpc_error parse later ?bug) = PEER_INTERNAL"
    "own_error_id (from_rpc_error parse later ?bug) = Some minted" "rf_code ?bug \<noteq> ''UNAVAILABLE''"
    using assms(2,3) by (simp_all add: abort_with_bug_def from_rpc_error_def peer_error_def bug_error_id_def
        own_error_id_def ERROR_ID_KEY_def)
  show ?thesis
  proof (cases exc)
    case RaisedOther
    then show ?thesis using bug by (simp add: abort_for_def)
  next
    case (RaisedTyped e detail)
    show ?thesis
    proof (cases "sp_grpc (row_of (te_reason e))")
      case None
      then show ?thesis using RaisedTyped bug by (simp add: abort_for_def)
    next
      case (Some code)
      let ?id = "case own_error_id e of None \<Rightarrow> minted | Some i \<Rightarrow> i"
      obtain s where s: "render isofmt e detail (Some ?id) minted now = Inr s" "st_code s = code"
        using Some renderable_code [OF Some] by (simp add: render_def Let_def)
      have "tj_error_ok e" using assms(4) RaisedTyped by simp
      note round = round_trip [OF this assms(1,2) s(1), of later]
      have "settled_id e (Some ?id) minted = ?id"
        using assms(2) by (simp add: settled_id_def split: option.split)
      then show ?thesis
        using RaisedTyped Some s round renderable_code [OF Some]
        by (auto simp: abort_for_def abort_with_error_def Let_def sent_def)
    qed
  qed
qed

theorem boundary_answers_everything_witness:
  "\<exists>f. abort_for unary RaisedOther ''id-1'' 3 = Inr f \<and> te_reason (from_rpc_error read_unary 4 f) = PEER_INTERNAL"
  using boundary_answers_everything [of unary read_unary "''id-1''" RaisedOther 3 4] read_unary
  by (auto simp: strip_def white_def)

end
