(* ===== verification/Store_Tables.thy ===== *)
theory Store_Tables
  imports Market_Enums Vocabulary
begin

text \<open>
  The store's database as the code under \<open>server/data/store/app/database\<close> uses it: the tables
  (\<open>models/\<close>), Postgres' \<open>INSERT ... ON CONFLICT DO UPDATE\<close> on a unique key, and the
  transaction boundary (\<open>transaction.py\<close>). A table is the list of its rows; a UUID is a natural
  number and \<open>gen_random_uuid()\<close> an argument; \<open>func.now()\<close> is the field \<open>db_now\<close>.
\<close>

section \<open>Insert or update on a unique key\<close>

definition upsert_row :: "('r \<Rightarrow> 'k) \<Rightarrow> ('r \<Rightarrow> 'r) \<Rightarrow> 'r \<Rightarrow> 'r list \<Rightarrow> 'r list" where
  "upsert_row key upd row rows =
     (if list_ex (\<lambda>r. key r = key row) rows
      then map (\<lambda>r. if key r = key row then upd r else r) rows
      else rows @ [row])"

text \<open>What a table with a unique key promises: \<open>key\<close> identifies a row and an update never moves it.\<close>

locale unique_table =
  fixes key :: "'r \<Rightarrow> 'k" and upd :: "'r \<Rightarrow> 'r \<Rightarrow> 'r"
  assumes key_upd: "key r = key row \<Longrightarrow> key (upd row r) = key r"
begin

abbreviation unique :: "'r list \<Rightarrow> bool" where
  "unique rows \<equiv> distinct (map key rows)"

abbreviation upsert :: "'r \<Rightarrow> 'r list \<Rightarrow> 'r list" where
  "upsert row \<equiv> upsert_row key (upd row) row"

lemma has_key: "list_ex (\<lambda>r. key r = k) rows \<longleftrightarrow> k \<in> key ` set rows"
  by (induction rows) auto

lemma upsert_new: "key row \<notin> key ` set rows \<Longrightarrow> upsert row rows = rows @ [row]"
  by (simp add: upsert_row_def has_key)

lemma upsert_old: "key row \<in> key ` set rows \<Longrightarrow>
    upsert row rows = map (\<lambda>r. if key r = key row then upd row r else r) rows"
  by (simp add: upsert_row_def has_key)

lemma map_key_updated: "map key (map (\<lambda>r. if key r = key row then upd row r else r) rows) = map key rows"
  by (simp add: key_upd)

lemma map_key_old: "key row \<in> key ` set rows \<Longrightarrow> map key (upsert row rows) = map key rows"
  by (simp only: upsert_old map_key_updated)

lemma unique_upsert: "unique rows \<Longrightarrow> unique (upsert row rows)"
  by (cases "key row \<in> key ` set rows") (simp only: map_key_old, simp add: upsert_new)

lemma keys_upsert: "key ` set (upsert row rows) = insert (key row) (key ` set rows)"
proof (cases "key row \<in> key ` set rows")
  case True
  then have "key ` set (upsert row rows) = key ` set rows"
    using map_key_old [OF True] by (metis list.set_map)
  then show ?thesis using True by (simp add: insert_absorb)
qed (simp add: upsert_new)

lemma length_upsert: "length (upsert row rows) = length rows + (if key row \<in> key ` set rows then 0 else 1)"
  by (cases "key row \<in> key ` set rows") (simp_all add: upsert_old upsert_new)

lemma find_key: "unique rows \<Longrightarrow> r \<in> set rows \<Longrightarrow> find (\<lambda>r'. key r' = key r) rows = Some r"
proof (induction rows)
  case (Cons x xs)
  show ?case
  proof (cases "key x = key r")
    case True
    then have "x = r" using Cons.prems by (auto simp: image_iff)
    then show ?thesis by simp
  qed (use Cons in auto)
qed simp

lemma find_absent: "k \<notin> key ` set rows \<Longrightarrow> find (\<lambda>r. key r = k) rows = None"
  by (induction rows) auto

lemma upsert_other: "key r \<noteq> key row \<Longrightarrow> r \<in> set (upsert row rows) \<longleftrightarrow> r \<in> set rows"
  using key_upd [of _ row] by (cases "key row \<in> key ` set rows") (auto simp: upsert_old upsert_new image_def)

lemma upsert_present:
  assumes u: "unique rows" and r: "r \<in> set rows" "key r = key row"
  shows "upd row r \<in> set (upsert row rows)" and "key (upd row r) = key row"
proof -
  have "key row \<in> key ` set rows" using r by (metis image_eqI)
  then show "upd row r \<in> set (upsert row rows)" using r by (force simp: upsert_old)
  show "key (upd row r) = key row" using key_upd r(2) by simp
qed

lemma find_upsert:
  assumes "unique rows"
  shows "find (\<lambda>r. key r = key row) (upsert row rows) =
    Some (case find (\<lambda>r. key r = key row) rows of None \<Rightarrow> row | Some r \<Rightarrow> upd row r)"
proof (cases "find (\<lambda>r. key r = key row) rows")
  case None
  then have no: "key row \<notin> key ` set rows" by (auto simp: find_None_iff)
  then have "row \<in> set (upsert row rows)" by (simp add: upsert_new)
  then show ?thesis using None find_key [OF unique_upsert [OF assms]] by simp
next
  case (Some r)
  then have r: "r \<in> set rows" "key r = key row" by (auto simp: find_Some_iff)
  note p = upsert_present [OF assms r]
  show ?thesis using Some find_key [OF unique_upsert [OF assms] p(1)] p(2) by simp
qed

lemma find_upsert_other:
  assumes "unique rows" and "k \<noteq> key row"
  shows "find (\<lambda>r. key r = k) (upsert row rows) = find (\<lambda>r. key r = k) rows"
proof (cases "find (\<lambda>r. key r = k) rows")
  case None
  then have "k \<notin> key ` set (upsert row rows)" using assms(2) unfolding keys_upsert by (auto simp: find_None_iff)
  then show ?thesis using None find_absent by simp
next
  case (Some r)
  then have r: "r \<in> set rows" "key r = k" by (auto simp: find_Some_iff)
  then have "r \<in> set (upsert row rows)" using assms(2) upsert_other by blast
  then show ?thesis using Some r(2) find_key [OF unique_upsert [OF assms(1)]] by metis
qed

text \<open>Many rows, one after the other.\<close>

abbreviation upserts :: "'r list \<Rightarrow> 'r list \<Rightarrow> 'r list" where
  "upserts \<equiv> fold upsert"

lemma unique_upserts: "unique rows \<Longrightarrow> unique (upserts new rows)"
  by (induction new arbitrary: rows) (simp_all add: unique_upsert)

lemma keys_upserts: "key ` set (upserts new rows) = key ` set new \<union> key ` set rows"
  by (induction new arbitrary: rows) (auto simp: keys_upsert)

lemma find_upserts_other: "unique rows \<Longrightarrow> k \<notin> key ` set new \<Longrightarrow>
    find (\<lambda>r. key r = k) (upserts new rows) = find (\<lambda>r. key r = k) rows"
  by (induction new arbitrary: rows) (auto simp: unique_upsert find_upsert_other)

lemma find_upserts:
  assumes "unique rows" and "unique new" and "row \<in> set new"
  shows "find (\<lambda>r. key r = key row) (upserts new rows) =
    Some (case find (\<lambda>r. key r = key row) rows of None \<Rightarrow> row | Some r \<Rightarrow> upd row r)"
  using assms
proof (induction new arbitrary: rows)
  case (Cons x xs)
  show ?case
  proof (cases "x = row")
    case True
    then have "key row \<notin> key ` set xs" using Cons.prems(2) by auto
    then show ?thesis
      using True Cons.prems(1) find_upserts_other [OF unique_upsert [OF Cons.prems(1)]] find_upsert by simp
  next
    case False
    then have row: "row \<in> set xs" using Cons.prems(3) by simp
    then have "key row \<noteq> key x" using Cons.prems(2) by (metis distinct.simps(2) imageI list.simps(9) list.set_map)
    then show ?thesis
      using Cons.IH [OF unique_upsert [OF Cons.prems(1)] _ row] Cons.prems(1,2) find_upsert_other by simp
  qed
qed simp

lemma mem_find: "unique rows \<Longrightarrow> r \<in> set rows \<longleftrightarrow> find (\<lambda>r'. key r' = key r) rows = Some r"
  using find_key by (auto simp: find_Some_iff)

lemma upsert_fixed:
  assumes "unique rows" and "find (\<lambda>r. key r = key row) rows = Some r" and "upd row r = r"
  shows "upsert row rows = rows"
proof -
  have r: "r \<in> set rows" "key r = key row" using assms(2) by (auto simp: find_Some_iff)
  have "(if key x = key row then upd row x else x) = x" if "x \<in> set rows" for x
    using that r assms by (metis mem_find option.inject)
  moreover have "key row \<in> key ` set rows" using r by (metis image_eqI)
  ultimately show ?thesis by (simp add: upsert_old map_idI)
qed

end

text \<open>A table whose update writes the same columns whatever row it meets: a second write changes nothing.\<close>

locale refreshing_table = unique_table +
  assumes upd_again: "upd row (upd row r) = upd row r"
    and upd_self: "upd row row = row"
begin

lemma upsert_again: "unique rows \<Longrightarrow> upsert row (upsert row rows) = upsert row rows"
  by (rule upsert_fixed [OF unique_upsert find_upsert]) (auto simp: upd_again upd_self split: option.split)

lemma upserts_again:
  assumes u: "unique rows" and n: "unique new"
  shows "upserts new (upserts new rows) = upserts new rows"
proof -
  let ?T = "upserts new rows"
  have fixed: "upsert row ?T = ?T" if "row \<in> set new" for row
    by (rule upsert_fixed [OF unique_upserts [OF u] find_upserts [OF u n that]])
      (auto simp: upd_again upd_self split: option.split)
  have "upserts xs ?T = ?T" if "set xs \<subseteq> set new" for xs
    using that by (induction xs) (auto simp: fixed)
  then show ?thesis by blast
qed

end

section \<open>The tables\<close>

type_synonym uuid = nat

definition EPOCH :: instant where
  "EPOCH = 0"

text \<open>\<open>NullableDateTime\<close>: an open end is stored as \<open>EPOCH\<close>.\<close>

definition to_model_type :: "instant option \<Rightarrow> instant" where
  "to_model_type v = (case v of None \<Rightarrow> EPOCH | Some t \<Rightarrow> t)"

definition to_schema_type :: "instant \<Rightarrow> instant option" where
  "to_schema_type v = (if v = EPOCH then None else Some v)"

text \<open>The sentinel is an instant like any other: it is the only declared end that does not come back.\<close>

lemma open_end_round_trip: "to_schema_type (to_model_type v) = v \<longleftrightarrow> v \<noteq> Some EPOCH"
  by (cases v) (auto simp: to_schema_type_def to_model_type_def)

text \<open>\<open>StoreDatasetEntry\<close>\<close>

record entry =
  e_id :: uuid
  e_owner :: string
  e_symbol :: string
  e_source :: data_source
  e_granularity :: granularity
  e_asset_type :: asset_type
  e_data_type :: data_type
  e_expiry_type :: expiry_type
  e_update_type :: update_type
  e_feed :: feed
  e_start :: instant
  e_end :: instant
  e_expiry :: "instant option"
  e_collect :: "bool option"
  e_created_at :: instant
  e_updated_at :: instant

text \<open>\<open>StockMarketActivity\<close>; its six values are one field, prices being opaque to the store.\<close>

record ohlcv =
  o_open :: rat
  o_high :: rat
  o_low :: rat
  o_close :: rat
  o_volume :: int
  o_trade_count :: int

record bar =
  b_dataset :: uuid
  b_symbol :: string
  b_source :: data_source
  b_feed :: feed
  b_granularity :: granularity
  b_timestamp :: instant
  b_data :: ohlcv
  b_created_at :: instant
  b_updated_at :: instant

datatype override_action = SET_EXPIRY | SET_COLLECTING | DELETE

record override_row =
  ov_actor :: string
  ov_dataset :: uuid
  ov_owner :: string
  ov_action :: override_action
  ov_reason :: string
  ov_at :: instant

datatype deletion_cause = CAUSE_OPERATOR | CAUSE_REAPER

record deletion_row =
  de_dataset :: uuid
  de_owner :: string
  de_symbol :: string
  de_source :: data_source
  de_granularity :: granularity
  de_update_type :: update_type
  de_start :: instant
  de_end :: "instant option"
  de_bars :: nat
  de_cause :: deletion_cause
  de_actor :: string
  de_at :: instant

datatype run_trigger = REQUEST | SCHEDULE | RETRY
datatype run_state = RUNNING | SUCCEEDED | EMPTY | FAILED

record run_failure =
  f_domain :: "string option"
  f_reason :: "string option"
  f_message :: string
  f_error_id :: "string option"

record new_run =
  n_trigger :: run_trigger
  n_actor :: string
  n_symbol :: string
  n_asset_type :: asset_type
  n_data_type :: data_type
  n_source :: data_source
  n_granularity :: granularity
  n_update_type :: update_type
  n_start :: "instant option"
  n_end :: "instant option"
  n_request :: "uuid option"

record run_row =
  r_id :: uuid
  r_label :: new_run
  r_dataset :: "uuid option"
  r_feed :: "feed option"
  r_state :: run_state
  r_bars :: nat
  r_error_domain :: "string option"
  r_error_reason :: "string option"
  r_error_message :: "string option"
  r_error_id :: "string option"
  r_started_at :: instant
  r_finished_at :: "instant option"

record db =
  entries :: "entry list"
  bars :: "bar list"
  overrides :: "override_row list"
  deletions :: "deletion_row list"
  ingest_runs :: "run_row list"
  audit_tables :: bool
  db_now :: instant

definition natural_key ::
  "entry \<Rightarrow> string \<times> data_source \<times> granularity \<times> asset_type \<times> data_type \<times> string \<times> expiry_type \<times> update_type \<times>
   feed \<times> instant \<times> instant" where
  "natural_key e = (e_symbol e, e_source e, e_granularity e, e_asset_type e, e_data_type e, e_owner e,
     e_expiry_type e, e_update_type e, e_feed e, e_start e, e_end e)"

definition bar_key :: "bar \<Rightarrow> uuid \<times> string \<times> data_source \<times> feed \<times> granularity \<times> instant" where
  "bar_key b = (b_dataset b, b_symbol b, b_source b, b_feed b, b_granularity b, b_timestamp b)"

text \<open>\<open>ck_store_dataset_entry_collect_by_type\<close>\<close>

definition collect_by_type :: "entry \<Rightarrow> bool" where
  "collect_by_type e \<longleftrightarrow> (if e_update_type e = STATIC then e_collect e = None else e_collect e \<noteq> None)"

text \<open>The constraints of the schema: the primary and unique keys, the check, and the foreign key.\<close>

definition entries_ok :: "entry list \<Rightarrow> bool" where
  "entries_ok es \<longleftrightarrow> distinct (map e_id es) \<and> distinct (map natural_key es) \<and> list_all collect_by_type es"

definition db_ok :: "db \<Rightarrow> bool" where
  "db_ok d \<longleftrightarrow>
     entries_ok (entries d) \<and>
     distinct (map bar_key (bars d)) \<and> list_all (\<lambda>b. b_dataset b \<in> set (map e_id (entries d))) (bars d) \<and>
     distinct (map r_id (ingest_runs d))"

lemma db_ok_entries: "db_ok d \<Longrightarrow> entries_ok (entries d)"
  by (simp add: db_ok_def)

lemma db_ok_entriesI:
  assumes "db_ok d" and "entries_ok es" and "set (map e_id (entries d)) \<subseteq> set (map e_id es)"
  shows "db_ok (d\<lparr>entries := es\<rparr>)"
  using assms unfolding db_ok_def list_all_iff by auto

text \<open>A filter of a query: an absent one puts no constraint on its column.\<close>

definition filters :: "'a option \<Rightarrow> 'a \<Rightarrow> bool" where
  "filters v x \<longleftrightarrow> (case v of None \<Rightarrow> True | Some y \<Rightarrow> x = y)"

section \<open>The transaction boundary\<close>

datatype sql_class = OperationalError | InterfaceError | IntegrityError | OtherDBAPIError | NotDBAPIError

record sql_error =
  sql_class :: sql_class
  sqlstate :: "string option"
  connection_invalidated :: bool

definition CONFLICT_SQLSTATES :: "string list" where
  "CONFLICT_SQLSTATES = [''40001'', ''40P01'']"

definition is_dbapi :: "sql_error \<Rightarrow> bool" where
  "is_dbapi e \<longleftrightarrow> sql_class e \<noteq> NotDBAPIError"

definition reason_for :: "sql_error \<Rightarrow> reason option" where
  "reason_for e =
     (if is_dbapi e \<and> (case sqlstate e of None \<Rightarrow> False | Some s \<Rightarrow> s \<in> set CONFLICT_SQLSTATES)
      then Some DATABASE_CONFLICT
      else if sql_class e \<in> {OperationalError, InterfaceError} \<or> is_dbapi e \<and> connection_invalidated e
      then Some DATABASE_UNAVAILABLE
      else if sql_class e = IntegrityError then Some DATABASE_INTEGRITY
      else None)"

text \<open>What a write of this layer raises; a fetch adds the error of its stream, a page that does not validate
  as a batch, and the refresh's own refusal.\<close>

datatype store_error =
  EntryNotFound uuid
| OwnerMismatch uuid
| OwnOverlapConflict "uuid list"
| RangeShrink uuid
| RangeCollision uuid
| OverrideRequired
| AuditUnavailable
| StaticHasNoCollect
| DuplicateBatchTimestamp stamp
| FetchFailed tj_error
| InvalidPage
| DatasetRetiredDuringFetch
| DatabaseFailure reason
| DatabaseBug sql_error

datatype 'a block = Returns 'a db | Raises store_error | Fails sql_error

text \<open>
  \<open>write_transaction\<close>: \<open>body\<close> is the block, run on the session's view \<open>d\<close>; \<open>fault\<close> is an error of the
  commit. \<open>kept\<close> is the database a rollback leaves: what the other transactions have committed.
\<close>

fun sql_failure :: "sql_error \<Rightarrow> store_error" where
  "sql_failure e = (case reason_for e of None \<Rightarrow> DatabaseBug e | Some r \<Rightarrow> DatabaseFailure r)"

definition write_transaction :: "sql_error option \<Rightarrow> db \<Rightarrow> 'a block \<Rightarrow> (store_error + 'a) \<times> db" where
  "write_transaction fault kept body =
     (case body of
        Returns x d \<Rightarrow> (case fault of None \<Rightarrow> (Inr x, d) | Some e \<Rightarrow> (Inl (sql_failure e), kept))
      | Raises e \<Rightarrow> (Inl e, kept)
      | Fails e \<Rightarrow> (Inl (sql_failure e), kept))"

fun bind_b :: "'a block \<Rightarrow> ('a \<Rightarrow> db \<Rightarrow> 'b block) \<Rightarrow> 'b block" where
  "bind_b (Returns x d) f = f x d"
| "bind_b (Raises e) f = Raises e"
| "bind_b (Fails e) f = Fails e"

lemma bind_b_Returns_iff: "bind_b m f = Returns y d' \<longleftrightarrow> (\<exists>x d. m = Returns x d \<and> f x d = Returns y d')"
  by (cases m) auto

lemma write_transaction_Inr:
  "write_transaction fault kept body = (Inr x, d) \<longleftrightarrow> fault = None \<and> body = Returns x d"
  by (auto simp: write_transaction_def split: block.splits option.splits)

lemma write_transaction_Inl:
  "write_transaction fault kept body = (Inl e, d) \<Longrightarrow> d = kept"
  by (auto simp: write_transaction_def split: block.splits option.splits)

end
