(* ===== verification/Store_Entries.thy ===== *)
theory Store_Entries
  imports Store_Tables "HOL-Library.Sublist"
begin

text \<open>
  \<open>server/data/store/app/database/crud/stock/store_dataset_entry.py\<close>: the writes of dataset entries.
  A function that runs inside a caller's transaction is a \<open>block\<close> on the session's view of the
  database; one that opens its own takes \<open>fault\<close>, an error of its commit. Where the code reads a row
  and writes it in a later statement, \<open>other\<close> is what concurrent transactions commit in between.
\<close>

section \<open>The two keys\<close>

record overlap_key =
  k_owner :: string
  k_asset_type :: asset_type
  k_symbol :: string
  k_data_type :: data_type
  k_source :: data_source
  k_granularity :: granularity
  k_expiry_type :: expiry_type
  k_update_type :: update_type
  k_start :: instant
  k_end :: "instant option"

text \<open>\<open>AssetDatasetStoreCreate\<close>: the key extended by the expiry and the resolved tape.\<close>

record entry_create = overlap_key +
  c_expiry :: "instant option"
  c_feed :: feed

definition overlap_key_of :: "entry_create \<Rightarrow> overlap_key" where
  "overlap_key_of c = overlap_key.truncate c"

definition extend_key :: "overlap_key \<Rightarrow> instant option \<Rightarrow> feed \<Rightarrow> entry_create" where
  "extend_key k expiry feed = overlap_key.extend k (entry_create.fields expiry feed)"

text \<open>\<open>_equality_conditions\<close> with \<open>_OVERLAP_EQUALITY_COLUMNS\<close> and with \<open>_IDENTITY_EQUALITY_COLUMNS\<close>\<close>

definition overlap_equal :: "'a overlap_key_scheme \<Rightarrow> entry \<Rightarrow> bool" where
  "overlap_equal k e \<longleftrightarrow>
     e_owner e = k_owner k \<and> e_asset_type e = k_asset_type k \<and> e_symbol e = k_symbol k \<and>
     e_data_type e = k_data_type k \<and> e_source e = k_source k \<and> e_granularity e = k_granularity k \<and>
     e_expiry_type e = k_expiry_type k \<and> e_update_type e = k_update_type k"

definition identity_equal :: "entry \<Rightarrow> entry \<Rightarrow> bool" where
  "identity_equal a b \<longleftrightarrow>
     e_owner b = e_owner a \<and> e_asset_type b = e_asset_type a \<and> e_symbol b = e_symbol a \<and>
     e_data_type b = e_data_type a \<and> e_source b = e_source a \<and> e_granularity b = e_granularity a \<and>
     e_expiry_type b = e_expiry_type a \<and> e_update_type b = e_update_type a \<and> e_feed b = e_feed a"

section \<open>Reads and checks\<close>

definition find_own_overlap :: "db \<Rightarrow> 'a overlap_key_scheme \<Rightarrow> uuid list" where
  "find_own_overlap d k =
     (let new_start = k_start k; new_end = to_model_type (k_end k)
      in map e_id (filter (\<lambda>e.
           overlap_equal k e \<and>
           (e_end e = EPOCH \<or> e_end e > new_start) \<and>
           (new_end \<noteq> EPOCH \<longrightarrow> e_start e < new_end) \<and>
           \<not> (e_start e = new_start \<and> e_end e = new_end)) (entries d)))"

definition check_own_overlap :: "'a overlap_key_scheme \<Rightarrow> db \<Rightarrow> unit block" where
  "check_own_overlap k d =
     (let colliding_ids = find_own_overlap d k
      in if colliding_ids \<noteq> [] then Raises (OwnOverlapConflict colliding_ids) else Returns () d)"

definition find_exact_collision :: "db \<Rightarrow> entry \<Rightarrow> instant \<Rightarrow> instant \<Rightarrow> uuid option" where
  "find_exact_collision d existing new_start new_end =
     map_option e_id (find (\<lambda>e. identity_equal existing e \<and> e_id e \<noteq> e_id existing \<and>
       e_start e = new_start \<and> e_end e = new_end) (entries d))"

definition is_growth :: "instant \<Rightarrow> instant \<Rightarrow> instant \<Rightarrow> instant \<Rightarrow> bool" where
  "is_growth old_start old_end new_start new_end =
     (if new_start > old_start then False
      else if old_end = EPOCH then new_end = EPOCH
      else new_end = EPOCH \<or> new_end \<ge> old_end)"

definition get_entry :: "db \<Rightarrow> uuid \<Rightarrow> entry option" where
  "get_entry d i = find (\<lambda>e. e_id e = i) (entries d)"

definition get_entry_or_raise :: "uuid \<Rightarrow> db \<Rightarrow> entry block" where
  "get_entry_or_raise i d = (case get_entry d i of None \<Rightarrow> Raises (EntryNotFound i) | Some e \<Rightarrow> Returns e d)"

definition check_owner :: "entry \<Rightarrow> string option \<Rightarrow> db \<Rightarrow> unit block" where
  "check_owner existing declared_owner d =
     (if Some (e_owner existing) \<noteq> declared_owner then Raises (OwnerMismatch (e_id existing)) else Returns () d)"

text \<open>The row a create names: all eleven columns of the natural key.\<close>

definition names_row :: "entry_create \<Rightarrow> entry \<Rightarrow> bool" where
  "names_row c e \<longleftrightarrow>
     overlap_equal c e \<and> e_feed e = c_feed c \<and> e_start e = k_start c \<and> e_end e = to_model_type (k_end c)"

definition retired :: "entry \<Rightarrow> bool" where
  "retired e \<longleftrightarrow> e_collect e = Some False \<and> e_update_type e \<in> {DAILY, STREAM}"

definition lock_active_entry :: "entry_create \<Rightarrow> db \<Rightarrow> uuid option" where
  "lock_active_entry c d =
     (case find (names_row c) (entries d) of
        None \<Rightarrow> None
      | Some existing \<Rightarrow> if retired existing then None else Some (e_id existing))"

definition lock_stored_collect :: "entry_create \<Rightarrow> db \<Rightarrow> bool option" where
  "lock_stored_collect c d =
     (case find (names_row c) (entries d) of None \<Rightarrow> None | Some existing \<Rightarrow> e_collect existing)"

definition collect_change :: "bool option \<Rightarrow> bool option \<Rightarrow> bool option" where
  "collect_change before explicit =
     (if before = None \<or> explicit = None \<or> before = explicit then None else explicit)"

definition resolved_collect :: "update_type \<Rightarrow> bool option \<Rightarrow> bool option" where
  "resolved_collect u collect =
     (if u = STATIC then None else case collect of None \<Rightarrow> Some True | Some c \<Rightarrow> Some c)"

section \<open>Creating\<close>

definition row_of_create :: "uuid \<Rightarrow> instant \<Rightarrow> bool option \<Rightarrow> entry_create \<Rightarrow> entry" where
  "row_of_create i now collect c =
     \<lparr>e_id = i, e_owner = k_owner c, e_symbol = k_symbol c, e_source = k_source c,
      e_granularity = k_granularity c, e_asset_type = k_asset_type c, e_data_type = k_data_type c,
      e_expiry_type = k_expiry_type c, e_update_type = k_update_type c, e_feed = c_feed c,
      e_start = k_start c, e_end = to_model_type (k_end c), e_expiry = c_expiry c,
      e_collect = resolved_collect (k_update_type c) collect, e_created_at = now, e_updated_at = now\<rparr>"

text \<open>The \<open>DO UPDATE\<close> part: \<open>row\<close> is the row that was to be inserted.\<close>

definition on_conflict :: "bool \<Rightarrow> bool option \<Rightarrow> entry \<Rightarrow> entry \<Rightarrow> entry" where
  "on_conflict preserve_lifecycle collect row r =
     (if preserve_lifecycle then r\<lparr>e_updated_at := e_updated_at row\<rparr>
      else let r' = r\<lparr>e_expiry := e_expiry row, e_updated_at := e_updated_at row\<rparr>
           in if collect \<noteq> None \<and> e_collect row \<noteq> None then r'\<lparr>e_collect := e_collect row\<rparr> else r')"

definition upsert_entry_in_transaction ::
  "uuid \<Rightarrow> entry_create \<Rightarrow> bool \<Rightarrow> bool option \<Rightarrow> db \<Rightarrow> uuid block" where
  "upsert_entry_in_transaction new_id c preserve_lifecycle collect d =
     (let row = row_of_create new_id (db_now d) collect c;
          d' = d\<lparr>entries := upsert_row natural_key (on_conflict preserve_lifecycle collect row) row (entries d)\<rparr>
      in case find (\<lambda>e. natural_key e = natural_key row) (entries d') of
           None \<Rightarrow> Returns new_id d'
         | Some e \<Rightarrow> Returns (e_id e) d')"

definition upsert_entry ::
  "uuid \<Rightarrow> entry_create \<Rightarrow> bool option \<Rightarrow> sql_error option \<Rightarrow> (db \<Rightarrow> db) \<Rightarrow> db \<Rightarrow> (store_error + uuid) \<times> db" where
  "upsert_entry new_id c collect fault other d =
     write_transaction fault (other d)
       (bind_b (check_own_overlap (overlap_key_of c) d) (\<lambda>_ d.
          upsert_entry_in_transaction new_id c False collect (other d)))"

section \<open>Updating\<close>

text \<open>\<open>UPDATE ... WHERE id = i\<close>, and how many rows it touched\<close>

definition update_row :: "uuid \<Rightarrow> (entry \<Rightarrow> entry) \<Rightarrow> db \<Rightarrow> nat \<times> db" where
  "update_row i f d =
     (length (filter (\<lambda>e. e_id e = i) (entries d)),
      d\<lparr>entries := map (\<lambda>e. if e_id e = i then f e else e) (entries d)\<rparr>)"

definition update_entry ::
  "uuid \<Rightarrow> entry_create \<Rightarrow> sql_error option \<Rightarrow> (db \<Rightarrow> db) \<Rightarrow> db \<Rightarrow> (store_error + unit) \<times> db" where
  "update_entry i c fault other d =
     write_transaction fault (other d)
       (bind_b (get_entry_or_raise i d) (\<lambda>existing d.
        bind_b (check_owner existing (Some (k_owner c)) d) (\<lambda>_ d.
          let new_start = k_start c; new_end = to_model_type (k_end c)
          in if \<not> is_growth (e_start existing) (e_end existing) new_start new_end then Raises (RangeShrink i)
             else (case find_exact_collision d existing new_start new_end of
                     Some j \<Rightarrow> Raises (RangeCollision j)
                   | None \<Rightarrow>
                       let d' = snd (update_row i (\<lambda>e. e\<lparr>e_start := new_start, e_end := new_end,
                                  e_updated_at := db_now d\<rparr>) (other d))
                       in if distinct (map natural_key (entries d')) then Returns () d'
                          else Fails \<lparr>sql_class = IntegrityError, sqlstate = Some ''23505'', connection_invalidated = False\<rparr>))))"

definition update_entry_lifecycle ::
  "uuid \<Rightarrow> string \<Rightarrow> sql_error option \<Rightarrow> (db \<Rightarrow> db) \<Rightarrow> db \<Rightarrow> (store_error + unit) \<times> db" where
  "update_entry_lifecycle i owner fault other d =
     write_transaction fault (other d)
       (bind_b (get_entry_or_raise i d) (\<lambda>existing d.
        bind_b (check_owner existing (Some owner) d) (\<lambda>_ d.
          Returns () (snd (update_row i (\<lambda>e. e\<lparr>e_updated_at := db_now d\<rparr>) (other d))))))"

section \<open>Deleting\<close>

text \<open>\<open>DELETE ... WHERE id = i\<close>, the bars following by \<open>ON DELETE CASCADE\<close>\<close>

definition delete_entry_row :: "uuid \<Rightarrow> db \<Rightarrow> unit block" where
  "delete_entry_row i d =
     (if \<not> list_ex (\<lambda>e. e_id e = i) (entries d) then Raises (EntryNotFound i)
      else Returns () (d\<lparr>entries := filter (\<lambda>e. e_id e \<noteq> i) (entries d),
                        bars := filter (\<lambda>b. b_dataset b \<noteq> i) (bars d)\<rparr>))"

definition deletion_of :: "entry \<Rightarrow> nat \<Rightarrow> deletion_cause \<Rightarrow> string \<Rightarrow> instant \<Rightarrow> deletion_row" where
  "deletion_of e n cause actor now =
     \<lparr>de_dataset = e_id e, de_owner = e_owner e, de_symbol = e_symbol e, de_source = e_source e,
      de_granularity = e_granularity e, de_update_type = e_update_type e, de_start = e_start e,
      de_end = (if e_end e = EPOCH then None else Some (e_end e)), de_bars = n, de_cause = cause,
      de_actor = actor, de_at = now\<rparr>"

definition append_deletion :: "deletion_row \<Rightarrow> db \<Rightarrow> unit block" where
  "append_deletion row d = Returns () (d\<lparr>deletions := deletions d @ [row]\<rparr>)"

text \<open>The count and the delete are two statements: \<open>counted\<close> is the database the first one sees, \<open>d\<close> the one the second acts on.\<close>

definition delete_and_record :: "entry \<Rightarrow> deletion_cause \<Rightarrow> string \<Rightarrow> db \<Rightarrow> db \<Rightarrow> unit block" where
  "delete_and_record existing cause actor counted d =
     (let n = length (filter (\<lambda>b. b_dataset b = e_id existing) (bars counted))
      in bind_b (delete_entry_row (e_id existing) d) (\<lambda>_ d.
           append_deletion (deletion_of existing n cause actor (db_now d)) d))"

definition delete_entry_by_id ::
  "uuid \<Rightarrow> string option \<Rightarrow> sql_error option \<Rightarrow> (db \<Rightarrow> db) \<Rightarrow> db \<Rightarrow> (store_error + unit) \<times> db" where
  "delete_entry_by_id i owner fault other d =
     write_transaction fault (other d)
       (bind_b (get_entry_or_raise i d) (\<lambda>existing d.
        bind_b (check_owner existing owner d) (\<lambda>_ d. delete_entry_row i (other d))))"

section \<open>The operator\<close>

definition OPERATOR_PRINCIPAL :: string where
  "OPERATOR_PRINCIPAL = ''operator''"

definition REAPER_ACTOR :: string where
  "REAPER_ACTOR = ''reaper''"

record override_input =
  oi_reason :: string
  oi_confirmed :: bool

definition overriding_reason :: "string \<Rightarrow> string \<Rightarrow> override_input option \<Rightarrow> store_error + string option" where
  "overriding_reason owner operator override =
     (if owner = operator then Inr None
      else let reason = (case override of None \<Rightarrow> [] | Some ov \<Rightarrow> if oi_confirmed ov then strip (oi_reason ov) else [])
           in if reason = [] then Inl OverrideRequired else Inr (Some reason))"

fun of_sum :: "store_error + 'a \<Rightarrow> db \<Rightarrow> 'a block" where
  "of_sum (Inl e) d = Raises e"
| "of_sum (Inr x) d = Returns x d"

definition append_override ::
  "string \<Rightarrow> uuid \<Rightarrow> string \<Rightarrow> override_action \<Rightarrow> string option \<Rightarrow> db \<Rightarrow> unit block" where
  "append_override actor i owner action reason d =
     (case reason of
        None \<Rightarrow> Returns () d
      | Some why \<Rightarrow> Returns () (d\<lparr>overrides := overrides d @
          [\<lparr>ov_actor = actor, ov_dataset = i, ov_owner = owner, ov_action = action, ov_reason = why,
            ov_at = db_now d\<rparr>]\<rparr>))"

definition operator_set_expiry ::
  "uuid \<Rightarrow> instant option \<Rightarrow> override_input option \<Rightarrow> sql_error option \<Rightarrow> (db \<Rightarrow> db) \<Rightarrow> db \<Rightarrow>
   (store_error + unit) \<times> db" where
  "operator_set_expiry i expiry override fault other d =
     (let recording = audit_tables d in
      write_transaction fault (other d)
       (bind_b (get_entry_or_raise i d) (\<lambda>existing d.
        bind_b (of_sum (overriding_reason (e_owner existing) OPERATOR_PRINCIPAL override) d) (\<lambda>reason d.
          if reason \<noteq> None \<and> \<not> recording then Raises AuditUnavailable
          else let (n, d') = update_row i (\<lambda>e. e\<lparr>e_expiry := expiry, e_updated_at := db_now d\<rparr>) (other d)
               in if n = 0 then Raises (EntryNotFound i)
                  else append_override OPERATOR_PRINCIPAL i (e_owner existing) SET_EXPIRY reason d'))))"

definition operator_set_collecting ::
  "uuid \<Rightarrow> bool \<Rightarrow> override_input option \<Rightarrow> sql_error option \<Rightarrow> (db \<Rightarrow> db) \<Rightarrow> db \<Rightarrow>
   (store_error + bool option) \<times> db" where
  "operator_set_collecting i collect override fault other d =
     (let recording = audit_tables d in
      write_transaction fault (other d)
       (bind_b (get_entry_or_raise i d) (\<lambda>existing d.
        if e_update_type existing = STATIC then Raises StaticHasNoCollect
        else bind_b (of_sum (overriding_reason (e_owner existing) OPERATOR_PRINCIPAL override) d) (\<lambda>reason d.
          if reason \<noteq> None \<and> \<not> recording then Raises AuditUnavailable
          else case (case get_entry (other d) i of None \<Rightarrow> None | Some locked \<Rightarrow> e_collect locked) of
                 None \<Rightarrow> Raises (EntryNotFound i)
               | Some collect_before \<Rightarrow>
                   let (n, d') = update_row i (\<lambda>e. e\<lparr>e_collect := Some collect, e_updated_at := db_now d\<rparr>) (other d)
                   in if n = 0 then Raises (EntryNotFound i)
                      else bind_b (append_override OPERATOR_PRINCIPAL i (e_owner existing) SET_COLLECTING reason d')
                             (\<lambda>_ d. Returns (collect_change (Some collect_before) (Some collect)) d)))))"

text \<open>No row is locked here: others may commit before the count (\<open>seen\<close>) and again before the delete (\<open>other\<close>).\<close>

definition operator_delete_entry ::
  "uuid \<Rightarrow> override_input option \<Rightarrow> sql_error option \<Rightarrow> (db \<Rightarrow> db) \<Rightarrow> (db \<Rightarrow> db) \<Rightarrow> db \<Rightarrow> (store_error + unit) \<times> db" where
  "operator_delete_entry i override fault seen other d =
     (let recording = audit_tables d in
      write_transaction fault (other d)
       (bind_b (get_entry_or_raise i d) (\<lambda>existing d.
        bind_b (of_sum (overriding_reason (e_owner existing) OPERATOR_PRINCIPAL override) d) (\<lambda>reason d.
          if \<not> recording then Raises AuditUnavailable
          else bind_b (delete_and_record existing CAUSE_OPERATOR OPERATOR_PRINCIPAL (seen d) (other d)) (\<lambda>_ d.
               append_override OPERATOR_PRINCIPAL i (e_owner existing) DELETE reason d)))))"

text \<open>\<open>dataset_has_running_run\<close> of \<open>ingest_run.py\<close>\<close>

definition dataset_has_running_run :: "db \<Rightarrow> uuid \<Rightarrow> bool" where
  "dataset_has_running_run d i \<longleftrightarrow> list_ex (\<lambda>r. r_state r = RUNNING \<and> r_dataset r = Some i) (ingest_runs d)"

text \<open>The row is locked by the first statement, so no other transaction changes it before the commit.\<close>

definition reaper_delete_entry :: "uuid \<Rightarrow> instant \<Rightarrow> sql_error option \<Rightarrow> db \<Rightarrow> (store_error + bool) \<times> db" where
  "reaper_delete_entry i now fault d =
     write_transaction fault d
       (case get_entry d i of
          None \<Rightarrow> Raises (EntryNotFound i)
        | Some existing \<Rightarrow>
            if (case e_expiry existing of None \<Rightarrow> True | Some t \<Rightarrow> t > now) then Returns False d
            else if dataset_has_running_run d i then Returns False d
            else bind_b (delete_and_record existing CAUSE_REAPER REAPER_ACTOR d d) (\<lambda>_ d. Returns True d))"

section \<open>Reads\<close>

text \<open>\<open>AssetDatasetStore\<close>: the entry with its bar count, the outer join's \<open>count\<close>.\<close>

record entry_view =
  v_entry :: entry
  v_item_count :: nat

definition entry_view_of :: "db \<Rightarrow> entry \<Rightarrow> entry_view" where
  "entry_view_of d e = \<lparr>v_entry = e, v_item_count = length (filter (\<lambda>b. b_dataset b = e_id e) (bars d))\<rparr>"

text \<open>\<open>get_entry_by_id\<close>\<close>

definition entry_read :: "uuid \<Rightarrow> db \<Rightarrow> store_error + entry_view" where
  "entry_read i d = (case get_entry d i of None \<Rightarrow> Inl (EntryNotFound i) | Some e \<Rightarrow> Inr (entry_view_of d e))"

text \<open>\<open>StoreAssetDatasetQuery\<close>: an absent field puts no constraint on its column.\<close>

record entry_query =
  q_owner :: "string option"
  q_source :: "data_source option"
  q_feed :: "feed option"
  q_granularity :: "granularity option"
  q_start :: "instant option"
  q_end :: "instant option"
  q_expiry_type :: "expiry_type option"
  q_update_type :: "update_type option"
  q_created_at :: "instant option"
  q_updated_at :: "instant option"

definition query_matches :: "entry_query \<Rightarrow> entry \<Rightarrow> bool" where
  "query_matches q e \<longleftrightarrow>
     filters (q_owner q) (e_owner e) \<and> filters (q_source q) (e_source e) \<and> filters (q_feed q) (e_feed e) \<and>
     filters (q_granularity q) (e_granularity e) \<and> filters (q_start q) (e_start e) \<and> filters (q_end q) (e_end e) \<and>
     filters (q_expiry_type q) (e_expiry_type e) \<and> filters (q_update_type q) (e_update_type e) \<and>
     filters (q_created_at q) (e_created_at e) \<and> filters (q_updated_at q) (e_updated_at e)"

text \<open>The statement names no order; the asset and data type of the path are not filtered on.\<close>

definition search_entries :: "string \<Rightarrow> entry_query \<Rightarrow> db \<Rightarrow> entry_view list" where
  "search_entries symbol q d =
     map (entry_view_of d) (filter (\<lambda>e. e_symbol e = symbol \<and> query_matches q e) (entries d))"

section \<open>The entry table\<close>

interpretation entry_table: refreshing_table natural_key "on_conflict preserve collect" for preserve collect
  by unfold_locales (auto simp: on_conflict_def natural_key_def Let_def)

interpretation entry_ids: unique_table e_id "\<lambda>row r. r"
  by unfold_locales (rule refl)

lemma find_in: "find P xs = Some x \<Longrightarrow> x \<in> set xs \<and> P x"
  by (auto simp: find_Some_iff)

lemma get_entry_Some: "get_entry d i = Some e \<Longrightarrow> e \<in> set (entries d) \<and> e_id e = i"
  unfolding get_entry_def by (rule find_in)

lemma get_entry_None: "get_entry d i = None \<longleftrightarrow> i \<notin> e_id ` set (entries d)"
  by (auto simp: get_entry_def find_None_iff)

lemma get_entry_mem: "db_ok d \<Longrightarrow> e \<in> set (entries d) \<Longrightarrow> get_entry d (e_id e) = Some e"
  using entry_ids.find_key [of "entries d" e] by (simp add: db_ok_def entries_ok_def get_entry_def)

text \<open>The key columns and the range together are the natural key.\<close>

lemma names_row_key: "names_row c e \<longleftrightarrow> natural_key e = natural_key (row_of_create i now collect c)"
  by (auto simp: names_row_def overlap_equal_def natural_key_def row_of_create_def)

lemma collect_by_type_create: "collect_by_type (row_of_create i now collect c)"
  by (auto simp: collect_by_type_def row_of_create_def resolved_collect_def split: option.splits)

lemma on_conflict_fields [simp]:
  "e_id (on_conflict p c row r) = e_id r" "e_update_type (on_conflict p c row r) = e_update_type r"
  "natural_key (on_conflict p c row r) = natural_key r"
  by (simp_all add: on_conflict_def natural_key_def Let_def)

lemma collect_by_type_conflict:
  assumes "collect_by_type r" and "collect_by_type row" and "e_update_type r = e_update_type row"
  shows "collect_by_type (on_conflict p c row r)"
  using assms by (auto simp: collect_by_type_def on_conflict_def Let_def)

lemma natural_key_update_type: "natural_key r = natural_key r' \<Longrightarrow> e_update_type r = e_update_type r'"
  by (simp add: natural_key_def)

section \<open>Every write keeps the schema's constraints\<close>

lemma map_ids: "(\<And>e. e_id (f e) = e_id e) \<Longrightarrow> map e_id (map (\<lambda>e. if e_id e = i then f e else e) es) = map e_id es"
  by simp

lemma update_row_ok [invs]:
  assumes "db_ok d" and "\<And>e. e_id (f e) = e_id e"
    and "distinct (map natural_key (entries (snd (update_row i f d))))"
    and "\<And>e. e \<in> set (entries d) \<Longrightarrow> e_id e = i \<Longrightarrow> collect_by_type e \<Longrightarrow> collect_by_type (f e)"
  shows "db_ok (snd (update_row i f d))"
proof -
  let ?es = "map (\<lambda>e. if e_id e = i then f e else e) (entries d)"
  have ids: "map e_id ?es = map e_id (entries d)" using assms(2) by (rule map_ids)
  have "list_all collect_by_type ?es"
    using db_ok_entries [OF assms(1)] assms(4) by (auto simp: entries_ok_def list_all_iff)
  then have "entries_ok ?es"
    using db_ok_entries [OF assms(1)] assms(3) unfolding entries_ok_def ids by (simp add: update_row_def)
  then have "db_ok (d\<lparr>entries := ?es\<rparr>)" by (rule db_ok_entriesI [OF assms(1)]) (simp only: ids order_refl)
  then show ?thesis by (simp add: update_row_def)
qed

lemma update_row_same_key:
  assumes "db_ok d" and "\<And>e. natural_key (f e) = natural_key e"
  shows "distinct (map natural_key (entries (snd (update_row i f d))))"
proof -
  have "map natural_key (entries (snd (update_row i f d))) = map natural_key (entries d)"
    using assms(2) by (simp add: update_row_def)
  then show ?thesis using db_ok_entries [OF assms(1)] by (simp add: entries_ok_def)
qed

lemma delete_row_ok [invs]:
  assumes "db_ok d" and "delete_entry_row i d = Returns u d'"
  shows "db_ok d'"
proof -
  have d': "d' = d\<lparr>entries := filter (\<lambda>e. e_id e \<noteq> i) (entries d), bars := filter (\<lambda>b. b_dataset b \<noteq> i) (bars d)\<rparr>"
    using assms(2) by (simp add: delete_entry_row_def split: if_splits)
  have "entries_ok (filter (\<lambda>e. e_id e \<noteq> i) (entries d))"
    using db_ok_entries [OF assms(1)] by (auto simp: entries_ok_def distinct_map_filter list_all_iff)
  moreover have "b_dataset b \<in> set (map e_id (filter (\<lambda>e. e_id e \<noteq> i) (entries d)))"
    if "b \<in> set (bars d)" "b_dataset b \<noteq> i" for b
    using assms(1) that by (force simp: db_ok_def list_all_iff)
  ultimately show ?thesis
    using assms(1) unfolding d' db_ok_def list_all_iff by (simp add: distinct_map_filter)
qed

lemma append_ok [invs]:
  "db_ok d \<Longrightarrow> append_deletion row d = Returns u d' \<Longrightarrow> db_ok d'"
  "db_ok d \<Longrightarrow> append_override a i ow act reason d = Returns u d' \<Longrightarrow> db_ok d'"
  by (auto simp: append_deletion_def append_override_def db_ok_def split: option.splits)

lemma delete_and_record_ok [invs]: "db_ok d \<Longrightarrow> delete_and_record e cause a c d = Returns u d' \<Longrightarrow> db_ok d'"
  unfolding delete_and_record_def Let_def bind_b_Returns_iff using delete_row_ok append_ok by blast

lemma upsert_entries_ok:
  assumes es: "entries_ok es" and new: "e_id row \<notin> e_id ` set es" and row: "collect_by_type row"
  shows "entries_ok (upsert_row natural_key (on_conflict p collect row) row es)"
    and "e_id ` set es \<subseteq> e_id ` set (upsert_row natural_key (on_conflict p collect row) row es)"
proof -
  let ?es = "upsert_row natural_key (on_conflict p collect row) row es"
  have keys: "distinct (map natural_key ?es)"
    using es by (intro entry_table.unique_upsert) (simp add: entries_ok_def)
  have "distinct (map e_id ?es) \<and> e_id ` set es \<subseteq> e_id ` set ?es \<and> list_all collect_by_type ?es"
  proof (cases "natural_key row \<in> natural_key ` set es")
    case True
    have old: "?es = map (\<lambda>r. if natural_key r = natural_key row then on_conflict p collect row r else r) es"
      using True by (rule entry_table.upsert_old)
    have ids: "map e_id ?es = map e_id es" unfolding old by simp
    have "collect_by_type (if natural_key r = natural_key row then on_conflict p collect row r else r)"
      if "r \<in> set es" for r
    proof -
      have "collect_by_type r" using es that by (simp add: entries_ok_def list_all_iff)
      then show ?thesis using collect_by_type_conflict [OF _ row, of r] natural_key_update_type [of r row] by simp
    qed
    then have "list_all collect_by_type ?es" unfolding old list_all_iff by (simp only: set_map ball_simps) blast
    then show ?thesis using es ids unfolding entries_ok_def by (metis list.set_map order_refl)
  next
    case False
    then have "?es = es @ [row]" by (rule entry_table.upsert_new)
    then show ?thesis using es new row by (auto simp: entries_ok_def)
  qed
  then show "entries_ok ?es" "e_id ` set es \<subseteq> e_id ` set ?es" using keys by (auto simp: entries_ok_def)
qed

lemma upsert_ok [invs]:
  assumes d: "db_ok d" and new: "new_id \<notin> e_id ` set (entries d)"
    and u: "upsert_entry_in_transaction new_id c p collect d = Returns i d'"
  shows "db_ok d'"
proof -
  let ?row = "row_of_create new_id (db_now d) collect c"
  have d': "d' = d\<lparr>entries := upsert_row natural_key (on_conflict p collect ?row) ?row (entries d)\<rparr>"
    using u by (auto simp: upsert_entry_in_transaction_def Let_def split: option.splits)
  have "e_id ?row \<notin> e_id ` set (entries d)" using new by (simp add: row_of_create_def)
  note es = upsert_entries_ok [OF db_ok_entries [OF d] this collect_by_type_create, of p collect]
  show ?thesis unfolding d' using es by (intro db_ok_entriesI [OF d]) simp_all
qed

lemma same_db:
  "get_entry_or_raise i d = Returns e d' \<Longrightarrow> d' = d \<and> get_entry d i = Some e"
  "check_owner e ow d = Returns u d' \<Longrightarrow> d' = d \<and> Some (e_owner e) = ow"
  "check_own_overlap k d = Returns u d' \<Longrightarrow> d' = d \<and> find_own_overlap d k = []"
  "of_sum s d = Returns x d' \<Longrightarrow> d' = d \<and> s = Inr x"
  by (auto simp: get_entry_or_raise_def check_owner_def check_own_overlap_def Let_def
      split: option.splits if_splits) (cases s, auto)+

lemma append_override_db: "append_override a i ow act reason d = Returns u d' \<Longrightarrow>
    entries d' = entries d \<and> bars d' = bars d \<and> deletions d' = deletions d \<and> ingest_runs d' = ingest_runs d \<and>
    overrides d' = overrides d @ (case reason of None \<Rightarrow> [] | Some why \<Rightarrow>
      [\<lparr>ov_actor = a, ov_dataset = i, ov_owner = ow, ov_action = act, ov_reason = why, ov_at = db_now d\<rparr>])"
  by (auto simp: append_override_def split: option.splits)

text \<open>What a successful call of each operation did, its reads and checks included.\<close>

lemma upsert_entry_done:
  assumes "upsert_entry new_id c collect fault other d = (Inr i, d')"
  shows "find_own_overlap d (overlap_key_of c) = []"
    and "upsert_entry_in_transaction new_id c False collect (other d) = Returns i d'"
  using assms by (auto simp: upsert_entry_def write_transaction_Inr bind_b_Returns_iff dest!: same_db(3))

lemma update_entry_done:
  assumes "update_entry i c fault other d = (Inr u, d')"
  obtains e where "get_entry d i = Some e" "e_owner e = k_owner c"
    "is_growth (e_start e) (e_end e) (k_start c) (to_model_type (k_end c))"
    "find_exact_collision d e (k_start c) (to_model_type (k_end c)) = None"
    "d' = snd (update_row i (\<lambda>e. e\<lparr>e_start := k_start c, e_end := to_model_type (k_end c),
       e_updated_at := db_now d\<rparr>) (other d))"
    "distinct (map natural_key (entries d'))"
  using assms
  by (auto simp: update_entry_def write_transaction_Inr bind_b_Returns_iff Let_def
      dest!: same_db(1,2) split: if_splits option.splits)

lemma update_entry_lifecycle_done:
  assumes "update_entry_lifecycle i owner fault other d = (Inr u, d')"
  obtains e where "get_entry d i = Some e" "e_owner e = owner"
    "d' = snd (update_row i (\<lambda>e. e\<lparr>e_updated_at := db_now d\<rparr>) (other d))"
  using assms
  by (auto simp: update_entry_lifecycle_def write_transaction_Inr bind_b_Returns_iff dest!: same_db(1,2))

lemma delete_entry_by_id_done:
  assumes "delete_entry_by_id i owner fault other d = (Inr u, d')"
  obtains e where "get_entry d i = Some e" "Some (e_owner e) = owner" "delete_entry_row i (other d) = Returns () d'"
  using assms
  by (auto simp: delete_entry_by_id_def write_transaction_Inr bind_b_Returns_iff dest!: same_db(1,2))

lemma operator_set_expiry_done:
  assumes "operator_set_expiry i expiry override fault other d = (Inr u, d')"
  obtains e reason where "get_entry d i = Some e"
    "overriding_reason (e_owner e) OPERATOR_PRINCIPAL override = Inr reason"
    "reason = None \<or> audit_tables d" "i \<in> e_id ` set (entries (other d))"
    "append_override OPERATOR_PRINCIPAL i (e_owner e) SET_EXPIRY reason
       (snd (update_row i (\<lambda>e. e\<lparr>e_expiry := expiry, e_updated_at := db_now d\<rparr>) (other d))) = Returns () d'"
proof -
  from assms obtain e reason where e: "get_entry d i = Some e"
    "overriding_reason (e_owner e) OPERATOR_PRINCIPAL override = Inr reason"
    "\<not> (reason \<noteq> None \<and> \<not> audit_tables d)"
    and n: "fst (update_row i (\<lambda>e. e\<lparr>e_expiry := expiry, e_updated_at := db_now d\<rparr>) (other d)) \<noteq> 0"
    and a: "append_override OPERATOR_PRINCIPAL i (e_owner e) SET_EXPIRY reason
       (snd (update_row i (\<lambda>e. e\<lparr>e_expiry := expiry, e_updated_at := db_now d\<rparr>) (other d))) = Returns () d'"
    by (auto simp: operator_set_expiry_def write_transaction_Inr bind_b_Returns_iff Let_def case_prod_beta
        dest!: same_db(1,4) split: if_splits)
  have ids: "i \<in> e_id ` set (entries (other d))"
    using n by (auto simp: update_row_def filter_empty_conv)
  have au: "reason = None \<or> audit_tables d" using e(3) by blast
  show thesis by (rule that [OF e(1,2) au ids a])
qed

lemma operator_set_collecting_done:
  assumes "operator_set_collecting i collect override fault other d = (Inr v, d')"
  obtains e reason before where "get_entry d i = Some e" "e_update_type e \<noteq> STATIC"
    "overriding_reason (e_owner e) OPERATOR_PRINCIPAL override = Inr reason"
    "reason = None \<or> audit_tables d"
    "\<exists>l. get_entry (other d) i = Some l \<and> e_collect l = Some before"
    "append_override OPERATOR_PRINCIPAL i (e_owner e) SET_COLLECTING reason
       (snd (update_row i (\<lambda>e. e\<lparr>e_collect := Some collect, e_updated_at := db_now d\<rparr>) (other d))) = Returns () d'"
    "v = collect_change (Some before) (Some collect)"
  using assms
  by (auto simp: operator_set_collecting_def write_transaction_Inr bind_b_Returns_iff Let_def case_prod_beta
      dest!: same_db(1,4) split: if_splits option.splits)

lemma operator_delete_entry_done:
  assumes "operator_delete_entry i override fault seen other d = (Inr u, d')"
  obtains e reason d'' where "get_entry d i = Some e"
    "overriding_reason (e_owner e) OPERATOR_PRINCIPAL override = Inr reason" "audit_tables d"
    "delete_and_record e CAUSE_OPERATOR OPERATOR_PRINCIPAL (seen d) (other d) = Returns () d''"
    "append_override OPERATOR_PRINCIPAL i (e_owner e) DELETE reason d'' = Returns () d'"
  using assms
  by (auto simp: operator_delete_entry_def write_transaction_Inr bind_b_Returns_iff Let_def
      dest!: same_db(1,4) split: if_splits)

lemma reaper_delete_entry_done:
  assumes "reaper_delete_entry i now fault d = (Inr b, d')"
  obtains e where "get_entry d i = Some e"
    "b \<longleftrightarrow> (\<exists>t. e_expiry e = Some t \<and> t \<le> now) \<and> \<not> dataset_has_running_run d i"
    "if b then delete_and_record e CAUSE_REAPER REAPER_ACTOR d d = Returns () d' else d' = d"
  using assms
  by (auto simp: reaper_delete_entry_def write_transaction_Inr bind_b_Returns_iff not_less
      split: option.splits if_splits)

text \<open>Each operation keeps the constraints, if the other transactions do.\<close>

lemma write_kept: "write_transaction fault kept body = (r, d') \<Longrightarrow>
    d' = kept \<or> (\<exists>x. r = Inr x)"
  using write_transaction_Inl by (cases r) auto

lemma upsert_entry_ok [invs]:
  assumes "upsert_entry new_id c collect fault other d = (r, d')" and "db_ok (other d)"
    and "new_id \<notin> e_id ` set (entries (other d))"
  shows "db_ok d'"
proof (cases r)
  case (Inl e)
  then show ?thesis using assms write_kept unfolding upsert_entry_def by fastforce
next
  case (Inr i)
  then show ?thesis using assms(1) upsert_entry_done(2) upsert_ok [OF assms(2,3)] by metis
qed

lemma update_entry_ok [invs]:
  assumes "update_entry i c fault other d = (r, d')" and "db_ok (other d)"
  shows "db_ok d'"
proof (cases r)
  case (Inl e)
  then show ?thesis using assms write_kept unfolding update_entry_def by fastforce
next
  case (Inr u)
  then obtain f where "d' = snd (update_row i f (other d))" "\<And>e. e_id (f e) = e_id e"
    "distinct (map natural_key (entries d'))" "\<And>e. collect_by_type (f e) = collect_by_type e"
    using assms(1) by (auto elim!: update_entry_done simp: collect_by_type_def)
  then show ?thesis using update_row_ok [OF assms(2)] by metis
qed

lemma update_entry_lifecycle_ok [invs]:
  assumes "update_entry_lifecycle i owner fault other d = (r, d')" and "db_ok (other d)"
  shows "db_ok d'"
proof (cases r)
  case (Inl e)
  then show ?thesis using assms write_kept unfolding update_entry_lifecycle_def by fastforce
next
  case (Inr u)
  then have "d' = snd (update_row i (\<lambda>e. e\<lparr>e_updated_at := db_now d\<rparr>) (other d))"
    using assms(1) by (auto elim!: update_entry_lifecycle_done)
  then show ?thesis
    using update_row_ok [OF assms(2) _ update_row_same_key [OF assms(2)]]
    by (auto simp: natural_key_def collect_by_type_def)
qed

lemma delete_entry_by_id_ok [invs]:
  assumes "delete_entry_by_id i owner fault other d = (r, d')" and "db_ok (other d)"
  shows "db_ok d'"
proof (cases r)
  case (Inl e)
  then show ?thesis using assms write_kept unfolding delete_entry_by_id_def by fastforce
next
  case (Inr u)
  then show ?thesis using assms delete_row_ok by (auto elim!: delete_entry_by_id_done)
qed

lemma operator_set_expiry_ok [invs]:
  assumes "operator_set_expiry i expiry override fault other d = (r, d')" and "db_ok (other d)"
  shows "db_ok d'"
proof (cases r)
  case (Inl e)
  then show ?thesis using assms write_kept unfolding operator_set_expiry_def Let_def by fastforce
next
  case (Inr u)
  have "db_ok (snd (update_row i (\<lambda>e. e\<lparr>e_expiry := expiry, e_updated_at := db_now d\<rparr>) (other d)))"
    using update_row_ok [OF assms(2) _ update_row_same_key [OF assms(2)]]
    by (auto simp: natural_key_def collect_by_type_def)
  then show ?thesis using assms(1) Inr append_ok(2) by (auto elim!: operator_set_expiry_done)
qed

lemma collect_row_ok:
  assumes ok: "db_ok d" and l: "get_entry d i = Some l" "e_collect l = Some before"
  shows "db_ok (snd (update_row i (\<lambda>e. e\<lparr>e_collect := Some collect, e_updated_at := now\<rparr>) d))"
proof (rule update_row_ok [OF ok])
  show "distinct (map natural_key (entries (snd (update_row i (\<lambda>e. e\<lparr>e_collect := Some collect, e_updated_at := now\<rparr>) d))))"
    by (rule update_row_same_key [OF ok]) (simp add: natural_key_def)
  fix e assume e: "e \<in> set (entries d)" "e_id e = i" "collect_by_type e"
  then have "e = l" using get_entry_mem [OF ok e(1)] l(1) by simp
  then show "collect_by_type (e\<lparr>e_collect := Some collect, e_updated_at := now\<rparr>)"
    using e(3) l(2) by (auto simp: collect_by_type_def split: if_splits)
qed simp

lemma operator_set_collecting_ok [invs]:
  assumes "operator_set_collecting i collect override fault other d = (r, d')" and "db_ok (other d)"
  shows "db_ok d'"
proof (cases r)
  case (Inl e)
  then show ?thesis using assms write_kept unfolding operator_set_collecting_def Let_def by fastforce
next
  case (Inr u)
  then have "operator_set_collecting i collect override fault other d = (Inr u, d')" using assms(1) by simp
  then show ?thesis
    by (rule operator_set_collecting_done) (blast intro: append_ok(2) collect_row_ok [OF assms(2)])
qed

lemma operator_delete_entry_ok [invs]:
  assumes "operator_delete_entry i override fault seen other d = (r, d')" and "db_ok (other d)"
  shows "db_ok d'"
proof (cases r)
  case (Inl e)
  then show ?thesis using assms write_kept unfolding operator_delete_entry_def Let_def by fastforce
next
  case (Inr u)
  then have "operator_delete_entry i override fault seen other d = (Inr u, d')" using assms(1) by simp
  then show ?thesis
    by (rule operator_delete_entry_done) (blast intro: append_ok(2) delete_and_record_ok [OF assms(2)])
qed

lemma reaper_delete_entry_ok [invs]:
  assumes "reaper_delete_entry i now fault d = (r, d')" and "db_ok d"
  shows "db_ok d'"
proof (cases r)
  case (Inl e)
  then show ?thesis using assms write_kept unfolding reaper_delete_entry_def by fastforce
next
  case (Inr b)
  then show ?thesis
    using assms delete_and_record_ok [OF assms(2)] by (cases b) (auto elim!: reaper_delete_entry_done)
qed

section \<open>The writes as calls\<close>

datatype store_call =
  Create uuid entry_create "bool option"
| Grow uuid entry_create
| Touch uuid string
| Delete_By_Id uuid "string option"
| Set_Expiry uuid "instant option" "override_input option"
| Set_Collecting uuid bool "override_input option"
| Operator_Delete uuid "override_input option" "db \<Rightarrow> db"
| Reap uuid instant

fun discard :: "'e + 'a \<Rightarrow> 'e + unit" where
  "discard (Inl e) = Inl e"
| "discard (Inr x) = Inr ()"

lemma discard_Inl_iff [simp]: "discard r = Inl e \<longleftrightarrow> r = Inl e"
  by (cases r) auto

lemma discard_Inr_iff [simp]: "discard r = Inr u \<longleftrightarrow> (\<exists>x. r = Inr x)" "Inr u = discard r \<longleftrightarrow> (\<exists>x. r = Inr x)"
  by (cases r; simp)+

lemma apfst_discard: "apfst discard op = (r, d') \<longleftrightarrow> (\<exists>r'. op = (r', d') \<and> r = discard r')"
  by (cases op) auto

fun perform :: "store_call \<Rightarrow> sql_error option \<Rightarrow> (db \<Rightarrow> db) \<Rightarrow> db \<Rightarrow> (store_error + unit) \<times> db" where
  "perform (Create new_id c collect) fault other d = apfst discard (upsert_entry new_id c collect fault other d)"
| "perform (Grow i c) fault other d = update_entry i c fault other d"
| "perform (Touch i owner) fault other d = update_entry_lifecycle i owner fault other d"
| "perform (Delete_By_Id i owner) fault other d = delete_entry_by_id i owner fault other d"
| "perform (Set_Expiry i expiry override) fault other d = operator_set_expiry i expiry override fault other d"
| "perform (Set_Collecting i collect override) fault other d =
     apfst discard (operator_set_collecting i collect override fault other d)"
| "perform (Operator_Delete i override seen) fault other d = operator_delete_entry i override fault seen other d"
| "perform (Reap i now) fault other d = apfst discard (reaper_delete_entry i now fault (other d))"

text \<open>The identifier a create is given names no row yet, as \<open>gen_random_uuid()\<close> promises.\<close>

fun fresh_for :: "store_call \<Rightarrow> db \<Rightarrow> bool" where
  "fresh_for (Create new_id c collect) d = (new_id \<notin> e_id ` set (entries d))"
| "fresh_for _ d = True"

lemma perform_ok [invs]:
  assumes "perform call fault other d = (r, d')" and ok: "db_ok (other d)" and "fresh_for call (other d)"
  shows "db_ok d'"
proof (cases call)
  case (Create n c co)
  then obtain r' where "upsert_entry n c co fault other d = (r', d')" using assms(1) by (auto simp: apfst_discard)
  then show ?thesis using ok by (rule upsert_entry_ok) (use assms(3) Create in auto)
next
  case (Set_Collecting i co ov)
  then obtain r' where "operator_set_collecting i co ov fault other d = (r', d')"
    using assms(1) by (auto simp: apfst_discard)
  then show ?thesis using ok by (rule operator_set_collecting_ok)
next
  case (Reap i now)
  then obtain r' where "reaper_delete_entry i now fault (other d) = (r', d')"
    using assms(1) by (auto simp: apfst_discard)
  then show ?thesis using ok by (rule reaper_delete_entry_ok)
next
  case (Grow i c)
  then show ?thesis using assms(1) ok update_entry_ok by simp
next
  case (Touch i ow)
  then show ?thesis using assms(1) ok update_entry_lifecycle_ok by simp
next
  case (Delete_By_Id i ow)
  then show ?thesis using assms(1) ok delete_entry_by_id_ok by simp
next
  case (Set_Expiry i e ov)
  then show ?thesis using assms(1) ok operator_set_expiry_ok by simp
next
  case (Operator_Delete i ov seen)
  then show ?thesis using assms(1) ok operator_delete_entry_ok by simp
qed

lemma perform_rolls_back: "perform call fault other d = (Inl e, d') \<Longrightarrow> d' = other d"
  by (cases call)
    (auto simp: upsert_entry_def update_entry_def update_entry_lifecycle_def delete_entry_by_id_def
      operator_set_expiry_def operator_set_collecting_def operator_delete_entry_def reaper_delete_entry_def
      apfst_discard Let_def dest!: sym [of "Inl e"] write_transaction_Inl)

section \<open>Windows\<close>

definition in_window :: "instant \<Rightarrow> instant \<Rightarrow> instant \<Rightarrow> bool" where
  "in_window start until t \<longleftrightarrow> start \<le> t \<and> (until = EPOCH \<or> t < until)"

definition proper_window :: "instant \<Rightarrow> instant \<Rightarrow> bool" where
  "proper_window start until \<longleftrightarrow> until = EPOCH \<or> start < until"

lemma windows_meet:
  assumes "proper_window s e" and "proper_window s' e'"
  shows "(\<exists>t. in_window s e t \<and> in_window s' e' t) \<longleftrightarrow> (e = EPOCH \<or> s' < e) \<and> (e' \<noteq> EPOCH \<longrightarrow> s < e')"
proof
  assume "(e = EPOCH \<or> s' < e) \<and> (e' \<noteq> EPOCH \<longrightarrow> s < e')"
  then have "in_window s e (max s s')" "in_window s' e' (max s s')"
    using assms by (auto simp: in_window_def proper_window_def)
  then show "\<exists>t. in_window s e t \<and> in_window s' e' t" by blast
qed (auto simp: in_window_def)

lemma is_growth_iff:
  assumes "proper_window s e"
  shows "is_growth s e s' e' \<longleftrightarrow> (\<forall>t. in_window s e t \<longrightarrow> in_window s' e' t)"
proof
  assume sub: "\<forall>t. in_window s e t \<longrightarrow> in_window s' e' t"
  have "in_window s e s" using assms by (auto simp: in_window_def proper_window_def)
  then have s: "s' \<le> s" using sub by (auto simp: in_window_def)
  have e: "e' = EPOCH \<or> e \<noteq> EPOCH \<and> e \<le> e'"
  proof (rule ccontr)
    assume n: "\<not> (e' = EPOCH \<or> e \<noteq> EPOCH \<and> e \<le> e')"
    then have "in_window s e (max s e')" using assms by (auto simp: in_window_def proper_window_def)
    then have "in_window s' e' (max s e')" using sub by blast
    then show False using n by (auto simp: in_window_def)
  qed
  then show "is_growth s e s' e'" using s by (auto simp: is_growth_def)
qed (auto simp: is_growth_def in_window_def split: if_splits)

section \<open>Evaluations\<close>

definition sample_key :: overlap_key where
  "sample_key = \<lparr>k_owner = ''ann'', k_asset_type = STOCK, k_symbol = ''AAPL'', k_data_type = MARKET_ACTIVITY,
     k_source = ALPACA_API, k_granularity = ONE_DAY, k_expiry_type = BULK, k_update_type = DAILY,
     k_start = 100, k_end = Some 200\<rparr>"

definition empty_db :: db where
  "empty_db = \<lparr>entries = [], bars = [], overrides = [], deletions = [], ingest_runs = [], audit_tables = True, db_now = 50\<rparr>"

definition sample_db :: db where
  "sample_db = empty_db\<lparr>entries := [row_of_create 1 50 None (extend_key sample_key (Some 900) IEX)]\<rparr>"

lemma empty_db_ok: "db_ok empty_db"
  by (simp add: db_ok_def entries_ok_def empty_db_def)

lemma sample_db_ok: "db_ok sample_db"
  by (simp add: db_ok_def entries_ok_def empty_db_def sample_db_def collect_by_type_create)

section \<open>Properties\<close>

text \<open>C9. The own-overlap check reports exactly the owner's datasets of the same kind whose half-open window
  shares an instant with the requested one (an open end reaching forever) and is not the very same
  window; it refuses the create when there is one and changes nothing.\<close>

theorem own_overlap_is_exact:
  assumes "proper_window (k_start k) (to_model_type (k_end k))"
    and "\<forall>e \<in> set (entries d). proper_window (e_start e) (e_end e)"
  shows "set (find_own_overlap d k) = e_id ` {e \<in> set (entries d). overlap_equal k e \<and>
      (\<exists>t. in_window (e_start e) (e_end e) t \<and> in_window (k_start k) (to_model_type (k_end k)) t) \<and>
      (e_start e, e_end e) \<noteq> (k_start k, to_model_type (k_end k))}
    \<and> check_own_overlap k d = (if find_own_overlap d k = [] then Returns () d
        else Raises (OwnOverlapConflict (find_own_overlap d k)))"
proof -
  let ?Q = "\<lambda>e. overlap_equal k e \<and> (e_end e = EPOCH \<or> e_end e > k_start k) \<and>
      (to_model_type (k_end k) \<noteq> EPOCH \<longrightarrow> e_start e < to_model_type (k_end k)) \<and>
      \<not> (e_start e = k_start k \<and> e_end e = to_model_type (k_end k))"
  let ?R = "\<lambda>e. overlap_equal k e \<and>
      (\<exists>t. in_window (e_start e) (e_end e) t \<and> in_window (k_start k) (to_model_type (k_end k)) t) \<and>
      (e_start e, e_end e) \<noteq> (k_start k, to_model_type (k_end k))"
  have "?Q e = ?R e" if "e \<in> set (entries d)" for e
    using windows_meet [OF bspec [OF assms(2) that] assms(1)] by simp
  then have "{e \<in> set (entries d). ?Q e} = {e \<in> set (entries d). ?R e}" by blast
  moreover have "set (find_own_overlap d k) = e_id ` {e \<in> set (entries d). ?Q e}"
    by (simp add: find_own_overlap_def Let_def)
  ultimately show ?thesis by (simp add: check_own_overlap_def Let_def)
qed

theorem own_overlap_is_exact_witness:
  "check_own_overlap (sample_key\<lparr>k_end := None\<rparr>) sample_db = Raises (OwnOverlapConflict [1])"
proof -
  have "find_own_overlap sample_db (sample_key\<lparr>k_end := None\<rparr>) = [1]" by code_simp
  moreover have "proper_window (k_start (sample_key\<lparr>k_end := None\<rparr>)) (to_model_type (k_end (sample_key\<lparr>k_end := None\<rparr>)))"
    "\<forall>e \<in> set (entries sample_db). proper_window (e_start e) (e_end e)" by code_simp+
  ultimately show ?thesis
    using own_overlap_is_exact [of "sample_key\<lparr>k_end := None\<rparr>" sample_db] by simp
qed

text \<open>A repeated create is idempotent: when a row with the whole natural key exists, its id is
  returned and no other row and no bar changes; of that row only the expiry, the update time and an
  explicitly sent collect intent change, and nothing but the update time when the lifecycle is
  preserved.\<close>

theorem repeated_create_is_idempotent:
  assumes ok: "db_ok d" and e: "e \<in> set (entries d)" "names_row c e"
  shows "upsert_entry_in_transaction new_id c preserve collect d =
      Returns (e_id e) (d\<lparr>entries := map (\<lambda>r. if r = e then
        (if preserve then e\<lparr>e_updated_at := db_now d\<rparr>
         else e\<lparr>e_expiry := c_expiry c, e_updated_at := db_now d,
                e_collect := (if collect \<noteq> None \<and> k_update_type c \<noteq> STATIC then collect else e_collect e)\<rparr>)
        else r) (entries d)\<rparr>)"
proof -
  let ?row = "row_of_create new_id (db_now d) collect c"
  have u: "distinct (map natural_key (entries d))" using db_ok_entries [OF ok] by (simp add: entries_ok_def)
  have key: "natural_key e = natural_key ?row" using e(2) names_row_key by simp
  then have mem: "natural_key ?row \<in> natural_key ` set (entries d)" using e(1) by (metis image_eqI)
  have only: "natural_key r = natural_key ?row \<longleftrightarrow> r = e" if "r \<in> set (entries d)" for r
    using u e(1) key that by (metis distinct_map inj_onD)
  have upd: "on_conflict preserve collect ?row e =
      (if preserve then e\<lparr>e_updated_at := db_now d\<rparr>
       else e\<lparr>e_expiry := c_expiry c, e_updated_at := db_now d,
              e_collect := (if collect \<noteq> None \<and> k_update_type c \<noteq> STATIC then collect else e_collect e)\<rparr>)"
    by (cases collect) (auto simp: on_conflict_def row_of_create_def resolved_collect_def Let_def)
  have rows: "upsert_row natural_key (on_conflict preserve collect ?row) ?row (entries d) =
      map (\<lambda>r. if r = e then on_conflict preserve collect ?row e else r) (entries d)"
    unfolding entry_table.upsert_old [OF mem] using only by (intro map_cong) auto
  have "find (\<lambda>r. natural_key r = natural_key ?row)
      (upsert_row natural_key (on_conflict preserve collect ?row) ?row (entries d))
      = Some (on_conflict preserve collect ?row e)"
    using entry_table.find_upsert [OF u, of ?row preserve collect] entry_table.find_key [OF u e(1)] key by simp
  then show ?thesis by (simp add: upsert_entry_in_transaction_def Let_def rows upd)
qed

theorem repeated_create_is_idempotent_witness:
  "\<exists>d'. upsert_entry_in_transaction 7 (extend_key sample_key None IEX) False None sample_db = Returns 1 d' \<and> bars d' = bars sample_db"
proof -
  let ?e = "row_of_create 1 50 None (extend_key sample_key (Some 900) IEX)"
  have "?e \<in> set (entries sample_db)" "names_row (extend_key sample_key None IEX) ?e" "e_id ?e = 1" by code_simp+
  then show ?thesis
    using repeated_create_is_idempotent [OF sample_db_ok, of ?e "extend_key sample_key None IEX" 7 False None] by simp
qed

text \<open>A create that names no stored row adds exactly one row, under the new id, with the request's
  fields, an intent that fits its type (none for STATIC, true by default for a subscription) and
  the tape it was given: a request that differs from a stored one only by tape is a second dataset.\<close>

theorem new_create_adds_one_row:
  assumes "db_ok d" and "\<not> list_ex (names_row c) (entries d)"
  shows "upsert_entry_in_transaction new_id c preserve collect d =
      Returns new_id (d\<lparr>entries := entries d @ [row_of_create new_id (db_now d) collect c]\<rparr>)
    \<and> names_row c (row_of_create new_id (db_now d) collect c)
    \<and> collect_by_type (row_of_create new_id (db_now d) collect c)"
proof -
  let ?row = "row_of_create new_id (db_now d) collect c"
  have no: "natural_key ?row \<notin> natural_key ` set (entries d)"
    using assms(2) by (auto simp: list_ex_iff names_row_key [of c _ new_id "db_now d" collect])
  have "find (\<lambda>r. natural_key r = natural_key ?row) (entries d) = None"
    by (rule entry_table.find_absent [OF no])
  moreover have "distinct (map natural_key (entries d))" using db_ok_entries [OF assms(1)] by (simp add: entries_ok_def)
  ultimately have "find (\<lambda>r. natural_key r = natural_key ?row) (entries d @ [?row]) = Some ?row"
    using entry_table.find_upsert [of "entries d" ?row preserve collect] by (simp add: entry_table.upsert_new [OF no])
  then have "upsert_entry_in_transaction new_id c preserve collect d =
      Returns new_id (d\<lparr>entries := entries d @ [?row]\<rparr>)"
    by (simp add: upsert_entry_in_transaction_def Let_def entry_table.upsert_new [OF no]) (simp add: row_of_create_def)
  then show ?thesis
    using names_row_key [of c ?row new_id "db_now d" collect] collect_by_type_create by simp
qed

theorem new_create_adds_one_row_witness:
  "\<exists>d'. upsert_entry_in_transaction 7 (extend_key sample_key None SIP) False None sample_db = Returns 7 d'
     \<and> length (entries d') = 2"
proof -
  have "\<not> list_ex (names_row (extend_key sample_key None SIP)) (entries sample_db)" "length (entries sample_db) = 1"
    by code_simp+
  then show ?thesis using new_create_adds_one_row [OF sample_db_ok, of "extend_key sample_key None SIP" 7 False None] by simp
qed

text \<open>C11. A range update succeeds only when the new window contains every instant of the window it read, and then changes the
  window and the update time of that row alone, on whatever the other transactions have committed meanwhile; a change
  that would leave an instant of the window read outside is refused, and a call that fails, its commit included, writes
  nothing. So unless another transaction stored another window of the row in between, no stored instant is ever lost.\<close>

theorem update_only_grows:
  assumes "get_entry d i = Some e" and "proper_window (e_start e) (e_end e)" and "update_entry i c fault other d = (r, d')"
  shows "if r = Inr ()
    then (\<forall>t. in_window (e_start e) (e_end e) t \<longrightarrow> in_window (k_start c) (to_model_type (k_end c)) t) \<and> e_owner e = k_owner c
      \<and> d' = (other d)\<lparr>entries := map (\<lambda>x. if e_id x = i then x\<lparr>e_start := k_start c, e_end := to_model_type (k_end c),
            e_updated_at := db_now d\<rparr> else x) (entries (other d))\<rparr>
      \<and> (\<forall>x\<in>set (entries (other d)). e_id x = i \<and> (e_start x, e_end x) = (e_start e, e_end e) \<longrightarrow>
           (\<exists>y\<in>set (entries d'). e_id y = i \<and> (\<forall>t. in_window (e_start x) (e_end x) t \<longrightarrow> in_window (e_start y) (e_end y) t)))
    else d' = other d
      \<and> (\<not> (\<forall>t. in_window (e_start e) (e_end e) t \<longrightarrow> in_window (k_start c) (to_model_type (k_end c)) t) \<longrightarrow>
           r = Inl (if e_owner e = k_owner c then RangeShrink i else OwnerMismatch i))"
proof -
  have e: "e_id e = i" using get_entry_Some [OF assms(1)] by simp
  note grow = is_growth_iff [OF assms(2), of "k_start c" "to_model_type (k_end c)"]
  let ?f = "\<lambda>x. x\<lparr>e_start := k_start c, e_end := to_model_type (k_end c), e_updated_at := db_now d\<rparr>"
  show ?thesis
  proof (cases "r = Inr ()")
    case True
    then obtain e' where e': "get_entry d i = Some e'" "e_owner e' = k_owner c"
      "is_growth (e_start e') (e_end e') (k_start c) (to_model_type (k_end c))" "d' = snd (update_row i ?f (other d))"
      using assms(3) by (auto elim: update_entry_done)
    have eq: "e' = e" using e'(1) assms(1) by simp
    have rows: "entries d' = map (\<lambda>x. if e_id x = i then ?f x else x) (entries (other d))" by (simp add: e'(4) update_row_def)
    have sub: "\<forall>t. in_window (e_start e) (e_end e) t \<longrightarrow> in_window (k_start c) (to_model_type (k_end c)) t" using e'(3) grow eq by simp
    have "\<exists>y\<in>set (entries d'). e_id y = i \<and> (\<forall>t. in_window (e_start x) (e_end x) t \<longrightarrow> in_window (e_start y) (e_end y) t)"
      if "x \<in> set (entries (other d))" "e_id x = i" "(e_start x, e_end x) = (e_start e, e_end e)" for x
    proof (rule bexI [of _ "?f x"])
      show "?f x \<in> set (entries d')" unfolding rows using that(1,2) by (auto intro: image_eqI [of _ _ x])
      show "e_id (?f x) = i \<and> (\<forall>t. in_window (e_start x) (e_end x) t \<longrightarrow> in_window (e_start (?f x)) (e_end (?f x)) t)"
        using that(2,3) sub by simp
    qed
    moreover have "d' = (other d)\<lparr>entries := map (\<lambda>x. if e_id x = i then ?f x else x) (entries (other d))\<rparr>"
      by (simp add: e'(4) update_row_def)
    ultimately show ?thesis using True sub e'(2) eq by simp
  next
    case False
    then obtain err where err: "r = Inl err" by (cases r) auto
    then have "d' = other d" using perform_rolls_back [of "Grow i c" fault other d err d'] assms(3) by simp
    moreover have "r = Inl (if e_owner e = k_owner c then RangeShrink i else OwnerMismatch i)"
      if "\<not> (\<forall>t. in_window (e_start e) (e_end e) t \<longrightarrow> in_window (k_start c) (to_model_type (k_end c)) t)"
      using that grow assms(1,3) e
      by (auto simp: update_entry_def get_entry_or_raise_def check_owner_def write_transaction_def Let_def)
    ultimately show ?thesis using False by simp
  qed
qed

theorem update_only_grows_witness:
  "update_entry 1 (extend_key (sample_key\<lparr>k_end := Some 150\<rparr>) None IEX) None id sample_db = (Inl (RangeShrink 1), sample_db)"
proof -
  let ?c = "extend_key (sample_key\<lparr>k_end := Some 150\<rparr>) None IEX"
  obtain e where e: "get_entry sample_db 1 = Some e" "proper_window (e_start e) (e_end e)" "e_owner e = k_owner ?c"
      "in_window (e_start e) (e_end e) 150" "\<not> in_window (k_start ?c) (to_model_type (k_end ?c)) 150"
    by (rule that [of "row_of_create 1 50 None (extend_key sample_key (Some 900) IEX)"]) code_simp+
  obtain r d' where u: "update_entry 1 ?c None id sample_db = (r, d')" by fastforce
  have "\<not> (\<forall>t. in_window (e_start e) (e_end e) t \<longrightarrow> in_window (k_start ?c) (to_model_type (k_end ?c)) t)"
    using e(4,5) by blast
  with update_only_grows [OF e(1,2) u] e(3) u show ?thesis by (auto split: if_splits)
qed

text \<open>The row is read without a lock: of two growths that both read the old window, the later one overwrites the
  earlier one's, and the instants only the earlier one had are lost.\<close>

definition grown_meanwhile :: "db \<Rightarrow> db" where
  "grown_meanwhile d = snd (update_entry 1 (extend_key (sample_key\<lparr>k_end := Some 400\<rparr>) None IEX) None id d)"

lemma concurrent_growth_is_overwritten:
  "(let (r, d') = update_entry 1 (extend_key (sample_key\<lparr>k_end := Some 300\<rparr>) None IEX) None grown_meanwhile sample_db
    in r = Inr () \<and> map e_end (entries d') = [300]) \<and> map e_end (entries (grown_meanwhile sample_db)) = [400]"
  by code_simp

text \<open>Who may not make a call on a dataset, and the dataset a call names.\<close>

fun unauthorised :: "store_call \<Rightarrow> entry \<Rightarrow> bool" where
  "unauthorised (Grow i c) e = (k_owner c \<noteq> e_owner e)"
| "unauthorised (Touch i owner) e = (owner \<noteq> e_owner e)"
| "unauthorised (Delete_By_Id i owner) e = (owner \<noteq> Some (e_owner e))"
| "unauthorised (Set_Expiry i x ov) e = (e_owner e \<noteq> OPERATOR_PRINCIPAL \<and>
     (case ov of None \<Rightarrow> True | Some v \<Rightarrow> \<not> oi_confirmed v \<or> strip (oi_reason v) = []))"
| "unauthorised (Set_Collecting i x ov) e = (e_owner e \<noteq> OPERATOR_PRINCIPAL \<and>
     (case ov of None \<Rightarrow> True | Some v \<Rightarrow> \<not> oi_confirmed v \<or> strip (oi_reason v) = []))"
| "unauthorised (Operator_Delete i ov seen) e = (e_owner e \<noteq> OPERATOR_PRINCIPAL \<and>
     (case ov of None \<Rightarrow> True | Some v \<Rightarrow> \<not> oi_confirmed v \<or> strip (oi_reason v) = []))"
| "unauthorised _ e = False"

fun target_of :: "store_call \<Rightarrow> uuid option" where
  "target_of (Create n c co) = None"
| "target_of (Grow i c) = Some i"
| "target_of (Touch i ow) = Some i"
| "target_of (Delete_By_Id i ow) = Some i"
| "target_of (Set_Expiry i x ov) = Some i"
| "target_of (Set_Collecting i x ov) = Some i"
| "target_of (Operator_Delete i ov seen) = Some i"
| "target_of (Reap i now) = Some i"

text \<open>C39. An id-addressed write by a principal that does not own the dataset, and an operator write on
  another owner's dataset without a confirmed override with a non-blank reason, is refused and
  leaves the database exactly as the other transactions left it.\<close>

theorem unauthorised_writes_refused:
  assumes "target_of call = Some i" and "get_entry d i = Some e" and "unauthorised call e"
    and "perform call fault other d = (r, d')"
  shows "d' = other d \<and> r \<in> {Inl (OwnerMismatch i), Inl OverrideRequired, Inl StaticHasNoCollect}"
proof -
  have "e_id e = i" using get_entry_Some [OF assms(2)] by simp
  then show ?thesis
    using assms
    by (cases call)
      (auto simp: update_entry_def update_entry_lifecycle_def delete_entry_by_id_def operator_set_expiry_def
        operator_set_collecting_def operator_delete_entry_def get_entry_or_raise_def check_owner_def
        overriding_reason_def write_transaction_def apfst_discard Let_def split: option.splits if_splits)
qed

theorem unauthorised_writes_refused_witness:
  "perform (Operator_Delete 1 (Some \<lparr>oi_reason = '' '', oi_confirmed = True\<rparr>) id) None id sample_db
     \<in> {(Inl (OwnerMismatch 1), sample_db), (Inl OverrideRequired, sample_db), (Inl StaticHasNoCollect, sample_db)}"
proof -
  let ?call = "Operator_Delete 1 (Some \<lparr>oi_reason = '' '', oi_confirmed = True\<rparr>) id"
  obtain e where e: "get_entry sample_db 1 = Some e" "unauthorised ?call e"
    by (rule that [of "row_of_create 1 50 None (extend_key sample_key (Some 900) IEX)"]) code_simp+
  obtain r d' where p: "perform ?call None id sample_db = (r, d')" by fastforce
  have "target_of ?call = Some 1" by simp
  from unauthorised_writes_refused [OF this e p] show ?thesis unfolding p by auto
qed

text \<open>The override rows a write by the operator on dataset \<open>i\<close> of \<open>owner\<close> must add.\<close>

definition audited :: "uuid \<Rightarrow> string \<Rightarrow> override_action \<Rightarrow> db \<Rightarrow> db \<Rightarrow> bool" where
  "audited i owner action d d' \<longleftrightarrow>
     (if owner = OPERATOR_PRINCIPAL then overrides d' = overrides d
      else overrides d' \<noteq> [] \<and> butlast (overrides d') = overrides d \<and>
           (let row = last (overrides d') in ov_actor row = OPERATOR_PRINCIPAL \<and> ov_dataset row = i \<and>
              ov_owner row = owner \<and> ov_action row = action \<and> ov_reason row \<noteq> []))"

lemma overriding_reason_Inr: "overriding_reason owner operator ov = Inr reason \<Longrightarrow>
    (reason = None \<longleftrightarrow> owner = operator) \<and> reason \<noteq> Some []"
  by (auto simp: overriding_reason_def Let_def split: if_splits option.splits)

lemma audited_append:
  assumes "append_override OPERATOR_PRINCIPAL i owner action reason d' = Returns u d''"
    and "overriding_reason owner OPERATOR_PRINCIPAL ov = Inr reason" and "overrides d' = overrides d"
  shows "audited i owner action d d''"
  using append_override_db [OF assms(1)] overriding_reason_Inr [OF assms(2)] assms(3)
  by (cases reason) (auto simp: audited_def Let_def)

lemma update_row_rest [simp]:
  "overrides (snd (update_row i f d)) = overrides d" "deletions (snd (update_row i f d)) = deletions d"
  "bars (snd (update_row i f d)) = bars d" "ingest_runs (snd (update_row i f d)) = ingest_runs d"
  by (simp_all add: update_row_def)

lemma delete_entry_row_done:
  "delete_entry_row i d = Returns u d' \<Longrightarrow> i \<in> e_id ` set (entries d) \<and>
     d' = d\<lparr>entries := filter (\<lambda>e. e_id e \<noteq> i) (entries d), bars := filter (\<lambda>b. b_dataset b \<noteq> i) (bars d)\<rparr>"
  by (auto simp: delete_entry_row_def list_ex_iff split: if_splits)

lemma delete_and_record_done:
  assumes "delete_and_record e cause a c d = Returns u d'"
  shows "e_id e \<in> e_id ` set (entries d)"
    and "entries d' = filter (\<lambda>x. e_id x \<noteq> e_id e) (entries d)"
    and "bars d' = filter (\<lambda>b. b_dataset b \<noteq> e_id e) (bars d)"
    and "deletions d' = deletions d @ [deletion_of e (length (filter (\<lambda>b. b_dataset b = e_id e) (bars c))) cause a (db_now d)]"
    and "overrides d' = overrides d" and "ingest_runs d' = ingest_runs d"
proof -
  from assms obtain d1 where d1: "delete_entry_row (e_id e) d = Returns () d1"
    and d': "d' = d1\<lparr>deletions := deletions d1 @
      [deletion_of e (length (filter (\<lambda>b. b_dataset b = e_id e) (bars c))) cause a (db_now d1)]\<rparr>"
    by (auto simp: delete_and_record_def Let_def bind_b_Returns_iff append_deletion_def)
  show "e_id e \<in> e_id ` set (entries d)"
    "entries d' = filter (\<lambda>x. e_id x \<noteq> e_id e) (entries d)"
    "bars d' = filter (\<lambda>b. b_dataset b \<noteq> e_id e) (bars d)"
    "deletions d' = deletions d @ [deletion_of e (length (filter (\<lambda>b. b_dataset b = e_id e) (bars c))) cause a (db_now d)]"
    "overrides d' = overrides d" "ingest_runs d' = ingest_runs d"
    using delete_entry_row_done [OF d1] by (simp_all add: d')
qed

text \<open>The bars of a dataset are those its delete takes away.\<close>

lemma bars_taken: "length (filter (\<lambda>b. b_dataset b = i) bs) = length bs - length (filter (\<lambda>b. b_dataset b \<noteq> i) bs)"
  using sum_length_filter_compl [of "\<lambda>b. b_dataset b = i" bs] by simp

text \<open>C37. The operator's delete removes exactly the dataset and its own bars, and in the same commit records it: one
  deletion row with the number of bars its count saw, and, on another owner's dataset, one override row with a non-blank
  reason; every other dataset and bar stays. The number recorded is the number of bars that went when no other
  transaction added a bar to the dataset between the count and the delete; in general it is smaller by what was added.\<close>

theorem operator_delete_is_recorded:
  assumes "operator_delete_entry i override fault seen other d = (Inr u, d')"
  shows "\<exists>e n. get_entry d i = Some e \<and> audit_tables d
    \<and> entries d' = filter (\<lambda>x. e_id x \<noteq> i) (entries (other d))
    \<and> bars d' = filter (\<lambda>b. b_dataset b \<noteq> i) (bars (other d))
    \<and> deletions d' = deletions (other d) @ [deletion_of e n CAUSE_OPERATOR OPERATOR_PRINCIPAL (db_now (other d))]
    \<and> audited i (e_owner e) DELETE (other d) d'
    \<and> n = length (filter (\<lambda>b. b_dataset b = i) (bars (seen d)))
    \<and> (\<forall>added. length (filter (\<lambda>b. b_dataset b = i) (bars (other d))) = length (filter (\<lambda>b. b_dataset b = i) (bars (seen d))) + added
         \<longrightarrow> length (bars (other d)) - length (bars d') = n + added)"
proof -
  from assms obtain e reason d'' where e: "get_entry d i = Some e"
    "overriding_reason (e_owner e) OPERATOR_PRINCIPAL override = Inr reason" "audit_tables d"
    and del: "delete_and_record e CAUSE_OPERATOR OPERATOR_PRINCIPAL (seen d) (other d) = Returns () d''"
    and app: "append_override OPERATOR_PRINCIPAL i (e_owner e) DELETE reason d'' = Returns () d'"
    by (rule operator_delete_entry_done)
  have "e_id e = i" using get_entry_Some [OF e(1)] by simp
  then show ?thesis
    using e delete_and_record_done [OF del] append_override_db [OF app] audited_append [OF app e(2)] bars_taken [of i "bars (other d)"]
    by (intro exI [of _ e] exI [of _ "length (filter (\<lambda>b. b_dataset b = i) (bars (seen d)))"]) simp
qed

theorem operator_delete_is_recorded_witness:
  "\<exists>d'. operator_delete_entry 1 (Some \<lparr>oi_reason = '' stale '', oi_confirmed = True\<rparr>) None id id sample_db = (Inr (), d')
     \<and> entries d' = [] \<and> length (deletions d') = 1 \<and> audited 1 ''ann'' DELETE sample_db d'"
proof -
  let ?op = "operator_delete_entry 1 (Some \<lparr>oi_reason = '' stale '', oi_confirmed = True\<rparr>) None id id sample_db"
  have ok: "fst ?op = Inr ()" by code_simp
  then obtain d' where p: "?op = (Inr (), d')" by (cases ?op) simp
  have e: "get_entry sample_db 1 = Some (row_of_create 1 50 None (extend_key sample_key (Some 900) IEX))"
    "e_owner (row_of_create 1 50 None (extend_key sample_key (Some 900) IEX)) = ''ann''"
    "filter (\<lambda>x. e_id x \<noteq> 1) (entries sample_db) = []" "deletions sample_db = []" by code_simp+
  show ?thesis using operator_delete_is_recorded [OF p] p e by auto
qed

text \<open>A bar committed between the count and the delete goes with the dataset and is not counted.\<close>

definition late_bar :: "db \<Rightarrow> db" where
  "late_bar d = d\<lparr>bars := bars d @ [\<lparr>b_dataset = 1, b_symbol = ''AAPL'', b_source = ALPACA_API, b_feed = IEX, b_granularity = ONE_DAY,
     b_timestamp = 110, b_data = \<lparr>o_open = 1, o_high = 1, o_low = 1, o_close = 1, o_volume = 1, o_trade_count = 1\<rparr>,
     b_created_at = 50, b_updated_at = 50\<rparr>]\<rparr>"

lemma late_bar_is_not_counted:
  "let d' = snd (operator_delete_entry 1 (Some \<lparr>oi_reason = ''stale'', oi_confirmed = True\<rparr>) None id late_bar sample_db)
   in length (bars (late_bar sample_db)) = 1 \<and> bars d' = [] \<and> map de_bars (deletions d') = [0]"
  by code_simp

text \<open>An operator edit of the expiry or of the collect intent on another owner's dataset writes
  exactly one override row with a non-blank reason in the same commit, none on the operator's own,
  and touches no bar, no run and no deletion record; without the audit tables an overriding edit
  never happens.\<close>

theorem operator_edits_are_audited:
  assumes "call = Set_Expiry i x override \<or> call = Set_Collecting i y override"
    and "perform call fault other d = (Inr u, d')"
  shows "\<exists>e. get_entry d i = Some e
    \<and> audited i (e_owner e) (if call = Set_Expiry i x override then SET_EXPIRY else SET_COLLECTING) (other d) d'
    \<and> (e_owner e \<noteq> OPERATOR_PRINCIPAL \<longrightarrow> audit_tables d)
    \<and> bars d' = bars (other d) \<and> ingest_runs d' = ingest_runs (other d) \<and> deletions d' = deletions (other d)
    \<and> map e_id (entries d') = map e_id (entries (other d))"
  using assms(1)
proof
  assume c: "call = Set_Expiry i x override"
  then have "operator_set_expiry i x override fault other d = (Inr u, d')" using assms(2) by simp
  then obtain e reason where e: "get_entry d i = Some e"
    "overriding_reason (e_owner e) OPERATOR_PRINCIPAL override = Inr reason" "reason = None \<or> audit_tables d"
    and app: "append_override OPERATOR_PRINCIPAL i (e_owner e) SET_EXPIRY reason
       (snd (update_row i (\<lambda>e. e\<lparr>e_expiry := x, e_updated_at := db_now d\<rparr>) (other d))) = Returns () d'"
    by (rule operator_set_expiry_done)
  then show ?thesis
    using append_override_db [OF app] audited_append [OF app e(2)] overriding_reason_Inr [OF e(2)] c
    by (intro exI [of _ e]) (auto simp: update_row_def)
next
  assume c: "call = Set_Collecting i y override"
  then obtain v where "operator_set_collecting i y override fault other d = (Inr v, d')"
    using assms(2) by (auto simp: apfst_discard discard_Inr_iff)
  then obtain e reason where e: "get_entry d i = Some e"
    "overriding_reason (e_owner e) OPERATOR_PRINCIPAL override = Inr reason" "reason = None \<or> audit_tables d"
    and app: "append_override OPERATOR_PRINCIPAL i (e_owner e) SET_COLLECTING reason
       (snd (update_row i (\<lambda>e. e\<lparr>e_collect := Some y, e_updated_at := db_now d\<rparr>) (other d))) = Returns () d'"
    by (rule operator_set_collecting_done)
  then show ?thesis
    using append_override_db [OF app] audited_append [OF app e(2)] overriding_reason_Inr [OF e(2)] c
    by (intro exI [of _ e]) (auto simp: update_row_def)
qed

theorem operator_edits_are_audited_witness:
  "\<exists>d'. perform (Set_Expiry 1 None (Some \<lparr>oi_reason = ''keep'', oi_confirmed = True\<rparr>)) None id sample_db = (Inr (), d')
     \<and> audited 1 ''ann'' SET_EXPIRY sample_db d'"
proof -
  let ?call = "Set_Expiry 1 None (Some \<lparr>oi_reason = ''keep'', oi_confirmed = True\<rparr>)"
  have "fst (perform ?call None id sample_db) = Inr ()" by code_simp
  then obtain d' where p: "perform ?call None id sample_db = (Inr (), d')" by (cases "perform ?call None id sample_db") simp
  have e: "get_entry sample_db 1 = Some (row_of_create 1 50 None (extend_key sample_key (Some 900) IEX))"
    "e_owner (row_of_create 1 50 None (extend_key sample_key (Some 900) IEX)) = ''ann''" by code_simp+
  from operator_edits_are_audited [OF disjI1 [OF refl] p] e p show ?thesis by auto
qed

text \<open>C38. The reaper deletes a dataset exactly when its expiry is set and not later than the pass and
  no run of it is running, records that deletion with its bar count, and otherwise changes nothing.
  The row is read under its lock: a renewal that committed first is seen and keeps the dataset.\<close>

theorem reaper_deletes_only_expired_idle:
  assumes "reaper_delete_entry i now fault d = (Inr deleted, d')"
  shows "\<exists>e. get_entry d i = Some e
    \<and> deleted = ((\<exists>t. e_expiry e = Some t \<and> t \<le> now) \<and> \<not> dataset_has_running_run d i)
    \<and> (\<not> deleted \<longrightarrow> d' = d)
    \<and> (deleted \<longrightarrow> entries d' = filter (\<lambda>x. e_id x \<noteq> i) (entries d)
        \<and> bars d' = filter (\<lambda>b. b_dataset b \<noteq> i) (bars d)
        \<and> deletions d' = deletions d @
            [deletion_of e (length (bars d) - length (bars d')) CAUSE_REAPER REAPER_ACTOR (db_now d)]
        \<and> overrides d' = overrides d)"
proof -
  from assms obtain e where e: "get_entry d i = Some e"
    "deleted \<longleftrightarrow> (\<exists>t. e_expiry e = Some t \<and> t \<le> now) \<and> \<not> dataset_has_running_run d i"
    and del: "if deleted then delete_and_record e CAUSE_REAPER REAPER_ACTOR d d = Returns () d' else d' = d"
    by (rule reaper_delete_entry_done)
  have i: "e_id e = i" using get_entry_Some [OF e(1)] by simp
  show ?thesis
  proof (cases deleted)
    case True
    then have "delete_and_record e CAUSE_REAPER REAPER_ACTOR d d = Returns () d'" using del by simp
    then show ?thesis
      using delete_and_record_done [of e CAUSE_REAPER REAPER_ACTOR d d "()" d'] bars_taken [of i "bars d"] e True i by (intro exI [of _ e]) simp
  qed (use del e in auto)
qed

theorem reaper_deletes_only_expired_idle_witness:
  "fst (reaper_delete_entry 1 899 None sample_db) = Inr False \<and> snd (reaper_delete_entry 1 899 None sample_db) = sample_db
   \<and> fst (reaper_delete_entry 1 900 None sample_db) = Inr True
   \<and> entries (snd (reaper_delete_entry 1 900 None sample_db)) = []"
proof -
  have p: "fst (reaper_delete_entry 1 899 None sample_db) = Inr False"
    "fst (reaper_delete_entry 1 900 None sample_db) = Inr True"
    "filter (\<lambda>x. e_id x \<noteq> 1) (entries sample_db) = []" by code_simp+
  have "reaper_delete_entry 1 899 None sample_db = (Inr False, snd (reaper_delete_entry 1 899 None sample_db))"
    "reaper_delete_entry 1 900 None sample_db = (Inr True, snd (reaper_delete_entry 1 900 None sample_db))"
    using p by (metis prod.collapse)+
  from reaper_deletes_only_expired_idle [OF this(1)] reaper_deletes_only_expired_idle [OF this(2)] p
  show ?thesis by auto
qed

text \<open>The logs of one write.\<close>

lemma delete_entry_row_logs:
  "delete_entry_row i d = Returns u d' \<Longrightarrow> overrides d' = overrides d \<and> deletions d' = deletions d"
  by (auto simp: delete_entry_row_def split: if_splits)

definition logs_grow :: "db \<Rightarrow> db \<Rightarrow> bool" where
  "logs_grow d d' \<longleftrightarrow> prefix (overrides d) (overrides d') \<and> prefix (deletions d) (deletions d')"

lemma logs_grow_refl: "logs_grow d d"
  by (simp add: logs_grow_def)

lemma logs_grow_trans: "logs_grow a b \<Longrightarrow> logs_grow b c \<Longrightarrow> logs_grow a c"
  unfolding logs_grow_def by (meson prefix_order.trans)

lemma logs_grow_steps:
  "delete_entry_row i d = Returns u d' \<Longrightarrow> logs_grow d d'"
  "append_override a i ow act reason d = Returns u d' \<Longrightarrow> logs_grow d d'"
  "delete_and_record e cause a c' d = Returns u d' \<Longrightarrow> logs_grow d d'"
  "upsert_entry_in_transaction n c p co d = Returns j d' \<Longrightarrow> logs_grow d d'"
  "logs_grow d (snd (update_row i f d))"
proof -
  show "delete_entry_row i d = Returns u d' \<Longrightarrow> logs_grow d d'"
    using delete_entry_row_logs by (simp add: logs_grow_def)
  show "append_override a i ow act reason d = Returns u d' \<Longrightarrow> logs_grow d d'"
    using append_override_db [of a i ow act reason d u d'] by (simp add: logs_grow_def)
  show "delete_and_record e cause a c' d = Returns u d' \<Longrightarrow> logs_grow d d'"
    using delete_and_record_done [of e cause a c' d u d'] by (simp add: logs_grow_def)
  show "upsert_entry_in_transaction n c p co d = Returns j d' \<Longrightarrow> logs_grow d d'"
    by (auto simp: upsert_entry_in_transaction_def Let_def logs_grow_def split: option.splits)
  show "logs_grow d (snd (update_row i f d))" by (simp add: update_row_def logs_grow_def)
qed

lemma perform_logs:
  assumes "perform call fault other d = (Inr u, d')"
  shows "logs_grow (other d) d'"
proof (cases call)
  case (Create n c co)
  then show ?thesis using assms logs_grow_steps(4) upsert_entry_done(2) by (fastforce simp: apfst_discard)
next
  case (Grow i c)
  then show ?thesis using assms logs_grow_steps(5) by (auto elim!: update_entry_done)
next
  case (Touch i ow)
  then show ?thesis using assms logs_grow_steps(5) by (auto elim!: update_entry_lifecycle_done)
next
  case (Delete_By_Id i ow)
  then show ?thesis using assms logs_grow_steps(1) by (auto elim!: delete_entry_by_id_done)
next
  case (Set_Expiry i x ov)
  then have "operator_set_expiry i x ov fault other d = (Inr u, d')" using assms by simp
  then show ?thesis
    by (rule operator_set_expiry_done) (meson logs_grow_trans logs_grow_steps(2,5))
next
  case (Set_Collecting i y ov)
  then obtain v where "operator_set_collecting i y ov fault other d = (Inr v, d')"
    using assms by (auto simp: apfst_discard)
  then show ?thesis
    by (rule operator_set_collecting_done) (meson logs_grow_trans logs_grow_steps(2,5))
next
  case (Operator_Delete i ov seen)
  then have "operator_delete_entry i ov fault seen other d = (Inr u, d')" using assms by simp
  then show ?thesis
    by (rule operator_delete_entry_done) (meson logs_grow_trans logs_grow_steps(2,3))
next
  case (Reap i now)
  then obtain b where "reaper_delete_entry i now fault (other d) = (Inr b, d')"
    using assms by (auto simp: apfst_discard)
  then show ?thesis
    by (rule reaper_delete_entry_done) (auto simp: logs_grow_refl split: if_splits intro: logs_grow_steps(3))
qed

section \<open>Interleaved writes\<close>

text \<open>
  What concurrent transactions commit, in any order: between the reads of a call and its writes the
  other calls take the database from \<open>d1\<close> to \<open>d2\<close>, and the clock of the database moves on.
\<close>

inductive evolves :: "db \<Rightarrow> db \<Rightarrow> bool" where
  stays: "evolves d d"
| call_commits: "evolves d d3" if "evolves d d1" "evolves d1 d2" "fresh_for call d2" "perform call fault (\<lambda>_. d2) d1 = (r, d3)"
| time_passes: "evolves d (d1\<lparr>db_now := t\<rparr>)" if "evolves d d1"

text \<open>C1. Under every interleaving of creates, PATCHes, deletes, operator edits and reaper deletes,
  committed or rolled back, the store keeps its constraints: unique identifiers and natural keys, a
  collect intent exactly on the datasets that refresh, and no bar without its dataset.\<close>

theorem store_invariant:
  assumes "evolves d d'" and "db_ok d"
  shows "db_ok d'"
  using assms
proof (induction rule: evolves.induct)
  case (call_commits d d1 d2 call fault r d3)
  then show ?case using perform_ok [of call fault "\<lambda>_. d2" d1 r d3] by blast
next
  case (time_passes d d1 t)
  then show ?case by (simp add: db_ok_def)
qed simp

theorem store_invariant_witness:
  "db_ok (snd (perform (Grow 1 (extend_key (sample_key\<lparr>k_end := None\<rparr>) None IEX)) None (\<lambda>_. sample_db) sample_db))"
proof -
  let ?call = "Grow 1 (extend_key (sample_key\<lparr>k_end := None\<rparr>) None IEX)"
  have "evolves sample_db (snd (perform ?call None (\<lambda>_. sample_db) sample_db))"
    by (rule evolves.call_commits [OF evolves.stays evolves.stays _ surjective_pairing]) simp
  then show ?thesis using store_invariant sample_db_ok by blast
qed

text \<open>The audit log and the deletion log are append-only: no interleaving of writes removes,
  reorders or rewrites an override row or a deletion row.\<close>

theorem audit_logs_append_only:
  assumes "evolves d d'"
  shows "prefix (overrides d) (overrides d') \<and> prefix (deletions d) (deletions d')"
proof -
  have "logs_grow d d'" using assms
  proof (induction rule: evolves.induct)
    case (call_commits d d1 d2 call fault r d3)
    have "logs_grow d2 d3"
    proof (cases r)
      case (Inl e)
      then show ?thesis using perform_rolls_back [of call fault "\<lambda>_. d2" d1 e d3] call_commits(4) logs_grow_refl by simp
    next
      case (Inr u)
      then show ?thesis using perform_logs [of call fault "\<lambda>_. d2" d1 u d3] call_commits(4) by simp
    qed
    then show ?case using call_commits.IH logs_grow_trans by blast
  qed (auto simp: logs_grow_def)
  then show ?thesis by (simp add: logs_grow_def)
qed

theorem audit_logs_append_only_witness:
  "prefix (deletions sample_db) (deletions (snd (perform (Reap 1 900) None (\<lambda>_. sample_db) sample_db)))
   \<and> length (deletions (snd (perform (Reap 1 900) None (\<lambda>_. sample_db) sample_db))) = 1"
proof -
  have "evolves sample_db (snd (perform (Reap 1 900) None (\<lambda>_. sample_db) sample_db))"
    by (rule evolves.call_commits [OF evolves.stays evolves.stays _ surjective_pairing]) simp
  note a = audit_logs_append_only [OF this]
  have "length (deletions (snd (perform (Reap 1 900) None (\<lambda>_. sample_db) sample_db))) = 1" by code_simp
  then show ?thesis using a by blast
qed

text \<open>A commit that fails turns a success into the failure its SQLSTATE names.\<close>

lemma write_transaction_fault:
  "write_transaction None kept body = (Inr x, d) \<Longrightarrow> write_transaction (Some f) kept body = (Inl (sql_failure f), kept)"
  by (auto simp: write_transaction_def split: block.splits)

lemma perform_fault:
  assumes "perform call None other d = (Inr u, d')"
  shows "perform call (Some f) other d = (Inl (sql_failure f), other d)"
  using assms
  by (cases call)
    (auto simp: upsert_entry_def update_entry_def update_entry_lifecycle_def delete_entry_by_id_def
      operator_set_expiry_def operator_set_collecting_def operator_delete_entry_def reaper_delete_entry_def
      apfst_discard Let_def dest: write_transaction_fault)

text \<open>A write that fails, for whatever reason, changes nothing: a refusal, an error of a
  statement or an error of the commit leaves exactly what the other transactions committed. A commit
  that Postgres aborts for serialisation or as a deadlock victim is reported as the retryable
  database conflict even when the driver raises it under its connection error class.\<close>

theorem failed_write_changes_nothing:
  "(perform call fault other d = (Inl e, d') \<longrightarrow> d' = other d) \<and>
   (perform call None other d = (Inr u, d'') \<and> is_dbapi f \<and> sqlstate f \<in> {Some ''40001'', Some ''40P01''} \<longrightarrow>
      perform call (Some f) other d = (Inl (DatabaseFailure DATABASE_CONFLICT), other d))"
proof (intro conjI impI)
  show "perform call fault other d = (Inl e, d') \<Longrightarrow> d' = other d" by (rule perform_rolls_back)
  assume "perform call None other d = (Inr u, d'') \<and> is_dbapi f \<and> sqlstate f \<in> {Some ''40001'', Some ''40P01''}"
  then show "perform call (Some f) other d = (Inl (DatabaseFailure DATABASE_CONFLICT), other d)"
    using perform_fault [of call other d u d'' f] by (auto simp: reason_for_def CONFLICT_SQLSTATES_def)
qed

theorem failed_write_changes_nothing_witness:
  "perform (Grow 1 (extend_key (sample_key\<lparr>k_start := 150\<rparr>) None IEX)) None id sample_db = (Inl (RangeShrink 1), sample_db)
   \<and> perform (Reap 1 900) (Some \<lparr>sql_class = OperationalError, sqlstate = Some ''40P01'', connection_invalidated = False\<rparr>)
       id sample_db = (Inl (DatabaseFailure DATABASE_CONFLICT), sample_db)"
proof -
  let ?grow = "Grow 1 (extend_key (sample_key\<lparr>k_start := 150\<rparr>) None IEX)"
  let ?f = "\<lparr>sql_class = OperationalError, sqlstate = Some ''40P01'', connection_invalidated = False\<rparr>"
  have "fst (perform ?grow None id sample_db) = Inl (RangeShrink 1)" by code_simp
  then have g: "perform ?grow None id sample_db = (Inl (RangeShrink 1), snd (perform ?grow None id sample_db))"
    by (metis prod.collapse)
  have "fst (perform (Reap 1 900) None id sample_db) = Inr ()" by code_simp
  then have r: "perform (Reap 1 900) None id sample_db = (Inr (), snd (perform (Reap 1 900) None id sample_db))"
    by (metis prod.collapse)
  have "is_dbapi ?f \<and> sqlstate ?f \<in> {Some ''40001'', Some ''40P01''}" by (simp add: is_dbapi_def)
  then have "perform (Reap 1 900) (Some ?f) id sample_db = (Inl (DatabaseFailure DATABASE_CONFLICT), id sample_db)"
    using failed_write_changes_nothing r by blast
  moreover have "snd (perform ?grow None id sample_db) = id sample_db"
    using failed_write_changes_nothing g by blast
  ultimately show ?thesis using g by (metis id_apply)
qed

end
