(* ===== verification/Bar_Writes.thy ===== *)
theory Bar_Writes
  imports Store_Entries "HOL-Library.Product_Lexorder" "HOL-Library.Multiset"
begin

text \<open>
  \<open>server/data/store/app/database/crud/stock/asset_market_activity.py\<close>: the bar writes and the bar
  read. A batch is upserted in statements of at most \<open>_resolve_chunk_size\<close> rows inside the caller's
  transaction; \<open>upsert_statement\<close> is one of them with the four ways the driver or Postgres refuses it.
\<close>

section \<open>Batches\<close>

record bar_create =
  bc_timestamp :: stamp
  bc_data :: ohlcv

text \<open>\<open>BatchStockDataMarketActivityCreate\<close>\<close>

record bar_batch =
  bb_dataset_id :: uuid
  bb_symbol :: string
  bb_source :: data_source
  bb_feed :: feed
  bb_granularity :: granularity
  bb_dataset :: "data_type \<Rightarrow> bar_create list option"

text \<open>\<open>StockMarketActivity.from_batch_create\<close>, the \<open>func.now()\<close> defaults included\<close>

definition row_of_bar :: "bar_batch \<Rightarrow> instant \<Rightarrow> bar_create \<Rightarrow> bar" where
  "row_of_bar batch now b =
     \<lparr>b_dataset = bb_dataset_id batch, b_symbol = bb_symbol batch, b_source = bb_source batch,
      b_feed = bb_feed batch, b_granularity = bb_granularity batch, b_timestamp = instant_of (bc_timestamp b),
      b_data = bc_data b, b_created_at = now, b_updated_at = now\<rparr>"

definition from_batch_create :: "bar_batch \<Rightarrow> instant \<Rightarrow> bar list" where
  "from_batch_create batch now =
     (case bb_dataset batch MARKET_ACTIVITY of None \<Rightarrow> [] | Some bs \<Rightarrow> map (row_of_bar batch now) bs)"

section \<open>How many rows a statement takes\<close>

record column =
  column_name :: string
  primary_key :: bool
  has_default :: bool

definition bound_column :: "string \<Rightarrow> column" where
  "bound_column n = \<lparr>column_name = n, primary_key = False, has_default = False\<rparr>"

definition bar_columns :: "column list" where
  "bar_columns =
     [\<lparr>column_name = ''id'', primary_key = True, has_default = False\<rparr>,
      bound_column ''dataset_id'', bound_column ''source'', bound_column ''asset_symbol'', bound_column ''feed'',
      bound_column ''timestamp'', bound_column ''granularity'',
      \<lparr>column_name = ''created_at'', primary_key = False, has_default = True\<rparr>,
      \<lparr>column_name = ''updated_at'', primary_key = False, has_default = True\<rparr>,
      bound_column ''open'', bound_column ''high'', bound_column ''low'', bound_column ''close'',
      bound_column ''volume'', bound_column ''trade_count'']"

definition bind_params_per_row :: nat where
  "bind_params_per_row = length (filter (\<lambda>c. \<not> primary_key c \<and> \<not> has_default c) bar_columns)"

definition POSTGRES_MAX_BIND_PARAMETERS :: nat where
  "POSTGRES_MAX_BIND_PARAMETERS = 65535"

definition ASYNCPG_MAX_QUERY_ARGUMENTS :: nat where
  "ASYNCPG_MAX_QUERY_ARGUMENTS = 32767"

definition MAX_BIND_PARAMETERS :: nat where
  "MAX_BIND_PARAMETERS = min POSTGRES_MAX_BIND_PARAMETERS ASYNCPG_MAX_QUERY_ARGUMENTS"

definition resolve_chunk_size :: "int option \<Rightarrow> nat" where
  "resolve_chunk_size requested =
     (let max_rows = MAX_BIND_PARAMETERS div bind_params_per_row
      in case requested of
           None \<Rightarrow> max_rows
         | Some r \<Rightarrow> if r = 0 \<or> r \<le> 0 then max_rows
                    else if r > int max_rows then max_rows
                    else nat r)"

section \<open>One statement\<close>

text \<open>The \<open>DO UPDATE\<close> part of \<open>build_market_activity_upsert\<close>: the mutable columns and \<open>updated_at\<close>.\<close>

definition bar_update :: "bar \<Rightarrow> bar \<Rightarrow> bar" where
  "bar_update row r = r\<lparr>b_data := b_data row, b_updated_at := b_updated_at row\<rparr>"

interpretation bar_table: refreshing_table bar_key bar_update
  by unfold_locales (auto simp: bar_key_def bar_update_def)

text \<open>The integer columns \<open>volume\<close> and \<open>trade_count\<close> are \<open>int4\<close>; the driver refuses a value outside it (22000).\<close>

definition int4 :: "int \<Rightarrow> bool" where
  "int4 n \<longleftrightarrow> - (2 ^ 31) \<le> n \<and> n < 2 ^ 31"

definition row_fits :: "ohlcv \<Rightarrow> bool" where
  "row_fits v \<longleftrightarrow> int4 (o_volume v) \<and> int4 (o_trade_count v)"

definition OUT_OF_RANGE :: sql_error where
  "OUT_OF_RANGE = \<lparr>sql_class = OtherDBAPIError, sqlstate = Some ''22000'', connection_invalidated = False\<rparr>"

text \<open>
  The statement is refused by the driver when it binds too many arguments or an integer out of range, by Postgres
  when two of its rows have one key (21000) or a row names no dataset (23503).
\<close>

definition upsert_statement :: "bar list \<Rightarrow> db \<Rightarrow> unit block" where
  "upsert_statement rows d =
     (if length rows * bind_params_per_row > ASYNCPG_MAX_QUERY_ARGUMENTS
      then Fails \<lparr>sql_class = InterfaceError, sqlstate = None, connection_invalidated = False\<rparr>
      else if \<not> list_all (\<lambda>b. row_fits (b_data b)) rows then Fails OUT_OF_RANGE
      else if \<not> distinct (map bar_key rows)
      then Fails \<lparr>sql_class = OtherDBAPIError, sqlstate = Some ''21000'', connection_invalidated = False\<rparr>
      else if \<not> list_all (\<lambda>b. b_dataset b \<in> set (map e_id (entries d))) rows
      then Fails \<lparr>sql_class = IntegrityError, sqlstate = Some ''23503'', connection_invalidated = False\<rparr>
      else Returns () (d\<lparr>bars := fold (\<lambda>row. upsert_row bar_key (bar_update row) row) rows (bars d)\<rparr>))"

section \<open>The batch write\<close>

text \<open>The guard: the first bar whose instant an earlier bar of the batch already has.\<close>

fun duplicate_timestamp :: "instant set \<Rightarrow> bar_create list \<Rightarrow> stamp option" where
  "duplicate_timestamp seen [] = None"
| "duplicate_timestamp seen (b # bs) =
     (if instant_of (bc_timestamp b) \<in> seen then Some (bc_timestamp b)
      else duplicate_timestamp (insert (instant_of (bc_timestamp b)) seen) bs)"

text \<open>\<open>range(0, len(vals), chunk_size)\<close>\<close>

function write_chunks :: "nat \<Rightarrow> nat \<Rightarrow> bar list \<Rightarrow> db \<Rightarrow> unit block" where
  "write_chunks chunk_start chunk_size vals d =
     (if chunk_start < length vals \<and> 0 < chunk_size
      then bind_b (upsert_statement (take chunk_size (drop chunk_start vals)) d)
             (\<lambda>_ d. write_chunks (chunk_start + chunk_size) chunk_size vals d)
      else Returns () d)"
  by pat_completeness auto
termination by (relation "measure (\<lambda>(start, n, vs, d). length vs - start)") auto

declare write_chunks.simps [simp del]

definition write_market_activity_in_transaction :: "bar_batch \<Rightarrow> int option \<Rightarrow> db \<Rightarrow> nat block" where
  "write_market_activity_in_transaction batch requested d =
     (case bb_dataset batch MARKET_ACTIVITY of
        None \<Rightarrow> Returns 0 d
      | Some [] \<Rightarrow> Returns 0 d
      | Some bs \<Rightarrow>
          (case duplicate_timestamp {} bs of
             Some t \<Rightarrow> Raises (DuplicateBatchTimestamp t)
           | None \<Rightarrow> bind_b (write_chunks 0 (resolve_chunk_size requested) (from_batch_create batch (db_now d)) d)
                       (\<lambda>_ d. Returns (length bs) d)))"

definition batch_create_market_activity_data ::
  "bar_batch \<Rightarrow> int option \<Rightarrow> sql_error option \<Rightarrow> db \<Rightarrow> (store_error + nat) \<times> db" where
  "batch_create_market_activity_data batch requested fault d =
     (case bb_dataset batch MARKET_ACTIVITY of
        None \<Rightarrow> (Inr 0, d)
      | Some [] \<Rightarrow> (Inr 0, d)
      | Some (b # bs) \<Rightarrow> write_transaction fault d (write_market_activity_in_transaction batch requested d))"

text \<open>The single create: a plain insert, refused on an existing key.\<close>

definition create_market_activity_data ::
  "bar \<Rightarrow> sql_error option \<Rightarrow> db \<Rightarrow> (store_error + bar) \<times> db" where
  "create_market_activity_data b fault d =
     write_transaction fault d
       (let row = b\<lparr>b_created_at := db_now d, b_updated_at := db_now d\<rparr>
        in if \<not> row_fits (b_data row) then Fails OUT_OF_RANGE
           else if list_ex (\<lambda>r. bar_key r = bar_key row) (bars d)
           then Fails \<lparr>sql_class = IntegrityError, sqlstate = Some ''23505'', connection_invalidated = False\<rparr>
           else if \<not> list_ex (\<lambda>e. e_id e = b_dataset row) (entries d)
           then Fails \<lparr>sql_class = IntegrityError, sqlstate = Some ''23503'', connection_invalidated = False\<rparr>
           else Returns row (d\<lparr>bars := bars d @ [row]\<rparr>))"

section \<open>The read\<close>

record bar_query =
  qb_dataset_id :: "uuid option"
  qb_symbol :: "string option"
  qb_source :: "data_source option"
  qb_feed :: "feed option"
  qb_granularity :: "granularity option"
  qb_start :: "instant option"
  qb_end :: "instant option"

definition bar_conditions :: "bar_query \<Rightarrow> bar \<Rightarrow> bool" where
  "bar_conditions q b \<longleftrightarrow>
     filters (qb_dataset_id q) (b_dataset b) \<and> filters (qb_symbol q) (b_symbol b) \<and>
     filters (qb_source q) (b_source b) \<and> filters (qb_feed q) (b_feed b) \<and>
     filters (qb_granularity q) (b_granularity b) \<and>
     (case qb_start q of None \<Rightarrow> True | Some s \<Rightarrow> s \<le> b_timestamp b) \<and>
     (case qb_end q of None \<Rightarrow> True | Some e \<Rightarrow> b_timestamp b < e)"

definition read_market_activity_data :: "bar_query \<Rightarrow> db \<Rightarrow> bar list" where
  "read_market_activity_data q d =
     sort_key (\<lambda>b. (b_timestamp b, b_dataset b)) (filter (bar_conditions q) (bars d))"

text \<open>\<open>AssetDataQuery\<close>: a query that names neither a dataset nor a symbol cannot be built.\<close>

definition require_dataset_or_symbol :: "bar_query \<Rightarrow> bool" where
  "require_dataset_or_symbol q \<longleftrightarrow>
     (case qb_symbol q of None \<Rightarrow> qb_dataset_id q \<noteq> None | Some s \<Rightarrow> strip s \<noteq> [])"

section \<open>Chunks\<close>

lemma bind_params [simp]: "bind_params_per_row = 12"
  by (simp add: bind_params_per_row_def bar_columns_def bound_column_def)

lemma max_rows: "MAX_BIND_PARAMETERS div bind_params_per_row = 2730"
  by (simp add: MAX_BIND_PARAMETERS_def POSTGRES_MAX_BIND_PARAMETERS_def ASYNCPG_MAX_QUERY_ARGUMENTS_def)

lemma chunk_size_bounds: "0 < resolve_chunk_size r" "resolve_chunk_size r \<le> 2730"
  unfolding resolve_chunk_size_def Let_def max_rows by (auto split: option.splits if_splits)

lemma duplicate_timestamp_None:
  "duplicate_timestamp seen bs = None \<longleftrightarrow>
     distinct (map (instant_of \<circ> bc_timestamp) bs) \<and> (\<forall>b\<in>set bs. instant_of (bc_timestamp b) \<notin> seen)"
  by (induction bs arbitrary: seen) (auto simp: image_iff)

lemma duplicate_timestamp_Some:
  "duplicate_timestamp seen bs = Some t \<Longrightarrow> \<exists>before b after. bs = before @ b # after \<and> t = bc_timestamp b \<and>
     distinct (map (instant_of \<circ> bc_timestamp) before) \<and>
     instant_of t \<in> seen \<union> (instant_of \<circ> bc_timestamp) ` set before \<and>
     seen \<inter> (instant_of \<circ> bc_timestamp) ` set before = {}"
proof (induction bs arbitrary: seen)
  case (Cons x xs)
  show ?case
  proof (cases "instant_of (bc_timestamp x) \<in> seen")
    case True
    then show ?thesis using Cons.prems by (intro exI [of _ "[]"]) auto
  next
    case False
    then have "duplicate_timestamp (insert (instant_of (bc_timestamp x)) seen) xs = Some t" using Cons.prems by simp
    from Cons.IH [OF this] obtain before b after where "xs = before @ b # after" "t = bc_timestamp b"
      "distinct (map (instant_of \<circ> bc_timestamp) before)"
      "instant_of t \<in> insert (instant_of (bc_timestamp x)) seen \<union> (instant_of \<circ> bc_timestamp) ` set before"
      "insert (instant_of (bc_timestamp x)) seen \<inter> (instant_of \<circ> bc_timestamp) ` set before = {}" by blast
    then show ?thesis using False by (intro exI [of _ "x # before"]) (auto simp: comp_def)
  qed
qed simp

lemma from_batch_create_Some:
  "bb_dataset batch MARKET_ACTIVITY = Some bs \<Longrightarrow> from_batch_create batch now = map (row_of_bar batch now) bs"
  by (simp add: from_batch_create_def)

lemma row_keys: "distinct (map bar_key (map (row_of_bar batch now) bs)) \<longleftrightarrow> distinct (map (instant_of \<circ> bc_timestamp) bs)"
  by (auto simp: distinct_map inj_on_def bar_key_def row_of_bar_def)

lemma rows_dataset: "b \<in> set (map (row_of_bar batch now) bs) \<Longrightarrow> b_dataset b = bb_dataset_id batch"
  by (auto simp: row_of_bar_def)

abbreviation has_dataset :: "db \<Rightarrow> uuid \<Rightarrow> bool" where
  "has_dataset d i \<equiv> i \<in> set (map e_id (entries d))"

lemma upsert_statement_ok:
  assumes "length rows \<le> 2730" and "distinct (map bar_key rows)" and "\<forall>b\<in>set rows. has_dataset d (b_dataset b)"
    and "\<forall>b\<in>set rows. row_fits (b_data b)"
  shows "upsert_statement rows d = Returns () (d\<lparr>bars := bar_table.upserts rows (bars d)\<rparr>)"
  using assms by (simp add: upsert_statement_def ASYNCPG_MAX_QUERY_ARGUMENTS_def list_all_iff)

lemma fold_take_drop: "fold f (drop n xs) (fold f (take n xs) a) = fold f xs a"
  using fold_append [of f "take n xs" "drop n xs"] by simp

lemma write_chunks_ok:
  assumes "0 < n" and "n \<le> 2730" and "distinct (map bar_key vals)" and "\<forall>b\<in>set vals. has_dataset d (b_dataset b)"
    and "\<forall>b\<in>set vals. row_fits (b_data b)"
  shows "write_chunks s n vals d = Returns () (d\<lparr>bars := bar_table.upserts (drop s vals) (bars d)\<rparr>)"
  using assms
proof (induction s n vals d rule: write_chunks.induct)
  case (1 s n vals d)
  show ?case
  proof (cases "s < length vals")
    case True
    let ?chunk = "take n (drop s vals)"
    let ?d = "d\<lparr>bars := bar_table.upserts ?chunk (bars d)\<rparr>"
    have in_values: "set ?chunk \<subseteq> set vals" by (meson order_trans set_drop_subset set_take_subset)
    have "distinct (map bar_key ?chunk)"
      using "1.prems"(3) by (simp add: drop_map [symmetric] take_map [symmetric])
    then have st: "upsert_statement ?chunk d = Returns () ?d"
      using "1.prems"(2,4,5) in_values by (intro upsert_statement_ok) auto
    have rest: "write_chunks (s + n) n vals ?d = Returns () (?d\<lparr>bars := bar_table.upserts (drop (s + n) vals) (bars ?d)\<rparr>)"
      using "1.IH" [of ?d] True "1.prems" by simp
    have split: "bar_table.upserts (drop (s + n) vals) (bar_table.upserts ?chunk rs) = bar_table.upserts (drop s vals) rs" for rs
      using fold_take_drop [of _ n "drop s vals" rs] by (simp add: add.commute)
    have "write_chunks s n vals d = write_chunks (s + n) n vals ?d"
      using True "1.prems"(1) st by (simp add: write_chunks.simps [of s])
    then show ?thesis unfolding rest by (simp add: split)
  qed (simp add: write_chunks.simps [of s])
qed

lemma write_chunks_refuses:
  assumes "0 < n" and "n \<le> 2730" and "distinct (map bar_key vals)" and "\<forall>b\<in>set vals. has_dataset d (b_dataset b)"
    and "\<exists>b\<in>set (drop s vals). \<not> row_fits (b_data b)"
  shows "write_chunks s n vals d = Fails OUT_OF_RANGE"
  using assms
proof (induction s n vals d rule: write_chunks.induct)
  case (1 s n vals d)
  let ?chunk = "take n (drop s vals)"
  have s: "s < length vals" using "1.prems"(5) by (cases "s < length vals") auto
  have few: "length ?chunk * bind_params_per_row \<le> ASYNCPG_MAX_QUERY_ARGUMENTS"
    using "1.prems"(2) by (simp add: ASYNCPG_MAX_QUERY_ARGUMENTS_def)
  show ?case
  proof (cases "\<forall>b\<in>set ?chunk. row_fits (b_data b)")
    case False
    then have "upsert_statement ?chunk d = Fails OUT_OF_RANGE" using few by (auto simp: upsert_statement_def list_all_iff)
    then show ?thesis using s "1.prems"(1) by (simp add: write_chunks.simps [of s])
  next
    case True
    let ?d = "d\<lparr>bars := bar_table.upserts ?chunk (bars d)\<rparr>"
    have in_values: "set ?chunk \<subseteq> set vals" by (meson order_trans set_drop_subset set_take_subset)
    have "distinct (map bar_key ?chunk)"
      using "1.prems"(3) by (simp add: drop_map [symmetric] take_map [symmetric])
    then have st: "upsert_statement ?chunk d = Returns () ?d"
      using "1.prems"(2,4) True in_values by (intro upsert_statement_ok) auto
    have "drop s vals = ?chunk @ drop (s + n) vals" by (metis add.commute append_take_drop_id drop_drop)
    then have "\<exists>b\<in>set (drop (s + n) vals). \<not> row_fits (b_data b)" using "1.prems"(5) True by (metis Un_iff set_append)
    then have "write_chunks (s + n) n vals ?d = Fails OUT_OF_RANGE" using "1.IH" [of ?d] s "1.prems" by simp
    then show ?thesis using s "1.prems"(1) st by (simp add: write_chunks.simps [of s])
  qed
qed

lemma write_Some:
  assumes "bb_dataset batch MARKET_ACTIVITY = Some bs"
  shows "write_market_activity_in_transaction batch requested d =
    (case duplicate_timestamp {} bs of
       Some t \<Rightarrow> Raises (DuplicateBatchTimestamp t)
     | None \<Rightarrow> bind_b (write_chunks 0 (resolve_chunk_size requested) (from_batch_create batch (db_now d)) d)
                 (\<lambda>_ d. Returns (length bs) d))"
  using assms by (cases bs)
    (simp_all add: write_market_activity_in_transaction_def from_batch_create_def write_chunks.simps
      del: duplicate_timestamp.simps(2) cong: option.case_cong)

text \<open>What a batch writes, as one table operation.\<close>

lemma batch_write:
  assumes "bb_dataset batch MARKET_ACTIVITY = Some bs" and "distinct (map (instant_of \<circ> bc_timestamp) bs)"
    and "has_dataset d (bb_dataset_id batch)"
  shows "write_market_activity_in_transaction batch requested d =
    (if \<forall>b\<in>set bs. row_fits (bc_data b)
     then Returns (length bs) (d\<lparr>bars := bar_table.upserts (from_batch_create batch (db_now d)) (bars d)\<rparr>)
     else Fails OUT_OF_RANGE)"
proof -
  let ?rows = "from_batch_create batch (db_now d)"
  have rows: "?rows = map (row_of_bar batch (db_now d)) bs" using assms(1) by (rule from_batch_create_Some)
  have fits: "(\<forall>r\<in>set ?rows. row_fits (b_data r)) \<longleftrightarrow> (\<forall>b\<in>set bs. row_fits (bc_data b))" by (simp add: rows row_of_bar_def)
  have keys: "distinct (map bar_key ?rows)" and dataset: "\<forall>b\<in>set ?rows. has_dataset d (b_dataset b)"
    using assms(2,3) row_keys rows_dataset unfolding rows by metis+
  have "write_chunks 0 (resolve_chunk_size requested) ?rows d =
      (if \<forall>b\<in>set bs. row_fits (bc_data b) then Returns () (d\<lparr>bars := bar_table.upserts ?rows (bars d)\<rparr>) else Fails OUT_OF_RANGE)"
  proof (cases "\<forall>b\<in>set bs. row_fits (bc_data b)")
    case True
    with fits have "\<forall>r\<in>set ?rows. row_fits (b_data r)" by blast
    from write_chunks_ok [OF chunk_size_bounds(1,2) [of requested] keys dataset this, of 0] True show ?thesis by simp
  next
    case False
    with fits have "\<exists>r\<in>set (drop 0 ?rows). \<not> row_fits (b_data r)" by simp
    from write_chunks_refuses [OF chunk_size_bounds(1,2) [of requested] keys dataset this] False show ?thesis by simp
  qed
  moreover have "duplicate_timestamp {} bs = None" using assms(2) by (simp add: duplicate_timestamp_None)
  ultimately show ?thesis
    using write_Some [OF assms(1)] by simp
qed

text \<open>A batch that was written fitted.\<close>

lemma batch_written:
  assumes "write_market_activity_in_transaction batch requested d = Returns n d'"
    and "bb_dataset batch MARKET_ACTIVITY = Some bs" and "distinct (map (instant_of \<circ> bc_timestamp) bs)"
    and "has_dataset d (bb_dataset_id batch)"
  shows "n = length bs \<and> d' = d\<lparr>bars := bar_table.upserts (from_batch_create batch (db_now d)) (bars d)\<rparr> \<and> (\<forall>b\<in>set bs. row_fits (bc_data b))"
  using assms(1) unfolding batch_write [OF assms(2-4)] by (auto split: if_splits)

lemma upsert_bar_ok:
  assumes d: "db_ok d" and i: "has_dataset d (b_dataset row)"
  shows "db_ok (d\<lparr>bars := bar_table.upsert row (bars d)\<rparr>)"
proof -
  have "has_dataset d (b_dataset b)" if b: "b \<in> set (bar_table.upsert row (bars d))" for b
  proof (cases "bar_key row \<in> bar_key ` set (bars d)")
    case True
    then show ?thesis
      using b d bar_table.upsert_old [OF True] by (auto simp: db_ok_def list_all_iff bar_update_def)
  next
    case False
    then show ?thesis using b d i bar_table.upsert_new [OF False] by (auto simp: db_ok_def list_all_iff)
  qed
  moreover have "distinct (map bar_key (bar_table.upsert row (bars d)))"
    using d by (intro bar_table.unique_upsert) (simp add: db_ok_def)
  ultimately show ?thesis using d by (simp add: db_ok_def list_all_iff)
qed

lemma upsert_bars_ok:
  "db_ok d \<Longrightarrow> \<forall>b\<in>set rows. has_dataset d (b_dataset b) \<Longrightarrow> db_ok (d\<lparr>bars := bar_table.upserts rows (bars d)\<rparr>)"
proof (induction rows arbitrary: d)
  case (Cons row rows)
  then show ?case using Cons.IH [of "d\<lparr>bars := bar_table.upsert row (bars d)\<rparr>"] upsert_bar_ok [of d row] by simp
qed simp

lemma batch_write_ok [invs]:
  assumes "db_ok d" and w: "write_market_activity_in_transaction batch requested d = Returns n d'"
    and i: "has_dataset d (bb_dataset_id batch)"
  shows "db_ok d'"
proof (cases "bb_dataset batch MARKET_ACTIVITY")
  case None
  then show ?thesis using assms by (simp add: write_market_activity_in_transaction_def)
next
  case (Some bs)
  show ?thesis
  proof (cases "distinct (map (instant_of \<circ> bc_timestamp) bs)")
    case True
    then have "d' = d\<lparr>bars := bar_table.upserts (from_batch_create batch (db_now d)) (bars d)\<rparr>"
      using batch_written [OF w Some True i] by simp
    moreover have "\<forall>b\<in>set (from_batch_create batch (db_now d)). b_dataset b = bb_dataset_id batch"
      unfolding from_batch_create_Some [OF Some] using rows_dataset by blast
    ultimately show ?thesis using upsert_bars_ok [OF assms(1)] i by simp
  next
    case False
    then have "duplicate_timestamp {} bs \<noteq> None" by (simp add: duplicate_timestamp_None)
    then show ?thesis using w write_Some [OF Some] by auto
  qed
qed

section \<open>Reading in order\<close>

abbreviation read_order :: "bar \<Rightarrow> instant \<times> uuid" where
  "read_order b \<equiv> (b_timestamp b, b_dataset b)"

lemma sort_key_filter_split:
  fixes f :: "'a \<Rightarrow> 'b::linorder"
  assumes "\<forall>x\<in>set xs. R x \<longleftrightarrow> P x \<or> Q x" and "\<forall>x\<in>set xs. \<forall>y\<in>set xs. P x \<longrightarrow> Q y \<longrightarrow> f x < f y"
  shows "sort_key f (filter P xs) @ sort_key f (filter Q xs) = sort_key f (filter R xs)"
proof (rule properties_for_sort_key [symmetric])
  have disj: "\<not> (P x \<and> Q x)" if "x \<in> set xs" for x using assms(2) that by blast
  have "filter (\<lambda>x. f k = f x) (filter P xs) @ filter (\<lambda>x. f k = f x) (filter Q xs) =
      filter (\<lambda>x. f k = f x) (filter R xs)" for k
  proof (cases "\<exists>x\<in>set xs. P x \<and> f k = f x")
    case True
    then have "filter (\<lambda>x. f k = f x) (filter Q xs) = []"
      using assms(2) by (fastforce simp: filter_empty_conv)
    moreover have "filter (\<lambda>x. f k = f x) (filter P xs) = filter (\<lambda>x. f k = f x) (filter R xs)"
      using assms True unfolding filter_filter by (intro filter_cong) fastforce+
    ultimately show ?thesis by simp
  next
    case False
    then have "filter (\<lambda>x. f k = f x) (filter P xs) = []" by (auto simp: filter_empty_conv)
    moreover have "filter (\<lambda>x. f k = f x) (filter Q xs) = filter (\<lambda>x. f k = f x) (filter R xs)"
      using assms(1) False unfolding filter_filter by (intro filter_cong) auto
    ultimately show ?thesis by simp
  qed
  note tie = this
  have stable: "filter (\<lambda>x. f k = f x) (sort_key f ys) = filter (\<lambda>x. f k = f x) ys" for k ys
    using sort_key_stable [of f "f k" ys] by (simp add: eq_commute [of "f k"])
  show "\<And>k. k \<in> set (sort_key f (filter P xs) @ sort_key f (filter Q xs)) \<Longrightarrow>
      filter (\<lambda>x. f k = f x) (sort_key f (filter P xs) @ sort_key f (filter Q xs)) = filter (\<lambda>x. f k = f x) (filter R xs)"
    using tie by (simp add: stable)
  show "sorted (map f (sort_key f (filter P xs) @ sort_key f (filter Q xs)))"
    using assms(2) by (auto simp: sorted_append less_imp_le)
  have "mset (filter P ys) + mset (filter Q ys) = mset (filter R ys)" if "set ys \<subseteq> set xs" for ys
    using that assms(1) disj by (induction ys) auto
  then show "mset (sort_key f (filter P xs) @ sort_key f (filter Q xs)) = mset (filter R xs)" by simp
qed

section \<open>Evaluations\<close>

definition sample_ohlcv :: "int \<Rightarrow> ohlcv" where
  "sample_ohlcv p = \<lparr>o_open = of_int p, o_high = of_int p, o_low = of_int p, o_close = of_int p, o_volume = 10, o_trade_count = 1\<rparr>"

definition sample_bars :: "bar_create list" where
  "sample_bars = [\<lparr>bc_timestamp = Aware 120, bc_data = sample_ohlcv 3\<rparr>, \<lparr>bc_timestamp = Aware 110, bc_data = sample_ohlcv 4\<rparr>]"

definition sample_batch :: "bar_create list \<Rightarrow> bar_batch" where
  "sample_batch bs = \<lparr>bb_dataset_id = 1, bb_symbol = ''AAPL'', bb_source = ALPACA_API, bb_feed = IEX,
     bb_granularity = ONE_DAY, bb_dataset = (\<lambda>_. Some bs)\<rparr>"

definition sample_query :: bar_query where
  "sample_query = \<lparr>qb_dataset_id = Some 1, qb_symbol = None, qb_source = None, qb_feed = None, qb_granularity = None,
     qb_start = None, qb_end = None\<rparr>"

definition sample_bar_db :: db where
  "sample_bar_db = sample_db\<lparr>bars := map (row_of_bar (sample_batch sample_bars) 5) sample_bars\<rparr>"

lemma sample_batch_facts:
  "bb_dataset (sample_batch bs) MARKET_ACTIVITY = Some bs" "distinct (map (instant_of \<circ> bc_timestamp) sample_bars)"
  "has_dataset sample_db (bb_dataset_id (sample_batch bs))"
  by (simp_all add: sample_batch_def sample_bars_def sample_db_def row_of_create_def)

section \<open>Properties\<close>

text \<open>C21. A batch with one bar per instant for a stored dataset is written when every volume and trade count fits its
  column, and is otherwise refused as a whole with the one error of the driver; and the chunks are invisible: whatever size
  is configured, what is written is the upsert of its bars one by one, so the outcome is the same for every size.\<close>

theorem batch_write_ignores_chunking:
  assumes "bb_dataset batch MARKET_ACTIVITY = Some bs" and "distinct (map (instant_of \<circ> bc_timestamp) bs)"
    and "bb_dataset_id batch \<in> set (map e_id (entries d))"
  shows "write_market_activity_in_transaction batch requested d =
    (if \<forall>b\<in>set bs. o_volume (bc_data b) \<in> {-2147483648..2147483647} \<and> o_trade_count (bc_data b) \<in> {-2147483648..2147483647}
     then Returns (length bs)
       (d\<lparr>bars := fold (\<lambda>row. upsert_row bar_key (bar_update row) row) (from_batch_create batch (db_now d)) (bars d)\<rparr>)
     else Fails \<lparr>sql_class = OtherDBAPIError, sqlstate = Some ''22000'', connection_invalidated = False\<rparr>)"
proof -
  have "row_fits v \<longleftrightarrow> o_volume v \<in> {-2147483648..2147483647} \<and> o_trade_count v \<in> {-2147483648..2147483647}" for v
    by (auto simp: row_fits_def int4_def)
  then show ?thesis using batch_write [OF assms] by (simp only: OUT_OF_RANGE_def)
qed

theorem batch_write_ignores_chunking_witness:
  "(\<exists>d. write_market_activity_in_transaction (sample_batch sample_bars) (Some 1) sample_db = Returns 2 d \<and>
       write_market_activity_in_transaction (sample_batch sample_bars) None sample_db = Returns 2 d)
   \<and> write_market_activity_in_transaction (sample_batch [\<lparr>bc_timestamp = Aware 120, bc_data = (sample_ohlcv 3)\<lparr>o_volume := 2 ^ 31\<rparr>\<rparr>]) None sample_db
      = Fails \<lparr>sql_class = OtherDBAPIError, sqlstate = Some ''22000'', connection_invalidated = False\<rparr>"
  using batch_write_ignores_chunking [OF sample_batch_facts, of "Some 1"]
    batch_write_ignores_chunking [OF sample_batch_facts, of None]
    batch_write_ignores_chunking [OF sample_batch_facts(1) _ sample_batch_facts(3),
      of "[\<lparr>bc_timestamp = Aware 120, bc_data = (sample_ohlcv 3)\<lparr>o_volume := 2 ^ 31\<rparr>\<rparr>]" None]
  by (simp add: sample_bars_def sample_ohlcv_def)

text \<open>After a batch write every bar of the batch is stored under its key, a stored bar keeping its
  creation time and taking the new values, and no other bar, dataset, run or log row changes; writing
  the batch again, in statements of any size, changes nothing more.\<close>

theorem batch_write_idempotent:
  assumes "db_ok d" and "bb_dataset batch MARKET_ACTIVITY = Some bs" and "distinct (map (instant_of \<circ> bc_timestamp) bs)"
    and "bb_dataset_id batch \<in> set (map e_id (entries d))"
    and "write_market_activity_in_transaction batch requested d = Returns n d'"
  shows "d' = d\<lparr>bars := bars d'\<rparr> \<and> n = length bs
    \<and> (\<forall>b. find (\<lambda>r. bar_key r = bar_key b) (bars d') =
         (case find (\<lambda>row. bar_key row = bar_key b) (from_batch_create batch (db_now d)) of
            None \<Rightarrow> find (\<lambda>r. bar_key r = bar_key b) (bars d)
          | Some row \<Rightarrow> Some (case find (\<lambda>r. bar_key r = bar_key b) (bars d) of
                                None \<Rightarrow> row
                              | Some r \<Rightarrow> r\<lparr>b_data := b_data row, b_updated_at := db_now d\<rparr>)))
    \<and> write_market_activity_in_transaction batch requested' d' = Returns n d'"
proof -
  let ?rows = "from_batch_create batch (db_now d)"
  have rows: "?rows = map (row_of_bar batch (db_now d)) bs" using assms(2) by (rule from_batch_create_Some)
  have u: "distinct (map bar_key (bars d))" using assms(1) by (simp add: db_ok_def)
  have n: "distinct (map bar_key ?rows)" using assms(3) row_keys by (simp add: rows)
  have d': "d' = d\<lparr>bars := bar_table.upserts ?rows (bars d)\<rparr>" "n = length bs" and fits: "\<forall>b\<in>set bs. row_fits (bc_data b)"
    using batch_written [OF assms(5,2-4)] by blast+
  have "find (\<lambda>r. bar_key r = bar_key b) (bars d') =
      (case find (\<lambda>row. bar_key row = bar_key b) ?rows of
         None \<Rightarrow> find (\<lambda>r. bar_key r = bar_key b) (bars d)
       | Some row \<Rightarrow> Some (case find (\<lambda>r. bar_key r = bar_key b) (bars d) of
                             None \<Rightarrow> row | Some r \<Rightarrow> r\<lparr>b_data := b_data row, b_updated_at := db_now d\<rparr>))" for b
  proof (cases "find (\<lambda>row. bar_key row = bar_key b) ?rows")
    case None
    then have "bar_key b \<notin> bar_key ` set ?rows" by (auto simp: find_None_iff)
    then show ?thesis using None bar_table.find_upserts_other [OF u] by (simp add: d')
  next
    case (Some row)
    then have row: "row \<in> set ?rows" "bar_key row = bar_key b" by (auto simp: find_Some_iff)
    have "b_updated_at row = db_now d" using row(1) by (auto simp: rows row_of_bar_def)
    then show ?thesis
      using Some bar_table.find_upserts [OF u n row(1)] row(2) by (simp add: d' bar_update_def split: option.split)
  qed
  moreover have "write_market_activity_in_transaction batch requested' d' = Returns n d'"
    using batch_write [OF assms(2,3), of d' requested'] assms(4) d' fits bar_table.upserts_again [OF u n] by simp
  ultimately show ?thesis using d' by simp
qed

theorem batch_write_idempotent_witness:
  "\<exists>d. write_market_activity_in_transaction (sample_batch sample_bars) (Some 1) sample_db = Returns 2 d \<and>
       write_market_activity_in_transaction (sample_batch sample_bars) None d = Returns 2 d"
proof -
  obtain d where d: "write_market_activity_in_transaction (sample_batch sample_bars) (Some 1) sample_db = Returns 2 d"
    using batch_write [OF sample_batch_facts] by (simp add: sample_bars_def sample_ohlcv_def row_fits_def int4_def)
  then show ?thesis using batch_write_idempotent [OF sample_db_ok sample_batch_facts d] by blast
qed

text \<open>A batch that holds two bars for one instant, however their timestamps are written, is
  refused with the first repeated timestamp, and nothing is written.\<close>

theorem duplicate_batch_refused:
  assumes "bb_dataset batch MARKET_ACTIVITY = Some bs" and "\<not> distinct (map (instant_of \<circ> bc_timestamp) bs)"
  shows "\<exists>before b after. bs = before @ b # after \<and> distinct (map (instant_of \<circ> bc_timestamp) before)
    \<and> instant_of (bc_timestamp b) \<in> (instant_of \<circ> bc_timestamp) ` set before
    \<and> batch_create_market_activity_data batch requested fault d = (Inl (DuplicateBatchTimestamp (bc_timestamp b)), d)"
proof -
  obtain t where t: "duplicate_timestamp {} bs = Some t"
    using assms(2) duplicate_timestamp_None [of "{}" bs] by auto
  from duplicate_timestamp_Some [OF t] obtain before b after where b: "bs = before @ b # after" "t = bc_timestamp b"
    "distinct (map (instant_of \<circ> bc_timestamp) before)" "instant_of t \<in> (instant_of \<circ> bc_timestamp) ` set before"
    by auto
  have "write_market_activity_in_transaction batch requested d = Raises (DuplicateBatchTimestamp t)"
    using write_Some [OF assms(1)] t by simp
  then have "batch_create_market_activity_data batch requested fault d = (Inl (DuplicateBatchTimestamp t), d)"
    using assms by (cases bs) (simp_all add: batch_create_market_activity_data_def write_transaction_def)
  then show ?thesis using b by blast
qed

theorem duplicate_batch_refused_witness:
  "snd (batch_create_market_activity_data
     (sample_batch (sample_bars @ [\<lparr>bc_timestamp = Naive 120, bc_data = sample_ohlcv 5\<rparr>])) None None sample_db) = sample_db"
proof -
  let ?bs = "sample_bars @ [\<lparr>bc_timestamp = Naive 120, bc_data = sample_ohlcv 5\<rparr>]"
  have "\<not> distinct (map (instant_of \<circ> bc_timestamp) ?bs)" by (simp add: sample_bars_def)
  from duplicate_batch_refused [OF sample_batch_facts(1) this, of None None sample_db] show ?thesis by auto
qed

text \<open>A read answers exactly the stored bars its filters select, in order of time and then of
  dataset, and half-open windows tile: reading the two halves of a window, one after the other, is
  reading the window, with no bar lost or repeated at the seam.\<close>

theorem reads_tile:
  assumes "s \<le> m" and "m \<le> e"
  shows "read_market_activity_data (q\<lparr>qb_start := Some s, qb_end := Some m\<rparr>) d @
      read_market_activity_data (q\<lparr>qb_start := Some m, qb_end := Some e\<rparr>) d =
    read_market_activity_data (q\<lparr>qb_start := Some s, qb_end := Some e\<rparr>) d
    \<and> mset (read_market_activity_data q d) = mset (filter (bar_conditions q) (bars d))
    \<and> sorted (map (\<lambda>b. (b_timestamp b, b_dataset b)) (read_market_activity_data q d))"
proof -
  have "read_market_activity_data (q\<lparr>qb_start := Some s, qb_end := Some m\<rparr>) d @
      read_market_activity_data (q\<lparr>qb_start := Some m, qb_end := Some e\<rparr>) d =
    read_market_activity_data (q\<lparr>qb_start := Some s, qb_end := Some e\<rparr>) d"
    unfolding read_market_activity_data_def
    by (rule sort_key_filter_split) (use assms in \<open>auto simp: bar_conditions_def\<close>)
  then show ?thesis by (simp add: read_market_activity_data_def)
qed

theorem reads_tile_witness:
  "read_market_activity_data (sample_query\<lparr>qb_start := Some 100, qb_end := Some 120\<rparr>) sample_bar_db @
     read_market_activity_data (sample_query\<lparr>qb_start := Some 120, qb_end := Some 200\<rparr>) sample_bar_db =
     read_market_activity_data (sample_query\<lparr>qb_start := Some 100, qb_end := Some 200\<rparr>) sample_bar_db
   \<and> length (read_market_activity_data (sample_query\<lparr>qb_start := Some 100, qb_end := Some 120\<rparr>) sample_bar_db) = 1"
  by (rule conjI [OF reads_tile [THEN conjunct1]]) (simp, simp, code_simp)

text \<open>The rows of a statement: a requested size between one and what the driver's argument limit
  allows is used as it is, every other one is the largest safe size, and no statement binds more
  arguments than Postgres or the driver takes.\<close>

theorem chunk_size_is_safe:
  "resolve_chunk_size requested = (case requested of None \<Rightarrow> 2730 | Some r \<Rightarrow> if r \<in> {1..2730} then nat r else 2730)
   \<and> 0 < resolve_chunk_size requested
   \<and> resolve_chunk_size requested * bind_params_per_row \<le> min POSTGRES_MAX_BIND_PARAMETERS ASYNCPG_MAX_QUERY_ARGUMENTS
   \<and> ASYNCPG_MAX_QUERY_ARGUMENTS < Suc 2730 * bind_params_per_row"
proof -
  have "resolve_chunk_size requested = (case requested of None \<Rightarrow> 2730 | Some r \<Rightarrow> if r \<in> {1..2730} then nat r else 2730)"
    unfolding resolve_chunk_size_def Let_def max_rows by (auto split: option.split)
  then show ?thesis
    using chunk_size_bounds [of requested]
    by (simp add: POSTGRES_MAX_BIND_PARAMETERS_def ASYNCPG_MAX_QUERY_ARGUMENTS_def)
qed

end
