(* ===== verification/Ingest_Runs.thy ===== *)
theory Ingest_Runs
  imports Store_Entries "HOL-Library.Product_Lexorder" "HOL-Library.Multiset"
begin

text \<open>
  The collection record: \<open>server/data/store/app/database/crud/ingest_run.py\<close> (the writes and reads of
  the run table) and \<open>server/data/store/app/ingest/run_recording.py\<close> (one row around every fetch).
  Every write commits on its own; \<open>fault\<close> is an error of that commit, or of the session itself.
\<close>

section \<open>Writes\<close>

definition new_run_row :: "uuid \<Rightarrow> instant \<Rightarrow> new_run \<Rightarrow> run_row" where
  "new_run_row i now run =
     \<lparr>r_id = i, r_label = run, r_dataset = None, r_feed = None, r_state = RUNNING, r_bars = 0,
      r_error_domain = None, r_error_reason = None, r_error_message = None, r_error_id = None,
      r_started_at = now, r_finished_at = None\<rparr>"

definition start_run :: "uuid \<Rightarrow> new_run \<Rightarrow> sql_error option \<Rightarrow> db \<Rightarrow> (store_error + run_row) \<times> db" where
  "start_run i run fault d =
     write_transaction fault d
       (if list_ex (\<lambda>r. r_id r = i) (ingest_runs d)
        then Fails \<lparr>sql_class = IntegrityError, sqlstate = Some ''23505'', connection_invalidated = False\<rparr>
        else let row = new_run_row i (db_now d) run in Returns row (d\<lparr>ingest_runs := ingest_runs d @ [row]\<rparr>))"

text \<open>\<open>UPDATE ... WHERE id = i RETURNING\<close>, whose \<open>.one()\<close> raises when no row has the id.\<close>

definition update_run :: "uuid \<Rightarrow> (run_row \<Rightarrow> run_row) \<Rightarrow> db \<Rightarrow> run_row block" where
  "update_run i f d =
     (case find (\<lambda>r. r_id r = i) (ingest_runs d) of
        None \<Rightarrow> Fails \<lparr>sql_class = NotDBAPIError, sqlstate = None, connection_invalidated = False\<rparr>
      | Some r \<Rightarrow> Returns (f r) (d\<lparr>ingest_runs := map (\<lambda>r. if r_id r = i then f r else r) (ingest_runs d)\<rparr>))"

definition acknowledge_run ::
  "uuid \<Rightarrow> uuid \<Rightarrow> feed \<Rightarrow> sql_error option \<Rightarrow> db \<Rightarrow> (store_error + run_row) \<times> db" where
  "acknowledge_run i dataset f fault d =
     write_transaction fault d (update_run i (\<lambda>r. r\<lparr>r_dataset := Some dataset, r_feed := Some f\<rparr>) d)"

definition finished_row :: "run_state \<Rightarrow> nat \<Rightarrow> run_failure option \<Rightarrow> db \<Rightarrow> run_row \<Rightarrow> run_row" where
  "finished_row state n failure d r =
     (let r' = r\<lparr>r_state := state, r_bars := n, r_finished_at := Some (db_now d),
                 r_error_domain := (case failure of None \<Rightarrow> None | Some f \<Rightarrow> f_domain f),
                 r_error_reason := (case failure of None \<Rightarrow> None | Some f \<Rightarrow> f_reason f),
                 r_error_message := (case failure of None \<Rightarrow> None | Some f \<Rightarrow> Some (f_message f)),
                 r_error_id := (case failure of None \<Rightarrow> None | Some f \<Rightarrow> f_error_id f)\<rparr>
      in if state = FAILED
         then r'\<lparr>r_dataset := (case r_dataset r of
                                None \<Rightarrow> None
                              | Some i \<Rightarrow> if list_ex (\<lambda>e. e_id e = i) (entries d) then Some i else None)\<rparr>
         else r')"

definition finish_run ::
  "uuid \<Rightarrow> run_state \<Rightarrow> nat \<Rightarrow> run_failure option \<Rightarrow> sql_error option \<Rightarrow> db \<Rightarrow> (store_error + run_row) \<times> db" where
  "finish_run i state n failure fault d =
     write_transaction fault d (update_run i (finished_row state n failure d) d)"

definition INTERRUPTED_REASON :: string where
  "INTERRUPTED_REASON = ''INTERRUPTED''"

definition INTERRUPTED_MESSAGE :: string where
  "INTERRUPTED_MESSAGE = ''The run was still in progress when the service stopped.''"

definition interrupted :: "instant \<Rightarrow> run_row \<Rightarrow> run_row" where
  "interrupted now r =
     r\<lparr>r_state := FAILED, r_error_domain := None, r_error_reason := Some INTERRUPTED_REASON,
       r_error_message := Some INTERRUPTED_MESSAGE, r_finished_at := Some now\<rparr>"

definition fail_interrupted_runs :: "sql_error option \<Rightarrow> db \<Rightarrow> (store_error + nat) \<times> db" where
  "fail_interrupted_runs fault d =
     write_transaction fault d
       (Returns (length (filter (\<lambda>r. r_state r = RUNNING) (ingest_runs d)))
          (d\<lparr>ingest_runs := map (\<lambda>r. if r_state r = RUNNING then interrupted (db_now d) r else r) (ingest_runs d)\<rparr>))"

section \<open>Reads\<close>

abbreviation run_order :: "run_row \<Rightarrow> instant \<times> uuid" where
  "run_order r \<equiv> (r_started_at r, r_id r)"

definition list_runs_for_dataset :: "uuid \<Rightarrow> nat \<Rightarrow> (instant \<times> uuid) option \<Rightarrow> db \<Rightarrow> run_row list" where
  "list_runs_for_dataset i limit after d =
     take limit (rev (sort_key run_order (filter (\<lambda>r. r_dataset r = Some i \<and>
       (case after of None \<Rightarrow> True
        | Some (t, j) \<Rightarrow> r_started_at r < t \<or> (r_started_at r = t \<and> r_id r < j))) (ingest_runs d))))"

text \<open>\<open>row_number() OVER (PARTITION BY dataset_id ORDER BY started_at DESC, id DESC)\<close>\<close>

definition run_rank :: "run_row list \<Rightarrow> run_row \<Rightarrow> nat" where
  "run_rank rows r = Suc (length (filter (\<lambda>s. r_dataset s = r_dataset r \<and> run_order r < run_order s) rows))"

definition latest_runs_for_datasets :: "uuid list \<Rightarrow> db \<Rightarrow> uuid \<Rightarrow> run_row option" where
  "latest_runs_for_datasets ids d i =
     (if ids = [] then None
      else let ranked = filter (\<lambda>r. \<exists>j\<in>set ids. r_dataset r = Some j) (ingest_runs d)
           in find (\<lambda>r. r_dataset r = Some i) (filter (\<lambda>r. run_rank ranked r = 1) ranked))"

definition finished_scheduled_runs :: "data_source \<Rightarrow> instant \<Rightarrow> db \<Rightarrow> run_row list" where
  "finished_scheduled_runs source since d =
     sort_key run_order (filter (\<lambda>r. n_trigger (r_label r) = SCHEDULE \<and> n_source (r_label r) = source \<and>
       r_state r \<noteq> RUNNING \<and> since \<le> r_started_at r) (ingest_runs d))"

definition running_dataset_ids :: "db \<Rightarrow> uuid set" where
  "running_dataset_ids d = set (List.map_filter (\<lambda>r. if r_state r = RUNNING then r_dataset r else None) (ingest_runs d))"

section \<open>Recording a fetch\<close>

text \<open>What a fetch may raise: a typed error with its detail, a cancellation, or anything else.\<close>

datatype run_error = Typed tj_error string | Cancelled | Untyped

definition UNEXPECTED_MESSAGE :: string where
  "UNEXPECTED_MESSAGE = ''The run failed with an unexpected error.''"

definition CANCELLED_MESSAGE :: string where
  "CANCELLED_MESSAGE = ''The run was cancelled before it finished.''"

fun failure_for :: "run_error \<Rightarrow> run_failure" where
  "failure_for (Typed e detail) =
     \<lparr>f_domain = Some ERROR_DOMAIN, f_reason = Some (reason_name (te_reason e)), f_message = detail,
      f_error_id = own_error_id e\<rparr>"
| "failure_for Cancelled = \<lparr>f_domain = None, f_reason = None, f_message = CANCELLED_MESSAGE, f_error_id = None\<rparr>"
| "failure_for Untyped = \<lparr>f_domain = None, f_reason = None, f_message = UNEXPECTED_MESSAGE, f_error_id = None\<rparr>"

record run_handle =
  h_record :: "run_row option"
  h_dataset_id :: "uuid option"

text \<open>One recording write: its row replaces the handle's and is published, a failure changes nothing.\<close>

definition record_write ::
  "run_handle \<Rightarrow> (uuid \<Rightarrow> db \<Rightarrow> (store_error + run_row) \<times> db) \<Rightarrow> db \<Rightarrow> run_handle \<times> run_row list \<times> db" where
  "record_write h op d =
     (case h_record h of
        None \<Rightarrow> (h, [], d)
      | Some r \<Rightarrow> (case op (r_id r) d of
                     (Inr r', d') \<Rightarrow> (h\<lparr>h_record := Some r'\<rparr>, [r'], d')
                   | (Inl e, d') \<Rightarrow> (h, [], d')))"

definition handle_acknowledge ::
  "uuid \<Rightarrow> feed \<Rightarrow> sql_error option \<Rightarrow> run_handle \<Rightarrow> db \<Rightarrow> run_handle \<times> run_row list \<times> db" where
  "handle_acknowledge dataset f fault h d =
     record_write (h\<lparr>h_dataset_id := Some dataset\<rparr>) (\<lambda>i. acknowledge_run i dataset f fault) d"

definition handle_succeed :: "nat \<Rightarrow> sql_error option \<Rightarrow> run_handle \<Rightarrow> db \<Rightarrow> run_handle \<times> run_row list \<times> db" where
  "handle_succeed n fault h d =
     record_write h (\<lambda>i. finish_run i (if n > 0 then SUCCEEDED else EMPTY) n None fault) d"

definition handle_fail :: "run_error \<Rightarrow> sql_error option \<Rightarrow> run_handle \<Rightarrow> db \<Rightarrow> run_handle \<times> run_row list \<times> db" where
  "handle_fail e fault h d = record_write h (\<lambda>i. finish_run i FAILED 0 (Some (failure_for e)) fault) d"

text \<open>\<open>_begin\<close>, with the actor and the start a caller may set in place of the body's\<close>

definition begin_run :: "uuid \<Rightarrow> new_run \<Rightarrow> sql_error option \<Rightarrow> db \<Rightarrow> run_row option \<times> db" where
  "begin_run i run fault d =
     (case start_run i run fault d of (Inr r, d') \<Rightarrow> (Some r, d') | (Inl e, d') \<Rightarrow> (None, d'))"

definition label_of ::
  "overlap_key \<Rightarrow> run_trigger \<Rightarrow> uuid option \<Rightarrow> string option \<Rightarrow> instant option \<Rightarrow> new_run" where
  "label_of k trigger request actor requested_start =
     \<lparr>n_trigger = trigger, n_actor = (case actor of None \<Rightarrow> k_owner k | Some a \<Rightarrow> a), n_symbol = k_symbol k,
      n_asset_type = k_asset_type k, n_data_type = k_data_type k, n_source = k_source k,
      n_granularity = k_granularity k, n_update_type = k_update_type k,
      n_start = Some (case requested_start of None \<Rightarrow> k_start k | Some s \<Rightarrow> s), n_end = k_end k,
      n_request = request\<rparr>"

text \<open>The body gets the handle and returns its outcome with what it recorded and published.\<close>

definition recorded_run ::
  "uuid \<Rightarrow> new_run \<Rightarrow> sql_error option \<Rightarrow> sql_error option \<Rightarrow>
   (run_handle \<Rightarrow> db \<Rightarrow> (run_error + 'a) \<times> run_handle \<times> run_row list \<times> db) \<Rightarrow>
   db \<Rightarrow> (run_error + 'a) \<times> run_handle \<times> run_row list \<times> db" where
  "recorded_run i run start_fault fail_fault body d =
     (let (record, d1) = begin_run i run start_fault d;
          (result, h, published, d2) = body \<lparr>h_record = record, h_dataset_id = None\<rparr> d1;
          announced = (case record of None \<Rightarrow> [] | Some r \<Rightarrow> [r]) @ published
      in case result of
           Inr x \<Rightarrow> (Inr x, h, announced, d2)
         | Inl e \<Rightarrow> (let (h', last_published, d3) = handle_fail e fail_fault h d2
                     in (Inl e, h', announced @ last_published, d3)))"

text \<open>The startup sweep: \<open>table\<close> is the probe's answer, \<open>None\<close> when the probe itself failed.\<close>

definition sweep_interrupted_runs :: "bool option \<Rightarrow> sql_error option \<Rightarrow> db \<Rightarrow> nat \<times> db" where
  "sweep_interrupted_runs tbl fault d =
     (if tbl = Some False then (0, d)
      else case fail_interrupted_runs fault d of (Inr n, d') \<Rightarrow> (n, d') | (Inl e, d') \<Rightarrow> (0, d'))"

section \<open>The rows\<close>

interpretation run_ids: unique_table r_id "\<lambda>row r. r"
  by unfold_locales (rule refl)

text \<open>What a row says is consistent with its state.\<close>

definition run_ok :: "run_row \<Rightarrow> bool" where
  "run_ok r \<longleftrightarrow>
     (r_state r = RUNNING \<longleftrightarrow> r_finished_at r = None) \<and>
     (r_error_message r \<noteq> None \<longleftrightarrow> r_state r = FAILED) \<and>
     (r_state r \<noteq> FAILED \<longrightarrow> r_error_domain r = None \<and> r_error_reason r = None \<and> r_error_id r = None) \<and>
     (0 < r_bars r \<longleftrightarrow> r_state r = SUCCEEDED)"

lemma new_run_row_ok: "run_ok (new_run_row i now run)"
  by (simp add: run_ok_def new_run_row_def)

lemma interrupted_ok: "run_ok r \<Longrightarrow> r_state r = RUNNING \<Longrightarrow> run_ok (interrupted now r)"
  by (simp add: run_ok_def interrupted_def)

lemma acknowledged_ok: "run_ok (r\<lparr>r_dataset := ds, r_feed := f\<rparr>) \<longleftrightarrow> run_ok r"
  by (simp add: run_ok_def)

lemma finished_row_ok:
  "run_ok (finished_row (if 0 < n then SUCCEEDED else EMPTY) n None d r)"
  "run_ok (finished_row FAILED 0 (Some f) d r)"
  by (simp_all add: run_ok_def finished_row_def Let_def)

lemma finished_row_keeps [simp]:
  "r_id (finished_row st n f d r) = r_id r" "r_label (finished_row st n f d r) = r_label r"
  "r_started_at (finished_row st n f d r) = r_started_at r"
  by (simp_all add: finished_row_def Let_def)

text \<open>How the run table moves: rows are added, or change in place without losing their identity.\<close>

definition runs_kept :: "run_row list \<Rightarrow> run_row list \<Rightarrow> bool" where
  "runs_kept rs rs' \<longleftrightarrow> prefix (map (\<lambda>r. (r_id r, r_label r, r_started_at r)) rs) (map (\<lambda>r. (r_id r, r_label r, r_started_at r)) rs')"

lemma runs_kept_refl [simp]: "runs_kept rs rs"
  by (simp add: runs_kept_def)

lemma runs_kept_trans: "runs_kept a b \<Longrightarrow> runs_kept b c \<Longrightarrow> runs_kept a c"
  unfolding runs_kept_def by (rule prefix_order.trans)

lemma runs_kept_map:
  assumes "\<And>r. r_id (f r) = r_id r \<and> r_label (f r) = r_label r \<and> r_started_at (f r) = r_started_at r"
  shows "runs_kept rs (map f rs)"
  using assms by (simp add: runs_kept_def comp_def)

lemma start_run_done:
  "start_run i run fault d = (res, d') \<Longrightarrow>
     d' = d \<or> d' = d\<lparr>ingest_runs := ingest_runs d @ [new_run_row i (db_now d) run]\<rparr> \<and> i \<notin> r_id ` set (ingest_runs d)"
  by (auto simp: start_run_def write_transaction_def Let_def list_ex_iff split: if_splits option.splits)

lemma update_run_done:
  "write_transaction fault d (update_run i f d) = (res, d') \<Longrightarrow>
     d' = d \<or> (\<exists>r. res = Inr (f r) \<and> find (\<lambda>r. r_id r = i) (ingest_runs d) = Some r) \<and>
       d' = d\<lparr>ingest_runs := map (\<lambda>r. if r_id r = i then f r else r) (ingest_runs d)\<rparr>"
  by (auto simp: update_run_def write_transaction_def split: option.splits)

lemma record_write_done:
  assumes "record_write h (\<lambda>i. write_pair i) d = (h', published, d')"
  obtains "d' = d" "h' = h" "published = []"
    | r r' where "h_record h = Some r" "write_pair (r_id r) d = (Inr r', d')" "h' = h\<lparr>h_record := Some r'\<rparr>" "published = [r']"
    | r e where "h_record h = Some r" "write_pair (r_id r) d = (Inl e, d')" "h' = h" "published = []"
  using assms by (auto simp: record_write_def split: option.splits prod.splits sum.splits)

lemma list_all_map_if:
  "list_all P rs \<Longrightarrow> (\<And>r. P r \<Longrightarrow> Q r \<Longrightarrow> P (f r)) \<Longrightarrow> list_all P (map (\<lambda>r. if Q r then f r else r) rs)"
  by (auto simp: list_all_iff)

section \<open>Properties of the record\<close>

text \<open>Any interleaving of recorded fetches, the sweep, and writes that are not of the run table.\<close>

inductive runs_evolve :: "db \<Rightarrow> db \<Rightarrow> bool" where
  stays: "runs_evolve d d"
| elsewhere: "runs_evolve d d2" if "runs_evolve d d1" "ingest_runs d2 = ingest_runs d1"
| begins: "runs_evolve d d2" if "runs_evolve d d1" "start_run i run fault d1 = (res, d2)"
| acknowledged: "runs_evolve d d2" if "runs_evolve d d1" "handle_acknowledge ds f fault h d1 = (h', ev, d2)"
| succeeds: "runs_evolve d d2" if "runs_evolve d d1" "handle_succeed n fault h d1 = (h', ev, d2)"
| fails: "runs_evolve d d2" if "runs_evolve d d1" "handle_fail e fault h d1 = (h', ev, d2)"
| swept: "runs_evolve d d2" if "runs_evolve d d1" "sweep_interrupted_runs tbl fault d1 = (n, d2)"

lemma update_run_ok:
  assumes "write_transaction fault d (update_run i f d) = (res, d')" and "list_all run_ok (ingest_runs d)"
    and "\<And>r. run_ok r \<Longrightarrow> run_ok (f r)"
    and "\<And>r. r_id (f r) = r_id r \<and> r_label (f r) = r_label r \<and> r_started_at (f r) = r_started_at r"
  shows "list_all run_ok (ingest_runs d') \<and> runs_kept (ingest_runs d) (ingest_runs d')"
proof -
  have "list_all run_ok (map (\<lambda>r. if r_id r = i then f r else r) (ingest_runs d))"
    using assms(2,3) by (rule list_all_map_if)
  moreover have "runs_kept (ingest_runs d) (map (\<lambda>r. if r_id r = i then f r else r) (ingest_runs d))"
    using assms(4) by (intro runs_kept_map) simp
  ultimately show ?thesis using update_run_done [OF assms(1)] assms(2) by auto
qed

lemma record_write_ok:
  assumes "record_write h (\<lambda>i d. write_transaction fault d (update_run i (f d) d)) d = (h', ev, d')"
    and "list_all run_ok (ingest_runs d)"
    and "\<And>r. run_ok r \<Longrightarrow> run_ok (f d r)"
    and "\<And>r. r_id (f d r) = r_id r \<and> r_label (f d r) = r_label r \<and> r_started_at (f d r) = r_started_at r"
  shows "list_all run_ok (ingest_runs d') \<and> runs_kept (ingest_runs d) (ingest_runs d')"
  using assms(1)
  by (rule record_write_done) (use update_run_ok [OF _ assms(2-4)] assms(2) in auto)

lemma runs_evolve_ok:
  assumes "runs_evolve d d'" and "list_all run_ok (ingest_runs d)"
  shows "list_all run_ok (ingest_runs d') \<and> runs_kept (ingest_runs d) (ingest_runs d')"
  using assms
proof (induction rule: runs_evolve.induct)
  case (begins d d1 i run fault res d2)
  then show ?case
    using start_run_done [OF begins(2)] new_run_row_ok
    by (auto simp: runs_kept_def intro: prefix_order.trans)
next
  case (acknowledged d d1 ds f fault h h' ev d2)
  then show ?case
    using record_write_ok [where f = "\<lambda>d r. r\<lparr>r_dataset := Some ds, r_feed := Some f\<rparr>" and d = d1]
    by (auto simp: handle_acknowledge_def acknowledge_run_def [abs_def] acknowledged_ok intro: runs_kept_trans)
next
  case (succeeds d d1 n fault h h' ev d2)
  then show ?case
    using record_write_ok [where f = "finished_row (if 0 < n then SUCCEEDED else EMPTY) n None" and d = d1]
    by (auto simp: handle_succeed_def finish_run_def [abs_def] finished_row_ok intro: runs_kept_trans)
next
  case (fails d d1 e fault h h' ev d2)
  then show ?case
    using record_write_ok [where f = "finished_row FAILED 0 (Some (failure_for e))" and d = d1]
    by (auto simp: handle_fail_def finish_run_def [abs_def] finished_row_ok intro: runs_kept_trans)
next
  case (swept d d1 tbl fault n d2)
  let ?swept = "map (\<lambda>r. if r_state r = RUNNING then interrupted (db_now d1) r else r) (ingest_runs d1)"
  have "list_all run_ok ?swept" using swept interrupted_ok by (intro list_all_map_if) auto
  moreover have "runs_kept (ingest_runs d1) ?swept" by (rule runs_kept_map) (simp add: interrupted_def)
  moreover have "ingest_runs d2 = ingest_runs d1 \<or> ingest_runs d2 = ?swept"
    using swept(2) by (auto simp: sweep_interrupted_runs_def fail_interrupted_runs_def write_transaction_def
        split: if_splits option.splits)
  ultimately show ?case using swept(3,4) runs_kept_trans by metis
qed (auto intro: runs_kept_trans)

text \<open>C40. The collection record stays consistent under any interleaving of recorded fetches, failed
  recordings, startup sweeps and other writes: a run has a finish time exactly when it is not running, an
  error exactly when it failed, and bars exactly when it succeeded; and no run is ever removed,
  reordered, relabelled or given another start.\<close>

theorem run_record_consistent:
  assumes "runs_evolve d d'" and "\<forall>r\<in>set (ingest_runs d). run_ok r"
  shows "(\<forall>r\<in>set (ingest_runs d').
      (r_state r = RUNNING \<longleftrightarrow> r_finished_at r = None) \<and> (r_state r = FAILED \<longleftrightarrow> r_error_message r \<noteq> None) \<and>
      (r_state r = SUCCEEDED \<longleftrightarrow> 0 < r_bars r))
    \<and> prefix (map (\<lambda>r. (r_id r, r_label r, r_started_at r)) (ingest_runs d))
             (map (\<lambda>r. (r_id r, r_label r, r_started_at r)) (ingest_runs d'))"
  using runs_evolve_ok [OF assms(1)] assms(2) unfolding list_all_iff runs_kept_def run_ok_def by blast

definition sample_run :: new_run where
  "sample_run = label_of sample_key REQUEST None None None"

theorem run_record_consistent_witness:
  "\<exists>d. runs_evolve sample_db d \<and> map r_state (ingest_runs d) = [FAILED] \<and>
     (\<forall>r\<in>set (ingest_runs d). r_finished_at r \<noteq> None)"
proof -
  let ?d1 = "snd (start_run 7 sample_run None sample_db)"
  let ?d2 = "snd (sweep_interrupted_runs (Some True) None ?d1)"
  have e: "runs_evolve sample_db ?d2"
    by (rule runs_evolve.swept [OF runs_evolve.begins [OF runs_evolve.stays surjective_pairing] surjective_pairing])
  have s: "map r_state (ingest_runs ?d2) = [FAILED]" "ingest_runs sample_db = []" by code_simp+
  have "\<forall>r\<in>set (ingest_runs ?d2). r_state r = RUNNING \<longleftrightarrow> r_finished_at r = None"
    using run_record_consistent [OF e] s(2) by simp
  moreover have "\<forall>r\<in>set (ingest_runs ?d2). r_state r = FAILED"
    using s(1) by (metis in_set_conv_nth length_map list.sel(1) nth_map set_ConsD in_set_conv_nth empty_iff empty_set image_eqI set_map)
  ultimately show ?thesis using e s(1) by (intro exI [of _ ?d2]) auto
qed

text \<open>A fetch that raises leaves its run FAILED with the error it raised, naming its dataset only
  when that dataset is really stored; the error itself reaches the caller unchanged, and a recording
  that fails, at the start or at the end, never changes the fetch's outcome.\<close>

theorem failed_fetch_leaves_failed_run:
  assumes "body \<lparr>h_record = fst (begin_run i run start_fault d), h_dataset_id = None\<rparr> (snd (begin_run i run start_fault d)) =
      (Inl e, h, ev, d2)"
    and "h_record h = Some r" and "r \<in> set (ingest_runs d2)" and "distinct (map r_id (ingest_runs d2))"
  shows "\<exists>h' evs d3. recorded_run i run start_fault fail_fault body d = (Inl e, h', evs, d3)
    \<and> (fail_fault \<noteq> None \<longrightarrow> d3 = d2)
    \<and> (fail_fault = None \<longrightarrow> (\<exists>r'\<in>set (ingest_runs d3). h_record h' = Some r' \<and> last evs = r'
        \<and> r_id r' = r_id r \<and> r_label r' = r_label r \<and> r_state r' = FAILED \<and> r_bars r' = 0
        \<and> r_error_message r' = Some (f_message (failure_for e)) \<and> r_error_reason r' = f_reason (failure_for e)
        \<and> r_finished_at r' = Some (db_now d2)
        \<and> r_dataset r' = (case r_dataset r of None \<Rightarrow> None
                            | Some j \<Rightarrow> if j \<in> e_id ` set (entries d2) then Some j else None)))"
proof -
  let ?f = "finished_row FAILED 0 (Some (failure_for e)) d2"
  have found: "find (\<lambda>x. r_id x = r_id r) (ingest_runs d2) = Some r"
    using run_ids.find_key [OF assms(4,3)] .
  have exists_iff: "list_ex (\<lambda>e. e_id e = j) (entries d2) \<longleftrightarrow> j \<in> e_id ` set (entries d2)" for j
    by (auto simp: list_ex_iff)
  show ?thesis
  proof (cases fail_fault)
    case None
    let ?d3 = "d2\<lparr>ingest_runs := map (\<lambda>x. if r_id x = r_id r then ?f x else x) (ingest_runs d2)\<rparr>"
    have "handle_fail e fail_fault h d2 = (h\<lparr>h_record := Some (?f r)\<rparr>, [?f r], ?d3)"
      using assms(2) found None by (simp add: handle_fail_def record_write_def finish_run_def update_run_def write_transaction_def)
    then have run: "recorded_run i run start_fault fail_fault body d = (Inl e, h\<lparr>h_record := Some (?f r)\<rparr>,
        ((case fst (begin_run i run start_fault d) of None \<Rightarrow> [] | Some r \<Rightarrow> [r]) @ ev) @ [?f r], ?d3)"
      using assms(1) by (simp add: recorded_run_def case_prod_beta Let_def)
    have mem: "?f r \<in> set (ingest_runs ?d3)" using assms(3) by force
    have fields: "r_state (?f r) = FAILED" "r_bars (?f r) = 0" "r_error_message (?f r) = Some (f_message (failure_for e))"
      "r_error_reason (?f r) = f_reason (failure_for e)" "r_finished_at (?f r) = Some (db_now d2)"
      "r_dataset (?f r) = (case r_dataset r of None \<Rightarrow> None
         | Some j \<Rightarrow> if j \<in> e_id ` set (entries d2) then Some j else None)"
      unfolding finished_row_def Let_def by (simp_all add: exists_iff cong: option.case_cong)
    show ?thesis
    proof (intro exI conjI impI)
      show "recorded_run i run start_fault fail_fault body d = (Inl e, h\<lparr>h_record := Some (?f r)\<rparr>,
        ((case fst (begin_run i run start_fault d) of None \<Rightarrow> [] | Some r \<Rightarrow> [r]) @ ev) @ [?f r], ?d3)" by (rule run)
    qed (use None mem fields in \<open>auto simp del: finished_row_def intro!: bexI [of _ "?f r"]\<close>)
  next
    case (Some fl)
    have "handle_fail e fail_fault h d2 = (h, [], d2)"
      using assms(2) found Some by (simp add: handle_fail_def record_write_def finish_run_def update_run_def write_transaction_def)
    then show ?thesis using assms(1) Some by (simp add: recorded_run_def case_prod_beta Let_def)
  qed
qed

definition sample_body :: "run_handle \<Rightarrow> db \<Rightarrow> (run_error + unit) \<times> run_handle \<times> run_row list \<times> db" where
  "sample_body h d = (let (h', ev, d') = handle_acknowledge 9 IEX None h d in (Inl Cancelled, h', ev, d'))"

theorem failed_fetch_leaves_failed_run_witness:
  "\<exists>h evs d'. recorded_run 7 sample_run None None sample_body sample_db = (Inl Cancelled, h, evs, d') \<and>
     (\<exists>r\<in>set (ingest_runs d'). r_state r = FAILED \<and> r_dataset r = None \<and> r_error_message r = Some CANCELLED_MESSAGE)"
proof -
  let ?b = "begin_run 7 sample_run None sample_db"
  let ?out = "sample_body \<lparr>h_record = fst ?b, h_dataset_id = None\<rparr> (snd ?b)"
  let ?r = "new_run_row 7 50 sample_run\<lparr>r_dataset := Some 9, r_feed := Some IEX\<rparr>"
  let ?d2 = "sample_db\<lparr>ingest_runs := [?r]\<rparr>"
  have out: "?out = (Inl Cancelled, \<lparr>h_record = Some ?r, h_dataset_id = Some 9\<rparr>, [?r], ?d2)"
    by (simp add: sample_body_def begin_run_def start_run_def write_transaction_def handle_acknowledge_def
        record_write_def acknowledge_run_def update_run_def sample_db_def empty_db_def new_run_row_def Let_def)
  have "9 \<notin> e_id ` set (entries ?d2)" by (simp add: sample_db_def row_of_create_def)
  then show ?thesis using failed_fetch_leaves_failed_run
      [where body = sample_body and i = 7 and run = sample_run and start_fault = None and d = sample_db, OF out, of ?r None]
    by fastforce
qed

section \<open>Reading runs\<close>

lemma run_orders_distinct: "distinct (map r_id rs) \<Longrightarrow> distinct (map run_order rs)"
  by (induction rs) auto

definition newest_first :: "uuid \<Rightarrow> db \<Rightarrow> run_row list" where
  "newest_first i d = rev (sort_key run_order (filter (\<lambda>r. r_dataset r = Some i) (ingest_runs d)))"

definition before_key :: "(instant \<times> uuid) option \<Rightarrow> run_row \<Rightarrow> bool" where
  "before_key after r \<longleftrightarrow> (case after of None \<Rightarrow> True | Some k \<Rightarrow> run_order r < k)"

lemma list_runs_newest_first: "list_runs_for_dataset i n after d = take n (filter (before_key after) (newest_first i d))"
proof -
  have "(case after of None \<Rightarrow> True | Some (t, j) \<Rightarrow> r_started_at r < t \<or> (r_started_at r = t \<and> r_id r < j)) \<longleftrightarrow>
      before_key after r" for r
    by (auto simp: before_key_def less_prod_def' split: option.split)
  then show ?thesis
    by (simp add: list_runs_for_dataset_def newest_first_def rev_filter [symmetric] filter_sort)
qed

lemma newest_first_sorted:
  assumes "distinct (map r_id (ingest_runs d))"
  shows "sorted_wrt (\<lambda>r s. run_order s < run_order r) (newest_first i d)"
proof -
  let ?rs = "sort_key run_order (filter (\<lambda>r. r_dataset r = Some i) (ingest_runs d))"
  have "distinct (map r_id (filter (\<lambda>r. r_dataset r = Some i) (ingest_runs d)))"
    using assms by (rule distinct_map_filter)
  then have "distinct (map r_id ?rs)" by (simp add: distinct_map)
  then have "sorted_wrt (<) (map run_order ?rs)"
    by (intro strict_sorted_iff [THEN iffD2] conjI run_orders_distinct) simp_all
  then show ?thesis by (simp add: newest_first_def sorted_wrt_rev sorted_wrt_map)
qed

lemma sorted_tail:
  assumes "sorted_wrt (\<lambda>r s. f s < f r) xs" and "take n xs \<noteq> []"
  shows "filter (\<lambda>r. f r < (f (last (take n xs)) :: 'k::linorder)) xs = drop n xs"
  using assms
proof (induction xs arbitrary: n)
  case (Cons x xs)
  then obtain m where n: "n = Suc m" by (cases n) auto
  show ?case
  proof (cases "take m xs = []")
    case True
    then have "drop n (x # xs) = xs" using n by (cases m) auto
    then show ?thesis using Cons.prems True n by (auto simp: filter_id_conv)
  next
    case False
    then have "last (take m xs) \<in> set xs" by (meson in_set_takeD last_in_set)
    then show ?thesis using Cons n False by fastforce
  qed
qed simp

text \<open>A dataset's runs page by keyset without loss: after any page, the next page asked from its
  last row continues exactly where it stopped, newest first, whatever the two page sizes.\<close>

theorem run_pages_concatenate:
  assumes "distinct (map r_id (ingest_runs d))" and "list_runs_for_dataset i n after d = page" and "page \<noteq> []"
  shows "page @ list_runs_for_dataset i m (Some (r_started_at (last page), r_id (last page))) d =
      list_runs_for_dataset i (n + m) after d
    \<and> sorted_wrt (\<lambda>r s. run_order s < run_order r) page
    \<and> (\<forall>r\<in>set page. r \<in> set (ingest_runs d) \<and> r_dataset r = Some i)"
proof -
  let ?all = "filter (before_key after) (newest_first i d)"
  have page: "page = take n ?all" using assms(2) by (simp add: list_runs_newest_first)
  have sorted: "sorted_wrt (\<lambda>r s. run_order s < run_order r) ?all"
    using newest_first_sorted [OF assms(1)] by (rule sorted_wrt_filter)
  have "last page \<in> set ?all" using assms(3) page by (metis in_set_takeD last_in_set)
  then have eq: "before_key (Some (run_order (last page))) r \<longleftrightarrow> before_key after r \<and> run_order r < run_order (last page)" for r
    by (auto simp: before_key_def split: option.splits)
  have "filter (before_key (Some (run_order (last page)))) (newest_first i d) =
      filter (\<lambda>r. run_order r < run_order (last page)) ?all"
    unfolding filter_filter by (rule filter_cong [OF refl eq])
  also have "\<dots> = drop n ?all" using sorted_tail [OF sorted, of n] assms(3) page by simp
  finally have "page @ list_runs_for_dataset i m (Some (run_order (last page))) d = take (n + m) ?all"
    by (simp add: list_runs_newest_first page take_add)
  moreover have "sorted_wrt (\<lambda>r s. run_order s < run_order r) page" unfolding page using sorted by (rule sorted_wrt_take)
  moreover have "\<forall>r\<in>set page. r \<in> set (ingest_runs d) \<and> r_dataset r = Some i"
    unfolding page by (auto simp: newest_first_def dest!: in_set_takeD)
  ultimately show ?thesis by (simp add: list_runs_newest_first)
qed

theorem run_pages_concatenate_witness:
  "let d = sample_db\<lparr>ingest_runs := map (\<lambda>n. new_run_row n (10 * int n) sample_run\<lparr>r_dataset := Some 1\<rparr>) [1, 2, 3]\<rparr>
   in map r_id (list_runs_for_dataset 1 2 None d) = [3, 2] \<and>
      list_runs_for_dataset 1 2 None d @ list_runs_for_dataset 1 5 (Some (20, 2)) d = list_runs_for_dataset 1 7 None d"
proof -
  let ?d = "sample_db\<lparr>ingest_runs := map (\<lambda>n. new_run_row n (10 * int n) sample_run\<lparr>r_dataset := Some 1\<rparr>) [1, 2, 3]\<rparr>"
  have p: "map r_id (list_runs_for_dataset 1 2 None ?d) = [3, 2]" "distinct (map r_id (ingest_runs ?d))"
    "run_order (last (list_runs_for_dataset 1 2 None ?d)) = (20, 2)" by code_simp+
  then have "list_runs_for_dataset 1 2 None ?d \<noteq> []" by auto
  from run_pages_concatenate [OF p(2) refl this, of 5] p show ?thesis by (simp add: Let_def)
qed

lemma find_unique_run:
  assumes "x \<in> set xs" and "P x" and "\<forall>y\<in>set xs. P y \<longrightarrow> y = x"
  shows "find P xs = Some x"
proof -
  obtain y where y: "find P xs = Some y" using assms(1,2) find_None_iff [of P xs] by fast
  then show ?thesis using find_in [OF y] assms(3) by metis
qed

lemma run_rank_one: "run_rank rows r = 1 \<longleftrightarrow> (\<forall>s\<in>set rows. r_dataset s = r_dataset r \<longrightarrow> \<not> run_order r < run_order s)"
  by (auto simp: run_rank_def filter_empty_conv)

lemma newest_first_set: "set (newest_first i d) = {r \<in> set (ingest_runs d). r_dataset r = Some i}"
  by (auto simp: newest_first_def)

text \<open>The latest run of every dataset of a page, read in one statement with a window function, is
  the first run of that dataset's own list, and a dataset that never ran is absent.\<close>

theorem latest_runs_agree_with_list:
  assumes "distinct (map r_id (ingest_runs d))" and "i \<in> set ids"
  shows "latest_runs_for_datasets ids d i =
    (case list_runs_for_dataset i 1 None d of [] \<Rightarrow> None | r # rs \<Rightarrow> Some r)"
proof -
  let ?ranked = "filter (\<lambda>r. \<exists>j\<in>set ids. r_dataset r = Some j) (ingest_runs d)"
  let ?first = "filter (\<lambda>r. run_rank ?ranked r = 1) ?ranked"
  have latest: "latest_runs_for_datasets ids d i = find (\<lambda>r. r_dataset r = Some i) ?first"
    using assms(2) by (auto simp: latest_runs_for_datasets_def)
  have list: "list_runs_for_dataset i 1 None d = take 1 (newest_first i d)"
    by (simp add: list_runs_newest_first before_key_def)
  show ?thesis
  proof (cases "newest_first i d")
    case Nil
    then have "\<forall>r\<in>set (ingest_runs d). r_dataset r \<noteq> Some i" using newest_first_set [of i d] by auto
    then have "find (\<lambda>r. r_dataset r = Some i) ?first = None" by (auto simp: find_None_iff)
    then show ?thesis unfolding latest list Nil by simp
  next
    case (Cons r rs)
    have r: "r \<in> set (ingest_runs d)" "r_dataset r = Some i" using newest_first_set [of i d] Cons by auto
    have rs: "run_order s < run_order r" if "s \<in> set (ingest_runs d)" "r_dataset s = Some i" "s \<noteq> r" for s
      using newest_first_sorted [OF assms(1), of i] newest_first_set [of i d] that Cons by auto
    have "\<not> run_order r < run_order s" if "s \<in> set (ingest_runs d)" "r_dataset s = Some i" for s
    proof (cases "s = r")
      case False
      from rs [OF that this] show ?thesis by (meson less_asym)
    qed simp
    then have "run_rank ?ranked r = 1"
      unfolding run_rank_one r(2) by (intro ballI impI) (simp only: set_filter mem_Collect_eq not_False_eq_True)
    then have "r \<in> set ?first" using r assms(2) by (simp del: One_nat_def)
    moreover have "\<forall>s\<in>set ?first. r_dataset s = Some i \<longrightarrow> s = r"
    proof (intro ballI impI, rule ccontr)
      fix s assume s: "s \<in> set ?first" "r_dataset s = Some i" "s \<noteq> r"
      have "r \<in> set ?ranked" using r assms(2) by auto
      then have "\<not> run_order s < run_order r"
        using s(1,2) r(2) run_rank_one [of ?ranked s] by (auto simp del: less_prod_simp)
      then show False using rs [of s] s by simp
    qed
    ultimately have "find (\<lambda>r. r_dataset r = Some i) ?first = Some r" using r(2) by (intro find_unique_run)
    then show ?thesis unfolding latest list Cons by simp
  qed
qed

theorem latest_runs_agree_with_list_witness:
  "let d = sample_db\<lparr>ingest_runs := map (\<lambda>n. new_run_row n (10 * int n) sample_run\<lparr>r_dataset := Some 1\<rparr>) [1, 2, 3]\<rparr>
   in map_option r_id (latest_runs_for_datasets [1, 4] d 1) = Some 3 \<and> latest_runs_for_datasets [1, 4] d 4 = None"
proof -
  let ?d = "sample_db\<lparr>ingest_runs := map (\<lambda>n. new_run_row n (10 * int n) sample_run\<lparr>r_dataset := Some 1\<rparr>) [1, 2, 3]\<rparr>"
  have p: "distinct (map r_id (ingest_runs ?d))" "map r_id (list_runs_for_dataset 1 1 None ?d) = [3]"
    "list_runs_for_dataset 4 1 None ?d = []" by code_simp+
  then obtain r where "list_runs_for_dataset 1 1 None ?d = [r]" "r_id r = 3" by auto
  then show ?thesis
    using latest_runs_agree_with_list [OF p(1), of 1 "[1, 4]"] latest_runs_agree_with_list [OF p(1), of 4 "[1, 4]"] p(3)
    by (simp add: Let_def)
qed

text \<open>After a startup sweep whose statement commits no run is in progress: every run that was is
  marked interrupted at that instant, every other run is exactly as it was, and the count is theirs.\<close>

theorem sweep_ends_every_running_run:
  assumes "tbl \<noteq> Some False"
  shows "let (n, d') = sweep_interrupted_runs tbl None d
    in n = length (filter (\<lambda>r. r_state r = RUNNING) (ingest_runs d))
     \<and> running_dataset_ids d' = {} \<and> (\<forall>i. \<not> dataset_has_running_run d' i)
     \<and> length (ingest_runs d') = length (ingest_runs d)
     \<and> (\<forall>k<length (ingest_runs d). let r = ingest_runs d ! k; r' = ingest_runs d' ! k in
          if r_state r = RUNNING then r_state r' = FAILED \<and> r_error_reason r' = Some INTERRUPTED_REASON
                                      \<and> r_finished_at r' = Some (db_now d) \<and> r_dataset r' = r_dataset r
          else r' = r)"
  using assms
  by (auto simp: sweep_interrupted_runs_def fail_interrupted_runs_def write_transaction_def running_dataset_ids_def
      dataset_has_running_run_def interrupted_def list_ex_iff map_filter_def Let_def split: if_splits)

theorem sweep_ends_every_running_run_witness:
  "running_dataset_ids (snd (sweep_interrupted_runs None None
     (sample_db\<lparr>ingest_runs := [new_run_row 3 4 sample_run\<lparr>r_dataset := Some 1\<rparr>]\<rparr>))) = {}"
  using sweep_ends_every_running_run [of None "sample_db\<lparr>ingest_runs := [new_run_row 3 4 sample_run\<lparr>r_dataset := Some 1\<rparr>]\<rparr>"]
  by (simp add: case_prod_beta Let_def)

end
