(* ===== verification/Fetch_Stream.thy ===== *)
theory Fetch_Stream
  imports Rpc_Errors Bar_Writes Ingest_Runs
begin

text \<open>
  One dataset fetch, from the stream to the rows: the reader of \<open>server/common/rpc/clients/ingest_fetch.py\<close>
  (the grammar ack, pages, done) and \<open>server/data/store/app/ingest/data_action_request.py\<close> (one
  transaction for the entry and every page). A message of the generated protobuf classes is the value
  the mapping of \<open>common/rpc/mapping\<close> makes of it, or \<open>Unreadable\<close> where the mapping raises.
\<close>

section \<open>The stream\<close>

record fetched_bar =
  fb_start :: instant
  fb_open :: rat
  fb_high :: rat
  fb_low :: rat
  fb_close :: rat
  fb_volume :: rat
  fb_trade_count :: "int option"
  fb_vwap :: "rat option"
  fb_feed :: feed

record fetch_refused =
  fr_reason :: string
  fr_domain :: string
  fr_metadata :: "(string \<times> string) list"

record fetch_done =
  fd_bar_count :: nat
  fd_served :: "instant \<times> instant"
  fd_as_of :: instant

datatype ack = AckAccepted feed | AckRefused fetch_refused

datatype 'a mapped = Readable 'a | Unreadable

datatype wire_event = NoArm | AckArm "ack mapped" | PageArm "fetched_bar list mapped" | DoneArm "fetch_done mapped"

text \<open>What a call yields, in order; its end is the end of the list.\<close>

datatype call_item = Response wire_event | CallFailed tj_error

datatype fetch_event = FetchAccepted feed | BarPage "fetched_bar list" | FetchDone fetch_done

definition protocol_error :: tj_error where
  "protocol_error = peer_error PEER_PROTOCOL_ERROR"

definition refusal_error :: "fetch_refused \<Rightarrow> tj_error" where
  "refusal_error refusal =
     (if fr_domain refusal \<noteq> ERROR_DOMAIN then protocol_error
      else case known_reason (fr_reason refusal) of
             None \<Rightarrow> protocol_error
           | Some r \<Rightarrow> (case build_tj_error (sp_branch (row_of r)) r (map (\<lambda>(k, v). (k, Text v)) (fr_metadata refusal)) None of
                          Inl e \<Rightarrow> protocol_error
                        | Inr e \<Rightarrow> e))"

record stream_reader =
  sr_accepted :: "feed option"
  sr_done :: bool

definition reader_init :: stream_reader where
  "reader_init = \<lparr>sr_accepted = None, sr_done = False\<rparr>"

definition read_ack :: "ack mapped \<Rightarrow> stream_reader \<Rightarrow> tj_error + fetch_event \<times> stream_reader" where
  "read_ack message r =
     (if sr_accepted r \<noteq> None then Inl protocol_error
      else case message of
             Unreadable \<Rightarrow> Inl protocol_error
           | Readable (AckRefused refusal) \<Rightarrow> Inl (refusal_error refusal)
           | Readable (AckAccepted f) \<Rightarrow> Inr (FetchAccepted f, r\<lparr>sr_accepted := Some f\<rparr>))"

definition read_page :: "feed \<Rightarrow> fetched_bar list mapped \<Rightarrow> tj_error + fetched_bar list" where
  "read_page resolved message =
     (case message of
        Unreadable \<Rightarrow> Inl protocol_error
      | Readable bs \<Rightarrow> if list_ex (\<lambda>b. fb_feed b \<noteq> resolved) bs then Inl protocol_error else Inr bs)"

text \<open>\<open>_StreamReader.event\<close>\<close>

definition reader_event :: "wire_event \<Rightarrow> stream_reader \<Rightarrow> tj_error + fetch_event \<times> stream_reader" where
  "reader_event response r =
     (if response = NoArm then Inl protocol_error
      else if sr_done r then Inl protocol_error
      else case response of
             AckArm message \<Rightarrow> read_ack message r
           | _ \<Rightarrow>
             (case sr_accepted r of
                None \<Rightarrow> Inl protocol_error
              | Some f \<Rightarrow>
                (case response of
                   PageArm message \<Rightarrow> bind_r (read_page f message) (\<lambda>bs. Inr (BarPage bs, r))
                 | DoneArm message \<Rightarrow>
                     (case message of
                        Unreadable \<Rightarrow> Inl protocol_error
                      | Readable fin \<Rightarrow> Inr (FetchDone fin, r\<lparr>sr_done := True\<rparr>))
                 | _ \<Rightarrow> Inl protocol_error)))"

text \<open>\<open>fetch\<close>: the events it yields, and the error it then raises, if any.\<close>

fun fetch :: "stream_reader \<Rightarrow> call_item list \<Rightarrow> fetch_event list \<times> tj_error option" where
  "fetch r [] = ([], if sr_done r then None else Some protocol_error)"
| "fetch r (CallFailed e # items) = ([], Some e)"
| "fetch r (Response w # items) =
     (case reader_event w r of
        Inl e \<Rightarrow> ([], Some e)
      | Inr (ev, r') \<Rightarrow> (let (evs, e) = fetch r' items in (ev # evs, e)))"

section \<open>The grammar\<close>

definition page_of :: "feed \<Rightarrow> call_item \<Rightarrow> fetched_bar list option" where
  "page_of f item =
     (case item of
        Response (PageArm (Readable bs)) \<Rightarrow> if list_all (\<lambda>b. fb_feed b = f) bs then Some bs else None
      | _ \<Rightarrow> None)"

fun tail_ok :: "feed \<Rightarrow> fetch_event list \<Rightarrow> bool" where
  "tail_ok f [] = False"
| "tail_ok f [FetchDone fin] = True"
| "tail_ok f (BarPage bs # evs) = (list_all (\<lambda>b. fb_feed b = f) bs \<and> tail_ok f evs)"
| "tail_ok f _ = False"

definition accepted_stream :: "feed \<Rightarrow> fetched_bar list list \<Rightarrow> fetch_done \<Rightarrow> call_item list" where
  "accepted_stream f pages fin =
     Response (AckArm (Readable (AckAccepted f))) #
     map (\<lambda>bs. Response (PageArm (Readable bs))) pages @ [Response (DoneArm (Readable fin))]"

abbreviation on_feed :: "feed \<Rightarrow> fetched_bar list list \<Rightarrow> bool" where
  "on_feed f pages \<equiv> \<forall>bs\<in>set pages. \<forall>b\<in>set bs. fb_feed b = f"

lemma read_page_Inr: "read_page f m = Inr bs \<longleftrightarrow> m = Readable bs \<and> (\<forall>b\<in>set bs. fb_feed b = f)"
  by (auto simp: read_page_def list_ex_iff split: mapped.splits)

lemma fetch_tail:
  "fetch \<lparr>sr_accepted = Some f, sr_done = False\<rparr> items = (evs, None) \<longleftrightarrow>
     (\<exists>pages fin. on_feed f pages
        \<and> items = map (\<lambda>bs. Response (PageArm (Readable bs))) pages @ [Response (DoneArm (Readable fin))]
        \<and> evs = map BarPage pages @ [FetchDone fin])"
proof (induction items arbitrary: evs)
  case (Cons item items)
  show ?case
  proof (cases "\<exists>bs. item = Response (PageArm (Readable bs)) \<and> (\<forall>b\<in>set bs. fb_feed b = f)")
    case True
    then obtain bs where bs: "item = Response (PageArm (Readable bs))" "\<forall>b\<in>set bs. fb_feed b = f" by blast
    then have ev: "reader_event (PageArm (Readable bs)) \<lparr>sr_accepted = Some f, sr_done = False\<rparr> =
        Inr (BarPage bs, \<lparr>sr_accepted = Some f, sr_done = False\<rparr>)"
      by (simp add: reader_event_def read_page_def list_ex_iff)
    show ?thesis (is "?L \<longleftrightarrow> ?R")
    proof
      assume ?L
      then obtain evs' where e: "evs = BarPage bs # evs'" "fetch \<lparr>sr_accepted = Some f, sr_done = False\<rparr> items = (evs', None)"
        using bs ev by (auto simp: Let_def split: prod.splits)
      from Cons.IH [THEN iffD1, OF e(2)] obtain pages fin where "on_feed f pages"
        "items = map (\<lambda>bs. Response (PageArm (Readable bs))) pages @ [Response (DoneArm (Readable fin))]"
        "evs' = map BarPage pages @ [FetchDone fin]" by blast
      then show ?R using bs e(1) by (intro exI [of _ "bs # pages"] exI [of _ fin]) simp
    next
      assume ?R
      then obtain pages fin where p: "on_feed f pages"
        "item # items = map (\<lambda>bs. Response (PageArm (Readable bs))) pages @ [Response (DoneArm (Readable fin))]"
        "evs = map BarPage pages @ [FetchDone fin]" by blast
      then obtain pages' where "pages = bs # pages'" using bs(1) by (cases pages) auto
      then have "fetch \<lparr>sr_accepted = Some f, sr_done = False\<rparr> items = (map BarPage pages' @ [FetchDone fin], None)"
        using p Cons.IH by auto
      then show ?L using bs ev p(3) \<open>pages = bs # pages'\<close> by simp
    qed
  next
    case False
    show ?thesis (is "?L \<longleftrightarrow> ?R")
    proof
      assume ?L
      then obtain fin where d: "item = Response (DoneArm (Readable fin))"
        using False by (auto simp: reader_event_def read_ack_def read_page_def list_ex_iff bind_r_Inr_iff Let_def
            split: call_item.splits wire_event.splits mapped.splits if_splits sum.splits prod.splits elim!: fetch.elims)
      then have "fetch \<lparr>sr_accepted = Some f, sr_done = True\<rparr> items = (tl evs, None)" "hd evs = FetchDone fin" "evs \<noteq> []"
        using \<open>?L\<close> by (auto simp: reader_event_def Let_def split: prod.splits)
      moreover have "items = []" "tl evs = []" using calculation(1)
        by (cases items; auto simp: reader_event_def split: call_item.splits wire_event.splits if_splits elim!: fetch.elims)+
      ultimately show ?R using d by (intro exI [of _ "[]"] exI [of _ fin]) (auto simp: neq_Nil_conv)
    next
      assume ?R
      then obtain pages fin where r: "on_feed f pages"
        "item # items = map (\<lambda>bs. Response (PageArm (Readable bs))) pages @ [Response (DoneArm (Readable fin))]"
        "evs = map BarPage pages @ [FetchDone fin]" by blast
      have "pages = []" using r(1,2) False by (cases pages) auto
      then show ?L using r by (simp add: reader_event_def)
    qed
  qed
qed simp

lemma fetch_begins:
  "fetch reader_init items = (evs, e) \<Longrightarrow> evs \<noteq> [] \<Longrightarrow>
     \<exists>f items' evs'. items = Response (AckArm (Readable (AckAccepted f))) # items' \<and> evs = FetchAccepted f # evs' \<and>
       fetch \<lparr>sr_accepted = Some f, sr_done = False\<rparr> items' = (evs', e)"
  by (cases "(reader_init, items)" rule: fetch.cases)
    (auto simp: reader_init_def reader_event_def read_ack_def Let_def
      split: wire_event.splits mapped.splits ack.splits if_splits prod.splits sum.splits)

lemma fetch_none_nonempty: "fetch reader_init items = ([], None) \<Longrightarrow> False"
  by (cases "(reader_init, items)" rule: fetch.cases) (auto simp: reader_init_def Let_def split: sum.splits prod.splits)

definition grammatical_prefix :: "feed \<Rightarrow> fetch_event list \<Rightarrow> bool" where
  "grammatical_prefix f evs \<longleftrightarrow>
     (\<exists>pages. on_feed f pages \<and> (evs = map BarPage pages \<or> (\<exists>fin. evs = map BarPage pages @ [FetchDone fin])))"

lemma reader_event_after_done: "reader_event w \<lparr>sr_accepted = f, sr_done = True\<rparr> = Inl protocol_error"
  by (simp add: reader_event_def)

lemma fetch_after_done:
  "fetch \<lparr>sr_accepted = Some f, sr_done = True\<rparr> items = (evs, e) \<Longrightarrow> evs = []"
  by (cases "(\<lparr>sr_accepted = Some f, sr_done = True\<rparr>, items)" rule: fetch.cases) (auto simp: reader_event_after_done)

lemma fetch_prefix:
  "fetch \<lparr>sr_accepted = Some f, sr_done = False\<rparr> items = (evs, e) \<Longrightarrow> grammatical_prefix f evs"
proof (induction items arbitrary: evs)
  case Nil
  then have "evs = []" by simp
  then show ?case unfolding grammatical_prefix_def by (intro exI [of _ "[]"]) simp
next
  case (Cons item items)
  let ?r = "\<lparr>sr_accepted = Some f, sr_done = False\<rparr>"
  show ?case
  proof (cases "\<exists>w ev r'. item = Response w \<and> reader_event w ?r = Inr (ev, r')")
    case False
    then have "evs = []" using Cons.prems by (cases item) (auto split: sum.splits prod.splits)
    then show ?thesis unfolding grammatical_prefix_def by (intro exI [of _ "[]"]) simp
  next
    case True
    then obtain w ev r' where w: "item = Response w" "reader_event w ?r = Inr (ev, r')" by blast
    then obtain evs' where evs: "evs = ev # evs'" "fetch r' items = (evs', e)"
      using Cons.prems by (auto simp: Let_def split: prod.splits)
    from w(2) consider bs where "ev = BarPage bs" "r' = ?r" "\<forall>b\<in>set bs. fb_feed b = f"
      | fin where "ev = FetchDone fin" "r' = \<lparr>sr_accepted = Some f, sr_done = True\<rparr>"
      by (auto simp: reader_event_def read_ack_def bind_r_Inr_iff read_page_Inr split: wire_event.splits mapped.splits if_splits)
    then show ?thesis
    proof cases
      case 1
      then obtain pages where "on_feed f pages" "evs' = map BarPage pages \<or> (\<exists>fin. evs' = map BarPage pages @ [FetchDone fin])"
        using Cons.IH [of evs'] evs(2) unfolding grammatical_prefix_def by blast
      then show ?thesis using 1 evs(1) unfolding grammatical_prefix_def by (intro exI [of _ "bs # pages"]) auto
    next
      case 2
      then have "evs' = []" using evs(2) fetch_after_done by blast
      then show ?thesis using 2 evs(1) unfolding grammatical_prefix_def by (intro exI [of _ "[]"]) auto
    qed
  qed
qed

section \<open>Properties of the stream\<close>

lemma fetch_grammar:
  "fetch reader_init items = (evs, None) \<longleftrightarrow>
     (\<exists>f pages fin. (\<forall>bs\<in>set pages. \<forall>b\<in>set bs. fb_feed b = f) \<and> items = accepted_stream f pages fin
        \<and> evs = FetchAccepted f # map BarPage pages @ [FetchDone fin])" (is "?L \<longleftrightarrow> ?R")
proof
  assume ?L
  then have "evs \<noteq> []" using fetch_none_nonempty by blast
  with \<open>?L\<close> obtain f items' evs' where s: "items = Response (AckArm (Readable (AckAccepted f))) # items'"
    "evs = FetchAccepted f # evs'" "fetch \<lparr>sr_accepted = Some f, sr_done = False\<rparr> items' = (evs', None)"
    using fetch_begins by blast
  from fetch_tail [THEN iffD1, OF s(3)] s(1,2) show ?R unfolding accepted_stream_def by blast
next
  assume ?R
  then obtain f pages fin where s: "on_feed f pages" "items = accepted_stream f pages fin"
    "evs = FetchAccepted f # map BarPage pages @ [FetchDone fin]" by blast
  then have "fetch \<lparr>sr_accepted = Some f, sr_done = False\<rparr>
      (map (\<lambda>bs. Response (PageArm (Readable bs))) pages @ [Response (DoneArm (Readable fin))]) =
      (map BarPage pages @ [FetchDone fin], None)" using fetch_tail by blast
  then show ?L using s(2,3)
    by (simp add: accepted_stream_def reader_init_def reader_event_def read_ack_def)
qed

text \<open>C34. A fetch ends without an error exactly on a stream of the grammar: an accepted
  acknowledgement, pages whose bars all carry the acknowledged feed, one done, and then the end of the
  call; and it then yields exactly those messages.\<close>

theorem fetch_accepts_exactly_the_grammar:
  "fetch reader_init items = (evs, None) \<longleftrightarrow>
     (\<exists>f pages fin. (\<forall>bs\<in>set pages. \<forall>b\<in>set bs. fb_feed b = f) \<and> items = accepted_stream f pages fin
        \<and> evs = FetchAccepted f # map BarPage pages @ [FetchDone fin])"
  by (rule fetch_grammar)

theorem fetch_accepts_exactly_the_grammar_witness:
  "fetch reader_init (accepted_stream (IEX) [[], []] \<lparr>fd_bar_count = 0, fd_served = (0, 10), fd_as_of = 10\<rparr>) =
     ([FetchAccepted (IEX), BarPage [], BarPage [], FetchDone \<lparr>fd_bar_count = 0, fd_served = (0, 10), fd_as_of = 10\<rparr>], None)"
  by (rule fetch_accepts_exactly_the_grammar [THEN iffD2], intro exI [of _ "IEX"] exI [of _ "[[], []]"]
      exI [of _ "\<lparr>fd_bar_count = 0, fd_served = (0, 10), fd_as_of = 10\<rparr>"]) simp

end
