(* ===== verification/Fetch_Worker.thy ===== *)
theory Fetch_Worker
  imports Fetch_Stream
begin

text \<open>
  \<open>store_market_activity_worker\<close> of \<open>server/data/store/app/ingest/data_action_request.py\<close>: one stream, one
  transaction. \<open>client\<close> is the seam, from a request to what its call yields; \<open>other\<close> is what other
  transactions commit while the vendor call is in flight, before its acknowledgement; \<open>on_ack\<close> is the
  caller's hook, which commits on a session of its own, so its effect outlives a rollback.
\<close>

section \<open>Requests\<close>

record store_body =
  sb_key :: overlap_key
  sb_feed :: "feed option"
  sb_expiry :: "instant option"
  sb_collect :: "bool option"

record fetch_request =
  rq_owner :: string
  rq_source :: data_source
  rq_feed :: "feed option"
  rq_symbol :: string
  rq_asset_type :: asset_type
  rq_data_types :: "data_type list"
  rq_granularity :: granularity
  rq_start :: instant
  rq_end :: "instant option"
  rq_update_type :: update_type
  rq_request_id :: "string option"
  rq_ready_by :: "instant option"
  rq_best_effort :: bool

text \<open>\<open>_fetch_request\<close>\<close>

definition fetch_request_of :: "store_body \<Rightarrow> instant option \<Rightarrow> fetch_request" where
  "fetch_request_of body fetch_start =
     (let k = sb_key body in
      \<lparr>rq_owner = k_owner k, rq_source = k_source k, rq_feed = sb_feed body, rq_symbol = k_symbol k,
       rq_asset_type = k_asset_type k, rq_data_types = [k_data_type k], rq_granularity = k_granularity k,
       rq_start = (case fetch_start of None \<Rightarrow> k_start k | Some s \<Rightarrow> s), rq_end = k_end k,
       rq_update_type = k_update_type k, rq_request_id = None, rq_ready_by = None, rq_best_effort = False\<rparr>)"

definition entry_on_ack :: "overlap_key \<Rightarrow> instant option \<Rightarrow> feed \<Rightarrow> entry_create" where
  "entry_on_ack k expiry accepted = extend_key k expiry accepted"

text \<open>
  \<open>_page_batch\<close>: a volume that is no whole number, or no trade count, does not validate as the stored bar.
\<close>

definition bar_of_fetched :: "fetched_bar \<Rightarrow> bar_create option" where
  "bar_of_fetched b =
     (case fb_trade_count b of
        None \<Rightarrow> None
      | Some n \<Rightarrow>
          if of_int \<lfloor>fb_volume b\<rfloor> \<noteq> fb_volume b then None
          else Some \<lparr>bc_timestamp = Aware (fb_start b),
                     bc_data = \<lparr>o_open = fb_open b, o_high = fb_high b, o_low = fb_low b, o_close = fb_close b,
                                o_volume = \<lfloor>fb_volume b\<rfloor>, o_trade_count = n\<rparr>\<rparr>)"

fun all_some :: "'a option list \<Rightarrow> 'a list option" where
  "all_some [] = Some []"
| "all_some (x # xs) = (case x of None \<Rightarrow> None | Some y \<Rightarrow> map_option ((#) y) (all_some xs))"

definition batch_for :: "overlap_key \<Rightarrow> uuid \<Rightarrow> feed \<Rightarrow> bar_create list \<Rightarrow> bar_batch" where
  "batch_for k dataset f bs =
     \<lparr>bb_dataset_id = dataset, bb_symbol = k_symbol k, bb_source = k_source k, bb_feed = f,
      bb_granularity = k_granularity k,
      bb_dataset = (\<lambda>t. if t = MARKET_ACTIVITY \<and> bs \<noteq> [] then Some bs else None)\<rparr>"

definition page_batch :: "overlap_key \<Rightarrow> uuid \<Rightarrow> feed \<Rightarrow> fetched_bar list \<Rightarrow> bar_batch option" where
  "page_batch k dataset f page = map_option (batch_for k dataset f) (all_some (map bar_of_fetched page))"

section \<open>The worker\<close>

record worker =
  w_body :: store_body
  w_preserve :: bool
  w_batch_size :: "int option"
  w_new_id :: uuid
  w_on_ack :: "uuid \<Rightarrow> feed \<Rightarrow> db \<Rightarrow> db"

text \<open>What the loop has so far, with what the other sessions have committed (what a rollback leaves).\<close>

record progress =
  p_dataset :: "uuid option"
  p_feed :: "feed option"
  p_count :: nat
  p_served :: "(instant \<times> instant) option"
  p_flip :: "bool option"
  p_committed :: db

definition on_accepted :: "worker \<Rightarrow> (db \<Rightarrow> db) \<Rightarrow> feed \<Rightarrow> progress \<Rightarrow> db \<Rightarrow> progress \<times> unit block" where
  "on_accepted w other f p d =
     (let d1 = other d; p1 = p\<lparr>p_feed := Some f, p_committed := other (p_committed p)\<rparr>;
          entry = entry_on_ack (sb_key (w_body w)) (sb_expiry (w_body w)) f;
          upsert = (if w_preserve w
                    then (if lock_active_entry entry d1 = None then Raises DatasetRetiredDuringFetch
                          else upsert_entry_in_transaction (w_new_id w) entry True None d1)
                    else upsert_entry_in_transaction (w_new_id w) entry False (sb_collect (w_body w)) d1);
          flip = (if w_preserve w then None
                  else collect_change (lock_stored_collect entry d1) (sb_collect (w_body w)))
      in case upsert of
           Returns i d2 \<Rightarrow>
             (p1\<lparr>p_dataset := Some i, p_flip := flip, p_committed := w_on_ack w i f (p_committed p1)\<rparr>,
              Returns () (w_on_ack w i f d2))
         | Raises e \<Rightarrow> (p1, Raises e)
         | Fails e \<Rightarrow> (p1, Fails e))"

definition on_page :: "worker \<Rightarrow> fetched_bar list \<Rightarrow> progress \<Rightarrow> db \<Rightarrow> progress \<times> unit block" where
  "on_page w page p d =
     (case (p_dataset p, p_feed p) of
        (Some i, Some f) \<Rightarrow>
          (case page_batch (sb_key (w_body w)) i f page of
             None \<Rightarrow> (p, Raises InvalidPage)
           | Some batch \<Rightarrow>
               (case write_market_activity_in_transaction batch (w_batch_size w) d of
                  Returns n d' \<Rightarrow> (p\<lparr>p_count := p_count p + n\<rparr>, Returns () d')
                | Raises e \<Rightarrow> (p, Raises e)
                | Fails e \<Rightarrow> (p, Fails e)))
      | _ \<Rightarrow> (p, Raises InvalidPage))"

fun on_event :: "worker \<Rightarrow> (db \<Rightarrow> db) \<Rightarrow> fetch_event \<Rightarrow> progress \<Rightarrow> db \<Rightarrow> progress \<times> unit block" where
  "on_event w other (FetchAccepted f) p d = on_accepted w other f p d"
| "on_event w other (BarPage page) p d = on_page w page p d"
| "on_event w other (FetchDone fin) p d = (p\<lparr>p_served := Some (fd_served fin)\<rparr>, Returns () d)"

fun consume :: "worker \<Rightarrow> (db \<Rightarrow> db) \<Rightarrow> fetch_event list \<Rightarrow> progress \<Rightarrow> db \<Rightarrow> progress \<times> unit block" where
  "consume w other [] p d = (p, Returns () d)"
| "consume w other (ev # evs) p d =
     (case on_event w other ev p d of
        (p', Returns _ d') \<Rightarrow> consume w other evs p' d'
      | (p', Raises e) \<Rightarrow> (p', Raises e)
      | (p', Fails e) \<Rightarrow> (p', Fails e))"

text \<open>\<open>StoredDataset\<close>; a served range of \<open>None\<close> is the attribute error of a stream without its done.\<close>

record stored_dataset =
  sd_data_points :: nat
  sd_served_range :: "(instant \<times> instant) option"
  sd_collect_changed_to :: "bool option"

definition store_market_activity_worker ::
  "worker \<Rightarrow> (fetch_request \<Rightarrow> call_item list) \<Rightarrow> instant option \<Rightarrow> (db \<Rightarrow> db) \<Rightarrow> sql_error option \<Rightarrow> db \<Rightarrow>
   (store_error + stored_dataset) \<times> db" where
  "store_market_activity_worker w client fetch_start other fault d =
     (case check_own_overlap (sb_key (w_body w)) d of
        Returns _ d0 \<Rightarrow>
          (let (evs, failure) = fetch reader_init (client (fetch_request_of (w_body w) fetch_start));
               (p, body) = consume w other evs
                 \<lparr>p_dataset = None, p_feed = None, p_count = 0, p_served = None, p_flip = None, p_committed = d\<rparr> d0;
               outcome = bind_b body (\<lambda>_ d. case failure of
                   None \<Rightarrow> Returns \<lparr>sd_data_points = p_count p, sd_served_range = p_served p,
                                     sd_collect_changed_to = p_flip p\<rparr> d
                 | Some e \<Rightarrow> Raises (FetchFailed e))
           in write_transaction fault (p_committed p) outcome)
      | Raises e \<Rightarrow> write_transaction fault d (Raises e)
      | Fails e \<Rightarrow> write_transaction fault d (Fails e))"

section \<open>The loop over the events\<close>

text \<open>The hook reports the acknowledgement: it may write the run table and nothing else.\<close>

definition reports_only :: "(uuid \<Rightarrow> feed \<Rightarrow> db \<Rightarrow> db) \<Rightarrow> bool" where
  "reports_only hook \<longleftrightarrow> (\<forall>i f d. \<exists>rs. hook i f d = d\<lparr>ingest_runs := rs\<rparr>)"

lemma reports_only_fields:
  assumes "reports_only hook"
  shows "entries (hook i f d) = entries d" "bars (hook i f d) = bars d" "overrides (hook i f d) = overrides d"
    "deletions (hook i f d) = deletions d" "db_now (hook i f d) = db_now d"
proof -
  obtain rs where "hook i f d = d\<lparr>ingest_runs := rs\<rparr>" using assms unfolding reports_only_def by blast
  then show "entries (hook i f d) = entries d" "bars (hook i f d) = bars d" "overrides (hook i f d) = overrides d"
    "deletions (hook i f d) = deletions d" "db_now (hook i f d) = db_now d" by simp_all
qed

lemma grammatical_no_ack: "grammatical_prefix f evs \<Longrightarrow> FetchAccepted g \<notin> set evs"
  by (auto simp: grammatical_prefix_def)

lemma consume_committed:
  "\<forall>g. FetchAccepted g \<notin> set evs \<Longrightarrow> consume w other evs p d = (p', body) \<Longrightarrow> p_committed p' = p_committed p"
proof (induction evs arbitrary: p d)
  case (Cons ev evs)
  obtain q blk where q: "on_event w other ev p d = (q, blk)" by fastforce
  have "p_committed q = p_committed p"
    using q Cons.prems(1) by (cases ev) (auto simp: on_page_def split: option.splits block.splits)
  then show ?case using Cons q by (cases blk) auto
qed simp

lemma on_accepted_committed:
  assumes "on_accepted w other f p d = (p', body)"
  shows "p_committed p' = other (p_committed p) \<or> (\<exists>i. p_committed p' = w_on_ack w i f (other (p_committed p)))"
  using assms by (auto simp: on_accepted_def Let_def split: block.splits)

lemma fetch_shape:
  assumes "fetch reader_init items = (evs, e)"
  obtains "evs = []" | f evs' where "evs = FetchAccepted f # evs'" "grammatical_prefix f evs'"
  using fetch_begins [OF assms] fetch_prefix by blast

lemma consume_fetch_committed:
  assumes f: "fetch reader_init items = (evs, e)" and c: "consume w other evs p d = (p', body)"
  shows "p_committed p' = p_committed p \<or> p_committed p' = other (p_committed p)
    \<or> (\<exists>i f. p_committed p' = w_on_ack w i f (other (p_committed p)))"
  using f
proof (rule fetch_shape)
  assume "evs = []"
  then show ?thesis using c by simp
next
  fix f evs' assume e: "evs = FetchAccepted f # evs'" "grammatical_prefix f evs'"
  obtain q blk where q: "on_accepted w other f p d = (q, blk)" by fastforce
  show ?thesis
  proof (cases blk)
    case (Returns u d')
    then have "consume w other evs' q d' = (p', body)" using c e(1) q by simp
    then have "p_committed p' = p_committed q"
      using consume_committed grammatical_no_ack [OF e(2)] by blast
    then show ?thesis using on_accepted_committed [OF q] by metis
  qed (use c e(1) q on_accepted_committed [OF q] in auto)
qed

lemma worker_failed:
  assumes "reports_only (w_on_ack w)"
    and "store_market_activity_worker w client fetch_start other fault d = (Inl e, d')"
  shows "\<exists>kept \<in> {d, other d}. entries d' = entries kept \<and> bars d' = bars kept
    \<and> overrides d' = overrides kept \<and> deletions d' = deletions kept"
proof (cases "check_own_overlap (sb_key (w_body w)) d")
  case (Returns u d0)
  have d0: "d0 = d" using Returns same_db(3) by blast
  let ?p0 = "\<lparr>p_dataset = None, p_feed = None, p_count = 0, p_served = None, p_flip = None, p_committed = d\<rparr>"
  obtain evs failure where f: "fetch reader_init (client (fetch_request_of (w_body w) fetch_start)) = (evs, failure)"
    by fastforce
  obtain p body where c: "consume w other evs ?p0 d = (p, body)" by fastforce
  have "d' = p_committed p"
    using assms(2) Returns f c d0 write_transaction_Inl
    by (fastforce simp: store_market_activity_worker_def Let_def)
  then show ?thesis
    using consume_fetch_committed [OF f c] reports_only_fields [OF assms(1)] by auto
qed (use assms(2) in \<open>auto simp: store_market_activity_worker_def dest: write_transaction_Inl\<close>)

text \<open>C12. A fetch is all or nothing. Whatever makes it fail - a refusal, a broken or refused stream, a
  page that does not validate, a statement or the commit - no dataset entry, bar, override row or
  deletion row of it is stored: these are what the other sessions left, before the call or during it.\<close>

theorem failed_fetch_stores_nothing:
  assumes "reports_only (w_on_ack w)"
    and "store_market_activity_worker w client fetch_start other fault d = (Inl e, d')"
  shows "\<exists>kept \<in> {d, other d}. entries d' = entries kept \<and> bars d' = bars kept
    \<and> overrides d' = overrides kept \<and> deletions d' = deletions kept"
  using assms by (rule worker_failed)

section \<open>A completed fetch\<close>

text \<open>The rows one page writes, and the stored entry the acknowledgement names.\<close>

definition page_rows :: "overlap_key \<Rightarrow> uuid \<Rightarrow> feed \<Rightarrow> instant \<Rightarrow> fetched_bar list \<Rightarrow> bar list" where
  "page_rows k i f now page =
     (case page_batch k i f page of None \<Rightarrow> [] | Some batch \<Rightarrow> from_batch_create batch now)"

lemma all_some_length: "all_some xs = Some ys \<Longrightarrow> length ys = length xs"
  by (induction xs arbitrary: ys) (auto split: option.splits)

lemma on_page_done:
  assumes "on_page w page p d = (p', Returns u d')" and "p_dataset p = Some i" and "p_feed p = Some f" and "has_dataset d i"
  shows "d' = d\<lparr>bars := bar_table.upserts (page_rows (sb_key (w_body w)) i f (db_now d) page) (bars d)\<rparr>"
    and "p' = p\<lparr>p_count := p_count p + length page\<rparr>"
proof -
  let ?k = "sb_key (w_body w)"
  from assms(1-3) obtain bs n where bs: "all_some (map bar_of_fetched page) = Some bs"
    and wr: "write_market_activity_in_transaction (batch_for ?k i f bs) (w_batch_size w) d = Returns n d'"
    and p': "p' = p\<lparr>p_count := p_count p + n\<rparr>"
    by (auto simp: on_page_def page_batch_def split: option.splits block.splits)
  have len: "length bs = length page" using all_some_length [OF bs] by simp
  have rows: "page_rows ?k i f (db_now d) page = from_batch_create (batch_for ?k i f bs) (db_now d)"
    by (simp add: page_rows_def page_batch_def bs)
  have "d' = d\<lparr>bars := bar_table.upserts (page_rows ?k i f (db_now d) page) (bars d)\<rparr> \<and> n = length page"
  proof (cases "bs = []")
    case True
    then have "bb_dataset (batch_for ?k i f bs) MARKET_ACTIVITY = None" by (simp add: batch_for_def)
    then show ?thesis
      using wr rows True len by (simp add: write_market_activity_in_transaction_def from_batch_create_def)
  next
    case False
    then have b: "bb_dataset (batch_for ?k i f bs) MARKET_ACTIVITY = Some bs" "bb_dataset_id (batch_for ?k i f bs) = i"
      by (simp_all add: batch_for_def)
    have "duplicate_timestamp {} bs = None"
      using wr write_Some [OF b(1)] by (cases "duplicate_timestamp {} bs") simp_all
    then have "distinct (map (instant_of \<circ> bc_timestamp) bs)" by (simp add: duplicate_timestamp_None)
    then show ?thesis using batch_written [OF wr b(1)] assms(4) b(2) rows len by simp
  qed
  then show "d' = d\<lparr>bars := bar_table.upserts (page_rows ?k i f (db_now d) page) (bars d)\<rparr>"
    "p' = p\<lparr>p_count := p_count p + length page\<rparr>" using p' by simp_all
qed

lemma on_page_ok:
  assumes "p_dataset p = Some i" and "p_feed p = Some f" and "has_dataset d i"
    and bs: "all_some (map bar_of_fetched page) = Some bs" and "distinct (map (instant_of \<circ> bc_timestamp) bs)"
    and "\<forall>b\<in>set bs. row_fits (bc_data b)"
  shows "on_page w page p d = (p\<lparr>p_count := p_count p + length bs\<rparr>, Returns ()
    (d\<lparr>bars := bar_table.upserts (page_rows (sb_key (w_body w)) i f (db_now d) page) (bars d)\<rparr>))"
proof (cases "bs = []")
  case True
  then show ?thesis using assms
    by (simp add: on_page_def page_batch_def batch_for_def page_rows_def from_batch_create_def
        write_market_activity_in_transaction_def)
next
  case False
  let ?b = "batch_for (sb_key (w_body w)) i f bs"
  have b: "bb_dataset ?b MARKET_ACTIVITY = Some bs" "bb_dataset_id ?b = i" using False by (simp_all add: batch_for_def)
  show ?thesis
    using batch_write [OF b(1) assms(5), of d "w_batch_size w"] b(2) assms(1-4,6)
    by (simp add: on_page_def page_batch_def page_rows_def)
qed

lemma consume_pages:
  assumes "consume w other (map BarPage pages @ [FetchDone fin]) p d = (p', Returns u d')"
    and "p_dataset p = Some i" and "p_feed p = Some f" and "has_dataset d i"
  shows "d' = d\<lparr>bars := bar_table.upserts (concat (map (page_rows (sb_key (w_body w)) i f (db_now d)) pages)) (bars d)\<rparr>
    \<and> p' = p\<lparr>p_count := p_count p + length (concat pages), p_served := Some (fd_served fin)\<rparr>"
  using assms
proof (induction pages arbitrary: p d)
  case (Cons page pages)
  obtain q blk where q: "on_page w page p d = (q, blk)" by fastforce
  obtain v d1 where blk: "blk = Returns v d1" using Cons.prems(1) q by (cases blk) auto
  note page = on_page_done [OF q [unfolded blk] Cons.prems(2-4)]
  have "consume w other (map BarPage pages @ [FetchDone fin]) q d1 = (p', Returns u d')"
    using Cons.prems(1) q blk by simp
  from Cons.IH [OF this] page Cons.prems(2-4) show ?case by (simp add: add.assoc)
qed simp

lemma upserted_id:
  assumes "upsert_entry_in_transaction new_id c p collect d = Returns i d'"
  shows "has_dataset d' i" and "bars d' = bars d \<and> db_now d' = db_now d"
    and "entries d' = upsert_row natural_key (on_conflict p collect (row_of_create new_id (db_now d) collect c))
           (row_of_create new_id (db_now d) collect c) (entries d)"
proof -
  let ?row = "row_of_create new_id (db_now d) collect c"
  let ?es = "upsert_row natural_key (on_conflict p collect ?row) ?row (entries d)"
  have "natural_key ?row \<in> natural_key ` set ?es" unfolding entry_table.keys_upsert by simp
  then obtain e where e: "find (\<lambda>e. natural_key e = natural_key ?row) ?es = Some e"
    using find_None_iff [of "\<lambda>e. natural_key e = natural_key ?row" ?es] by fastforce
  have up: "d' = d\<lparr>entries := ?es\<rparr>" "i = e_id e" using assms e by (simp_all add: upsert_entry_in_transaction_def Let_def)
  then show "has_dataset d' i" using find_in [OF e] by simp
  show "bars d' = bars d \<and> db_now d' = db_now d" "entries d' = ?es" using up by simp_all
qed

definition acknowledged_entry :: "worker \<Rightarrow> feed \<Rightarrow> entry_create" where
  "acknowledged_entry w f = entry_on_ack (sb_key (w_body w)) (sb_expiry (w_body w)) f"

text \<open>What a completed call did, step by step.\<close>

lemma worker_done:
  assumes hook: "reports_only (w_on_ack w)"
    and "store_market_activity_worker w client fetch_start other fault d = (Inr s, d')"
  obtains f pages fin i d2 where
    "client (fetch_request_of (w_body w) fetch_start) = accepted_stream f pages fin" "on_feed f pages"
    "find_own_overlap d (sb_key (w_body w)) = []"
    "w_preserve w \<longrightarrow> lock_active_entry (acknowledged_entry w f) (other d) \<noteq> None"
    "upsert_entry_in_transaction (w_new_id w) (acknowledged_entry w f) (w_preserve w)
       (if w_preserve w then None else sb_collect (w_body w)) (other d) = Returns i d2"
    "entries d' = entries d2"
    "bars d' = bar_table.upserts (concat (map (page_rows (sb_key (w_body w)) i f (db_now (other d))) pages)) (bars (other d))"
    "s = \<lparr>sd_data_points = length (concat pages), sd_served_range = Some (fd_served fin),
           sd_collect_changed_to = (if w_preserve w then None
             else collect_change (lock_stored_collect (acknowledged_entry w f) (other d)) (sb_collect (w_body w)))\<rparr>"
proof -
  let ?p0 = "\<lparr>p_dataset = None, p_feed = None, p_count = 0, p_served = None, p_flip = None, p_committed = d\<rparr>"
  obtain u d0 where ov: "check_own_overlap (sb_key (w_body w)) d = Returns u d0"
    using assms(2) by (cases "check_own_overlap (sb_key (w_body w)) d")
      (auto simp: store_market_activity_worker_def write_transaction_Inr)
  have d0: "d0 = d" "find_own_overlap d (sb_key (w_body w)) = []" using same_db(3) [OF ov] by simp_all
  obtain evs failure where fetched: "fetch reader_init (client (fetch_request_of (w_body w) fetch_start)) = (evs, failure)"
    by fastforce
  obtain p body where c: "consume w other evs ?p0 d = (p, body)" by fastforce
  have out: "failure = None" "\<exists>v. body = Returns v d'"
    "s = \<lparr>sd_data_points = p_count p, sd_served_range = p_served p, sd_collect_changed_to = p_flip p\<rparr>"
    using assms(2) ov d0 fetched c
    by (auto simp: store_market_activity_worker_def write_transaction_Inr bind_b_Returns_iff split: option.splits)
  then obtain v where body: "body = Returns v d'" by blast
  from fetched out(1) obtain f pages fin where g: "on_feed f pages"
    "client (fetch_request_of (w_body w) fetch_start) = accepted_stream f pages fin"
    "evs = FetchAccepted f # map BarPage pages @ [FetchDone fin]"
    using fetch_grammar by blast
  obtain q blk where q: "on_accepted w other f ?p0 d = (q, blk)" by fastforce
  obtain v' d3 where blk: "blk = Returns v' d3" using c body g(3) q by (cases blk) auto
  have rest: "consume w other (map BarPage pages @ [FetchDone fin]) q d3 = (p, Returns v d')"
    using c body g(3) q blk by simp
  from q blk obtain i d2 where up: "w_preserve w \<longrightarrow> lock_active_entry (acknowledged_entry w f) (other d) \<noteq> None"
    "upsert_entry_in_transaction (w_new_id w) (acknowledged_entry w f) (w_preserve w)
       (if w_preserve w then None else sb_collect (w_body w)) (other d) = Returns i d2"
    and d3: "d3 = w_on_ack w i f d2" and q': "p_dataset q = Some i" "p_feed q = Some f" "p_count q = 0"
    "p_flip q = (if w_preserve w then None
       else collect_change (lock_stored_collect (acknowledged_entry w f) (other d)) (sb_collect (w_body w)))"
    by (auto simp: on_accepted_def acknowledged_entry_def Let_def split: block.splits if_splits)
  note up2 = upserted_id [OF up(2)] and hook' = reports_only_fields [OF hook, of i f d2]
  have "has_dataset d3 i" using up2(1) hook' d3 by simp
  note pages = consume_pages [OF rest q'(1,2) this]
  show thesis
    by (rule that [OF g(2,1) d0(2) up]) (use pages up2 hook' d3 q' out(3) in simp_all)
qed

lemma upserted_names:
  assumes "upsert_entry_in_transaction new_id c p collect d = Returns i d'"
  shows "\<exists>e\<in>set (entries d'). e_id e = i \<and> names_row c e"
proof -
  let ?row = "row_of_create new_id (db_now d) collect c"
  let ?es = "upsert_row natural_key (on_conflict p collect ?row) ?row (entries d)"
  have "natural_key ?row \<in> natural_key ` set ?es" unfolding entry_table.keys_upsert by simp
  then obtain e where e: "find (\<lambda>e. natural_key e = natural_key ?row) ?es = Some e"
    using find_None_iff [of "\<lambda>e. natural_key e = natural_key ?row" ?es] by fastforce
  then have "names_row c e" using find_in [OF e] names_row_key by blast
  moreover have "d' = d\<lparr>entries := ?es\<rparr>" "i = e_id e" using assms e by (simp_all add: upsert_entry_in_transaction_def Let_def)
  ultimately show ?thesis using find_in [OF e] by auto
qed

text \<open>C13. A fetch that succeeds came from a complete stream of the grammar, and stored all of it in one
  commit: the entry the request names on the acknowledged tape, and every bar of every page, in stream
  order, under that entry; its answer carries the number of those bars and the window the stream's
  done named, unchanged.\<close>

theorem completed_fetch_stores_everything:
  assumes "reports_only (w_on_ack w)"
    and "store_market_activity_worker w client fetch_start other fault d = (Inr s, d')"
  shows "\<exists>f pages fin i. client (fetch_request_of (w_body w) fetch_start) = accepted_stream f pages fin
    \<and> (\<forall>bs\<in>set pages. \<forall>b\<in>set bs. fb_feed b = f)
    \<and> (\<exists>e\<in>set (entries d'). e_id e = i \<and> names_row (entry_on_ack (sb_key (w_body w)) (sb_expiry (w_body w)) f) e)
    \<and> bars d' = fold (\<lambda>row. upsert_row bar_key (bar_update row) row)
         (concat (map (page_rows (sb_key (w_body w)) i f (db_now (other d))) pages)) (bars (other d))
    \<and> sd_data_points s = length (concat pages) \<and> sd_served_range s = Some (fd_served fin)"
  using assms
proof (rule worker_done)
  fix f pages fin i d2
  assume g: "client (fetch_request_of (w_body w) fetch_start) = accepted_stream f pages fin" "on_feed f pages"
    and up: "upsert_entry_in_transaction (w_new_id w) (acknowledged_entry w f) (w_preserve w)
       (if w_preserve w then None else sb_collect (w_body w)) (other d) = Returns i d2"
    and es: "entries d' = entries d2"
    and bs: "bars d' = bar_table.upserts (concat (map (page_rows (sb_key (w_body w)) i f (db_now (other d))) pages)) (bars (other d))"
    and s: "s = \<lparr>sd_data_points = length (concat pages), sd_served_range = Some (fd_served fin),
           sd_collect_changed_to = (if w_preserve w then None
             else collect_change (lock_stored_collect (acknowledged_entry w f) (other d)) (sb_collect (w_body w)))\<rparr>"
  have "\<exists>e\<in>set (entries d'). e_id e = i \<and> names_row (entry_on_ack (sb_key (w_body w)) (sb_expiry (w_body w)) f) e"
    using upserted_names [OF up] unfolding es acknowledged_entry_def .
  then show ?thesis using g bs s by (intro exI [of _ f] exI [of _ pages] exI [of _ fin] exI [of _ i]) simp
qed

section \<open>The scheduled refresh\<close>

lemma lock_active_None:
  "\<forall>e\<in>set (entries d). names_row c e \<longrightarrow> retired e \<Longrightarrow> lock_active_entry c d = None"
  unfolding lock_active_entry_def using find_in [of "names_row c" "entries d"] by (auto split: option.split)

lemma lock_active_key:
  assumes "lock_active_entry c d \<noteq> None"
  shows "natural_key (row_of_create i now collect c) \<in> natural_key ` set (entries d)"
proof -
  obtain e where e: "find (names_row c) (entries d) = Some e"
    using assms unfolding lock_active_entry_def by (cases "find (names_row c) (entries d)") simp_all
  then have "natural_key e = natural_key (row_of_create i now collect c)" using find_in [OF e] names_row_key by blast
  then show ?thesis using find_in [OF e] by (metis image_eqI)
qed

lemma worker_preserves:
  assumes hook: "reports_only (w_on_ack w)" and pres: "w_preserve w"
    and "store_market_activity_worker w client fetch_start other fault d = (Inr s, d')"
  shows "map (\<lambda>e. e\<lparr>e_updated_at := 0\<rparr>) (entries d') = map (\<lambda>e. e\<lparr>e_updated_at := 0\<rparr>) (entries (other d))"
  using hook assms(3)
proof (rule worker_done)
  fix f pages fin i d2
  assume lock: "w_preserve w \<longrightarrow> lock_active_entry (acknowledged_entry w f) (other d) \<noteq> None"
    and up: "upsert_entry_in_transaction (w_new_id w) (acknowledged_entry w f) (w_preserve w)
      (if w_preserve w then None else sb_collect (w_body w)) (other d) = Returns i d2"
    and es: "entries d' = entries d2"
  let ?row = "row_of_create (w_new_id w) (db_now (other d)) None (acknowledged_entry w f)"
  have "natural_key ?row \<in> natural_key ` set (entries (other d))"
    using lock pres by (intro lock_active_key) simp
  then have "entries d' = map (\<lambda>r. if natural_key r = natural_key ?row then on_conflict True None ?row r else r) (entries (other d))"
    using upserted_id(3) [OF up] pres es entry_table.upsert_old by simp
  then show ?thesis by (simp add: on_conflict_def)
qed

text \<open>The scheduled refresh never undoes a retire and never writes a lifecycle field: when the entry
  is retired or gone by the time the vendor answers, the answer is dropped and the database is what the
  other sessions left; and a refresh that succeeds changes no entry except its update time.\<close>

theorem refresh_never_undoes_a_retire:
  assumes hook: "reports_only (w_on_ack w)" and pres: "w_preserve w"
  shows "(find_own_overlap d (sb_key (w_body w)) = []
      \<and> client (fetch_request_of (w_body w) fetch_start) = Response (AckArm (Readable (AckAccepted f))) # items
      \<and> (\<forall>e\<in>set (entries (other d)). names_row (entry_on_ack (sb_key (w_body w)) (sb_expiry (w_body w)) f) e \<longrightarrow>
           e_collect e = Some False \<and> e_update_type e \<in> {DAILY, STREAM})
      \<longrightarrow> store_market_activity_worker w client fetch_start other fault d = (Inl DatasetRetiredDuringFetch, other d))
    \<and> (store_market_activity_worker w client fetch_start other fault d = (Inr s, d') \<longrightarrow>
        map (\<lambda>e. e\<lparr>e_updated_at := 0\<rparr>) (entries d') = map (\<lambda>e. e\<lparr>e_updated_at := 0\<rparr>) (entries (other d)))"
proof (intro conjI impI)
  assume a: "find_own_overlap d (sb_key (w_body w)) = []
      \<and> client (fetch_request_of (w_body w) fetch_start) = Response (AckArm (Readable (AckAccepted f))) # items
      \<and> (\<forall>e\<in>set (entries (other d)). names_row (entry_on_ack (sb_key (w_body w)) (sb_expiry (w_body w)) f) e \<longrightarrow>
           e_collect e = Some False \<and> e_update_type e \<in> {DAILY, STREAM})"
  have none: "lock_active_entry (entry_on_ack (sb_key (w_body w)) (sb_expiry (w_body w)) f) (other d) = None"
    using a by (intro lock_active_None) (simp add: retired_def)
  obtain evs e where f: "fetch \<lparr>sr_accepted = Some f, sr_done = False\<rparr> items = (evs, e)" by fastforce
  have "fetch reader_init (client (fetch_request_of (w_body w) fetch_start)) = (FetchAccepted f # evs, e)"
    using a f by (simp add: reader_init_def reader_event_def read_ack_def)
  then show "store_market_activity_worker w client fetch_start other fault d = (Inl DatasetRetiredDuringFetch, other d)"
    using a none pres
    by (simp add: store_market_activity_worker_def check_own_overlap_def on_accepted_def write_transaction_def)
next
  assume "store_market_activity_worker w client fetch_start other fault d = (Inr s, d')"
  with hook pres show "map (\<lambda>e. e\<lparr>e_updated_at := 0\<rparr>) (entries d') = map (\<lambda>e. e\<lparr>e_updated_at := 0\<rparr>) (entries (other d))"
    by (rule worker_preserves)
qed

section \<open>Evaluations\<close>

definition sample_fetched :: "int \<Rightarrow> fetched_bar" where
  "sample_fetched t = \<lparr>fb_start = t, fb_open = 1, fb_high = 2, fb_low = 1, fb_close = 2, fb_volume = 7,
     fb_trade_count = Some 3, fb_vwap = None, fb_feed = IEX\<rparr>"

definition sample_done :: fetch_done where
  "sample_done = \<lparr>fd_bar_count = 2, fd_served = (100, 200), fd_as_of = 205\<rparr>"

definition sample_worker :: "bool \<Rightarrow> worker" where
  "sample_worker preserve = \<lparr>w_body = \<lparr>sb_key = sample_key, sb_feed = None, sb_expiry = Some 900, sb_collect = None\<rparr>,
     w_preserve = preserve, w_batch_size = None, w_new_id = 5, w_on_ack = (\<lambda>i f d. snd (snd (handle_acknowledge i f None \<lparr>h_record = None, h_dataset_id = None\<rparr> d)))\<rparr>"

definition sample_client :: "fetch_request \<Rightarrow> call_item list" where
  "sample_client _ = accepted_stream IEX [[sample_fetched 110], [sample_fetched 120]] sample_done"

text \<open>The recorder's acknowledgement is such a hook.\<close>

lemma acknowledge_reports_only: "reports_only (\<lambda>i f d. snd (snd (handle_acknowledge i f fault h d)))"
  unfolding reports_only_def
proof (intro allI)
  fix i f d
  have "snd (snd (handle_acknowledge i f fault h d)) = d \<or>
      (\<exists>rs. snd (snd (handle_acknowledge i f fault h d)) = d\<lparr>ingest_runs := rs\<rparr>)"
    using update_run_done
    by (fastforce simp: handle_acknowledge_def record_write_def acknowledge_run_def split: option.split prod.split sum.split)
  moreover have "d = d\<lparr>ingest_runs := ingest_runs d\<rparr>" by simp
  ultimately show "\<exists>rs. snd (snd (handle_acknowledge i f fault h d)) = d\<lparr>ingest_runs := rs\<rparr>" by metis
qed

lemma sample_hook: "reports_only (w_on_ack (sample_worker preserve))"
  unfolding sample_worker_def by (simp add: acknowledge_reports_only)

theorem failed_fetch_stores_nothing_witness:
  "entries (snd (store_market_activity_worker (sample_worker False)
      (\<lambda>_. [Response (AckArm (Readable (AckAccepted IEX))), CallFailed (peer_error DEADLINE)]) None id None sample_db)) = entries sample_db"
proof -
  let ?call = "store_market_activity_worker (sample_worker False)
      (\<lambda>_. [Response (AckArm (Readable (AckAccepted IEX))), CallFailed (peer_error DEADLINE)]) None id None sample_db"
  have "fst ?call = Inl (FetchFailed (peer_error DEADLINE))" by code_simp
  then have "?call = (Inl (FetchFailed (peer_error DEADLINE)), snd ?call)" by (metis prod.collapse)
  from failed_fetch_stores_nothing [OF sample_hook this] show ?thesis by auto
qed

lemma sample_page: "all_some (map bar_of_fetched [sample_fetched t]) =
    Some [\<lparr>bc_timestamp = Aware t, bc_data = \<lparr>o_open = 1, o_high = 2, o_low = 1, o_close = 2, o_volume = 7, o_trade_count = 3\<rparr>\<rparr>]"
  by (simp add: sample_fetched_def bar_of_fetched_def)

lemma upsert_returns: "\<exists>i d'. upsert_entry_in_transaction n c p co d = Returns i d'"
  unfolding upsert_entry_in_transaction_def Let_def by (auto split: option.split)

lemma sample_call:
  "\<exists>s. fst (store_market_activity_worker (sample_worker False) sample_client None id None sample_db) = Inr s"
proof -
  let ?w = "sample_worker False"
  have "fetch reader_init (sample_client r) = (FetchAccepted IEX # map BarPage [[sample_fetched 110], [sample_fetched 120]] @
      [FetchDone sample_done], None)" for r
    unfolding fetch_grammar sample_client_def
    by (intro exI [of _ IEX] exI [of _ "[[sample_fetched 110], [sample_fetched 120]]"] exI [of _ sample_done])
      (simp add: sample_fetched_def)
  moreover obtain i d2 where "upsert_entry_in_transaction 5 (entry_on_ack sample_key (Some 900) IEX) False None sample_db = Returns i d2"
    using upsert_returns by blast
  moreover have "check_own_overlap sample_key sample_db = Returns () sample_db" by code_simp
  ultimately show ?thesis
    using upserted_id [of 5 _ False None sample_db i d2] on_page_ok [OF _ _ _ sample_page]
    by (simp add: store_market_activity_worker_def sample_worker_def on_accepted_def handle_acknowledge_def record_write_def
        write_transaction_def row_fits_def int4_def)
qed

theorem completed_fetch_stores_everything_witness:
  "\<exists>s d'. store_market_activity_worker (sample_worker False) sample_client None id None sample_db = (Inr s, d') \<and>
     sd_data_points s = 2 \<and> sd_served_range s = Some (100, 200)"
proof -
  let ?call = "store_market_activity_worker (sample_worker False) sample_client None id None sample_db"
  obtain s where "fst ?call = Inr s" using sample_call by blast
  then have s: "?call = (Inr s, snd ?call)" by (metis prod.collapse)
  from completed_fetch_stores_everything [OF sample_hook s] obtain f pages fin where
    "accepted_stream IEX [[sample_fetched 110], [sample_fetched 120]] sample_done = accepted_stream f pages fin"
    "sd_data_points s = length (concat pages)" "sd_served_range s = Some (fd_served fin)"
    unfolding sample_client_def by blast
  then have "sd_data_points s = 2 \<and> sd_served_range s = Some (100, 200)"
    by (cases pages; cases "tl pages"; cases "tl (tl pages)") (auto simp: accepted_stream_def sample_done_def)
  then show ?thesis using s by blast
qed

theorem refresh_never_undoes_a_retire_witness:
  "let retire = (\<lambda>d. d\<lparr>entries := map (\<lambda>e. e\<lparr>e_collect := Some False\<rparr>) (entries d)\<rparr>)
   in store_market_activity_worker (sample_worker True) sample_client None retire None sample_db =
        (Inl DatasetRetiredDuringFetch, retire sample_db)"
proof -
  let ?retire = "\<lambda>d. d\<lparr>entries := map (\<lambda>e. e\<lparr>e_collect := Some False\<rparr>) (entries d)\<rparr>"
  have "find_own_overlap sample_db (sb_key (w_body (sample_worker True))) = []" by code_simp
  moreover have "\<forall>e\<in>set (entries (?retire sample_db)). e_collect e = Some False \<and> e_update_type e \<in> {DAILY, STREAM}"
    by code_simp
  ultimately show ?thesis
    using refresh_never_undoes_a_retire [OF sample_hook, of True sample_db sample_client None IEX _ ?retire None]
    unfolding Let_def sample_client_def accepted_stream_def by (fastforce simp: sample_worker_def)
qed

end
