(* ===== verification/Catalog_Reads.thy ===== *)
theory Catalog_Reads
  imports Ingest_Runs Calendar_Protocols "HOL-Library.Char_ord" "HOL-Library.List_Lexorder"
begin

text \<open>
  \<open>server/data/store/app/database/crud/stock/dataset_catalog.py\<close>: the read repository behind the dataset
  catalog, the bar pages, the reaper and the daily refresh. Every function only selects. A correlated
  subquery over the bars of an entry is a function of the entry; \<open>ORDER BY\<close> on unique columns is
  \<open>sort_key\<close>; a UUID orders as its number.
\<close>

section \<open>Rows\<close>

record catalog_filter =
  cf_prefix :: "string option"
  cf_source :: "data_source option"
  cf_update_type :: "update_type option"

record catalog_row =
  cat_id :: uuid
  cat_symbol :: string
  cat_asset_type :: asset_type
  cat_data_type :: data_type
  cat_source :: data_source
  cat_feed :: feed
  cat_granularity :: granularity
  cat_start :: instant
  cat_end :: "instant option"
  cat_update_type :: update_type
  cat_expiry_type :: expiry_type
  cat_expiry :: "instant option"
  cat_owner :: string
  cat_last_bar :: "instant option"
  cat_written_at :: "instant option"
  cat_collect :: "bool option"

definition catalog_row_of :: "entry \<Rightarrow> instant option \<Rightarrow> instant option \<Rightarrow> catalog_row" where
  "catalog_row_of e last_bar written =
     \<lparr>cat_id = e_id e, cat_symbol = e_symbol e, cat_asset_type = e_asset_type e, cat_data_type = e_data_type e,
      cat_source = e_source e, cat_feed = e_feed e, cat_granularity = e_granularity e, cat_start = e_start e,
      cat_end = (if e_end e = EPOCH then None else Some (e_end e)), cat_update_type = e_update_type e,
      cat_expiry_type = e_expiry_type e, cat_expiry = e_expiry e, cat_owner = e_owner e,
      cat_last_bar = last_bar, cat_written_at = written, cat_collect = e_collect e\<rparr>"

text \<open>\<open>_bar_matches_entry\<close>\<close>

definition bar_matches_entry :: "entry \<Rightarrow> bar \<Rightarrow> bool" where
  "bar_matches_entry e b \<longleftrightarrow>
     b_dataset b = e_id e \<and> b_symbol b = e_symbol e \<and> b_source b = e_source e \<and> b_feed b = e_feed e \<and>
     b_granularity b = e_granularity e"

abbreviation entry_bars :: "db \<Rightarrow> entry \<Rightarrow> bar list" where
  "entry_bars d e \<equiv> filter (bar_matches_entry e) (bars d)"

text \<open>SQL's \<open>min\<close> and \<open>max\<close> of no rows are NULL.\<close>

definition sql_max :: "instant list \<Rightarrow> instant option" where
  "sql_max ts = (if ts = [] then None else Some (Max (set ts)))"

definition sql_min :: "instant list \<Rightarrow> instant option" where
  "sql_min ts = (if ts = [] then None else Some (Min (set ts)))"

text \<open>\<open>ORDER BY timestamp DESC LIMIT 1\<close>\<close>

definition last_bar_written_at :: "db \<Rightarrow> entry \<Rightarrow> instant option" where
  "last_bar_written_at d e =
     (case rev (sort_key b_timestamp (entry_bars d e)) of [] \<Rightarrow> None | b # _ \<Rightarrow> Some (b_updated_at b))"

definition row_with_bars :: "db \<Rightarrow> entry \<Rightarrow> catalog_row" where
  "row_with_bars d e =
     catalog_row_of e (sql_max (map b_timestamp (entry_bars d e))) (last_bar_written_at d e)"

section \<open>The catalog\<close>

text \<open>\<open>lower\<close> on the letters of ASCII\<close>

definition lower :: "string \<Rightarrow> string" where
  "lower = map (\<lambda>c. if CHR ''A'' \<le> c \<and> c \<le> CHR ''Z'' then char_of ((of_char c :: nat) + 32) else c)"

definition catalog_filter_matches :: "catalog_filter \<Rightarrow> entry \<Rightarrow> bool" where
  "catalog_filter_matches cf e \<longleftrightarrow>
     (case cf_prefix cf of None \<Rightarrow> True | Some p \<Rightarrow> prefix (lower p) (lower (e_symbol e))) \<and>
     filters (cf_source cf) (e_source e) \<and> filters (cf_update_type cf) (e_update_type e)"

definition list_catalog :: "catalog_filter \<Rightarrow> db \<Rightarrow> catalog_row list" where
  "list_catalog cf d =
     sort_key (\<lambda>r. (cat_symbol r, cat_id r)) (map (row_with_bars d) (filter (catalog_filter_matches cf) (entries d)))"

definition get_catalog_row :: "uuid \<Rightarrow> db \<Rightarrow> catalog_row option" where
  "get_catalog_row i d = map_option (row_with_bars d) (find (\<lambda>e. e_id e = i) (entries d))"

definition dataset_exists :: "uuid \<Rightarrow> db \<Rightarrow> bool" where
  "dataset_exists i d \<longleftrightarrow> list_ex (\<lambda>e. e_id e = i) (entries d)"

section \<open>The pending set\<close>

definition past_expiry :: "instant \<Rightarrow> entry \<Rightarrow> bool" where
  "past_expiry now e \<longleftrightarrow> (case e_expiry e of None \<Rightarrow> False | Some x \<Rightarrow> x \<le> now)"

abbreviation pending_key :: "catalog_row \<Rightarrow> instant \<times> uuid" where
  "pending_key r \<equiv> (the (cat_expiry r), cat_id r)"

definition list_pending :: "instant \<Rightarrow> (instant \<times> uuid) option \<Rightarrow> nat option \<Rightarrow> db \<Rightarrow> catalog_row list" where
  "list_pending now after limit d =
     (let rows = sort_key pending_key (map (row_with_bars d) (filter (\<lambda>e. past_expiry now e \<and>
                   (case after of None \<Rightarrow> True
                    | Some (after_expiry, after_id) \<Rightarrow>
                        the (e_expiry e) > after_expiry \<or>
                        the (e_expiry e) = after_expiry \<and> e_id e > after_id)) (entries d)))
      in case limit of None \<Rightarrow> rows | Some n \<Rightarrow> take n rows)"

definition pending_ids :: "instant \<Rightarrow> uuid list option \<Rightarrow> db \<Rightarrow> uuid set" where
  "pending_ids now ids d =
     (if ids = Some [] then {}
      else set (map e_id (filter (\<lambda>e. past_expiry now e \<and>
             (case ids of None \<Rightarrow> True | Some is \<Rightarrow> e_id e \<in> set is)) (entries d))))"

section \<open>Bars of many entries\<close>

record bar_extent =
  be_first :: "instant option"
  be_last :: "instant option"
  be_count :: nat

definition extent_of :: "bar list \<Rightarrow> bar_extent" where
  "extent_of bs = \<lparr>be_first = sql_min (map b_timestamp bs), be_last = sql_max (map b_timestamp bs), be_count = length bs\<rparr>"

definition bar_extents :: "catalog_row list \<Rightarrow> db \<Rightarrow> uuid \<rightharpoonup> bar_extent" where
  "bar_extents rows d =
     (if rows = [] then Map.empty
      else fold (\<lambda>e m. m(e_id e \<mapsto> extent_of (entry_bars d e)))
             (filter (\<lambda>e. e_id e \<in> cat_id ` set rows) (entries d))
             (\<lambda>i. if i \<in> cat_id ` set rows then Some \<lparr>be_first = None, be_last = None, be_count = 0\<rparr> else None))"

definition covered_dates :: "catalog_row list \<Rightarrow> zone \<Rightarrow> db \<Rightarrow> uuid \<rightharpoonup> day set" where
  "covered_dates rows zone d =
     (\<lambda>i. if i \<in> cat_id ` set rows
          then Some (set (concat (map (\<lambda>e. map (\<lambda>b. z_date zone (b_timestamp b)) (entry_bars d e))
                 (filter (\<lambda>e. e_id e = i) (entries d)))))
          else None)"

text \<open>The position of a granularity in its enum.\<close>

fun granularity_order :: "granularity \<Rightarrow> nat" where
  "granularity_order ONE_MINUTE = 0"
| "granularity_order FIVE_MINUTES = 1"
| "granularity_order THIRTY_MINUTES = 2"
| "granularity_order ONE_HOUR = 3"
| "granularity_order ONE_DAY = 4"
| "granularity_order ONE_WEEK = 5"
| "granularity_order ONE_MONTH = 6"

definition siblings_of :: "entry list \<Rightarrow> catalog_row \<Rightarrow> (uuid \<times> granularity) list" where
  "siblings_of held row =
     sort_key (\<lambda>(i, g). (granularity_order g, i))
       (map (\<lambda>e. (e_id e, e_granularity e))
         (filter (\<lambda>e. (e_symbol e, e_source e, e_feed e, e_data_type e) =
                      (cat_symbol row, cat_source row, cat_feed row, cat_data_type row) \<and>
                    e_granularity e \<noteq> cat_granularity row) held))"

definition siblings :: "catalog_row list \<Rightarrow> db \<Rightarrow> uuid \<rightharpoonup> (uuid \<times> granularity) list" where
  "siblings rows d =
     (let held = filter (\<lambda>e. e_symbol e \<in> cat_symbol ` set rows) (entries d)
      in fold (\<lambda>row m. m(cat_id row \<mapsto> siblings_of held row)) rows Map.empty)"

section \<open>Bar pages\<close>

definition window_conditions :: "catalog_row \<Rightarrow> instant option \<Rightarrow> instant option \<Rightarrow> bar \<Rightarrow> bool" where
  "window_conditions row start until b \<longleftrightarrow>
     b_dataset b = cat_id row \<and> b_symbol b = cat_symbol row \<and> b_source b = cat_source row \<and>
     b_feed b = cat_feed row \<and> b_granularity b = cat_granularity row \<and>
     (case start of None \<Rightarrow> True | Some s \<Rightarrow> s \<le> b_timestamp b) \<and>
     (case until of None \<Rightarrow> True | Some e \<Rightarrow> b_timestamp b < e)"

definition read_bar_page ::
  "catalog_row \<Rightarrow> instant option \<Rightarrow> instant option \<Rightarrow> instant option \<Rightarrow> nat \<Rightarrow> db \<Rightarrow> bar list" where
  "read_bar_page row start until after limit d =
     take limit (sort_key b_timestamp (filter (\<lambda>b. window_conditions row start until b \<and>
       (case after of None \<Rightarrow> True | Some t \<Rightarrow> b_timestamp b > t)) (bars d)))"

record bar_page_offset =
  po_offset :: nat
  po_start :: instant

text \<open>\<open>row_number() OVER (ORDER BY timestamp) - 1\<close> is the position in the sorted window; \<open>page_size\<close> is at
  least 1, which the caller validates.\<close>

definition read_bar_page_starts ::
  "catalog_row \<Rightarrow> instant option \<Rightarrow> instant option \<Rightarrow> nat \<Rightarrow> db \<Rightarrow> nat \<times> bar_page_offset list" where
  "read_bar_page_starts row start until page_size d =
     (let window = filter (window_conditions row start until) (bars d);
          n = length window;
          ranked = enumerate 0 (sort_key b_timestamp window);
          remainder = n mod page_size;
          rows = filter (\<lambda>(rk, b). remainder \<le> rk \<and> (rk - remainder) mod page_size = 0 \<or> rk = 0) ranked
      in if rows = [] then (0, [])
         else (n, map (\<lambda>(rk, b). \<lparr>po_offset = rk, po_start = b_timestamp b\<rparr>) rows))"

section \<open>Windows and ranks\<close>

lemma filter_from_nth:
  fixes f :: "'a \<Rightarrow> 'k::linorder"
  assumes "sorted_wrt (\<lambda>a b. f a < f b) xs" and "i < length xs"
  shows "filter (\<lambda>x. f (xs ! i) \<le> f x) xs = drop i xs"
  using assms
proof (induction xs arbitrary: i)
  case (Cons x xs)
  show ?case
  proof (cases i)
    case 0
    then show ?thesis using Cons.prems by (auto intro!: filter_True)
  next
    case (Suc j)
    then have "xs ! j \<in> set xs" and "filter (\<lambda>x. f (xs ! j) \<le> f x) xs = drop j xs"
      using Cons.prems Cons.IH [of j] by simp_all
    then show ?thesis using Cons.prems Suc by (auto simp: not_le)
  qed
qed simp

lemma filter_after_last:
  fixes f :: "'a \<Rightarrow> 'k::linorder"
  assumes "sorted_wrt (\<lambda>a b. f a < f b) xs" and "take n xs \<noteq> []"
  shows "filter (\<lambda>x. f (last (take n xs)) < f x) xs = drop n xs"
  using assms
proof (induction xs arbitrary: n)
  case (Cons x xs)
  then obtain m where n: "n = Suc m" by (cases n) auto
  show ?case
  proof (cases "take m xs = []")
    case True
    then have "drop n (x # xs) = xs" using n by (cases m) auto
    then show ?thesis using Cons.prems True n by (auto simp: filter_id_conv)
  next
    case False
    then have "last (take m xs) \<in> set xs" by (meson in_set_takeD last_in_set)
    then show ?thesis using Cons n False by fastforce
  qed
qed simp

text \<open>Keyset paging over a unique key: after any page, the page asked from its last key goes on exactly there.\<close>

definition after_key :: "('a \<Rightarrow> 'k::linorder) \<Rightarrow> 'k option \<Rightarrow> 'a \<Rightarrow> bool" where
  "after_key f k x \<longleftrightarrow> (case k of None \<Rightarrow> True | Some k \<Rightarrow> k < f x)"

lemma sort_key_strict: "distinct (map f xs) \<Longrightarrow> sorted_wrt (\<lambda>a b. f a < f b) (sort_key f xs)"
proof -
  assume "distinct (map f xs)"
  then have "distinct (map f (sort_key f xs))" by (simp add: distinct_map)
  then have "sorted_wrt (<) (map f (sort_key f xs))" by (simp add: strict_sorted_iff)
  then show ?thesis by (simp add: sorted_wrt_map)
qed

lemma keyset_continues:
  assumes "distinct (map f xs)" and page: "page = take n (sort_key f (filter (after_key f k) xs))" and ne: "page \<noteq> []"
  shows "page @ take m (sort_key f (filter (after_key f (Some (f (last page)))) xs)) =
    take (n + m) (sort_key f (filter (after_key f k) xs))"
proof -
  let ?all = "sort_key f (filter (after_key f k) xs)"
  have sorted: "sorted_wrt (\<lambda>a b. f a < f b) ?all"
    using assms(1) by (intro sort_key_strict) (rule distinct_map_filter)
  have "last page \<in> set ?all" using ne page by (metis in_set_takeD last_in_set)
  then have "after_key f (Some (f (last page))) x \<longleftrightarrow> after_key f k x \<and> f (last page) < f x" for x
    by (auto simp: after_key_def split: option.splits)
  then have "filter (after_key f (Some (f (last page)))) xs = filter (\<lambda>x. f (last page) < f x) (filter (after_key f k) xs)"
    by (auto intro: filter_cong)
  then have "sort_key f (filter (after_key f (Some (f (last page)))) xs) = filter (\<lambda>x. f (last page) < f x) ?all"
    by (simp add: filter_sort)
  also have "\<dots> = drop n ?all" using filter_after_last [OF sorted, of n] ne page by simp
  finally show ?thesis by (simp add: page take_add)
qed

lemma window_timestamps_distinct:
  assumes "db_ok d"
  shows "distinct (map b_timestamp (filter (window_conditions row start until) (bars d)))"
proof -
  let ?W = "filter (window_conditions row start until) (bars d)"
  have keys: "distinct (map bar_key ?W)" using assms by (intro distinct_map_filter) (simp add: db_ok_def)
  have "bar_key a = bar_key b" if "window_conditions row start until a" "window_conditions row start until b"
    "b_timestamp a = b_timestamp b" for a b
    using that by (simp add: window_conditions_def bar_key_def)
  moreover have "inj_on bar_key (set ?W)" using keys by (simp only: distinct_map)
  ultimately have "inj_on b_timestamp (set ?W)" by (intro inj_onI) (auto dest: inj_onD)
  then show ?thesis using keys by (simp add: distinct_map)
qed

abbreviation bar_window :: "catalog_row \<Rightarrow> instant option \<Rightarrow> instant option \<Rightarrow> db \<Rightarrow> bar list" where
  "bar_window row start until d \<equiv> sort_key b_timestamp (filter (window_conditions row start until) (bars d))"

lemma window_ascending: "db_ok d \<Longrightarrow> sorted_wrt (\<lambda>a b. b_timestamp a < b_timestamp b) (bar_window row start until d)"
  by (intro sort_key_strict window_timestamps_distinct)

lemma window_from:
  assumes d: "db_ok d" and i: "i < length (bar_window row start until d)"
  shows "read_bar_page row (Some (b_timestamp (bar_window row start until d ! i))) until None n d =
    take n (drop i (bar_window row start until d))"
proof -
  let ?W = "bar_window row start until d"
  have "?W ! i \<in> set ?W" using i by (rule nth_mem)
  then have "window_conditions row start until (?W ! i)" by simp
  then have "window_conditions row (Some (b_timestamp (?W ! i))) until b \<longleftrightarrow>
      window_conditions row start until b \<and> b_timestamp (?W ! i) \<le> b_timestamp b" for b
    by (auto simp: window_conditions_def split: option.splits)
  then have "filter (window_conditions row (Some (b_timestamp (?W ! i))) until) (bars d) =
      filter (\<lambda>b. b_timestamp (?W ! i) \<le> b_timestamp b) (filter (window_conditions row start until) (bars d))"
    by (auto intro: filter_cong)
  then have "bar_window row (Some (b_timestamp (?W ! i))) until d = filter (\<lambda>b. b_timestamp (?W ! i) \<le> b_timestamp b) ?W"
    by (simp add: filter_sort)
  then show ?thesis
    using filter_from_nth [OF window_ascending [OF d] i] by (simp add: read_bar_page_def)
qed

text \<open>The ranks the statement keeps.\<close>

definition page_ranks :: "nat \<Rightarrow> nat \<Rightarrow> nat list" where
  "page_ranks n s = (if 0 < n mod s then [0] else []) @ map (\<lambda>k. n mod s + k * s) [0..<n div s]"

lemma rank_kept:
  assumes s: "0 < (s::nat)" and i: "i < n" "n mod s \<le> i"
  shows "(i - n mod s) mod s = 0 \<longleftrightarrow> (\<exists>k < n div s. i = n mod s + k * s)"
proof
  assume "(i - n mod s) mod s = 0"
  then obtain k where "i - n mod s = k * s" by (metis dvd_div_mult_self mod_eq_0_iff_dvd)
  then have k: "i = n mod s + k * s" using i(2) by simp
  have "k * s < n div s * s" using i(1) k div_mult_mod_eq [of n s] by linarith
  then show "\<exists>k < n div s. i = n mod s + k * s" using k by (auto simp: mult_less_cancel2)
qed (use s in auto)

lemma block_rank_less: "0 < (s::nat) \<Longrightarrow> k < n div s \<Longrightarrow> n mod s + k * s < n"
proof -
  assume s: "0 < s" and "k < n div s"
  then have "Suc k * s \<le> n div s * s" by (intro mult_right_mono) simp_all
  then have "s + k * s \<le> n div s * s" by simp
  then show ?thesis using div_mult_mod_eq [of n s] s by linarith
qed

lemma ranks_kept:
  assumes s: "0 < s" and n: "0 < n"
  shows "filter (\<lambda>i. n mod s \<le> i \<and> (i - n mod s) mod s = 0 \<or> i = 0) [0..<n] = page_ranks n s"
proof (rule sorted_distinct_set_unique)
  let ?P = "\<lambda>i. n mod s \<le> i \<and> (i - n mod s) mod s = 0 \<or> i = 0"
  have "ascending (map (\<lambda>k. n mod s + k * s) [0..<n div s])"
    unfolding sorted_wrt_map using s by (auto simp: sorted_wrt_iff_nth_less)
  then have asc: "ascending (page_ranks n s)" by (auto simp: page_ranks_def)
  then show "sorted (page_ranks n s)" "distinct (page_ranks n s)" by (simp_all add: strict_sorted_iff)
  note lt = block_rank_less [OF s]
  have zero: "0 \<in> (\<lambda>k. n mod s + k * s) ` {..<n div s}" if "n mod s = 0"
  proof -
    have "0 < n div s" using that n div_mult_mod_eq [of n s] by (cases "n div s") auto
    then show ?thesis using that by (auto intro!: image_eqI [of _ _ 0])
  qed
  show "set (filter ?P [0..<n]) = set (page_ranks n s)"
  proof (intro set_eqI iffI)
    fix i assume "i \<in> set (filter ?P [0..<n])"
    then have i: "i < n" "?P i" by auto
    show "i \<in> set (page_ranks n s)"
    proof (cases "n mod s \<le> i \<and> (i - n mod s) mod s = 0")
      case True
      then show ?thesis using rank_kept [OF s i(1)] by (auto simp: page_ranks_def)
    next
      case False
      then have "i = 0" "n mod s \<noteq> 0" using i by auto
      then show ?thesis by (simp add: page_ranks_def)
    qed
  next
    fix i assume "i \<in> set (page_ranks n s)"
    then show "i \<in> set (filter ?P [0..<n])" using lt n by (auto simp: page_ranks_def split: if_splits)
  qed
qed (simp_all add: sorted_wrt_filter)

lemma filter_enumerate: "filter (\<lambda>(i, x). P i) (enumerate 0 xs) = map (\<lambda>i. (i, xs ! i)) (filter P [0..<length xs])"
proof -
  have "enumerate 0 xs = map (\<lambda>i. (i, xs ! i)) [0..<length xs]"
    by (rule nth_equalityI) (simp_all add: nth_enumerate_eq)
  then show ?thesis by (simp add: filter_map o_def)
qed

lemma page_starts_eq:
  assumes "0 < s"
  shows "read_bar_page_starts row start until s d =
    (let W = bar_window row start until d
     in (length W, map (\<lambda>i. \<lparr>po_offset = i, po_start = b_timestamp (W ! i)\<rparr>) (if W = [] then [] else page_ranks (length W) s)))"
proof -
  let ?F = "filter (window_conditions row start until) (bars d)" and ?W = "bar_window row start until d"
  let ?P = "\<lambda>i. length ?F mod s \<le> i \<and> (i - length ?F mod s) mod s = 0 \<or> i = 0"
  show ?thesis
  proof (cases "?F = []")
    case False
    then have n: "0 < length ?F" by simp
    have rows: "filter (\<lambda>(rk, b). ?P rk) (enumerate 0 ?W) = map (\<lambda>i. (i, ?W ! i)) (page_ranks (length ?F) s)"
      using filter_enumerate [of ?P ?W] ranks_kept [OF assms n] by simp
    have "page_ranks (length ?F) s \<noteq> []"
      using ranks_kept [OF assms n] n by (metis (mono_tags, lifting) filter_empty_conv atLeastLessThan_iff less_imp_le set_upt zero_le)
    moreover have "?W \<noteq> []" using n by (metis length_sort less_numeral_extra(3) list.size(3))
    ultimately show ?thesis
      using False unfolding read_bar_page_starts_def Let_def rows by (simp add: o_def)
  qed (simp add: read_bar_page_starts_def)
qed

section \<open>Properties of the reads\<close>

lemma blocks_concat: "concat (map (\<lambda>k. take s (drop (r + k * s) xs)) [0..<q]) = take (q * s) (drop r xs)"
proof (induction q)
  case (Suc q)
  have "take (q * s + s) (drop r xs) = take (q * s) (drop r xs) @ take s (drop (q * s) (drop r xs))"
    by (rule take_add)
  then show ?case using Suc by (simp add: add.commute)
qed simp

text \<open>C10. The page index of a bar window is exact: it gives the window's bar count and the pages counted in
  full blocks back from the newest bar, preceded by the page at the oldest bar when the blocks do not
  reach it; and reading a page from its start returns exactly the bars from its offset on, so the
  blocks together are every bar of the window after the first \<open>n mod page_size\<close>, each once.\<close>

theorem page_index_tiles:
  assumes "db_ok d" and "0 < page_size"
    and "read_bar_page_starts row start until page_size d = (n, pages)"
  shows "n = length (bar_window row start until d)
    \<and> map po_offset pages = (if n = 0 then [] else page_ranks n page_size)
    \<and> (\<forall>p\<in>set pages. read_bar_page row (Some (po_start p)) until None page_size d =
           take page_size (drop (po_offset p) (bar_window row start until d)))
    \<and> concat (map (\<lambda>p. read_bar_page row (Some (po_start p)) until None page_size d)
         (if 0 < n mod page_size then tl pages else pages)) =
           drop (n mod page_size) (bar_window row start until d)"
proof -
  define W where "W = bar_window row start until d"
  define page where "page = (\<lambda>p :: bar_page_offset. read_bar_page row (Some (po_start p)) until None page_size d)"
  define spot where "spot = (\<lambda>i. \<lparr>po_offset = i, po_start = b_timestamp (W ! i)\<rparr>)"
  have n: "n = length W" and pages: "pages = map spot (if W = [] then [] else page_ranks n page_size)"
    using assms(3) by (auto simp: page_starts_eq [OF assms(2)] Let_def W_def spot_def)
  have lt: "i < n" if "i \<in> set (page_ranks n page_size)" "0 < n" for i
    using that ranks_kept [OF assms(2) that(2)] by (metis (no_types, lifting) atLeastLessThan_iff filter_is_subset set_upt subsetD)
  have read: "page (spot i) = take page_size (drop i W)" if "i < n" for i
    using window_from [OF assms(1), of i] that n by (simp add: page_def spot_def W_def)
  have off: "po_offset (spot i) = i" for i by (simp add: spot_def)
  have all: "\<forall>p\<in>set pages. page p = take page_size (drop (po_offset p) W)"
    using read lt n unfolding pages by (auto simp: off)
  have conc: "concat (map page (if 0 < n mod page_size then tl pages else pages)) = drop (n mod page_size) W"
  proof (cases "W = []")
    case False
    then have blocks: "(if 0 < n mod page_size then tl pages else pages) =
        map spot (map (\<lambda>k. n mod page_size + k * page_size) [0..<n div page_size])"
      unfolding pages by (simp add: page_ranks_def)
    have "map page (map spot (map (\<lambda>k. n mod page_size + k * page_size) [0..<n div page_size])) =
        map (\<lambda>k. take page_size (drop (n mod page_size + k * page_size) W)) [0..<n div page_size]"
      using False n block_rank_less [OF assms(2)] by (auto intro!: read)
    then show ?thesis using n unfolding blocks by (simp only: blocks_concat) (simp add: minus_mod_eq_div_mult [symmetric])
  qed (simp add: pages n)
  have "map po_offset pages = (if n = 0 then [] else page_ranks n page_size)" by (simp add: pages n o_def off)
  then show ?thesis using n all conc unfolding page_def W_def by blast
qed

definition sample_bar :: "instant \<Rightarrow> bar" where
  "sample_bar t = \<lparr>b_dataset = 1, b_symbol = k_symbol sample_key, b_source = k_source sample_key, b_feed = IEX,
     b_granularity = k_granularity sample_key, b_timestamp = t, b_data = \<lparr>o_open = 1, o_high = 1, o_low = 1,
     o_close = 1, o_volume = 1, o_trade_count = 1\<rparr>, b_created_at = 0, b_updated_at = t + 7\<rparr>"

definition bars_db :: db where
  "bars_db = sample_db\<lparr>bars := map sample_bar [50, 20, 40, 10, 30]\<rparr>"

definition sample_row :: catalog_row where
  "sample_row = row_with_bars bars_db (hd (entries bars_db))"

lemma bars_db_ok: "db_ok bars_db"
  by code_simp

text \<open>Five bars in pages of two: the blocks start at the second and the fourth bar.\<close>

theorem page_index_tiles_witness:
  "read_bar_page_starts sample_row None None 2 bars_db =
     (5, [\<lparr>po_offset = 0, po_start = 10\<rparr>, \<lparr>po_offset = 1, po_start = 20\<rparr>, \<lparr>po_offset = 3, po_start = 40\<rparr>]) \<and>
   map b_timestamp (bar_window sample_row None None bars_db) = [10, 20, 30, 40, 50] \<and>
   read_bar_page sample_row (Some 20) None None 2 bars_db = take 2 (drop 1 (bar_window sample_row None None bars_db))"
proof -
  have p: "read_bar_page_starts sample_row None None 2 bars_db =
     (5, [\<lparr>po_offset = 0, po_start = 10\<rparr>, \<lparr>po_offset = 1, po_start = 20\<rparr>, \<lparr>po_offset = 3, po_start = 40\<rparr>])"
    "map b_timestamp (bar_window sample_row None None bars_db) = [10, 20, 30, 40, 50]" by code_simp+
  then show ?thesis using page_index_tiles [OF bars_db_ok _ p(1)] by simp
qed

text \<open>Bars page by keyset without loss: after any page, the page asked from its last timestamp goes on
  exactly where it stopped, ascending, whatever the two page sizes.\<close>

theorem bar_pages_concatenate:
  assumes "db_ok d" and "read_bar_page row start until after n d = page" and "page \<noteq> []"
  shows "page @ read_bar_page row start until (Some (b_timestamp (last page))) m d =
      read_bar_page row start until after (n + m) d
    \<and> sorted_wrt (\<lambda>a b. b_timestamp a < b_timestamp b) page"
proof -
  let ?bs = "filter (window_conditions row start until) (bars d)"
  have eq: "read_bar_page row start until k n d = take n (sort_key b_timestamp (filter (after_key b_timestamp k) ?bs))" for k n
    by (simp add: read_bar_page_def after_key_def conj_commute cong: option.case_cong)
  have dist: "distinct (map b_timestamp ?bs)" by (rule window_timestamps_distinct [OF assms(1)])
  have "page = take n (sort_key b_timestamp (filter (after_key b_timestamp after) ?bs))" using assms(2) eq by simp
  moreover have "sorted_wrt (\<lambda>a b. b_timestamp a < b_timestamp b) (sort_key b_timestamp (filter (after_key b_timestamp after) ?bs))"
    using dist by (intro sort_key_strict) (rule distinct_map_filter)
  ultimately have "sorted_wrt (\<lambda>a b. b_timestamp a < b_timestamp b) page" by (simp add: sorted_wrt_take)
  then show ?thesis using keyset_continues [OF dist _ assms(3), of n after m] assms(2) by (simp add: eq)
qed

theorem bar_pages_concatenate_witness:
  "map b_timestamp (read_bar_page sample_row None (Some 50) None 2 bars_db) = [10, 20] \<and>
   read_bar_page sample_row None (Some 50) None 2 bars_db @ read_bar_page sample_row None (Some 50) (Some 20) 9 bars_db =
     read_bar_page sample_row None (Some 50) None 11 bars_db"
proof -
  have p: "map b_timestamp (read_bar_page sample_row None (Some 50) None 2 bars_db) = [10, 20]" by code_simp
  then have "read_bar_page sample_row None (Some 50) None 2 bars_db \<noteq> []"
    "b_timestamp (last (read_bar_page sample_row None (Some 50) None 2 bars_db)) = 20"
    by (auto simp: last_map [symmetric])
  then show ?thesis using bar_pages_concatenate [OF bars_db_ok refl, of sample_row None "Some 50" None 2 9] p by simp
qed

section \<open>The pending set\<close>

lemma pending_ids_get:
  assumes "db_ok d"
  shows "i \<in> pending_ids now None d \<longleftrightarrow> (\<exists>e. get_entry d i = Some e \<and> past_expiry now e)"
  using get_entry_mem [OF assms] get_entry_Some [of d i] by (auto simp: pending_ids_def)

lemma running_iff: "i \<in> running_dataset_ids d \<longleftrightarrow> dataset_has_running_run d i"
  by (auto simp: running_dataset_ids_def dataset_has_running_run_def list_ex_iff List.map_filter_def image_def
      split: if_splits)

lemma reaper_takes:
  assumes "db_ok d"
  shows "fst (reaper_delete_entry i now None d) = Inr True \<longleftrightarrow> i \<in> pending_ids now None d \<and> \<not> dataset_has_running_run d i"
proof (cases "get_entry d i")
  case None
  then show ?thesis
    using pending_ids_get [OF assms, of i now] by (simp add: reaper_delete_entry_def write_transaction_def)
next
  case (Some e)
  then have "e_id e = i" "list_ex (\<lambda>e. e_id e = i) (entries d)" using get_entry_Some [of d i e] by (auto simp: list_ex_iff)
  then have "\<exists>d'. delete_and_record e CAUSE_REAPER REAPER_ACTOR d d = Returns () d'"
    by (simp add: delete_and_record_def delete_entry_row_def append_deletion_def)
  then show ?thesis using Some pending_ids_get [OF assms, of i now]
    by (auto simp: reaper_delete_entry_def write_transaction_def past_expiry_def not_less split: option.splits)
qed

lemma list_pending_keyset:
  "list_pending now after (Some n) d = take n (sort_key pending_key
     (filter (after_key pending_key after) (map (row_with_bars d) (filter (past_expiry now) (entries d)))))"
proof -
  have f: "cat_expiry (row_with_bars d e) = e_expiry e" "cat_id (row_with_bars d e) = e_id e" for e
    by (simp_all add: row_with_bars_def catalog_row_of_def)
  have "filter (after_key pending_key after) (map (row_with_bars d) (filter (past_expiry now) (entries d))) =
    map (row_with_bars d) (filter (\<lambda>e. past_expiry now e \<and> (case after of None \<Rightarrow> True
      | Some (x, i) \<Rightarrow> the (e_expiry e) > x \<or> the (e_expiry e) = x \<and> e_id e > i)) (entries d))"
    unfolding filter_map filter_filter o_def
    by (rule arg_cong [where f = "map _"], rule filter_cong)
      (auto simp: after_key_def f less_prod_def' split: option.split)
  then show ?thesis by (simp add: list_pending_def)
qed

lemma pending_keys_distinct:
  assumes "db_ok d"
  shows "distinct (map pending_key (map (row_with_bars d) (filter P (entries d))))"
proof -
  have "distinct (map e_id (filter P (entries d)))"
    using db_ok_entries [OF assms] by (intro distinct_map_filter) (simp add: entries_ok_def)
  then show ?thesis
    by (simp add: distinct_map inj_on_def row_with_bars_def catalog_row_of_def) 
qed

text \<open>Everything that asks which datasets are past their expiry gets one answer: the paged list, the id
  set, the id set restricted to a page, and the reaper's own judgement inside its delete (which then
  takes exactly the pending datasets without a running ingest). The list pages without loss.\<close>

theorem pending_views_agree:
  assumes "db_ok d"
  shows "cat_id ` set (list_pending now None None d) = pending_ids now None d
    \<and> pending_ids now (Some ids) d = pending_ids now None d \<inter> set ids
    \<and> (fst (reaper_delete_entry i now None d) = Inr True \<longleftrightarrow>
         i \<in> pending_ids now None d \<and> i \<notin> running_dataset_ids d)
    \<and> (let page = list_pending now after (Some n) d
       in page \<noteq> [] \<longrightarrow> page @ list_pending now (Some (pending_key (last page))) (Some m) d =
            list_pending now after (Some (n + m)) d)"
proof -
  have "cat_id ` set (list_pending now None None d) = pending_ids now None d"
    by (simp add: list_pending_def pending_ids_def image_image row_with_bars_def catalog_row_of_def)
  moreover have "pending_ids now (Some ids) d = pending_ids now None d \<inter> set ids"
    by (auto simp: pending_ids_def)
  moreover have "page @ list_pending now (Some (pending_key (last page))) (Some m) d = list_pending now after (Some (n + m)) d"
    if "page = list_pending now after (Some n) d" "page \<noteq> []" for page
    using keyset_continues [OF pending_keys_distinct [OF assms] that(1) [unfolded list_pending_keyset] that(2)] that(1)
    by (simp add: list_pending_keyset)
  ultimately show ?thesis using reaper_takes [OF assms] by (simp add: running_iff Let_def)
qed

theorem pending_views_agree_witness:
  "pending_ids 900 None sample_db = {1} \<and> pending_ids 899 None sample_db = {} \<and>
   fst (reaper_delete_entry 1 900 None sample_db) = Inr True"
proof -
  have p: "pending_ids 900 None sample_db = {1}" "pending_ids 899 None sample_db = {}" "running_dataset_ids sample_db = {}"
    by code_simp+
  then show ?thesis using pending_views_agree [OF sample_db_ok, of 900 _ 1] by simp
qed

section \<open>The catalog and the bars agree\<close>

lemma fold_update_other: "k \<notin> g ` set xs \<Longrightarrow> fold (\<lambda>x m. m(g x \<mapsto> f x)) xs m k = m k"
  by (induction xs arbitrary: m) auto

lemma fold_update_at:
  "distinct (map g xs) \<Longrightarrow> x \<in> set xs \<Longrightarrow> fold (\<lambda>x m. m(g x \<mapsto> f x)) xs m (g x) = Some (f x)"
  by (induction xs arbitrary: m) (auto simp: fold_update_other)

lemma newest_bar:
  assumes "sorted_wrt (\<lambda>a b. b_timestamp a < b_timestamp b) W" and "W \<noteq> []"
  shows "sql_max (map b_timestamp W) = Some (b_timestamp (last W))" and "sql_min (map b_timestamp W) = Some (b_timestamp (hd W))"
proof -
  have asc: "ascending (map b_timestamp W)" using assms(1) by (simp add: sorted_wrt_map)
  have le: "t \<le> last (map b_timestamp W)" "hd (map b_timestamp W) \<le> t" if "t \<in> set (map b_timestamp W)" for t
    using ascending_le_last [OF asc that] ascending_hd_le [OF asc that] .
  have "map b_timestamp W \<noteq> []" using assms(2) by simp
  then have "last (map b_timestamp W) \<in> set (map b_timestamp W)" "hd (map b_timestamp W) \<in> set (map b_timestamp W)"
    by (rule last_in_set, rule hd_in_set)
  then have "Max (set (map b_timestamp W)) = last (map b_timestamp W)" "Min (set (map b_timestamp W)) = hd (map b_timestamp W)"
    using le by (auto intro!: Max_eqI Min_eqI)
  then show "sql_max (map b_timestamp W) = Some (b_timestamp (last W))" "sql_min (map b_timestamp W) = Some (b_timestamp (hd W))"
    using assms(2) by (auto simp: sql_max_def sql_min_def last_map hd_map)
qed

text \<open>Every row of the catalog tells the truth about its bars: its newest bar and when that bar was
  written are the last of the dataset's whole bar window, and the extents read for the same rows give
  that window's first and last timestamps and its length.\<close>

theorem catalog_rows_agree_with_bars:
  assumes "db_ok d" and "row \<in> set (list_catalog cf d)"
  shows "let W = bar_window row None None d
    in cat_last_bar row = (if W = [] then None else Some (b_timestamp (last W)))
      \<and> cat_written_at row = (if W = [] then None else Some (b_updated_at (last W)))
      \<and> bar_extents (list_catalog cf d) d (cat_id row) =
          Some \<lparr>be_first = (if W = [] then None else Some (b_timestamp (hd W))), be_last = cat_last_bar row, be_count = length W\<rparr>
      \<and> get_catalog_row (cat_id row) d = Some row"
proof -
  from assms(2) obtain e where e: "e \<in> set (entries d)" "catalog_filter_matches cf e" and row: "row = row_with_bars d e"
    by (auto simp: list_catalog_def)
  have id: "cat_id (row_with_bars d e) = e_id e" for e by (simp add: row_with_bars_def catalog_row_of_def)
  have ids: "distinct (map e_id (filter P (entries d)))" for P
    using db_ok_entries [OF assms(1)] by (intro distinct_map_filter) (simp add: entries_ok_def)
  define W where "W = bar_window row None None d"
  have match: "bar_matches_entry e = window_conditions row None None"
    by (intro ext) (simp add: row row_with_bars_def catalog_row_of_def bar_matches_entry_def window_conditions_def)
  have asc: "sorted_wrt (\<lambda>a b. b_timestamp a < b_timestamp b) W" unfolding W_def by (rule window_ascending [OF assms(1)])
  have "set (map b_timestamp (entry_bars d e)) = set (map b_timestamp W)" "entry_bars d e = [] \<longleftrightarrow> W = []"
    by (simp_all add: W_def match) (metis length_0_conv length_sort)
  then have ext: "sql_max (map b_timestamp (entry_bars d e)) = (if W = [] then None else Some (b_timestamp (last W)))"
    "sql_min (map b_timestamp (entry_bars d e)) = (if W = [] then None else Some (b_timestamp (hd W)))"
    "length (entry_bars d e) = length W"
    using newest_bar [OF asc] by (simp_all add: sql_max_def sql_min_def W_def match split: if_splits)
  have w: "last_bar_written_at d e = (if W = [] then None else Some (b_updated_at (last W)))"
    unfolding last_bar_written_at_def match W_def [symmetric] by (cases W rule: rev_cases) simp_all
  have "fold (\<lambda>e m. m(e_id e \<mapsto> extent_of (entry_bars d e)))
      (filter (\<lambda>e. e_id e \<in> cat_id ` set (list_catalog cf d)) (entries d)) m (e_id e) = Some (extent_of (entry_bars d e))" for m
    using e assms(2) row id by (intro fold_update_at ids) (auto simp: image_iff intro: bexI [of _ row])
  then have "bar_extents (list_catalog cf d) d (cat_id row) = Some (extent_of (entry_bars d e))"
    using assms(2) by (auto simp: bar_extents_def row id)
  moreover have "get_catalog_row (cat_id row) d = Some row"
    using get_entry_mem [OF assms(1) e(1)] by (simp add: get_catalog_row_def get_entry_def row id)
  moreover have "cat_last_bar row = sql_max (map b_timestamp (entry_bars d e))" "cat_written_at row = last_bar_written_at d e"
    by (simp_all add: row row_with_bars_def catalog_row_of_def)
  ultimately show ?thesis using w by (simp add: Let_def extent_of_def ext flip: W_def)
qed

theorem catalog_rows_agree_with_bars_witness:
  "cat_last_bar sample_row = Some 50 \<and> cat_written_at sample_row = Some 57 \<and>
   get_catalog_row 1 bars_db = Some sample_row"
proof -
  let ?cf = "\<lparr>cf_prefix = Some ''aa'', cf_source = Some ALPACA_API, cf_update_type = None\<rparr>"
  have "list_catalog ?cf bars_db = [sample_row]" "cat_id sample_row = 1" by code_simp+
  moreover have "map (\<lambda>b. (b_timestamp b, b_updated_at b)) (bar_window sample_row None None bars_db) =
    [(10, 17), (20, 27), (30, 37), (40, 47), (50, 57)]" by code_simp
  then have "bar_window sample_row None None bars_db \<noteq> []"
    "(b_timestamp (last (bar_window sample_row None None bars_db)), b_updated_at (last (bar_window sample_row None None bars_db))) = (50, 57)"
    by (auto simp: last_map [symmetric])
  ultimately show ?thesis using catalog_rows_agree_with_bars [OF bars_db_ok, of sample_row ?cf] by (simp add: Let_def)
qed

end
