(* ===== verification/Events_Hub.thy ===== *)
theory Events_Hub
  imports Store_Tables "HOL-Library.Sublist"
begin

text \<open>
  \<open>server/data/store/app/events.py\<close>: the in-process hub that hands a published event to every client's
  queue. A subscription is known by the number of the \<open>subscribe\<close> call that made it, and stays an object
  after it has left the hub. The entry of a \<open>RequestChanged\<close>, which the code leaves untyped, is \<open>'e\<close>.
\<close>

section \<open>Events\<close>

datatype dataset_change = CREATED | UPDATED | CHANGE_RETIRED | RESUMED | DELETED

datatype 'e domain_event =
  DatasetChanged uuid dataset_change
| IngestRunChanged run_row
| RequestChanged 'e
| ReaperPendingChanged

section \<open>Subscriptions\<close>

datatype 'e item = Event "'e domain_event" | Dropped

record 'e subscription =
  s_queue :: "'e item list"
  s_dropped :: bool

definition QUEUE_SIZE_ENV :: string where
  "QUEUE_SIZE_ENV = ''EVENTS_CLIENT_QUEUE_SIZE''"

definition DEFAULT_QUEUE_SIZE :: int where
  "DEFAULT_QUEUE_SIZE = 256"

text \<open>\<open>asyncio.Queue\<close>: a queue whose \<open>maxsize\<close> is not positive has no bound.\<close>

definition queue_full :: "int \<Rightarrow> 'a list \<Rightarrow> bool" where
  "queue_full maxsize q \<longleftrightarrow> 0 < maxsize \<and> maxsize \<le> int (length q)"

text \<open>\<open>_offer\<close>\<close>

definition offer :: "int \<Rightarrow> 'e domain_event \<Rightarrow> 'e subscription \<Rightarrow> 'e subscription" where
  "offer maxsize event s =
     (if s_dropped s then s
      else if queue_full maxsize (s_queue s) then s\<lparr>s_dropped := True, s_queue := [Dropped]\<rparr>
      else s\<lparr>s_queue := s_queue s @ [Event event]\<rparr>)"

section \<open>The hub\<close>

record 'e hub =
  h_queue_size :: int
  h_objects :: "'e subscription list"
  h_subscribers :: "nat list"

definition queue_size_from_env :: "(string \<rightharpoonup> string) \<Rightarrow> int" where
  "queue_size_from_env env =
     (case env QUEUE_SIZE_ENV of
        None \<Rightarrow> DEFAULT_QUEUE_SIZE
      | Some raw \<Rightarrow> (case py_int raw of None \<Rightarrow> DEFAULT_QUEUE_SIZE | Some n \<Rightarrow> n))"

definition mk_hub :: "int option \<Rightarrow> (string \<rightharpoonup> string) \<Rightarrow> 'e hub" where
  "mk_hub queue_size env =
     \<lparr>h_queue_size = (case queue_size of None \<Rightarrow> queue_size_from_env env | Some n \<Rightarrow> n),
      h_objects = [], h_subscribers = []\<rparr>"

definition subscriber_count :: "'e hub \<Rightarrow> nat" where
  "subscriber_count h = length (h_subscribers h)"

definition subscribe :: "'e hub \<Rightarrow> nat \<times> 'e hub" where
  "subscribe h =
     (let i = length (h_objects h)
      in (i, h\<lparr>h_objects := h_objects h @ [\<lparr>s_queue = [], s_dropped = False\<rparr>],
              h_subscribers := h_subscribers h @ [i]\<rparr>))"

text \<open>\<open>close\<close> of a subscription is this too.\<close>

definition unsubscribe :: "nat \<Rightarrow> 'e hub \<Rightarrow> 'e hub" where
  "unsubscribe i h = h\<lparr>h_subscribers := filter (\<lambda>j. j \<noteq> i) (h_subscribers h)\<rparr>"

definition publish_to :: "'e domain_event \<Rightarrow> nat \<Rightarrow> 'e hub \<Rightarrow> 'e hub" where
  "publish_to event i h =
     (let s = offer (h_queue_size h) event (h_objects h ! i);
          h' = h\<lparr>h_objects := (h_objects h)[i := s]\<rparr>
      in if s_dropped s then unsubscribe i h' else h')"

definition publish :: "'e domain_event \<Rightarrow> 'e hub \<Rightarrow> 'e hub" where
  "publish event h = fold (publish_to event) (h_subscribers h) h"

text \<open>\<open>get\<close>: what it returns, or \<open>Waits\<close> while the queue is empty\<close>

datatype 'e got = Waits | Got "'e domain_event" | Closed

definition get :: "nat \<Rightarrow> 'e hub \<Rightarrow> 'e got \<times> 'e hub" where
  "get i h =
     (case s_queue (h_objects h ! i) of
        [] \<Rightarrow> (Waits, h)
      | x # q \<Rightarrow> (case x of Event e \<Rightarrow> Got e | Dropped \<Rightarrow> Closed,
                  h\<lparr>h_objects := (h_objects h)[i := (h_objects h ! i)\<lparr>s_queue := q\<rparr>]\<rparr>))"

section \<open>Histories\<close>

text \<open>What happens to a hub, with what each subscription's \<open>get\<close> returned so far.\<close>

datatype 'e hub_call = Subscribe | Close nat | Publish "'e domain_event" | Get nat

record 'e history =
  t_hub :: "'e hub"
  t_received :: "nat \<Rightarrow> 'e domain_event list"

fun observe :: "'e hub_call \<Rightarrow> 'e history \<Rightarrow> 'e history" where
  "observe Subscribe t = t\<lparr>t_hub := snd (subscribe (t_hub t))\<rparr>"
| "observe (Close i) t = t\<lparr>t_hub := unsubscribe i (t_hub t)\<rparr>"
| "observe (Publish e) t = t\<lparr>t_hub := publish e (t_hub t)\<rparr>"
| "observe (Get i) t =
     (if i < length (h_objects (t_hub t))
      then (case get i (t_hub t) of
              (Got e, h) \<Rightarrow> t\<lparr>t_hub := h, t_received := (t_received t)(i := t_received t i @ [e])\<rparr>
            | (_, h) \<Rightarrow> t\<lparr>t_hub := h\<rparr>)
      else t)"

definition started :: "int option \<Rightarrow> (string \<rightharpoonup> string) \<Rightarrow> 'e history" where
  "started queue_size env = \<lparr>t_hub = mk_hub queue_size env, t_received = (\<lambda>_. [])\<rparr>"

text \<open>What client \<open>i\<close> is owed, read off the calls alone without looking at any hub: the events published after the
  \<open>i+1\<close>-th \<open>subscribe\<close> and before a \<open>close\<close> of that subscription. The state is the number of subscriptions so far,
  whether \<open>i\<close>'s is open, and the events.\<close>

fun owe_call :: "nat \<Rightarrow> 'e hub_call \<Rightarrow> nat \<times> bool \<times> 'e domain_event list \<Rightarrow> nat \<times> bool \<times> 'e domain_event list" where
  "owe_call i Subscribe (n, live, owed) = (Suc n, n = i \<or> live, owed)"
| "owe_call i (Close j) (n, live, owed) = (n, j \<noteq> i \<and> live, owed)"
| "owe_call i (Publish e) (n, live, owed) = (n, live, if live then owed @ [e] else owed)"
| "owe_call i (Get j) (n, live, owed) = (n, live, owed)"

definition account_of :: "nat \<Rightarrow> 'e hub_call list \<Rightarrow> nat \<times> bool \<times> 'e domain_event list" where
  "account_of i calls = fold (owe_call i) calls (0, False, [])"

definition still_open :: "nat \<Rightarrow> 'e hub_call list \<Rightarrow> bool" where
  "still_open i calls = fst (snd (account_of i calls))"

definition events_due :: "nat \<Rightarrow> 'e hub_call list \<Rightarrow> 'e domain_event list" where
  "events_due i calls = snd (snd (account_of i calls))"

definition subscribe_calls :: "'e hub_call list \<Rightarrow> nat" where
  "subscribe_calls calls = length (filter (\<lambda>c. c = Subscribe) calls)"

lemma subscriptions_steps [simp]:
  "subscribe_calls [] = 0" "subscribe_calls (calls @ [c]) = (if c = Subscribe then Suc (subscribe_calls calls) else subscribe_calls calls)"
  by (simp_all add: subscribe_calls_def)

lemma owe_count: "fst (owe_call i c a) = (if c = Subscribe then Suc (fst a) else fst a)"
  by (cases a; cases c) auto

lemma account_count: "fst (account_of i calls) = subscribe_calls calls"
proof (induction calls rule: rev_induct)
  case (snoc c calls)
  then show ?case by (simp add: account_of_def owe_count)
qed (simp add: account_of_def)

lemma account_step: "account_of i (calls @ [c]) = owe_call i c (subscribe_calls calls, still_open i calls, events_due i calls)"
proof -
  have "account_of i calls = (subscribe_calls calls, still_open i calls, events_due i calls)"
    by (simp add: still_open_def events_due_def account_count [of i, symmetric])
  then show ?thesis by (simp add: account_of_def)
qed

lemma account_steps [simp]:
  "still_open i [] = False" "events_due i [] = []"
  "still_open i (calls @ [Subscribe]) \<longleftrightarrow> subscribe_calls calls = i \<or> still_open i calls"
  "events_due i (calls @ [Subscribe]) = events_due i calls"
  "still_open i (calls @ [Close j]) \<longleftrightarrow> j \<noteq> i \<and> still_open i calls" "events_due i (calls @ [Close j]) = events_due i calls"
  "still_open i (calls @ [Publish e]) = still_open i calls"
  "events_due i (calls @ [Publish e]) = (if still_open i calls then events_due i calls @ [e] else events_due i calls)"
  "still_open i (calls @ [Get j]) = still_open i calls" "events_due i (calls @ [Get j]) = events_due i calls"
  by (simp_all add: still_open_def [of _ "_ @ _"] events_due_def [of _ "_ @ _"] account_step)
    (simp_all add: still_open_def events_due_def account_of_def)

text \<open>One subscription's account: its queue and its place in the hub against what it is due and has received.\<close>

definition account_ok :: "int \<Rightarrow> 'e subscription \<Rightarrow> bool \<Rightarrow> bool \<Rightarrow> 'e domain_event list \<Rightarrow> 'e domain_event list \<Rightarrow> bool" where
  "account_ok maxsize s member live owed received \<longleftrightarrow>
     (if s_dropped s
      then \<not> member \<and> 0 < maxsize \<and> s_queue s \<in> {[Dropped], []} \<and> prefix received owed \<and>
           int (length received) + maxsize < int (length owed)
      else member = live \<and> map Event owed = map Event received @ s_queue s \<and>
           (0 < maxsize \<longrightarrow> int (length (s_queue s)) \<le> maxsize))"

definition hub_ok :: "'e hub_call list \<Rightarrow> 'e history \<Rightarrow> bool" where
  "hub_ok calls t \<longleftrightarrow>
     length (h_objects (t_hub t)) = subscribe_calls calls \<and> distinct (h_subscribers (t_hub t)) \<and>
     (\<forall>i\<in>set (h_subscribers (t_hub t)). i < subscribe_calls calls) \<and>
     (\<forall>i < subscribe_calls calls.
        account_ok (h_queue_size (t_hub t)) (h_objects (t_hub t) ! i) (i \<in> set (h_subscribers (t_hub t)))
          (still_open i calls) (events_due i calls) (t_received t i)) \<and>
     (\<forall>i \<ge> subscribe_calls calls. \<not> still_open i calls \<and> events_due i calls = [] \<and> t_received t i = [])"

section \<open>Publishing\<close>

lemma unsubscribe_fields [simp]:
  "h_queue_size (unsubscribe i h) = h_queue_size h" "h_objects (unsubscribe i h) = h_objects h"
  "h_subscribers (unsubscribe i h) = filter (\<lambda>j. j \<noteq> i) (h_subscribers h)"
  by (simp_all add: unsubscribe_def)

lemma publish_to_fields:
  assumes "i < length (h_objects h)"
  shows "h_queue_size (publish_to e i h) = h_queue_size h"
    and "h_objects (publish_to e i h) = (h_objects h)[i := offer (h_queue_size h) e (h_objects h ! i)]"
    and "h_subscribers (publish_to e i h) =
      filter (\<lambda>j. j = i \<longrightarrow> \<not> s_dropped (offer (h_queue_size h) e (h_objects h ! i))) (h_subscribers h)"
  by (simp_all add: publish_to_def Let_def)

lemma publish_fold:
  assumes "distinct is" and "\<forall>i\<in>set is. i < length (h_objects h)"
  shows "h_queue_size (fold (publish_to e) is h) = h_queue_size h
    \<and> length (h_objects (fold (publish_to e) is h)) = length (h_objects h)
    \<and> (\<forall>i < length (h_objects h). h_objects (fold (publish_to e) is h) ! i =
         (if i \<in> set is then offer (h_queue_size h) e (h_objects h ! i) else h_objects h ! i))
    \<and> h_subscribers (fold (publish_to e) is h) =
         filter (\<lambda>i. i \<in> set is \<longrightarrow> \<not> s_dropped (offer (h_queue_size h) e (h_objects h ! i))) (h_subscribers h)"
  using assms
proof (induction "is" arbitrary: h)
  case (Cons i "is")
  have i: "i < length (h_objects h)" using Cons.prems(2) by simp
  note f = publish_to_fields [OF i, of e]
  have len: "length (h_objects (publish_to e i h)) = length (h_objects h)" by (simp add: f)
  have "\<forall>j\<in>set is. j < length (h_objects (publish_to e i h))" using Cons.prems(2) by (simp add: len)
  note IH = Cons.IH [OF _ this]
  have off: "offer (h_queue_size (publish_to e i h)) e (h_objects (publish_to e i h) ! j) = offer (h_queue_size h) e (h_objects h ! j)"
    if "j \<in> set is" for j
  proof -
    have "i \<noteq> j" using Cons.prems(1) that by auto
    then show ?thesis by (simp add: f)
  qed
  have "h_objects (fold (publish_to e) (i # is) h) ! j =
      (if j \<in> set (i # is) then offer (h_queue_size h) e (h_objects h ! j) else h_objects h ! j)"
    if "j < length (h_objects h)" for j
  proof (cases "j = i")
    case True
    then show ?thesis using IH Cons.prems(1) that by (simp add: f)
  next
    case False
    then show ?thesis using IH Cons.prems(1) that off [of j] by (simp add: f)
  qed
  moreover have "h_subscribers (fold (publish_to e) (i # is) h) =
      filter (\<lambda>j. j \<in> set (i # is) \<longrightarrow> \<not> s_dropped (offer (h_queue_size h) e (h_objects h ! j))) (h_subscribers h)"
  proof -
    have "h_subscribers (fold (publish_to e) (i # is) h) =
      filter (\<lambda>j. j \<in> set is \<longrightarrow> \<not> s_dropped (offer (h_queue_size (publish_to e i h)) e (h_objects (publish_to e i h) ! j)))
        (h_subscribers (publish_to e i h))"
      using IH Cons.prems(1) by simp
    also have "\<dots> = filter (\<lambda>j. j \<in> set is \<longrightarrow> \<not> s_dropped (offer (h_queue_size h) e (h_objects h ! j))) (h_subscribers (publish_to e i h))"
      using off by (auto intro: filter_cong)
    finally show ?thesis by (auto simp: f(3) intro!: filter_cong)
  qed
  moreover have "h_queue_size (fold (publish_to e) (i # is) h) = h_queue_size h"
    "length (h_objects (fold (publish_to e) (i # is) h)) = length (h_objects h)"
    using IH Cons.prems(1) by (simp_all add: len f)
  ultimately show ?case by blast
qed (simp add: filter_True)

lemma publish_fields:
  assumes "distinct (h_subscribers h)" and "\<forall>i\<in>set (h_subscribers h). i < length (h_objects h)"
  shows "h_queue_size (publish e h) = h_queue_size h" "length (h_objects (publish e h)) = length (h_objects h)"
    and "i < length (h_objects h) \<Longrightarrow> h_objects (publish e h) ! i =
         (if i \<in> set (h_subscribers h) then offer (h_queue_size h) e (h_objects h ! i) else h_objects h ! i)"
    and "h_subscribers (publish e h) =
         filter (\<lambda>i. \<not> s_dropped (offer (h_queue_size h) e (h_objects h ! i))) (h_subscribers h)"
  using publish_fold [OF assms, of e] unfolding publish_def by (auto intro: filter_cong)

lemma offer_ok:
  assumes "account_ok n s True op owed received"
  shows "account_ok n (offer n e s) (\<not> s_dropped (offer n e s)) op (owed @ [e]) received"
proof (cases "queue_full n (s_queue s)")
  case True
  have eq: "map Event owed = map Event received @ s_queue s" and n: "0 < n" "int (length (s_queue s)) = n" and op: "\<not> s_dropped s" op
    using assms True by (auto simp: account_ok_def queue_full_def split: if_splits)
  have "map Event (take (length received) owed) = map Event received"
    using arg_cong [OF eq, of "take (length received)"] by (simp add: take_map)
  then have "take (length received) owed = received"
    using inj_map_eq_map [of Event] by (simp add: inj_on_def)
  then have "prefix received owed" by (metis take_is_prefix)
  moreover have "length owed = length received + length (s_queue s)" using arg_cong [OF eq, of length] by simp
  ultimately show ?thesis using True n op by (auto simp: account_ok_def offer_def)
qed (use assms in \<open>auto simp: account_ok_def offer_def queue_full_def split: if_splits\<close>)

lemma missed_ok:
  "account_ok n s False op owed received \<Longrightarrow> account_ok n s False op (if op then owed @ [e] else owed) received"
  by (auto simp: account_ok_def split: if_splits)

lemma get_ok:
  assumes a: "account_ok n s member op owed received" and q: "s_queue s = x # q"
  shows "account_ok n (s\<lparr>s_queue := q\<rparr>) member op owed (case x of Event e \<Rightarrow> received @ [e] | Dropped \<Rightarrow> received)"
proof (cases "s_dropped s")
  case True
  then show ?thesis using assms by (auto simp: account_ok_def)
next
  case False
  then have "x \<in> set (map Event owed)" using assms by (auto simp: account_ok_def)
  then obtain e where "x = Event e" by auto
  then show ?thesis using assms False by (auto simp: account_ok_def)
qed

lemma close_ok: "account_ok n s member op owed received \<Longrightarrow> account_ok n s False False owed received"
  by (auto simp: account_ok_def)

lemma hub_ok_account:
  assumes "hub_ok calls t" and "i < subscribe_calls calls"
  shows "account_ok (h_queue_size (t_hub t)) (h_objects (t_hub t) ! i) (i \<in> set (h_subscribers (t_hub t)))
    (still_open i calls) (events_due i calls) (t_received t i)" and "length (h_objects (t_hub t)) = subscribe_calls calls"
  using assms unfolding hub_ok_def by blast+

lemma hub_ok_close:
  assumes "hub_ok calls t"
  shows "hub_ok (calls @ [Close j]) (observe (Close j) t)"
proof -
  have "account_ok (h_queue_size (t_hub t)) (h_objects (t_hub t) ! i) (i \<noteq> j \<and> i \<in> set (h_subscribers (t_hub t)))
      (j \<noteq> i \<and> still_open i calls) (events_due i calls) (t_received t i)" if "i < subscribe_calls calls" for i
    using close_ok hub_ok_account [OF assms that] by (cases "i = j") auto
  then show ?thesis using assms unfolding hub_ok_def by (simp add: conj_commute)
qed

lemma hub_ok_subscribe:
  assumes "hub_ok calls t"
  shows "hub_ok (calls @ [Subscribe]) (observe Subscribe t)"
proof -
  let ?n = "subscribe_calls calls" and ?h = "snd (subscribe (t_hub t))"
  have len: "length (h_objects (t_hub t)) = ?n" and subs: "\<forall>i\<in>set (h_subscribers (t_hub t)). i < ?n"
    and new: "\<forall>i \<ge> ?n. \<not> still_open i calls \<and> events_due i calls = [] \<and> t_received t i = []" and dist: "distinct (h_subscribers (t_hub t))"
    using assms unfolding hub_ok_def by blast+
  have h: "h_queue_size ?h = h_queue_size (t_hub t)" "h_subscribers ?h = h_subscribers (t_hub t) @ [?n]"
    "h_objects ?h = h_objects (t_hub t) @ [\<lparr>s_queue = [], s_dropped = False\<rparr>]" by (simp_all add: subscribe_def Let_def len)
  have "account_ok (h_queue_size ?h) (h_objects ?h ! i) (i \<in> set (h_subscribers ?h)) (?n = i \<or> still_open i calls) (events_due i calls) (t_received t i)"
    if "i < Suc ?n" for i
  proof (cases "i = ?n")
    case True
    then show ?thesis using new len by (simp add: h nth_append account_ok_def)
  next
    case False
    then have "i < ?n" using that by simp
    then show ?thesis using hub_ok_account [OF assms, of i] False len by (simp add: h nth_append)
  qed
  then show ?thesis using len subs new dist unfolding hub_ok_def by (auto simp: h less_Suc_eq)
qed

lemma hub_ok_publish:
  assumes "hub_ok calls t"
  shows "hub_ok (calls @ [Publish e]) (observe (Publish e) t)"
proof -
  let ?h = "t_hub t"
  have len: "length (h_objects ?h) = subscribe_calls calls" using assms by (simp add: hub_ok_def)
  then have p: "distinct (h_subscribers ?h)" "\<forall>i\<in>set (h_subscribers ?h). i < length (h_objects ?h)"
    using assms by (auto simp: hub_ok_def)
  note f = publish_fields [OF p, where e = e]
  have "account_ok (h_queue_size ?h) (h_objects (publish e ?h) ! i) (i \<in> set (h_subscribers (publish e ?h)))
      (still_open i calls) (events_due i (calls @ [Publish e])) (t_received t i)" if i: "i < subscribe_calls calls" for i
  proof -
    have acc: "account_ok (h_queue_size ?h) (h_objects ?h ! i) (i \<in> set (h_subscribers ?h)) (still_open i calls) (events_due i calls) (t_received t i)"
      using assms i by (simp add: hub_ok_def)
    show ?thesis
    proof (cases "i \<in> set (h_subscribers ?h)")
      case True
      moreover from this have "still_open i calls" using acc by (simp add: account_ok_def split: if_splits)
      ultimately show ?thesis using offer_ok acc i len by (simp add: f)
    next
      case False
      then show ?thesis using missed_ok [where op = "still_open i calls" and e = e] acc i len by (simp add: f)
    qed
  qed
  then show ?thesis using assms len unfolding hub_ok_def by (simp add: f)
qed

lemma hub_ok_get:
  assumes "hub_ok calls t"
  shows "hub_ok (calls @ [Get i]) (observe (Get i) t)"
proof (cases "i < length (h_objects (t_hub t)) \<and> s_queue (h_objects (t_hub t) ! i) \<noteq> []")
  case True
  then obtain x q where q: "s_queue (h_objects (t_hub t) ! i) = x # q" by (cases "s_queue (h_objects (t_hub t) ! i)") auto
  have "account_ok (h_queue_size (t_hub t)) (h_objects (t_hub t) ! i) (i \<in> set (h_subscribers (t_hub t)))
      (still_open i calls) (events_due i calls) (t_received t i)"
    using assms True by (simp add: hub_ok_def)
  note acc = get_ok [OF this q]
  have "observe (Get i) t = t\<lparr>t_hub := (t_hub t)\<lparr>h_objects := (h_objects (t_hub t))[i := (h_objects (t_hub t) ! i)\<lparr>s_queue := q\<rparr>]\<rparr>,
      t_received := (t_received t)(i := (case x of Event e \<Rightarrow> t_received t i @ [e] | Dropped \<Rightarrow> t_received t i))\<rparr>"
    using True q by (cases x) (simp_all add: get_def)
  then show ?thesis
    using assms acc True unfolding hub_ok_def by (auto simp: nth_list_update)
next
  case False
  then show ?thesis using assms by (auto simp: hub_ok_def get_def)
qed

lemma hub_ok_step: "hub_ok calls t \<Longrightarrow> hub_ok (calls @ [c]) (observe c t)"
  by (cases c) (auto intro: hub_ok_subscribe hub_ok_close hub_ok_publish hub_ok_get simp del: observe.simps)

lemma hub_ok_history: "hub_ok calls (fold observe calls (started queue_size env))"
proof (induction calls rule: rev_induct)
  case Nil
  then show ?case by (simp add: hub_ok_def started_def mk_hub_def)
next
  case (snoc c calls)
  then show ?case by (simp add: hub_ok_step)
qed

lemma publish_size: "h_queue_size (publish e h) = h_queue_size h"
proof -
  have "h_queue_size (fold (publish_to e) is h) = h_queue_size h" for "is"
    by (induction "is" arbitrary: h) (simp_all add: publish_to_def Let_def)
  then show ?thesis by (simp add: publish_def)
qed

lemma observe_size: "h_queue_size (t_hub (observe c t)) = h_queue_size (t_hub t)"
  by (cases c) (auto simp: publish_size subscribe_def get_def Let_def split: list.split item.split)

lemma history_size: "h_queue_size (t_hub (fold observe calls t)) = h_queue_size (t_hub t)"
  by (induction calls arbitrary: t) (simp_all add: observe_size)

text \<open>C32. The hub loses, repeats and reorders no event of a client that keeps up: whatever the subscriptions,
  publications, reads and closings, every \<open>subscribe\<close> made a client, and a client that was not dropped is subscribed
  exactly until it closed and has received exactly the events published while it was subscribed, in order, up to the ones
  still queued for it; with a positive queue size at most that many are queued. A client is dropped only under a positive
  queue size and when more than that many events waited for it: it is then no longer subscribed and has received a prefix
  of its events. What the other clients do has no part in any of this. With a size that is not positive no client is ever
  dropped, and no queue has a bound.\<close>

theorem hub_delivers_or_drops:
  fixes env :: "string \<rightharpoonup> string"
  assumes "t = fold observe calls (started queue_size env)" and "i < subscribe_calls calls"
    and "s = h_objects (t_hub t) ! i" and "maxsize = (case queue_size of Some n \<Rightarrow> n | None \<Rightarrow> queue_size_from_env env)"
  shows "i < length (h_objects (t_hub t)) \<and>
    (if s_dropped s
     then 0 < maxsize \<and> i \<notin> set (h_subscribers (t_hub t)) \<and> prefix (t_received t i) (events_due i calls) \<and>
       int (length (t_received t i)) + maxsize < int (length (events_due i calls))
     else (i \<in> set (h_subscribers (t_hub t)) \<longleftrightarrow> still_open i calls) \<and>
       map Event (events_due i calls) = map Event (t_received t i) @ s_queue s \<and>
       (0 < maxsize \<longrightarrow> int (length (s_queue s)) \<le> maxsize))"
proof -
  have "h_queue_size (t_hub t) = maxsize" using assms(1,4) by (simp add: history_size started_def mk_hub_def split: option.split)
  then show ?thesis
    using hub_ok_account [OF hub_ok_history assms(2), of queue_size env] assms(1-3) by (simp add: account_ok_def)
qed

text \<open>A queue of one: the second event drops the client that never reads and leaves the other alone.\<close>

theorem hub_delivers_or_drops_witness:
  "let calls = [Subscribe, Subscribe, Publish ReaperPendingChanged, Get 1, Publish (DatasetChanged 4 DELETED)];
       t = fold observe calls (started (Some 1) (\<lambda>_. None) :: unit history)
   in s_dropped (h_objects (t_hub t) ! 0) \<and> prefix (t_received t 0) (events_due 0 calls) \<and> h_subscribers (t_hub t) = [1] \<and>
      t_received t 1 = [ReaperPendingChanged] \<and> events_due 1 calls = [ReaperPendingChanged, DatasetChanged 4 DELETED] \<and>
      map Event (events_due 1 calls) = map Event (t_received t 1) @ s_queue (h_objects (t_hub t) ! 1)"
proof -
  define calls :: "unit hub_call list"
    where "calls = [Subscribe, Subscribe, Publish ReaperPendingChanged, Get 1, Publish (DatasetChanged 4 DELETED)]"
  define t where "t = fold observe calls (started (Some 1) (\<lambda>_. None) :: unit history)"
  note t_def' = t_def [folded calls_def]
  have p: "s_dropped (h_objects (t_hub t) ! 0)" "\<not> s_dropped (h_objects (t_hub t) ! 1)" "subscribe_calls calls = 2"
    "h_subscribers (t_hub t) = [1]" "t_received t 1 = [ReaperPendingChanged]"
    "events_due 1 calls = [ReaperPendingChanged, DatasetChanged 4 DELETED]" unfolding t_def calls_def by code_simp+
  then show ?thesis
    using hub_delivers_or_drops [OF t_def', of 0 _ 1] hub_delivers_or_drops [OF t_def', of 1 _ 1]
    unfolding calls_def [symmetric] Let_def t_def' [symmetric] by simp
qed

text \<open>The bound is not enforced on the setting: a size that is not positive is taken as it is, and then no
  queue is bounded and no client is ever dropped.\<close>

lemma nonpositive_size_unbounded:
  assumes "env QUEUE_SIZE_ENV = Some raw" and "py_int raw = Some n" and "n \<le> 0"
    and "t = fold observe calls (started None env)" and "i < subscribe_calls calls"
  shows "\<not> s_dropped (h_objects (t_hub t) ! i)"
proof -
  have "h_queue_size (t_hub t) = n" using assms(1,2,4) by (simp add: history_size started_def mk_hub_def queue_size_from_env_def)
  then show ?thesis
    using hub_ok_account [OF hub_ok_history assms(5), of None env] assms(3,4) by (auto simp: account_ok_def)
qed

end
