(* ===== verification/Reaper.thy ===== *)
theory Reaper
  imports Catalog_Reads Events_Hub
begin

text \<open>
  \<open>server/data/store/app/reaper.py\<close>: a pass over the datasets whose expiry has passed. What other
  transactions commit before the pass reaches a dataset is \<open>other\<close>, and \<open>fault\<close> is an error of that
  dataset's own transaction, both by dataset; the events are listed in the order of their publication.
\<close>

section \<open>Settings\<close>

definition DELETES_ENABLED_ENV :: string where
  "DELETES_ENABLED_ENV = ''REAPER_DELETES_ENABLED''"

definition INTERVAL_ENV :: string where
  "INTERVAL_ENV = ''REAPER_INTERVAL_SECONDS''"

definition DEFAULT_INTERVAL_SECONDS :: int where
  "DEFAULT_INTERVAL_SECONDS = 3600"

definition deletes_enabled :: "(string \<rightharpoonup> string) \<Rightarrow> bool" where
  "deletes_enabled env \<longleftrightarrow>
     lower (strip (case env DELETES_ENABLED_ENV of None \<Rightarrow> [] | Some v \<Rightarrow> v)) = ''true''"

text \<open>\<open>get_env_var(name, default, cast_type=int)\<close>, then the default in place of what is not positive\<close>

definition positive_int_env :: "(string \<rightharpoonup> string) \<Rightarrow> string \<Rightarrow> int \<Rightarrow> int" where
  "positive_int_env env name fallback =
     (let v = (case env name of None \<Rightarrow> fallback
               | Some raw \<Rightarrow> (case py_int raw of None \<Rightarrow> fallback | Some n \<Rightarrow> n))
      in if v > 0 then v else fallback)"

definition interval_seconds :: "(string \<rightharpoonup> string) \<Rightarrow> int" where
  "interval_seconds env = positive_int_env env INTERVAL_ENV DEFAULT_INTERVAL_SECONDS"

section \<open>A pass\<close>

record outcomes =
  oc_deleted :: "uuid set"
  oc_skipped :: nat
  oc_left_alone :: nat
  oc_already_gone :: nat
  oc_failed :: nat

definition no_outcomes :: outcomes where
  "no_outcomes = \<lparr>oc_deleted = {}, oc_skipped = 0, oc_left_alone = 0, oc_already_gone = 0, oc_failed = 0\<rparr>"

fun delete_each ::
  "(uuid \<Rightarrow> db \<Rightarrow> db) \<Rightarrow> (uuid \<Rightarrow> sql_error option) \<Rightarrow> uuid set \<Rightarrow> instant \<Rightarrow> uuid list \<Rightarrow>
   outcomes \<times> 'e domain_event list \<times> db \<Rightarrow> outcomes \<times> 'e domain_event list \<times> db" where
  "delete_each other fault running now [] s = s"
| "delete_each other fault running now (i # ids) (o1, events, d) =
     delete_each other fault running now ids
       (if i \<in> running then (o1\<lparr>oc_skipped := Suc (oc_skipped o1)\<rparr>, events, d)
        else case reaper_delete_entry i now (fault i) (other i d) of
               (Inl (EntryNotFound _), d') \<Rightarrow> (o1\<lparr>oc_already_gone := Suc (oc_already_gone o1)\<rparr>, events, d')
             | (Inl _, d') \<Rightarrow> (o1\<lparr>oc_failed := Suc (oc_failed o1)\<rparr>, events, d')
             | (Inr True, d') \<Rightarrow> (o1\<lparr>oc_deleted := insert i (oc_deleted o1)\<rparr>, events @ [DatasetChanged i DELETED], d')
             | (Inr False, d') \<Rightarrow> (o1\<lparr>oc_left_alone := Suc (oc_left_alone o1)\<rparr>, events, d'))"

text \<open>The reaper's state is the previous pass's pending ids, \<open>None\<close> before the first pass.\<close>

definition run_pass ::
  "(uuid \<Rightarrow> db \<Rightarrow> db) \<Rightarrow> (uuid \<Rightarrow> sql_error option) \<Rightarrow> (string \<rightharpoonup> string) \<Rightarrow> instant \<Rightarrow> uuid set option \<Rightarrow> db \<Rightarrow>
   nat \<times> outcomes \<times> uuid set option \<times> 'e domain_event list \<times> db" where
  "run_pass other fault env now previous d =
     (let enabled = deletes_enabled env;
          pending = pending_ids now None d;
          running = (if enabled \<and> pending \<noteq> {} then running_dataset_ids d else {});
          recording = (if enabled \<and> pending \<noteq> {} then audit_tables d else False);
          (oc, events, d') =
            (if \<not> enabled then (no_outcomes, [], d)
             else if pending \<noteq> {} \<and> \<not> recording then (no_outcomes, [], d)
             else if pending \<noteq> {}
             then delete_each other fault running now (sorted_list_of_set pending) (no_outcomes, [], d)
             else (no_outcomes, [], d));
          remaining = pending - oc_deleted oc;
          changed = (previous = None \<or> previous \<noteq> Some remaining \<or> oc_deleted oc \<noteq> {})
      in (card (oc_deleted oc), oc, Some remaining,
          events @ (if changed then [ReaperPendingChanged] else []), d'))"

section \<open>Accounting\<close>

definition tally :: "outcomes \<Rightarrow> nat" where
  "tally oc = card (oc_deleted oc) + oc_skipped oc + oc_left_alone oc + oc_already_gone oc + oc_failed oc"

lemma delete_each_account:
  assumes "delete_each other fault running now ids (o1, ev, d) = (o2, ev', d')"
    and "distinct ids" and "finite (oc_deleted o1)" and "oc_deleted o1 \<inter> set ids = {}"
  shows "tally o2 = tally o1 + length ids \<and> finite (oc_deleted o2)
    \<and> oc_deleted o1 \<subseteq> oc_deleted o2 \<and> oc_deleted o2 \<subseteq> oc_deleted o1 \<union> (set ids - running)
    \<and> (ReaperPendingChanged \<in> set ev' \<longleftrightarrow> ReaperPendingChanged \<in> set ev)"
  using assms
proof (induction ids arbitrary: o1 ev d)
  case (Cons i ids)
  obtain o3 ev3 d3 where step: "delete_each other fault running now [i] (o1, ev, d) = (o3, ev3, d3)"
    by (metis prod_cases3)
  have fresh: "i \<notin> oc_deleted o1" "i \<notin> set ids" "oc_deleted o1 \<inter> set ids = {}" using Cons.prems by auto
  have o3: "tally o3 = tally o1 + 1 \<and> finite (oc_deleted o3) \<and> oc_deleted o1 \<subseteq> oc_deleted o3 \<and>
      oc_deleted o3 \<subseteq> oc_deleted o1 \<union> ({i} - running) \<and>
      (ReaperPendingChanged \<in> set ev3 \<longleftrightarrow> ReaperPendingChanged \<in> set ev)"
    using step fresh(1) Cons.prems(3)
    by (auto simp: tally_def split: if_splits prod.splits sum.splits store_error.splits bool.splits)
  have rest: "delete_each other fault running now ids (o3, ev3, d3) = (o2, ev', d')"
    using Cons.prems(1) step by simp
  have "oc_deleted o3 \<inter> set ids = {}" using o3 fresh by auto
  then show ?case using Cons.IH [OF rest] Cons.prems(2) o3 by auto
qed simp

lemma pending_finite: "finite (pending_ids now ids d)"
  by (simp add: pending_ids_def)

text \<open>A pass accounts for every dataset it found pending, whatever happens around it: each is exactly one
  of deleted, skipped, left alone, already gone and failed, and only datasets that were pending and not
  running are deleted. Without an explicit \<open>true\<close>, or without the audit tables, nothing is touched at
  all. The set change is announced exactly when something was deleted or the set left over differs
  from what the previous pass left.\<close>

theorem reaper_pass_accounts:
  assumes "run_pass other fault env now previous d = (n, oc, prev, events, d')"
  shows "n = card (oc_deleted oc) \<and> oc_deleted oc \<subseteq> pending_ids now None d - running_dataset_ids d
    \<and> prev = Some (pending_ids now None d - oc_deleted oc)
    \<and> (ReaperPendingChanged \<in> set events \<longleftrightarrow> previous \<noteq> prev \<or> 0 < n)
    \<and> (if deletes_enabled env \<and> audit_tables d
       then n + oc_skipped oc + oc_left_alone oc + oc_already_gone oc + oc_failed oc = card (pending_ids now None d)
       else n = 0 \<and> d' = d)"
proof -
  let ?P = "pending_ids now None d"
  have P: "finite ?P" by (rule pending_finite)
  show ?thesis
  proof (cases "deletes_enabled env \<and> ?P \<noteq> {} \<and> audit_tables d")
    case True
    then obtain ev where run: "delete_each other fault (running_dataset_ids d) now (sorted_list_of_set ?P) (no_outcomes, [], d) = (oc, ev, d')"
      and rest: "n = card (oc_deleted oc)" "prev = Some (?P - oc_deleted oc)"
        "events = ev @ (if previous = None \<or> previous \<noteq> Some (?P - oc_deleted oc) \<or> oc_deleted oc \<noteq> {} then [ReaperPendingChanged] else [])"
      using assms by (auto simp: run_pass_def Let_def split: prod.splits)
    have acc: "tally oc = tally no_outcomes + length (sorted_list_of_set ?P) \<and> finite (oc_deleted oc)
      \<and> oc_deleted no_outcomes \<subseteq> oc_deleted oc
      \<and> oc_deleted oc \<subseteq> oc_deleted no_outcomes \<union> (set (sorted_list_of_set ?P) - running_dataset_ids d)
      \<and> (ReaperPendingChanged \<in> set ev \<longleftrightarrow> ReaperPendingChanged \<in> set ([] :: 'a domain_event list))"
      by (rule delete_each_account [OF run]) (simp_all add: no_outcomes_def)
    have "0 < n \<longleftrightarrow> oc_deleted oc \<noteq> {}" using acc rest(1) by (simp add: card_gt_0_iff)
    then show ?thesis using acc rest True P by (auto simp: tally_def no_outcomes_def)
  qed (use assms in \<open>auto simp: run_pass_def no_outcomes_def Let_def split: if_splits\<close>)
qed

definition deletes_on :: "string \<rightharpoonup> string" where
  "deletes_on = [DELETES_ENABLED_ENV \<mapsto> '' TRUE '']"

text \<open>Two expired datasets: the operator deletes the first before its turn, the second is deleted.\<close>

definition two_expired_db :: db where
  "two_expired_db = sample_db\<lparr>entries := entries sample_db @
     [row_of_create 2 50 None (extend_key (sample_key\<lparr>k_symbol := ''MSFT''\<rparr>) (Some 800) IEX)]\<rparr>"

definition gone_first :: "uuid \<Rightarrow> db \<Rightarrow> db" where
  "gone_first i d = (if i = 1 then d\<lparr>entries := filter (\<lambda>e. e_id e \<noteq> 1) (entries d)\<rparr> else d)"

theorem reaper_pass_accounts_witness:
  "\<exists>oc d'. run_pass gone_first (\<lambda>_. None) deletes_on 900 None two_expired_db =
      (1, oc, Some {1}, [DatasetChanged 2 DELETED, ReaperPendingChanged :: unit domain_event], d')
    \<and> oc_already_gone oc = 1 \<and> oc_deleted oc = {2} \<and> oc_failed oc = 0 \<and> pending_ids 900 None two_expired_db = {1, 2}"
proof -
  let ?r = "run_pass gone_first (\<lambda>_. None) deletes_on 900 None two_expired_db ::
    nat \<times> outcomes \<times> uuid set option \<times> unit domain_event list \<times> db"
  have P: "pending_ids 900 None two_expired_db = {1, 2}" "sorted_list_of_set {1, 2::nat} = [1, 2]"
    "running_dataset_ids two_expired_db = {}" "audit_tables two_expired_db" "deletes_enabled deletes_on" by code_simp+
  let ?one = "reaper_delete_entry 1 900 None (gone_first 1 two_expired_db)"
  let ?two = "reaper_delete_entry 2 900 None (gone_first 2 (snd ?one))"
  have f: "fst ?one = Inl (EntryNotFound 1)" "fst ?two = Inr True" by code_simp+
  obtain d1 where d1: "?one = (Inl (EntryNotFound 1), d1)" using f(1) by (metis prod.collapse)
  obtain d2 where d2: "reaper_delete_entry 2 900 None (gone_first 2 d1) = (Inr True, d2)" using f(2) d1 by (metis prod.collapse snd_conv)
  have "delete_each gone_first (\<lambda>_. None) {} 900 [1, 2] (no_outcomes, [], two_expired_db) =
      (no_outcomes\<lparr>oc_already_gone := 1, oc_deleted := {2}\<rparr>, [DatasetChanged 2 DELETED :: unit domain_event], d2)"
    by (simp add: d1 d2 no_outcomes_def del: One_nat_def)
  then have r: "?r = (1, no_outcomes\<lparr>oc_already_gone := 1, oc_deleted := {2}\<rparr>, Some {1},
      [DatasetChanged 2 DELETED, ReaperPendingChanged], d2)"
    using P by (auto simp: run_pass_def simp del: One_nat_def delete_each.simps)
  show ?thesis using reaper_pass_accounts [OF r] r P by (auto simp: no_outcomes_def)
qed

section \<open>A pass that nothing disturbs\<close>

lemma running_get: "dataset_has_running_run d' i \<longleftrightarrow> i \<in> running_dataset_ids d" if "ingest_runs d' = ingest_runs d"
  using that by (simp add: running_iff dataset_has_running_run_def)

lemma quiet_delete:
  assumes "i \<notin> running" and "\<And>i. dataset_has_running_run d i \<longleftrightarrow> i \<in> running"
    and e: "get_entry d i = Some e" "past_expiry now e"
  shows "\<exists>d'. reaper_delete_entry i now None d = (Inr True, d')
    \<and> entries d' = filter (\<lambda>x. e_id x \<noteq> i) (entries d) \<and> ingest_runs d' = ingest_runs d
    \<and> map de_dataset (deletions d') = map de_dataset (deletions d) @ [i] \<and> overrides d' = overrides d"
proof -
  have id: "e_id e = i" using get_entry_Some [OF e(1)] by simp
  then have "list_ex (\<lambda>x. e_id x = i) (entries d)" using get_entry_Some [OF e(1)] by (auto simp: list_ex_iff)
  then obtain d' where d': "delete_and_record e CAUSE_REAPER REAPER_ACTOR d d = Returns () d'"
    using id by (simp add: delete_and_record_def delete_entry_row_def append_deletion_def)
  then have "reaper_delete_entry i now None d = (Inr True, d')"
    using assms by (simp add: reaper_delete_entry_def write_transaction_def past_expiry_def split: option.splits)
  then show ?thesis using delete_and_record_done [OF d'] id by (auto simp: deletion_of_def)
qed

lemma get_entry_filter:
  "entries d' = filter (\<lambda>x. e_id x \<noteq> i) (entries d) \<Longrightarrow> j \<noteq> i \<Longrightarrow> get_entry d' j = get_entry d j"
proof -
  assume "entries d' = filter (\<lambda>x. e_id x \<noteq> i) (entries d)" and "j \<noteq> i"
  moreover have "find (\<lambda>e. e_id e = j) (filter (\<lambda>x. e_id x \<noteq> i) es) = find (\<lambda>e. e_id e = j) es" for es
    using \<open>j \<noteq> i\<close> by (induction es) auto
  ultimately show ?thesis by (simp add: get_entry_def)
qed

lemma all_running_skipped:
  "set ids \<subseteq> running \<Longrightarrow> delete_each other fault running now ids (o1, ev, d) =
     (o1\<lparr>oc_skipped := oc_skipped o1 + length ids\<rparr>, ev, d)"
  by (induction ids arbitrary: o1) auto

lemma quiet_loop:
  assumes "\<And>i. dataset_has_running_run d i \<longleftrightarrow> i \<in> running" and "distinct ids"
    and "\<And>i. i \<in> set ids \<Longrightarrow> \<exists>e. get_entry d i = Some e \<and> past_expiry now e"
  shows "\<exists>d'. delete_each (\<lambda>_. id) (\<lambda>_. None) running now ids (o1, ev, d) =
      (o1\<lparr>oc_deleted := oc_deleted o1 \<union> (set ids - running), oc_skipped := oc_skipped o1 + length (filter (\<lambda>i. i \<in> running) ids)\<rparr>,
       ev @ map (\<lambda>i. DatasetChanged i DELETED) (filter (\<lambda>i. i \<notin> running) ids), d')
    \<and> entries d' = filter (\<lambda>e. e_id e \<notin> set ids - running) (entries d) \<and> ingest_runs d' = ingest_runs d
    \<and> map de_dataset (deletions d') = map de_dataset (deletions d) @ filter (\<lambda>i. i \<notin> running) ids
    \<and> overrides d' = overrides d"
  using assms
proof (induction ids arbitrary: o1 ev d)
  case (Cons i ids)
  show ?case
  proof (cases "i \<in> running")
    case True
    from True Cons.IH [where d = d and ev = ev and ?o1.0 = "o1\<lparr>oc_skipped := Suc (oc_skipped o1)\<rparr>"] Cons.prems
    show ?thesis by auto
  next
    case False
    obtain e where e: "get_entry d i = Some e" "past_expiry now e" using Cons.prems(3) by auto
    from quiet_delete [OF False Cons.prems(1) e] obtain d1 where d1: "reaper_delete_entry i now None d = (Inr True, d1)"
      "entries d1 = filter (\<lambda>x. e_id x \<noteq> i) (entries d)" "ingest_runs d1 = ingest_runs d"
      "map de_dataset (deletions d1) = map de_dataset (deletions d) @ [i]" "overrides d1 = overrides d" by blast
    have ne: "j \<noteq> i" if "j \<in> set ids" for j using Cons.prems(2) that by auto
    have "dataset_has_running_run d1 j \<longleftrightarrow> j \<in> running" for j
      using Cons.prems(1) d1(3) by (simp add: dataset_has_running_run_def)
    moreover have "\<exists>e. get_entry d1 j = Some e \<and> past_expiry now e" if "j \<in> set ids" for j
      using get_entry_filter [OF d1(2) ne [OF that]] Cons.prems(3) [of j] that by simp
    moreover have "filter (\<lambda>e. e_id e \<notin> set ids - running) (filter (\<lambda>x. e_id x \<noteq> i) (entries d)) =
        filter (\<lambda>e. e_id e \<notin> set (i # ids) - running) (entries d)"
      using False by (auto intro!: filter_cong)
    ultimately show ?thesis
      using False d1 Cons.prems(2)
        Cons.IH [where d = d1 and ev = "ev @ [DatasetChanged i DELETED]" and ?o1.0 = "o1\<lparr>oc_deleted := insert i (oc_deleted o1)\<rparr>"]
      by (auto simp: insert_Diff_if)
  qed
qed auto

lemma quiet_pass:
  fixes events :: "'e domain_event list"
  assumes "db_ok d" and "deletes_enabled env" and "audit_tables d"
    and "run_pass (\<lambda>_. id) (\<lambda>_. None) env now previous d = (n, oc, prev, events, d')"
  shows "let due = sorted_list_of_set (pending_ids now None d - running_dataset_ids d) in
    n = length due \<and> entries d' = filter (\<lambda>e. e_id e \<notin> set due) (entries d)
    \<and> map de_dataset (deletions d') = map de_dataset (deletions d) @ due \<and> overrides d' = overrides d
    \<and> pending_ids now None d' = pending_ids now None d \<inter> running_dataset_ids d \<and> prev = Some (pending_ids now None d')
    \<and> events = map (\<lambda>i. DatasetChanged i DELETED) due @ (if previous = prev \<and> due = [] then [] else [ReaperPendingChanged])
    \<and> (\<exists>oc'. run_pass (\<lambda>_. id) (\<lambda>_. None) env now prev d' = (0, oc', prev, [] :: 'e domain_event list, d'))"
proof -
  define P where "P = pending_ids now None d"
  define R where "R = running_dataset_ids d"
  have fin: "finite P" unfolding P_def by (rule pending_finite)
  have get: "\<exists>e. get_entry d i = Some e \<and> past_expiry now e" if "i \<in> P" for i
    using that pending_ids_get [OF assms(1)] by (simp add: P_def)
  have due: "sorted_list_of_set (P - R) = filter (\<lambda>i. i \<notin> R) (sorted_list_of_set P)"
    using fin by (intro sorted_distinct_set_unique) (auto simp: sorted_wrt_filter)
  define oc2 where "oc2 = no_outcomes\<lparr>oc_deleted := P - R, oc_skipped := length (filter (\<lambda>i. i \<in> R) (sorted_list_of_set P))\<rparr>"
  have running: "dataset_has_running_run d i \<longleftrightarrow> i \<in> R" for i by (simp add: R_def running_iff)
  have "\<exists>e. get_entry d i = Some e \<and> past_expiry now e" if "i \<in> set (sorted_list_of_set P)" for i
    using get that fin by simp
  from quiet_loop [OF running _ this, where ids = "sorted_list_of_set P" and ?o1.0 = no_outcomes and ev = "[] :: 'e domain_event list"] fin
  obtain d2 where loop: "delete_each (\<lambda>_. id) (\<lambda>_. None) R now (sorted_list_of_set P) (no_outcomes, [], d) =
      (oc2, map (\<lambda>i. DatasetChanged i DELETED) (sorted_list_of_set (P - R)) :: 'e domain_event list, d2)"
    and d2: "entries d2 = filter (\<lambda>e. e_id e \<notin> P - R) (entries d)" "ingest_runs d2 = ingest_runs d"
      "map de_dataset (deletions d2) = map de_dataset (deletions d) @ sorted_list_of_set (P - R)" "overrides d2 = overrides d"
    unfolding due oc2_def by (auto simp: no_outcomes_def)
  have oc2: "oc_deleted oc2 = P - R" by (simp add: oc2_def)
  have run: "d' = d2 \<and> n = card (P - R) \<and> prev = Some (P \<inter> R)
    \<and> events = map (\<lambda>i. DatasetChanged i DELETED) (sorted_list_of_set (P - R)) @
        (if previous = Some (P \<inter> R) \<and> P - R = {} then [] else [ReaperPendingChanged])"
  proof (cases "P = {}")
    case True
    then have "d2 = d" using loop by simp
    then show ?thesis using assms(2-4) True by (auto simp: run_pass_def no_outcomes_def Let_def P_def [symmetric])
  next
    case False
    then show ?thesis using assms(2-4) loop oc2
      by (auto simp: run_pass_def Let_def Diff_Diff_Int P_def [symmetric] R_def [symmetric] split: if_splits)
  qed
  have P': "pending_ids now None d' = P \<inter> R" and R': "running_dataset_ids d' = R"
    using run d2(1,2) by (auto simp: P_def pending_ids_def R_def running_dataset_ids_def)
  have "delete_each (\<lambda>_. id) (\<lambda>_. None) R now (sorted_list_of_set (P \<inter> R)) (no_outcomes, [] :: 'e domain_event list, d') =
      (no_outcomes\<lparr>oc_skipped := length (sorted_list_of_set (P \<inter> R))\<rparr>, [], d')"
    by (subst all_running_skipped) (simp_all add: fin no_outcomes_def)
  then have again: "\<exists>oc'. run_pass (\<lambda>_. id) (\<lambda>_. None) env now (Some (P \<inter> R)) d' = (0, oc', Some (P \<inter> R), [] :: 'e domain_event list, d')"
    using assms(2) by (auto simp: run_pass_def Let_def P' R' no_outcomes_def)
  show ?thesis
    using run d2 P' again fin by (auto simp: Let_def P_def [symmetric] R_def [symmetric])
qed

text \<open>A pass that may not delete: the switch is not set, or the audit tables are missing.\<close>

lemma idle_pass:
  assumes "run_pass other fault env now previous d = (n, oc, prev, events, d')" and "\<not> (deletes_enabled env \<and> audit_tables d)"
  shows "n = 0 \<and> d' = d \<and> prev = Some (pending_ids now None d) \<and> events = (if previous = prev then [] else [ReaperPendingChanged])"
  using assms by (auto simp: run_pass_def no_outcomes_def Let_def split: if_splits)

text \<open>C31. Deleting is opt-in: unless \<open>REAPER_DELETES_ENABLED\<close> is set to true (in any case, with any white space around it)
  and both audit tables exist, a pass deletes nothing, leaves the database as it is, reports everything past its expiry as
  pending and announces only a changed pending set. Otherwise a pass that no other transaction disturbs and no statement
  fails in deletes exactly the datasets that are past their expiry and idle, each with its deletion record and no override
  row, announces each in turn and the set change last; what stays pending is exactly what is still being ingested, and a
  second pass then does and announces nothing.\<close>

theorem quiet_pass_clears_pending:
  fixes events :: "'e domain_event list"
  assumes "db_ok d" and "run_pass (\<lambda>_. id) (\<lambda>_. None) env now previous d = (n, oc, prev, events, d')"
  shows "if (\<exists>v. env ''REAPER_DELETES_ENABLED'' = Some v \<and> lower (strip v) = ''true'') \<and> audit_tables d
    then let due = sorted_list_of_set (pending_ids now None d - running_dataset_ids d) in
      n = length due \<and> entries d' = filter (\<lambda>e. e_id e \<notin> set due) (entries d)
      \<and> map de_dataset (deletions d') = map de_dataset (deletions d) @ due \<and> overrides d' = overrides d
      \<and> pending_ids now None d' = pending_ids now None d \<inter> running_dataset_ids d \<and> prev = Some (pending_ids now None d')
      \<and> events = map (\<lambda>i. DatasetChanged i DELETED) due @ (if previous = prev \<and> due = [] then [] else [ReaperPendingChanged])
      \<and> (\<exists>oc'. run_pass (\<lambda>_. id) (\<lambda>_. None) env now prev d' = (0, oc', prev, [] :: 'e domain_event list, d'))
    else n = 0 \<and> d' = d \<and> prev = Some (pending_ids now None d)
      \<and> events = (if previous = prev then [] else [ReaperPendingChanged])"
proof -
  have "deletes_enabled env \<longleftrightarrow> (\<exists>v. env ''REAPER_DELETES_ENABLED'' = Some v \<and> lower (strip v) = ''true'')"
    by (auto simp: deletes_enabled_def DELETES_ENABLED_ENV_def lower_def strip_def split: option.splits)
  then show ?thesis using quiet_pass [OF assms(1) _ _ assms(2)] idle_pass [OF assms(2)] by auto
qed

theorem quiet_pass_clears_pending_witness:
  "(\<exists>oc d'. run_pass (\<lambda>_. id) (\<lambda>_. None) deletes_on 900 (Some {1}) sample_db =
      (1, oc, Some {}, [DatasetChanged 1 DELETED, ReaperPendingChanged :: unit domain_event], d')
    \<and> entries d' = [] \<and> map de_dataset (deletions d') = [1])
   \<and> (\<exists>oc. run_pass (\<lambda>_. id) (\<lambda>_. None) Map.empty 900 (Some {1}) sample_db =
      (0, oc, Some {1}, [] :: unit domain_event list, sample_db))"
proof -
  obtain n oc prev d' and events :: "unit domain_event list" where
    r: "run_pass (\<lambda>_. id) (\<lambda>_. None) deletes_on 900 (Some {1}) sample_db = (n, oc, prev, events, d')"
    by (metis prod_cases5)
  obtain n2 oc2 prev2 d2 and events2 :: "unit domain_event list" where
    r2: "run_pass (\<lambda>_. id) (\<lambda>_. None) Map.empty 900 (Some {1}) sample_db = (n2, oc2, prev2, events2, d2)"
    by (metis prod_cases5)
  have p: "deletes_on ''REAPER_DELETES_ENABLED'' = Some '' TRUE ''" "lower (strip '' TRUE '') = ''true''" "audit_tables sample_db"
    "pending_ids 900 None sample_db = {1}"
    "running_dataset_ids sample_db = {}" "map e_id (entries sample_db) = [1]" "deletions sample_db = []" by code_simp+
  then have "filter (\<lambda>e. e_id e \<noteq> 1) (entries sample_db) = []" by (auto simp: filter_empty_conv map_eq_Cons_conv)
  then show ?thesis
    using quiet_pass_clears_pending [OF sample_db_ok r] r quiet_pass_clears_pending [OF sample_db_ok r2] r2 p by (auto simp: Let_def)
qed

end
