(* ===== verification/Daily_Refresh.thy ===== *)
theory Daily_Refresh
  imports Reaper Fetch_Worker Health
begin

text \<open>
  \<open>server/data/store/app/daily_refresh.py\<close>, with \<open>is_retired\<close> and \<open>effective_end\<close> of
  \<open>server/data/store/app/dataset_catalog.py\<close> and the validators of \<open>StoreAssetDatasetBody\<close>
  (\<open>schemas/data_store/asset_dataset_store.py\<close>). A pass reads the database once, decides what is behind,
  what to request and in which order, and requests one dataset at a time through \<open>refresh\<close>, which
  \<open>refresh_one\<close> implements with the recorded fetch.
\<close>

section \<open>Settings\<close>

definition ENABLED_ENV :: string where
  "ENABLED_ENV = ''DAILY_REFRESH_ENABLED''"

definition MAX_PER_PASS_ENV :: string where
  "MAX_PER_PASS_ENV = ''DAILY_REFRESH_MAX_PER_PASS''"

definition BACKOFF_ENV :: string where
  "BACKOFF_ENV = ''DAILY_REFRESH_BACKOFF_SECONDS''"

definition BACKOFF_CAP_SECONDS :: int where "BACKOFF_CAP_SECONDS = 600"
definition MAX_CONSECUTIVE_FAILURES :: nat where "MAX_CONSECUTIVE_FAILURES = 3"
definition ATTEMPT_LOOKBACK :: timedelta where "ATTEMPT_LOOKBACK = 7 * one_day"

definition SCHEDULER_ACTOR :: string where
  "SCHEDULER_ACTOR = ''scheduler''"

definition is_enabled :: "(string \<rightharpoonup> string) \<Rightarrow> bool" where
  "is_enabled env \<longleftrightarrow>
     lower (strip (case env ENABLED_ENV of None \<Rightarrow> ''true'' | Some v \<Rightarrow> v)) \<notin> {''false'', ''0'', ''no'', ''off''}"

definition max_per_pass :: "(string \<rightharpoonup> string) \<Rightarrow> int" where
  "max_per_pass env = positive_int_env env MAX_PER_PASS_ENV 10"

definition backoff_base_seconds :: "(string \<rightharpoonup> string) \<Rightarrow> int" where
  "backoff_base_seconds env = positive_int_env env BACKOFF_ENV 30"

section \<open>What can be retried\<close>

definition PERMANENT_REASONS :: "string list" where
  "PERMANENT_REASONS = map reason_name (filter refused Reason)"

fun is_permanent :: "run_error \<Rightarrow> bool" where
  "is_permanent (Typed e detail) = refused (te_reason e)"
| "is_permanent _ = False"

fun names_reset :: "run_error \<Rightarrow> bool" where
  "names_reset (Typed e detail) = (te_reset_at e \<noteq> None)"
| "names_reset _ = False"

section \<open>The datasets that are behind\<close>

definition is_retired :: "catalog_row \<Rightarrow> bool" where
  "is_retired row \<longleftrightarrow> cat_update_type row \<in> {DAILY, STREAM} \<and> cat_collect row = Some False"

definition effective_end :: "catalog_row \<Rightarrow> instant \<Rightarrow> instant" where
  "effective_end row now = (case cat_end row of Some e \<Rightarrow> e | None \<Rightarrow> max now (cat_start row + 1))"

definition row_health :: "catalog_row \<Rightarrow> tcal \<Rightarrow> (string \<rightharpoonup> string) \<Rightarrow> instant \<Rightarrow> cal_error + dataset_health" where
  "row_health row calendar env now =
     evaluate_dataset (cat_update_type row) (cat_granularity row) (cat_collect row) (Aware (cat_start row))
       (Aware (effective_end row now)) (map_option Aware (cat_last_bar row)) None calendar (Aware now)
       (mk_freshness_config DEFAULT_STREAM_BAR_MULTIPLE (settle_margin_from_env env))
       (map_option Aware (cat_written_at row))"

text \<open>A row outside the calendar's range is passed over; any other error of the calendar leaves the pass.\<close>

definition owes :: "uuid set \<Rightarrow> tcal \<Rightarrow> (string \<rightharpoonup> string) \<Rightarrow> instant \<Rightarrow> catalog_row \<Rightarrow> cal_error + bool" where
  "owes running calendar env now row =
     (if is_retired row \<or> cat_id row \<in> running then Inr False
      else case row_health row calendar env now of
             Inl CalendarRangeError \<Rightarrow> Inr False
           | Inl e \<Rightarrow> Inl e
           | Inr h \<Rightarrow> Inr (h_status h \<in> {LATE, OVERDUE}))"

abbreviation newest_or_start :: "catalog_row \<Rightarrow> instant" where
  "newest_or_start row \<equiv> (case cat_last_bar row of Some b \<Rightarrow> b | None \<Rightarrow> cat_start row)"

definition behind ::
  "catalog_row list \<Rightarrow> uuid set \<Rightarrow> tcal \<Rightarrow> (string \<rightharpoonup> string) \<Rightarrow> instant \<Rightarrow> cal_error + catalog_row list" where
  "behind rows running calendar env now =
     bind_r (filter_r (owes running calendar env now) rows) (\<lambda>owed.
       Inr (sort_key (\<lambda>row. (newest_or_start row, cat_id row)) owed))"

section \<open>The request of a dataset\<close>

definition upper :: "string \<Rightarrow> string" where
  "upper = map (\<lambda>c. if CHR ''a'' \<le> c \<and> c \<le> CHR ''z'' then char_of ((of_char c :: nat) - 32) else c)"

definition fetch_start :: "catalog_row \<Rightarrow> tcal \<Rightarrow> (string \<rightharpoonup> string) \<Rightarrow> cal_error + instant" where
  "fetch_start row calendar env =
     (case cat_last_bar row of
        None \<Rightarrow> Inr (cat_start row)
      | Some b \<Rightarrow>
          bind_r (last_bar_is_provisional (Some (Aware b)) (map_option Aware (cat_written_at row)) calendar
                    (cat_granularity row) (settle_margin_from_env env)) (\<lambda>provisional.
            Inr (if provisional then b else b + offset_of (cat_granularity row))))"

text \<open>\<open>validate_fields\<close>, \<open>validate_range_is_not_empty\<close>, \<open>refuse_collect_on_static\<close>, \<open>refuse_stream_create\<close>\<close>

definition body_valid :: "store_body \<Rightarrow> bool" where
  "body_valid body \<longleftrightarrow>
     (let k = sb_key body in
      (k_update_type k \<noteq> STATIC \<longrightarrow> k_end k = None) \<and>
      (k_update_type k \<noteq> STATIC \<longrightarrow> k_expiry_type k \<noteq> BULK) \<and>
      (case k_end k of None \<Rightarrow> True | Some e \<Rightarrow> k_start k < e) \<and>
      \<not> (sb_collect body \<noteq> None \<and> k_update_type k = STATIC) \<and>
      k_update_type k \<noteq> STREAM)"

definition body_for :: "catalog_row \<Rightarrow> store_body" where
  "body_for row =
     \<lparr>sb_key = \<lparr>k_owner = cat_owner row, k_asset_type = cat_asset_type row, k_symbol = upper (cat_symbol row),
        k_data_type = cat_data_type row, k_source = cat_source row, k_granularity = cat_granularity row,
        k_expiry_type = cat_expiry_type row, k_update_type = cat_update_type row, k_start = cat_start row,
        k_end = cat_end row\<rparr>,
      sb_feed = Some (cat_feed row), sb_expiry = cat_expiry row, sb_collect = None\<rparr>"

text \<open>The inner result is \<open>None\<close> for a \<open>ValidationError\<close>.\<close>

definition request_for ::
  "catalog_row \<Rightarrow> tcal \<Rightarrow> (string \<rightharpoonup> string) \<Rightarrow> cal_error + (store_body \<times> instant) option" where
  "request_for row calendar env =
     bind_r (fetch_start row calendar env) (\<lambda>s.
       Inr (if body_valid (body_for row) then Some (body_for row, s) else None))"

section \<open>What the history says\<close>

type_synonym request_key = "string \<times> asset_type \<times> data_type \<times> granularity \<times> instant option"

definition request_key_of_run :: "run_row \<Rightarrow> request_key" where
  "request_key_of_run run =
     (let l = r_label run in (n_symbol l, n_asset_type l, n_data_type l, n_granularity l, n_start l))"

definition request_key_of_row :: "catalog_row \<Rightarrow> instant \<Rightarrow> request_key" where
  "request_key_of_row row s =
     (cat_symbol row, cat_asset_type row, cat_data_type row, cat_granularity row, Some s)"

definition unproductive :: "run_row \<Rightarrow> instant \<Rightarrow> bool" where
  "unproductive run s \<longleftrightarrow>
     (if n_start (r_label run) \<noteq> Some s then False
      else if r_state run = EMPTY then True
      else r_state run = FAILED \<and> r_error_domain run = Some ERROR_DOMAIN \<and>
           (case r_error_reason run of None \<Rightarrow> False | Some r \<Rightarrow> r \<in> set PERMANENT_REASONS))"

definition last_close :: "tcal \<Rightarrow> instant \<Rightarrow> cal_error + instant option" where
  "last_close calendar now =
     bind_r (last_completed_session calendar now) (\<lambda>session.
       case session of None \<Rightarrow> Inr None | Some d \<Rightarrow> bind_r (session_close calendar d) (\<lambda>c. Inr (Some c)))"

text \<open>The history ascends, so a later run replaces an earlier one under its key.\<close>

definition by_dataset :: "run_row list \<Rightarrow> uuid \<rightharpoonup> run_row" where
  "by_dataset history =
     fold (\<lambda>run m. case r_dataset run of None \<Rightarrow> m | Some i \<Rightarrow> m(i \<mapsto> run)) history Map.empty"

definition by_request :: "run_row list \<Rightarrow> request_key \<rightharpoonup> run_row" where
  "by_request history =
     fold (\<lambda>run m. case r_dataset run of None \<Rightarrow> m(request_key_of_run run \<mapsto> run) | Some i \<Rightarrow> m) history Map.empty"

text \<open>\<open>max\<close> of the two candidates by start: the first one wins a tie.\<close>

definition last_attempt :: "run_row list \<Rightarrow> catalog_row \<Rightarrow> instant \<Rightarrow> run_row option" where
  "last_attempt history row s =
     (case (by_dataset history (cat_id row), by_request history (request_key_of_row row s)) of
        (None, b) \<Rightarrow> b
      | (a, None) \<Rightarrow> a
      | (Some a, Some b) \<Rightarrow> Some (if r_started_at a < r_started_at b then b else a))"

section \<open>The plan\<close>

record planned =
  pl_row :: catalog_row
  pl_body :: store_body
  pl_fetch_start :: instant
  pl_last :: "run_row option"

text \<open>\<open>datetime.min\<close>\<close>

definition DATETIME_MIN :: instant where
  "DATETIME_MIN = -62135596800000000"

definition order :: "planned \<Rightarrow> bool \<times> instant \<times> instant \<times> uuid" where
  "order p =
     (pl_last p \<noteq> None, (case pl_last p of None \<Rightarrow> DATETIME_MIN | Some run \<Rightarrow> r_started_at run),
      newest_or_start (pl_row p), cat_id (pl_row p))"

fun plan_rows ::
  "run_row list \<Rightarrow> instant option \<Rightarrow> tcal \<Rightarrow> (string \<rightharpoonup> string) \<Rightarrow> catalog_row list \<Rightarrow>
   planned list \<times> planned list \<times> nat \<Rightarrow> cal_error + planned list \<times> planned list \<times> nat" where
  "plan_rows history lastc calendar env [] acc = Inr acc"
| "plan_rows history lastc calendar env (row # rows) (productive, again, skipped) =
     bind_r (request_for row calendar env) (\<lambda>request.
       plan_rows history lastc calendar env rows
         (case request of
            None \<Rightarrow> (productive, again, skipped + 1)
          | Some (body, s) \<Rightarrow>
              (let last = last_attempt history row s;
                   p = \<lparr>pl_row = row, pl_body = body, pl_fetch_start = s, pl_last = last\<rparr>
               in case last of
                    None \<Rightarrow> (productive @ [p], again, skipped)
                  | Some run \<Rightarrow>
                      if \<not> unproductive run s then (productive @ [p], again, skipped)
                      else if (case (lastc, r_finished_at run) of
                                 (Some c, Some f) \<Rightarrow> c \<le> f | _ \<Rightarrow> False)
                           then (productive, again, skipped + 1)
                      else (productive, again @ [p], skipped))))"

definition plan ::
  "catalog_row list \<Rightarrow> run_row list \<Rightarrow> instant option \<Rightarrow> tcal \<Rightarrow> (string \<rightharpoonup> string) \<Rightarrow>
   cal_error + ((planned list \<times> planned list) \<times> nat)" where
  "plan owed history lastc calendar env =
     bind_r (plan_rows history lastc calendar env owed ([], [], 0)) (\<lambda>(productive, again, skipped).
       Inr ((sort_key order productive, sort_key order again), skipped))"

text \<open>The cap is positive (\<open>max_per_pass\<close>).\<close>

definition take_batch :: "planned list \<times> planned list \<Rightarrow> nat \<Rightarrow> planned list" where
  "take_batch due cap =
     (let (productive, again) = due;
          reserved = min (length again) (cap div 2);
          first = take (cap - reserved) productive
      in first @ take (cap - length first) again)"

section \<open>A pass\<close>

record pass_result =
  ps_behind :: nat
  ps_refreshed :: nat
  ps_failed :: nat
  ps_deferred :: nat
  ps_refused :: nat
  ps_skipped :: nat
  ps_discarded :: nat

definition nothing_done :: pass_result where
  "nothing_done = \<lparr>ps_behind = 0, ps_refreshed = 0, ps_failed = 0, ps_deferred = 0, ps_refused = 0,
     ps_skipped = 0, ps_discarded = 0\<rparr>"

definition backoff :: "int \<Rightarrow> nat \<Rightarrow> int" where
  "backoff base consecutive = min (base * 2 ^ (consecutive - 1)) BACKOFF_CAP_SECONDS"

text \<open>
  The loop over the batch: \<open>refresh\<close> answers whether it kept the answer, or raises. A cancellation is no
  \<open>Exception\<close> and leaves the pass: \<open>None\<close>. The second result is the sleeps, in seconds.
\<close>

fun request_each ::
  "(planned \<Rightarrow> 's \<Rightarrow> (run_error + bool) \<times> 's) \<Rightarrow> int \<Rightarrow> planned list \<Rightarrow> pass_result \<Rightarrow> nat \<Rightarrow> 's \<Rightarrow>
   pass_result option \<times> int list \<times> 's" where
  "request_each refresh base [] r consecutive s = (Some r, [], s)"
| "request_each refresh base (p # ps) r consecutive s =
     (case refresh p s of
        (Inr kept, s') \<Rightarrow>
          request_each refresh base ps
            (if kept then r\<lparr>ps_refreshed := ps_refreshed r + 1\<rparr> else r\<lparr>ps_discarded := ps_discarded r + 1\<rparr>) 0 s'
      | (Inl Cancelled, s') \<Rightarrow> (None, [], s')
      | (Inl e, s') \<Rightarrow>
          if is_permanent e then request_each refresh base ps (r\<lparr>ps_refused := ps_refused r + 1\<rparr>) consecutive s'
          else let r' = r\<lparr>ps_failed := ps_failed r + 1\<rparr>; failures = consecutive + 1
               in if names_reset e \<or> failures \<ge> MAX_CONSECUTIVE_FAILURES
                  then (Some (r'\<lparr>ps_deferred := ps_deferred r' + length ps\<rparr>), [], s')
                  else let (end, sleeps, s'') = request_each refresh base ps r' failures s'
                       in (end, backoff base failures # sleeps, s''))"

datatype pass_failure = CalendarFailed cal_error | PassCancelled

text \<open>The first half of \<open>run_pass\<close>: what the database says is behind, and how it is to be requested.\<close>

definition plan_pass ::
  "(string \<rightharpoonup> string) \<Rightarrow> data_source \<Rightarrow> tcal \<Rightarrow> instant \<Rightarrow> db \<Rightarrow>
   cal_error + (catalog_row list \<times> (planned list \<times> planned list) \<times> nat)" where
  "plan_pass env source calendar now d =
     (let rows = list_catalog \<lparr>cf_prefix = None, cf_source = Some source, cf_update_type = Some DAILY\<rparr> d;
          running = running_dataset_ids d;
          history = finished_scheduled_runs source (now - ATTEMPT_LOOKBACK) d
      in bind_r (behind rows running calendar env now) (\<lambda>owed.
         bind_r (last_close calendar now) (\<lambda>lastc.
         bind_r (plan owed history lastc calendar env) (\<lambda>(due, skipped). Inr (owed, due, skipped)))))"

definition run_refresh_pass ::
  "(planned \<Rightarrow> db \<Rightarrow> (run_error + bool) \<times> db) \<Rightarrow> bool \<Rightarrow> (string \<rightharpoonup> string) \<Rightarrow> data_source \<Rightarrow> tcal \<Rightarrow> instant \<Rightarrow>
   db \<Rightarrow> (pass_failure + pass_result) \<times> int list \<times> db" where
  "run_refresh_pass refresh tables_exist env source calendar now d =
     (if \<not> tables_exist then (Inr nothing_done, [], d)
      else case plan_pass env source calendar now d of
             Inl e \<Rightarrow> (Inl (CalendarFailed e), [], d)
           | Inr (owed, due, skipped) \<Rightarrow>
               (let batch = take_batch due (nat (max_per_pass env));
                    deferred = length (fst due) + length (snd due) - length batch
                in case request_each refresh (backoff_base_seconds env) batch
                          (nothing_done\<lparr>ps_behind := length owed, ps_deferred := deferred, ps_skipped := skipped\<rparr>) 0 d of
                     (None, sleeps, d') \<Rightarrow> (Inl PassCancelled, sleeps, d')
                   | (Some r, sleeps, d') \<Rightarrow> (Inr r, sleeps, d')))"

section \<open>One refresh\<close>

text \<open>The run's label and the worker of a refresh: the entry's identity, its lifecycle preserved.\<close>

definition refresh_label :: "planned \<Rightarrow> new_run" where
  "refresh_label p =
     label_of (sb_key (pl_body p)) SCHEDULE None (Some SCHEDULER_ACTOR) (Some (pl_fetch_start p))"

definition refresh_worker :: "int option \<Rightarrow> planned \<Rightarrow> uuid \<Rightarrow> (uuid \<Rightarrow> feed \<Rightarrow> db \<Rightarrow> db) \<Rightarrow> worker" where
  "refresh_worker batch_size p new_id on_ack =
     \<lparr>w_body = pl_body p, w_preserve = True, w_batch_size = batch_size, w_new_id = new_id, w_on_ack = on_ack\<rparr>"

text \<open>
  \<open>_refresh\<close>: the body of the recorded run, and the whole. \<open>failure\<close> is how the run record and the pass see
  a store error; \<open>batch_size\<close> is \<open>MARKET_ACTIVITY_BATCH_SIZE\<close>; \<open>other\<close> is what commits while the call is in flight. The handle kept here is the one
  before the acknowledgement, whose row has the same id; the events are left out.
\<close>

definition refresh_body ::
  "int option \<Rightarrow> (store_error \<Rightarrow> run_error) \<Rightarrow> uuid \<Rightarrow> (fetch_request \<Rightarrow> call_item list) \<Rightarrow> (db \<Rightarrow> db) \<Rightarrow> planned \<Rightarrow>
   run_handle \<Rightarrow> db \<Rightarrow> (run_error + bool) \<times> run_handle \<times> run_row list \<times> db" where
  "refresh_body batch_size failure new_id client other p h d =
     (case store_market_activity_worker
             (refresh_worker batch_size p new_id (\<lambda>i f d. snd (snd (handle_acknowledge i f None h d))))
             client (Some (pl_fetch_start p)) other None d of
        (Inl DatasetRetiredDuringFetch, d1) \<Rightarrow>
          (let (h', ev, d2) = handle_succeed 0 None h d1 in (Inr False, h', ev, d2))
      | (Inl e, d1) \<Rightarrow> (Inl (failure e), h, [], d1)
      | (Inr stored, d1) \<Rightarrow>
          (let (h', ev, d2) = handle_succeed (sd_data_points stored) None h d1 in (Inr True, h', ev, d2)))"

definition refresh_one ::
  "int option \<Rightarrow> (store_error \<Rightarrow> run_error) \<Rightarrow> uuid \<Rightarrow> uuid \<Rightarrow> (fetch_request \<Rightarrow> call_item list) \<Rightarrow> (db \<Rightarrow> db) \<Rightarrow>
   planned \<Rightarrow> db \<Rightarrow> (run_error + bool) \<times> db" where
  "refresh_one batch_size failure run_id new_id client other p d =
     (let (result, h, published, d') =
        recorded_run run_id (refresh_label p) None None (refresh_body batch_size failure new_id client other p) d
      in (result, d'))"

section \<open>Accounting\<close>

definition requested :: "pass_result \<Rightarrow> nat" where
  "requested r = ps_refreshed r + ps_failed r + ps_refused r + ps_discarded r"

lemma backoff_bounds: "0 < base \<Longrightarrow> 0 < backoff base n \<and> backoff base n \<le> BACKOFF_CAP_SECONDS"
  by (simp add: backoff_def BACKOFF_CAP_SECONDS_def)

lemma request_each_step:
  assumes "request_each refresh base (p # ps) r k s = (Some r', sleeps, s')"
  obtains (answered) kept s1 where "refresh p s = (Inr kept, s1)"
      "request_each refresh base ps (if kept then r\<lparr>ps_refreshed := ps_refreshed r + 1\<rparr>
         else r\<lparr>ps_discarded := ps_discarded r + 1\<rparr>) 0 s1 = (Some r', sleeps, s')"
    | (denied) e s1 where "refresh p s = (Inl e, s1)" "is_permanent e"
      "request_each refresh base ps (r\<lparr>ps_refused := ps_refused r + 1\<rparr>) k s1 = (Some r', sleeps, s')"
    | (stopped) e where "refresh p s = (Inl e, s')" "\<not> is_permanent e" "names_reset e \<or> MAX_CONSECUTIVE_FAILURES \<le> k + 1"
      "r' = r\<lparr>ps_failed := ps_failed r + 1, ps_deferred := ps_deferred r + length ps\<rparr>" "sleeps = []"
    | (failed) e s1 sleeps' where "refresh p s = (Inl e, s1)" "\<not> is_permanent e" "k + 1 < MAX_CONSECUTIVE_FAILURES"
      "request_each refresh base ps (r\<lparr>ps_failed := ps_failed r + 1\<rparr>) (k + 1) s1 = (Some r', sleeps', s')"
      "sleeps = backoff base (k + 1) # sleeps'"
proof -
  obtain res s1 where step: "refresh p s = (res, s1)" by (cases "refresh p s")
  show thesis
  proof (cases res)
    case (Inr kept)
    then show thesis using assms step that(1) by simp
  next
    case (Inl e)
    then have "e \<noteq> Cancelled" using assms step by (cases e) simp_all
    then show thesis
      using assms step Inl that(2-4)
      by (cases e) (auto simp: Let_def not_le split: if_splits prod.splits)
  qed
qed

lemma request_each_account:
  assumes "request_each refresh base ps r k s = (Some r', sleeps, s')" and "0 < base"
  shows "requested r' + ps_deferred r' = requested r + ps_deferred r + length ps
    \<and> ps_behind r' = ps_behind r \<and> ps_skipped r' = ps_skipped r \<and> ps_deferred r \<le> ps_deferred r'
    \<and> (\<forall>x\<in>set sleeps. 0 < x \<and> x \<le> BACKOFF_CAP_SECONDS) \<and> ps_failed r + length sleeps \<le> ps_failed r'"
  using assms(1)
proof (induction ps arbitrary: r k s sleeps)
  case (Cons p ps)
  from Cons.prems show ?case
  proof (cases rule: request_each_step)
    case (answered kept s1)
    then show ?thesis using Cons.IH [OF answered(2)] by (cases kept) (simp_all add: requested_def)
  next
    case (denied e s1)
    then show ?thesis using Cons.IH [OF denied(3)] by (simp add: requested_def)
  next
    case (stopped e)
    then show ?thesis by (simp add: requested_def)
  next
    case (failed e s1 sleeps')
    then show ?thesis using Cons.IH [OF failed(4)] backoff_bounds [OF assms(2)] by (simp add: requested_def)
  qed
qed simp

section \<open>What is planned and taken\<close>

text \<open>How a planned dataset stands in the history.\<close>

definition due_again :: "instant option \<Rightarrow> planned \<Rightarrow> bool" where
  "due_again lastc p \<longleftrightarrow> (\<exists>run. pl_last p = Some run \<and> unproductive run (pl_fetch_start p) \<and>
     \<not> (\<exists>c f. lastc = Some c \<and> r_finished_at run = Some f \<and> c \<le> f))"

definition goes_first :: "planned \<Rightarrow> bool" where
  "goes_first p \<longleftrightarrow> (\<forall>run. pl_last p = Some run \<longrightarrow> \<not> unproductive run (pl_fetch_start p))"

definition planned_from ::
  "run_row list \<Rightarrow> tcal \<Rightarrow> (string \<rightharpoonup> string) \<Rightarrow> catalog_row list \<Rightarrow> planned \<Rightarrow> bool" where
  "planned_from history calendar env rows p \<longleftrightarrow>
     pl_row p \<in> set rows \<and> request_for (pl_row p) calendar env = Inr (Some (pl_body p, pl_fetch_start p)) \<and>
     pl_last p = last_attempt history (pl_row p) (pl_fetch_start p)"

abbreviation planned_id :: "planned \<Rightarrow> uuid" where
  "planned_id p \<equiv> cat_id (pl_row p)"

lemma plan_rows_step:
  assumes "plan_rows history lastc calendar env (row # rows) (productive, again, skipped) = Inr res"
  obtains (skip) "plan_rows history lastc calendar env rows (productive, again, skipped + 1) = Inr res"
    | (first) p where "pl_row p = row" "planned_from history calendar env (row # rows) p" "goes_first p"
      "plan_rows history lastc calendar env rows (productive @ [p], again, skipped) = Inr res"
    | (again) p where "pl_row p = row" "planned_from history calendar env (row # rows) p" "due_again lastc p"
      "plan_rows history lastc calendar env rows (productive, again @ [p], skipped) = Inr res"
proof -
  from assms obtain request where q: "request_for row calendar env = Inr request" by (auto simp: bind_r_Inr_iff)
  show thesis
  proof (cases request)
    case None
    then show thesis using assms q skip by simp
  next
    case (Some b)
    obtain body st where b: "b = (body, st)" by (cases b)
    define p where "p = \<lparr>pl_row = row, pl_body = body, pl_fetch_start = st, pl_last = last_attempt history row st\<rparr>"
    have p: "pl_row p = row" "planned_from history calendar env (row # rows) p"
      using q Some b by (simp_all add: planned_from_def p_def)
    consider "goes_first p" | "due_again lastc p" "\<not> goes_first p" | "\<not> goes_first p" "\<not> due_again lastc p" by blast
    then show thesis
    proof cases
      case 1
      with assms q Some b have "plan_rows history lastc calendar env rows (productive @ [p], again, skipped) = Inr res"
        by (auto simp: goes_first_def p_def Let_def split: option.splits)
      then show thesis by (rule first [OF p 1])
    next
      case 2
      with assms q Some b have "plan_rows history lastc calendar env rows (productive, again @ [p], skipped) = Inr res"
        by (auto simp: goes_first_def due_again_def p_def Let_def split: option.splits if_splits)
      then show thesis by (rule again [OF p 2(1)])
    next
      case 3
      with assms q Some b have "plan_rows history lastc calendar env rows (productive, again, skipped + 1) = Inr res"
        by (auto simp: goes_first_def due_again_def p_def Let_def split: option.splits if_splits)
      then show thesis by (rule skip)
    qed
  qed
qed

lemma planned_from_mono: "planned_from history calendar env rows p \<Longrightarrow> planned_from history calendar env (row # rows) p"
  by (simp add: planned_from_def)

lemma plan_rows_spec:
  assumes "plan_rows history lastc calendar env rows (productive, again, skipped) = Inr (productive', again', skipped')"
  shows "length productive' + length again' + skipped' = length productive + length again + skipped + length rows
    \<and> (\<forall>p\<in>set productive' - set productive. goes_first p \<and> planned_from history calendar env rows p)
    \<and> (\<forall>p\<in>set again' - set again. due_again lastc p \<and> planned_from history calendar env rows p)"
  using assms
proof (induction rows arbitrary: productive again skipped)
  case (Cons row rows)
  from Cons.prems show ?case
  proof (cases rule: plan_rows_step)
    case skip
    then show ?thesis using Cons.IH by (fastforce intro: planned_from_mono)
  next
    case (first p)
    then show ?thesis using Cons.IH [OF first(4)] by (auto intro: planned_from_mono)
  next
    case (again p)
    then show ?thesis using Cons.IH [OF again(4)] by (auto intro: planned_from_mono)
  qed
qed simp

lemma plan_rows_distinct:
  assumes "plan_rows history lastc calendar env rows (productive, again, skipped) = Inr (productive', again', skipped')"
    and "distinct (map planned_id productive @ map planned_id again @ map cat_id rows)"
  shows "distinct (map planned_id productive' @ map planned_id again')"
  using assms
proof (induction rows arbitrary: productive again skipped)
  case (Cons row rows)
  from Cons.prems(1) show ?case
  proof (cases rule: plan_rows_step)
    case skip
    then show ?thesis using Cons.IH [OF skip] Cons.prems(2) by auto
  next
    case (first p)
    then show ?thesis using Cons.IH [OF first(4)] Cons.prems(2) by auto
  next
    case (again p)
    then show ?thesis using Cons.IH [OF again(4)] Cons.prems(2) by auto
  qed
qed simp

lemma take_min_length: "take n xs = take (min (length xs) n) xs"
  by (simp add: min_def)

lemma take_batch_split:
  obtains k m where "take_batch (productive, again) cap = take k productive @ take m again"
    "k = min (length productive) (cap - min (length again) (cap div 2))" "m = min (length again) (cap - k)"
proof
  let ?n = "cap - min (length again) (cap div 2)"
  have "take_batch (productive, again) cap = take ?n productive @ take (cap - length (take ?n productive)) again"
    by (simp only: take_batch_def Let_def prod.case)
  then show "take_batch (productive, again) cap =
      take (min (length productive) ?n) productive @ take (min (length again) (cap - min (length productive) ?n)) again"
    by (simp only: length_take take_min_length [symmetric])
qed (rule refl)+

lemma batch_length: "length (take_batch (productive, again) cap) = min cap (length productive + length again)"
proof -
  obtain k m where b: "take_batch (productive, again) cap = take k productive @ take m again"
    and k: "k = min (length productive) (cap - min (length again) (cap div 2))" and m: "m = min (length again) (cap - k)"
    by (rule take_batch_split)
  have "cap div 2 \<le> cap" by simp
  then have "k + m = min cap (length productive + length again)" using k m by linarith
  moreover have "k \<le> length productive" "m \<le> length again" unfolding k m by (rule min.cobounded1)+
  ultimately show ?thesis using b by simp
qed

text \<open>The batch of a pass is fair: it holds as many datasets as the cap allows, the first of each class in
  its order; when both classes wait, neither is left out; and what came back empty or refused last time
  fills more than half the cap only where the others leave room.\<close>

theorem batch_is_fair:
  assumes "batch = take_batch (productive, again) cap"
  shows "length batch = min cap (length productive + length again)
    \<and> (\<exists>k m. batch = take k productive @ take m again \<and> k \<le> length productive \<and> m \<le> length again
        \<and> (productive \<noteq> [] \<and> 0 < cap \<longrightarrow> 0 < k) \<and> (again \<noteq> [] \<and> 1 < cap \<longrightarrow> 0 < m)
        \<and> (cap \<le> length productive \<longrightarrow> m \<le> cap div 2))"
proof -
  obtain k m where b: "take_batch (productive, again) cap = take k productive @ take m again"
    and k: "k = min (length productive) (cap - min (length again) (cap div 2))" and m: "m = min (length again) (cap - k)"
    by (rule take_batch_split)
  have le: "k \<le> length productive" "m \<le> length again" unfolding k m by (rule min.cobounded1)+
  have half: "cap div 2 \<le> cap" by simp
  have len: "length batch = min cap (length productive + length again)" unfolding assms by (rule batch_length)
  have "0 < k" if "productive \<noteq> []" "0 < cap"
  proof -
    have "0 < length productive" "cap div 2 < cap" using that by simp_all
    then show ?thesis using k by linarith
  qed
  moreover have "0 < m" if "again \<noteq> []" "1 < cap"
  proof -
    have "0 < length again" "0 < cap div 2" using that by simp_all
    then show ?thesis using k m half by linarith
  qed
  moreover have "m \<le> cap div 2" if "cap \<le> length productive" using k m half that by linarith
  ultimately show ?thesis using assms b le len by blast
qed

section \<open>The pass\<close>

lemma filter_r_InrD: "filter_r f xs = Inr ys \<Longrightarrow> ys = filter (\<lambda>x. f x = Inr True) xs"
proof (induction xs arbitrary: ys)
  case (Cons x xs)
  then obtain b zs where "f x = Inr b" "filter_r f xs = Inr zs" "ys = (if b then x # zs else zs)"
    by (auto simp: bind_r_Inr_iff)
  then show ?case using Cons.IH by simp
qed simp

lemma distinct_sort_key: "distinct (map f (sort_key g xs)) \<longleftrightarrow> distinct (map f xs)"
  by (simp add: distinct_map)

lemma behind_spec:
  assumes "behind rows running calendar env now = Inr owed"
  shows "set owed = {row \<in> set rows. owes running calendar env now row = Inr True}"
    and "distinct (map cat_id rows) \<Longrightarrow> distinct (map cat_id owed)"
proof -
  let ?f = "filter (\<lambda>row. owes running calendar env now row = Inr True) rows"
  have owed: "owed = sort_key (\<lambda>row. (newest_or_start row, cat_id row)) ?f"
    using assms by (auto simp: behind_def bind_r_Inr_iff dest: filter_r_InrD)
  then show "set owed = {row \<in> set rows. owes running calendar env now row = Inr True}" by auto
  assume "distinct (map cat_id rows)"
  then have "distinct (map cat_id ?f)" by (rule distinct_map_filter)
  then show "distinct (map cat_id owed)" unfolding owed by (simp only: distinct_sort_key)
qed

lemma catalog_ids_distinct:
  assumes "db_ok d"
  shows "distinct (map cat_id (list_catalog cf d))"
proof -
  have "distinct (map e_id (filter (catalog_filter_matches cf) (entries d)))"
    using db_ok_entries [OF assms] by (intro distinct_map_filter) (simp add: entries_ok_def)
  moreover have "cat_id \<circ> row_with_bars d = e_id" by (intro ext) (simp add: row_with_bars_def catalog_row_of_def)
  ultimately show ?thesis unfolding list_catalog_def distinct_sort_key by (simp only: map_map)
qed

lemma plan_pass_spec:
  assumes "plan_pass env source calendar now d = Inr (owed, (productive, again), skipped)"
  obtains history lastc productive' again' where
    "behind (list_catalog \<lparr>cf_prefix = None, cf_source = Some source, cf_update_type = Some DAILY\<rparr> d)
       (running_dataset_ids d) calendar env now = Inr owed"
    "plan_rows history lastc calendar env owed ([], [], 0) = Inr (productive', again', skipped)"
    "productive = sort_key order productive'" "again = sort_key order again'"
    "history = finished_scheduled_runs source (now - ATTEMPT_LOOKBACK) d" "last_close calendar now = Inr lastc"
  using assms by (auto simp: plan_pass_def plan_def Let_def bind_r_Inr_iff)

lemma plan_pass_length:
  assumes "plan_pass env source calendar now d = Inr (owed, (productive, again), skipped)"
  shows "length productive + length again + skipped = length owed"
proof -
  obtain history lastc productive' again' where
    p: "plan_rows history lastc calendar env owed ([], [], 0) = Inr (productive', again', skipped)"
    "productive = sort_key order productive'" "again = sort_key order again'"
    using assms by (rule plan_pass_spec)
  then show ?thesis using plan_rows_spec [OF p(1)] by simp
qed

lemma max_per_pass_pos: "0 < max_per_pass env" "0 < backoff_base_seconds env"
  by (simp_all add: max_per_pass_def backoff_base_seconds_def positive_int_env_def Let_def split: option.split)

text \<open>A pass accounts for every dataset that is behind, whatever the fetches answer: each is exactly one of
  refreshed, failed, refused, discarded, skipped and deferred, and never more than the configured
  maximum are requested. Each wait is positive and at most ten minutes, and follows a transient failure.\<close>

theorem refresh_pass_accounts:
  assumes "run_refresh_pass refresh tables_exist env source calendar now d = (Inr r, sleeps, d')"
  shows "ps_refreshed r + ps_failed r + ps_refused r + ps_discarded r + ps_skipped r + ps_deferred r = ps_behind r
    \<and> int (ps_refreshed r + ps_failed r + ps_refused r + ps_discarded r) \<le> max_per_pass env
    \<and> (\<forall>x\<in>set sleeps. 0 < x \<and> x \<le> 600) \<and> length sleeps \<le> ps_failed r"
proof (cases tables_exist)
  case False
  then show ?thesis using assms max_per_pass_pos [of env] by (auto simp: run_refresh_pass_def nothing_done_def)
next
  case True
  then obtain owed productive again skipped where
    plan: "plan_pass env source calendar now d = Inr (owed, (productive, again), skipped)"
    and loop: "request_each refresh (backoff_base_seconds env) (take_batch (productive, again) (nat (max_per_pass env)))
      (nothing_done\<lparr>ps_behind := length owed,
         ps_deferred := length productive + length again - length (take_batch (productive, again) (nat (max_per_pass env))),
         ps_skipped := skipped\<rparr>) 0 d = (Some r, sleeps, d')"
    using assms by (auto simp: run_refresh_pass_def Let_def split: sum.splits prod.splits option.splits)
  let ?batch = "take_batch (productive, again) (nat (max_per_pass env))"
  have len: "length ?batch \<le> length productive + length again" "length ?batch \<le> nat (max_per_pass env)"
    by (simp_all add: batch_length)
  note acc = request_each_account [OF loop max_per_pass_pos(2)]
  have "requested r + ps_deferred r = length productive + length again"
    "length productive + length again - length ?batch \<le> ps_deferred r"
    using acc len(1) by (simp_all add: requested_def nothing_done_def)
  then have "requested r \<le> nat (max_per_pass env)" using len by linarith
  then have "int (requested r) \<le> max_per_pass env" using max_per_pass_pos(1) [of env] by linarith
  then show ?thesis
    using acc plan_pass_length [OF plan] len by (simp add: requested_def nothing_done_def BACKOFF_CAP_SECONDS_def)
qed

text \<open>C8. A pass asks only for what it may: every dataset of its batch is a DAILY dataset of the source, not
  retired, without a running ingest and judged late or overdue at the pass's instant; its request is
  valid, starts at the missing tail, asks for the feed the stored entry has, keeps its expiry and leaves its collection
  switch alone; and no dataset is asked for twice. The entry that the request makes on an acknowledgement names the stored
  row, so that the write finds it and never makes a second one, exactly when the stored symbol is in upper case, which
  is how \<open>POST /store\<close> stores every symbol: a row stored in another case would be asked for under a key that is not its own.\<close>

theorem refresh_requests_only_owed:
  assumes "db_ok d" and "plan_pass env source calendar now d = Inr (owed, due, skipped)"
  shows "distinct (map planned_id (take_batch due cap))
    \<and> (\<forall>p\<in>set (take_batch due cap). \<exists>e\<in>set (entries d).
         pl_row p = row_with_bars d e \<and> e_source e = source \<and> e_update_type e = DAILY \<and> e_collect e \<noteq> Some False
       \<and> \<not> dataset_has_running_run d (e_id e)
       \<and> (\<exists>h. row_health (pl_row p) calendar env now = Inr h \<and> h_status h \<in> {LATE, OVERDUE})
       \<and> body_valid (pl_body p) \<and> fetch_start (pl_row p) calendar env = Inr (pl_fetch_start p)
       \<and> sb_feed (pl_body p) = Some (e_feed e) \<and> sb_expiry (pl_body p) = e_expiry e \<and> sb_collect (pl_body p) = None
       \<and> (names_row (entry_on_ack (sb_key (pl_body p)) (sb_expiry (pl_body p)) (the (sb_feed (pl_body p)))) e
          \<longleftrightarrow> upper (e_symbol e) = e_symbol e))"
proof -
  obtain productive again where due: "due = (productive, again)" by (cases due)
  let ?rows = "list_catalog \<lparr>cf_prefix = None, cf_source = Some source, cf_update_type = Some DAILY\<rparr> d"
  obtain history lastc productive' again' where
    owed: "behind ?rows (running_dataset_ids d) calendar env now = Inr owed"
    and rows: "plan_rows history lastc calendar env owed ([], [], 0) = Inr (productive', again', skipped)"
    and sorts: "productive = sort_key order productive'" "again = sort_key order again'"
    using assms(2) unfolding due by (rule plan_pass_spec)
  have ids: "distinct (map cat_id owed)" using behind_spec(2) [OF owed catalog_ids_distinct [OF assms(1)]] .
  have "distinct (map planned_id productive' @ map planned_id again')"
    using plan_rows_distinct [OF rows] ids by simp
  then have dist: "distinct (map planned_id productive @ map planned_id again)"
    unfolding sorts distinct_append distinct_sort_key by (simp add: image_image)
  obtain k m where b: "take_batch due cap = take k productive @ take m again"
    using take_batch_split [of productive again cap] due by metis
  have "distinct (map planned_id (take_batch due cap))"
    using dist unfolding b by (auto simp: take_map [symmetric] dest!: in_set_takeD intro!: distinct_take)
  moreover have "\<exists>e\<in>set (entries d). pl_row p = row_with_bars d e \<and> e_source e = source \<and> e_update_type e = DAILY
       \<and> e_collect e \<noteq> Some False \<and> \<not> dataset_has_running_run d (e_id e)
       \<and> (\<exists>h. row_health (pl_row p) calendar env now = Inr h \<and> h_status h \<in> {LATE, OVERDUE})
       \<and> body_valid (pl_body p) \<and> fetch_start (pl_row p) calendar env = Inr (pl_fetch_start p)
       \<and> sb_feed (pl_body p) = Some (e_feed e) \<and> sb_expiry (pl_body p) = e_expiry e \<and> sb_collect (pl_body p) = None
       \<and> (names_row (entry_on_ack (sb_key (pl_body p)) (sb_expiry (pl_body p)) (the (sb_feed (pl_body p)))) e
          \<longleftrightarrow> upper (e_symbol e) = e_symbol e)"
    if "p \<in> set (take_batch due cap)" for p
  proof -
    have "p \<in> set productive' \<union> set again'" using that unfolding b sorts by (auto dest!: in_set_takeD)
    then have p: "planned_from history calendar env owed p" using plan_rows_spec [OF rows] by auto
    then have row: "pl_row p \<in> set ?rows" "owes (running_dataset_ids d) calendar env now (pl_row p) = Inr True"
      using behind_spec(1) [OF owed] by (auto simp: planned_from_def)
    from row(1) obtain e where e: "e \<in> set (entries d)" "e_source e = source" "e_update_type e = DAILY" "pl_row p = row_with_bars d e"
      by (auto simp: list_catalog_def catalog_filter_matches_def filters_def)
    have f: "cat_id (pl_row p) = e_id e" "cat_update_type (pl_row p) = DAILY" "cat_collect (pl_row p) = e_collect e"
      by (simp_all add: e row_with_bars_def catalog_row_of_def)
    have req: "fetch_start (pl_row p) calendar env = Inr (pl_fetch_start p)" "pl_body p = body_for (pl_row p)"
      "body_valid (pl_body p)"
      using p by (auto simp: planned_from_def request_for_def bind_r_Inr_iff split: if_splits)
    have feed: "sb_feed (pl_body p) = Some (e_feed e)" "sb_expiry (pl_body p) = e_expiry e" "sb_collect (pl_body p) = None"
      by (simp_all add: req(2) e(4) body_for_def row_with_bars_def catalog_row_of_def)
    moreover have "names_row (entry_on_ack (sb_key (pl_body p)) (sb_expiry (pl_body p)) (the (sb_feed (pl_body p)))) e
        \<longleftrightarrow> upper (e_symbol e) = e_symbol e"
      by (auto simp: feed) (simp_all add: req(2) e(4) body_for_def row_with_bars_def catalog_row_of_def names_row_def overlap_equal_def
          entry_on_ack_def extend_key_def overlap_key.defs entry_create.defs to_model_type_def)
    moreover have "\<not> is_retired (pl_row p)" "e_id e \<notin> running_dataset_ids d"
      "\<exists>h. row_health (pl_row p) calendar env now = Inr h \<and> h_status h \<in> {LATE, OVERDUE}"
      using row(2) f(1) by (auto simp: owes_def split: if_splits sum.splits cal_error.splits)
    ultimately show ?thesis using e f req by (auto simp: is_retired_def running_iff intro!: bexI [of _ e])
  qed
  ultimately show ?thesis by blast
qed

section \<open>A peer that is down\<close>

lemma request_each_failing:
  assumes "\<And>p s. \<exists>e s'. refresh p s = (Inl e, s') \<and> \<not> is_permanent e"
    and "request_each refresh base ps r k s = (Some r', sleeps, s')" and "k < MAX_CONSECUTIVE_FAILURES"
  shows "ps_refreshed r' = ps_refreshed r \<and> ps_discarded r' = ps_discarded r \<and> ps_refused r' = ps_refused r
    \<and> ps_failed r' + k \<le> ps_failed r + MAX_CONSECUTIVE_FAILURES"
  using assms(2,3)
proof (induction ps arbitrary: r k s sleeps)
  case (Cons p ps)
  from Cons.prems(1) show ?case
  proof (cases rule: request_each_step)
    case (answered kept s1)
    then show ?thesis using assms(1) [of p s] by simp
  next
    case (denied e s1)
    then show ?thesis using assms(1) [of p s] by simp
  next
    case (stopped e)
    then show ?thesis using Cons.prems(2) by simp
  next
    case (failed e s1 sleeps')
    then show ?thesis using Cons.IH [OF failed(4)] by simp
  qed
qed simp

text \<open>A peer or vendor that is down cannot be hammered: when every fetch fails in a way that could pass, a
  pass makes at most three requests, however many datasets are behind and however high the cap, and
  everything it did not request waits for the next pass.\<close>

theorem dead_peer_stops_the_pass:
  assumes "\<And>p s. \<exists>e s'. refresh p s = (Inl e, s') \<and> \<not> is_permanent e"
    and "run_refresh_pass refresh tables_exist env source calendar now d = (Inr r, sleeps, d')"
  shows "ps_failed r \<le> 3 \<and> ps_refreshed r = 0 \<and> ps_refused r = 0 \<and> ps_discarded r = 0 \<and> length sleeps \<le> 3
    \<and> ps_behind r = ps_failed r + ps_skipped r + ps_deferred r"
proof (cases tables_exist)
  case True
  then obtain owed productive again skipped where
    plan: "plan_pass env source calendar now d = Inr (owed, (productive, again), skipped)"
    and loop: "request_each refresh (backoff_base_seconds env) (take_batch (productive, again) (nat (max_per_pass env)))
      (nothing_done\<lparr>ps_behind := length owed,
         ps_deferred := length productive + length again - length (take_batch (productive, again) (nat (max_per_pass env))),
         ps_skipped := skipped\<rparr>) 0 d = (Some r, sleeps, d')"
    using assms(2) by (auto simp: run_refresh_pass_def Let_def split: sum.splits prod.splits option.splits)
  have len: "length (take_batch (productive, again) (nat (max_per_pass env))) \<le> length productive + length again"
    by (simp add: batch_length)
  show ?thesis
    using request_each_failing [OF assms(1) loop] request_each_account [OF loop max_per_pass_pos(2)] plan_pass_length [OF plan] len
    by (simp add: MAX_CONSECUTIVE_FAILURES_def nothing_done_def requested_def)
qed (use assms(2) in \<open>auto simp: run_refresh_pass_def nothing_done_def\<close>)

section \<open>The pass and the store\<close>

text \<open>What a refresh may not touch: every column of every entry but its update time.\<close>

definition entry_face :: "db \<Rightarrow> entry list" where
  "entry_face d = map (\<lambda>e. e\<lparr>e_updated_at := 0\<rparr>) (entries d)"

lemma record_write_entries:
  assumes "\<And>i. entries (snd (op i d)) = entries d"
  shows "entries (snd (snd (record_write h op d))) = entries d"
  using assms by (auto simp: record_write_def split: option.splits prod.splits sum.splits) (metis snd_conv)+

lemma update_run_entries: "entries (snd (write_transaction fault d (update_run i f d))) = entries d"
  by (auto simp: write_transaction_def update_run_def split: option.splits)

lemma handle_entries:
  "entries (snd (snd (handle_succeed n fault h d))) = entries d"
  "entries (snd (snd (handle_fail e fault h d))) = entries d"
  "entries (snd (begin_run i run fault d)) = entries d"
proof -
  have fin: "entries (snd (finish_run i st n failure fault d)) = entries d" for i st n failure fault
    unfolding finish_run_def by (rule update_run_entries)
  show "entries (snd (snd (handle_succeed n fault h d))) = entries d"
    unfolding handle_succeed_def by (rule record_write_entries) (rule fin)
  show "entries (snd (snd (handle_fail e fault h d))) = entries d"
    unfolding handle_fail_def by (rule record_write_entries) (rule fin)
  show "entries (snd (begin_run i run fault d)) = entries d"
    by (auto simp: begin_run_def split: prod.split sum.split dest: start_run_done)
qed

lemma recorded_entries:
  assumes "\<And>h d. entry_face (snd (snd (snd (body h d)))) = entry_face d"
  shows "entry_face (snd (snd (snd (recorded_run i run start_fault fail_fault body d)))) = entry_face d"
proof -
  obtain rec d1 where b: "begin_run i run start_fault d = (rec, d1)" by fastforce
  obtain res h ev d2 where o: "body \<lparr>h_record = rec, h_dataset_id = None\<rparr> d1 = (res, h, ev, d2)" by (metis prod.collapse)
  have "entry_face d1 = entry_face d" using handle_entries(3) [of i run start_fault d] b by (simp add: entry_face_def)
  moreover have "entry_face d2 = entry_face d1" using assms [of "\<lparr>h_record = rec, h_dataset_id = None\<rparr>" d1] o by simp
  moreover have "entry_face (snd (snd (handle_fail e fail_fault h d2))) = entry_face d2" for e
    by (simp add: entry_face_def handle_entries)
  ultimately show ?thesis using b o by (auto simp: recorded_run_def case_prod_beta Let_def split: sum.split)
qed

lemma refresh_body_entries: "entry_face (snd (snd (snd (refresh_body batch_size failure new_id client id p h d)))) = entry_face d"
proof -
  let ?w = "refresh_worker batch_size p new_id (\<lambda>i f d. snd (snd (handle_acknowledge i f None h d)))"
  have hook: "reports_only (w_on_ack ?w)" "w_preserve ?w"
    by (simp_all add: refresh_worker_def acknowledge_reports_only)
  obtain res d1 where w: "store_market_activity_worker ?w client (Some (pl_fetch_start p)) id None d = (res, d1)"
    by fastforce
  have "entry_face d1 = entry_face d"
    using worker_failed [OF hook(1)] worker_preserves [OF hook] w by (cases res) (fastforce simp: entry_face_def)+
  then show ?thesis
    by (simp add: refresh_body_def w entry_face_def handle_entries case_prod_beta split: sum.split store_error.split)
qed

lemma refresh_one_entries: "entry_face (snd (refresh_one batch_size failure run_id new_id client id p d)) = entry_face d"
  using recorded_entries [OF refresh_body_entries] by (simp add: refresh_one_def case_prod_beta)

lemma request_each_keeps:
  assumes "\<And>p s. P (snd (refresh p s)) \<longleftrightarrow> P s"
  shows "P (snd (snd (request_each refresh base ps r k s))) \<longleftrightarrow> P s"
proof (induction ps arbitrary: r k s)
  case (Cons p ps)
  obtain res s1 where step: "refresh p s = (res, s1)" by (cases "refresh p s")
  then have s1: "P s1 \<longleftrightarrow> P s" using assms [of p s] by simp
  show ?case
  proof (cases res)
    case (Inr kept)
    then show ?thesis by (simp add: step Cons.IH s1)
  next
    case (Inl e)
    then show ?thesis by (cases e) (simp_all add: step Cons.IH s1 Let_def case_prod_beta)
  qed
qed simp

text \<open>A refresh pass never creates, removes, renames or retires a dataset, and never touches its range,
  expiry, type or collect intent: with no other writer, every entry is afterwards what it was, up to its
  update time, whatever the peer answers and however the pass ends.\<close>

theorem refresh_pass_keeps_entries:
  "map (\<lambda>e. e\<lparr>e_updated_at := 0\<rparr>) (entries (snd (snd (run_refresh_pass
      (\<lambda>p. refresh_one batch_size failure (run_id p) (new_id p) client id p) tables_exist env source calendar now d)))) =
   map (\<lambda>e. e\<lparr>e_updated_at := 0\<rparr>) (entries d)"
proof -
  let ?refresh = "\<lambda>p. refresh_one batch_size failure (run_id p) (new_id p) client id p"
  have loop: "entry_face (snd (snd (request_each ?refresh base ps r k d))) = entry_face d" for base ps r k
    by (subst request_each_keeps [where P = "\<lambda>x. entry_face x = entry_face d"]) (simp_all add: refresh_one_entries)
  have "entry_face (snd (snd (run_refresh_pass ?refresh tables_exist env source calendar now d))) = entry_face d"
  proof (cases "tables_exist \<and> (\<exists>plan. plan_pass env source calendar now d = Inr plan)")
    case True
    then obtain owed due skipped where "plan_pass env source calendar now d = Inr (owed, due, skipped)"
      by (metis prod_cases3)
    then show ?thesis
      using True loop by (simp add: run_refresh_pass_def Let_def case_prod_beta split: option.split)
  next
    case False
    then show ?thesis by (cases "plan_pass env source calendar now d") (auto simp: run_refresh_pass_def)
  qed
  then show ?thesis by (simp only: entry_face_def)
qed

section \<open>Witnesses\<close>

text \<open>One subscription without bars, started on a Monday, seen on the Wednesday before the opening.\<close>

definition daily_key :: overlap_key where
  "daily_key = sample_key\<lparr>k_expiry_type := ROLLING, k_start := day_at 739439 4 0, k_end := None\<rparr>"

definition daily_db :: db where
  "daily_db = empty_db\<lparr>entries := [row_of_create 3 50 None (extend_key daily_key None IEX)]\<rparr>"

abbreviation plan_sample :: "cal_error + (catalog_row list \<times> (planned list \<times> planned list) \<times> nat)" where
  "plan_sample \<equiv> plan_pass (\<lambda>_. None) ALPACA_API (adapter_calendar sample_adapter) (day_at 739441 14 0) daily_db"

lemma daily_db_ok: "db_ok daily_db"
  by code_simp

lemma sample_plan:
  "map_sum id (\<lambda>(owed, due, n). (map cat_id owed, map planned_id (fst due), snd due, n, map pl_fetch_start (fst due))) plan_sample =
     Inr ([3], [3], [], 0, [day_at 739439 4 0])"
  by code_simp

lemma sample_plan_obtain:
  obtains owed p where "plan_sample = Inr (owed, ([p], []), 0)" "length owed = 1" "planned_id p = 3" "pl_fetch_start p = day_at 739439 4 0"
proof (cases plan_sample)
  case (Inl e)
  then show thesis using sample_plan by simp
next
  case (Inr x)
  obtain owed ps qs n where "x = (owed, (ps, qs), n)" by (metis prod.collapse)
  then show thesis using that [of owed "hd ps"] sample_plan Inr by (auto simp: map_eq_Cons_conv)
qed

definition sample_planned :: "uuid \<Rightarrow> planned" where
  "sample_planned i =
     (let row = row_with_bars daily_db (row_of_create i 50 None (extend_key daily_key None IEX))
      in \<lparr>pl_row = row, pl_body = body_for row, pl_fetch_start = cat_start row, pl_last = None\<rparr>)"

theorem batch_is_fair_witness:
  "length (take_batch (map sample_planned [1, 2, 3], map sample_planned [4, 5, 6, 7]) 4) = 4"
  using batch_is_fair [OF refl, of "map sample_planned [1, 2, 3]" "map sample_planned [4, 5, 6, 7]" 4] by simp

text \<open>A fetch that fails untyped: one transient failure and one wait of the default half minute.\<close>

theorem refresh_pass_accounts_witness:
  "\<exists>r d'. run_refresh_pass (\<lambda>p d. (Inl Untyped, d)) True (\<lambda>_. None) ALPACA_API (adapter_calendar sample_adapter)
      (day_at 739441 14 0) daily_db = (Inr r, [30], d') \<and> ps_behind r = 1 \<and> ps_failed r = 1 \<and> ps_refreshed r = 0"
proof -
  obtain owed p where p: "plan_sample = Inr (owed, ([p], []), 0)" "length owed = 1" by (rule sample_plan_obtain)
  have caps: "max_per_pass (\<lambda>_. None) = 10" "backoff_base_seconds (\<lambda>_. None) = 30" by code_simp+
  let ?r = "nothing_done\<lparr>ps_behind := 1, ps_failed := 1\<rparr>"
  have "take_batch ([p], []) 10 = [p]" by (simp add: take_batch_def)
  then have r: "run_refresh_pass (\<lambda>p d. (Inl Untyped, d)) True (\<lambda>_. None) ALPACA_API (adapter_calendar sample_adapter)
      (day_at 739441 14 0) daily_db = (Inr ?r, [30], daily_db)"
    using p caps
    by (simp add: run_refresh_pass_def MAX_CONSECUTIVE_FAILURES_def backoff_def BACKOFF_CAP_SECONDS_def nothing_done_def)
  from refresh_pass_accounts [OF r] have "ps_refreshed ?r = 0" by (simp add: nothing_done_def)
  then show ?thesis using r by (auto simp: nothing_done_def)
qed

theorem refresh_requests_only_owed_witness:
  "\<exists>owed p e. plan_sample = Inr (owed, ([p], []), 0) \<and> e \<in> set (entries daily_db) \<and> pl_row p = row_with_bars daily_db e \<and>
     sb_feed (pl_body p) = Some (e_feed e) \<and>
     names_row (entry_on_ack (sb_key (pl_body p)) (sb_expiry (pl_body p)) (the (sb_feed (pl_body p)))) e"
proof -
  obtain owed p where p: "plan_sample = Inr (owed, ([p], []), 0)" by (rule sample_plan_obtain)
  have "upper (e_symbol e) = e_symbol e" if "e \<in> set (entries daily_db)" for e
  proof -
    have "upper ''AAPL'' = ''AAPL''" by code_simp
    then show ?thesis using that
      by (simp add: daily_db_def row_of_create_def extend_key_def daily_key_def sample_key_def overlap_key.defs entry_create.defs)
  qed
  moreover have "take_batch ([p], []) 1 = [p]" by (simp add: take_batch_def)
  ultimately show ?thesis using refresh_requests_only_owed [OF daily_db_ok p, of 1] p by fastforce
qed

theorem dead_peer_stops_the_pass_witness:
  "\<exists>r d'. run_refresh_pass (\<lambda>p d. (Inl Untyped, d)) True (\<lambda>_. None) ALPACA_API (adapter_calendar sample_adapter)
      (day_at 739441 14 0) daily_db = (Inr r, [30], d') \<and> ps_failed r \<le> 3 \<and> ps_behind r = ps_failed r + ps_skipped r + ps_deferred r"
proof -
  obtain owed p where p: "plan_sample = Inr (owed, ([p], []), 0)" "length owed = 1" by (rule sample_plan_obtain)
  have caps: "max_per_pass (\<lambda>_. None) = 10" "backoff_base_seconds (\<lambda>_. None) = 30" by code_simp+
  let ?r = "nothing_done\<lparr>ps_behind := 1, ps_failed := 1\<rparr>"
  have "take_batch ([p], []) 10 = [p]" by (simp add: take_batch_def)
  then have r: "run_refresh_pass (\<lambda>p d. (Inl Untyped, d)) True (\<lambda>_. None) ALPACA_API (adapter_calendar sample_adapter)
      (day_at 739441 14 0) daily_db = (Inr ?r, [30], daily_db)"
    using p caps
    by (simp add: run_refresh_pass_def MAX_CONSECUTIVE_FAILURES_def backoff_def BACKOFF_CAP_SECONDS_def nothing_done_def)
  from dead_peer_stops_the_pass [OF _ r] have "ps_failed ?r \<le> 3 \<and> ps_behind ?r = ps_failed ?r + ps_skipped ?r + ps_deferred ?r" by simp
  then show ?thesis using r by blast
qed

section \<open>What the request key leaves out\<close>

text \<open>
  A run that failed before its acknowledgement is matched on symbol, types, granularity and start, not on
  the tape or the owner: a tape ingest cannot serve, refused for one dataset, makes the pass skip another
  dataset of the same symbol on a tape that it can serve, when that one has no run of its own.
\<close>

lemma refused_tape_skips_other_tape:
  assumes "r_dataset run = None" and "request_key_of_run run = request_key_of_row row s"
    and "r_state run = FAILED" and "r_error_domain run = Some ERROR_DOMAIN"
    and "r_error_reason run = Some (reason_name FEED_NOT_AVAILABLE)" and "r_finished_at run = Some f" and "c \<le> f"
    and other: "other = row\<lparr>cat_id := j, cat_feed := tape, cat_owner := owner\<rparr>"
    and "request_for other calendar env = Inr (Some (body, s))"
  shows "plan_rows [run] (Some c) calendar env [other] ([], [], 0) = Inr ([], [], 1)"
proof -
  have "request_key_of_row other s = request_key_of_row row s" by (simp add: other request_key_of_row_def)
  then have "last_attempt [run] other s = Some run"
    using assms(1,2) by (simp add: last_attempt_def by_dataset_def by_request_def)
  moreover have "reason_name FEED_NOT_AVAILABLE \<in> set PERMANENT_REASONS" by code_simp
  moreover have "n_start (r_label run) = Some s"
    using assms(2) by (simp add: request_key_of_run_def request_key_of_row_def Let_def)
  ultimately show ?thesis using assms by (simp add: unproductive_def Let_def)
qed

end
