(* ===== verification/Usage_Reads.thy ===== *)
theory Usage_Reads
  imports Catalog_Reads "HOL-Library.Product_Lexorder"
begin

text \<open>
  The consumption record: \<open>server/data/store/app/client_label.py\<close>, the tables \<open>dataset_read\<close> and
  \<open>dataset_read_daily\<close>, and their repository \<open>database/crud/dataset_read.py\<close>. A row of \<open>dataset_read\<close> is one
  read of a dataset's bars or one stream session; rows past a cutoff are folded into one summary per
  dataset, client and UTC day. Every query unions the two tables. The abstract view is a ledger: for each
  (dataset, client, kind, day) a number of reads and a latest instant. Every query is shown to be a
  function of the ledger, and the fold to keep it.
\<close>

section \<open>Client labels\<close>

datatype read_client_kind = UI | SDK

text \<open>The order of the enum in Postgres, which is the order of its declaration.\<close>

instantiation read_client_kind :: linorder
begin

definition less_eq_read_client_kind :: "read_client_kind \<Rightarrow> read_client_kind \<Rightarrow> bool" where
  "less_eq_read_client_kind a b \<longleftrightarrow> a = UI \<or> b = SDK"

definition less_read_client_kind :: "read_client_kind \<Rightarrow> read_client_kind \<Rightarrow> bool" where
  "less_read_client_kind a b \<longleftrightarrow> a = UI \<and> b = SDK"

instance
  by standard (auto simp: less_eq_read_client_kind_def less_read_client_kind_def intro: read_client_kind.exhaust)

end

record client_label =
  cl_id :: string
  cl_kind :: read_client_kind

definition OPERATOR_PRINCIPAL :: string where "OPERATOR_PRINCIPAL = ''operator''"
definition UNATTRIBUTED :: string where "UNATTRIBUTED = ''_unattributed''"
definition OVERFLOW :: string where "OVERFLOW = ''_overflow''"
definition RESERVED_PREFIX :: string where "RESERVED_PREFIX = ''_''"
definition MAX_CLIENT_ID_LENGTH :: nat where "MAX_CLIENT_ID_LENGTH = 128"

definition UNATTRIBUTED_LABEL :: client_label where
  "UNATTRIBUTED_LABEL = \<lparr>cl_id = UNATTRIBUTED, cl_kind = SDK\<rparr>"

definition has_control_character :: "string \<Rightarrow> bool" where
  "has_control_character value \<longleftrightarrow>
     list_ex (\<lambda>c. (of_char c :: nat) < 32 \<or> 127 \<le> (of_char c :: nat) \<and> (of_char c :: nat) \<le> 159) value"

definition classify_client_label :: "string option \<Rightarrow> client_label" where
  "classify_client_label raw =
     (case raw of
        None \<Rightarrow> UNATTRIBUTED_LABEL
      | Some s \<Rightarrow>
          if s = [] \<or> MAX_CLIENT_ID_LENGTH < length s \<or> has_control_character s \<or> prefix RESERVED_PREFIX s
          then UNATTRIBUTED_LABEL
          else \<lparr>cl_id = s, cl_kind = (if s = OPERATOR_PRINCIPAL then UI else SDK)\<rparr>)"

section \<open>The tables\<close>

datatype dataset_read_kind = READ | STREAM_SESSION

record read_row =
  rd_id :: uuid
  rd_dataset :: uuid
  rd_client :: string
  rd_client_kind :: read_client_kind
  rd_kind :: dataset_read_kind
  rd_route :: string
  rd_bars :: int
  rd_at :: instant
  rd_opened_at :: "instant option"
  rd_closed_at :: "instant option"

record daily_row =
  dy_dataset :: uuid
  dy_client :: string
  dy_client_kind :: read_client_kind
  dy_day :: day
  dy_reads :: nat
  dy_sessions :: nat
  dy_bars :: int
  dy_last_read_at :: instant

record usage_db =
  read_rows :: "read_row list"
  daily_rows :: "daily_row list"
  read_table :: bool
  daily_table :: bool

text \<open>\<open>uq_dataset_read_daily_dataset_id_client_id_day\<close>\<close>

definition daily_key :: "daily_row \<Rightarrow> uuid \<times> string \<times> day" where
  "daily_key y = (dy_dataset y, dy_client y, dy_day y)"

definition usage_tables_exist :: "usage_db \<Rightarrow> bool" where
  "usage_tables_exist u \<longleftrightarrow> read_table u \<and> daily_table u"

datatype clock_error = NaiveNow

abbreviation utc_day :: "instant \<Rightarrow> day" where
  "utc_day t \<equiv> z_date UTC t"

definition window_start_day :: "stamp \<Rightarrow> int \<Rightarrow> clock_error + day" where
  "window_start_day now days =
     (case now of Naive t \<Rightarrow> Inl NaiveNow | Aware t \<Rightarrow> Inr (utc_day (t - days * one_day)))"

section \<open>Writes\<close>

text \<open>
  \<open>write_transaction\<close> around one statement on these tables: the statement's error or the commit's leaves
  them as they were.
\<close>

fun usage_transaction ::
  "sql_error option \<Rightarrow> usage_db \<Rightarrow> sql_error + 'a \<times> usage_db \<Rightarrow> (store_error + 'a) \<times> usage_db" where
  "usage_transaction fault u (Inl e) = (Inl (sql_failure e), u)"
| "usage_transaction None u (Inr (x, u')) = (Inr x, u')"
| "usage_transaction (Some e) u (Inr (x, u')) = (Inl (sql_failure e), u)"

text \<open>An \<open>INSERT\<close> fails when the table is absent or a row's identifier (the primary key) is taken.\<close>

definition UNDEFINED_TABLE :: sql_error where
  "UNDEFINED_TABLE = \<lparr>sql_class = OtherDBAPIError, sqlstate = Some ''42P01'', connection_invalidated = False\<rparr>"

definition UNIQUE_VIOLATION :: sql_error where
  "UNIQUE_VIOLATION = \<lparr>sql_class = IntegrityError, sqlstate = Some ''23505'', connection_invalidated = False\<rparr>"

definition insert_reads :: "sql_error option \<Rightarrow> read_row list \<Rightarrow> usage_db \<Rightarrow> (store_error + nat) \<times> usage_db" where
  "insert_reads fault rows u =
     (if rows = [] then (Inr 0, u)
      else usage_transaction fault u
        (if \<not> read_table u then Inl UNDEFINED_TABLE
         else if \<not> distinct (map rd_id (read_rows u @ rows)) then Inl UNIQUE_VIOLATION
         else Inr (length rows, u\<lparr>read_rows := read_rows u @ rows\<rparr>)))"

definition known_client_ids :: "uuid list \<Rightarrow> instant \<Rightarrow> instant \<Rightarrow> usage_db \<Rightarrow> uuid \<times> day \<Rightarrow> string set" where
  "known_client_ids ids since until u = (\<lambda>(i, d).
     rd_client ` {r \<in> set (read_rows u). rd_dataset r \<in> set ids \<and> since \<le> rd_at r \<and> rd_at r < until
        \<and> rd_dataset r = i \<and> utc_day (rd_at r) = d})"

definition close_session ::
  "sql_error option \<Rightarrow> uuid \<Rightarrow> instant \<Rightarrow> int \<Rightarrow> usage_db \<Rightarrow> (store_error + unit) \<times> usage_db" where
  "close_session fault i closed_at bars_returned u =
     usage_transaction fault u (Inr ((), u\<lparr>read_rows :=
       map (\<lambda>r. if rd_id r = i \<and> rd_kind r = STREAM_SESSION
                then r\<lparr>rd_closed_at := Some closed_at, rd_bars := bars_returned\<rparr> else r) (read_rows u)\<rparr>))"

text \<open>\<open>GROUP BY\<close>: one group per key, with the rows of the key.\<close>

definition grouped :: "('r \<Rightarrow> 'k) \<Rightarrow> 'r list \<Rightarrow> ('k \<times> 'r list) list" where
  "grouped key rs = map (\<lambda>k. (k, filter (\<lambda>r. key r = k) rs)) (from_keys (map key rs))"

abbreviation newest :: "('r \<Rightarrow> instant) \<Rightarrow> 'r list \<Rightarrow> instant" where
  "newest f rs \<equiv> Max (set (map f rs))"

definition read_group :: "read_row \<Rightarrow> uuid \<times> string \<times> read_client_kind \<times> day" where
  "read_group r = (rd_dataset r, rd_client r, rd_client_kind r, utc_day (rd_at r))"

fun daily_of :: "(uuid \<times> string \<times> read_client_kind \<times> day) \<times> read_row list \<Rightarrow> daily_row" where
  "daily_of ((i, c, k, d), rs) =
     \<lparr>dy_dataset = i, dy_client = c, dy_client_kind = k, dy_day = d,
      dy_reads = length (filter (\<lambda>r. rd_kind r = READ) rs),
      dy_sessions = length (filter (\<lambda>r. rd_kind r = STREAM_SESSION) rs),
      dy_bars = sum_list (map rd_bars rs), dy_last_read_at = newest rd_at rs\<rparr>"

definition daily_upd :: "daily_row \<Rightarrow> daily_row \<Rightarrow> daily_row" where
  "daily_upd excluded y =
     y\<lparr>dy_reads := dy_reads y + dy_reads excluded, dy_sessions := dy_sessions y + dy_sessions excluded,
       dy_bars := dy_bars y + dy_bars excluded, dy_last_read_at := max (dy_last_read_at y) (dy_last_read_at excluded)\<rparr>"

text \<open>\<open>ON CONFLICT DO UPDATE\<close> may not meet a row twice in one statement (\<open>cardinality_violation\<close>).\<close>

definition CARDINALITY_VIOLATION :: sql_error where
  "CARDINALITY_VIOLATION = \<lparr>sql_class = OtherDBAPIError, sqlstate = Some ''21000'', connection_invalidated = False\<rparr>"

definition fold_reads_before :: "sql_error option \<Rightarrow> instant \<Rightarrow> usage_db \<Rightarrow> (store_error + nat) \<times> usage_db" where
  "fold_reads_before fault cutoff u =
     (let moved = filter (\<lambda>r. rd_at r < cutoff) (read_rows u);
          aggregate = map daily_of (grouped read_group moved)
      in usage_transaction fault u
           (if \<not> distinct (map daily_key aggregate) then Inl CARDINALITY_VIOLATION
            else Inr (length aggregate,
                   u\<lparr>read_rows := filter (\<lambda>r. \<not> rd_at r < cutoff) (read_rows u),
                     daily_rows := fold (\<lambda>y. upsert_row daily_key (daily_upd y) y) aggregate (daily_rows u)\<rparr>)))"

interpretation dailies: unique_table daily_key daily_upd
  by unfold_locales (simp add: daily_key_def daily_upd_def)

section \<open>Queries\<close>

text \<open>The clients a query counts: exact ids when given, else kinds (\<open>[SDK]\<close> by default).\<close>

record client_args =
  ca_kinds :: "read_client_kind list option"
  ca_ids :: "string list option"

definition client_selected :: "client_args \<Rightarrow> string \<Rightarrow> read_client_kind \<Rightarrow> bool" where
  "client_selected a c k \<longleftrightarrow>
     (case ca_ids a of
        Some ids \<Rightarrow> c \<in> set ids
      | None \<Rightarrow> k \<in> set (case ca_kinds a of Some ks \<Rightarrow> ks | None \<Rightarrow> [SDK]))"

definition dataset_selected :: "uuid list option \<Rightarrow> uuid \<Rightarrow> bool" where
  "dataset_selected ids i \<longleftrightarrow> (case ids of None \<Rightarrow> True | Some is \<Rightarrow> i \<in> set is)"

record usage_day =
  ud_dataset :: uuid
  ud_day :: day
  ud_kind :: read_client_kind
  ud_reads :: nat
  ud_last :: instant

definition per_day :: "uuid list option \<Rightarrow> client_args \<Rightarrow> usage_db \<Rightarrow> usage_day list" where
  "per_day ids a u =
     map (\<lambda>((i, d, k), rs). \<lparr>ud_dataset = i, ud_day = d, ud_kind = k,
            ud_reads = length (filter (\<lambda>r. rd_kind r = READ) rs), ud_last = newest rd_at rs\<rparr>)
       (grouped (\<lambda>r. (rd_dataset r, utc_day (rd_at r), rd_client_kind r))
          (filter (\<lambda>r. dataset_selected ids (rd_dataset r) \<and> client_selected a (rd_client r) (rd_client_kind r)) (read_rows u))) @
     map (\<lambda>((i, d, k), ys). \<lparr>ud_dataset = i, ud_day = d, ud_kind = k,
            ud_reads = sum_list (map dy_reads ys), ud_last = newest dy_last_read_at ys\<rparr>)
       (grouped (\<lambda>y. (dy_dataset y, dy_day y, dy_client_kind y))
          (filter (\<lambda>y. dataset_selected ids (dy_dataset y) \<and> client_selected a (dy_client y) (dy_client_kind y)) (daily_rows u)))"

record dataset_usage =
  us_last_read_at :: "instant option"
  us_reads_in_window :: nat

definition read_dataset_usage ::
  "uuid list option \<Rightarrow> stamp \<Rightarrow> int \<Rightarrow> client_args \<Rightarrow> usage_db \<Rightarrow> clock_error + (uuid \<rightharpoonup> dataset_usage)" where
  "read_dataset_usage ids now window_days a u =
     bind_r (window_start_day now window_days) (\<lambda>since_day.
       Inr (map_of (map (\<lambda>(i, ds). (i, \<lparr>us_last_read_at = Some (newest ud_last ds),
                us_reads_in_window = sum_list (map ud_reads (filter (\<lambda>x. since_day \<le> ud_day x) ds))\<rparr>))
              (grouped ud_dataset (per_day ids a u)))))"

record daily_reads =
  dr_dataset :: uuid
  dr_day :: day
  dr_kind :: read_client_kind
  dr_reads :: nat

definition read_daily_reads ::
  "uuid list option \<Rightarrow> stamp \<Rightarrow> int \<Rightarrow> client_args \<Rightarrow> usage_db \<Rightarrow> clock_error + daily_reads list" where
  "read_daily_reads ids now days a u =
     bind_r (window_start_day now days) (\<lambda>since_day.
       Inr (sort_key (\<lambda>x. (dr_day x, dr_dataset x, dr_kind x))
         (map (\<lambda>((i, d, k), ds). \<lparr>dr_dataset = i, dr_day = d, dr_kind = k, dr_reads = sum_list (map ud_reads ds)\<rparr>)
           (grouped (\<lambda>x. (ud_dataset x, ud_day x, ud_kind x))
              (filter (\<lambda>x. since_day \<le> ud_day x) (per_day ids a u))))))"

text \<open>\<open>UNION\<close>: the readers in the window, each once.\<close>

definition readers_since :: "day \<Rightarrow> uuid list \<Rightarrow> usage_db \<Rightarrow> (uuid \<times> string \<times> read_client_kind) list" where
  "readers_since since_day ids u =
     from_keys
       (map (\<lambda>r. (rd_dataset r, rd_client r, rd_client_kind r))
          (filter (\<lambda>r. rd_dataset r \<in> set ids \<and> rd_kind r = READ \<and> since_day \<le> utc_day (rd_at r)) (read_rows u)) @
        map (\<lambda>y. (dy_dataset y, dy_client y, dy_client_kind y))
          (filter (\<lambda>y. dy_dataset y \<in> set ids \<and> dy_reads y > 0 \<and> since_day \<le> dy_day y) (daily_rows u)))"

definition read_readers ::
  "uuid list \<Rightarrow> stamp \<Rightarrow> int \<Rightarrow> usage_db \<Rightarrow> clock_error + (uuid \<rightharpoonup> read_client_kind set \<times> string set)" where
  "read_readers ids now window_days u =
     (if ids = [] then Inr Map.empty
      else bind_r (window_start_day now window_days) (\<lambda>since_day.
        Inr (map_of (map (\<lambda>(i, rows). (i, (snd ` snd ` set rows, fst ` snd ` set rows)))
               (grouped fst (readers_since since_day ids u))))))"

record client_datasets =
  cd_client :: string
  cd_kind :: read_client_kind
  cd_datasets :: nat

definition read_client_datasets ::
  "uuid list \<Rightarrow> stamp \<Rightarrow> int \<Rightarrow> usage_db \<Rightarrow> clock_error + client_datasets list" where
  "read_client_datasets ids now window_days u =
     (if ids = [] then Inr []
      else bind_r (window_start_day now window_days) (\<lambda>since_day.
        Inr (sort_key (\<lambda>x. (- int (cd_datasets x), cd_client x))
          (map (\<lambda>((c, k), rows). \<lparr>cd_client = c, cd_kind = k, cd_datasets = card (fst ` set rows)\<rparr>)
            (grouped snd (readers_since since_day ids u))))))"

record client_day_reads =
  cy_day :: day
  cy_client :: string
  cy_kind :: read_client_kind
  cy_reads :: nat

text \<open>\<open>days\<close> counts today.\<close>

definition read_client_day_reads ::
  "uuid list option \<Rightarrow> stamp \<Rightarrow> int \<Rightarrow> client_args \<Rightarrow> usage_db \<Rightarrow> clock_error + client_day_reads list" where
  "read_client_day_reads ids now days a u =
     bind_r (window_start_day now (days - 1)) (\<lambda>since_day.
       let per_read = map (\<lambda>((d, c, k), rs). \<lparr>cy_day = d, cy_client = c, cy_kind = k, cy_reads = length rs\<rparr>)
             (grouped (\<lambda>r. (utc_day (rd_at r), rd_client r, rd_client_kind r))
               (filter (\<lambda>r. rd_kind r = READ \<and> since_day \<le> utc_day (rd_at r) \<and> dataset_selected ids (rd_dataset r)
                    \<and> client_selected a (rd_client r) (rd_client_kind r)) (read_rows u)));
           daily = map (\<lambda>((d, c, k), ys). \<lparr>cy_day = d, cy_client = c, cy_kind = k, cy_reads = sum_list (map dy_reads ys)\<rparr>)
             (grouped (\<lambda>y. (dy_day y, dy_client y, dy_client_kind y))
               (filter (\<lambda>y. since_day \<le> dy_day y \<and> dataset_selected ids (dy_dataset y)
                    \<and> client_selected a (dy_client y) (dy_client_kind y)) (daily_rows u)))
       in Inr (sort_key (\<lambda>x. (cy_day x, cy_client x, cy_kind x))
            (filter (\<lambda>x. cy_reads x > 0)
              (map (\<lambda>((d, c, k), xs). \<lparr>cy_day = d, cy_client = c, cy_kind = k, cy_reads = sum_list (map cy_reads xs)\<rparr>)
                (grouped (\<lambda>x. (cy_day x, cy_client x, cy_kind x)) (per_read @ daily))))))"

record client_last_read =
  lr_dataset :: uuid
  lr_client :: string
  lr_kind :: read_client_kind
  lr_last_read_at :: instant

definition read_client_last_reads :: "uuid list \<Rightarrow> usage_db \<Rightarrow> client_last_read list" where
  "read_client_last_reads ids u =
     (if ids = [] then []
      else
        let per_read = map (\<lambda>((i, c, k), rs). \<lparr>lr_dataset = i, lr_client = c, lr_kind = k, lr_last_read_at = newest rd_at rs\<rparr>)
              (grouped (\<lambda>r. (rd_dataset r, rd_client r, rd_client_kind r))
                (filter (\<lambda>r. rd_dataset r \<in> set ids) (read_rows u)));
            daily = map (\<lambda>((i, c, k), ys). \<lparr>lr_dataset = i, lr_client = c, lr_kind = k, lr_last_read_at = newest dy_last_read_at ys\<rparr>)
              (grouped (\<lambda>y. (dy_dataset y, dy_client y, dy_client_kind y))
                (filter (\<lambda>y. dy_dataset y \<in> set ids) (daily_rows u)))
        in sort_key (\<lambda>x. (lr_dataset x, lr_client x))
             (map (\<lambda>((i, c, k), xs). \<lparr>lr_dataset = i, lr_client = c, lr_kind = k, lr_last_read_at = newest lr_last_read_at xs\<rparr>)
               (grouped (\<lambda>x. (lr_dataset x, lr_client x, lr_kind x)) (per_read @ daily))))"

section \<open>Groups\<close>

lemma distinct_from_keys [simp]: "distinct (from_keys xs)"
  by (induction xs rule: rev_induct) (simp add: from_keys_def, simp add: from_keys_snoc)

lemma set_grouped: "(k, g) \<in> set (grouped key rs) \<longleftrightarrow> k \<in> key ` set rs \<and> g = filter (\<lambda>r. key r = k) rs"
  by (auto simp: grouped_def)

lemma distinct_grouped: "distinct (map fst (grouped key rs))"
  by (simp add: grouped_def comp_def)

lemma map_of_grouped:
  "map_of (map (\<lambda>(k, g). (k, f k g)) (grouped key rs)) i =
     (if i \<in> key ` set rs then Some (f i (filter (\<lambda>r. key r = i) rs)) else None)"
proof -
  have "distinct (map fst (map (\<lambda>(k, g). (k, f k g)) (grouped key rs)))"
    using distinct_grouped [of key rs] by (simp add: comp_def case_prod_beta)
  moreover have "(i, f i (filter (\<lambda>r. key r = i) rs)) \<in> set (map (\<lambda>(k, g). (k, f k g)) (grouped key rs))"
    if "i \<in> key ` set rs"
    using that set_grouped [of i "filter (\<lambda>r. key r = i) rs" key rs] by (force intro: rev_image_eqI)
  moreover have "i \<notin> fst ` set (map (\<lambda>(k, g). (k, f k g)) (grouped key rs))" if "i \<notin> key ` set rs"
    using that by (auto simp: set_grouped)
  ultimately show ?thesis by (auto simp: map_of_eq_None_iff intro: map_of_is_SomeI)
qed

lemma sum_filter_disj:
  fixes f :: "'r \<Rightarrow> nat"
  assumes "\<And>r. \<not> (P r \<and> Q r)"
  shows "sum_list (map f (filter (\<lambda>r. P r \<or> Q r) rs)) = sum_list (map f (filter P rs)) + sum_list (map f (filter Q rs))"
  using assms by (induction rs) auto

lemma sum_by_key:
  fixes f :: "'r \<Rightarrow> nat"
  shows "distinct ks \<Longrightarrow> sum_list (map (\<lambda>k. sum_list (map f (filter (\<lambda>r. key r = k) rs))) ks) =
    sum_list (map f (filter (\<lambda>r. key r \<in> set ks) rs))"
proof (induction ks)
  case (Cons k ks)
  then have "sum_list (map f (filter (\<lambda>r. key r = k \<or> key r \<in> set ks) rs)) =
      sum_list (map f (filter (\<lambda>r. key r = k) rs)) + sum_list (map f (filter (\<lambda>r. key r \<in> set ks) rs))"
    by (intro sum_filter_disj) auto
  then show ?case using Cons by simp
qed simp

text \<open>The sum of group sums, and the latest of group latests, are those of the rows.\<close>

lemma grouped_sum:
  fixes f :: "'r \<Rightarrow> nat"
  assumes g: "\<And>k. k \<in> key ` set rs \<Longrightarrow> g (k, filter (\<lambda>r. key r = k) rs) = sum_list (map f (filter (\<lambda>r. key r = k) rs))"
  shows "sum_list (map g (filter (\<lambda>x. Q (fst x)) (grouped key rs))) = sum_list (map f (filter (\<lambda>r. Q (key r)) rs))"
proof -
  let ?K = "filter Q (from_keys (map key rs))"
  have "map g (filter (\<lambda>x. Q (fst x)) (grouped key rs)) = map (\<lambda>k. sum_list (map f (filter (\<lambda>r. key r = k) rs))) ?K"
    using g by (auto simp: grouped_def filter_map comp_def)
  then have "sum_list (map g (filter (\<lambda>x. Q (fst x)) (grouped key rs))) =
      sum_list (map f (filter (\<lambda>r. key r \<in> set ?K) rs))"
    by (simp only: sum_by_key [OF distinct_filter [OF distinct_from_keys]])
  also have "filter (\<lambda>r. key r \<in> set ?K) rs = filter (\<lambda>r. Q (key r)) rs" by (rule filter_cong) auto
  finally show ?thesis .
qed

lemma sql_max_le: "xs \<noteq> [] \<Longrightarrow> the (sql_max xs) \<le> b \<longleftrightarrow> (\<forall>x\<in>set xs. x \<le> b)"
  by (simp add: sql_max_def)

lemma sql_max_None [simp]: "sql_max xs = None \<longleftrightarrow> xs = []" by (simp add: sql_max_def)

lemma newest_sql_max: "rs \<noteq> [] \<Longrightarrow> Some (newest f rs) = sql_max (map f rs)" by (simp add: sql_max_def)

text \<open>A latest instant is determined by its upper bounds.\<close>

lemma sql_max_eqI:
  assumes "\<And>b. (\<forall>x\<in>set xs. x \<le> b) \<longleftrightarrow> (\<forall>y\<in>set ys. y \<le> b)"
  shows "sql_max xs = sql_max ys"
proof (cases "xs = [] \<or> ys = []")
  case True
  have unbounded: "\<exists>b. \<not> (\<forall>z\<in>set zs. z \<le> b)" if "zs \<noteq> []" for zs :: "instant list"
    using that by (intro exI [of _ "hd zs - 1"]) (auto simp: not_le intro: bexI [of _ "hd zs"])
  have "xs = [] \<longleftrightarrow> ys = []" using True assms unbounded [of xs] unbounded [of ys] by (metis empty_iff empty_set)
  then show ?thesis using True by auto
next
  case False
  then have "the (sql_max xs) \<le> b \<longleftrightarrow> the (sql_max ys) \<le> b" for b using assms sql_max_le by simp
  then have "the (sql_max xs) = the (sql_max ys)" by (meson order_antisym order_refl)
  then show ?thesis using False by (simp add: sql_max_def)
qed

lemma grouped_max:
  assumes g: "\<And>k. k \<in> key ` set rs \<Longrightarrow> g (k, filter (\<lambda>r. key r = k) rs) = newest f (filter (\<lambda>r. key r = k) rs)"
  shows "(\<forall>x\<in>set (filter (\<lambda>x. Q (fst x)) (grouped key rs)). g x \<le> b) \<longleftrightarrow> (\<forall>r\<in>set (filter (\<lambda>r. Q (key r)) rs). f r \<le> b)"
proof -
  have "newest f (filter (\<lambda>r. key r = k) rs) \<le> b \<longleftrightarrow> (\<forall>r\<in>set rs. key r = k \<longrightarrow> f r \<le> b)" if "k \<in> key ` set rs" for k
    using that by (subst Max_le_iff) auto
  then show ?thesis using g by (auto simp: set_grouped)
qed

lemma sort_key_same_set:
  assumes "set xs = set ys" and "distinct xs" and "distinct ys" and "inj_on f (set xs)"
  shows "sort_key f xs = sort_key f ys"
proof -
  have "sorted (map f (sort_key f xs))" "sorted (map f (sort_key f ys))" by simp_all
  moreover have "distinct (map f (sort_key f xs))" "distinct (map f (sort_key f ys))"
    using assms by (simp_all add: distinct_map)
  moreover have "set (map f (sort_key f xs)) = set (map f (sort_key f ys))" using assms(1) by simp
  ultimately have "map f (sort_key f xs) = map f (sort_key f ys)" by (metis sorted_distinct_set_unique)
  then show ?thesis using assms(1,4) by (simp add: inj_on_map_eq_map)
qed

section \<open>The ledger\<close>

type_synonym ledger_key = "uuid \<times> string \<times> read_client_kind \<times> day"

record ledger_entry =
  le_key :: ledger_key
  le_reads :: nat
  le_last :: instant

definition read_entry :: "read_row \<Rightarrow> ledger_entry" where
  "read_entry r = \<lparr>le_key = read_group r, le_reads = (if rd_kind r = READ then 1 else 0), le_last = rd_at r\<rparr>"

definition daily_entry :: "daily_row \<Rightarrow> ledger_entry" where
  "daily_entry y = \<lparr>le_key = (dy_dataset y, dy_client y, dy_client_kind y, dy_day y), le_reads = dy_reads y,
     le_last = dy_last_read_at y\<rparr>"

definition ledger :: "usage_db \<Rightarrow> ledger_entry list" where
  "ledger u = map read_entry (read_rows u) @ map daily_entry (daily_rows u)"

definition reads_of :: "(ledger_key \<Rightarrow> bool) \<Rightarrow> ledger_entry list \<Rightarrow> nat" where
  "reads_of P l = sum_list (map le_reads (filter (\<lambda>x. P (le_key x)) l))"

definition last_of :: "(ledger_key \<Rightarrow> bool) \<Rightarrow> ledger_entry list \<Rightarrow> instant option" where
  "last_of P l = sql_max (map le_last (filter (\<lambda>x. P (le_key x)) l))"

definition last_le :: "(ledger_key \<Rightarrow> bool) \<Rightarrow> instant \<Rightarrow> ledger_entry list \<Rightarrow> bool" where
  "last_le P b l \<longleftrightarrow> (\<forall>x\<in>set l. P (le_key x) \<longrightarrow> le_last x \<le> b)"

definition same_ledger :: "usage_db \<Rightarrow> usage_db \<Rightarrow> bool" where
  "same_ledger u v \<longleftrightarrow> (\<forall>P. reads_of P (ledger u) = reads_of P (ledger v) \<and> last_of P (ledger u) = last_of P (ledger v))"

lemma reads_of_append [simp]: "reads_of P (xs @ ys) = reads_of P xs + reads_of P ys"
  by (simp add: reads_of_def)

lemma last_le_append [simp]: "last_le P b (xs @ ys) \<longleftrightarrow> last_le P b xs \<and> last_le P b ys"
  by (auto simp: last_le_def)

lemma last_of_eqI: "(\<And>b. last_le P b xs \<longleftrightarrow> last_le P b ys) \<Longrightarrow> last_of P xs = last_of P ys"
  unfolding last_of_def by (rule sql_max_eqI) (auto simp: last_le_def)

text \<open>The reader's kind is a function of its label, and a summary is unique.\<close>

definition kind_ok :: "string \<Rightarrow> read_client_kind \<Rightarrow> bool" where
  "kind_ok c k \<longleftrightarrow> (k = UI \<longleftrightarrow> c = OPERATOR_PRINCIPAL)"

definition usage_ok :: "usage_db \<Rightarrow> bool" where
  "usage_ok u \<longleftrightarrow> distinct (map daily_key (daily_rows u)) \<and>
     list_all (\<lambda>r. kind_ok (rd_client r) (rd_client_kind r)) (read_rows u) \<and>
     list_all (\<lambda>y. kind_ok (dy_client y) (dy_client_kind y)) (daily_rows u)"

lemma kind_ok_unique: "kind_ok c k \<Longrightarrow> kind_ok c k' \<Longrightarrow> k = k'"
  by (cases k; cases k') (auto simp: kind_ok_def)

lemma classify_kind_ok: "kind_ok (cl_id (classify_client_label raw)) (cl_kind (classify_client_label raw))"
  by (auto simp: classify_client_label_def kind_ok_def UNATTRIBUTED_LABEL_def UNATTRIBUTED_def OPERATOR_PRINCIPAL_def
      split: option.split)

section \<open>The fold keeps the ledger\<close>

definition folded :: "read_row list \<Rightarrow> daily_row list" where
  "folded rs = map daily_of (grouped read_group rs)"

lemma daily_entry_of: "daily_entry (daily_of g) =
    \<lparr>le_key = fst g, le_reads = length (filter (\<lambda>r. rd_kind r = READ) (snd g)), le_last = newest rd_at (snd g)\<rparr>"
  by (cases g rule: daily_of.cases) (simp add: daily_entry_def)

lemma reads_weight: "length (filter (\<lambda>r. rd_kind r = READ) rs) = sum_list (map (\<lambda>r. if rd_kind r = READ then 1 else 0) rs)"
  by (induction rs) auto

lemma folded_reads: "reads_of P (map daily_entry (folded rs)) = reads_of P (map read_entry rs)"
proof -
  have "reads_of P (map daily_entry (folded rs)) =
      sum_list (map (\<lambda>g. length (filter (\<lambda>r. rd_kind r = READ) (snd g))) (filter (\<lambda>g. P (fst g)) (grouped read_group rs)))"
    by (simp add: reads_of_def folded_def filter_map comp_def daily_entry_of)
  also have "\<dots> = sum_list (map (\<lambda>r. if rd_kind r = READ then 1 else 0) (filter (\<lambda>r. P (read_group r)) rs))"
    by (rule grouped_sum) (simp only: snd_conv reads_weight)
  finally show ?thesis by (simp add: reads_of_def read_entry_def filter_map comp_def)
qed

lemma folded_last: "last_le P b (map daily_entry (folded rs)) \<longleftrightarrow> last_le P b (map read_entry rs)"
proof -
  have "last_le P b (map daily_entry (folded rs)) \<longleftrightarrow>
      (\<forall>g\<in>set (filter (\<lambda>g. P (fst g)) (grouped read_group rs)). newest rd_at (snd g) \<le> b)"
    by (auto simp: last_le_def folded_def daily_entry_of simp del: split_paired_All)
  also have "\<dots> \<longleftrightarrow> (\<forall>r\<in>set (filter (\<lambda>r. P (read_group r)) rs). rd_at r \<le> b)"
    by (rule grouped_max) simp
  finally show ?thesis by (auto simp: last_le_def read_entry_def)
qed

lemma upsert_splits:
  assumes "distinct (map daily_key rows)" and "y \<in> set rows" and "daily_key y = daily_key z"
  obtains as bs where "rows = as @ y # bs"
    and "upsert_row daily_key (daily_upd z) z rows = as @ daily_upd z y # bs"
proof -
  obtain as bs where r: "rows = as @ y # bs" using assms(2) by (auto dest: split_list)
  have "daily_key x \<noteq> daily_key z" if "x \<in> set as \<union> set bs" for x
    using that assms(1,3) r by (auto simp: image_iff)
  then have "map (\<lambda>x. if daily_key x = daily_key z then daily_upd z x else x) as = as"
    "map (\<lambda>x. if daily_key x = daily_key z then daily_upd z x else x) bs = bs" by (auto intro: map_idI)
  then have "upsert_row daily_key (daily_upd z) z rows = as @ daily_upd z y # bs"
    using assms(3) r by (simp add: upsert_row_def)
  then show ?thesis using r that by blast
qed

lemma upsert_ledger:
  assumes u: "distinct (map daily_key rows)"
    and k: "list_all (\<lambda>y. kind_ok (dy_client y) (dy_client_kind y)) rows" "kind_ok (dy_client z) (dy_client_kind z)"
  shows "reads_of P (map daily_entry (upsert_row daily_key (daily_upd z) z rows)) =
      reads_of P (map daily_entry rows) + reads_of P [daily_entry z]" (is ?R)
    and "last_le P b (map daily_entry (upsert_row daily_key (daily_upd z) z rows)) \<longleftrightarrow>
      last_le P b (map daily_entry rows) \<and> last_le P b [daily_entry z]" (is ?L)
    and "list_all (\<lambda>y. kind_ok (dy_client y) (dy_client_kind y)) (upsert_row daily_key (daily_upd z) z rows)" (is ?K)
proof -
  have "?R \<and> ?L \<and> ?K"
  proof (cases "\<exists>y\<in>set rows. daily_key y = daily_key z")
    case True
    then obtain y where y: "y \<in> set rows" "daily_key y = daily_key z" by blast
    from upsert_splits [OF u y] obtain as bs where s: "rows = as @ y # bs"
      "upsert_row daily_key (daily_upd z) z rows = as @ daily_upd z y # bs" by blast
    have "dy_client_kind y = dy_client_kind z"
      using k s(1) y(2) kind_ok_unique by (auto simp: daily_key_def list_all_iff)
    then have e: "daily_entry (daily_upd z y) =
        \<lparr>le_key = le_key (daily_entry z), le_reads = le_reads (daily_entry y) + le_reads (daily_entry z),
          le_last = max (le_last (daily_entry y)) (le_last (daily_entry z))\<rparr>"
      "le_key (daily_entry y) = le_key (daily_entry z)"
      using y(2) by (simp_all add: daily_entry_def daily_upd_def daily_key_def)
    have ?R unfolding s(2) unfolding s(1) by (simp add: reads_of_def e)
    moreover have ?L unfolding s(2) unfolding s(1) by (auto simp: last_le_def e)
    moreover have ?K unfolding s(2) using k s(1) by (simp add: daily_upd_def)
    ultimately show ?thesis by blast
  next
    case False
    then have "upsert_row daily_key (daily_upd z) z rows = rows @ [z]" by (auto simp: upsert_row_def list_ex_iff)
    then show ?thesis using k by simp
  qed
  then show ?R ?L ?K by blast+
qed

definition dailies_ok :: "daily_row list \<Rightarrow> bool" where
  "dailies_ok rows \<longleftrightarrow> distinct (map daily_key rows) \<and> list_all (\<lambda>y. kind_ok (dy_client y) (dy_client_kind y)) rows"

abbreviation upsert_dailies :: "daily_row list \<Rightarrow> daily_row list \<Rightarrow> daily_row list" where
  "upsert_dailies \<equiv> fold (\<lambda>y. upsert_row daily_key (daily_upd y) y)"

lemma upsert_dailies_ok:
  "dailies_ok rows \<Longrightarrow> kind_ok (dy_client z) (dy_client_kind z) \<Longrightarrow>
     dailies_ok (upsert_row daily_key (daily_upd z) z rows)"
  unfolding dailies_ok_def using dailies.unique_upsert upsert_ledger(3) by blast

lemma upserts_dailies_ok:
  "dailies_ok rows \<Longrightarrow> list_all (\<lambda>y. kind_ok (dy_client y) (dy_client_kind y)) new \<Longrightarrow>
     dailies_ok (upsert_dailies new rows)"
proof (induction new arbitrary: rows)
  case (Cons z new)
  then have "dailies_ok (upsert_row daily_key (daily_upd z) z rows)" by (intro upsert_dailies_ok) simp_all
  then show ?case using Cons by simp
qed simp

lemma upserts_reads:
  "dailies_ok rows \<Longrightarrow> list_all (\<lambda>y. kind_ok (dy_client y) (dy_client_kind y)) new \<Longrightarrow>
     reads_of P (map daily_entry (upsert_dailies new rows)) =
       reads_of P (map daily_entry rows) + reads_of P (map daily_entry new)"
proof (induction new arbitrary: rows)
  case (Cons z new)
  have ok: "dailies_ok (upsert_row daily_key (daily_upd z) z rows)" using Cons.prems by (intro upsert_dailies_ok) simp_all
  have step: "reads_of P (map daily_entry (upsert_row daily_key (daily_upd z) z rows)) =
      reads_of P (map daily_entry rows) + reads_of P [daily_entry z]"
    using Cons.prems by (intro upsert_ledger(1)) (simp_all add: dailies_ok_def)
  have tail: "list_all (\<lambda>y. kind_ok (dy_client y) (dy_client_kind y)) new" using Cons.prems by simp
  have "reads_of P (map daily_entry (z # new)) = reads_of P [daily_entry z] + reads_of P (map daily_entry new)"
    by (simp add: reads_of_def)
  then show ?case unfolding fold_simps comp_apply Cons.IH [OF ok tail] step by simp
qed (simp add: reads_of_def)

lemma upserts_last:
  "dailies_ok rows \<Longrightarrow> list_all (\<lambda>y. kind_ok (dy_client y) (dy_client_kind y)) new \<Longrightarrow>
     last_le P b (map daily_entry (upsert_dailies new rows)) \<longleftrightarrow>
       last_le P b (map daily_entry rows) \<and> last_le P b (map daily_entry new)"
proof (induction new arbitrary: rows)
  case (Cons z new)
  have ok: "dailies_ok (upsert_row daily_key (daily_upd z) z rows)" using Cons.prems by (intro upsert_dailies_ok) simp_all
  have step: "last_le P b (map daily_entry (upsert_row daily_key (daily_upd z) z rows)) \<longleftrightarrow>
      last_le P b (map daily_entry rows) \<and> last_le P b [daily_entry z]"
    using Cons.prems by (intro upsert_ledger(2)) (simp_all add: dailies_ok_def)
  have tail: "list_all (\<lambda>y. kind_ok (dy_client y) (dy_client_kind y)) new" using Cons.prems by simp
  have "last_le P b (map daily_entry (z # new)) \<longleftrightarrow> last_le P b [daily_entry z] \<and> last_le P b (map daily_entry new)"
    by (simp add: last_le_def)
  then show ?case unfolding fold_simps comp_apply Cons.IH [OF ok tail] step by blast
qed (simp add: last_le_def)

text \<open>The fold: it never meets a summary twice, and neither the reads nor the latest instants change.\<close>

lemma folded_kinds:
  "list_all (\<lambda>r. kind_ok (rd_client r) (rd_client_kind r)) rs \<Longrightarrow>
     list_all (\<lambda>y. kind_ok (dy_client y) (dy_client_kind y)) (folded rs)"
  by (auto simp: folded_def list_all_iff set_grouped read_group_def)

lemma folded_distinct:
  assumes k: "list_all (\<lambda>r. kind_ok (rd_client r) (rd_client_kind r)) rs"
  shows "distinct (map daily_key (folded rs))"
proof -
  have "daily_key (daily_of g) = (fst (fst g), fst (snd (fst g)), snd (snd (snd (fst g))))" for g
    by (cases g rule: daily_of.cases) (simp add: daily_key_def)
  then have "map daily_key (folded rs) = map (\<lambda>(i, c, k, d). (i, c, d)) (from_keys (map read_group rs))"
    by (simp add: folded_def grouped_def split_beta)
  moreover have "inj_on (\<lambda>(i, c, k, d). (i, c, d)) (read_group ` set rs)"
    using k by (auto simp: inj_on_def read_group_def list_all_iff) (metis kind_ok_unique)
  ultimately show ?thesis by (simp add: distinct_map)
qed

lemma fold_result:
  assumes "usage_ok u"
  shows "fold_reads_before None cutoff u =
    (Inr (length (folded (filter (\<lambda>r. rd_at r < cutoff) (read_rows u)))),
     u\<lparr>read_rows := filter (\<lambda>r. \<not> rd_at r < cutoff) (read_rows u),
       daily_rows := upsert_dailies (folded (filter (\<lambda>r. rd_at r < cutoff) (read_rows u))) (daily_rows u)\<rparr>)"
proof -
  have "list_all (\<lambda>r. kind_ok (rd_client r) (rd_client_kind r)) (filter (\<lambda>r. rd_at r < cutoff) (read_rows u))"
    using assms by (auto simp: usage_ok_def list_all_iff)
  from folded_distinct [OF this] show ?thesis by (simp add: fold_reads_before_def Let_def flip: folded_def)
qed

lemma reads_of_partition: "reads_of P (map read_entry rs) =
    reads_of P (map read_entry (filter Q rs)) + reads_of P (map read_entry (filter (\<lambda>r. \<not> Q r) rs))"
  by (induction rs) (simp_all add: reads_of_def)

lemma last_le_partition: "last_le P b (map read_entry rs) \<longleftrightarrow>
    last_le P b (map read_entry (filter Q rs)) \<and> last_le P b (map read_entry (filter (\<lambda>r. \<not> Q r) rs))"
  by (auto simp: last_le_def)

lemma fold_keeps:
  assumes u: "usage_ok u" and f: "fold_reads_before None cutoff u = (res, u')"
  shows "same_ledger u u'" and "usage_ok u'"
proof -
  let ?moved = "filter (\<lambda>r. rd_at r < cutoff) (read_rows u)"
  have kinds: "list_all (\<lambda>r. kind_ok (rd_client r) (rd_client_kind r)) ?moved" and ok: "dailies_ok (daily_rows u)"
    using u by (auto simp: usage_ok_def dailies_ok_def list_all_iff)
  have u': "u' = u\<lparr>read_rows := filter (\<lambda>r. \<not> rd_at r < cutoff) (read_rows u),
      daily_rows := upsert_dailies (folded ?moved) (daily_rows u)\<rparr>"
    using f fold_result [OF u] by simp
  note fk = folded_kinds [OF kinds]
  have "reads_of P (ledger u) = reads_of P (ledger u')" for P
    using reads_of_partition [of P "read_rows u" "\<lambda>r. rd_at r < cutoff"]
    by (simp add: u' ledger_def upserts_reads [OF ok fk] folded_reads)
  moreover have "last_of P (ledger u) = last_of P (ledger u')" for P
    using last_le_partition [of P _ "read_rows u" "\<lambda>r. rd_at r < cutoff"]
    by (intro last_of_eqI) (auto simp: u' ledger_def upserts_last [OF ok fk] folded_last)
  ultimately show "same_ledger u u'" by (simp add: same_ledger_def)
  have "dailies_ok (daily_rows u')" using upserts_dailies_ok [OF ok fk] by (simp add: u')
  then show "usage_ok u'" using u by (auto simp: usage_ok_def dailies_ok_def u' list_all_iff)
qed

section \<open>Every query is a function of the ledger\<close>

lemma filter_conj: "filter P (filter Q xs) = filter (\<lambda>x. Q x \<and> P x) xs"
  by simp

abbreviation counted :: "uuid list option \<Rightarrow> client_args \<Rightarrow> (uuid \<times> day \<times> read_client_kind \<Rightarrow> bool) \<Rightarrow> ledger_key \<Rightarrow> bool" where
  "counted ids a Q \<equiv> \<lambda>(i, c, k, d). dataset_selected ids i \<and> client_selected a c k \<and> Q (i, d, k)"

abbreviation usage_key :: "usage_day \<Rightarrow> uuid \<times> day \<times> read_client_kind" where
  "usage_key x \<equiv> (ud_dataset x, ud_day x, ud_kind x)"

lemma per_day_reads:
  "sum_list (map ud_reads (filter (\<lambda>x. Q (usage_key x)) (per_day ids a u))) = reads_of (counted ids a Q) (ledger u)"
proof -
  let ?R = "filter (\<lambda>r. dataset_selected ids (rd_dataset r) \<and> client_selected a (rd_client r) (rd_client_kind r)) (read_rows u)"
  let ?D = "filter (\<lambda>y. dataset_selected ids (dy_dataset y) \<and> client_selected a (dy_client y) (dy_client_kind y)) (daily_rows u)"
  let ?K = "\<lambda>r. (rd_dataset r, utc_day (rd_at r), rd_client_kind r)"
  let ?L = "\<lambda>y. (dy_dataset y, dy_day y, dy_client_kind y)"
  have "sum_list (map ud_reads (filter (\<lambda>x. Q (usage_key x)) (per_day ids a u))) =
      sum_list (map (\<lambda>g. length (filter (\<lambda>r. rd_kind r = READ) (snd g))) (filter (\<lambda>g. Q (fst g)) (grouped ?K ?R))) +
      sum_list (map (\<lambda>g. sum_list (map dy_reads (snd g))) (filter (\<lambda>g. Q (fst g)) (grouped ?L ?D)))"
    by (simp only: per_day_def filter_append map_append sum_list_append filter_map map_map comp_def split_beta
        usage_day.select_convs prod.collapse)
  also have "sum_list (map (\<lambda>g. length (filter (\<lambda>r. rd_kind r = READ) (snd g))) (filter (\<lambda>g. Q (fst g)) (grouped ?K ?R))) =
      sum_list (map (\<lambda>r. if rd_kind r = READ then 1 else 0) (filter (\<lambda>r. Q (?K r)) ?R))"
    by (rule grouped_sum) (simp only: snd_conv reads_weight)
  also have "sum_list (map (\<lambda>g. sum_list (map dy_reads (snd g))) (filter (\<lambda>g. Q (fst g)) (grouped ?L ?D))) =
      sum_list (map dy_reads (filter (\<lambda>y. Q (?L y)) ?D))"
    by (rule grouped_sum) simp
  finally show ?thesis
    by (simp add: reads_of_def ledger_def filter_map comp_def read_entry_def daily_entry_def read_group_def conj_ac)
qed

lemma last_le_ledger: "last_le P b (ledger u) \<longleftrightarrow>
    (\<forall>r\<in>set (read_rows u). P (read_group r) \<longrightarrow> rd_at r \<le> b) \<and>
    (\<forall>y\<in>set (daily_rows u). P (dy_dataset y, dy_client y, dy_client_kind y, dy_day y) \<longrightarrow> dy_last_read_at y \<le> b)"
  by (simp add: last_le_def ledger_def ball_Un read_entry_def daily_entry_def)

lemma last_ofI: "(\<And>b. (\<forall>x\<in>set xs. x \<le> b) \<longleftrightarrow> last_le P b l) \<Longrightarrow> sql_max xs = last_of P l"
  unfolding last_of_def by (rule sql_max_eqI) (auto simp: last_le_def)

lemma per_day_last:
  "sql_max (map ud_last (filter (\<lambda>x. Q (usage_key x)) (per_day ids a u))) = last_of (counted ids a Q) (ledger u)"
proof (rule last_ofI)
  fix b
  let ?R = "filter (\<lambda>r. dataset_selected ids (rd_dataset r) \<and> client_selected a (rd_client r) (rd_client_kind r)) (read_rows u)"
  let ?D = "filter (\<lambda>y. dataset_selected ids (dy_dataset y) \<and> client_selected a (dy_client y) (dy_client_kind y)) (daily_rows u)"
  let ?K = "\<lambda>r. (rd_dataset r, utc_day (rd_at r), rd_client_kind r)"
  let ?L = "\<lambda>y. (dy_dataset y, dy_day y, dy_client_kind y)"
  have "(\<forall>x\<in>set (filter (\<lambda>x. Q (usage_key x)) (per_day ids a u)). ud_last x \<le> b) \<longleftrightarrow>
      (\<forall>g\<in>set (filter (\<lambda>g. Q (fst g)) (grouped ?K ?R)). newest rd_at (snd g) \<le> b) \<and>
      (\<forall>g\<in>set (filter (\<lambda>g. Q (fst g)) (grouped ?L ?D)). newest dy_last_read_at (snd g) \<le> b)"
    by (simp only: per_day_def filter_append set_append ball_Un filter_map set_map ball_simps comp_def split_beta
        usage_day.select_convs prod.collapse)
  also have "(\<forall>g\<in>set (filter (\<lambda>g. Q (fst g)) (grouped ?K ?R)). newest rd_at (snd g) \<le> b) \<longleftrightarrow>
      (\<forall>r\<in>set (filter (\<lambda>r. Q (?K r)) ?R). rd_at r \<le> b)"
    by (rule grouped_max) simp
  also have "(\<forall>g\<in>set (filter (\<lambda>g. Q (fst g)) (grouped ?L ?D)). newest dy_last_read_at (snd g) \<le> b) \<longleftrightarrow>
      (\<forall>y\<in>set (filter (\<lambda>y. Q (?L y)) ?D). dy_last_read_at y \<le> b)"
    by (rule grouped_max) simp
  finally show "(\<forall>t\<in>set (map ud_last (filter (\<lambda>x. Q (usage_key x)) (per_day ids a u))). t \<le> b) \<longleftrightarrow>
      last_le (counted ids a Q) b (ledger u)"
    by (simp only: last_le_ledger set_map ball_simps) (auto simp: read_group_def)
qed

lemma usage_entry:
  "map_of (map (\<lambda>(i, ds). (i, \<lparr>us_last_read_at = Some (newest ud_last ds), us_reads_in_window = sum_list (map ud_reads (filter P ds))\<rparr>))
       (grouped ud_dataset D)) i =
     map_option (\<lambda>t. \<lparr>us_last_read_at = Some t, us_reads_in_window =
         sum_list (map ud_reads (filter P (filter (\<lambda>x. ud_dataset x = i) D)))\<rparr>)
       (sql_max (map ud_last (filter (\<lambda>x. ud_dataset x = i) D)))"
proof (cases "filter (\<lambda>x. ud_dataset x = i) D = []")
  case True
  then have "i \<notin> ud_dataset ` set D" by (auto simp: filter_empty_conv)
  then show ?thesis using True by (simp add: map_of_grouped sql_max_def)
next
  case False
  then have "i \<in> ud_dataset ` set D" by (auto simp: filter_empty_conv)
  then show ?thesis using newest_sql_max [OF False, of ud_last, symmetric] by (simp add: map_of_grouped)
qed

lemma usage_of_ledger:
  "read_dataset_usage ids (Aware now) w a u =
     Inr (\<lambda>i. map_option (\<lambda>t. \<lparr>us_last_read_at = Some t,
         us_reads_in_window = reads_of (counted ids a (\<lambda>(j, d, k). utc_day (now - w * one_day) \<le> d \<and> j = i)) (ledger u)\<rparr>)
       (last_of (counted ids a (\<lambda>(j, d, k). j = i)) (ledger u)))"
proof -
  let ?D = "per_day ids a u" and ?since = "utc_day (now - w * one_day)"
  have last: "sql_max (map ud_last (filter (\<lambda>x. ud_dataset x = i) ?D)) = last_of (counted ids a (\<lambda>(j, d, k). j = i)) (ledger u)" for i
    using per_day_last [of "\<lambda>(j, d, k). j = i" ids a u] by (simp only: case_prod_conv)
  have "filter (\<lambda>x. ?since \<le> ud_day x) (filter (\<lambda>x. ud_dataset x = i) ?D) =
      filter (\<lambda>x. ?since \<le> ud_day x \<and> ud_dataset x = i) ?D" for i by (simp add: conj_commute)
  then have reads: "sum_list (map ud_reads (filter (\<lambda>x. ?since \<le> ud_day x) (filter (\<lambda>x. ud_dataset x = i) ?D))) =
      reads_of (counted ids a (\<lambda>(j, d, k). ?since \<le> d \<and> j = i)) (ledger u)" for i
    using per_day_reads [of "\<lambda>(j, d, k). ?since \<le> d \<and> j = i" ids a u] by (simp only: case_prod_conv)
  show ?thesis unfolding read_dataset_usage_def window_start_day_def stamp.case bind_r.simps
    by (simp only: sum.inject fun_eq_iff usage_entry last reads) simp
qed

text \<open>Sorted groups are determined by their set, when the order tells the keys apart.\<close>

lemma grouped_key_inj:
  assumes "\<And>g. h (f g) = fst g" and "x \<in> f ` set (grouped key xs)" and "y \<in> f ` set (grouped key xs)" and "h x = h y"
  shows "x = y"
proof -
  obtain g g' where g: "x = f g" "g \<in> set (grouped key xs)" "y = f g'" "g' \<in> set (grouped key xs)" using assms by blast
  then have "fst g = fst g'" using assms(1,4) by metis
  then have "g = g'" using g(2,4) distinct_grouped [of key xs] by (auto simp: distinct_map inj_on_def)
  then show ?thesis using g by simp
qed

lemma sorted_groups_cong:
  assumes f: "\<And>g. h (f g) = fst g"
    and same: "\<And>x. x \<in> f ` set (grouped key xs) \<and> P x \<longleftrightarrow> x \<in> f ` set (grouped key ys) \<and> P x"
    and order: "\<And>x y. x \<in> f ` set (grouped key xs) \<Longrightarrow> y \<in> f ` set (grouped key xs) \<Longrightarrow> s x = s y \<Longrightarrow> h x = h y"
  shows "sort_key s (filter P (map f (grouped key xs))) = sort_key s (filter P (map f (grouped key ys)))"
proof (rule sort_key_same_set)
  have "distinct (map f (grouped key zs))" for zs
  proof -
    have "map h (map f (grouped key zs)) = map fst (grouped key zs)" using f by simp
    then show ?thesis using distinct_grouped [of key zs] by (metis distinct_map)
  qed
  then show "distinct (filter P (map f (grouped key xs)))" "distinct (filter P (map f (grouped key ys)))"
    by (simp_all add: distinct_filter del: filter_map)
  show "set (filter P (map f (grouped key xs))) = set (filter P (map f (grouped key ys)))"
    using same by auto
  show "inj_on s (set (filter P (map f (grouped key xs))))"
  proof (rule inj_onI)
    fix x y
    assume "x \<in> set (filter P (map f (grouped key xs)))" and "y \<in> set (filter P (map f (grouped key xs)))" and s: "s x = s y"
    then have m: "x \<in> f ` set (grouped key xs)" "y \<in> f ` set (grouped key xs)" by auto
    from order [OF m s] show "x = y" by (rule grouped_key_inj [of h f, OF f m])
  qed
qed

lemma daily_reads_rows:
  fixes u ids a since_day
  defines "G \<equiv> grouped usage_key (filter (\<lambda>x. since_day \<le> ud_day x) (per_day ids a u))"
  shows "x \<in> (\<lambda>((i, d, k), ds). \<lparr>dr_dataset = i, dr_day = d, dr_kind = k, dr_reads = sum_list (map ud_reads ds)\<rparr>) ` set G \<longleftrightarrow>
    since_day \<le> dr_day x \<and> last_of (counted ids a (\<lambda>q. q = (dr_dataset x, dr_day x, dr_kind x))) (ledger u) \<noteq> None \<and>
    dr_reads x = reads_of (counted ids a (\<lambda>q. q = (dr_dataset x, dr_day x, dr_kind x))) (ledger u)"
proof -
  let ?D = "per_day ids a u"
  have key: "(i, d, k) \<in> usage_key ` set (filter (\<lambda>x. since_day \<le> ud_day x) ?D) \<longleftrightarrow>
      since_day \<le> d \<and> last_of (counted ids a (\<lambda>q. q = (i, d, k))) (ledger u) \<noteq> None" for i d k
  proof -
    have "last_of (counted ids a (\<lambda>q. q = (i, d, k))) (ledger u) \<noteq> None \<longleftrightarrow> filter (\<lambda>x. usage_key x = (i, d, k)) ?D \<noteq> []"
      by (simp only: per_day_last [of "\<lambda>q. q = (i, d, k)", symmetric] sql_max_None map_is_Nil_conv)
    also have "\<dots> \<longleftrightarrow> (i, d, k) \<in> usage_key ` set ?D" by (auto simp: filter_empty_conv)
    finally show ?thesis by auto
  qed
  have reads: "sum_list (map ud_reads (filter (\<lambda>x. usage_key x = (i, d, k)) (filter (\<lambda>x. since_day \<le> ud_day x) ?D))) =
      reads_of (counted ids a (\<lambda>q. q = (i, d, k))) (ledger u)" if "since_day \<le> d" for i d k
  proof -
    have "filter (\<lambda>x. usage_key x = (i, d, k)) (filter (\<lambda>x. since_day \<le> ud_day x) ?D) = filter (\<lambda>x. usage_key x = (i, d, k)) ?D"
      using that by (auto intro: filter_cong)
    then show ?thesis by (simp only: per_day_reads [of "\<lambda>q. q = (i, d, k)", symmetric])
  qed
  show ?thesis
  proof
    assume "x \<in> (\<lambda>((i, d, k), ds). \<lparr>dr_dataset = i, dr_day = d, dr_kind = k, dr_reads = sum_list (map ud_reads ds)\<rparr>) ` set G"
    then obtain i d k ds where x: "((i, d, k), ds) \<in> set G"
      "x = \<lparr>dr_dataset = i, dr_day = d, dr_kind = k, dr_reads = sum_list (map ud_reads ds)\<rparr>" by auto
    then show "since_day \<le> dr_day x \<and> last_of (counted ids a (\<lambda>q. q = (dr_dataset x, dr_day x, dr_kind x))) (ledger u) \<noteq> None \<and>
        dr_reads x = reads_of (counted ids a (\<lambda>q. q = (dr_dataset x, dr_day x, dr_kind x))) (ledger u)"
      unfolding G_def set_grouped key using reads by simp
  next
    assume r: "since_day \<le> dr_day x \<and> last_of (counted ids a (\<lambda>q. q = (dr_dataset x, dr_day x, dr_kind x))) (ledger u) \<noteq> None \<and>
        dr_reads x = reads_of (counted ids a (\<lambda>q. q = (dr_dataset x, dr_day x, dr_kind x))) (ledger u)"
    let ?k = "(dr_dataset x, dr_day x, dr_kind x)"
    let ?ds = "filter (\<lambda>y. usage_key y = ?k) (filter (\<lambda>x. since_day \<le> ud_day x) ?D)"
    have "(?k, ?ds) \<in> set G" unfolding G_def set_grouped key using r by simp
    moreover have "x = (\<lambda>((i, d, k), ds). \<lparr>dr_dataset = i, dr_day = d, dr_kind = k, dr_reads = sum_list (map ud_reads ds)\<rparr>) (?k, ?ds)"
      using r reads by simp
    ultimately show "x \<in> (\<lambda>((i, d, k), ds). \<lparr>dr_dataset = i, dr_day = d, dr_kind = k, dr_reads = sum_list (map ud_reads ds)\<rparr>) ` set G"
      by (rule rev_image_eqI)
  qed
qed

lemma daily_reads_same:
  assumes "same_ledger u v"
  shows "read_daily_reads ids now days a u = read_daily_reads ids now days a v"
proof -
  let ?f = "\<lambda>((i, d, k), ds). \<lparr>dr_dataset = i, dr_day = d, dr_kind = k, dr_reads = sum_list (map ud_reads ds)\<rparr>"
  let ?G = "\<lambda>since u. grouped usage_key (filter (\<lambda>x. since \<le> ud_day x) (per_day ids a u))"
  have mem: "x \<in> ?f ` set (?G since u) \<longleftrightarrow> x \<in> ?f ` set (?G since v)" for x since
    unfolding daily_reads_rows using assms by (simp add: same_ledger_def)
  have "sort_key (\<lambda>x. (dr_day x, dr_dataset x, dr_kind x)) (filter (\<lambda>_. True) (map ?f (?G since u))) =
      sort_key (\<lambda>x. (dr_day x, dr_dataset x, dr_kind x)) (filter (\<lambda>_. True) (map ?f (?G since v)))" for since
    by (rule sorted_groups_cong [where h = "\<lambda>x. (dr_dataset x, dr_day x, dr_kind x)"])
      (simp_all add: split_beta mem [unfolded split_beta])
  then show ?thesis by (simp add: read_daily_reads_def filter_True)
qed

lemma reads_of_pos: "0 < reads_of P l \<longleftrightarrow> (\<exists>x\<in>set l. P (le_key x) \<and> 0 < le_reads x)"
  by (auto simp: reads_of_def neq0_conv [symmetric] sum_list_eq_0_iff simp del: neq0_conv)

lemma reads_of_pos_ledger: "0 < reads_of P (ledger u) \<longleftrightarrow>
    (\<exists>r\<in>set (read_rows u). P (read_group r) \<and> rd_kind r = READ) \<or>
    (\<exists>y\<in>set (daily_rows u). P (dy_dataset y, dy_client y, dy_client_kind y, dy_day y) \<and> 0 < dy_reads y)"
  unfolding reads_of_pos by (simp add: ledger_def bex_Un read_entry_def daily_entry_def) blast

lemma readers_of_ledger:
  "(i, c, k) \<in> set (readers_since since_day ids u) \<longleftrightarrow>
     i \<in> set ids \<and> 0 < reads_of (\<lambda>(j, c', k', d). j = i \<and> c' = c \<and> k' = k \<and> since_day \<le> d) (ledger u)"
  unfolding reads_of_pos_ledger by (auto simp: readers_since_def read_group_def)

lemma readers_same: "same_ledger u v \<Longrightarrow> set (readers_since since_day ids u) = set (readers_since since_day ids v)"
  using readers_of_ledger [of _ _ _ since_day ids u] readers_of_ledger [of _ _ _ since_day ids v]
  by (simp add: same_ledger_def set_eq_iff)

lemma read_readers_same:
  assumes "same_ledger u v"
  shows "read_readers ids now w u = read_readers ids now w v"
proof -
  have "map_of (map (\<lambda>(i, rows). (i, (snd ` snd ` set rows, fst ` snd ` set rows))) (grouped fst (readers_since d ids u))) =
      map_of (map (\<lambda>(i, rows). (i, (snd ` snd ` set rows, fst ` snd ` set rows))) (grouped fst (readers_since d ids v)))" for d
    using readers_same [OF assms] by (intro ext) (simp add: map_of_grouped)
  then show ?thesis by (simp add: read_readers_def)
qed

lemma readers_kind:
  "usage_ok u \<Longrightarrow> (i, c, k) \<in> set (readers_since d ids u) \<Longrightarrow> kind_ok c k"
  by (auto simp: readers_since_def usage_ok_def list_all_iff)

lemma client_datasets_same:
  assumes same: "same_ledger u v" and ok: "usage_ok u"
  shows "read_client_datasets ids now w u = read_client_datasets ids now w v"
proof -
  let ?f = "\<lambda>((c, k), rows). \<lparr>cd_client = c, cd_kind = k, cd_datasets = card (fst ` set rows)\<rparr>"
  have sets: "set (readers_since d ids u) = set (readers_since d ids v)" for d by (rule readers_same [OF same])
  have mem: "x \<in> ?f ` set (grouped snd R) \<longleftrightarrow>
      (cd_client x, cd_kind x) \<in> snd ` set R \<and> cd_datasets x = card (fst ` {r \<in> set R. snd r = (cd_client x, cd_kind x)})"
    for x and R :: "(uuid \<times> string \<times> read_client_kind) list"
  proof -
    have "?f ` set (grouped snd R) =
        (\<lambda>q. \<lparr>cd_client = fst q, cd_kind = snd q, cd_datasets = card (fst ` {r \<in> set R. snd r = q})\<rparr>) ` snd ` set R"
      unfolding grouped_def set_map image_image set_from_keys by (simp add: split_beta)
    then show ?thesis by (cases x) (auto simp: image_iff intro: bexI [rotated])
  qed
  have kinds: "cd_kind x = cd_kind y"
    if "x \<in> ?f ` set (grouped snd (readers_since d ids u))" "y \<in> ?f ` set (grouped snd (readers_since d ids u))" "cd_client x = cd_client y"
    for x y d
  proof -
    have "kind_ok (cd_client z) (cd_kind z)" if "z \<in> ?f ` set (grouped snd (readers_since d ids u))" for z
      using that readers_kind [OF ok] unfolding mem by auto
    then show ?thesis using that kind_ok_unique by metis
  qed
  have "sort_key (\<lambda>x. (- int (cd_datasets x), cd_client x)) (filter (\<lambda>_. True) (map ?f (grouped snd (readers_since d ids u)))) =
      sort_key (\<lambda>x. (- int (cd_datasets x), cd_client x)) (filter (\<lambda>_. True) (map ?f (grouped snd (readers_since d ids v))))" for d
  proof (rule sorted_groups_cong [where h = "\<lambda>x. (cd_client x, cd_kind x)"])
    show "(cd_client (?f g), cd_kind (?f g)) = fst g" for g by (simp add: split_beta)
    show "x \<in> ?f ` set (grouped snd (readers_since d ids u)) \<and> True \<longleftrightarrow> x \<in> ?f ` set (grouped snd (readers_since d ids v)) \<and> True" for x
      unfolding mem sets by simp
    show "(cd_client x, cd_kind x) = (cd_client y, cd_kind y)"
      if "x \<in> ?f ` set (grouped snd (readers_since d ids u))" "y \<in> ?f ` set (grouped snd (readers_since d ids u))"
        "(- int (cd_datasets x), cd_client x) = (- int (cd_datasets y), cd_client y)" for x y
      using that(3) kinds [OF that(1,2)] by simp
  qed
  then show ?thesis by (simp add: read_client_datasets_def filter_True)
qed

text \<open>The two rows of \<open>read_client_day_reads\<close> and \<open>read_client_last_reads\<close> before the outer grouping.\<close>

abbreviation cy_key :: "client_day_reads \<Rightarrow> day \<times> string \<times> read_client_kind" where
  "cy_key x \<equiv> (cy_day x, cy_client x, cy_kind x)"

definition client_days :: "day \<Rightarrow> uuid list option \<Rightarrow> client_args \<Rightarrow> usage_db \<Rightarrow> client_day_reads list" where
  "client_days since_day ids a u =
     map (\<lambda>((d, c, k), rs). \<lparr>cy_day = d, cy_client = c, cy_kind = k, cy_reads = length rs\<rparr>)
       (grouped (\<lambda>r. (utc_day (rd_at r), rd_client r, rd_client_kind r))
         (filter (\<lambda>r. rd_kind r = READ \<and> since_day \<le> utc_day (rd_at r) \<and> dataset_selected ids (rd_dataset r)
              \<and> client_selected a (rd_client r) (rd_client_kind r)) (read_rows u))) @
     map (\<lambda>((d, c, k), ys). \<lparr>cy_day = d, cy_client = c, cy_kind = k, cy_reads = sum_list (map dy_reads ys)\<rparr>)
       (grouped (\<lambda>y. (dy_day y, dy_client y, dy_client_kind y))
         (filter (\<lambda>y. since_day \<le> dy_day y \<and> dataset_selected ids (dy_dataset y)
              \<and> client_selected a (dy_client y) (dy_client_kind y)) (daily_rows u)))"

lemma length_sum: "length rs = sum_list (map (\<lambda>r. 1) rs)"
  by (simp add: sum_list_triv)

lemma sum_list_if: "sum_list (map (\<lambda>r. 1 :: nat) (filter (\<lambda>r. R r \<and> Q r) rs)) = sum_list (map (\<lambda>r. if R r then 1 else 0) (filter Q rs))"
  by (induction rs) auto

lemma client_days_reads:
  "sum_list (map cy_reads (filter (\<lambda>x. cy_key x = (d, c, k)) (client_days since_day ids a u))) =
     reads_of (\<lambda>(i, c', k', d'). since_day \<le> d' \<and> dataset_selected ids i \<and> client_selected a c' k' \<and> (d', c', k') = (d, c, k)) (ledger u)"
proof -
  let ?R = "filter (\<lambda>r. rd_kind r = READ \<and> since_day \<le> utc_day (rd_at r) \<and> dataset_selected ids (rd_dataset r)
              \<and> client_selected a (rd_client r) (rd_client_kind r)) (read_rows u)"
  let ?D = "filter (\<lambda>y. since_day \<le> dy_day y \<and> dataset_selected ids (dy_dataset y)
              \<and> client_selected a (dy_client y) (dy_client_kind y)) (daily_rows u)"
  let ?K = "\<lambda>r. (utc_day (rd_at r), rd_client r, rd_client_kind r)"
  let ?L = "\<lambda>y. (dy_day y, dy_client y, dy_client_kind y)"
  let ?q = "(d, c, k)"
  have "sum_list (map cy_reads (filter (\<lambda>x. cy_key x = ?q) (client_days since_day ids a u))) =
      sum_list (map (\<lambda>g. length (snd g)) (filter (\<lambda>g. fst g = ?q) (grouped ?K ?R))) +
      sum_list (map (\<lambda>g. sum_list (map dy_reads (snd g))) (filter (\<lambda>g. fst g = ?q) (grouped ?L ?D)))"
    by (simp only: client_days_def filter_append map_append sum_list_append filter_map map_map comp_def split_beta
        client_day_reads.select_convs prod.collapse)
  also have "sum_list (map (\<lambda>g. length (snd g)) (filter (\<lambda>g. fst g = ?q) (grouped ?K ?R))) =
      sum_list (map (\<lambda>r. 1) (filter (\<lambda>r. ?K r = ?q) ?R))"
    by (rule grouped_sum) (simp only: snd_conv length_sum)
  also have "\<dots> = sum_list (map (\<lambda>r. if rd_kind r = READ then 1 else 0)
      (filter (\<lambda>r. since_day \<le> utc_day (rd_at r) \<and> dataset_selected ids (rd_dataset r)
        \<and> client_selected a (rd_client r) (rd_client_kind r) \<and> ?K r = ?q) (read_rows u)))"
    by (simp only: filter_filter sum_list_if [symmetric] conj_ac)
  also have "sum_list (map (\<lambda>g. sum_list (map dy_reads (snd g))) (filter (\<lambda>g. fst g = ?q) (grouped ?L ?D))) =
      sum_list (map dy_reads (filter (\<lambda>y. ?L y = ?q) ?D))"
    by (rule grouped_sum) simp
  finally show ?thesis
    by (simp only: reads_of_def ledger_def filter_append map_append sum_list_append filter_map map_map comp_def
        read_entry_def daily_entry_def read_group_def ledger_entry.select_convs case_prod_conv filter_filter conj_ac)
qed

lemma keyed_image:
  assumes "\<And>q n. h (R q n) = q" and "\<And>q n. v (R q n) = n" and "\<And>x. R (h x) (v x) = x"
  shows "x \<in> (\<lambda>q. R q (F q)) ` S \<longleftrightarrow> h x \<in> S \<and> v x = F (h x)"
proof
  assume "x \<in> (\<lambda>q. R q (F q)) ` S"
  then show "h x \<in> S \<and> v x = F (h x)" using assms(1,2) by auto
next
  assume "h x \<in> S \<and> v x = F (h x)"
  then show "x \<in> (\<lambda>q. R q (F q)) ` S" using assms(3) [of x] by (intro rev_image_eqI [of "h x"]) simp_all
qed

lemma client_day_rows:
  "x \<in> (\<lambda>((d, c, k), xs). \<lparr>cy_day = d, cy_client = c, cy_kind = k, cy_reads = sum_list (map cy_reads xs)\<rparr>) `
       set (grouped cy_key (client_days since_day ids a u)) \<and> 0 < cy_reads x \<longleftrightarrow>
     0 < cy_reads x \<and> cy_reads x =
       reads_of (\<lambda>(i, c', k', d'). since_day \<le> d' \<and> dataset_selected ids i \<and> client_selected a c' k' \<and> (d', c', k') = cy_key x) (ledger u)"
proof -
  let ?E = "client_days since_day ids a u"
  let ?n = "\<lambda>q. sum_list (map cy_reads (filter (\<lambda>x. cy_key x = q) ?E))"
  have img: "(\<lambda>((d, c, k), xs). \<lparr>cy_day = d, cy_client = c, cy_kind = k, cy_reads = sum_list (map cy_reads xs)\<rparr>) ` set (grouped cy_key ?E) =
      (\<lambda>q. \<lparr>cy_day = fst q, cy_client = fst (snd q), cy_kind = snd (snd q), cy_reads = ?n q\<rparr>) ` cy_key ` set ?E"
    unfolding grouped_def set_map image_image set_from_keys by (simp add: split_beta)
  have pos: "q \<in> cy_key ` set ?E" if "0 < ?n q" for q
  proof -
    have "filter (\<lambda>x. cy_key x = q) ?E \<noteq> []" using that by (metis list.simps(8) less_irrefl sum_list.Nil)
    then show ?thesis by (auto simp: filter_empty_conv)
  qed
  have mem: "x \<in> (\<lambda>q. \<lparr>cy_day = fst q, cy_client = fst (snd q), cy_kind = snd (snd q), cy_reads = ?n q\<rparr>) ` cy_key ` set ?E \<longleftrightarrow>
      cy_key x \<in> cy_key ` set ?E \<and> cy_reads x = ?n (cy_key x)"
    by (rule keyed_image [where R = "\<lambda>q n. \<lparr>cy_day = fst q, cy_client = fst (snd q), cy_kind = snd (snd q), cy_reads = n\<rparr>"]) simp_all
  have "x \<in> (\<lambda>((d, c, k), xs). \<lparr>cy_day = d, cy_client = c, cy_kind = k, cy_reads = sum_list (map cy_reads xs)\<rparr>) `
      set (grouped cy_key ?E) \<and> 0 < cy_reads x \<longleftrightarrow> 0 < cy_reads x \<and> cy_reads x = ?n (cy_key x)"
    unfolding img mem using pos [of "cy_key x"] by auto
  then show ?thesis by (simp only: client_days_reads)
qed

lemma client_day_reads_same:
  assumes "same_ledger u v"
  shows "read_client_day_reads ids now days a u = read_client_day_reads ids now days a v"
proof -
  let ?f = "\<lambda>((d, c, k), xs). \<lparr>cy_day = d, cy_client = c, cy_kind = k, cy_reads = sum_list (map cy_reads xs)\<rparr>"
  have "sort_key cy_key (filter (\<lambda>x. 0 < cy_reads x) (map ?f (grouped cy_key (client_days since ids a u)))) =
      sort_key cy_key (filter (\<lambda>x. 0 < cy_reads x) (map ?f (grouped cy_key (client_days since ids a v))))" for since
  proof (rule sorted_groups_cong [where h = cy_key])
    show "cy_key (?f g) = fst g" for g by (simp add: split_beta)
    show "x \<in> ?f ` set (grouped cy_key (client_days since ids a u)) \<and> 0 < cy_reads x \<longleftrightarrow>
        x \<in> ?f ` set (grouped cy_key (client_days since ids a v)) \<and> 0 < cy_reads x" for x
      unfolding client_day_rows using assms by (simp add: same_ledger_def)
  qed
  then show ?thesis unfolding read_client_day_reads_def Let_def client_days_def [symmetric] by simp
qed

abbreviation lr_key :: "client_last_read \<Rightarrow> uuid \<times> string \<times> read_client_kind" where
  "lr_key x \<equiv> (lr_dataset x, lr_client x, lr_kind x)"

definition client_lasts :: "uuid list \<Rightarrow> usage_db \<Rightarrow> client_last_read list" where
  "client_lasts ids u =
     map (\<lambda>((i, c, k), rs). \<lparr>lr_dataset = i, lr_client = c, lr_kind = k, lr_last_read_at = newest rd_at rs\<rparr>)
       (grouped (\<lambda>r. (rd_dataset r, rd_client r, rd_client_kind r))
         (filter (\<lambda>r. rd_dataset r \<in> set ids) (read_rows u))) @
     map (\<lambda>((i, c, k), ys). \<lparr>lr_dataset = i, lr_client = c, lr_kind = k, lr_last_read_at = newest dy_last_read_at ys\<rparr>)
       (grouped (\<lambda>y. (dy_dataset y, dy_client y, dy_client_kind y))
         (filter (\<lambda>y. dy_dataset y \<in> set ids) (daily_rows u)))"

lemma client_lasts_last:
  "sql_max (map lr_last_read_at (filter (\<lambda>x. lr_key x = q) (client_lasts ids u))) =
     last_of (\<lambda>(i, c, k, d). i \<in> set ids \<and> (i, c, k) = q) (ledger u)"
proof (rule last_ofI)
  fix b
  let ?R = "filter (\<lambda>r. rd_dataset r \<in> set ids) (read_rows u)"
  let ?D = "filter (\<lambda>y. dy_dataset y \<in> set ids) (daily_rows u)"
  let ?K = "\<lambda>r. (rd_dataset r, rd_client r, rd_client_kind r)"
  let ?L = "\<lambda>y. (dy_dataset y, dy_client y, dy_client_kind y)"
  have "(\<forall>x\<in>set (filter (\<lambda>x. lr_key x = q) (client_lasts ids u)). lr_last_read_at x \<le> b) \<longleftrightarrow>
      (\<forall>g\<in>set (filter (\<lambda>g. fst g = q) (grouped ?K ?R)). newest rd_at (snd g) \<le> b) \<and>
      (\<forall>g\<in>set (filter (\<lambda>g. fst g = q) (grouped ?L ?D)). newest dy_last_read_at (snd g) \<le> b)"
    by (simp only: client_lasts_def filter_append set_append ball_Un filter_map set_map ball_simps comp_def split_beta
        client_last_read.select_convs prod.collapse)
  also have "(\<forall>g\<in>set (filter (\<lambda>g. fst g = q) (grouped ?K ?R)). newest rd_at (snd g) \<le> b) \<longleftrightarrow>
      (\<forall>r\<in>set (filter (\<lambda>r. ?K r = q) ?R). rd_at r \<le> b)"
    by (rule grouped_max) simp
  also have "(\<forall>g\<in>set (filter (\<lambda>g. fst g = q) (grouped ?L ?D)). newest dy_last_read_at (snd g) \<le> b) \<longleftrightarrow>
      (\<forall>y\<in>set (filter (\<lambda>y. ?L y = q) ?D). dy_last_read_at y \<le> b)"
    by (rule grouped_max) simp
  finally show "(\<forall>t\<in>set (map lr_last_read_at (filter (\<lambda>x. lr_key x = q) (client_lasts ids u))). t \<le> b) \<longleftrightarrow>
      last_le (\<lambda>(i, c, k, d). i \<in> set ids \<and> (i, c, k) = q) b (ledger u)"
    by (simp only: last_le_ledger set_map ball_simps) (auto simp: read_group_def)
qed

lemma client_last_rows:
  "x \<in> (\<lambda>((i, c, k), xs). \<lparr>lr_dataset = i, lr_client = c, lr_kind = k, lr_last_read_at = newest lr_last_read_at xs\<rparr>) `
       set (grouped lr_key (client_lasts ids u)) \<longleftrightarrow>
     last_of (\<lambda>(i, c, k, d). i \<in> set ids \<and> (i, c, k) = lr_key x) (ledger u) = Some (lr_last_read_at x)"
proof -
  let ?E = "client_lasts ids u"
  let ?xs = "\<lambda>q. filter (\<lambda>x. lr_key x = q) ?E"
  have img: "(\<lambda>((i, c, k), xs). \<lparr>lr_dataset = i, lr_client = c, lr_kind = k, lr_last_read_at = newest lr_last_read_at xs\<rparr>) `
      set (grouped lr_key ?E) =
      (\<lambda>q. \<lparr>lr_dataset = fst q, lr_client = fst (snd q), lr_kind = snd (snd q), lr_last_read_at = newest lr_last_read_at (?xs q)\<rparr>) `
        lr_key ` set ?E"
    unfolding grouped_def set_map image_image set_from_keys by (simp add: split_beta)
  have last: "q \<in> lr_key ` set ?E \<and> newest lr_last_read_at (?xs q) = t \<longleftrightarrow> sql_max (map lr_last_read_at (?xs q)) = Some t" for q t
    by (auto simp: sql_max_def filter_empty_conv)
  have mem: "x \<in> (\<lambda>q. \<lparr>lr_dataset = fst q, lr_client = fst (snd q), lr_kind = snd (snd q), lr_last_read_at = newest lr_last_read_at (?xs q)\<rparr>) `
        lr_key ` set ?E \<longleftrightarrow> lr_key x \<in> lr_key ` set ?E \<and> lr_last_read_at x = newest lr_last_read_at (?xs (lr_key x))"
    by (rule keyed_image [where R = "\<lambda>q n. \<lparr>lr_dataset = fst q, lr_client = fst (snd q), lr_kind = snd (snd q), lr_last_read_at = n\<rparr>"]) simp_all
  have "x \<in> (\<lambda>((i, c, k), xs). \<lparr>lr_dataset = i, lr_client = c, lr_kind = k, lr_last_read_at = newest lr_last_read_at xs\<rparr>) `
      set (grouped lr_key ?E) \<longleftrightarrow> sql_max (map lr_last_read_at (?xs (lr_key x))) = Some (lr_last_read_at x)"
    unfolding img mem using last [of "lr_key x" "lr_last_read_at x"] by auto
  then show ?thesis by (simp only: client_lasts_last)
qed

lemma client_last_reads_same:
  assumes same: "same_ledger u v" and ok: "usage_ok u"
  shows "read_client_last_reads ids u = read_client_last_reads ids v"
proof -
  let ?f = "\<lambda>((i, c, k), xs). \<lparr>lr_dataset = i, lr_client = c, lr_kind = k, lr_last_read_at = newest lr_last_read_at xs\<rparr>"
  have kinds: "kind_ok (lr_client x) (lr_kind x)" if "x \<in> ?f ` set (grouped lr_key (client_lasts ids u))" for x
  proof -
    have "last_of (\<lambda>(i, c, k, d). i \<in> set ids \<and> (i, c, k) = lr_key x) (ledger u) \<noteq> None"
      using that unfolding client_last_rows by simp
    then obtain e where "e \<in> set (ledger u)" "(\<lambda>(i, c, k, d). i \<in> set ids \<and> (i, c, k) = lr_key x) (le_key e)"
      by (auto simp: last_of_def filter_empty_conv)
    then show ?thesis using ok
      by (auto simp: ledger_def read_entry_def daily_entry_def read_group_def usage_ok_def list_all_iff)
  qed
  have "sort_key (\<lambda>x. (lr_dataset x, lr_client x)) (filter (\<lambda>_. True) (map ?f (grouped lr_key (client_lasts ids u)))) =
      sort_key (\<lambda>x. (lr_dataset x, lr_client x)) (filter (\<lambda>_. True) (map ?f (grouped lr_key (client_lasts ids v))))"
  proof (rule sorted_groups_cong [where h = lr_key])
    show "lr_key (?f g) = fst g" for g by (simp add: split_beta)
    show "x \<in> ?f ` set (grouped lr_key (client_lasts ids u)) \<and> True \<longleftrightarrow>
        x \<in> ?f ` set (grouped lr_key (client_lasts ids v)) \<and> True" for x
      unfolding client_last_rows using same by (simp add: same_ledger_def)
    show "lr_key x = lr_key y" if "x \<in> ?f ` set (grouped lr_key (client_lasts ids u))" "y \<in> ?f ` set (grouped lr_key (client_lasts ids u))"
        "(lr_dataset x, lr_client x) = (lr_dataset y, lr_client y)" for x y
      using that(3) kind_ok_unique kinds [OF that(1)] kinds [OF that(2)] by auto
  qed
  then show ?thesis unfolding read_client_last_reads_def Let_def client_lasts_def [symmetric] by (simp add: filter_True)
qed

section \<open>Properties\<close>

definition sample_read :: "uuid \<Rightarrow> string \<Rightarrow> read_client_kind \<Rightarrow> instant \<Rightarrow> read_row" where
  "sample_read i c k t = \<lparr>rd_id = i, rd_dataset = 1, rd_client = c, rd_client_kind = k, rd_kind = READ, rd_route = ''/bars'',
     rd_bars = 5, rd_at = t, rd_opened_at = None, rd_closed_at = None\<rparr>"

definition sample_usage :: usage_db where
  "sample_usage = \<lparr>read_rows = [sample_read 1 ''bot'' SDK 10, sample_read 2 ''operator'' UI 20, sample_read 3 ''bot'' SDK one_day],
     daily_rows = [], read_table = True, daily_table = True\<rparr>"

lemma sample_usage_ok: "usage_ok sample_usage"
  by (simp add: usage_ok_def sample_usage_def sample_read_def kind_ok_def OPERATOR_PRINCIPAL_def)

text \<open>C18. The rollup is invisible: a fold at any cutoff succeeds, keeps the tables well formed, and every query
  of the repository (usage and last read of datasets, reads per day, readers, clients, reads per day and client,
  last read per client) answers after it exactly as before, for every filter, window and instant.\<close>

theorem rollup_is_invisible:
  assumes "usage_ok u" and "fold_reads_before None cutoff u = (res, u')"
  shows "(\<exists>n. res = Inr n) \<and> usage_ok u'
    \<and> read_dataset_usage ids (Aware now) w a u' = read_dataset_usage ids (Aware now) w a u
    \<and> read_daily_reads ids (Aware now) w a u' = read_daily_reads ids (Aware now) w a u
    \<and> read_readers ds (Aware now) w u' = read_readers ds (Aware now) w u
    \<and> read_client_datasets ds (Aware now) w u' = read_client_datasets ds (Aware now) w u
    \<and> read_client_day_reads ids (Aware now) w a u' = read_client_day_reads ids (Aware now) w a u
    \<and> read_client_last_reads ds u' = read_client_last_reads ds u"
proof -
  note same = fold_keeps [OF assms]
  have "read_dataset_usage ids (Aware now) w a u' = read_dataset_usage ids (Aware now) w a u"
    using same(1) by (simp add: usage_of_ledger same_ledger_def)
  then show ?thesis
    using same(2) fold_result [OF assms(1), of cutoff] assms(2) daily_reads_same [OF same(1)] read_readers_same [OF same(1)]
      client_datasets_same [OF same(1) assms(1)] client_day_reads_same [OF same(1)] client_last_reads_same [OF same(1) assms(1)]
    by simp
qed

theorem rollup_is_invisible_witness:
  "read_client_last_reads [1] (snd (fold_reads_before None one_day sample_usage)) = read_client_last_reads [1] sample_usage"
proof -
  obtain res u' where f: "fold_reads_before None one_day sample_usage = (res, u')" by (cases "fold_reads_before None one_day sample_usage")
  from rollup_is_invisible [OF sample_usage_ok this, of None 0 0 "\<lparr>ca_kinds = None, ca_ids = None\<rparr>" "[1]"] f show ?thesis by simp
qed

text \<open>A second fold at the same cutoff finds nothing.\<close>

lemma fold_again:
  assumes "usage_ok u" and "fold_reads_before None cutoff u = (res, u')"
  shows "fold_reads_before None cutoff u' = (Inr 0, u')"
proof -
  have "filter (\<lambda>r. rd_at r < cutoff) (read_rows u') = []" "filter (\<lambda>r. \<not> rd_at r < cutoff) (read_rows u') = read_rows u'"
    using assms fold_result [OF assms(1), of cutoff] by (auto simp: filter_empty_conv)
  then show ?thesis using fold_result [OF fold_keeps(2) [OF assms], of cutoff] by (simp add: folded_def grouped_def from_keys_def)
qed

end
