(* ===== verification/Usage_Recorder.thy ===== *)
theory Usage_Recorder
  imports Usage_Reads Reaper
begin

text \<open>
  \<open>server/data/store/app/usage_recorder.py\<close>: reads are buffered in process and written in batches. The state
  is the record \<open>recorder\<close>; the two loops are runs of the periodic loop (\<open>Scheduling\<close>) over \<open>flush\<close> and
  \<open>roll_up\<close>. A flush awaits the database, and what other tasks record meanwhile is its argument \<open>arrived\<close>;
  how it may end early is its argument of type \<open>flush_end\<close>.
\<close>

section \<open>Settings\<close>

definition FLUSH_INTERVAL_ENV :: string where "FLUSH_INTERVAL_ENV = ''USAGE_FLUSH_INTERVAL_SECONDS''"
definition FLUSH_BATCH_SIZE_ENV :: string where "FLUSH_BATCH_SIZE_ENV = ''USAGE_FLUSH_BATCH_SIZE''"
definition BUFFER_MAX_ENV :: string where "BUFFER_MAX_ENV = ''USAGE_BUFFER_MAX''"
definition ROLLUP_AFTER_DAYS_ENV :: string where "ROLLUP_AFTER_DAYS_ENV = ''USAGE_ROLLUP_AFTER_DAYS''"
definition DEFAULT_FLUSH_BATCH_SIZE :: int where "DEFAULT_FLUSH_BATCH_SIZE = 500"
definition DEFAULT_BUFFER_MAX :: int where "DEFAULT_BUFFER_MAX = 10000"
definition DEFAULT_ROLLUP_AFTER_DAYS :: int where "DEFAULT_ROLLUP_AFTER_DAYS = 90"
definition MAX_IDS_PER_DATASET_DAY :: nat where "MAX_IDS_PER_DATASET_DAY = 32"

section \<open>The buffer\<close>

record recorder =
  rc_flush_batch_size :: int
  rc_buffer_max :: int
  rc_wake :: bool
  rc_buffer :: "read_row list"
  rc_dropped :: nat
  rc_tables_ready :: bool
  rc_warned_missing :: bool

definition mk_recorder :: "int \<Rightarrow> int \<Rightarrow> recorder" where
  "mk_recorder flush_batch_size buffer_max =
     \<lparr>rc_flush_batch_size = flush_batch_size, rc_buffer_max = max buffer_max flush_batch_size, rc_wake = False,
      rc_buffer = [], rc_dropped = 0, rc_tables_ready = False, rc_warned_missing = False\<rparr>"

definition recorder_from_env :: "(string \<rightharpoonup> string) \<Rightarrow> recorder" where
  "recorder_from_env env =
     mk_recorder (positive_int_env env FLUSH_BATCH_SIZE_ENV DEFAULT_FLUSH_BATCH_SIZE)
       (positive_int_env env BUFFER_MAX_ENV DEFAULT_BUFFER_MAX)"

definition trim :: "recorder \<Rightarrow> recorder" where
  "trim rc =
     (let excess = nat (int (length (rc_buffer rc)) - rc_buffer_max rc)
      in if excess > 0 then rc\<lparr>rc_buffer := drop excess (rc_buffer rc), rc_dropped := rc_dropped rc + excess\<rparr> else rc)"

definition append_read :: "read_row \<Rightarrow> recorder \<Rightarrow> recorder" where
  "append_read row rc =
     (let rc' = trim (rc\<lparr>rc_buffer := rc_buffer rc @ [row]\<rparr>)
      in if int (length (rc_buffer rc')) \<ge> rc_flush_batch_size rc' then rc'\<lparr>rc_wake := True\<rparr> else rc')"

definition new_read :: "uuid \<Rightarrow> uuid \<Rightarrow> client_label \<Rightarrow> string \<Rightarrow> int \<Rightarrow> instant \<Rightarrow> read_row" where
  "new_read i dataset label route returned read_at =
     \<lparr>rd_id = i, rd_dataset = dataset, rd_client = cl_id label, rd_client_kind = cl_kind label, rd_kind = READ,
      rd_route = route, rd_bars = returned, rd_at = read_at, rd_opened_at = None, rd_closed_at = None\<rparr>"

definition record_read :: "uuid \<Rightarrow> uuid \<Rightarrow> client_label \<Rightarrow> string \<Rightarrow> int \<Rightarrow> instant \<Rightarrow> recorder \<Rightarrow> recorder" where
  "record_read i dataset label route returned read_at =
     append_read (new_read i dataset label route returned read_at)"

section \<open>The cap\<close>

definition counts_toward_cap :: "string \<Rightarrow> bool" where
  "counts_toward_cap c \<longleftrightarrow> c \<noteq> OPERATOR_PRINCIPAL \<and> \<not> prefix RESERVED_PREFIX c"

definition with_client_id :: "read_row \<Rightarrow> string \<Rightarrow> read_row" where
  "with_client_id row c = row\<lparr>rd_client := c\<rparr>"

abbreviation cap_key :: "read_row \<Rightarrow> uuid \<times> day" where
  "cap_key r \<equiv> (rd_dataset r, utc_day (rd_at r))"

fun cap_each :: "(uuid \<times> day \<Rightarrow> string set) \<Rightarrow> read_row list \<Rightarrow> read_row list" where
  "cap_each seen [] = []"
| "cap_each seen (r # rs) =
     (if \<not> counts_toward_cap (rd_client r) then r # cap_each seen rs
      else let ids = seen (cap_key r)
           in if rd_client r \<in> ids \<or> card ids < MAX_IDS_PER_DATASET_DAY
              then r # cap_each (seen(cap_key r := insert (rd_client r) ids)) rs
              else with_client_id r OVERFLOW # cap_each seen rs)"

definition apply_cap :: "usage_db \<Rightarrow> read_row list \<Rightarrow> read_row list" where
  "apply_cap u batch =
     (let capped = filter (\<lambda>r. counts_toward_cap (rd_client r)) batch
      in if capped = [] then batch
         else let days = map (\<lambda>r. utc_day (rd_at r)) capped;
                  lower = z_midnight UTC (Min (set days));
                  upper = z_midnight UTC (Max (set days)) + one_day;
                  known = known_client_ids (map rd_dataset capped) lower upper u
              in cap_each (\<lambda>k. Set.filter counts_toward_cap (known k)) batch)"

section \<open>The flush\<close>

text \<open>
  How far a flush got when an exception (of the session, a statement, the commit or its acknowledgement)
  or a cancellation ended it.
\<close>

datatype reached = BeforeProbe | BeforeCommit | AfterCommit
datatype flush_end = Undisturbed | Raised reached | CancelledAt reached

definition put_back :: "read_row list \<Rightarrow> recorder \<Rightarrow> recorder" where
  "put_back batch rc = trim (rc\<lparr>rc_buffer := batch @ rc_buffer rc\<rparr>)"

definition flush_failed :: "read_row list \<Rightarrow> recorder \<Rightarrow> recorder" where
  "flush_failed batch rc = put_back batch (rc\<lparr>rc_tables_ready := False\<rparr>)"

datatype flush_result = Flushed nat | FlushCancelled

text \<open>\<open>rc_wake\<close> is cleared by the loop that waits on it, not here.\<close>

definition flush :: "flush_end \<Rightarrow> read_row list \<Rightarrow> recorder \<Rightarrow> usage_db \<Rightarrow> flush_result \<times> recorder \<times> usage_db" where
  "flush disturbance arrived rc u =
     (let rc0 = rc\<lparr>rc_dropped := 0\<rparr>
      in if rc_buffer rc0 = [] then (Flushed 0, rc0, u)
         else
           let batch = rc_buffer rc0;
               rc1 = fold append_read arrived (rc0\<lparr>rc_buffer := []\<rparr>);
               probed = rc1\<lparr>rc_tables_ready := True\<rparr>;
               write = insert_reads None (apply_cap u batch) u
           in case disturbance of
                Raised BeforeProbe \<Rightarrow> (Flushed 0, flush_failed batch rc1, u)
              | CancelledAt BeforeProbe \<Rightarrow> (FlushCancelled, put_back batch rc1, u)
              | _ \<Rightarrow>
                if \<not> rc_tables_ready rc1 \<and> \<not> usage_tables_exist u
                then (case disturbance of
                        Undisturbed \<Rightarrow> (Flushed 0, rc1\<lparr>rc_warned_missing := True\<rparr>, u)
                      | Raised _ \<Rightarrow> (Flushed 0, flush_failed batch (rc1\<lparr>rc_warned_missing := True\<rparr>), u)
                      | CancelledAt _ \<Rightarrow> (FlushCancelled, put_back batch (rc1\<lparr>rc_warned_missing := True\<rparr>), u))
                else
                  (case disturbance of
                     Raised BeforeCommit \<Rightarrow> (Flushed 0, flush_failed batch probed, u)
                   | CancelledAt BeforeCommit \<Rightarrow> (FlushCancelled, put_back batch probed, u)
                   | _ \<Rightarrow>
                     (case write of
                        (Inl e, u') \<Rightarrow> (Flushed 0, flush_failed batch probed, u')
                      | (Inr n, u') \<Rightarrow>
                        (case disturbance of
                           Raised _ \<Rightarrow> (Flushed 0, flush_failed batch probed, u')
                         | CancelledAt _ \<Rightarrow> (FlushCancelled, put_back batch probed, u')
                         | Undisturbed \<Rightarrow> (Flushed n, probed, u')))))"

section \<open>Sessions and the rollup\<close>

definition session_row :: "uuid \<Rightarrow> uuid \<Rightarrow> client_label \<Rightarrow> string \<Rightarrow> instant \<Rightarrow> read_row" where
  "session_row i dataset label route opened =
     \<lparr>rd_id = i, rd_dataset = dataset, rd_client = cl_id label, rd_client_kind = cl_kind label, rd_kind = STREAM_SESSION,
      rd_route = route, rd_bars = 0, rd_at = opened, rd_opened_at = Some opened, rd_closed_at = None\<rparr>"

definition record_session_open ::
  "sql_error option \<Rightarrow> uuid \<Rightarrow> uuid \<Rightarrow> client_label \<Rightarrow> string \<Rightarrow> instant \<Rightarrow> recorder \<Rightarrow> usage_db \<Rightarrow>
   uuid option \<times> recorder \<times> usage_db" where
  "record_session_open fault i dataset label route opened rc u =
     (if \<not> usage_tables_exist u then (None, rc\<lparr>rc_warned_missing := True\<rparr>, u)
      else case insert_reads fault (apply_cap u [session_row i dataset label route opened]) u of
             (Inl e, u') \<Rightarrow> (None, rc, u')
           | (Inr n, u') \<Rightarrow> (Some i, rc, u'))"

definition record_session_close :: "sql_error option \<Rightarrow> uuid option \<Rightarrow> int \<Rightarrow> instant \<Rightarrow> usage_db \<Rightarrow> usage_db" where
  "record_session_close fault session bars_returned closed_at u =
     (case session of None \<Rightarrow> u | Some i \<Rightarrow> snd (close_session fault i closed_at bars_returned u))"

definition roll_up ::
  "(string \<rightharpoonup> string) \<Rightarrow> sql_error option \<Rightarrow> instant \<Rightarrow> int option \<Rightarrow> recorder \<Rightarrow> usage_db \<Rightarrow> nat \<times> recorder \<times> usage_db" where
  "roll_up env fault now after_days rc u =
     (let days = (case after_days of Some n \<Rightarrow> n
                  | None \<Rightarrow> positive_int_env env ROLLUP_AFTER_DAYS_ENV DEFAULT_ROLLUP_AFTER_DAYS);
          cutoff = now - days * one_day
      in if \<not> usage_tables_exist u then (0, rc\<lparr>rc_warned_missing := True\<rparr>, u)
         else case fold_reads_before fault cutoff u of
                (Inl e, u') \<Rightarrow> (0, rc, u')
              | (Inr n, u') \<Rightarrow> (n, rc, u'))"

section \<open>What the cap changes\<close>

definition same_read :: "read_row \<Rightarrow> read_row \<Rightarrow> bool" where
  "same_read r r' \<longleftrightarrow> r' = r \<or> counts_toward_cap (rd_client r) \<and> r' = with_client_id r OVERFLOW"

lemma OVERFLOW_reserved [simp]: "\<not> counts_toward_cap OVERFLOW"
  by (simp add: counts_toward_cap_def OVERFLOW_def RESERVED_PREFIX_def)

lemma same_read_keeps: "same_read r r' \<Longrightarrow> r'\<lparr>rd_client := c\<rparr> = r\<lparr>rd_client := c\<rparr>"
  by (auto simp: same_read_def with_client_id_def)

lemma same_read_refl: "same_read r r"
  by (simp add: same_read_def)

lemma same_read_over: "counts_toward_cap (rd_client r) \<Longrightarrow> same_read r (with_client_id r OVERFLOW)"
  by (simp add: same_read_def)

lemma cap_each_same: "list_all2 same_read rs (cap_each seen rs)"
proof (induction rs arbitrary: seen)
  case (Cons r rs)
  then show ?case by (simp add: Let_def same_read_refl same_read_over)
qed simp

lemma apply_cap_same: "list_all2 same_read batch (apply_cap u batch)"
proof (cases "filter (\<lambda>r. counts_toward_cap (rd_client r)) batch = []")
  case True
  have "list_all2 same_read batch batch" by (rule list.rel_refl) (simp add: same_read_def)
  then show ?thesis using True by (simp add: apply_cap_def)
qed (simp add: apply_cap_def Let_def cap_each_same)

lemma same_reads_ids: "list_all2 same_read rs rs' \<Longrightarrow> map rd_id rs' = map rd_id rs"
  by (induction rule: list_all2_induct) (auto simp: same_read_def with_client_id_def)

lemma same_reads_kinds:
  "list_all2 same_read rs rs' \<Longrightarrow> list_all (\<lambda>r. kind_ok (rd_client r) (rd_client_kind r)) rs \<Longrightarrow>
     list_all (\<lambda>r. kind_ok (rd_client r) (rd_client_kind r)) rs'"
  by (induction rule: list_all2_induct)
    (auto simp: same_read_def with_client_id_def kind_ok_def counts_toward_cap_def OVERFLOW_def OPERATOR_PRINCIPAL_def)

definition ids_at :: "uuid \<times> day \<Rightarrow> read_row list \<Rightarrow> string set" where
  "ids_at k rs = rd_client ` {r \<in> set rs. counts_toward_cap (rd_client r) \<and> cap_key r = k}"

definition cap_ok :: "usage_db \<Rightarrow> bool" where
  "cap_ok u \<longleftrightarrow> (\<forall>k. card (ids_at k (read_rows u)) \<le> MAX_IDS_PER_DATASET_DAY)"

lemma cap_okD: "cap_ok u \<Longrightarrow> card (ids_at k (read_rows u)) \<le> MAX_IDS_PER_DATASET_DAY"
  unfolding cap_ok_def by blast

lemma finite_ids_at [simp]: "finite (ids_at k rs)"
  by (simp add: ids_at_def)

lemma ids_at_append [simp]: "ids_at k (xs @ ys) = ids_at k xs \<union> ids_at k ys"
  by (auto simp: ids_at_def)

lemma ids_at_Nil [simp]: "ids_at k [] = {}"
  by (simp add: ids_at_def)

lemma ids_at_Cons: "ids_at k (r # rs) = (if counts_toward_cap (rd_client r) \<and> cap_key r = k then {rd_client r} else {}) \<union> ids_at k rs"
  by (auto simp: ids_at_def)

lemma cap_each_bound:
  "(\<And>k. finite (seen k) \<and> card (seen k) \<le> MAX_IDS_PER_DATASET_DAY) \<Longrightarrow>
     card (seen k \<union> ids_at k (cap_each seen rs)) \<le> MAX_IDS_PER_DATASET_DAY"
proof (induction seen rs rule: cap_each.induct)
  case (2 seen r rs)
  consider (exempt) "\<not> counts_toward_cap (rd_client r)"
    | (kept) "counts_toward_cap (rd_client r)" "rd_client r \<in> seen (cap_key r) \<or> card (seen (cap_key r)) < MAX_IDS_PER_DATASET_DAY"
    | (over) "counts_toward_cap (rd_client r)" "\<not> (rd_client r \<in> seen (cap_key r) \<or> card (seen (cap_key r)) < MAX_IDS_PER_DATASET_DAY)"
    by blast
  then show ?case
  proof cases
    case exempt
    then show ?thesis using 2 by (simp add: ids_at_Cons)
  next
    case kept
    let ?seen = "seen(cap_key r := insert (rd_client r) (seen (cap_key r)))"
    have "finite (?seen j) \<and> card (?seen j) \<le> MAX_IDS_PER_DATASET_DAY" for j
      using kept(2) 2(4) [of j] 2(4) [of "cap_key r"] by (auto simp: card_insert_if insert_absorb)
    then have "card (?seen k \<union> ids_at k (cap_each ?seen rs)) \<le> MAX_IDS_PER_DATASET_DAY"
      using 2(2) [OF _ refl] kept by blast
    moreover have "seen k \<union> ids_at k (cap_each seen (r # rs)) = ?seen k \<union> ids_at k (cap_each ?seen rs)"
      using kept by (auto simp: ids_at_Cons Let_def)
    ultimately show ?thesis by simp
  next
    case over
    then have "cap_each seen (r # rs) = with_client_id r OVERFLOW # cap_each seen rs" by (simp add: Let_def)
    then have "ids_at k (cap_each seen (r # rs)) = ids_at k (cap_each seen rs)" by (simp add: ids_at_Cons with_client_id_def)
    then show ?thesis using 2(3) [OF _ refl] over 2(4) by auto
  qed
qed simp

lemma cap_each_members: "r \<in> set (cap_each seen rs) \<Longrightarrow> counts_toward_cap (rd_client r) \<Longrightarrow> r \<in> set rs"
  by (induction seen rs rule: cap_each.induct) (auto simp: Let_def with_client_id_def split: if_splits)

lemma utc_range:
  assumes "x \<in> set days"
  shows "z_date UTC t = x \<Longrightarrow> z_midnight UTC (Min (set days)) \<le> t \<and> t < z_midnight UTC (Max (set days)) + one_day"
proof -
  assume t: "z_date UTC t = x"
  have "Min (set days) \<le> z_date UTC t" "z_date UTC t \<le> Max (set days)" using assms t by simp_all
  then have "z_midnight UTC (Min (set days)) \<le> t" "t < z_midnight UTC (Max (set days) + 1)"
    using zone_date_ge [OF fixed_zone_ok] zone_date_less [OF fixed_zone_ok] by (metis, smt (verit))
  then show ?thesis by (simp add: fixed_zone_def algebra_simps)
qed

lemma apply_cap_bound:
  assumes "cap_ok u"
  shows "card (ids_at k (read_rows u @ apply_cap u batch)) \<le> MAX_IDS_PER_DATASET_DAY"
proof -
  let ?C = "filter (\<lambda>r. counts_toward_cap (rd_client r)) batch"
  show ?thesis
  proof (cases "?C = []")
    case True
    then have "ids_at k batch = {}" by (auto simp: ids_at_def filter_empty_conv)
    then show ?thesis using True cap_okD [OF assms] by (simp add: apply_cap_def)
  next
    case False
    let ?days = "map (\<lambda>r. utc_day (rd_at r)) ?C"
    let ?known = "known_client_ids (map rd_dataset ?C) (z_midnight UTC (Min (set ?days))) (z_midnight UTC (Max (set ?days)) + one_day) u"
    let ?seen = "\<lambda>k. Set.filter counts_toward_cap (?known k)"
    have cap: "apply_cap u batch = cap_each ?seen batch" using False by (simp add: apply_cap_def Let_def)
    have sub: "?seen j \<subseteq> ids_at j (read_rows u)" for j
      by (cases j) (auto simp: known_client_ids_def ids_at_def)
    have seen: "finite (?seen j) \<and> card (?seen j) \<le> MAX_IDS_PER_DATASET_DAY" for j
      using finite_subset [OF sub] card_mono [OF _ sub, of j] cap_okD [OF assms, of j] by (meson finite_ids_at le_trans)
    note bound = cap_each_bound [of ?seen k batch, OF seen]
    show ?thesis
    proof (cases "k \<in> cap_key ` set ?C")
      case True
      then obtain r where r: "r \<in> set ?C" "k = cap_key r" by blast
      have "ids_at k (read_rows u) \<subseteq> ?seen k"
      proof
        fix c
        assume "c \<in> ids_at k (read_rows u)"
        then obtain x where x: "x \<in> set (read_rows u)" "counts_toward_cap (rd_client x)" "cap_key x = k" "c = rd_client x"
          by (auto simp: ids_at_def)
        have "utc_day (rd_at r) \<in> set ?days" using r(1) by auto
        from utc_range [OF this, of "rd_at x"] have "z_midnight UTC (Min (set ?days)) \<le> rd_at x"
          "rd_at x < z_midnight UTC (Max (set ?days)) + one_day" using x(3) r(2) by simp_all
        moreover have "rd_dataset x \<in> set (map rd_dataset ?C)" using x(3) r by (cases k) auto
        ultimately show "c \<in> ?seen k" using x by (cases k) (simp add: known_client_ids_def)
      qed
      then have "?seen k = ids_at k (read_rows u)" using sub by blast
      then show ?thesis using bound cap by simp
    next
      case False
      then have "ids_at k (cap_each ?seen batch) = {}" using cap_each_members by (fastforce simp: ids_at_def)
      then show ?thesis using cap_okD [OF assms] cap by simp
    qed
  qed
qed

section \<open>What a flush does to the buffer\<close>

lemma trim_eq:
  "trim rc = (let n = nat (int (length (rc_buffer rc)) - rc_buffer_max rc)
              in rc\<lparr>rc_buffer := drop n (rc_buffer rc), rc_dropped := rc_dropped rc + n\<rparr>)"
  by (simp add: trim_def Let_def)

definition excess :: "recorder \<Rightarrow> nat \<Rightarrow> nat" where
  "excess rc n = nat (int n - rc_buffer_max rc)"

lemma append_read_buffer:
  assumes "0 \<le> rc_buffer_max rc" and "int (length (rc_buffer rc)) \<le> rc_buffer_max rc"
  shows "rc_buffer (append_read r rc) = drop (excess rc (length (rc_buffer rc) + 1)) (rc_buffer rc @ [r])"
    and "rc_dropped (append_read r rc) = rc_dropped rc + excess rc (length (rc_buffer rc) + 1)"
    and "rc_buffer_max (append_read r rc) = rc_buffer_max rc"
    and "rc_tables_ready (append_read r rc) = rc_tables_ready rc"
  by (simp_all add: append_read_def trim_eq Let_def excess_def add.commute)

lemma drop_drop_snoc: "m \<le> length ys \<Longrightarrow> drop k (drop m ys @ [x]) = drop (k + m) (ys @ [x])"
proof -
  assume "m \<le> length ys"
  then have "drop m ys @ [x] = drop m (ys @ [x])" by simp
  then show ?thesis by (simp only: drop_drop)
qed

text \<open>The oldest reads go, and each is counted.\<close>

lemma appends:
  assumes "0 \<le> rc_buffer_max rc" and "int (length (rc_buffer rc)) \<le> rc_buffer_max rc"
  defines "n xs \<equiv> excess rc (length (rc_buffer rc) + length xs)"
  shows "rc_buffer (fold append_read xs rc) = drop (n xs) (rc_buffer rc @ xs)
    \<and> rc_dropped (fold append_read xs rc) = rc_dropped rc + n xs
    \<and> rc_buffer_max (fold append_read xs rc) = rc_buffer_max rc
    \<and> rc_tables_ready (fold append_read xs rc) = rc_tables_ready rc"
proof (induction xs rule: rev_induct)
  case Nil
  then show ?case using assms(1,2) by (simp add: n_def excess_def)
next
  case (snoc x xs)
  let ?rc = "fold append_read xs rc"
  have len: "length (rc_buffer ?rc) = length (rc_buffer rc) + length xs - n xs" using snoc by simp
  have max: "0 \<le> rc_buffer_max ?rc" "int (length (rc_buffer ?rc)) \<le> rc_buffer_max ?rc"
    using snoc len assms(1) by (auto simp: n_def excess_def nat_le_iff)
  note step = append_read_buffer [OF max, of x]
  have e: "excess ?rc (length (rc_buffer ?rc) + 1) + n xs = n (xs @ [x])"
    using snoc len assms(1) by (simp add: n_def excess_def) linarith
  have "n xs \<le> length (rc_buffer rc) + length xs" using assms(1) by (simp add: n_def excess_def)
  then have "drop (excess ?rc (length (rc_buffer ?rc) + 1)) (drop (n xs) (rc_buffer rc @ xs) @ [x]) =
      drop (n (xs @ [x])) ((rc_buffer rc @ xs) @ [x])"
    unfolding e [symmetric] by (intro drop_drop_snoc) simp
  then show ?case using step snoc e by simp
qed

lemma put_back_buffer:
  "rc_buffer (put_back batch rc) = drop (excess rc (length batch + length (rc_buffer rc))) (batch @ rc_buffer rc)"
  "rc_dropped (put_back batch rc) = rc_dropped rc + excess rc (length batch + length (rc_buffer rc))"
  by (simp_all add: put_back_def trim_eq Let_def excess_def)

text \<open>A buffer within its bound; \<open>mk_recorder\<close> with positive settings is one.\<close>

definition recorder_ok :: "recorder \<Rightarrow> bool" where
  "recorder_ok rc \<longleftrightarrow> 0 \<le> rc_buffer_max rc \<and> int (length (rc_buffer rc)) \<le> rc_buffer_max rc"

lemma put_back_arrived:
  fixes arrived rc
  defines "rc1 \<equiv> fold append_read arrived (rc\<lparr>rc_dropped := 0, rc_buffer := []\<rparr>)"
  assumes ok: "recorder_ok rc"
  shows "rc_buffer (put_back (rc_buffer rc) rc1) = drop (excess rc (length (rc_buffer rc) + length arrived)) (rc_buffer rc @ arrived)"
    and "rc_dropped (put_back (rc_buffer rc) rc1) = excess rc (length (rc_buffer rc) + length arrived)"
proof -
  let ?rc = "rc\<lparr>rc_dropped := 0, rc_buffer := []\<rparr>" and ?b = "length (rc_buffer rc)" and ?a = "length arrived"
  have m: "0 \<le> rc_buffer_max rc" "int ?b \<le> rc_buffer_max rc" using ok by (auto simp: recorder_ok_def)
  have e: "excess ?rc n = excess rc n" for n by (simp add: excess_def)
  have ap: "rc_buffer rc1 = drop (excess rc ?a) arrived" "rc_dropped rc1 = excess rc ?a" "rc_buffer_max rc1 = rc_buffer_max rc"
    using appends [of ?rc arrived] m by (simp_all add: rc1_def e)
  have e1: "excess rc1 n = excess rc n" for n using ap(3) by (simp add: excess_def)
  have le: "excess rc ?a \<le> ?a" using m by (simp add: excess_def)
  have sum: "excess rc ?a + excess rc (?b + (?a - excess rc ?a)) = excess rc (?b + ?a)"
    using m by (simp add: excess_def) linarith
  show "rc_dropped (put_back (rc_buffer rc) rc1) = excess rc (?b + ?a)"
    unfolding put_back_buffer e1 using ap sum le by simp
  show "rc_buffer (put_back (rc_buffer rc) rc1) = drop (excess rc (?b + ?a)) (rc_buffer rc @ arrived)"
  proof (cases "excess rc ?a = 0")
    case True
    then show ?thesis unfolding put_back_buffer e1 using ap by simp
  next
    case False
    then have "excess rc (?b + (?a - excess rc ?a)) = ?b" "excess rc (?b + ?a) = ?b + excess rc ?a"
      using m by (auto simp: excess_def)
    then show ?thesis unfolding put_back_buffer e1 using ap by simp
  qed
qed

lemma insert_reads_cases:
  assumes "usage_tables_exist u"
  shows "insert_reads None rows u =
    (if distinct (map rd_id (read_rows u @ rows)) \<or> rows = [] then (Inr (length rows), u\<lparr>read_rows := read_rows u @ rows\<rparr>)
     else (Inl (sql_failure UNIQUE_VIOLATION), u))"
  using assms by (simp add: insert_reads_def usage_tables_exist_def)

definition commits :: "flush_end \<Rightarrow> bool" where
  "commits disturbance \<longleftrightarrow> disturbance \<in> {Undisturbed, Raised AfterCommit, CancelledAt AfterCommit}"

definition kept_back :: "recorder \<Rightarrow> read_row list \<Rightarrow> recorder \<Rightarrow> bool" where
  "kept_back rc arrived rc' \<longleftrightarrow>
     (let n = excess rc (length (rc_buffer rc) + length arrived)
      in rc_buffer rc' = drop n (rc_buffer rc @ arrived) \<and> rc_dropped rc' = n)"

lemma kept_backI:
  assumes "recorder_ok rc"
    and "rc_buffer rc' = rc_buffer (put_back (rc_buffer rc) (fold append_read arrived (rc\<lparr>rc_dropped := 0, rc_buffer := []\<rparr>)))"
    and "rc_dropped rc' = rc_dropped (put_back (rc_buffer rc) (fold append_read arrived (rc\<lparr>rc_dropped := 0, rc_buffer := []\<rparr>)))"
  shows "kept_back rc arrived rc'"
  using assms(2,3) put_back_arrived [OF assms(1), of arrived] by (simp add: kept_back_def Let_def)

lemma put_back_flags [simp]:
  "rc_buffer (put_back b (rc\<lparr>rc_tables_ready := x\<rparr>)) = rc_buffer (put_back b rc)"
  "rc_dropped (put_back b (rc\<lparr>rc_tables_ready := x\<rparr>)) = rc_dropped (put_back b rc)"
  "rc_buffer (put_back b (rc\<lparr>rc_warned_missing := x\<rparr>)) = rc_buffer (put_back b rc)"
  "rc_dropped (put_back b (rc\<lparr>rc_warned_missing := x\<rparr>)) = rc_dropped (put_back b rc)"
  "rc_buffer (flush_failed b rc) = rc_buffer (put_back b rc)"
  "rc_dropped (flush_failed b rc) = rc_dropped (put_back b rc)"
  by (simp_all add: put_back_def trim_eq Let_def flush_failed_def)

lemma apply_cap_ids: "map rd_id (apply_cap u batch) = map rd_id batch"
  by (rule same_reads_ids [OF apply_cap_same])

lemma apply_cap_empty: "apply_cap u batch = [] \<longleftrightarrow> batch = []"
  using apply_cap_ids [of u batch] by (metis map_is_Nil_conv)

lemma flush_outcome:
  assumes ok: "recorder_ok rc" and tables: "usage_tables_exist u" and ne: "rc_buffer rc \<noteq> []"
    and f: "flush disturbance arrived rc u = (res, rc', u')"
  shows "if commits disturbance \<and> distinct (map rd_id (read_rows u @ rc_buffer rc))
     then u' = u\<lparr>read_rows := read_rows u @ apply_cap u (rc_buffer rc)\<rparr>
       \<and> (if disturbance = Undisturbed
          then res = Flushed (length (rc_buffer rc)) \<and> rc_buffer rc' = drop (excess rc (length arrived)) arrived
             \<and> rc_dropped rc' = excess rc (length arrived)
          else kept_back rc arrived rc')
     else u' = u \<and> kept_back rc arrived rc'"
proof -
  let ?rc0 = "rc\<lparr>rc_dropped := 0, rc_buffer := []\<rparr>"
  let ?rc1 = "fold append_read arrived ?rc0"
  note putback = kept_backI [OF ok, of _ arrived]
  have wr: "insert_reads None (apply_cap u (rc_buffer rc)) u =
      (if distinct (map rd_id (read_rows u @ rc_buffer rc))
       then (Inr (length (rc_buffer rc)), u\<lparr>read_rows := read_rows u @ apply_cap u (rc_buffer rc)\<rparr>)
       else (Inl (sql_failure UNIQUE_VIOLATION), u))"
    using insert_reads_cases [OF tables, of "apply_cap u (rc_buffer rc)"] apply_cap_ids [of u "rc_buffer rc"] ne apply_cap_empty [of u "rc_buffer rc"]
    by (metis length_map map_append)
  have e: "excess ?rc0 n = excess rc n" for n by (simp add: excess_def)
  have ap: "rc_buffer ?rc1 = drop (excess rc (length arrived)) arrived" "rc_dropped ?rc1 = excess rc (length arrived)"
    using appends [of ?rc0 arrived] ok by (simp_all add: e recorder_ok_def)
  have run: "flush disturbance arrived rc u =
      (case disturbance of
         Raised BeforeProbe \<Rightarrow> (Flushed 0, flush_failed (rc_buffer rc) ?rc1, u)
       | CancelledAt BeforeProbe \<Rightarrow> (FlushCancelled, put_back (rc_buffer rc) ?rc1, u)
       | Raised BeforeCommit \<Rightarrow> (Flushed 0, flush_failed (rc_buffer rc) (?rc1\<lparr>rc_tables_ready := True\<rparr>), u)
       | CancelledAt BeforeCommit \<Rightarrow> (FlushCancelled, put_back (rc_buffer rc) (?rc1\<lparr>rc_tables_ready := True\<rparr>), u)
       | _ \<Rightarrow> (case insert_reads None (apply_cap u (rc_buffer rc)) u of
                (Inl e, u') \<Rightarrow> (Flushed 0, flush_failed (rc_buffer rc) (?rc1\<lparr>rc_tables_ready := True\<rparr>), u')
              | (Inr n, u') \<Rightarrow>
                (case disturbance of
                   Raised _ \<Rightarrow> (Flushed 0, flush_failed (rc_buffer rc) (?rc1\<lparr>rc_tables_ready := True\<rparr>), u')
                 | CancelledAt _ \<Rightarrow> (FlushCancelled, put_back (rc_buffer rc) (?rc1\<lparr>rc_tables_ready := True\<rparr>), u')
                 | Undisturbed \<Rightarrow> (Flushed n, ?rc1\<lparr>rc_tables_ready := True\<rparr>, u'))))"
    using tables ne by (simp add: flush_def Let_def split: flush_end.splits reached.splits)
  show ?thesis
  proof (cases "commits disturbance \<and> distinct (map rd_id (read_rows u @ rc_buffer rc))")
    case True
    then show ?thesis
      using f [unfolded run wr] ap by (auto simp: commits_def intro!: putback)
  next
    case False
    then have "u' = u \<and> kept_back rc arrived rc'"
      using f [unfolded run wr] by (auto simp: commits_def intro!: putback split: flush_end.splits reached.splits if_splits)
    then show ?thesis unfolding if_not_P [OF False] .
  qed
qed

section \<open>Properties\<close>

definition sample_recorder :: recorder where
  "sample_recorder = append_read (sample_read 7 ''bot'' SDK 30) (mk_recorder 2 3)"

lemma sample_recorder_ok: "recorder_ok sample_recorder" "rc_buffer sample_recorder = [sample_read 7 ''bot'' SDK 30]"
  by (simp_all add: sample_recorder_def recorder_ok_def append_read_def mk_recorder_def trim_def)

lemma sample_tables: "usage_tables_exist sample_usage"
  by (simp add: usage_tables_exist_def sample_usage_def)

text \<open>C19. No read is lost unseen. A flush of a non-empty buffer on a migrated database either commits the whole
  buffer, each read as it was recorded or under the overflow label, or leaves the tables alone; and whatever
  was not reported as written is back in the buffer, in order and before what arrived meanwhile, except for
  the oldest reads past the bound, whose number is the drop counter.\<close>

theorem flush_accounts_for_reads:
  assumes "recorder_ok rc" and "usage_tables_exist u" and "rc_buffer rc \<noteq> []"
    and "flush disturbance arrived rc u = (res, rc', u')"
  shows "if commits disturbance \<and> distinct (map rd_id (read_rows u @ rc_buffer rc))
     then (\<exists>rows. list_all2 same_read (rc_buffer rc) rows \<and> u' = u\<lparr>read_rows := read_rows u @ rows\<rparr>)
       \<and> (if disturbance = Undisturbed
          then res = Flushed (length (rc_buffer rc)) \<and> rc_buffer rc' = drop (excess rc (length arrived)) arrived
             \<and> rc_dropped rc' = excess rc (length arrived)
          else kept_back rc arrived rc')
     else u' = u \<and> kept_back rc arrived rc'"
  using flush_outcome [OF assms] apply_cap_same [of "rc_buffer rc" u] by (auto split: if_splits)

theorem flush_accounts_for_reads_witness:
  "\<exists>res rc' u'. flush (Raised BeforeCommit) [sample_read 8 ''bot'' SDK 40] sample_recorder sample_usage = (res, rc', u')
     \<and> u' = sample_usage \<and> rc_buffer rc' = [sample_read 7 ''bot'' SDK 30, sample_read 8 ''bot'' SDK 40] \<and> rc_dropped rc' = 0"
proof -
  obtain res rc' u' where f: "flush (Raised BeforeCommit) [sample_read 8 ''bot'' SDK 40] sample_recorder sample_usage = (res, rc', u')"
    using prod_cases3 by blast
  have "rc_buffer_max sample_recorder = 3" by (simp add: sample_recorder_def append_read_def mk_recorder_def trim_def)
  then show ?thesis using f flush_accounts_for_reads [OF sample_recorder_ok(1) sample_tables _ f] sample_recorder_ok(2)
    by (simp add: commits_def kept_back_def Let_def excess_def)
qed

text \<open>The cap holds: at most \<open>MAX_IDS_PER_DATASET_DAY\<close> distinct client ids (reserved labels and the operator apart)
  are stored per dataset and UTC day, whatever is flushed, however the flush ends, whatever sessions open and
  whatever is rolled up.\<close>

theorem usage_cap_holds:
  assumes "cap_ok u"
  shows "cap_ok (snd (snd (flush disturbance arrived rc u)))
    \<and> cap_ok (snd (snd (record_session_open fault i dataset label route opened rc u)))
    \<and> cap_ok (record_session_close fault session returned closed_at u)
    \<and> cap_ok (snd (snd (roll_up env fault now days rc u)))"
proof (intro conjI)
  have stored: "cap_ok (snd (insert_reads fault (apply_cap u batch) u))" for fault batch
  proof -
    have "cap_ok (u\<lparr>read_rows := read_rows u @ apply_cap u batch\<rparr>)"
      using apply_cap_bound [OF assms] unfolding cap_ok_def by (simp add: ids_at_def)
    then show ?thesis using assms by (cases fault) (auto simp: insert_reads_def)
  qed
  show "cap_ok (snd (snd (flush disturbance arrived rc u)))"
    using assms stored [of None "rc_buffer rc"]
    by (auto simp: flush_def Let_def split: flush_end.split reached.split sum.split prod.split)
  show "cap_ok (snd (snd (record_session_open fault i dataset label route opened rc u)))"
    using assms stored [of fault "[session_row i dataset label route opened]"]
    by (auto simp: record_session_open_def split: sum.split prod.split)
  have fewer: "cap_ok v" if "\<And>k. ids_at k (read_rows v) \<subseteq> ids_at k (read_rows u)" for v
    using card_mono [OF finite_ids_at that] cap_okD [OF assms] unfolding cap_ok_def by (meson le_trans)
  have "cap_ok (snd (close_session fault j closed_at returned u))" for j
    by (rule fewer) (cases fault, auto simp: close_session_def ids_at_def split: if_splits)
  then show "cap_ok (record_session_close fault session returned closed_at u)"
    using assms by (simp add: record_session_close_def split: option.split)
  have "cap_ok (snd (fold_reads_before fault cutoff u))" for cutoff
    by (rule fewer) (cases fault, auto simp: fold_reads_before_def Let_def ids_at_def)
  then show "cap_ok (snd (snd (roll_up env fault now days rc u)))"
    using assms by (auto simp: roll_up_def Let_def split: sum.split prod.split) (metis snd_conv)+
qed

lemma sample_cap: "cap_ok sample_usage"
proof -
  have "card (ids_at k (read_rows sample_usage)) \<le> 32" for k
  proof -
    have "ids_at k (read_rows sample_usage) \<subseteq> set (map rd_client (read_rows sample_usage))" by (auto simp: ids_at_def)
    then have "card (ids_at k (read_rows sample_usage)) \<le> card (set (map rd_client (read_rows sample_usage)))"
      by (intro card_mono) simp_all
    also have "\<dots> \<le> length (map rd_client (read_rows sample_usage))" by (rule card_length)
    finally show ?thesis by (simp add: sample_usage_def)
  qed
  then show ?thesis unfolding cap_ok_def MAX_IDS_PER_DATASET_DAY_def by blast
qed

theorem usage_cap_holds_witness: "cap_ok (snd (snd (flush Undisturbed [] sample_recorder sample_usage)))"
  using usage_cap_holds [OF sample_cap, of Undisturbed "[]" sample_recorder None 0 0 UNATTRIBUTED_LABEL "[]" 0 None 0 0 Map.empty 0 None]
  by (rule conjunct1)

text \<open>A batch whose commit succeeded but was reported as failed is put back, and from then on no flush writes
  anything while one of its reads is still buffered: each retry meets the identifiers it stored and fails as a
  whole, reads that arrived since included.\<close>

theorem lost_acknowledgement_blocks_flushes:
  assumes "recorder_ok rc" and "usage_tables_exist u" and "r \<in> set (rc_buffer rc)" and "rd_id r \<in> rd_id ` set (read_rows u)"
    and "flush disturbance arrived rc u = (res, rc', u')"
  shows "u' = u \<and> kept_back rc arrived rc' \<and> res \<noteq> Flushed (Suc n)"
proof -
  have "\<not> distinct (map rd_id (read_rows u @ rc_buffer rc))" using assms(3,4) by auto
  moreover have "rc_buffer rc \<noteq> []" using assms(3) by auto
  ultimately have "u' = u \<and> kept_back rc arrived rc'" using flush_outcome [OF assms(1,2) _ assms(5)] by auto
  moreover have "res \<noteq> Flushed (Suc n)"
  proof -
    have "fst (insert_reads None (apply_cap u (rc_buffer rc)) u) = Inl (sql_failure UNIQUE_VIOLATION)"
      using insert_reads_cases [OF assms(2)] \<open>\<not> distinct _\<close> \<open>rc_buffer rc \<noteq> []\<close>
      by (simp add: apply_cap_ids apply_cap_empty del: distinct_append)
    then show ?thesis using assms(5) \<open>rc_buffer rc \<noteq> []\<close> assms(2)
      by (auto simp: flush_def Let_def split: flush_end.splits reached.splits if_splits sum.splits prod.splits)
  qed
  ultimately show ?thesis by blast
qed

theorem lost_acknowledgement_blocks_flushes_witness:
  "snd (snd (flush Undisturbed [sample_read 9 ''bot'' SDK 50] (sample_recorder\<lparr>rc_buffer := [sample_read 1 ''bot'' SDK 10]\<rparr>) sample_usage)) = sample_usage"
proof -
  let ?rc = "sample_recorder\<lparr>rc_buffer := [sample_read 1 ''bot'' SDK 10]\<rparr>"
  obtain res rc' u' where f: "flush Undisturbed [sample_read 9 ''bot'' SDK 50] ?rc sample_usage = (res, rc', u')"
    using prod_cases3 by blast
  have ok: "recorder_ok ?rc" using sample_recorder_ok by (simp add: recorder_ok_def)
  have "u' = sample_usage"
    using lost_acknowledgement_blocks_flushes [OF ok sample_tables _ _ f, of "sample_read 1 ''bot'' SDK 10"]
    by (simp add: sample_usage_def sample_read_def)
  then show ?thesis unfolding f snd_conv .
qed

end
