(* ===== verification/Cursors.thy ===== *)
theory Cursors
  imports Prelude "HOL-Library.Char_ord" "HOL-Library.Sublist"
begin

text \<open>
  The text of a page cursor, as \<open>_encode_cursor\<close> and \<open>_decode_cursor\<close> of
  \<open>server/data/store/app/dataset_catalog.py\<close> write and read it: URL-safe base64 without padding around a
  JSON document. What the code uses of \<open>base64\<close>, \<open>json\<close> and \<open>uuid\<close> is written out. Text is a list of
  code points and bytes are numbers below 256. \<open>json.loads\<close> of bytes first decodes them (UTF-8 unless a byte
  order mark or zero bytes say otherwise); that step is the argument \<open>text_of\<close>, of which only the decoding of
  plain ASCII is relied on (\<open>reads_ascii\<close>).
\<close>

type_synonym ustring = "nat list"

definition code_points :: "string \<Rightarrow> ustring" where
  "code_points s = map of_char s"

lemma code_points_inj [simp]: "code_points s = code_points t \<longleftrightarrow> s = t"
  by (auto simp: code_points_def inj_map_eq_map inj_def)

section \<open>Base64\<close>

definition B64_ALPHABET :: string where
  "B64_ALPHABET = ''ABCDEFGHIJKLMNOPQRSTUVWXYZabcdefghijklmnopqrstuvwxyz0123456789-_''"

fun sextets :: "nat list \<Rightarrow> nat list" where
  "sextets [] = []"
| "sextets [a] = [a div 4, (a mod 4) * 16]"
| "sextets [a, b] = [a div 4, (a mod 4) * 16 + b div 16, (b mod 16) * 4]"
| "sextets (a # b # c # r) =
     (a div 4) # ((a mod 4) * 16 + b div 16) # ((b mod 16) * 4 + c div 64) # (c mod 64) # sextets r"

text \<open>\<open>urlsafe_b64encode(...).decode().rstrip('=')\<close>\<close>

definition urlsafe_b64encode :: "nat list \<Rightarrow> string" where
  "urlsafe_b64encode bs =
     map (\<lambda>s. B64_ALPHABET ! s) (sextets bs) @ replicate ((3 - length bs mod 3) mod 3) (CHR ''='')"

definition rstrip_padding :: "string \<Rightarrow> string" where
  "rstrip_padding s = rev (dropWhile (\<lambda>c. c = CHR ''='') (rev s))"

text \<open>\<open>table_a2b_base64\<close>, after the translation of \<open>-_\<close> to \<open>+/\<close>; both spellings are read.\<close>

definition sextet_of :: "char \<Rightarrow> nat option" where
  "sextet_of c =
     (let n = (of_char c :: nat)
      in if 65 \<le> n \<and> n \<le> 90 then Some (n - 65)
         else if 97 \<le> n \<and> n \<le> 122 then Some (n - 71)
         else if 48 \<le> n \<and> n \<le> 57 then Some (n + 4)
         else if n = 43 \<or> n = 45 then Some 62
         else if n = 47 \<or> n = 95 then Some 63 else None)"

text \<open>
  \<open>binascii.a2b_base64\<close>, not strict: characters outside the alphabet are skipped, a completed padding ends the
  data. \<open>quad\<close> is the position in the group of four and \<open>left\<close> the bits carried over. \<open>None\<close> is \<open>binascii.Error\<close>.
\<close>

fun a2b_base64 :: "nat \<Rightarrow> nat \<Rightarrow> nat \<Rightarrow> string \<Rightarrow> nat list option" where
  "a2b_base64 quad left pads [] = (if quad = 0 then Some [] else None)"
| "a2b_base64 quad left pads (c # cs) =
     (if c = CHR ''='' then
        (if quad \<ge> 2 \<and> quad + (pads + 1) \<ge> 4 then Some []
         else a2b_base64 quad left (if quad \<ge> 2 then pads + 1 else pads) cs)
      else case sextet_of c of
             None \<Rightarrow> a2b_base64 quad left pads cs
           | Some s \<Rightarrow>
               if quad = 0 then a2b_base64 1 s 0 cs
               else if quad = 1 then map_option (Cons (left * 4 + s div 16)) (a2b_base64 2 (s mod 16) 0 cs)
               else if quad = 2 then map_option (Cons (left * 16 + s div 4)) (a2b_base64 3 (s mod 4) 0 cs)
               else map_option (Cons (left * 64 + s)) (a2b_base64 0 0 0 cs))"

text \<open>\<open>base64.urlsafe_b64decode(padded.encode('ascii'))\<close>\<close>

definition urlsafe_b64decode :: "string \<Rightarrow> nat list option" where
  "urlsafe_b64decode s =
     (if list_ex (\<lambda>c. 127 < (of_char c :: nat)) s then None else a2b_base64 0 0 0 s)"

section \<open>JSON\<close>

text \<open>An object keeps its pairs in the order of the text; a number that is no integer keeps its text.\<close>

datatype json =
  JNull
| JBool bool
| JInt int
| JFloat ustring
| JStr ustring
| JList "json list"
| JObj "(ustring \<times> json) list"

text \<open>\<open>payload.get(k)\<close>: a repeated key keeps its last value.\<close>

definition jget :: "(ustring \<times> json) list \<Rightarrow> string \<Rightarrow> json option" where
  "jget ms k = map_of (rev ms) (code_points k)"

subsection \<open>Writing\<close>

fun decimal :: "nat \<Rightarrow> ustring" where
  "decimal n = (if n < 10 then [48 + n] else decimal (n div 10) @ [48 + n mod 10])"

declare decimal.simps [simp del]

definition int_text :: "int \<Rightarrow> ustring" where
  "int_text n = (if n < 0 then 45 # decimal (nat (- n)) else decimal (nat n))"

definition hex_digit :: "nat \<Rightarrow> nat" where
  "hex_digit n = (if n < 10 then 48 + n else 87 + n)"

definition hex4_text :: "nat \<Rightarrow> ustring" where
  "hex4_text n = map hex_digit [n div 4096 mod 16, n div 256 mod 16, n div 16 mod 16, n mod 16]"

text \<open>\<open>ensure_ascii\<close>\<close>

definition escape :: "nat \<Rightarrow> ustring" where
  "escape c =
     (if c = 34 \<or> c = 92 then [92, c]
      else if c = 8 then [92, 98] else if c = 9 then [92, 116] else if c = 10 then [92, 110]
      else if c = 12 then [92, 102] else if c = 13 then [92, 114]
      else if 32 \<le> c \<and> c \<le> 126 then [c]
      else if c < 65536 then [92, 117] @ hex4_text c
      else [92, 117] @ hex4_text (55296 + (c - 65536) div 1024 mod 1024) @ [92, 117] @ hex4_text (56320 + (c - 65536) mod 1024))"

definition str_text :: "ustring \<Rightarrow> ustring" where
  "str_text s = 34 # concat (map escape s) @ [34]"

fun join_comma :: "ustring list \<Rightarrow> ustring" where
  "join_comma [] = []"
| "join_comma [x] = x"
| "join_comma (x # y # r) = x @ 44 # join_comma (y # r)"

text \<open>\<open>json.dumps(payload, separators=(',', ':'))\<close>; no payload holds a \<open>JFloat\<close>.\<close>

fun dumps :: "json \<Rightarrow> ustring" where
  "dumps JNull = code_points ''null''"
| "dumps (JBool b) = code_points (if b then ''true'' else ''false'')"
| "dumps (JInt n) = int_text n"
| "dumps (JFloat t) = t"
| "dumps (JStr s) = str_text s"
| "dumps (JList xs) = 91 # join_comma (map dumps xs) @ [93]"
| "dumps (JObj ms) = 123 # join_comma (map (\<lambda>(k, v). str_text k @ 58 # dumps v) ms) @ [125]"

subsection \<open>Reading\<close>

definition skip_ws :: "ustring \<Rightarrow> ustring" where
  "skip_ws = dropWhile (\<lambda>c. c \<in> {32, 9, 10, 13})"

definition is_digit :: "nat \<Rightarrow> bool" where
  "is_digit c \<longleftrightarrow> 48 \<le> c \<and> c \<le> 57"

definition hex_value :: "nat \<Rightarrow> nat option" where
  "hex_value c =
     (if is_digit c then Some (c - 48) else if 97 \<le> c \<and> c \<le> 102 then Some (c - 87)
      else if 65 \<le> c \<and> c \<le> 70 then Some (c - 55) else None)"

fun hex4 :: "ustring \<Rightarrow> (nat \<times> ustring) option" where
  "hex4 (a # b # c # d # r) =
     (case (hex_value a, hex_value b, hex_value c, hex_value d) of
        (Some w, Some x, Some y, Some z) \<Rightarrow> Some (((w * 16 + x) * 16 + y) * 16 + z, r)
      | _ \<Rightarrow> None)"
| "hex4 _ = None"

definition unescape :: "nat \<Rightarrow> nat option" where
  "unescape e =
     map_of [(34, 34), (92, 92), (47, 47), (98, 8), (102, 12), (110, 10), (114, 13), (116, 9)] e"

text \<open>The second half of a surrogate pair, if one follows.\<close>

definition low_half :: "ustring \<Rightarrow> (nat \<times> ustring) option" where
  "low_half t =
     (if take 2 t \<noteq> [92, 117] then None
      else case hex4 (drop 2 t) of
             None \<Rightarrow> None
           | Some (v, r) \<Rightarrow> if 56320 \<le> v \<and> v \<le> 57343 then Some (v, r) else None)"

lemma hex4_length: "hex4 r = Some (v, r') \<Longrightarrow> length r' + 4 = length r"
  by (cases r rule: hex4.cases) (auto split: option.splits)

lemma low_half_length: "low_half r = Some (v, r') \<Longrightarrow> length r' + 6 = length r"
  by (auto simp: low_half_def dest!: hex4_length split: option.splits if_splits)

text \<open>The rest of a string literal, after its opening quote.\<close>

function str_body :: "ustring \<Rightarrow> (ustring \<times> ustring) option" where
  "str_body t =
     (case t of
        [] \<Rightarrow> None
      | c # cs \<Rightarrow>
          if c = 34 then Some ([], cs)
          else if c = 92 then
            (case cs of
               [] \<Rightarrow> None
             | e # r \<Rightarrow>
                 if e = 117 then
                   (case hex4 r of
                      None \<Rightarrow> None
                    | Some (v, r') \<Rightarrow>
                        (case (if 55296 \<le> v \<and> v \<le> 56319 then low_half r' else None) of
                           Some (w, r'') \<Rightarrow>
                             map_option (\<lambda>(s, q). ((65536 + (v - 55296) * 1024 + (w - 56320)) # s, q)) (str_body r'')
                         | None \<Rightarrow> map_option (\<lambda>(s, q). (v # s, q)) (str_body r')))
                 else (case unescape e of
                         None \<Rightarrow> None
                       | Some x \<Rightarrow> map_option (\<lambda>(s, q). (x # s, q)) (str_body r)))
          else if c < 32 then None
          else map_option (\<lambda>(s, q). (c # s, q)) (str_body cs))"
  by pat_completeness auto
termination
  by (relation "measure length") (auto dest!: hex4_length low_half_length split: if_splits)

declare str_body.simps [simp del]

text \<open>An integer literal of more than 4300 digits is a \<open>ValueError\<close>.\<close>

definition digits_nat :: "ustring \<Rightarrow> nat" where
  "digits_nat ds = fold (\<lambda>c n. n * 10 + (c - 48)) ds 0"

definition fraction_of :: "ustring \<Rightarrow> ustring" where
  "fraction_of r =
     (case r of c # d # q \<Rightarrow> if c = 46 \<and> is_digit d then c # takeWhile is_digit (d # q) else [] | _ \<Rightarrow> [])"

definition exponent_of :: "ustring \<Rightarrow> ustring" where
  "exponent_of r =
     (case r of
        [] \<Rightarrow> []
      | c # q \<Rightarrow>
          if c = 101 \<or> c = 69 then
            (let sg = (case q of s # _ \<Rightarrow> if s = 43 \<or> s = 45 then [s] else [] | [] \<Rightarrow> []);
                 ds = takeWhile is_digit (drop (length sg) q)
             in if ds = [] then [] else c # sg @ ds)
          else [])"

definition number_body :: "ustring \<Rightarrow> (json \<times> ustring) option" where
  "number_body t =
     (let neg = (t \<noteq> [] \<and> hd t = 45);
          u = (if neg then tl t else t);
          ds = (if u \<noteq> [] \<and> hd u = 48 then [48] else takeWhile is_digit u);
          r = drop (length ds) u;
          frac = fraction_of r;
          ex = exponent_of (drop (length frac) r)
      in if ds = [] then None
         else if frac = [] \<and> ex = [] then
           (if length ds > 4300 then None else Some (JInt (if neg then - int (digits_nat ds) else int (digits_nat ds)), r))
         else Some (JFloat ((if neg then [45] else []) @ ds @ frac @ ex), drop (length frac + length ex) r))"

definition constants :: "(string \<times> json) list" where
  "constants = [(''null'', JNull), (''true'', JBool True), (''false'', JBool False), (''NaN'', JFloat (code_points ''NaN'')),
     (''Infinity'', JFloat (code_points ''Infinity'')), (''-Infinity'', JFloat (code_points ''-Infinity''))]"

definition constant_body :: "ustring \<Rightarrow> (json \<times> ustring) option" where
  "constant_body t =
     map_option (\<lambda>(w, j). (j, drop (length w) t)) (find (\<lambda>(w, j). prefix (code_points w) t) constants)"

text \<open>The three recursive readers; \<open>2 * length t + 1\<close> is enough fuel for a value.\<close>

fun json_value :: "nat \<Rightarrow> ustring \<Rightarrow> (json \<times> ustring) option"
  and json_elements :: "nat \<Rightarrow> ustring \<Rightarrow> (json list \<times> ustring) option"
  and json_members :: "nat \<Rightarrow> ustring \<Rightarrow> ((ustring \<times> json) list \<times> ustring) option" where
  "json_value 0 t = None"
| "json_value (Suc n) t =
     (case t of
        [] \<Rightarrow> None
      | c # cs \<Rightarrow>
          if c = 34 then map_option (\<lambda>(s, r). (JStr s, r)) (str_body cs)
          else if c = 91 then
            (case skip_ws cs of
               [] \<Rightarrow> None
             | d # ds \<Rightarrow> if d = 93 then Some (JList [], ds)
                        else map_option (\<lambda>(xs, r). (JList xs, r)) (json_elements n (d # ds)))
          else if c = 123 then
            (case skip_ws cs of
               [] \<Rightarrow> None
             | d # ds \<Rightarrow> if d = 125 then Some (JObj [], ds)
                        else map_option (\<lambda>(ms, r). (JObj ms, r)) (json_members n (d # ds)))
          else case constant_body (c # cs) of
                 Some res \<Rightarrow> Some res
               | None \<Rightarrow> number_body (c # cs))"
| "json_elements 0 t = None"
| "json_elements (Suc n) t =
     (case json_value n t of
        None \<Rightarrow> None
      | Some (x, r) \<Rightarrow>
          (case skip_ws r of
             [] \<Rightarrow> None
           | d # ds \<Rightarrow>
               if d = 93 then Some ([x], ds)
               else if d = 44 then map_option (\<lambda>(xs, q). (x # xs, q)) (json_elements n (skip_ws ds))
               else None))"
| "json_members 0 t = None"
| "json_members (Suc n) t =
     (case t of
        [] \<Rightarrow> None
      | c # cs \<Rightarrow>
          if c \<noteq> 34 then None
          else case str_body cs of
                 None \<Rightarrow> None
               | Some (k, r) \<Rightarrow>
                   (case skip_ws r of
                      [] \<Rightarrow> None
                    | e # es \<Rightarrow>
                        if e \<noteq> 58 then None
                        else case json_value n (skip_ws es) of
                               None \<Rightarrow> None
                             | Some (v, r2) \<Rightarrow>
                                 (case skip_ws r2 of
                                    [] \<Rightarrow> None
                                  | d # ds \<Rightarrow>
                                      if d = 125 then Some ([(k, v)], ds)
                                      else if d = 44 then map_option (\<lambda>(ms, q). ((k, v) # ms, q)) (json_members n (skip_ws ds))
                                      else None)))"

text \<open>\<open>json.loads\<close> of text; \<open>None\<close> is \<open>JSONDecodeError\<close> or another \<open>ValueError\<close>.\<close>

definition loads :: "ustring \<Rightarrow> json option" where
  "loads t =
     (let u = skip_ws t
      in case json_value (2 * length u + 1) u of
           None \<Rightarrow> None
         | Some (j, r) \<Rightarrow> if skip_ws r = [] then Some j else None)"

section \<open>The cursor\<close>

definition encode_cursor :: "json \<Rightarrow> string" where
  "encode_cursor payload = rstrip_padding (urlsafe_b64encode (dumps payload))"

text \<open>\<open>None\<close> is \<open>invalid_cursor()\<close>.\<close>

definition decode_cursor :: "(nat list \<Rightarrow> ustring option) \<Rightarrow> string \<Rightarrow> (ustring \<times> json) list option" where
  "decode_cursor text_of cursor =
     (let padded = cursor @ replicate ((4 - length cursor mod 4) mod 4) (CHR ''='')
      in case urlsafe_b64decode padded of
           None \<Rightarrow> None
         | Some bytes \<Rightarrow>
             (case text_of bytes of
                None \<Rightarrow> None
              | Some t \<Rightarrow> (case loads t of Some (JObj ms) \<Rightarrow> Some ms | _ \<Rightarrow> None)))"

definition reads_ascii :: "(nat list \<Rightarrow> ustring option) \<Rightarrow> bool" where
  "reads_ascii text_of \<longleftrightarrow> (\<forall>bs. list_all (\<lambda>b. 0 < b \<and> b < 128) bs \<longrightarrow> text_of bs = Some bs)"

section \<open>Base64 reads back what it wrote\<close>

definition b64_chars :: "nat list \<Rightarrow> string" where
  "b64_chars bs = map (\<lambda>s. B64_ALPHABET ! s) (sextets bs)"

lemma alphabet:
  assumes "s < 64"
  shows "sextet_of (B64_ALPHABET ! s) = Some s"
    and "B64_ALPHABET ! s \<noteq> CHR ''=''"
    and "(of_char (B64_ALPHABET ! s) :: nat) \<le> 127"
proof -
  let ?P = "\<lambda>s. sextet_of (B64_ALPHABET ! s) = Some s \<and> B64_ALPHABET ! s \<noteq> CHR ''='' \<and> (of_char (B64_ALPHABET ! s) :: nat) \<le> 127"
  have "list_all ?P
      [0, 1, 2, 3, 4, 5, 6, 7, 8, 9, 10, 11, 12, 13, 14, 15, 16, 17, 18, 19, 20, 21, 22, 23, 24, 25,
       26, 27, 28, 29, 30, 31, 32, 33, 34, 35, 36, 37, 38, 39, 40, 41, 42, 43, 44, 45, 46, 47, 48, 49,
       50, 51, 52, 53, 54, 55, 56, 57, 58, 59, 60, 61, 62, 63]"
    by (simp add: B64_ALPHABET_def sextet_of_def)
  moreover have "[0..<64] =
      [0, 1, 2, 3, 4, 5, 6, 7, 8, 9, 10, 11, 12, 13, 14, 15, 16, 17, 18, 19, 20, 21, 22, 23, 24, 25,
       26, 27, 28, 29, 30, 31, 32, 33, 34, 35, 36, 37, 38, 39, 40, 41, 42, 43, 44, 45, 46, 47, 48, 49,
       50, 51, 52, 53, 54, 55, 56, 57, 58, 59, 60, 61, 62, 63]"
    by (simp add: upt_rec)
  ultimately have "list_all ?P [0..<64]" by simp
  then have "?P s" using assms by (simp add: list_all_iff)
  then show "sextet_of (B64_ALPHABET ! s) = Some s" "B64_ALPHABET ! s \<noteq> CHR ''=''" "(of_char (B64_ALPHABET ! s) :: nat) \<le> 127"
    by blast+
qed

lemma sextets_small: "list_all (\<lambda>b. b < 256) bs \<Longrightarrow> list_all (\<lambda>s. s < 64) (sextets bs)"
proof (induction bs rule: sextets.induct)
  case (4 a b c r)
  then have "a div 4 < 64" "(a mod 4) * 16 + b div 16 < 64" "(b mod 16) * 4 + c div 64 < 64" "c mod 64 < 64" by simp_all linarith+
  then show ?case using 4 by simp
qed (simp_all, (linarith | simp)+)

lemma a2b_groups:
  "list_all (\<lambda>b. b < 256) bs \<Longrightarrow>
     a2b_base64 0 0 0 (b64_chars bs @ replicate ((4 - length (sextets bs) mod 4) mod 4) (CHR ''='')) = Some bs"
proof (induction bs rule: sextets.induct)
  case (2 a)
  then have s: "a div 4 < 64" "(a mod 4) * 16 < 64" by (simp, linarith)+
  have "(4 - 2 mod 4) mod 4 = Suc (Suc (0::nat))" by simp
  then show ?case using 2 alphabet(1,2) [OF s(1)] alphabet(1,2) [OF s(2)]
    by (simp add: b64_chars_def mult.commute numeral_2_eq_2)
next
  case (3 a b)
  have m: "a mod 4 \<le> 3" "b mod 16 \<le> 15" by simp_all
  have "b div 16 < 16" using 3 by (simp add: less_mult_imp_div_less)
  then have d: "b div 16 div 16 = 0" "b div 16 mod 16 = b div 16" "16 * (b div 16) + b mod 16 = b" by simp_all
  have s: "a div 4 < 64" "(a mod 4) * 16 + b div 16 < 64" "(b mod 16) * 4 < 64"
    subgoal using 3 by (simp add: less_mult_imp_div_less)
    subgoal using 3 m by (simp, linarith)
    subgoal using m by linarith
    done
  then show ?case using 3 alphabet(1,2) [OF s(1)] alphabet(1,2) [OF s(2)] alphabet(1,2) [OF s(3)]
    by (simp add: b64_chars_def mult.commute d)
next
  case (4 a b c r)
  then have s: "a div 4 < 64" "(a mod 4) * 16 + b div 16 < 64" "(b mod 16) * 4 + c div 64 < 64" "c mod 64 < 64" by simp_all linarith+
  have m: "length (sextets (a # b # c # r)) mod 4 = length (sextets r) mod 4" by simp
  have "((a mod 4) * 16 + b div 16) div 16 = a mod 4" "((a mod 4) * 16 + b div 16) mod 16 = b div 16"
    "((b mod 16) * 4 + c div 64) div 4 = b mod 16" "((b mod 16) * 4 + c div 64) mod 4 = c div 64"
    using 4 by auto
  then show ?case using 4 m alphabet(1,2) [OF s(1)] alphabet(1,2) [OF s(2)] alphabet(1,2) [OF s(3)] alphabet(1,2) [OF s(4)]
    by (simp add: b64_chars_def mult.commute)
qed (simp add: b64_chars_def)

lemma rstrip_b64: "rstrip_padding (urlsafe_b64encode bs) = b64_chars bs" if "list_all (\<lambda>b. b < 256) bs"
proof -
  have "\<forall>c\<in>set (b64_chars bs). c \<noteq> CHR ''=''"
    using sextets_small [OF that] alphabet(2) by (auto simp: b64_chars_def list_all_iff)
  then have keep: "dropWhile (\<lambda>c. c = CHR ''='') (rev (b64_chars bs)) = rev (b64_chars bs)"
    by (cases "rev (b64_chars bs)") (auto simp: dropWhile_eq_self_iff dest: arg_cong [where f = set])
  have "dropWhile (\<lambda>c. c = CHR ''='') (replicate n (CHR ''='') @ xs) = dropWhile (\<lambda>c. c = CHR ''='') xs" for n xs
    by (induction n) simp_all
  then show ?thesis using keep by (simp add: rstrip_padding_def urlsafe_b64encode_def flip: b64_chars_def)
qed

lemma b64_round_trip:
  assumes "list_all (\<lambda>b. b < 256) bs"
  defines "cursor \<equiv> rstrip_padding (urlsafe_b64encode bs)"
  shows "urlsafe_b64decode (cursor @ replicate ((4 - length cursor mod 4) mod 4) (CHR ''='')) = Some bs"
proof -
  have c: "cursor = b64_chars bs" unfolding cursor_def by (rule rstrip_b64 [OF assms(1)])
  have "\<not> list_ex (\<lambda>c. 127 < (of_char c :: nat)) (b64_chars bs)"
    using sextets_small [OF assms(1)] alphabet(3) by (fastforce simp: b64_chars_def list_all_iff list_ex_iff not_less)
  then have "\<not> list_ex (\<lambda>c. 127 < (of_char c :: nat)) (b64_chars bs @ replicate n (CHR ''=''))" for n
    by (auto simp: list_ex_iff)
  then show ?thesis using a2b_groups [OF assms(1)] by (simp add: urlsafe_b64decode_def c) (simp add: b64_chars_def)
qed

section \<open>JSON reads back what it wrote\<close>

lemma hex_value_digit: "d < 16 \<Longrightarrow> hex_value (hex_digit d) = Some d"
  by (auto simp: hex_value_def hex_digit_def is_digit_def)

lemma hex4_round_trip: "c < 65536 \<Longrightarrow> hex4 (hex4_text c @ r) = Some (c, r)"
proof -
  assume "c < 65536"
  then have "c div 4096 mod 16 = c div 4096" by (simp add: less_mult_imp_div_less)
  moreover have "((c div 4096 * 16 + c div 256 mod 16) * 16 + c div 16 mod 16) * 16 + c mod 16 = c"
  proof -
    have "c div 4096 * 16 + c div 256 mod 16 = c div 256" "c div 256 * 16 + c div 16 mod 16 = c div 16"
      using div_mult_mod_eq [of "c div 256" 16] div_mult_mod_eq [of "c div 16" 16] by (simp_all add: div_mult2_eq [symmetric])
    then show ?thesis using div_mult_mod_eq [of c 16] by simp
  qed
  moreover have "c div 4096 < 16" using \<open>c < 65536\<close> by (simp add: less_mult_imp_div_less)
  ultimately show ?thesis by (simp add: hex4_text_def hex_value_digit)
qed

lemma str_body_escape:
  assumes "c < 256"
  shows "str_body (escape c @ t) = map_option (\<lambda>(s, q). (c # s, q)) (str_body t)"
proof -
  consider "c = 34 \<or> c = 92" | "c \<in> {8, 9, 10, 12, 13}" | "32 \<le> c \<and> c \<le> 126 \<and> c \<noteq> 34 \<and> c \<noteq> 92"
    | "c \<notin> {8, 9, 10, 12, 13}" "c < 32 \<or> 126 < c" by linarith
  then show ?thesis
  proof cases
    case 4
    then have "escape c = [92, 117] @ hex4_text c" using assms by (auto simp: escape_def)
    moreover have "\<not> 55296 \<le> c" using assms by simp
    ultimately show ?thesis using hex4_round_trip [of c t] assms by (subst str_body.simps) simp
  qed (auto simp: escape_def unescape_def str_body.simps [of "_ # _"])
qed

lemma str_round_trip: "list_all (\<lambda>c. c < 256) s \<Longrightarrow> str_body (concat (map escape s) @ 34 # r) = Some (s, r)"
proof (induction s)
  case Nil
  then show ?case by (simp add: str_body.simps)
qed (simp add: str_body_escape)

lemma decimal_step: "decimal n = (if n < 10 then [48 + n] else decimal (n div 10) @ [48 + n mod 10])"
  by (rule decimal.simps)

lemma decimal_digits: "list_all is_digit (decimal n)"
proof (induction n rule: decimal.induct)
  case (1 n)
  then show ?case by (subst decimal_step) (auto simp: is_digit_def list_all_iff)
qed

lemma digits_nat_snoc: "digits_nat (ds @ [c]) = digits_nat ds * 10 + (c - 48)"
  by (simp add: digits_nat_def)

lemma decimal_value: "digits_nat (decimal n) = n"
proof (induction n rule: decimal.induct)
  case (1 n)
  then show ?case by (subst decimal_step) (auto simp: digits_nat_snoc, simp add: digits_nat_def)
qed

lemma decimal_head: "decimal n \<noteq> [] \<and> (hd (decimal n) = 48 \<longleftrightarrow> n = 0) \<and> (n = 0 \<longrightarrow> decimal n = [48])"
proof (induction n rule: decimal.induct)
  case (1 n)
  then show ?case by (subst (1 2 3) decimal_step) auto
qed

lemma decimal_length: "n < 10 ^ k \<Longrightarrow> length (decimal n) \<le> max 1 k"
proof (induction n arbitrary: k rule: decimal.induct)
  case (1 n)
  show ?case
  proof (cases "n < 10")
    case False
    then obtain j where k: "k = Suc j" using 1(2) by (cases k) auto
    then have "n div 10 < 10 ^ j" using 1(2) by (simp add: less_mult_imp_div_less mult.commute)
    then have "length (decimal (n div 10)) \<le> max 1 j" using 1(1) False by blast
    moreover have "j \<noteq> 0" using False 1(2) k by (cases j) auto
    ultimately show ?thesis using False k by (subst decimal_step) simp
  qed (simp add: decimal_step)
qed

text \<open>What may follow a value inside a document.\<close>

definition delimited :: "ustring \<Rightarrow> bool" where
  "delimited r \<longleftrightarrow> r = [] \<or> hd r \<in> {44, 93, 125}"

definition int_ok :: "int \<Rightarrow> bool" where
  "int_ok n \<longleftrightarrow> length (decimal (nat \<bar>n\<bar>)) \<le> 4300"

lemma takeWhile_digits: "list_all is_digit ds \<Longrightarrow> delimited r \<Longrightarrow> takeWhile is_digit (ds @ r) = ds"
  by (cases r) (auto simp: delimited_def is_digit_def list_all_iff takeWhile_append2)

lemma delimited_ends: "delimited r \<Longrightarrow> fraction_of r = [] \<and> exponent_of r = []"
  by (auto simp: delimited_def fraction_of_def exponent_of_def split: list.splits)

lemma number_round_trip:
  assumes "int_ok n" and "delimited r"
  shows "number_body (int_text n @ r) = Some (JInt n, r)"
proof -
  let ?ds = "decimal (nat \<bar>n\<bar>)"
  have ds: "(if ?ds @ r \<noteq> [] \<and> hd (?ds @ r) = 48 then [48] else takeWhile is_digit (?ds @ r)) = ?ds"
    using decimal_head [of "nat \<bar>n\<bar>"] takeWhile_digits [OF decimal_digits assms(2), of "nat \<bar>n\<bar>"] by auto
  have first: "?ds \<noteq> []" "hd ?ds \<noteq> 45" using decimal_digits [of "nat \<bar>n\<bar>"] decimal_head [of "nat \<bar>n\<bar>"]
    by (cases ?ds; auto simp: is_digit_def)+
  then have sign: "(int_text n @ r \<noteq> [] \<and> hd (int_text n @ r) = 45) = (n < 0)"
    and rest: "(if n < 0 then tl (int_text n @ r) else int_text n @ r) = ?ds @ r"
    by (auto simp: int_text_def)
  have "\<not> 4300 < length ?ds" using assms(1) by (simp add: int_ok_def)
  then show ?thesis
    unfolding number_body_def sign Let_def rest ds using delimited_ends [OF assms(2)] first by (simp add: decimal_value)
qed

text \<open>The documents a cursor is made of.\<close>

fun payload_ok :: "json \<Rightarrow> bool" where
  "payload_ok (JInt n) = int_ok n"
| "payload_ok (JStr s) = list_all (\<lambda>c. c < 256) s"
| "payload_ok (JList xs) = list_all payload_ok xs"
| "payload_ok (JObj ms) = list_all (\<lambda>m. list_all (\<lambda>c. c < 256) (fst m) \<and> payload_ok (snd m)) ms"
| "payload_ok _ = False"

lemma int_text_head: "\<exists>c cs. int_text n = c # cs \<and> (c = 45 \<and> (\<exists>d ds. cs = d # ds \<and> is_digit d) \<or> is_digit c)"
proof -
  obtain c cs where "decimal (nat \<bar>n\<bar>) = c # cs" "is_digit c"
    using decimal_head [of "nat \<bar>n\<bar>"] decimal_digits [of "nat \<bar>n\<bar>"] by (cases "decimal (nat \<bar>n\<bar>)") auto
  then show ?thesis by (cases "n < 0") (auto simp: int_text_def)
qed

lemma constant_words:
  "code_points ''null'' = [110, 117, 108, 108]" "code_points ''true'' = [116, 114, 117, 101]"
  "code_points ''false'' = [102, 97, 108, 115, 101]" "code_points ''NaN'' = [78, 97, 78]"
  "code_points ''Infinity'' = [73, 110, 102, 105, 110, 105, 116, 121]"
  "code_points ''-Infinity'' = [45, 73, 110, 102, 105, 110, 105, 116, 121]"
  by (simp_all add: code_points_def)

lemma no_constant:
  assumes "c \<notin> {110, 116, 102, 78, 73}" and "c = 45 \<Longrightarrow> t \<noteq> [] \<and> hd t \<noteq> 73"
  shows "constant_body (c # t) = None"
  using assms by (cases t) (simp_all add: constant_body_def constants_def constant_words, auto)

lemma int_no_constant: "constant_body (int_text n @ r) = None"
proof -
  obtain c cs where i: "int_text n = c # cs" "c = 45 \<and> (\<exists>d ds. cs = d # ds \<and> is_digit d) \<or> is_digit c"
    using int_text_head [of n] by (elim exE conjE)
  have "constant_body (c # cs @ r) = None"
  proof (rule no_constant)
    show "c \<notin> {110, 116, 102, 78, 73}" using i(2) by (auto simp: is_digit_def)
    show "cs @ r \<noteq> [] \<and> hd (cs @ r) \<noteq> 73" if "c = 45" using i(2) that by (auto simp: is_digit_def)
  qed
  then show ?thesis using i(1) by simp
qed

lemma json_value_int:
  assumes "int_ok n" and "delimited r"
  shows "json_value (Suc m) (int_text n @ r) = Some (JInt n, r)"
proof -
  obtain c cs where i: "int_text n = c # cs" "c = 45 \<or> is_digit c" using int_text_head [of n] by auto
  then have "c \<noteq> 34" "c \<noteq> 91" "c \<noteq> 123" by (auto simp: is_digit_def)
  then show ?thesis using number_round_trip [OF assms] int_no_constant [of n r] i(1) by simp
qed

text \<open>Every document begins with a character that is neither white space nor closes a list or an object.\<close>

definition opens :: "nat \<Rightarrow> bool" where
  "opens c \<longleftrightarrow> c \<in> {34, 91, 123, 45} \<or> is_digit c"

lemma dumps_opens: "payload_ok j \<Longrightarrow> \<exists>c cs. dumps j = c # cs \<and> opens c"
proof (cases j)
  case (JInt n)
  then show ?thesis using int_text_head [of n] by (auto simp: opens_def)
qed (auto simp: opens_def str_text_def)

lemma skip_opens: "opens c \<Longrightarrow> skip_ws (c # cs) = c # cs"
  by (auto simp: opens_def skip_ws_def is_digit_def)

lemma skip_delimiter: "c \<in> {44, 58, 93, 125} \<Longrightarrow> skip_ws (c # cs) = c # cs"
  by (auto simp: skip_ws_def)

lemma join_Cons: "xs \<noteq> [] \<Longrightarrow> join_comma (x # xs) = x @ 44 # join_comma xs"
  by (cases xs) auto

lemma json_elements_round_trip:
  assumes "xs \<noteq> []" and "list_all payload_ok xs"
    and reads: "\<And>x m q. x \<in> set xs \<Longrightarrow> delimited q \<Longrightarrow> 2 * length (dumps x) < m \<Longrightarrow> json_value m (dumps x @ q) = Some (x, q)"
    and "2 * length (join_comma (map dumps xs)) + 1 < m"
  shows "json_elements m (join_comma (map dumps xs) @ 93 # r) = Some (xs, r)"
  using assms
proof (induction xs arbitrary: m)
  case (Cons x xs)
  obtain k where m: "m = Suc k" using Cons.prems(4) by (cases m) auto
  show ?case
  proof (cases "xs = []")
    case True
    have "json_value k (dumps x @ 93 # r) = Some (x, 93 # r)"
      using Cons.prems(3) [of x "93 # r" k] Cons.prems(4) True m by (simp add: delimited_def)
    then show ?thesis using True m by (simp add: skip_delimiter)
  next
    case False
    let ?rest = "join_comma (map dumps xs)"
    have j: "join_comma (map dumps (x # xs)) = dumps x @ 44 # ?rest" using False by (simp add: join_Cons)
    have v: "json_value k (dumps x @ 44 # ?rest @ 93 # r) = Some (x, 44 # ?rest @ 93 # r)"
      using Cons.prems(3) [of x "44 # ?rest @ 93 # r" k] Cons.prems(4) j m by (simp add: delimited_def)
    obtain y ys where ys: "xs = y # ys" using False by (cases xs) auto
    obtain c cs where c: "dumps y = c # cs" "opens c" using dumps_opens [of y] Cons.prems(2) ys by auto
    then have "skip_ws (?rest @ 93 # r) = ?rest @ 93 # r" using skip_opens ys by (cases ys) auto
    moreover have "json_elements k (?rest @ 93 # r) = Some (xs, r)"
      using Cons.IH [OF False, of k] Cons.prems j m by auto
    ultimately show ?thesis using v j m by (simp add: skip_delimiter)
  qed
qed simp

lemma json_members_round_trip:
  assumes "ms \<noteq> []" and "list_all (\<lambda>m. list_all (\<lambda>c. c < 256) (fst m) \<and> payload_ok (snd m)) ms"
    and reads: "\<And>x m q. x \<in> snd ` set ms \<Longrightarrow> delimited q \<Longrightarrow> 2 * length (dumps x) < m \<Longrightarrow> json_value m (dumps x @ q) = Some (x, q)"
    and "2 * length (join_comma (map (\<lambda>(k, v). str_text k @ 58 # dumps v) ms)) < m"
  shows "json_members m (join_comma (map (\<lambda>(k, v). str_text k @ 58 # dumps v) ms) @ 125 # r) = Some (ms, r)"
  using assms
proof (induction ms arbitrary: m)
  case (Cons a ms)
  obtain k v where a: "a = (k, v)" by (cases a)
  obtain l where m: "m = Suc l" using Cons.prems(4) by (cases m) auto
  let ?one = "str_text k @ 58 # dumps v"
  obtain c cs where c: "dumps v = c # cs" "opens c" using dumps_opens [of v] Cons.prems(2) a by auto
  have key: "str_body (concat (map escape k) @ 34 # t) = Some (k, t)" for t
    using Cons.prems(2) a by (intro str_round_trip) simp
  have sk: "skip_ws (dumps v @ q) = dumps v @ q" for q using c skip_opens by simp
  show ?case
  proof (cases "ms = []")
    case True
    have "json_value l (dumps v @ 125 # r) = Some (v, 125 # r)"
      using Cons.prems(3) [of v "125 # r" l] Cons.prems(4) True a m by (simp add: delimited_def)
    then show ?thesis using True a m key sk by (simp add: str_text_def skip_delimiter)
  next
    case False
    let ?rest = "join_comma (map (\<lambda>(k, v). str_text k @ 58 # dumps v) ms)"
    have j: "join_comma (map (\<lambda>(k, v). str_text k @ 58 # dumps v) (a # ms)) = ?one @ 44 # ?rest"
      using False a by (simp add: join_Cons)
    have v: "json_value l (dumps v @ 44 # ?rest @ 125 # r) = Some (v, 44 # ?rest @ 125 # r)"
      using Cons.prems(3) [of v "44 # ?rest @ 125 # r" l] Cons.prems(4) j a m by (simp add: delimited_def)
    obtain b bs where b: "ms = b # bs" using False by (cases ms) auto
    then have "\<exists>cs. ?rest = 34 # cs" by (cases b; cases bs) (auto simp: str_text_def)
    then have "skip_ws (?rest @ 125 # r) = ?rest @ 125 # r" using skip_opens [of 34] by (auto simp: opens_def)
    moreover have "json_members l (?rest @ 125 # r) = Some (ms, r)"
      using Cons.IH [OF False, of l] Cons.prems j m by auto
    ultimately show ?thesis using v j m a key sk by (simp add: str_text_def skip_delimiter)
  qed
qed simp

lemma json_value_round_trip:
  "payload_ok j \<Longrightarrow> delimited r \<Longrightarrow> 2 * length (dumps j) < n \<Longrightarrow> json_value n (dumps j @ r) = Some (j, r)"
proof (induction j arbitrary: r n)
  case (JInt x)
  then show ?case using json_value_int by (cases n) auto
next
  case (JStr s)
  then show ?case using str_round_trip by (cases n) (auto simp: str_text_def)
next
  case (JList xs)
  obtain m where n: "n = Suc m" using JList.prems(3) by (cases n) auto
  show ?case
  proof (cases "xs = []")
    case True
    then show ?thesis using n by (simp add: skip_delimiter)
  next
    case False
    then obtain x ys where x: "xs = x # ys" by (cases xs) auto
    obtain c cs where c: "dumps x = c # cs" "opens c" using dumps_opens [of x] JList.prems(1) x by auto
    have e: "json_elements m (join_comma (map dumps xs) @ 93 # r) = Some (xs, r)"
      using JList False n by (intro json_elements_round_trip) (auto simp: list_all_iff)
    obtain ds where h: "join_comma (map dumps xs) = c # ds" using c x by (cases ys) auto
    then have "skip_ws (join_comma (map dumps xs) @ 93 # r) = c # ds @ 93 # r" "c \<noteq> 93"
      using skip_opens c(2) by (auto simp: opens_def is_digit_def)
    then show ?thesis using e n h by simp
  qed
next
  case (JObj ms)
  obtain m where n: "n = Suc m" using JObj.prems(3) by (cases n) auto
  let ?t = "join_comma (map (\<lambda>(k, v). str_text k @ 58 # dumps v) ms)"
  show ?case
  proof (cases "ms = []")
    case True
    then show ?thesis using n by (simp add: skip_delimiter)
  next
    case False
    have e: "json_members m (?t @ 125 # r) = Some (ms, r)"
    proof (rule json_members_round_trip [OF False])
      show "list_all (\<lambda>m. list_all (\<lambda>c. c < 256) (fst m) \<and> payload_ok (snd m)) ms" using JObj.prems(1) by simp
      show "2 * length ?t < m" using JObj.prems(3) n by simp
      show "json_value k (dumps x @ q) = Some (x, q)" if "x \<in> snd ` set ms" "delimited q" "2 * length (dumps x) < k" for x k q
      proof -
        from that(1) obtain p where p: "p \<in> set ms" "x = snd p" by blast
        then have "payload_ok x" using JObj.prems(1) by (auto simp: list_all_iff)
        then show ?thesis using JObj.IH [OF p(1), of x q k] p(2) that by (cases p) simp
      qed
    qed
    obtain a bs where "ms = a # bs" using False by (cases ms) auto
    then have "\<exists>cs. ?t = 34 # cs" by (cases a; cases bs) (auto simp: str_text_def)
    then obtain cs where "?t = 34 # cs" by blast
    then show ?thesis using e n skip_opens [of 34] by (simp add: opens_def)
  qed
qed simp_all

lemma loads_dumps: "payload_ok j \<Longrightarrow> loads (dumps j) = Some j"
proof -
  assume j: "payload_ok j"
  then obtain c cs where "dumps j = c # cs" "opens c" using dumps_opens by blast
  then have "skip_ws (dumps j) = dumps j" using skip_opens by simp
  then show ?thesis using json_value_round_trip [OF j, of "[]" "2 * length (dumps j) + 1"]
    by (simp add: loads_def delimited_def skip_ws_def)
qed

section \<open>The round trip of a cursor\<close>

abbreviation ascii :: "ustring \<Rightarrow> bool" where
  "ascii \<equiv> list_all (\<lambda>b. 0 < b \<and> b < 128)"

lemma ascii_append [simp]: "ascii (xs @ ys) \<longleftrightarrow> ascii xs \<and> ascii ys"
  by (rule list_all_append)

lemma hex4_ascii: "ascii (hex4_text n)"
proof -
  have "0 < hex_digit d \<and> hex_digit d < 128" if "d < 16" for d using that by (simp add: hex_digit_def)
  then show ?thesis by (simp add: hex4_text_def)
qed

lemma str_text_ascii: "ascii (str_text s)"
proof -
  have "ascii (escape c)" for c using hex4_ascii by (simp add: escape_def)
  then have "ascii (concat (map escape s))" by (induction s) simp_all
  then show ?thesis by (simp add: str_text_def)
qed

lemma int_text_ascii: "ascii (int_text n)"
proof -
  have "ascii (decimal m)" for m using decimal_digits [of m] unfolding list_all_iff is_digit_def by fastforce
  then show ?thesis by (simp add: int_text_def)
qed

lemma join_ascii: "list_all ascii xs \<Longrightarrow> ascii (join_comma xs)"
  by (induction xs rule: join_comma.induct) auto

lemma dumps_ascii: "payload_ok j \<Longrightarrow> ascii (dumps j)"
proof (induction j)
  case (JList xs)
  then have "ascii (join_comma (map dumps xs))" by (intro join_ascii) (auto simp: list_all_iff)
  then show ?case by simp
next
  case (JObj ms)
  have "ascii (str_text k @ 58 # dumps v)" if "(k, v) \<in> set ms" for k v
  proof -
    have "payload_ok v" using JObj.prems that by (force simp: list_all_iff)
    then show ?thesis using JObj.IH [OF that, of v] str_text_ascii by simp
  qed
  then have "ascii (join_comma (map (\<lambda>(k, v). str_text k @ 58 # dumps v) ms))" by (intro join_ascii) (auto simp: list_all_iff)
  then show ?case by simp
qed (simp_all add: str_text_ascii int_text_ascii)

lemma cursor_round_trip:
  assumes "reads_ascii text_of" and "payload_ok (JObj ms)"
  shows "decode_cursor text_of (encode_cursor (JObj ms)) = Some ms"
proof -
  have a: "ascii (dumps (JObj ms))" by (rule dumps_ascii [OF assms(2)])
  then have "list_all (\<lambda>b. b < 256) (dumps (JObj ms))" by (auto simp: list_all_iff)
  from b64_round_trip [OF this] have "urlsafe_b64decode (encode_cursor (JObj ms) @
      replicate ((4 - length (encode_cursor (JObj ms)) mod 4) mod 4) (CHR ''='')) = Some (dumps (JObj ms))"
    by (simp only: encode_cursor_def)
  moreover have "text_of (dumps (JObj ms)) = Some (dumps (JObj ms))" using assms(1) a by (simp only: reads_ascii_def)
  moreover have "loads (dumps (JObj ms)) = Some (JObj ms)" by (rule loads_dumps [OF assms(2)])
  ultimately show ?thesis by (simp add: decode_cursor_def del: dumps.simps)
qed

section \<open>UUIDs\<close>

fun hex_fixed :: "nat \<Rightarrow> nat \<Rightarrow> ustring" where
  "hex_fixed 0 n = []"
| "hex_fixed (Suc k) n = hex_fixed k (n div 16) @ [hex_digit (n mod 16)]"

text \<open>\<open>str(UUID)\<close>\<close>

definition uuid_text :: "nat \<Rightarrow> ustring" where
  "uuid_text i =
     (let h = hex_fixed 32 i
      in take 8 h @ 45 # take 4 (drop 8 h) @ 45 # take 4 (drop 12 h) @ 45 # take 4 (drop 16 h) @ 45 # drop 20 h)"

text \<open>\<open>s.replace(pat, '')\<close>; \<open>pat\<close> is not empty.\<close>

fun remove_all :: "ustring \<Rightarrow> ustring \<Rightarrow> ustring" where
  "remove_all pat [] = []"
| "remove_all pat (c # cs) =
     (if pat \<noteq> [] \<and> prefix pat (c # cs) then remove_all pat (drop (length pat - 1) cs) else c # remove_all pat cs)"

definition strip_set :: "nat set \<Rightarrow> ustring \<Rightarrow> ustring" where
  "strip_set cs s = rev (dropWhile (\<lambda>c. c \<in> cs) (rev (dropWhile (\<lambda>c. c \<in> cs) s)))"

text \<open>\<open>int(s, 16)\<close>: white space and a sign, then \<open>0x\<close>, may come first; single underscores may separate digits.\<close>

fun hex_digits_value :: "bool \<Rightarrow> nat \<Rightarrow> ustring \<Rightarrow> nat option" where
  "hex_digits_value after acc [] = (if after then Some acc else None)"
| "hex_digits_value after acc (c # cs) =
     (case hex_value c of
        Some d \<Rightarrow> hex_digits_value True (acc * 16 + d) cs
      | None \<Rightarrow> if after \<and> c = 95 then hex_digits_value False acc cs else None)"

definition white_points :: "nat set" where
  "white_points = {9, 10, 11, 12, 13, 28, 29, 30, 31, 32, 133, 160}"

definition hex_unsigned :: "ustring \<Rightarrow> nat option" where
  "hex_unsigned s =
     (if prefix [48, 120] s \<or> prefix [48, 88] s
      then hex_digits_value False 0 (let r = drop 2 s in if prefix [95] r then tl r else r)
      else hex_digits_value False 0 s)"

definition hex_int :: "ustring \<Rightarrow> int option" where
  "hex_int s =
     (let u = strip_set white_points s
      in if prefix [45] u then map_option (\<lambda>n. - int n) (hex_unsigned (tl u))
         else if prefix [43] u then map_option int (hex_unsigned (tl u))
         else map_option int (hex_unsigned u))"

text \<open>\<open>uuid.UUID(s)\<close>; \<open>None\<close> is \<open>ValueError\<close>.\<close>

definition uuid_of :: "ustring \<Rightarrow> nat option" where
  "uuid_of s =
     (let h = filter (\<lambda>c. c \<noteq> 45) (strip_set {123, 125}
                (remove_all (code_points ''uuid:'') (remove_all (code_points ''urn:'') s)))
      in if length h \<noteq> 32 then None
         else case hex_int h of
                None \<Rightarrow> None
              | Some n \<Rightarrow> if 0 \<le> n \<and> n < 2 ^ 128 then Some (nat n) else None)"

abbreviation hex_point :: "nat \<Rightarrow> bool" where
  "hex_point c \<equiv> 48 \<le> c \<and> c \<le> 57 \<or> 97 \<le> c \<and> c \<le> 102"

lemma hex_fixed_points: "list_all hex_point (hex_fixed k n)"
proof (induction k arbitrary: n)
  case (Suc k)
  have "n mod 16 < 16" by simp
  then have "hex_point (hex_digit (n mod 16))" by (auto simp: hex_digit_def)
  then show ?case using Suc by simp
qed simp

lemma hex_fixed_length [simp]: "length (hex_fixed k n) = k"
  by (induction k arbitrary: n) simp_all

lemma hex_digits_value_append:
  "list_all hex_point xs \<Longrightarrow> xs \<noteq> [] \<Longrightarrow>
     hex_digits_value b acc (xs @ ys) = hex_digits_value True (fold (\<lambda>c a. a * 16 + the (hex_value c)) xs acc) ys"
proof (induction xs arbitrary: b acc)
  case (Cons x xs)
  then have "hex_value x \<noteq> None" by (auto simp: hex_value_def is_digit_def)
  then show ?case using Cons by (cases "xs = []") auto
qed simp

lemma hex_fixed_value: "n < 16 ^ k \<Longrightarrow> fold (\<lambda>c a. a * 16 + the (hex_value c)) (hex_fixed k n) 0 = n"
proof (induction k arbitrary: n)
  case (Suc k)
  have "n div 16 < 16 ^ k" using Suc.prems by (simp add: less_mult_imp_div_less mult.commute)
  then show ?case using Suc.IH hex_value_digit [of "n mod 16"] by simp
qed simp

lemma remove_all_absent: "pat \<noteq> [] \<Longrightarrow> hd pat \<notin> set s \<Longrightarrow> remove_all pat s = s"
  by (induction s) (auto simp: prefix_Cons neq_Nil_conv)

lemma strip_set_none: "set s \<inter> cs = {} \<Longrightarrow> strip_set cs s = s"
proof -
  assume d: "set s \<inter> cs = {}"
  have "dropWhile (\<lambda>c. c \<in> cs) t = t" if "set t \<subseteq> set s" for t using d that by (cases t) auto
  then show ?thesis by (simp add: strip_set_def)
qed

lemma uuid_text_points: "c \<in> set (uuid_text i) \<Longrightarrow> hex_point c \<or> c = 45"
  using hex_fixed_points [of 32 i] by (auto simp: uuid_text_def Let_def list_all_iff dest: in_set_takeD in_set_dropD)

lemma uuid_text_hex: "filter (\<lambda>c. c \<noteq> 45) (uuid_text i) = hex_fixed 32 i"
proof -
  let ?h = "hex_fixed 32 i"
  have keep: "filter (\<lambda>c. c \<noteq> 45) t = t" if "set t \<subseteq> set ?h" for t
    using that hex_fixed_points [of 32 i] by (intro filter_True) (fastforce simp: list_all_iff)
  have "take 8 ?h @ take 4 (drop 8 ?h) @ take 4 (drop 12 ?h) @ take 4 (drop 16 ?h) @ drop 20 ?h = ?h"
    using append_take_drop_id [of 4 "drop 16 ?h"] append_take_drop_id [of 4 "drop 12 ?h"] append_take_drop_id [of 4 "drop 8 ?h"]
      append_take_drop_id [of 8 ?h] by simp
  moreover have "set (take n (drop m ?h)) \<subseteq> set ?h" "set (drop m ?h) \<subseteq> set ?h" "set (take n ?h) \<subseteq> set ?h" for n m
    by (meson order_trans set_drop_subset set_take_subset)+
  ultimately show ?thesis by (simp add: uuid_text_def Let_def keep del: drop_drop)
qed

lemma uuid_round_trip:
  assumes "i < 2 ^ 128"
  shows "uuid_of (uuid_text i) = Some i"
proof -
  let ?h = "hex_fixed 32 i"
  have pts: "hex_point c" if "c \<in> set ?h" for c using that hex_fixed_points [of 32 i] by (auto simp: list_all_iff)
  have r: "remove_all (code_points ''urn:'') (uuid_text i) = uuid_text i" "remove_all (code_points ''uuid:'') (uuid_text i) = uuid_text i"
    by (rule remove_all_absent; use uuid_text_points [of 117 i] in \<open>auto simp: code_points_def\<close>)+
  have s: "strip_set {123, 125} (uuid_text i) = uuid_text i"
    using uuid_text_points [of 123 i] uuid_text_points [of 125 i] by (intro strip_set_none) auto
  have w: "strip_set white_points ?h = ?h" 
  proof (rule strip_set_none)
    have "c \<notin> white_points" if "hex_point c" for c using that by (auto simp: white_points_def)
    then show "set ?h \<inter> white_points = {}" using pts by blast
  qed
  have ne: "?h \<noteq> []" using hex_fixed_length [of 32 i] by (metis list.size(3) zero_neq_numeral)
  have no: "\<not> prefix [45] ?h" "\<not> prefix [43] ?h" "\<not> prefix [48, 120] ?h" "\<not> prefix [48, 88] ?h"
  proof -
    have "\<not> prefix xs ?h" if "c \<in> set xs" "\<not> hex_point c" for c xs
      using that pts set_mono_prefix by blast
    from this [of 45 "[45]"] this [of 43 "[43]"] this [of 120 "[48, 120]"] this [of 88 "[48, 88]"]
    show "\<not> prefix [45] ?h" "\<not> prefix [43] ?h" "\<not> prefix [48, 120] ?h" "\<not> prefix [48, 88] ?h" by simp_all
  qed
  have "(2::nat) ^ 128 = 16 ^ 32" by (simp add: power_mult [symmetric])
  then have "hex_digits_value False 0 ?h = Some i"
    using hex_digits_value_append [OF hex_fixed_points ne, of False 0 "[]"] hex_fixed_value assms by simp
  then have "hex_int ?h = Some (int i)" using w no by (simp add: hex_int_def hex_unsigned_def)
  moreover have "int i < 2 ^ 128" using assms by (metis of_nat_less_iff of_nat_numeral of_nat_power)
  ultimately show ?thesis by (simp add: uuid_of_def r s uuid_text_hex)
qed

lemma uuid_text_inj: "i < 2 ^ 128 \<Longrightarrow> j < 2 ^ 128 \<Longrightarrow> uuid_text i = uuid_text j \<Longrightarrow> i = j"
  using uuid_round_trip by (metis option.inject)

end
