(* ===== verification/Keyset_Pages.thy ===== *)
theory Keyset_Pages
  imports Catalog_Reads Cursors
begin

text \<open>
  Keyset paging as every list of \<open>server/data/store/app/dataset_catalog.py\<close> does it: the items in the order of a
  unique key, those past the cursor's key, one more than the page holds, and a cursor of the last item shown
  when there is more. \<open>walk_pages\<close> is a client that follows \<open>next_cursor\<close> until it is empty; it is \<open>None\<close> when a page
  fails or the walk never ends. The locale \<open>keyset_pages\<close> is what a list's cursor must promise for the walk to end
  with every item once; each list of the service is an instance.
\<close>

partial_function (option) walk_pages ::
  "(string option \<Rightarrow> 'e + 'a list \<times> string) \<Rightarrow> string option \<Rightarrow> 'a list list option" where
  "walk_pages page c =
     (case page c of
        Inl e \<Rightarrow> None
      | Inr r \<Rightarrow> if snd r = [] then Some [fst r]
               else Option.bind (walk_pages page (Some (snd r))) (\<lambda>rest. Some (fst r # rest)))"

definition keyset_page ::
  "('a \<Rightarrow> 'k::linorder) \<Rightarrow> ('k \<Rightarrow> string) \<Rightarrow> nat \<Rightarrow> 'a list \<Rightarrow> 'k option \<Rightarrow> 'a list \<times> string" where
  "keyset_page key cursor limit xs after =
     (let window = take (limit + 1) (filter (after_key key after) (sort_key key xs));
          page = take limit window
      in (page, if length window > limit then cursor (key (last page)) else []))"

lemma keyset_page_cong:
  "0 < limit \<Longrightarrow> (\<And>x. x \<in> set xs \<Longrightarrow> c (key x) = c' (key x)) \<Longrightarrow>
     keyset_page key c limit xs after = keyset_page key c' limit xs after"
proof -
  assume limit: "0 < limit" and c: "\<And>x. x \<in> set xs \<Longrightarrow> c (key x) = c' (key x)"
  let ?w = "take (limit + 1) (filter (after_key key after) (sort_key key xs))"
  have "last (take limit ?w) \<in> set xs" if "take limit ?w \<noteq> []"
    using last_in_set [OF that] by (auto dest!: in_set_takeD)
  moreover have "take limit ?w \<noteq> []" if "length ?w > limit" using that limit by auto
  ultimately show ?thesis using c unfolding keyset_page_def Let_def by (cases "length ?w > limit") simp_all
qed

text \<open>The number of pages of \<open>n\<close> items; an empty list is one empty page.\<close>

definition page_count :: "nat \<Rightarrow> nat \<Rightarrow> nat" where
  "page_count limit n = (n - 1) div limit + 1"

locale keyset_pages =
  fixes key :: "'a \<Rightarrow> 'k::linorder"
    and cursor :: "'k \<Rightarrow> string"
    and key_of :: "string \<Rightarrow> 'k option"
    and fits :: "'k \<Rightarrow> bool"
  assumes round_trip: "fits k \<Longrightarrow> key_of (cursor k) = Some k"
    and cursor_shown: "fits k \<Longrightarrow> cursor k \<noteq> []"
begin

lemma walk_from:
  assumes keys: "distinct (map key xs)" and fits: "\<And>x. x \<in> set xs \<Longrightarrow> fits (key x)" and limit: "0 < limit"
    and page: "\<And>s k. key_of s = Some k \<Longrightarrow> page (Some s) = Inr (keyset_page key cursor limit xs (Some k))"
    and here: "page c = Inr (keyset_page key cursor limit xs after)"
    and rest: "filter (after_key key after) (sort_key key xs) = rem"
  shows "\<exists>ps. walk_pages page c = Some ps \<and> concat ps = rem \<and> length ps = page_count limit (length rem)
    \<and> (\<forall>p\<in>set ps. length p \<le> limit)"
  using here rest
proof (induction "length rem" arbitrary: c after rem rule: less_induct)
  case less
  let ?S = "sort_key key xs"
  have strict: "sorted_wrt (\<lambda>a b. key a < key b) rem"
    unfolding less.prems(2) [symmetric] by (intro sorted_wrt_filter sort_key_strict keys)
  have page_c: "page c = Inr (take limit rem, if length rem > limit then cursor (key (last (take limit rem))) else [])"
    unfolding less.prems(1) keyset_page_def less.prems(2) Let_def by (simp add: min_def)
  show ?case
  proof (cases "length rem > limit")
    case False
    then have "walk_pages page c = Some [rem]" using page_c by (subst walk_pages.simps) simp
    moreover have "(length rem - 1) div limit = 0" using False limit by (intro div_less) linarith
    ultimately show ?thesis using False by (simp add: page_count_def)
  next
    case True
    let ?k = "key (last (take limit rem))"
    have ne: "take limit rem \<noteq> []" using True limit by auto
    have "last (take limit rem) \<in> set rem" using last_in_set [OF ne] in_set_takeD by metis
    then have last: "last (take limit rem) \<in> set xs" "after_key key after (last (take limit rem))"
      unfolding less.prems(2) [symmetric] by simp_all
    have f: "fits ?k" using fits last(1) by blast
    have "after_key key (Some ?k) x \<longleftrightarrow> after_key key after x \<and> ?k < key x" for x
      using last(2) by (auto simp: after_key_def split: option.splits)
    then have "filter (after_key key (Some ?k)) ?S = filter (\<lambda>x. ?k < key x) rem"
      unfolding less.prems(2) [symmetric] by (auto intro: filter_cong)
    also have "\<dots> = drop limit rem" using filter_after_last [OF strict ne] .
    finally have next_rest: "filter (after_key key (Some ?k)) ?S = drop limit rem" .
    have "length (drop limit rem) < length rem" using True limit by simp
    from less.hyps [OF this page [OF round_trip [OF f]] next_rest]
    obtain ps where ps: "walk_pages page (Some (cursor ?k)) = Some ps" "concat ps = drop limit rem"
      "length ps = page_count limit (length (drop limit rem))" "\<forall>p\<in>set ps. length p \<le> limit" by blast
    have "walk_pages page c = Some (take limit rem # ps)"
      using page_c True cursor_shown [OF f] ps(1) by (subst walk_pages.simps) simp
    moreover have "page_count limit (length rem) = Suc (page_count limit (length rem - limit))"
    proof -
      have e: "length rem - 1 = limit + (length rem - limit - 1)" using True by simp
      have "(limit + y) div limit = Suc (y div limit)" for y using limit by simp
      then show ?thesis unfolding page_count_def e by simp
    qed
    moreover have "concat (take limit rem # ps) = rem" using ps(2) by simp
    moreover have "length (take limit rem # ps) = page_count limit (length rem)" using calculation(2) ps(3) by simp
    moreover have "\<forall>p\<in>set (take limit rem # ps). length p \<le> limit" using ps(4) by simp
    ultimately show ?thesis by blast
  qed
qed

lemma walk_all:
  assumes "distinct (map key xs)" and "\<And>x. x \<in> set xs \<Longrightarrow> fits (key x)" and "0 < limit"
    and "\<And>s k. key_of s = Some k \<Longrightarrow> page (Some s) = Inr (keyset_page key cursor limit xs (Some k))"
    and "page None = Inr (keyset_page key cursor limit xs None)"
  shows "\<exists>ps. walk_pages page None = Some ps \<and> concat ps = sort_key key xs \<and> length ps = page_count limit (length xs)
    \<and> (\<forall>p\<in>set ps. length p \<le> limit)"
  using walk_from [OF assms, of "sort_key key xs"] by (simp add: after_key_def [abs_def])

end

end
