(* ===== verification/Catalog_Views.thy ===== *)
theory Catalog_Views
  imports Keyset_Pages Usage_Reads Daily_Refresh
begin

text \<open>
  The catalog the operator interface reads: \<open>server/data/store/app/dataset_catalog.py\<close> up to the coverage strip.
  Views with their computed freshness, the filters, the keyset pages, the reaper's pending list, the facets,
  one dataset's detail and its coverage. A request reads one snapshot of the database, \<open>d\<close> for the catalog and
  \<open>u\<close> for the usage tables; \<open>now\<close> is aware. The exchange calendar library is the argument \<open>get_calendar\<close>, the byte
  decoding of \<open>json.loads\<close> the argument \<open>text_of\<close>.
\<close>

section \<open>Errors\<close>

text \<open>
  What a request raises: a typed refusal, an error of the calendar, a naive instant (\<open>ValueError\<close>), or a
  setting of the environment that is refused (\<open>ValueError\<close>).
\<close>

datatype page_error = InvalidRequest reason | CalendarFails cal_error | NaiveClock | BadSettings

definition invalid_cursor :: page_error where
  "invalid_cursor = InvalidRequest INVALID_REQUEST"

fun lift_cal :: "cal_error + 'a \<Rightarrow> page_error + 'a" where
  "lift_cal (Inl e) = Inl (CalendarFails e)"
| "lift_cal (Inr x) = Inr x"

fun lift_clock :: "clock_error + 'a \<Rightarrow> page_error + 'a" where
  "lift_clock (Inl e) = Inl NaiveClock"
| "lift_clock (Inr x) = Inr x"

section \<open>Requests\<close>

definition DEFAULT_PAGE_LIMIT :: nat where "DEFAULT_PAGE_LIMIT = 100"
definition MAX_COVERAGE_GAPS :: nat where "MAX_COVERAGE_GAPS = 500"
definition USAGE_WINDOW_DAYS :: int where "USAGE_WINDOW_DAYS = 30"
definition DEFAULT_STALE_DAYS :: int where "DEFAULT_STALE_DAYS = 90"
definition EXPIRING_SOON_DAYS :: int where "EXPIRING_SOON_DAYS = 7"

datatype status_group = GROUP_HEALTHY | GROUP_LATE | GROUP_FAILED | GROUP_RETIRED
datatype dataset_sort = SYMBOL | EXPIRES | LAST_READ
datatype usage_filter = READ_30D | STALE | NEVER_READ

fun GROUP_OF :: "freshness_status \<Rightarrow> status_group" where
  "GROUP_OF FRESH = GROUP_HEALTHY"
| "GROUP_OF F_COMPLETE = GROUP_HEALTHY"
| "GROUP_OF LATE = GROUP_LATE"
| "GROUP_OF OVERDUE = GROUP_FAILED"
| "GROUP_OF F_GAPS = GROUP_FAILED"
| "GROUP_OF RETIRED = GROUP_RETIRED"

definition ATTENTION :: "status_group set" where
  "ATTENTION = {GROUP_LATE, GROUP_FAILED}"

record client_filter =
  cl_ids :: "string list"
  cl_kinds :: "read_client_kind list"

definition default_clients :: client_filter where
  "default_clients = \<lparr>cl_ids = [], cl_kinds = []\<rparr>"

definition applied_ids :: "client_filter \<Rightarrow> string list" where
  "applied_ids f = from_keys (cl_ids f)"

definition applied_kinds :: "client_filter \<Rightarrow> read_client_kind list" where
  "applied_kinds f =
     (if cl_ids f \<noteq> [] then []
      else let kinds = (if cl_kinds f = [] then {SDK} else set (cl_kinds f))
           in filter (\<lambda>k. k \<in> kinds) [UI, SDK])"

definition client_args_of :: "client_filter \<Rightarrow> client_args" where
  "client_args_of f =
     (if cl_ids f \<noteq> [] then \<lparr>ca_kinds = None, ca_ids = Some (applied_ids f)\<rparr>
      else \<lparr>ca_kinds = Some (applied_kinds f), ca_ids = None\<rparr>)"

record catalog_query =
  q_filter :: catalog_filter
  q_status :: "status_group option"
  q_attention :: bool
  q_running :: bool
  q_clients :: client_filter
  q_usage :: "usage_filter option"
  q_stale_days :: int
  q_expires_before :: "instant option"
  q_sort :: dataset_sort
  q_cursor :: "string option"
  q_limit :: nat

section \<open>Freshness\<close>

record dataset_view =
  dv_row :: catalog_row
  dv_health :: "dataset_health option"

definition view_group :: "dataset_view \<Rightarrow> status_group option" where
  "view_group v = map_option (\<lambda>h. GROUP_OF (h_status h)) (dv_health v)"

definition is_collecting :: "catalog_row \<Rightarrow> bool \<Rightarrow> bool" where
  "is_collecting row running \<longleftrightarrow>
     (if cat_update_type row = STATIC then running else cat_collect row \<noteq> Some False)"

text \<open>The calendar of a row's source; \<open>None\<close> when the source has none.\<close>

definition row_calendar :: "(string \<Rightarrow> day \<Rightarrow> xcal) \<Rightarrow> catalog_row \<Rightarrow> page_error + tcal option" where
  "row_calendar get_calendar row =
     (case calendar_for_source get_calendar (cat_source row) of
        Inl UnknownCalendarError \<Rightarrow> Inr None
      | Inl e \<Rightarrow> Inl (CalendarFails e)
      | Inr a \<Rightarrow> Inr (Some (adapter_calendar a)))"

text \<open>The dates are read with one statement per zone; each row's come from its own zone.\<close>

definition static_covered :: "db \<Rightarrow> catalog_row \<Rightarrow> tcal \<Rightarrow> day set option" where
  "static_covered d row calendar =
     (if cat_update_type row = STATIC then covered_dates [row] (tz calendar) d (cat_id row) else None)"

definition view_of ::
  "db \<Rightarrow> instant \<Rightarrow> freshness_config \<Rightarrow> catalog_row \<times> tcal option \<Rightarrow> page_error + dataset_view" where
  "view_of d now config rc =
     (let row = fst rc in
      case snd rc of
        None \<Rightarrow> Inr \<lparr>dv_row = row, dv_health = (if is_retired row then Some (verdict RETIRED None None) else None)\<rparr>
      | Some calendar \<Rightarrow>
          (case evaluate_dataset (cat_update_type row) (cat_granularity row) (cat_collect row) (Aware (cat_start row))
                  (Aware (effective_end row now)) (map_option Aware (cat_last_bar row)) (static_covered d row calendar)
                  calendar (Aware now) (Some config) (map_option Aware (cat_written_at row)) of
             Inl CalendarRangeError \<Rightarrow> Inr \<lparr>dv_row = row, dv_health = None\<rparr>
           | Inl e \<Rightarrow> Inl (CalendarFails e)
           | Inr h \<Rightarrow> Inr \<lparr>dv_row = row, dv_health = Some h\<rparr>))"

text \<open>The settings given, or the environment's.\<close>

definition settings :: "(string \<rightharpoonup> string) \<Rightarrow> freshness_config option \<Rightarrow> page_error + freshness_config" where
  "settings env config =
     (case config of
        Some c \<Rightarrow> Inr c
      | None \<Rightarrow> (case freshness_config_from_env env of None \<Rightarrow> Inl BadSettings | Some c \<Rightarrow> Inr c))"

text \<open>The world of a request: the library, the environment, the decoding of bytes and the two databases.\<close>

record world =
  w_calendars :: "string \<Rightarrow> day \<Rightarrow> xcal"
  w_env :: "string \<rightharpoonup> string"
  w_text_of :: "nat list \<Rightarrow> ustring option"
  w_db :: db
  w_usage :: usage_db

definition evaluate_views ::
  "world \<Rightarrow> catalog_row list \<Rightarrow> instant \<Rightarrow> freshness_config option \<Rightarrow> page_error + dataset_view list" where
  "evaluate_views w rows now config =
     bind_r (settings (w_env w) config) (\<lambda>c.
     bind_r (map_r (row_calendar (w_calendars w)) rows) (\<lambda>calendars.
       map_r (view_of (w_db w) now c) (zip rows calendars)))"

section \<open>Sort keys and cursors\<close>

text \<open>A part of a key: Python compares parts of one position, which have one type.\<close>

datatype key_part = KInt int | KStr ustring

instantiation key_part :: linorder
begin

fun less_eq_key_part :: "key_part \<Rightarrow> key_part \<Rightarrow> bool" where
  "less_eq_key_part (KInt a) (KInt b) = (a \<le> b)"
| "less_eq_key_part (KInt a) (KStr b) = True"
| "less_eq_key_part (KStr a) (KInt b) = False"
| "less_eq_key_part (KStr a) (KStr b) = (a \<le> b)"

definition less_key_part :: "key_part \<Rightarrow> key_part \<Rightarrow> bool" where
  "less_key_part a b \<longleftrightarrow> a \<le> b \<and> \<not> b \<le> a"

instance
proof
  fix x y z :: key_part
  show "x < y \<longleftrightarrow> x \<le> y \<and> \<not> y \<le> x" by (rule less_key_part_def)
  show "x \<le> x" by (cases x) simp_all
  show "x \<le> y \<Longrightarrow> y \<le> z \<Longrightarrow> x \<le> z" by (cases x; cases y; cases z) simp_all
  show "x \<le> y \<Longrightarrow> y \<le> x \<Longrightarrow> x = y" by (cases x; cases y) simp_all
  show "x \<le> y \<or> y \<le> x" by (cases x; cases y) (simp_all add: linear)
qed

end

fun json_part :: "key_part \<Rightarrow> json" where
  "json_part (KInt n) = JInt n"
| "json_part (KStr s) = JStr s"

text \<open>
  \<open>isinstance(part, int)\<close> for a part that is no \<open>bool\<close>, and \<open>isinstance(part, str)\<close>; the shape says which of the
  two each part must be.
\<close>

fun part_of :: "bool \<Rightarrow> json \<Rightarrow> key_part option" where
  "part_of False (JInt n) = Some (KInt n)"
| "part_of True (JStr s) = Some (KStr s)"
| "part_of text j = None"

fun parts_of :: "bool list \<Rightarrow> json list \<Rightarrow> key_part list option" where
  "parts_of [] [] = Some []"
| "parts_of (t # ts) (j # js) =
     (case (part_of t j, parts_of ts js) of (Some p, Some ps) \<Rightarrow> Some (p # ps) | _ \<Rightarrow> None)"
| "parts_of ts js = None"

text \<open>\<open>uuid.UUID(key[-1])\<close> must not raise.\<close>

definition keyed_by_uuid :: "key_part list \<Rightarrow> bool" where
  "keyed_by_uuid key \<longleftrightarrow> (case last key of KStr s \<Rightarrow> uuid_of s \<noteq> None | KInt n \<Rightarrow> False)"

definition key_tail :: "catalog_row \<Rightarrow> key_part list" where
  "key_tail row = [KStr (code_points (cat_symbol row)), KStr (uuid_text (cat_id row))]"

text \<open>\<open>_sort_key\<close>; an instant is its number of microseconds since the epoch.\<close>

definition sort_key_of :: "catalog_row \<Rightarrow> dataset_sort \<Rightarrow> (uuid \<rightharpoonup> dataset_usage) option \<Rightarrow> key_part list" where
  "sort_key_of row so usage =
     (case so of
        SYMBOL \<Rightarrow> key_tail row
      | LAST_READ \<Rightarrow>
          (case (case usage of None \<Rightarrow> None
                 | Some m \<Rightarrow> (case m (cat_id row) of None \<Rightarrow> None | Some us \<Rightarrow> us_last_read_at us)) of
             None \<Rightarrow> [KInt 1, KInt 0] @ key_tail row
           | Some t \<Rightarrow> [KInt 0, KInt (- t)] @ key_tail row)
      | EXPIRES \<Rightarrow>
          (case cat_expiry row of
             None \<Rightarrow> [KInt 1, KInt 0] @ key_tail row
           | Some t \<Rightarrow> [KInt 0, KInt t] @ key_tail row))"

fun sort_value :: "dataset_sort \<Rightarrow> string" where
  "sort_value SYMBOL = ''symbol''"
| "sort_value EXPIRES = ''expires''"
| "sort_value LAST_READ = ''last_read''"

definition sort_cursor :: "dataset_sort \<Rightarrow> key_part list \<Rightarrow> string" where
  "sort_cursor so key =
     encode_cursor (JObj [(code_points ''o'', JStr (code_points (sort_value so))),
       (code_points ''k'', JList (map json_part key))])"

definition cursor_for :: "catalog_row \<Rightarrow> dataset_sort \<Rightarrow> (uuid \<rightharpoonup> dataset_usage) option \<Rightarrow> string" where
  "cursor_for row so usage = sort_cursor so (sort_key_of row so usage)"

definition sort_shape :: "dataset_sort \<Rightarrow> bool list" where
  "sort_shape so = (if so = SYMBOL then [True, True] else [False, False, True, True])"

definition key_from_cursor :: "(nat list \<Rightarrow> ustring option) \<Rightarrow> string \<Rightarrow> dataset_sort \<Rightarrow> page_error + key_part list" where
  "key_from_cursor text_of cursor so =
     (case decode_cursor text_of cursor of
        None \<Rightarrow> Inl invalid_cursor
      | Some payload \<Rightarrow>
          if jget payload ''o'' \<noteq> Some (JStr (code_points (sort_value so))) then Inl invalid_cursor
          else case jget payload ''k'' of
                 Some (JList parts) \<Rightarrow>
                   (case parts_of (sort_shape so) parts of
                      None \<Rightarrow> Inl invalid_cursor
                    | Some key \<Rightarrow> if keyed_by_uuid key then Inr key else Inl invalid_cursor)
               | _ \<Rightarrow> Inl invalid_cursor)"

section \<open>Filters\<close>

definition matches ::
  "dataset_view \<Rightarrow> data_source option \<Rightarrow> update_type option \<Rightarrow> status_group option \<Rightarrow> bool \<Rightarrow> uuid set option \<Rightarrow>
   (catalog_row \<Rightarrow> bool) option \<Rightarrow> (catalog_row \<Rightarrow> bool) option \<Rightarrow> bool" where
  "matches v source update_type status attention running usage expiring \<longleftrightarrow>
     (case running of None \<Rightarrow> True | Some ids \<Rightarrow> cat_id (dv_row v) \<in> ids) \<and>
     (case usage of None \<Rightarrow> True | Some test \<Rightarrow> test (dv_row v)) \<and>
     (case expiring of None \<Rightarrow> True | Some test \<Rightarrow> test (dv_row v)) \<and>
     filters source (cat_source (dv_row v)) \<and> filters update_type (cat_update_type (dv_row v)) \<and>
     (case status of None \<Rightarrow> True | Some g \<Rightarrow> view_group v = Some g) \<and>
     \<not> (attention \<and> view_group v \<notin> Some ` ATTENTION)"

definition read_usage ::
  "world \<Rightarrow> uuid list option \<Rightarrow> client_filter \<Rightarrow> instant \<Rightarrow> page_error + (uuid \<rightharpoonup> dataset_usage)" where
  "read_usage w ids f now =
     (if usage_tables_exist (w_usage w)
      then lift_clock (read_dataset_usage ids (Aware now) USAGE_WINDOW_DAYS (client_args_of f) (w_usage w))
      else Inr Map.empty)"

definition page_readers ::
  "world \<Rightarrow> uuid list \<Rightarrow> instant \<Rightarrow> page_error + (uuid \<rightharpoonup> read_client_kind set \<times> string set)" where
  "page_readers w ids now =
     (if ids = [] \<or> \<not> usage_tables_exist (w_usage w) then Inr Map.empty
      else lift_clock (read_readers ids (Aware now) USAGE_WINDOW_DAYS (w_usage w)))"

definition read_clients :: "world \<Rightarrow> uuid list \<Rightarrow> instant \<Rightarrow> page_error + client_datasets list" where
  "read_clients w ids now =
     (if ids = [] \<or> \<not> usage_tables_exist (w_usage w) then Inr []
      else lift_clock (read_client_datasets ids (Aware now) USAGE_WINDOW_DAYS (w_usage w)))"

definition utc_today :: "stamp \<Rightarrow> page_error + day" where
  "utc_today now = (case now of Aware t \<Rightarrow> Inr (utc_day t) | Naive t \<Rightarrow> Inl NaiveClock)"

text \<open>The day-aligned read rule.\<close>

definition read_within :: "instant option \<Rightarrow> instant \<Rightarrow> int \<Rightarrow> bool" where
  "read_within last_read_at now days \<longleftrightarrow>
     (case last_read_at of None \<Rightarrow> False | Some t \<Rightarrow> utc_day now - days \<le> utc_day t)"

definition last_read :: "(uuid \<rightharpoonup> dataset_usage) \<Rightarrow> uuid \<Rightarrow> instant option" where
  "last_read usage i = (case usage i of None \<Rightarrow> None | Some us \<Rightarrow> us_last_read_at us)"

definition usage_predicate ::
  "usage_filter \<Rightarrow> (uuid \<rightharpoonup> dataset_usage) \<Rightarrow> instant \<Rightarrow> int \<Rightarrow> catalog_row \<Rightarrow> bool" where
  "usage_predicate g usage now stale_days row \<longleftrightarrow>
     (case g of
        NEVER_READ \<Rightarrow> last_read usage (cat_id row) = None
      | READ_30D \<Rightarrow> read_within (last_read usage (cat_id row)) now 30
      | STALE \<Rightarrow> \<not> read_within (last_read usage (cat_id row)) now stale_days)"

definition expiring_predicate :: "instant \<Rightarrow> uuid set \<Rightarrow> catalog_row \<Rightarrow> bool" where
  "expiring_predicate expires_before pending row \<longleftrightarrow>
     cat_id row \<in> pending \<or> (case cat_expiry row of None \<Rightarrow> False | Some x \<Rightarrow> x < expires_before)"

section \<open>The pages\<close>

record usage_view =
  uv_last_read_at :: "instant option"
  uv_reads :: nat
  uv_read_by :: "read_client_kind list"
  uv_clients :: "string list"

record dataset_page =
  dp_views :: "dataset_view list"
  dp_extents :: "uuid \<rightharpoonup> bar_extent"
  dp_siblings :: "uuid \<rightharpoonup> (uuid \<times> granularity) list"
  dp_next_cursor :: string
  dp_as_of :: instant
  dp_last_runs :: "uuid \<rightharpoonup> run_row"
  dp_usage :: "uuid \<rightharpoonup> usage_view"
  dp_reaper_pending :: "uuid set"
  dp_clients :: client_filter

definition usage_view_of ::
  "(uuid \<rightharpoonup> dataset_usage) \<Rightarrow> (uuid \<rightharpoonup> read_client_kind set \<times> string set) \<Rightarrow> uuid \<Rightarrow> usage_view" where
  "usage_view_of known readers i =
     (let (kinds, clients) = (case readers i of None \<Rightarrow> ({}, {}) | Some r \<Rightarrow> r)
      in \<lparr>uv_last_read_at = last_read known i,
          uv_reads = (case known i of None \<Rightarrow> 0 | Some us \<Rightarrow> us_reads_in_window us),
          uv_read_by = filter (\<lambda>k. k \<in> kinds) [UI, SDK],
          uv_clients = sorted_list_of_set clients\<rparr>)"

definition page_usage ::
  "world \<Rightarrow> uuid list \<Rightarrow> (uuid \<rightharpoonup> dataset_usage) option \<Rightarrow> client_filter \<Rightarrow> instant \<Rightarrow>
   page_error + (uuid \<rightharpoonup> usage_view)" where
  "page_usage w page_ids known f now =
     (if page_ids = [] then Inr Map.empty
      else bind_r (case known of Some m \<Rightarrow> Inr m | None \<Rightarrow> read_usage w (Some page_ids) f now) (\<lambda>m.
           bind_r (page_readers w page_ids now) (\<lambda>readers.
             Inr (\<lambda>i. if i \<in> set page_ids then Some (usage_view_of m readers i) else None))))"

text \<open>The usage of every dataset, read only when the filter or the order needs it.\<close>

definition usage_for_all :: "world \<Rightarrow> catalog_query \<Rightarrow> instant \<Rightarrow> page_error + (uuid \<rightharpoonup> dataset_usage) option" where
  "usage_for_all w q now =
     (if q_usage q \<noteq> None \<or> q_sort q = LAST_READ
      then bind_r (read_usage w None (q_clients q) now) (\<lambda>m. Inr (Some m)) else Inr None)"

text \<open>The rows that remain before freshness is judged, in the order of the list.\<close>

definition narrowed :: "world \<Rightarrow> catalog_query \<Rightarrow> instant \<Rightarrow> (uuid \<rightharpoonup> dataset_usage) option \<Rightarrow> catalog_row list" where
  "narrowed w q now usage_all =
     (let rows = list_catalog (q_filter q) (w_db w);
          rows = (case q_expires_before q of
                    None \<Rightarrow> rows
                  | Some x \<Rightarrow> filter (expiring_predicate x (pending_ids now None (w_db w))) rows);
          rows = (case (q_usage q, usage_all) of
                    (Some g, Some m) \<Rightarrow> filter (usage_predicate g m now (q_stale_days q)) rows
                  | _ \<Rightarrow> rows);
          rows = sort_key (\<lambda>row. sort_key_of row (q_sort q) usage_all) rows
      in if q_running q then filter (\<lambda>row. cat_id row \<in> running_dataset_ids (w_db w)) rows else rows)"

abbreviation judged_everywhere :: "catalog_query \<Rightarrow> bool" where
  "judged_everywhere q \<equiv> q_status q \<noteq> None \<or> q_attention q"

text \<open>The datasets in the order of the list, with their freshness when a filter needs it.\<close>

definition ordered_views ::
  "world \<Rightarrow> catalog_query \<Rightarrow> instant \<Rightarrow> freshness_config option \<Rightarrow> (uuid \<rightharpoonup> dataset_usage) option \<Rightarrow>
   page_error + dataset_view list" where
  "ordered_views w q now config usage_all =
     (let rows = narrowed w q now usage_all
      in if judged_everywhere q
         then bind_r (evaluate_views w rows now config) (\<lambda>vs.
                Inr (filter (\<lambda>v. matches v None None (q_status q) (q_attention q) None None None) vs))
         else Inr (map (\<lambda>row. \<lparr>dv_row = row, dv_health = None\<rparr>) rows))"

text \<open>The page cut out of them; \<open>limit\<close> is at least 1, which the routes validate.\<close>

definition cut_page ::
  "world \<Rightarrow> catalog_query \<Rightarrow> instant \<Rightarrow> freshness_config option \<Rightarrow> (uuid \<rightharpoonup> dataset_usage) option \<Rightarrow>
   key_part list option \<Rightarrow> dataset_view list \<Rightarrow> page_error + dataset_page" where
  "cut_page w q now config usage_all after views =
     (let window = take (q_limit q + 1)
            (filter (after_key (\<lambda>v. sort_key_of (dv_row v) (q_sort q) usage_all) after) views);
          has_more = length window > q_limit q;
          page = take (q_limit q) window in
     bind_r (if judged_everywhere q then Inr page else evaluate_views w (map dv_row page) now config) (\<lambda>page.
     let page_rows = map dv_row page;
         page_ids = map cat_id page_rows in
     bind_r (page_usage w page_ids usage_all (q_clients q) now) (\<lambda>usage.
       Inr \<lparr>dp_views = page, dp_extents = bar_extents page_rows (w_db w), dp_siblings = siblings page_rows (w_db w),
            dp_next_cursor = (if has_more then cursor_for (dv_row (last page)) (q_sort q) usage_all else []),
            dp_as_of = now, dp_last_runs = latest_runs_for_datasets page_ids (w_db w), dp_usage = usage,
            dp_reaper_pending =
              (if q_expires_before q = None then pending_ids now (Some page_ids) (w_db w)
               else pending_ids now None (w_db w) \<inter> set page_ids),
            dp_clients = q_clients q\<rparr>)))"

definition list_page ::
  "world \<Rightarrow> catalog_query \<Rightarrow> instant \<Rightarrow> freshness_config option \<Rightarrow> page_error + dataset_page" where
  "list_page w q now config =
     bind_r (case q_cursor q of
               None \<Rightarrow> Inr None
             | Some c \<Rightarrow> bind_r (key_from_cursor (w_text_of w) c (q_sort q)) (\<lambda>k. Inr (Some k))) (\<lambda>after.
     bind_r (usage_for_all w q now) (\<lambda>usage_all.
     bind_r (ordered_views w q now config usage_all) (cut_page w q now config usage_all after)))"

subsection \<open>What the reaper would delete\<close>

definition pending_cursor :: "instant \<times> uuid \<Rightarrow> string" where
  "pending_cursor k =
     encode_cursor (JObj [(code_points ''o'', JStr (code_points ''reaper'')),
       (code_points ''k'', JList [JInt (fst k), JStr (uuid_text (snd k))])])"

text \<open>The years 1 to 9999, outside which \<open>_EPOCH + timedelta(microseconds=...)\<close> is an \<open>OverflowError\<close>.\<close>

definition DATETIME_MAX :: instant where "DATETIME_MAX = 253402300799999999"

definition pending_key_from_cursor ::
  "(nat list \<Rightarrow> ustring option) \<Rightarrow> string \<Rightarrow> page_error + instant \<times> uuid" where
  "pending_key_from_cursor text_of cursor =
     (case decode_cursor text_of cursor of
        None \<Rightarrow> Inl invalid_cursor
      | Some payload \<Rightarrow>
          if jget payload ''o'' \<noteq> Some (JStr (code_points ''reaper'')) then Inl invalid_cursor
          else case jget payload ''k'' of
                 Some (JList [JInt micros, JStr dataset_id]) \<Rightarrow>
                   (case (DATETIME_MIN \<le> micros \<and> micros \<le> DATETIME_MAX, uuid_of dataset_id) of
                      (True, Some i) \<Rightarrow> Inr (micros, i)
                    | _ \<Rightarrow> Inl invalid_cursor)
               | _ \<Rightarrow> Inl invalid_cursor)"

definition reaper_pending_page ::
  "world \<Rightarrow> instant \<Rightarrow> string option \<Rightarrow> nat \<Rightarrow> freshness_config option \<Rightarrow> page_error + dataset_page" where
  "reaper_pending_page w now cursor limit config =
     bind_r (case cursor of
               None \<Rightarrow> Inr None
             | Some c \<Rightarrow> bind_r (pending_key_from_cursor (w_text_of w) c) (\<lambda>k. Inr (Some k))) (\<lambda>after.
     let rows = list_pending now after (Some (limit + 1)) (w_db w);
         page_rows = take limit rows;
         page_ids = map cat_id page_rows in
     bind_r (evaluate_views w page_rows now config) (\<lambda>views.
     bind_r (page_usage w page_ids None default_clients now) (\<lambda>usage.
       Inr \<lparr>dp_views = views, dp_extents = bar_extents page_rows (w_db w), dp_siblings = siblings page_rows (w_db w),
            dp_next_cursor = (if length rows > limit then pending_cursor (pending_key (last page_rows)) else []),
            dp_as_of = now, dp_last_runs = latest_runs_for_datasets page_ids (w_db w), dp_usage = usage,
            dp_reaper_pending = set page_ids, dp_clients = default_clients\<rparr>)))"

section \<open>The facets\<close>

record client_count =
  cc_id :: string
  cc_kind :: read_client_kind
  cc_datasets :: nat

record facets =
  fc_all :: nat
  fc_needs_attention :: nat
  fc_sources :: "data_source \<Rightarrow> nat"
  fc_update_types :: "update_type \<Rightarrow> nat"
  fc_statuses :: "freshness_status \<Rightarrow> nat"
  fc_running :: nat
  fc_clients :: "client_count list"
  fc_client_filter :: client_filter
  fc_stale :: nat
  fc_read_30d :: nat
  fc_never_read :: nat
  fc_expiring_soon :: nat
  fc_stale_days :: int
  fc_expires_before :: instant

definition count_where :: "('v \<Rightarrow> bool) \<Rightarrow> ('v \<Rightarrow> 'k) \<Rightarrow> 'v list \<Rightarrow> 'k \<rightharpoonup> nat" where
  "count_where predicate key views =
     fold (\<lambda>v counts. if predicate v
              then counts(key v \<mapsto> (case counts (key v) of None \<Rightarrow> 0 | Some n \<Rightarrow> n) + 1) else counts)
       views Map.empty"

abbreviation count_of :: "('k \<rightharpoonup> nat) \<Rightarrow> 'k \<Rightarrow> nat" where
  "count_of counts k \<equiv> (case counts k of None \<Rightarrow> 0 | Some n \<Rightarrow> n)"

datatype facet = BySource | ByUpdateType | ByStatus | ByRunning | ByUsage | ByExpiring

text \<open>The inner function \<open>match\<close>: the filters of the query but the ones left out.\<close>

definition facet_match ::
  "catalog_query \<Rightarrow> uuid set \<Rightarrow> (usage_filter \<Rightarrow> catalog_row \<Rightarrow> bool) \<Rightarrow> (catalog_row \<Rightarrow> bool) \<Rightarrow> facet set \<Rightarrow>
   bool option \<Rightarrow> dataset_view \<Rightarrow> bool" where
  "facet_match q in_flight in_group expiring omit attention v =
     matches v
       (if BySource \<in> omit then None else cf_source (q_filter q))
       (if ByUpdateType \<in> omit then None else cf_update_type (q_filter q))
       (if ByStatus \<in> omit then None else q_status q)
       (case attention of None \<Rightarrow> q_attention q | Some a \<Rightarrow> a)
       (if q_running q \<and> ByRunning \<notin> omit then Some in_flight else None)
       (case q_usage q of Some g \<Rightarrow> if ByUsage \<in> omit then None else Some (in_group g) | None \<Rightarrow> None)
       (if q_expires_before q = None \<or> ByExpiring \<in> omit then None else Some expiring)"

abbreviation number :: "('v \<Rightarrow> bool) \<Rightarrow> 'v list \<Rightarrow> nat" where
  "number P vs \<equiv> length (filter P vs)"

definition facets_bound :: "catalog_query \<Rightarrow> instant \<Rightarrow> instant" where
  "facets_bound q now =
     (case q_expires_before q of Some x \<Rightarrow> x | None \<Rightarrow> now + EXPIRING_SOON_DAYS * one_day)"

definition facets_of ::
  "world \<Rightarrow> catalog_query \<Rightarrow> instant \<Rightarrow> freshness_config option \<Rightarrow> page_error + facets" where
  "facets_of w q now config =
     bind_r (evaluate_views w (list_catalog \<lparr>cf_prefix = cf_prefix (q_filter q), cf_source = None, cf_update_type = None\<rparr> (w_db w)) now config) (\<lambda>views.
     bind_r (read_usage w None (q_clients q) now) (\<lambda>usage.
     let in_flight = running_dataset_ids (w_db w);
         bound = facets_bound q now;
         expiring = expiring_predicate bound (pending_ids now None (w_db w));
         in_group = (\<lambda>g. usage_predicate g usage now (q_stale_days q));
         match = facet_match q in_flight in_group expiring;
         group_count = (\<lambda>g. number (\<lambda>v. match {ByUsage} None v \<and> in_group g (dv_row v)) views);
         source_counts = count_where (match {BySource} None) (\<lambda>v. cat_source (dv_row v)) views;
         update_counts = count_where (match {ByUpdateType} None) (\<lambda>v. cat_update_type (dv_row v)) views;
         status_counts = count_where (match {ByStatus} None) (\<lambda>v. map_option h_status (dv_health v)) views;
         picker_ids = map (\<lambda>v. cat_id (dv_row v)) (filter (match {ByUsage, ByExpiring} None) views)
     in bind_r (read_clients w picker_ids now) (\<lambda>clients.
       Inr \<lparr>fc_all = number (match {} (Some False)) views,
            fc_needs_attention = number (match {} (Some True)) views,
            fc_sources = count_of source_counts,
            fc_update_types = count_of update_counts,
            fc_statuses = (\<lambda>s. count_of status_counts (Some s)),
            fc_running = number (\<lambda>v. match {ByRunning} None v \<and> cat_id (dv_row v) \<in> in_flight) views,
            fc_clients = map (\<lambda>c. \<lparr>cc_id = cd_client c, cc_kind = cd_kind c, cc_datasets = cd_datasets c\<rparr>) clients,
            fc_client_filter = q_clients q,
            fc_stale = group_count STALE, fc_read_30d = group_count READ_30D, fc_never_read = group_count NEVER_READ,
            fc_expiring_soon = number (\<lambda>v. match {ByExpiring} None v \<and> expiring (dv_row v)) views,
            fc_stale_days = q_stale_days q, fc_expires_before = bound\<rparr>)))"

section \<open>One dataset\<close>

record dataset_detail =
  dd_view :: dataset_view
  dd_extent :: bar_extent
  dd_siblings :: "(uuid \<times> granularity) list"
  dd_as_of :: instant
  dd_last_run :: "run_row option"
  dd_usage :: usage_view
  dd_reaper_pending :: bool
  dd_clients :: client_filter

definition dataset_detail_of ::
  "world \<Rightarrow> uuid \<Rightarrow> instant \<Rightarrow> freshness_config option \<Rightarrow> client_filter option \<Rightarrow> page_error + dataset_detail option" where
  "dataset_detail_of w dataset_id now config clients =
     (case get_catalog_row dataset_id (w_db w) of
        None \<Rightarrow> Inr None
      | Some row \<Rightarrow>
          bind_r (evaluate_views w [row] now config) (\<lambda>views.
          let f = (case clients of None \<Rightarrow> default_clients | Some f \<Rightarrow> f) in
          bind_r (page_usage w [cat_id row] None f now) (\<lambda>usage.
            Inr (Some \<lparr>dd_view = hd views, dd_extent = the (bar_extents [row] (w_db w) (cat_id row)),
                   dd_siblings = the (siblings [row] (w_db w) (cat_id row)), dd_as_of = now,
                   dd_last_run = latest_runs_for_datasets [cat_id row] (w_db w) (cat_id row),
                   dd_usage = the (usage (cat_id row)),
                   dd_reaper_pending = (cat_id row \<in> pending_ids now (Some [cat_id row]) (w_db w)),
                   dd_clients = f\<rparr>))))"

section \<open>Coverage\<close>

record gap_window =
  gw_start :: instant
  gw_end :: instant
  gw_sessions :: nat

record coverage_result =
  cv_start :: instant
  cv_end :: instant
  cv_buckets :: "coverage_bucket list"
  cv_gaps :: "gap_window list"
  cv_gap_count :: nat
  cv_as_of :: instant

text \<open>What the \<open>try\<close> of \<open>dataset_coverage\<close> lets through: no calendar, or a start before it, is a refusal.\<close>

fun coverage_refusal :: "coverage_error \<Rightarrow> page_error" where
  "coverage_refusal (CoverageCalendar UnknownCalendarError) = InvalidRequest INVALID_REQUEST"
| "coverage_refusal (CoverageCalendar CalendarRangeError) = InvalidRequest INVALID_REQUEST"
| "coverage_refusal (CoverageCalendar e) = CalendarFails e"
| "coverage_refusal (BadBuckets n) = BadSettings"

definition window_of_gap :: "tcal \<Rightarrow> gap_interval \<Rightarrow> gap_window" where
  "window_of_gap calendar g =
     \<lparr>gw_start = local_midnight (first_session g) calendar, gw_end = local_midnight (last_session g + 1) calendar,
      gw_sessions = sessions g\<rparr>"

definition dataset_coverage ::
  "world \<Rightarrow> uuid \<Rightarrow> instant \<Rightarrow> int \<Rightarrow> page_error + coverage_result option" where
  "dataset_coverage w dataset_id now buckets =
     (case get_catalog_row dataset_id (w_db w) of
        None \<Rightarrow> Inr None
      | Some row \<Rightarrow>
          let until = effective_end row now;
              outcome =
                bind_r (lift_calendar (calendar_for_source (w_calendars w) (cat_source row))) (\<lambda>a.
                let calendar = adapter_calendar a;
                    covered = the (covered_dates [row] (tz calendar) (w_db w) (cat_id row)) in
                bind_r (coverage_buckets (Aware (cat_start row)) (Aware until) covered calendar (Aware now) buckets
                          (cat_granularity row)) (\<lambda>buckets_found.
                bind_r (lift_calendar (gap_intervals (Aware (cat_start row)) (Aware until) covered calendar (Aware now)
                          (cat_granularity row))) (\<lambda>intervals. Inr (calendar, buckets_found, intervals))))
          in case outcome of
               Inl e \<Rightarrow> Inl (coverage_refusal e)
             | Inr (calendar, buckets_found, intervals) \<Rightarrow>
                 Inr (Some \<lparr>cv_start = cat_start row, cv_end = until, cv_buckets = buckets_found,
                        cv_gaps = map (window_of_gap calendar) (take MAX_COVERAGE_GAPS intervals),
                        cv_gap_count = length intervals, cv_as_of = now\<rparr>))"

section \<open>The cursor names the last row shown\<close>

fun part_ok :: "key_part \<Rightarrow> bool" where
  "part_ok (KInt n) = int_ok n"
| "part_ok (KStr s) = list_all (\<lambda>c. c < 256) s"

fun is_text :: "key_part \<Rightarrow> bool" where
  "is_text (KInt n) = False"
| "is_text (KStr s) = True"

definition sort_key_fits :: "dataset_sort \<Rightarrow> key_part list \<Rightarrow> bool" where
  "sort_key_fits so key \<longleftrightarrow> map is_text key = sort_shape so \<and> list_all part_ok key \<and> keyed_by_uuid key"

lemma parts_round_trip: "parts_of (map is_text key) (map json_part key) = Some key"
proof (induction key)
  case (Cons p key)
  then show ?case by (cases p) simp_all
qed simp

lemma payload_parts: "list_all part_ok key \<Longrightarrow> list_all payload_ok (map json_part key)"
proof (induction key)
  case (Cons p key)
  then show ?case by (cases p) simp_all
qed simp

lemma code_points_small: "list_all (\<lambda>c. c < 256) (code_points s)"
proof -
  have "(of_char c :: nat) < 256" for c using of_char_eq_iff nat_of_char_less_256 by blast
  then show ?thesis by (simp add: code_points_def list_all_iff)
qed

lemma sort_cursor_reads:
  assumes "reads_ascii text_of" and "sort_key_fits so key"
  shows "key_from_cursor text_of (sort_cursor so key) so = Inr key"
proof -
  let ?ms = "[(code_points ''o'', JStr (code_points (sort_value so))), (code_points ''k'', JList (map json_part key))]"
  have "payload_ok (JObj ?ms)"
    using assms(2) code_points_small payload_parts by (simp add: sort_key_fits_def)
  from cursor_round_trip [OF assms(1) this] have "decode_cursor text_of (sort_cursor so key) = Some ?ms"
    by (simp only: sort_cursor_def)
  moreover have "jget ?ms ''o'' = Some (JStr (code_points (sort_value so)))" "jget ?ms ''k'' = Some (JList (map json_part key))"
    by (simp_all add: jget_def)
  moreover have "parts_of (sort_shape so) (map json_part key) = Some key"
    using parts_round_trip [of key] assms(2) by (simp only: sort_key_fits_def)
  ultimately show ?thesis using assms(2) by (simp add: key_from_cursor_def sort_key_fits_def)
qed

lemma cursor_not_empty:
  assumes "reads_ascii text_of" and "payload_ok (JObj ms)"
  shows "encode_cursor (JObj ms) \<noteq> []"
proof
  assume "encode_cursor (JObj ms) = []"
  then have "decode_cursor text_of [] = Some ms" using cursor_round_trip [OF assms] by simp
  moreover have "text_of [] = Some []" using assms(1) by (simp add: reads_ascii_def)
  ultimately show False by (simp add: decode_cursor_def urlsafe_b64decode_def loads_def skip_ws_def)
qed

lemma sort_cursor_not_empty: "reads_ascii text_of \<Longrightarrow> sort_key_fits so key \<Longrightarrow> sort_cursor so key \<noteq> []"
  unfolding sort_cursor_def using code_points_small payload_parts
  by (intro cursor_not_empty) (simp_all add: sort_key_fits_def)

fun right_of :: "'e + 'a \<Rightarrow> 'a option" where
  "right_of (Inl e) = None"
| "right_of (Inr x) = Some x"

interpretation catalog_keys: keyset_pages "\<lambda>v. sort_key_of (dv_row v) so usage" "sort_cursor so"
  "\<lambda>c. right_of (key_from_cursor text_of c so)" "\<lambda>key. reads_ascii text_of \<and> sort_key_fits so key"
  for so usage text_of
  by unfold_locales (auto simp: sort_cursor_reads dest: sort_cursor_not_empty)

section \<open>Well-formed worlds\<close>

definition representable :: "instant \<Rightarrow> bool" where
  "representable t \<longleftrightarrow> DATETIME_MIN \<le> t \<and> t \<le> DATETIME_MAX"

text \<open>The constraints of the schema, identifiers of 128 bits, and instants a \<open>datetime\<close> can hold.\<close>

definition world_ok :: "world \<Rightarrow> bool" where
  "world_ok w \<longleftrightarrow> db_ok (w_db w) \<and> reads_ascii (w_text_of w) \<and>
     list_all (\<lambda>e. e_id e < 2 ^ 128 \<and> (case e_expiry e of None \<Rightarrow> True | Some t \<Rightarrow> representable t)) (entries (w_db w)) \<and>
     list_all (\<lambda>r. representable (rd_at r)) (read_rows (w_usage w)) \<and>
     list_all (\<lambda>y. representable (dy_last_read_at y)) (daily_rows (w_usage w))"

lemma representable_int_ok: "representable t \<Longrightarrow> int_ok t \<and> int_ok (- t)"
proof -
  assume "representable t"
  then have "nat \<bar>t\<bar> < 10 ^ 18" by (auto simp: representable_def DATETIME_MIN_def DATETIME_MAX_def)
  from decimal_length [OF this] show ?thesis by (simp add: int_ok_def)
qed

lemma uuid_text_small: "list_all (\<lambda>c. c < 256) (uuid_text i)"
  using uuid_text_points [of _ i] by (fastforce simp: list_all_iff)

lemma read_usage_aware: "\<exists>m. read_usage w ids f now = Inr m"
  by (simp add: read_usage_def usage_of_ledger)

lemma page_readers_aware: "\<exists>m. page_readers w ids now = Inr m"
  by (simp add: page_readers_def read_readers_def window_start_day_def)

lemma read_clients_aware: "\<exists>m. read_clients w ids now = Inr m"
  by (simp add: read_clients_def read_client_datasets_def window_start_day_def)

lemma page_usage_aware: "\<exists>m. page_usage w ids known f now = Inr m"
  using read_usage_aware [of w "Some ids" f now] page_readers_aware [of w ids now]
  by (auto simp: page_usage_def split: option.split)

lemma usage_for_all_aware: "\<exists>m. usage_for_all w q now = Inr m"
  using read_usage_aware [of w None "q_clients q" now] by (auto simp: usage_for_all_def)

lemma last_of_mem: "last_of P l = Some t \<Longrightarrow> \<exists>x\<in>set l. le_last x = t"
proof -
  assume "last_of P l = Some t"
  then have "map le_last (filter (\<lambda>x. P (le_key x)) l) \<noteq> []" "t = Max (set (map le_last (filter (\<lambda>x. P (le_key x)) l)))"
    by (auto simp: last_of_def sql_max_def split: if_splits)
  then have "t \<in> set (map le_last (filter (\<lambda>x. P (le_key x)) l))" using Max_in by (metis List.finite_set set_empty)
  then show ?thesis by auto
qed

lemma last_read_representable:
  assumes ok: "world_ok w" and "read_usage w ids f now = Inr m" and "last_read m i = Some t"
  shows "representable t"
proof (cases "usage_tables_exist (w_usage w)")
  case True
  then have "\<exists>P. last_of P (ledger (w_usage w)) = Some t"
    using assms(2,3) by (auto simp: read_usage_def usage_of_ledger last_read_def split: option.splits)
  then obtain x where "x \<in> set (ledger (w_usage w))" "le_last x = t" using last_of_mem by blast
  then show ?thesis using ok by (auto simp: ledger_def read_entry_def daily_entry_def world_ok_def list_all_iff)
qed (use assms in \<open>auto simp: read_usage_def last_read_def\<close>)

lemma catalog_row_from:
  "r \<in> set (list_catalog cf d) \<longleftrightarrow> (\<exists>e\<in>set (entries d). catalog_filter_matches cf e \<and> r = row_with_bars d e)"
  by (auto simp: list_catalog_def)

lemma row_fields [simp]:
  "cat_id (row_with_bars d e) = e_id e" "cat_expiry (row_with_bars d e) = e_expiry e"
  "cat_source (row_with_bars d e) = e_source e" "cat_update_type (row_with_bars d e) = e_update_type e"
  "cat_symbol (row_with_bars d e) = e_symbol e"
  by (simp_all add: row_with_bars_def catalog_row_of_def)

lemma sort_key_by_last_read:
  "sort_key_of row LAST_READ (Some m) =
     (case last_read m (cat_id row) of None \<Rightarrow> [KInt 1, KInt 0] | Some t \<Rightarrow> [KInt 0, KInt (- t)]) @ key_tail row"
  by (simp add: sort_key_of_def last_read_def split: option.split)

lemma row_key_fits:
  assumes ok: "world_ok w" and r: "r \<in> set (list_catalog cf (w_db w))" and u: "usage_for_all w q now = Inr usage"
  shows "sort_key_fits (q_sort q) (sort_key_of r (q_sort q) usage)"
proof -
  obtain e where e: "e \<in> set (entries (w_db w))" "r = row_with_bars (w_db w) e" using r catalog_row_from by blast
  have id: "uuid_of (uuid_text (cat_id r)) = Some (cat_id r)"
    using ok e by (intro uuid_round_trip) (simp add: world_ok_def list_all_iff)
  have expiry: "int_ok t" if "cat_expiry r = Some t" for t
    using ok e that by (intro representable_int_ok [THEN conjunct1]) (auto simp: world_ok_def list_all_iff)
  have "int_ok 0" "int_ok 1" by (simp_all add: int_ok_def decimal.simps)
  note parts = this id code_points_small uuid_text_small key_tail_def keyed_by_uuid_def sort_key_fits_def sort_shape_def
  show ?thesis
  proof (cases "q_sort q")
    case LAST_READ
    then obtain m where m: "usage = Some m" "read_usage w None (q_clients q) now = Inr m"
      using u by (auto simp: usage_for_all_def bind_r_Inr_iff)
    have "int_ok (- t)" if "last_read m (cat_id r) = Some t" for t
      using last_read_representable [OF ok m(2) that] representable_int_ok by blast
    then show ?thesis using LAST_READ m(1) by (auto simp: sort_key_by_last_read parts split: option.split)
  next
    case SYMBOL
    then show ?thesis by (simp add: sort_key_of_def parts)
  next
    case EXPIRES
    then show ?thesis using expiry by (auto simp: sort_key_of_def parts split: option.split)
  qed
qed

lemma last_of_sort_key: "last (sort_key_of r so usage) = KStr (uuid_text (cat_id r))"
  by (simp add: sort_key_of_def key_tail_def split: dataset_sort.split option.split)

lemma row_keys_distinct:
  assumes ok: "world_ok w"
  shows "distinct (map (\<lambda>r. sort_key_of r so usage) (filter P (list_catalog cf (w_db w))))"
proof -
  let ?R = "filter P (list_catalog cf (w_db w))"
  have ids: "distinct (map e_id (entries (w_db w)))"
    using ok by (simp add: world_ok_def db_ok_def entries_ok_def)
  have "distinct (map cat_id (map (row_with_bars (w_db w)) (filter (catalog_filter_matches cf) (entries (w_db w)))))"
    using distinct_map_filter [OF ids] by (simp add: comp_def)
  moreover have "distinct (map f (sort_key g xs)) \<longleftrightarrow> distinct (map f xs)" for f g and xs :: "catalog_row list"
    by (simp add: distinct_map)
  ultimately have cat: "distinct (map cat_id (list_catalog cf (w_db w)))" unfolding list_catalog_def by blast
  then have R: "distinct (map cat_id ?R)" by (rule distinct_map_filter)
  have small: "cat_id r < 2 ^ 128" if "r \<in> set ?R" for r
    using ok that by (auto simp: catalog_row_from world_ok_def list_all_iff)
  have inj: "inj_on (\<lambda>r. sort_key_of r so usage) (set ?R)"
  proof (rule inj_onI)
    fix r s
    assume rs: "r \<in> set ?R" "s \<in> set ?R" and e: "sort_key_of r so usage = sort_key_of s so usage"
    have "uuid_text (cat_id r) = uuid_text (cat_id s)"
      using last_of_sort_key [of r so usage] last_of_sort_key [of s so usage] e by simp
    then have "cat_id r = cat_id s" using uuid_text_inj [OF small [OF rs(1)] small [OF rs(2)]] by blast
    then show "r = s" using R rs by (simp only: distinct_map inj_on_def)
  qed
  have "distinct ?R" using R by (simp only: distinct_map)
  then show ?thesis using inj by (simp only: distinct_map)
qed

section \<open>The list as a function of the catalog\<close>

text \<open>The judgement of one row, and the hypothesis that no row's judgement raises.\<close>

definition judgement ::
  "world \<Rightarrow> instant \<Rightarrow> freshness_config option \<Rightarrow> catalog_row \<Rightarrow> page_error + dataset_view" where
  "judgement w now config row =
     bind_r (settings (w_env w) config) (\<lambda>c. bind_r (row_calendar (w_calendars w) row) (\<lambda>calendar.
       view_of (w_db w) now c (row, calendar)))"

definition judgeable :: "world \<Rightarrow> instant \<Rightarrow> freshness_config option \<Rightarrow> bool" where
  "judgeable w now config \<longleftrightarrow> (\<exists>c. settings (w_env w) config = Inr c) \<and>
     list_all (\<lambda>e. right_of (judgement w now config (row_with_bars (w_db w) e)) \<noteq> None) (entries (w_db w))"

abbreviation judged_view :: "world \<Rightarrow> instant \<Rightarrow> freshness_config option \<Rightarrow> catalog_row \<Rightarrow> dataset_view" where
  "judged_view w now config row \<equiv> the (right_of (judgement w now config row))"

abbreviation catalog_rows :: "world \<Rightarrow> catalog_row set" where
  "catalog_rows w \<equiv> row_with_bars (w_db w) ` set (entries (w_db w))"

lemma judged_Inr: "judgeable w now config \<Longrightarrow> r \<in> catalog_rows w \<Longrightarrow> judgement w now config r = Inr (judged_view w now config r)"
  by (cases "judgement w now config r") (auto simp: judgeable_def list_all_iff)

lemma map_r_zip:
  assumes "\<And>x. x \<in> set xs \<Longrightarrow> bind_r (f x) (\<lambda>y. g (x, y)) = Inr (h x)"
  shows "bind_r (map_r f xs) (\<lambda>ys. map_r g (zip xs ys)) = Inr (map h xs)"
proof -
  have "\<exists>ys. map_r f xs = Inr ys \<and> map_r g (zip xs ys) = Inr (map h xs)" using assms
  proof (induction xs)
    case (Cons x xs)
    then obtain y ys where "f x = Inr y" "g (x, y) = Inr (h x)" "map_r f xs = Inr ys" "map_r g (zip xs ys) = Inr (map h xs)"
      by (force simp: bind_r_Inr_iff)
    then show ?case by simp
  qed simp
  then show ?thesis by (auto simp: bind_r_Inr_iff)
qed

lemma evaluate_views_judged:
  assumes ok: "judgeable w now config" and rows: "set rows \<subseteq> catalog_rows w"
  shows "evaluate_views w rows now config = Inr (map (judged_view w now config) rows)"
proof -
  obtain c where c: "settings (w_env w) config = Inr c" using ok by (auto simp: judgeable_def)
  have "bind_r (row_calendar (w_calendars w) r) (\<lambda>calendar. view_of (w_db w) now c (r, calendar)) =
      Inr (judged_view w now config r)" if "r \<in> set rows" for r
  proof -
    have "bind_r (row_calendar (w_calendars w) r) (\<lambda>calendar. view_of (w_db w) now c (r, calendar)) = judgement w now config r"
      by (simp only: judgement_def c bind_r.simps)
    also have "\<dots> = Inr (judged_view w now config r)" by (rule judged_Inr [OF ok]) (use rows that in blast)
    finally show ?thesis .
  qed
  from map_r_zip [OF this] show ?thesis by (simp only: evaluate_views_def c bind_r.simps)
qed

lemma judged_row:
  assumes "judgeable w now config" and "r \<in> catalog_rows w"
  shows "dv_row (judged_view w now config r) = r"
  using judged_Inr [OF assms]
  by (auto simp: judgement_def bind_r_Inr_iff view_of_def Let_def split: option.splits sum.splits cal_error.splits)

text \<open>The datasets of a query, whatever the page.\<close>

definition listed ::
  "world \<Rightarrow> catalog_query \<Rightarrow> instant \<Rightarrow> freshness_config option \<Rightarrow> (uuid \<rightharpoonup> dataset_usage) option \<Rightarrow> catalog_row list" where
  "listed w q now config usage =
     filter (\<lambda>r.
       (case q_expires_before q of None \<Rightarrow> True | Some x \<Rightarrow> expiring_predicate x (pending_ids now None (w_db w)) r) \<and>
       (case (q_usage q, usage) of (Some g, Some m) \<Rightarrow> usage_predicate g m now (q_stale_days q) r | _ \<Rightarrow> True) \<and>
       (q_running q \<longrightarrow> cat_id r \<in> running_dataset_ids (w_db w)) \<and>
       (judged_everywhere q \<longrightarrow>
          matches (judged_view w now config r) None None (q_status q) (q_attention q) None None None))
     (list_catalog (q_filter q) (w_db w))"

lemma insort_key_map: "insort_key f (g x) (map g xs) = map g (insort_key (\<lambda>x. f (g x)) x xs)"
  by (induction xs) simp_all

lemma sort_key_map: "sort_key f (map g xs) = map g (sort_key (\<lambda>x. f (g x)) xs)"
  by (induction xs) (simp_all add: insort_key_map)

lemma sort_key_cong_on: "(\<And>x. x \<in> set xs \<Longrightarrow> f x = g x) \<Longrightarrow> sort_key f xs = sort_key g xs"
proof (induction xs)
  case (Cons x xs)
  have "insort_key f x ys = insort_key g x ys" if "set ys \<subseteq> insert x (set xs)" for ys
    using that Cons.prems by (induction ys) auto
  from this [of "sort_key g xs"] show ?case using Cons by auto
qed simp

lemma list_catalog_rows: "set (list_catalog cf (w_db w)) \<subseteq> catalog_rows w"
  by (auto simp: catalog_row_from)

lemma narrowed_listed:
  "filter (\<lambda>r. judged_everywhere q \<longrightarrow>
       matches (judged_view w now config r) None None (q_status q) (q_attention q) None None None) (narrowed w q now usage) =
   sort_key (\<lambda>r. sort_key_of r (q_sort q) usage) (listed w q now config usage)"
  unfolding narrowed_def listed_def
  by (auto simp: Let_def filter_sort [symmetric] split: option.split intro!: filter_cong arg_cong2 [where f = sort_key])

lemma catalog_member: "r \<in> set (listed w q now config usage) \<Longrightarrow> r \<in> set (list_catalog (q_filter q) (w_db w))"
  by (simp add: listed_def)

definition shown_of :: "dataset_page \<Rightarrow> dataset_view list \<times> string" where
  "shown_of p = (dp_views p, dp_next_cursor p)"

fun map_right :: "('a \<Rightarrow> 'b) \<Rightarrow> 'e + 'a \<Rightarrow> 'e + 'b" where
  "map_right f (Inl e) = Inl e"
| "map_right f (Inr x) = Inr (f x)"

lemma cut_page_shown:
  assumes "(if judged_everywhere q then Inr page else evaluate_views w (map dv_row page) now config) = Inr page'"
    and "page = take (q_limit q) (filter (after_key (\<lambda>v. sort_key_of (dv_row v) (q_sort q) usage) after) views)"
  shows "map_right shown_of (cut_page w q now config usage after views) =
    Inr (page', if length (filter (after_key (\<lambda>v. sort_key_of (dv_row v) (q_sort q) usage) after) views) > q_limit q
                then sort_cursor (q_sort q) (sort_key_of (dv_row (last page')) (q_sort q) usage) else [])"
proof -
  let ?F = "filter (after_key (\<lambda>v. sort_key_of (dv_row v) (q_sort q) usage) after) views"
  obtain m where m: "page_usage w (map cat_id (map dv_row page')) usage (q_clients q) now = Inr m"
    using page_usage_aware by blast
  have t: "take (q_limit q) (take (q_limit q + 1) ?F) = page" "length (take (q_limit q + 1) ?F) > q_limit q \<longleftrightarrow> length ?F > q_limit q"
    using assms(2) by auto
  show ?thesis
    unfolding cut_page_def Let_def t assms(1) bind_r.simps m map_right.simps shown_of_def cursor_for_def by simp
qed

lemma after_key_map:
  "(\<And>r. r \<in> set rs \<Longrightarrow> f (g r) = k r) \<Longrightarrow> filter (after_key f after) (map g rs) = map g (filter (after_key k after) rs)"
  by (induction rs) (auto simp: after_key_def split: option.splits)

lemma list_page_shown:
  assumes judge: "judgeable w now config" and u: "usage_for_all w q now = Inr usage" and limit: "0 < q_limit q"
    and c: "(case q_cursor q of None \<Rightarrow> Inr None
             | Some c \<Rightarrow> bind_r (key_from_cursor (w_text_of w) c (q_sort q)) (\<lambda>k. Inr (Some k))) = Inr after"
  shows "map_right shown_of (list_page w q now config) =
    Inr (keyset_page (\<lambda>v. sort_key_of (dv_row v) (q_sort q) usage) (sort_cursor (q_sort q)) (q_limit q)
           (map (judged_view w now config) (listed w q now config usage)) after)"
proof -
  let ?jv = "judged_view w now config" and ?L = "listed w q now config usage" and ?N = "narrowed w q now usage"
  let ?key = "\<lambda>v. sort_key_of (dv_row v) (q_sort q) usage" and ?k = "\<lambda>r. sort_key_of r (q_sort q) usage"
  let ?keep = "\<lambda>v. matches v None None (q_status q) (q_attention q) None None None"
  let ?blank = "\<lambda>r. \<lparr>dv_row = r, dv_health = None\<rparr>"
  let ?O = "sort_key ?k ?L"
  let ?F = "filter (after_key ?k after) ?O" and ?page = "take (q_limit q) (filter (after_key ?k after) ?O)"
  have N: "set ?N \<subseteq> catalog_rows w" unfolding narrowed_def Let_def
    using list_catalog_rows by (auto split: option.splits if_splits)
  have L: "r \<in> catalog_rows w" if "r \<in> set ?L" for r using catalog_member [OF that] list_catalog_rows by blast
  have rows: "dv_row (?jv r) = r" if "r \<in> set ?L" for r by (rule judged_row [OF judge L [OF that]])
  have page: "set ?page \<subseteq> set ?L" by (auto dest!: in_set_takeD)
  have sorted_jv: "sort_key ?key (map ?jv ?L) = map ?jv ?O"
    unfolding sort_key_map using sort_key_cong_on [of ?L "\<lambda>r. ?key (?jv r)" ?k] rows by simp
  have generic: "keyset_page ?key (sort_cursor (q_sort q)) (q_limit q) (map ?jv ?L) after =
      (map ?jv ?page, if length ?F > q_limit q then sort_cursor (q_sort q) (?key (last (map ?jv ?page))) else [])"
    unfolding keyset_page_def sorted_jv Let_def
    using after_key_map [of ?O ?key ?jv ?k after] rows by (simp add: take_map min_def)
  show ?thesis
  proof (cases "judged_everywhere q")
    case True
    have "filter (\<lambda>r. judged_everywhere q \<longrightarrow> ?keep (?jv r)) ?N = filter (\<lambda>r. ?keep (?jv r)) ?N"
      using True by (intro filter_cong) blast+
    then have "filter (\<lambda>r. ?keep (?jv r)) ?N = ?O" using narrowed_listed [of q w now config usage] by simp
    then have "filter ?keep (map ?jv ?N) = map ?jv ?O" by (simp only: filter_map comp_def)
    then have "ordered_views w q now config usage = Inr (map ?jv ?O)"
      by (simp only: ordered_views_def Let_def if_P [OF True] evaluate_views_judged [OF judge N] bind_r.simps)
    moreover have "map_right shown_of (cut_page w q now config usage after (map ?jv ?O)) =
        Inr (map ?jv ?page, if length ?F > q_limit q then sort_cursor (q_sort q) (?key (last (map ?jv ?page))) else [])"
    proof -
      have f: "filter (after_key ?key after) (map ?jv ?O) = map ?jv ?F" by (rule after_key_map) (simp add: rows)
      have p: "map ?jv ?page = take (q_limit q) (filter (after_key ?key after) (map ?jv ?O))" by (simp only: f take_map)
      show ?thesis using cut_page_shown [OF if_P [OF True] p] by (simp only: f length_map)
    qed
    ultimately show ?thesis by (simp only: list_page_def c u bind_r.simps generic)
  next
    case False
    have "ordered_views w q now config usage = Inr (map ?blank ?O)"
      using False narrowed_listed [of q w now config usage] by (simp add: ordered_views_def filter_id_conv)
    moreover have ev: "evaluate_views w ?page now config = Inr (map ?jv ?page)"
      using page L by (intro evaluate_views_judged [OF judge]) blast
    have "map_right shown_of (cut_page w q now config usage after (map ?blank ?O)) =
        Inr (map ?jv ?page, if length ?F > q_limit q then sort_cursor (q_sort q) (?key (last (map ?jv ?page))) else [])"
    proof -
      have f: "filter (after_key ?key after) (map ?blank ?O) = map ?blank ?F" by (rule after_key_map) simp
      have p: "map ?blank ?page = take (q_limit q) (filter (after_key ?key after) (map ?blank ?O))" by (simp only: f take_map)
      have "map dv_row (map ?blank ?page) = ?page" by (simp add: comp_def)
      then have e: "(if judged_everywhere q then Inr (map ?blank ?page) else evaluate_views w (map dv_row (map ?blank ?page)) now config) =
          Inr (map ?jv ?page)" using False ev by (simp only: if_False)
      show ?thesis using cut_page_shown [OF e p] by (simp only: f length_map)
    qed
    ultimately show ?thesis by (simp only: list_page_def c u bind_r.simps generic)
  qed
qed

section \<open>What a query asks for\<close>

abbreviation all_usage :: "world \<Rightarrow> catalog_query \<Rightarrow> instant \<Rightarrow> uuid \<rightharpoonup> dataset_usage" where
  "all_usage w q now \<equiv> the (right_of (read_usage w None (q_clients q) now))"

definition passes :: "world \<Rightarrow> catalog_query \<Rightarrow> instant \<Rightarrow> dataset_view \<Rightarrow> bool" where
  "passes w q now v \<longleftrightarrow>
     matches v (cf_source (q_filter q)) (cf_update_type (q_filter q)) (q_status q) (q_attention q)
       (if q_running q then Some (running_dataset_ids (w_db w)) else None)
       (map_option (\<lambda>g. usage_predicate g (all_usage w q now) now (q_stale_days q)) (q_usage q))
       (map_option (\<lambda>x. expiring_predicate x (pending_ids now None (w_db w))) (q_expires_before q))"

text \<open>The views of every dataset whose symbol has the query's prefix.\<close>

definition prefix_views :: "world \<Rightarrow> catalog_query \<Rightarrow> instant \<Rightarrow> freshness_config option \<Rightarrow> dataset_view list" where
  "prefix_views w q now config =
     map (judged_view w now config)
       (list_catalog \<lparr>cf_prefix = cf_prefix (q_filter q), cf_source = None, cf_update_type = None\<rparr> (w_db w))"

lemma filters_None [simp]: "filters None x" by (simp add: filters_def)

lemma list_catalog_narrow:
  "list_catalog cf d = filter (\<lambda>r. filters (cf_source cf) (cat_source r) \<and> filters (cf_update_type cf) (cat_update_type r))
     (list_catalog \<lparr>cf_prefix = cf_prefix cf, cf_source = None, cf_update_type = None\<rparr> d)"
proof -
  have "filter (catalog_filter_matches cf) (entries d) =
      filter (\<lambda>e. filters (cf_source cf) (e_source e) \<and> filters (cf_update_type cf) (e_update_type e))
        (filter (catalog_filter_matches \<lparr>cf_prefix = cf_prefix cf, cf_source = None, cf_update_type = None\<rparr>) (entries d))"
    unfolding filter_filter by (rule filter_cong) (auto simp: catalog_filter_matches_def)
  then show ?thesis by (simp add: list_catalog_def filter_sort filter_map comp_def)
qed

lemma listed_passes:
  assumes judge: "judgeable w now config" and u: "usage_for_all w q now = Inr usage"
  shows "map (judged_view w now config) (listed w q now config usage) = filter (passes w q now) (prefix_views w q now config)"
proof -
  let ?R = "list_catalog \<lparr>cf_prefix = cf_prefix (q_filter q), cf_source = None, cf_update_type = None\<rparr> (w_db w)"
  have usage: "usage = Some (all_usage w q now)" if "q_usage q = Some g" for g
    using u that read_usage_aware [of w None "q_clients q" now] by (auto simp: usage_for_all_def)
  have "passes w q now (judged_view w now config r) \<longleftrightarrow>
      (filters (cf_source (q_filter q)) (cat_source r) \<and> filters (cf_update_type (q_filter q)) (cat_update_type r)) \<and>
      (case q_expires_before q of None \<Rightarrow> True | Some x \<Rightarrow> expiring_predicate x (pending_ids now None (w_db w)) r) \<and>
       (case (q_usage q, usage) of (Some g, Some m) \<Rightarrow> usage_predicate g m now (q_stale_days q) r | _ \<Rightarrow> True) \<and>
       (q_running q \<longrightarrow> cat_id r \<in> running_dataset_ids (w_db w)) \<and>
       (judged_everywhere q \<longrightarrow>
          matches (judged_view w now config r) None None (q_status q) (q_attention q) None None None)"
    if "r \<in> set ?R" for r
  proof -
    have "r \<in> catalog_rows w" using that list_catalog_rows by blast
    note row = judged_row [OF judge this]
    show ?thesis using usage
      by (cases "q_usage q"; cases "q_expires_before q"; cases "q_status q"; cases "q_running q") (auto simp: passes_def matches_def row)
  qed
  then have "filter (\<lambda>r. passes w q now (judged_view w now config r)) ?R = listed w q now config usage"
    unfolding listed_def list_catalog_narrow [of "q_filter q"] filter_filter by (intro filter_cong) auto
  then show ?thesis by (simp add: prefix_views_def filter_map comp_def)
qed

text \<open>A client that follows the cursors of the list.\<close>

definition list_step ::
  "world \<Rightarrow> catalog_query \<Rightarrow> instant \<Rightarrow> freshness_config option \<Rightarrow> string option \<Rightarrow>
   page_error + dataset_view list \<times> string" where
  "list_step w q now config c = map_right shown_of (list_page w (q\<lparr>q_cursor := c\<rparr>) now config)"

lemma listed_cursor [simp]: "listed w (q\<lparr>q_cursor := c\<rparr>) now config usage = listed w q now config usage"
  by (simp add: listed_def cong: option.case_cong)

lemma usage_for_all_cursor [simp]: "usage_for_all w (q\<lparr>q_cursor := c\<rparr>) now = usage_for_all w q now"
  by (simp add: usage_for_all_def)

lemma catalog_walk:
  assumes ok: "world_ok w" and judge: "judgeable w now config" and limit: "0 < q_limit q"
    and u: "usage_for_all w q now = Inr usage"
  shows "\<exists>ps. walk_pages (list_step w q now config) None = Some ps
    \<and> concat ps = sort_key (\<lambda>v. sort_key_of (dv_row v) (q_sort q) usage) (filter (passes w q now) (prefix_views w q now config))
    \<and> length ps = page_count (q_limit q) (length (filter (passes w q now) (prefix_views w q now config)))
    \<and> (\<forall>p\<in>set ps. length p \<le> q_limit q)"
proof -
  let ?L = "listed w q now config usage"
  have L: "r \<in> catalog_rows w" if "r \<in> set ?L" for r using catalog_member [OF that] list_catalog_rows by blast
  have rows: "dv_row (judged_view w now config r) = r" if "r \<in> set ?L" for r by (rule judged_row [OF judge L [OF that]])
  have u': "usage_for_all w (q\<lparr>q_cursor := c\<rparr>) now = Inr usage" for c using u by simp
  have step: "list_step w q now config c = Inr (keyset_page (\<lambda>v. sort_key_of (dv_row v) (q_sort q) usage) (sort_cursor (q_sort q)) (q_limit q)
        (map (judged_view w now config) ?L) after)"
    if "(case c of None \<Rightarrow> Inr None | Some c \<Rightarrow> bind_r (key_from_cursor (w_text_of w) c (q_sort q)) (\<lambda>k. Inr (Some k))) = Inr after"
    for c after
    using list_page_shown [OF judge u', of c after] limit that by (simp add: list_step_def cong: option.case_cong)
  have keys: "distinct (map (\<lambda>v. sort_key_of (dv_row v) (q_sort q) usage) (map (judged_view w now config) ?L))"
  proof -
    have "map (\<lambda>v. sort_key_of (dv_row v) (q_sort q) usage) (map (judged_view w now config) ?L) =
        map (\<lambda>r. sort_key_of r (q_sort q) usage) ?L" by (simp add: rows)
    also have "distinct \<dots>" unfolding listed_def by (rule row_keys_distinct [OF ok])
    finally show ?thesis .
  qed
  have fits: "reads_ascii (w_text_of w) \<and> sort_key_fits (q_sort q) (sort_key_of (dv_row v) (q_sort q) usage)"
    if "v \<in> set (map (judged_view w now config) ?L)" for v
    using that rows row_key_fits [OF ok catalog_member u] ok by (auto simp: world_ok_def)
  show ?thesis unfolding listed_passes [OF judge u, symmetric]
  proof (rule catalog_keys.walk_all [OF keys fits limit])
    show "list_step w q now config (Some s) = Inr (keyset_page (\<lambda>v. sort_key_of (dv_row v) (q_sort q) usage) (sort_cursor (q_sort q)) (q_limit q)
        (map (judged_view w now config) ?L) (Some k))"
      if "right_of (key_from_cursor (w_text_of w) s (q_sort q)) = Some k" for s k
      by (rule step) (use that in \<open>cases "key_from_cursor (w_text_of w) s (q_sort q)"; simp\<close>)
    show "list_step w q now config None = Inr (keyset_page (\<lambda>v. sort_key_of (dv_row v) (q_sort q) usage) (sort_cursor (q_sort q)) (q_limit q)
        (map (judged_view w now config) ?L) None)"
      by (rule step) simp
  qed
qed

section \<open>Counting\<close>

lemma count_where_number: "count_of (count_where P key vs) k = number (\<lambda>v. P v \<and> key v = k) vs"
  by (induction vs rule: rev_induct) (auto simp: count_where_def split: option.split)

text \<open>The total of a list: how many datasets the client sees who follows its cursors.\<close>

definition list_total :: "world \<Rightarrow> catalog_query \<Rightarrow> instant \<Rightarrow> freshness_config option \<Rightarrow> nat option" where
  "list_total w q now config = map_option (\<lambda>ps. length (concat ps)) (walk_pages (list_step w q now config) None)"

lemma list_total_number:
  assumes "world_ok w" and "judgeable w now config" and "0 < q_limit q"
  shows "list_total w q now config = Some (number (passes w q now) (prefix_views w q now config))"
proof -
  obtain usage where "usage_for_all w q now = Inr usage" using usage_for_all_aware by blast
  from catalog_walk [OF assms this] show ?thesis by (auto simp: list_total_def)
qed

abbreviation facets_filter :: "world \<Rightarrow> catalog_query \<Rightarrow> instant \<Rightarrow> facet set \<Rightarrow> bool option \<Rightarrow> dataset_view \<Rightarrow> bool" where
  "facets_filter w q now \<equiv> facet_match q (running_dataset_ids (w_db w))
     (\<lambda>g. usage_predicate g (all_usage w q now) now (q_stale_days q))
     (expiring_predicate (facets_bound q now) (pending_ids now None (w_db w)))"

lemma facets_counts:
  assumes judge: "judgeable w now config" and f: "facets_of w q now config = Inr f"
  defines "V \<equiv> prefix_views w q now config" and "match \<equiv> facets_filter w q now"
    and "grp \<equiv> (\<lambda>g v. usage_predicate g (all_usage w q now) now (q_stale_days q) (dv_row v))"
  shows "fc_all f = number (match {} (Some False)) V" and "fc_needs_attention f = number (match {} (Some True)) V"
    and "fc_sources f s = number (\<lambda>v. match {BySource} None v \<and> cat_source (dv_row v) = s) V"
    and "fc_update_types f ut = number (\<lambda>v. match {ByUpdateType} None v \<and> cat_update_type (dv_row v) = ut) V"
    and "fc_statuses f st = number (\<lambda>v. match {ByStatus} None v \<and> map_option h_status (dv_health v) = Some st) V"
    and "fc_running f = number (\<lambda>v. match {ByRunning} None v \<and> cat_id (dv_row v) \<in> running_dataset_ids (w_db w)) V"
    and "fc_stale f = number (\<lambda>v. match {ByUsage} None v \<and> grp STALE v) V"
    and "fc_read_30d f = number (\<lambda>v. match {ByUsage} None v \<and> grp READ_30D v) V"
    and "fc_never_read f = number (\<lambda>v. match {ByUsage} None v \<and> grp NEVER_READ v) V"
    and "fc_expiring_soon f = number (\<lambda>v. match {ByExpiring} None v \<and>
           expiring_predicate (facets_bound q now) (pending_ids now None (w_db w)) (dv_row v)) V"
    and "fc_expires_before f = facets_bound q now"
proof -
  have ev: "evaluate_views w (list_catalog \<lparr>cf_prefix = cf_prefix (q_filter q), cf_source = None, cf_update_type = None\<rparr> (w_db w)) now config =
      Inr V" unfolding V_def prefix_views_def by (rule evaluate_views_judged [OF judge list_catalog_rows])
  obtain m where u: "read_usage w None (q_clients q) now = Inr m" using read_usage_aware by blast
  obtain c where c: "read_clients w (map (\<lambda>v. cat_id (dv_row v)) (filter (match {ByUsage, ByExpiring} None) V)) now = Inr c"
    using read_clients_aware by blast
  have m: "match = facet_match q (running_dataset_ids (w_db w)) (\<lambda>g. usage_predicate g m now (q_stale_days q))
       (expiring_predicate (facets_bound q now) (pending_ids now None (w_db w)))"
    by (simp add: match_def u)
  note run = f [unfolded facets_of_def ev u bind_r.simps Let_def, folded m, unfolded c bind_r.simps sum.inject, symmetric]
  show "fc_all f = number (match {} (Some False)) V" "fc_needs_attention f = number (match {} (Some True)) V"
    "fc_sources f s = number (\<lambda>v. match {BySource} None v \<and> cat_source (dv_row v) = s) V"
    "fc_update_types f ut = number (\<lambda>v. match {ByUpdateType} None v \<and> cat_update_type (dv_row v) = ut) V"
    "fc_statuses f st = number (\<lambda>v. match {ByStatus} None v \<and> map_option h_status (dv_health v) = Some st) V"
    "fc_running f = number (\<lambda>v. match {ByRunning} None v \<and> cat_id (dv_row v) \<in> running_dataset_ids (w_db w)) V"
    "fc_stale f = number (\<lambda>v. match {ByUsage} None v \<and> grp STALE v) V"
    "fc_read_30d f = number (\<lambda>v. match {ByUsage} None v \<and> grp READ_30D v) V"
    "fc_never_read f = number (\<lambda>v. match {ByUsage} None v \<and> grp NEVER_READ v) V"
    "fc_expiring_soon f = number (\<lambda>v. match {ByExpiring} None v \<and>
           expiring_predicate (facets_bound q now) (pending_ids now None (w_db w)) (dv_row v)) V"
    "fc_expires_before f = facets_bound q now"
    unfolding run grp_def u right_of.simps option.sel by (simp_all add: count_where_number)
qed

text \<open>A status group is the sum of its statuses.\<close>

lemma group_sum:
  "number (\<lambda>v. P v \<and> view_group v = Some g) vs =
     (\<Sum>st | GROUP_OF st = g. number (\<lambda>v. P v \<and> map_option h_status (dv_health v) = Some st) vs)"
proof (induction vs)
  case (Cons v vs)
  have all: "x \<in> {FRESH, LATE, OVERDUE, F_COMPLETE, F_GAPS, RETIRED}" for x by (cases x) simp_all
  have fin: "finite {st. GROUP_OF st = g}"
    by (rule finite_subset [of _ "{FRESH, LATE, OVERDUE, F_COMPLETE, F_GAPS, RETIRED}"]) (intro subsetI all, simp)
  have "(\<Sum>st | GROUP_OF st = g. if P v \<and> map_option h_status (dv_health v) = Some st then 1 else 0) =
      (if P v \<and> view_group v = Some g then 1 else (0 :: nat))"
  proof (cases "dv_health v")
    case (Some h)
    then show ?thesis using fin by (cases "P v") (simp_all add: view_group_def sum.delta)
  qed (simp add: view_group_def)
  moreover have "number Q (v # vs) = (if Q v then 1 else 0) + number Q vs" for Q by simp
  ultimately show ?case by (simp only: Cons.IH sum.distrib)
qed simp

lemma passes_facets:
  "passes w (q\<lparr>q_attention := a\<rparr>) now v = facets_filter w q now {} (Some a) v"
  "passes w (q\<lparr>q_filter := (q_filter q)\<lparr>cf_source := Some s\<rparr>\<rparr>) now v \<longleftrightarrow>
     facets_filter w q now {BySource} None v \<and> cat_source (dv_row v) = s"
  "passes w (q\<lparr>q_filter := (q_filter q)\<lparr>cf_update_type := Some ut\<rparr>\<rparr>) now v \<longleftrightarrow>
     facets_filter w q now {ByUpdateType} None v \<and> cat_update_type (dv_row v) = ut"
  "passes w (q\<lparr>q_status := Some g\<rparr>) now v \<longleftrightarrow> facets_filter w q now {ByStatus} None v \<and> view_group v = Some g"
  "passes w (q\<lparr>q_running := True\<rparr>) now v \<longleftrightarrow>
     facets_filter w q now {ByRunning} None v \<and> cat_id (dv_row v) \<in> running_dataset_ids (w_db w)"
  "passes w (q\<lparr>q_usage := Some u\<rparr>) now v \<longleftrightarrow>
     facets_filter w q now {ByUsage} None v \<and> usage_predicate u (all_usage w q now) now (q_stale_days q) (dv_row v)"
  "passes w (q\<lparr>q_expires_before := Some (facets_bound q now)\<rparr>) now v \<longleftrightarrow>
     facets_filter w q now {ByExpiring} None v \<and>
     expiring_predicate (facets_bound q now) (pending_ids now None (w_db w)) (dv_row v)"
proof -
  show "passes w (q\<lparr>q_attention := a\<rparr>) now v = facets_filter w q now {} (Some a) v"
    by (cases "q_usage q"; cases "q_expires_before q"; simp add: passes_def facet_match_def facets_bound_def)
  show "passes w (q\<lparr>q_filter := (q_filter q)\<lparr>cf_source := Some s\<rparr>\<rparr>) now v \<longleftrightarrow>
     facets_filter w q now {BySource} None v \<and> cat_source (dv_row v) = s"
    by (cases "q_usage q"; cases "q_expires_before q"; simp add: passes_def facet_match_def facets_bound_def matches_def filters_def; blast)
  show "passes w (q\<lparr>q_filter := (q_filter q)\<lparr>cf_update_type := Some ut\<rparr>\<rparr>) now v \<longleftrightarrow>
     facets_filter w q now {ByUpdateType} None v \<and> cat_update_type (dv_row v) = ut"
    by (cases "q_usage q"; cases "q_expires_before q"; simp add: passes_def facet_match_def facets_bound_def matches_def filters_def; blast)
  show "passes w (q\<lparr>q_status := Some g\<rparr>) now v \<longleftrightarrow> facets_filter w q now {ByStatus} None v \<and> view_group v = Some g"
    by (cases "q_usage q"; cases "q_expires_before q"; simp add: passes_def facet_match_def facets_bound_def matches_def; blast)
  show "passes w (q\<lparr>q_running := True\<rparr>) now v \<longleftrightarrow>
     facets_filter w q now {ByRunning} None v \<and> cat_id (dv_row v) \<in> running_dataset_ids (w_db w)"
    by (cases "q_usage q"; cases "q_expires_before q"; simp add: passes_def facet_match_def facets_bound_def matches_def; blast)
  show "passes w (q\<lparr>q_usage := Some u\<rparr>) now v \<longleftrightarrow>
     facets_filter w q now {ByUsage} None v \<and> usage_predicate u (all_usage w q now) now (q_stale_days q) (dv_row v)"
    by (cases "q_usage q"; cases "q_expires_before q"; simp add: passes_def facet_match_def facets_bound_def matches_def; blast)
  show "passes w (q\<lparr>q_expires_before := Some (facets_bound q now)\<rparr>) now v \<longleftrightarrow>
     facets_filter w q now {ByExpiring} None v \<and>
     expiring_predicate (facets_bound q now) (pending_ids now None (w_db w)) (dv_row v)"
    by (cases "q_usage q"; simp add: passes_def facet_match_def matches_def; blast)
qed

section \<open>Properties\<close>

lemma prefix_ids_distinct: "db_ok d \<Longrightarrow> distinct (map cat_id (list_catalog cf d))"
proof -
  assume "db_ok d"
  then have "distinct (map e_id (entries d))" by (simp add: db_ok_def entries_ok_def)
  then have "distinct (map cat_id (map (row_with_bars d) (filter (catalog_filter_matches cf) (entries d))))"
    using distinct_map_filter by (simp add: comp_def)
  moreover have "distinct (map f (sort_key g xs)) \<longleftrightarrow> distinct (map f xs)" for f g and xs :: "catalog_row list"
    by (simp add: distinct_map)
  ultimately show ?thesis unfolding list_catalog_def by blast
qed

lemma prefix_view_ids:
  assumes "judgeable w now config"
  shows "map (\<lambda>v. cat_id (dv_row v)) (prefix_views w q now config) =
    map cat_id (list_catalog \<lparr>cf_prefix = cf_prefix (q_filter q), cf_source = None, cf_update_type = None\<rparr> (w_db w))"
  unfolding prefix_views_def map_map comp_def
proof (rule map_cong [OF refl])
  fix r
  assume "r \<in> set (list_catalog \<lparr>cf_prefix = cf_prefix (q_filter q), cf_source = None, cf_update_type = None\<rparr> (w_db w))"
  then have "r \<in> catalog_rows w" using list_catalog_rows by blast
  then show "cat_id (dv_row (judged_view w now config r)) = cat_id r" using judged_row [OF assms] by simp
qed

definition sample_world :: world where
  "sample_world = \<lparr>w_calendars = (\<lambda>_ _. ad_cal sample_adapter), w_env = Map.empty, w_text_of = Some,
     w_db = empty_db\<lparr>entries := [row_of_create 1 50 None (extend_key (sample_key\<lparr>k_source := MANUAL_ENTRY\<rparr>) (Some 900) IEX),
       row_of_create 2 60 None (extend_key (sample_key\<lparr>k_source := MANUAL_ENTRY, k_symbol := ''MSFT''\<rparr>) None IEX)]\<rparr>,
     w_usage = sample_usage\<rparr>"

definition sample_catalog_query :: catalog_query where
  "sample_catalog_query = \<lparr>q_filter = \<lparr>cf_prefix = None, cf_source = None, cf_update_type = None\<rparr>, q_status = None, q_attention = False,
     q_running = False, q_clients = default_clients, q_usage = None, q_stale_days = 90, q_expires_before = None,
     q_sort = LAST_READ, q_cursor = None, q_limit = 1\<rparr>"

lemma sample_row_fields:
  "e_id (row_of_create i now c (extend_key k x f)) = i" "e_expiry (row_of_create i now c (extend_key k x f)) = x"
  "e_source (row_of_create i now c (extend_key k x f)) = k_source k"
  by (simp_all add: row_of_create_def extend_key_def overlap_key.defs entry_create.defs)

lemma sample_world_ok: "world_ok sample_world"
  unfolding world_ok_def
proof (intro conjI)
  show "db_ok (w_db sample_world)" by (simp add: sample_world_def) code_simp
  show "reads_ascii (w_text_of sample_world)" by (simp add: sample_world_def reads_ascii_def)
qed (simp_all add: sample_world_def representable_def DATETIME_MIN_def DATETIME_MAX_def sample_row_fields
    empty_db_def sample_usage_def sample_read_def)

lemma sample_judgeable: "judgeable sample_world now None"
proof -
  obtain c where c: "settings Map.empty None = Inr c"
    by (simp add: settings_def freshness_config_from_env_def mk_freshness_config_def DEFAULT_STREAM_BAR_MULTIPLE_def
        settle_margin_from_env_def DEFAULT_SETTLE_MARGIN_def)
  have "right_of (judgement sample_world now None r) \<noteq> None" if "cat_source r = MANUAL_ENTRY" for r
    using c that by (simp add: judgement_def sample_world_def row_calendar_def calendar_for_source_def view_of_def)
  then show ?thesis using c by (simp add: judgeable_def sample_world_def sample_row_fields)
qed

text \<open>C16. A client that follows the catalog's cursors reaches the end, and has then seen every dataset the query
  asks for exactly once, and no other, in the order of the list, in full pages but for the last: no page's
  cursor is refused, and none skips or repeats a dataset.\<close>

theorem catalog_walk_visits_each_once:
  assumes "world_ok w" and "judgeable w now config" and "0 < q_limit q"
  shows "\<exists>ps usage. walk_pages (list_step w q now config) None = Some ps \<and> usage_for_all w q now = Inr usage
    \<and> set (concat ps) = {v \<in> set (prefix_views w q now config). passes w q now v}
    \<and> distinct (map (\<lambda>v. cat_id (dv_row v)) (concat ps))
    \<and> sorted (map (\<lambda>v. sort_key_of (dv_row v) (q_sort q) usage) (concat ps))
    \<and> length ps = page_count (q_limit q) (length (concat ps)) \<and> (\<forall>p\<in>set ps. length p \<le> q_limit q)"
proof -
  obtain usage where u: "usage_for_all w q now = Inr usage" using usage_for_all_aware by blast
  from catalog_walk [OF assms u] obtain ps where ps: "walk_pages (list_step w q now config) None = Some ps"
    "concat ps = sort_key (\<lambda>v. sort_key_of (dv_row v) (q_sort q) usage) (filter (passes w q now) (prefix_views w q now config))"
    "length ps = page_count (q_limit q) (length (filter (passes w q now) (prefix_views w q now config)))"
    "\<forall>p\<in>set ps. length p \<le> q_limit q" by blast
  have "distinct (map (\<lambda>v. cat_id (dv_row v)) (prefix_views w q now config))"
    unfolding prefix_view_ids [OF assms(2)] using assms(1) by (intro prefix_ids_distinct) (simp add: world_ok_def)
  then have "distinct (map (\<lambda>v. cat_id (dv_row v)) (filter (passes w q now) (prefix_views w q now config)))"
    by (rule distinct_map_filter)
  moreover have "distinct (map f (sort_key g xs)) \<longleftrightarrow> distinct (map f xs)" for f g and xs :: "dataset_view list"
    by (simp add: distinct_map)
  ultimately have "distinct (map (\<lambda>v. cat_id (dv_row v)) (concat ps))" unfolding ps(2) by blast
  moreover have "length (concat ps) = length (filter (passes w q now) (prefix_views w q now config))" unfolding ps(2) by simp
  moreover have "sorted (map (\<lambda>v. sort_key_of (dv_row v) (q_sort q) usage) (concat ps))" unfolding ps(2) by simp
  moreover have "set (concat ps) = {v \<in> set (prefix_views w q now config). passes w q now v}" unfolding ps(2) by auto
  ultimately show ?thesis using u ps(1,3,4) by (intro exI [of _ ps] exI [of _ usage] conjI) simp_all
qed

theorem catalog_walk_visits_each_once_witness:
  "\<exists>ps. walk_pages (list_step sample_world sample_catalog_query one_day None) None = Some ps
    \<and> length ps = page_count 1 (length (concat ps))"
proof -
  have "0 < q_limit sample_catalog_query" "q_limit sample_catalog_query = 1" by (simp_all add: sample_catalog_query_def)
  then show ?thesis
    using catalog_walk_visits_each_once [OF sample_world_ok sample_judgeable, of sample_catalog_query one_day] by auto
qed

text \<open>C17. Every count of the sidebar equals the total of the list it opens: all, needs attention, each source, each
  update type, running, stale, read within 30 days, never read and expiring soon, under whatever filters are
  set; the list of a status group has the sum of its statuses' counts.\<close>

theorem facets_equal_list_totals:
  assumes "world_ok w" and "judgeable w now config" and "0 < q_limit q" and "facets_of w q now config = Inr f"
  shows "list_total w (q\<lparr>q_attention := False\<rparr>) now config = Some (fc_all f)
    \<and> list_total w (q\<lparr>q_attention := True\<rparr>) now config = Some (fc_needs_attention f)
    \<and> list_total w (q\<lparr>q_filter := (q_filter q)\<lparr>cf_source := Some s\<rparr>\<rparr>) now config = Some (fc_sources f s)
    \<and> list_total w (q\<lparr>q_filter := (q_filter q)\<lparr>cf_update_type := Some ut\<rparr>\<rparr>) now config = Some (fc_update_types f ut)
    \<and> list_total w (q\<lparr>q_status := Some g\<rparr>) now config = Some (sum (fc_statuses f) {st. GROUP_OF st = g})
    \<and> list_total w (q\<lparr>q_running := True\<rparr>) now config = Some (fc_running f)
    \<and> list_total w (q\<lparr>q_usage := Some STALE\<rparr>) now config = Some (fc_stale f)
    \<and> list_total w (q\<lparr>q_usage := Some READ_30D\<rparr>) now config = Some (fc_read_30d f)
    \<and> list_total w (q\<lparr>q_usage := Some NEVER_READ\<rparr>) now config = Some (fc_never_read f)
    \<and> list_total w (q\<lparr>q_expires_before := Some (fc_expires_before f)\<rparr>) now config = Some (fc_expiring_soon f)"
proof -
  have total: "list_total w q' now config = Some (number (passes w q' now) (prefix_views w q now config))"
    if "q_limit q' = q_limit q" "cf_prefix (q_filter q') = cf_prefix (q_filter q)" for q'
    using list_total_number [OF assms(1,2), of q'] that assms(3) by (simp add: prefix_views_def)
  note counts = facets_counts [OF assms(2,4)]
  show ?thesis
  proof (intro conjI)
    show "list_total w (q\<lparr>q_attention := False\<rparr>) now config = Some (fc_all f)"
      "list_total w (q\<lparr>q_attention := True\<rparr>) now config = Some (fc_needs_attention f)"
      by (subst total; simp add: passes_facets(1) [abs_def] counts(1,2))+
    show "list_total w (q\<lparr>q_filter := (q_filter q)\<lparr>cf_source := Some s\<rparr>\<rparr>) now config = Some (fc_sources f s)"
      by (subst total; simp add: passes_facets(2) [abs_def] counts(3))
    show "list_total w (q\<lparr>q_filter := (q_filter q)\<lparr>cf_update_type := Some ut\<rparr>\<rparr>) now config = Some (fc_update_types f ut)"
      by (subst total; simp add: passes_facets(3) [abs_def] counts(4))
    show "list_total w (q\<lparr>q_status := Some g\<rparr>) now config = Some (sum (fc_statuses f) {st. GROUP_OF st = g})"
    proof -
      have "fc_statuses f = (\<lambda>st. number (\<lambda>v. facets_filter w q now {ByStatus} None v \<and>
          map_option h_status (dv_health v) = Some st) (prefix_views w q now config))" by (rule ext) (rule counts(5))
      moreover have "list_total w (q\<lparr>q_status := Some g\<rparr>) now config =
          Some (number (passes w (q\<lparr>q_status := Some g\<rparr>) now) (prefix_views w q now config))" by (rule total) simp_all
      ultimately show ?thesis by (simp only: passes_facets(4) [abs_def] group_sum)
    qed
    show "list_total w (q\<lparr>q_running := True\<rparr>) now config = Some (fc_running f)"
      by (subst total; simp add: passes_facets(5) [abs_def] counts(6))
    show "list_total w (q\<lparr>q_usage := Some STALE\<rparr>) now config = Some (fc_stale f)"
      by (subst total; simp add: passes_facets(6) [abs_def] counts(7))
    show "list_total w (q\<lparr>q_usage := Some READ_30D\<rparr>) now config = Some (fc_read_30d f)"
      by (subst total; simp add: passes_facets(6) [abs_def] counts(8))
    show "list_total w (q\<lparr>q_usage := Some NEVER_READ\<rparr>) now config = Some (fc_never_read f)"
      by (subst total; simp add: passes_facets(6) [abs_def] counts(9))
    show "list_total w (q\<lparr>q_expires_before := Some (fc_expires_before f)\<rparr>) now config = Some (fc_expiring_soon f)"
    proof -
      have "list_total w (q\<lparr>q_expires_before := Some (facets_bound q now)\<rparr>) now config =
          Some (number (passes w (q\<lparr>q_expires_before := Some (facets_bound q now)\<rparr>) now) (prefix_views w q now config))"
        by (rule total) simp_all
      moreover have "passes w (q\<lparr>q_expires_before := Some (facets_bound q now)\<rparr>) now = (\<lambda>v. facets_filter w q now {ByExpiring} None v \<and>
          expiring_predicate (facets_bound q now) (pending_ids now None (w_db w)) (dv_row v))" by (rule ext) (rule passes_facets(7))
      ultimately show ?thesis by (simp only: counts(10,11))
    qed
  qed
qed

theorem facets_equal_list_totals_witness:
  "\<exists>f. facets_of sample_world sample_catalog_query one_day None = Inr f \<and>
     list_total sample_world (sample_catalog_query\<lparr>q_usage := Some NEVER_READ\<rparr>) one_day None = Some (fc_never_read f)"
proof -
  have l: "0 < q_limit sample_catalog_query" by (simp add: sample_catalog_query_def)
  obtain m where m: "read_usage sample_world None (q_clients sample_catalog_query) one_day = Inr m" using read_usage_aware by blast
  obtain f where "facets_of sample_world sample_catalog_query one_day None = Inr f"
    using read_clients_aware [of sample_world _ one_day]
    by (auto simp: facets_of_def evaluate_views_judged [OF sample_judgeable list_catalog_rows] m Let_def)
       (metis bind_r.simps(2))
  with facets_equal_list_totals [OF sample_world_ok sample_judgeable l this] show ?thesis by blast
qed

end
