(* ===== verification/Catalog_Pending.thy ===== *)
theory Catalog_Pending
  imports Catalog_Views
begin

text \<open>
  Cursors across the lists of \<open>server/data/store/app/dataset_catalog.py\<close>, and the paged list of what the reaper
  would delete (\<open>reaper_pending_page\<close>) as another instance of keyset paging.
\<close>

section \<open>A cursor belongs to one list\<close>

definition pending_fits :: "(nat list \<Rightarrow> ustring option) \<Rightarrow> instant \<times> uuid \<Rightarrow> bool" where
  "pending_fits text_of k \<longleftrightarrow> reads_ascii text_of \<and> representable (fst k) \<and> snd k < 2 ^ 128"

lemma pending_payload_ok: "pending_fits text_of k \<Longrightarrow>
   payload_ok (JObj [(code_points ''o'', JStr (code_points ''reaper'')), (code_points ''k'', JList [JInt (fst k), JStr (uuid_text (snd k))])])"
  using representable_int_ok [of "fst k"] code_points_small uuid_text_small by (simp add: pending_fits_def)

lemma pending_cursor_payload:
  assumes "pending_fits text_of k"
  shows "decode_cursor text_of (pending_cursor k) =
    Some [(code_points ''o'', JStr (code_points ''reaper'')), (code_points ''k'', JList [JInt (fst k), JStr (uuid_text (snd k))])]"
  unfolding pending_cursor_def
  by (rule cursor_round_trip [OF _ pending_payload_ok [OF assms]]) (use assms in \<open>simp add: pending_fits_def\<close>)

lemma pending_cursor_reads:
  assumes "pending_fits text_of k"
  shows "pending_key_from_cursor text_of (pending_cursor k) = Inr k"
  using assms uuid_round_trip [of "snd k"] unfolding pending_key_from_cursor_def pending_cursor_payload [OF assms]
  by (simp add: jget_def pending_fits_def representable_def)

lemma sort_cursor_payload:
  assumes "reads_ascii text_of" and "sort_key_fits so key"
  shows "decode_cursor text_of (sort_cursor so key) =
    Some [(code_points ''o'', JStr (code_points (sort_value so))), (code_points ''k'', JList (map json_part key))]"
  unfolding sort_cursor_def using assms code_points_small payload_parts
  by (intro cursor_round_trip) (simp_all add: sort_key_fits_def)

interpretation pending_keys: keyset_pages pending_key pending_cursor
  "\<lambda>c. right_of (pending_key_from_cursor text_of c)" "pending_fits text_of" for text_of
proof unfold_locales
  fix k
  assume k: "pending_fits text_of k"
  show "right_of (pending_key_from_cursor text_of (pending_cursor k)) = Some k" by (simp add: pending_cursor_reads [OF k])
  show "pending_cursor k \<noteq> []" unfolding pending_cursor_def
    by (rule cursor_not_empty [where text_of = text_of, OF _ pending_payload_ok [OF k]]) (use k in \<open>simp add: pending_fits_def\<close>)
qed

section \<open>The pending list\<close>

definition pending_step ::
  "world \<Rightarrow> instant \<Rightarrow> nat \<Rightarrow> freshness_config option \<Rightarrow> string option \<Rightarrow> page_error + catalog_row list \<times> string" where
  "pending_step w now limit config c =
     map_right (\<lambda>p. (map dv_row (dp_views p), dp_next_cursor p)) (reaper_pending_page w now c limit config)"

lemma pending_page_shown:
  assumes judge: "judgeable w now config" and limit: "0 < limit"
    and c: "(case c of None \<Rightarrow> Inr None | Some c \<Rightarrow> bind_r (pending_key_from_cursor (w_text_of w) c) (\<lambda>k. Inr (Some k))) = Inr after"
  shows "pending_step w now limit config c = Inr (keyset_page pending_key pending_cursor limit
     (map (row_with_bars (w_db w)) (filter (past_expiry now) (entries (w_db w)))) after)"
proof -
  let ?P = "map (row_with_bars (w_db w)) (filter (past_expiry now) (entries (w_db w)))"
  let ?rows = "list_pending now after (Some (limit + 1)) (w_db w)"
  have rows: "?rows = take (limit + 1) (filter (after_key pending_key after) (sort_key pending_key ?P))"
    by (simp only: list_pending_keyset filter_sort)
  have "set ?rows \<subseteq> catalog_rows w" unfolding rows by (auto dest!: in_set_takeD)
  then have sub: "set (take limit ?rows) \<subseteq> catalog_rows w" by (meson order_trans set_take_subset)
  have "dv_row (judged_view w now config r) = r" if "r \<in> set (take limit ?rows)" for r
    by (rule judged_row [OF judge]) (use sub that in blast)
  then have "map dv_row (map (judged_view w now config) (take limit ?rows)) = take limit ?rows"
    unfolding map_map comp_def by (rule map_idI)
  moreover obtain m where "page_usage w (map cat_id (take limit ?rows)) None default_clients now = Inr m"
    using page_usage_aware by blast
  ultimately show ?thesis
    unfolding pending_step_def reaper_pending_page_def c bind_r.simps Let_def evaluate_views_judged [OF judge sub]
      keyset_page_def rows [symmetric] by (simp only: bind_r.simps map_right.simps dataset_page.simps)
qed

text \<open>A client that follows the cursors of the reaper's pending list sees every dataset past its expiry once,
  oldest expiry first, and nothing else.\<close>

theorem pending_walk_is_the_reapers_set:
  assumes ok: "world_ok w" and judge: "judgeable w now config" and limit: "0 < limit"
  shows "\<exists>ps. walk_pages (pending_step w now limit config) None = Some ps \<and> distinct (map cat_id (concat ps))
    \<and> cat_id ` set (concat ps) = pending_ids now None (w_db w) \<and> sorted (map pending_key (concat ps))
    \<and> length ps = page_count limit (card (pending_ids now None (w_db w)))"
proof -
  let ?P = "map (row_with_bars (w_db w)) (filter (past_expiry now) (entries (w_db w)))"
  have d: "db_ok (w_db w)" using ok by (simp add: world_ok_def)
  have fits: "pending_fits (w_text_of w) (pending_key r)" if "r \<in> set ?P" for r
    using that ok by (auto simp: world_ok_def list_all_iff pending_fits_def past_expiry_def split: option.splits)
  have page: "pending_step w now limit config c = Inr (keyset_page pending_key pending_cursor limit ?P after)"
    if "(case c of None \<Rightarrow> Inr None | Some c \<Rightarrow> bind_r (pending_key_from_cursor (w_text_of w) c) (\<lambda>k. Inr (Some k))) = Inr after"
    for c after by (rule pending_page_shown [OF judge limit that])
  have "\<exists>ps. walk_pages (pending_step w now limit config) None = Some ps \<and> concat ps = sort_key pending_key ?P
      \<and> length ps = page_count limit (length ?P) \<and> (\<forall>p\<in>set ps. length p \<le> limit)"
  proof (rule pending_keys.walk_all [OF pending_keys_distinct [OF d] fits limit])
    show "pending_step w now limit config (Some s) = Inr (keyset_page pending_key pending_cursor limit ?P (Some k))"
      if "right_of (pending_key_from_cursor (w_text_of w) s) = Some k" for s k
      by (rule page) (use that in \<open>cases "pending_key_from_cursor (w_text_of w) s"; simp\<close>)
    show "pending_step w now limit config None = Inr (keyset_page pending_key pending_cursor limit ?P None)" by (rule page) simp
  qed
  then obtain ps where ps: "walk_pages (pending_step w now limit config) None = Some ps" "concat ps = sort_key pending_key ?P"
    "length ps = page_count limit (length ?P)" by blast
  have set: "cat_id ` set (concat ps) = pending_ids now None (w_db w)"
    unfolding ps(2) by (simp add: pending_ids_def image_image)
  have "distinct (map e_id (filter (past_expiry now) (entries (w_db w))))"
    using d by (intro distinct_map_filter) (simp add: db_ok_def entries_ok_def)
  then have "distinct (map cat_id ?P)" by (simp add: comp_def)
  moreover have "distinct (map f (sort_key g xs)) \<longleftrightarrow> distinct (map f xs)" for f g and xs :: "catalog_row list"
    by (simp add: distinct_map)
  ultimately have dist: "distinct (map cat_id (concat ps))" unfolding ps(2) by blast
  have "card (cat_id ` set (concat ps)) = length (map cat_id (concat ps))" using distinct_card [OF dist] by (simp only: set_map)
  then have "card (pending_ids now None (w_db w)) = length ?P" unfolding set by (simp only: ps(2) length_map length_sort)
  then show ?thesis using ps(1,3) set dist ps(2) by (intro exI [of _ ps] conjI) simp_all
qed

theorem pending_walk_is_the_reapers_set_witness:
  "\<exists>ps. walk_pages (pending_step sample_world one_day 1 None) None = Some ps \<and> cat_id ` set (concat ps) = {1}"
proof -
  have "pending_ids one_day None (w_db sample_world) = {1}"
    by (simp add: pending_ids_def sample_world_def past_expiry_def sample_row_fields)
  with pending_walk_is_the_reapers_set [OF sample_world_ok sample_judgeable, of 1 one_day] show ?thesis by auto
qed

section \<open>Foreign cursors\<close>

text \<open>C20. A cursor answers only the list it was made by: read back under its own order it is the key of the last row
  shown, under another order it is refused as an invalid request, and so are a catalog cursor given to the
  reaper's list and a reaper's cursor given to the catalog.\<close>

theorem cursor_is_bound_to_its_list:
  assumes "world_ok w" and "r \<in> set (list_catalog cf (w_db w))" and "usage_for_all w q now = Inr usage"
    and "past_expiry now e" and "e \<in> set (entries (w_db w))"
  shows "key_from_cursor (w_text_of w) (cursor_for r (q_sort q) usage) so =
      (if so = q_sort q then Inr (sort_key_of r (q_sort q) usage) else Inl (InvalidRequest INVALID_REQUEST))
    \<and> pending_key_from_cursor (w_text_of w) (cursor_for r (q_sort q) usage) = Inl (InvalidRequest INVALID_REQUEST)
    \<and> pending_key_from_cursor (w_text_of w) (pending_cursor (pending_key (row_with_bars (w_db w) e))) =
        Inr (pending_key (row_with_bars (w_db w) e))
    \<and> key_from_cursor (w_text_of w) (pending_cursor (pending_key (row_with_bars (w_db w) e))) so = Inl (InvalidRequest INVALID_REQUEST)"
proof -
  have a: "reads_ascii (w_text_of w)" using assms(1) by (simp add: world_ok_def)
  note fits = row_key_fits [OF assms(1-3)]
  have p: "pending_fits (w_text_of w) (pending_key (row_with_bars (w_db w) e))"
    using assms(1,4,5) by (auto simp: world_ok_def list_all_iff pending_fits_def past_expiry_def split: option.splits)
  have o: "jget [(code_points ''o'', JStr (code_points v)), (code_points ''k'', j)] ''o'' = Some (JStr (code_points v))" for v j
    by (simp add: jget_def)
  have "sort_value a = sort_value b \<longleftrightarrow> a = b" for a b by (cases a; cases b) simp_all
  then have "key_from_cursor (w_text_of w) (cursor_for r (q_sort q) usage) so = Inl (InvalidRequest INVALID_REQUEST)" if "so \<noteq> q_sort q"
    using that by (simp add: key_from_cursor_def cursor_for_def sort_cursor_payload [OF a fits] o invalid_cursor_def)
  moreover have "key_from_cursor (w_text_of w) (cursor_for r (q_sort q) usage) (q_sort q) = Inr (sort_key_of r (q_sort q) usage)"
    unfolding cursor_for_def by (rule sort_cursor_reads [OF a fits])
  moreover have "sort_value a \<noteq> ''reaper''" for a by (cases a) simp_all
  then have "pending_key_from_cursor (w_text_of w) (cursor_for r (q_sort q) usage) = Inl (InvalidRequest INVALID_REQUEST)"
    "key_from_cursor (w_text_of w) (pending_cursor (pending_key (row_with_bars (w_db w) e))) so = Inl (InvalidRequest INVALID_REQUEST)"
    unfolding pending_key_from_cursor_def key_from_cursor_def cursor_for_def sort_cursor_payload [OF a fits]
      pending_cursor_payload [OF p] by (simp_all add: o invalid_cursor_def not_sym)
  ultimately show ?thesis using pending_cursor_reads [OF p] by (cases "so = q_sort q") simp_all
qed

theorem cursor_is_bound_to_its_list_witness:
  "key_from_cursor Some (pending_cursor (900, 1)) SYMBOL = Inl (InvalidRequest INVALID_REQUEST)"
proof -
  let ?e = "hd (entries (w_db sample_world))" and ?cf = "\<lparr>cf_prefix = None, cf_source = None, cf_update_type = None\<rparr>"
  have e: "?e \<in> set (entries (w_db sample_world))" by (simp add: sample_world_def)
  have x: "past_expiry one_day ?e" "w_text_of sample_world = Some" "pending_key (row_with_bars (w_db sample_world) ?e) = (900, 1)"
    by (simp_all add: sample_world_def past_expiry_def sample_row_fields)
  have r: "row_with_bars (w_db sample_world) ?e \<in> set (list_catalog ?cf (w_db sample_world))"
    unfolding catalog_row_from using e by (auto simp: catalog_filter_matches_def)
  obtain usage where u: "usage_for_all sample_world sample_catalog_query one_day = Inr usage" using usage_for_all_aware by blast
  show ?thesis using cursor_is_bound_to_its_list [OF sample_world_ok r u x(1) e, of SYMBOL] by (simp only: x)
qed

end
