(* ===== verification/Catalog_Usage.thy ===== *)
theory Catalog_Usage
  imports Catalog_Views
begin

text \<open>
  The usage statistics of \<open>server/data/store/app/dataset_catalog.py\<close>: the summary, the last-read buckets, the
  reads per day, the stale list and the storage split, with \<open>read_bar_storage\<close> of the repository. \<open>now\<close> may be
  naive here, as the code checks it. The SHA-256 hex digest is the argument \<open>sha256_hex\<close>, and
  \<open>pg_total_relation_size\<close> of the bar table the argument \<open>table_bytes\<close>.
\<close>

section \<open>Storage\<close>

fun source_order :: "data_source \<Rightarrow> nat" where
  "source_order IB_API = 0"
| "source_order ALPACA_API = 1"
| "source_order MANUAL_ENTRY = 2"

fun feed_order :: "feed \<Rightarrow> nat" where
  "feed_order IEX = 0"
| "feed_order SIP = 1"
| "feed_order NOT_APPLICABLE = 2"

record bar_storage =
  bs_total_bytes :: int
  bs_by_source :: "(data_source \<times> feed \<times> nat) list"

definition read_bar_storage :: "int option \<Rightarrow> db \<Rightarrow> bar_storage" where
  "read_bar_storage table_bytes d =
     \<lparr>bs_total_bytes = (case table_bytes of None \<Rightarrow> 0 | Some n \<Rightarrow> n),
      bs_by_source = sort_key (\<lambda>(s, f, n). (source_order s, feed_order f))
        (map (\<lambda>((s, f), bs). (s, f, length bs)) (grouped (\<lambda>b. (b_source b, b_feed b)) (bars d)))\<rparr>"

definition estimate_bytes :: "nat \<Rightarrow> int \<Rightarrow> nat \<Rightarrow> int" where
  "estimate_bytes bar_count total_bytes total_bars =
     (if total_bars = 0 then 0 else int bar_count * total_bytes div int total_bars)"

definition total_bars_of :: "bar_storage \<Rightarrow> nat" where
  "total_bars_of st = sum_list (map (\<lambda>(s, f, n). n) (bs_by_source st))"

record storage_share =
  sh_source :: data_source
  sh_feed :: feed
  sh_bar_count :: nat
  sh_est_bytes :: int

record storage_current =
  sc_total_bytes :: int
  sc_by_source :: "storage_share list"
  sc_as_of :: stamp

definition storage_current_of ::
  "int option \<Rightarrow> db \<Rightarrow> stamp \<Rightarrow> data_source option \<Rightarrow> page_error + storage_current" where
  "storage_current_of table_bytes d now source =
     bind_r (utc_today now) (\<lambda>_.
     let storage = read_bar_storage table_bytes d;
         total_bars = total_bars_of storage;
         shares = map (\<lambda>(s, f, n). \<lparr>sh_source = s, sh_feed = f, sh_bar_count = n,
                      sh_est_bytes = estimate_bytes n (bs_total_bytes storage) total_bars\<rparr>)
                    (filter (\<lambda>(s, f, n). case source of None \<Rightarrow> True | Some src \<Rightarrow> s = src) (bs_by_source storage))
     in Inr \<lparr>sc_total_bytes = (if source = None then bs_total_bytes storage else sum_list (map sh_est_bytes shares)),
             sc_by_source = shares, sc_as_of = now\<rparr>)"

section \<open>Figures\<close>

record usage_summary =
  su_stale :: nat
  su_read_last_30d :: nat
  su_total :: nat
  su_never_read :: nat
  su_reads_today :: nat
  su_distinct_clients_today :: nat
  su_clients :: client_filter
  su_stale_days :: int

definition read_day_reads ::
  "world \<Rightarrow> uuid list option \<Rightarrow> client_filter \<Rightarrow> stamp \<Rightarrow> int \<Rightarrow> page_error + client_day_reads list" where
  "read_day_reads w ids f now days =
     (if ids = Some [] \<or> \<not> usage_tables_exist (w_usage w) then Inr []
      else lift_clock (read_client_day_reads ids now days (client_args_of f) (w_usage w)))"

abbreviation source_catalog :: "world \<Rightarrow> data_source option \<Rightarrow> catalog_row list" where
  "source_catalog w source \<equiv> list_catalog \<lparr>cf_prefix = None, cf_source = source, cf_update_type = None\<rparr> (w_db w)"

definition usage_summary_of ::
  "world \<Rightarrow> stamp \<Rightarrow> client_filter \<Rightarrow> int \<Rightarrow> data_source option \<Rightarrow> page_error + usage_summary" where
  "usage_summary_of w now f stale_days source =
     bind_r (utc_today now) (\<lambda>_.
     let rows = source_catalog w source in
     bind_r (read_usage w None f (instant_of now)) (\<lambda>usage.
     let last_reads = map (\<lambda>row. last_read usage (cat_id row)) rows in
     bind_r (read_day_reads w (if source = None then None else Some (map cat_id rows)) f now 1) (\<lambda>reads_today.
       Inr \<lparr>su_stale = number (\<lambda>l. \<not> read_within l (instant_of now) stale_days) last_reads,
            su_read_last_30d = number (\<lambda>l. read_within l (instant_of now) 30) last_reads,
            su_total = length rows,
            su_never_read = number (\<lambda>l. l = None) last_reads,
            su_reads_today = sum_list (map cy_reads reads_today),
            su_distinct_clients_today = card (set (map cy_client reads_today)),
            su_clients = f, su_stale_days = stale_days\<rparr>)))"

definition LAST_READ_BUCKET_STARTS :: "int list" where
  "LAST_READ_BUCKET_STARTS = [0, 1, 8, 31, 91]"

record last_read_buckets =
  lb_buckets :: "(int \<times> int option \<times> nat) list"
  lb_never_read :: nat
  lb_clients :: client_filter

text \<open>The position of the last bucket that starts at or before \<open>days\<close>, which is at least 0.\<close>

definition bucket_position :: "int \<Rightarrow> nat" where
  "bucket_position days =
     Max (set (map fst (filter (\<lambda>(index, first). first \<le> days) (enumerate 0 LAST_READ_BUCKET_STARTS))))"

fun count_last_reads :: "day \<Rightarrow> instant option list \<Rightarrow> nat list \<times> nat \<Rightarrow> nat list \<times> nat" where
  "count_last_reads today [] acc = acc"
| "count_last_reads today (l # ls) (counts, never) =
     count_last_reads today ls
       (case l of
          None \<Rightarrow> (counts, never + 1)
        | Some t \<Rightarrow> (let p = bucket_position (max 0 (today - utc_day t)) in (counts[p := counts ! p + 1], never)))"

definition last_read_buckets_of ::
  "world \<Rightarrow> stamp \<Rightarrow> client_filter \<Rightarrow> data_source option \<Rightarrow> page_error + last_read_buckets" where
  "last_read_buckets_of w now f source =
     bind_r (utc_today now) (\<lambda>today.
     let rows = source_catalog w source in
     bind_r (read_usage w None f (instant_of now)) (\<lambda>usage.
     let (counts, never) = count_last_reads today (map (\<lambda>row. last_read usage (cat_id row)) rows)
           (replicate (length LAST_READ_BUCKET_STARTS) 0, 0);
         ends = map Some (tl LAST_READ_BUCKET_STARTS) @ [None]
     in Inr \<lparr>lb_buckets = zip LAST_READ_BUCKET_STARTS (zip ends counts), lb_never_read = never, lb_clients = f\<rparr>))"

definition reads_per_day ::
  "world \<Rightarrow> stamp \<Rightarrow> client_filter \<Rightarrow> int \<Rightarrow> uuid option \<Rightarrow> data_source option \<Rightarrow> page_error + client_day_reads list" where
  "reads_per_day w now f days dataset_id source =
     bind_r (utc_today now) (\<lambda>_.
       read_day_reads w
         (case source of
            Some s \<Rightarrow> Some (map cat_id (filter (\<lambda>row. case dataset_id of None \<Rightarrow> True | Some i \<Rightarrow> cat_id row = i)
                        (source_catalog w source)))
          | None \<Rightarrow> map_option (\<lambda>i. [i]) dataset_id)
         f now days)"

section \<open>The stale list\<close>

fun source_name :: "data_source \<Rightarrow> string" where
  "source_name IB_API = ''IB_API''"
| "source_name ALPACA_API = ''ALPACA_API''"
| "source_name MANUAL_ENTRY = ''MANUAL_ENTRY''"

fun kind_value :: "read_client_kind \<Rightarrow> string" where
  "kind_value UI = ''UI''"
| "kind_value SDK = ''SDK''"

definition stale_fingerprint ::
  "(ustring \<Rightarrow> ustring) \<Rightarrow> client_filter \<Rightarrow> int \<Rightarrow> data_source option \<Rightarrow> ustring" where
  "stale_fingerprint sha256_hex f stale_days source =
     take 16 (sha256_hex (dumps (JList
       [JInt stale_days, (case source of None \<Rightarrow> JNull | Some s \<Rightarrow> JStr (code_points (source_name s))),
        JList (map (\<lambda>c. JStr (code_points c)) (sort (applied_ids f))),
        JList (map (\<lambda>k. JStr (code_points (kind_value k))) (applied_kinds f))])))"

definition stale_key :: "(uuid \<rightharpoonup> dataset_usage) \<Rightarrow> catalog_row \<Rightarrow> key_part list" where
  "stale_key usage row =
     (case last_read usage (cat_id row) of
        None \<Rightarrow> [KInt 0, KInt 0, KStr (uuid_text (cat_id row))]
      | Some t \<Rightarrow> [KInt 1, KInt t, KStr (uuid_text (cat_id row))])"

definition stale_cursor :: "ustring \<Rightarrow> key_part list \<Rightarrow> string" where
  "stale_cursor fingerprint key =
     encode_cursor (JObj [(code_points ''o'', JStr (code_points ''stale'')),
       (code_points ''k'', JList (map json_part key)), (code_points ''f'', JStr fingerprint)])"

definition stale_key_from_cursor ::
  "(nat list \<Rightarrow> ustring option) \<Rightarrow> string \<Rightarrow> ustring \<Rightarrow> page_error + key_part list" where
  "stale_key_from_cursor text_of cursor fingerprint =
     (case decode_cursor text_of cursor of
        None \<Rightarrow> Inl invalid_cursor
      | Some payload \<Rightarrow>
          if jget payload ''o'' \<noteq> Some (JStr (code_points ''stale'')) \<or> jget payload ''f'' \<noteq> Some (JStr fingerprint)
          then Inl invalid_cursor
          else case jget payload ''k'' of
                 Some (JList parts) \<Rightarrow>
                   (case parts_of [False, False, True] parts of
                      None \<Rightarrow> Inl invalid_cursor
                    | Some key \<Rightarrow> if keyed_by_uuid key then Inr key else Inl invalid_cursor)
               | _ \<Rightarrow> Inl invalid_cursor)"

record client_last_read_view =
  lv_client :: string
  lv_kind :: read_client_kind
  lv_last_read_at :: instant

record stale_page =
  sp_page :: dataset_page
  sp_est_bytes :: "uuid \<rightharpoonup> int"
  sp_last_reads :: "uuid \<rightharpoonup> client_last_read_view list"
  sp_stale_days :: int

definition client_reads_of :: "world \<Rightarrow> uuid list \<Rightarrow> uuid \<rightharpoonup> client_last_read_view list" where
  "client_reads_of w page_ids =
     (let items = (if page_ids \<noteq> [] \<and> usage_tables_exist (w_usage w) then read_client_last_reads page_ids (w_usage w) else [])
      in (\<lambda>i. if i \<in> set page_ids
              then Some (map (\<lambda>x. \<lparr>lv_client = lr_client x, lv_kind = lr_kind x, lv_last_read_at = lr_last_read_at x\<rparr>)
                     (filter (\<lambda>x. lr_dataset x = i) items))
              else None))"

definition stale_page_of ::
  "world \<Rightarrow> (ustring \<Rightarrow> ustring) \<Rightarrow> int option \<Rightarrow> stamp \<Rightarrow> client_filter \<Rightarrow> int \<Rightarrow> data_source option \<Rightarrow>
   string option \<Rightarrow> nat \<Rightarrow> freshness_config option \<Rightarrow> page_error + stale_page" where
  "stale_page_of w sha256_hex table_bytes now f stale_days source cursor limit config =
     bind_r (utc_today now) (\<lambda>_.
     let fingerprint = stale_fingerprint sha256_hex f stale_days source in
     bind_r (case cursor of
               None \<Rightarrow> Inr None
             | Some c \<Rightarrow> bind_r (stale_key_from_cursor (w_text_of w) c fingerprint) (\<lambda>k. Inr (Some k))) (\<lambda>after.
     bind_r (read_usage w None f (instant_of now)) (\<lambda>usage.
     let rows = filter (usage_predicate STALE usage (instant_of now) stale_days) (source_catalog w source);
         keyed = filter (after_key (stale_key usage) after) (sort_key (stale_key usage) rows);
         window = take (limit + 1) keyed;
         page_rows = take limit window;
         page_ids = map cat_id page_rows;
         storage = (if page_rows \<noteq> [] then read_bar_storage table_bytes (w_db w)
                    else \<lparr>bs_total_bytes = 0, bs_by_source = []\<rparr>);
         extents = bar_extents page_rows (w_db w) in
     bind_r (evaluate_views w page_rows (instant_of now) config) (\<lambda>views.
     bind_r (page_usage w page_ids (Some usage) f (instant_of now)) (\<lambda>usage_views.
       Inr \<lparr>sp_page = \<lparr>dp_views = views, dp_extents = extents, dp_siblings = siblings page_rows (w_db w),
              dp_next_cursor = (if length window > limit then stale_cursor fingerprint (stale_key usage (last page_rows)) else []),
              dp_as_of = instant_of now, dp_last_runs = latest_runs_for_datasets page_ids (w_db w), dp_usage = usage_views,
              dp_reaper_pending = pending_ids (instant_of now) (Some page_ids) (w_db w), dp_clients = f\<rparr>,
            sp_est_bytes = (\<lambda>i. if i \<in> set page_ids
                then Some (estimate_bytes (be_count (the (extents i))) (bs_total_bytes storage) (total_bars_of storage)) else None),
            sp_last_reads = client_reads_of w page_ids, sp_stale_days = stale_days\<rparr>)))))"

section \<open>The stale list is keyset paged\<close>

definition stale_key_fits :: "key_part list \<Rightarrow> bool" where
  "stale_key_fits key \<longleftrightarrow> map is_text key = [False, False, True] \<and> list_all part_ok key \<and> keyed_by_uuid key"

lemma stale_payload_ok:
  "list_all (\<lambda>c. c < 256) fp \<Longrightarrow> stale_key_fits key \<Longrightarrow>
     payload_ok (JObj [(code_points ''o'', JStr (code_points ''stale'')), (code_points ''k'', JList (map json_part key)),
       (code_points ''f'', JStr fp)])"
  using code_points_small payload_parts by (simp add: stale_key_fits_def)

lemma stale_cursor_reads:
  assumes "reads_ascii text_of" and fp: "list_all (\<lambda>c. c < 256) fp" and key: "stale_key_fits key"
  shows "stale_key_from_cursor text_of (stale_cursor fp key) fp' = (if fp' = fp then Inr key else Inl invalid_cursor)"
proof -
  have "decode_cursor text_of (stale_cursor fp key) = Some [(code_points ''o'', JStr (code_points ''stale'')),
      (code_points ''k'', JList (map json_part key)), (code_points ''f'', JStr fp)]"
    unfolding stale_cursor_def by (rule cursor_round_trip [OF assms(1) stale_payload_ok [OF fp key]])
  moreover have "parts_of [False, False, True] (map json_part key) = Some key"
    using parts_round_trip [of key] key by (simp only: stale_key_fits_def)
  ultimately show ?thesis using key by (auto simp: stale_key_from_cursor_def jget_def stale_key_fits_def)
qed

interpretation stale_keys: keyset_pages "stale_key usage" "stale_cursor fp"
  "\<lambda>c. right_of (stale_key_from_cursor text_of c fp)"
  "\<lambda>key. reads_ascii text_of \<and> list_all (\<lambda>c. c < 256) fp \<and> stale_key_fits key"
  for usage fp text_of
proof unfold_locales
  fix key
  assume k: "reads_ascii text_of \<and> list_all (\<lambda>c. c < 256) fp \<and> stale_key_fits key"
  then show "right_of (stale_key_from_cursor text_of (stale_cursor fp key) fp) = Some key" by (simp add: stale_cursor_reads)
  show "stale_cursor fp key \<noteq> []"
    unfolding stale_cursor_def by (rule cursor_not_empty [where text_of = text_of, OF _ stale_payload_ok]) (use k in simp_all)
qed

lemma stale_row_fits:
  assumes ok: "world_ok w" and r: "r \<in> set (list_catalog cf (w_db w))" and u: "read_usage w None f now = Inr usage"
  shows "stale_key_fits (stale_key usage r)"
proof -
  have id: "uuid_of (uuid_text (cat_id r)) = Some (cat_id r)"
    using ok r by (intro uuid_round_trip) (auto simp: world_ok_def list_all_iff catalog_row_from)
  have "int_ok t" if "last_read usage (cat_id r) = Some t" for t
    using last_read_representable [OF ok u that] representable_int_ok by blast
  moreover have "int_ok 0" "int_ok 1" by (simp_all add: int_ok_def decimal.simps)
  ultimately show ?thesis
    by (auto simp: stale_key_def stale_key_fits_def id uuid_text_small keyed_by_uuid_def split: option.split)
qed

lemma stale_keys_distinct:
  assumes ok: "world_ok w"
  shows "distinct (map (stale_key usage) (filter P (list_catalog cf (w_db w))))"
proof -
  let ?R = "filter P (list_catalog cf (w_db w))"
  have R: "distinct (map cat_id ?R)"
    using ok by (intro distinct_map_filter prefix_ids_distinct) (simp add: world_ok_def)
  have small: "cat_id r < 2 ^ 128" if "r \<in> set ?R" for r
    using ok that by (auto simp: catalog_row_from world_ok_def list_all_iff)
  have tail: "last (stale_key usage r) = KStr (uuid_text (cat_id r))" for r by (simp add: stale_key_def split: option.split)
  have "inj_on (stale_key usage) (set ?R)"
  proof (rule inj_onI)
    fix r s
    assume rs: "r \<in> set ?R" "s \<in> set ?R" and e: "stale_key usage r = stale_key usage s"
    have "uuid_text (cat_id r) = uuid_text (cat_id s)" using tail [of r] tail [of s] e by simp
    then have "cat_id r = cat_id s" using uuid_text_inj [OF small [OF rs(1)] small [OF rs(2)]] by blast
    then show "r = s" using R rs by (simp only: distinct_map inj_on_def)
  qed
  moreover have "distinct ?R" using R by (simp only: distinct_map)
  ultimately show ?thesis by (simp only: distinct_map)
qed

definition stale_step ::
  "world \<Rightarrow> (ustring \<Rightarrow> ustring) \<Rightarrow> int option \<Rightarrow> instant \<Rightarrow> client_filter \<Rightarrow> int \<Rightarrow> data_source option \<Rightarrow> nat \<Rightarrow>
   freshness_config option \<Rightarrow> string option \<Rightarrow> page_error + catalog_row list \<times> string" where
  "stale_step w sha256_hex table_bytes now f stale_days source limit config c =
     map_right (\<lambda>p. (map dv_row (dp_views (sp_page p)), dp_next_cursor (sp_page p)))
       (stale_page_of w sha256_hex table_bytes (Aware now) f stale_days source c limit config)"

definition stale_rows ::
  "world \<Rightarrow> (uuid \<rightharpoonup> dataset_usage) \<Rightarrow> instant \<Rightarrow> int \<Rightarrow> data_source option \<Rightarrow> catalog_row list" where
  "stale_rows w usage now stale_days source = filter (usage_predicate STALE usage now stale_days) (source_catalog w source)"

lemma stale_page_shown:
  assumes judge: "judgeable w now config" and limit: "0 < limit" and u: "read_usage w None f now = Inr usage"
    and c: "(case c of None \<Rightarrow> Inr None
             | Some c \<Rightarrow> bind_r (stale_key_from_cursor (w_text_of w) c (stale_fingerprint sha256_hex f stale_days source)) (\<lambda>k. Inr (Some k))) = Inr after"
  shows "stale_step w sha256_hex table_bytes now f stale_days source limit config c =
    Inr (keyset_page (stale_key usage) (stale_cursor (stale_fingerprint sha256_hex f stale_days source)) limit
      (stale_rows w usage now stale_days source) after)"
proof -
  let ?K = "filter (after_key (stale_key usage) after) (sort_key (stale_key usage) (stale_rows w usage now stale_days source))"
  let ?rows = "take limit (take (limit + 1) ?K)"
  have "set ?rows \<subseteq> set (source_catalog w source)" by (auto simp: stale_rows_def dest!: in_set_takeD)
  then have sub: "set ?rows \<subseteq> catalog_rows w" using list_catalog_rows by (rule order_trans)
  note ev = evaluate_views_judged [OF judge sub]
  have "dv_row (judged_view w now config r) = r" if "r \<in> set ?rows" for r
    by (rule judged_row [OF judge]) (use sub that in blast)
  then have rows: "map dv_row (map (judged_view w now config) ?rows) = ?rows" unfolding map_map comp_def by (rule map_idI)
  obtain m where m: "page_usage w (map cat_id ?rows) (Some usage) f now = Inr m" using page_usage_aware by blast
  show ?thesis
    unfolding stale_step_def stale_page_of_def c u utc_today_def stamp.case bind_r.simps Let_def instant_of.simps
      keyset_page_def stale_rows_def [symmetric] ev m
    by (simp only: bind_r.simps map_right.simps stale_page.simps dataset_page.simps rows)
qed

lemma stale_walk:
  assumes ok: "world_ok w" and judge: "judgeable w now config" and limit: "0 < limit" and u: "read_usage w None f now = Inr usage"
    and hex: "list_all (\<lambda>c. c < 256) (stale_fingerprint sha256_hex f stale_days source)"
  shows "\<exists>ps. walk_pages (stale_step w sha256_hex table_bytes now f stale_days source limit config) None = Some ps
    \<and> concat ps = sort_key (stale_key usage) (stale_rows w usage now stale_days source)
    \<and> length ps = page_count limit (length (stale_rows w usage now stale_days source)) \<and> (\<forall>p\<in>set ps. length p \<le> limit)"
proof -
  let ?S = "stale_rows w usage now stale_days source" and ?fp = "stale_fingerprint sha256_hex f stale_days source"
  have keys: "distinct (map (stale_key usage) ?S)" unfolding stale_rows_def by (rule stale_keys_distinct [OF ok])
  have fits: "reads_ascii (w_text_of w) \<and> list_all (\<lambda>c. c < 256) ?fp \<and> stale_key_fits (stale_key usage r)" if "r \<in> set ?S" for r
    using that stale_row_fits [OF ok _ u] hex ok by (auto simp: stale_rows_def world_ok_def)
  have page: "stale_step w sha256_hex table_bytes now f stale_days source limit config c =
      Inr (keyset_page (stale_key usage) (stale_cursor ?fp) limit ?S after)"
    if "(case c of None \<Rightarrow> Inr None | Some c \<Rightarrow> bind_r (stale_key_from_cursor (w_text_of w) c ?fp) (\<lambda>k. Inr (Some k))) = Inr after"
    for c after by (rule stale_page_shown [OF judge limit u that])
  show ?thesis
  proof (rule stale_keys.walk_all [OF keys fits limit])
    show "stale_step w sha256_hex table_bytes now f stale_days source limit config (Some s) =
        Inr (keyset_page (stale_key usage) (stale_cursor ?fp) limit ?S (Some k))"
      if "right_of (stale_key_from_cursor (w_text_of w) s ?fp) = Some k" for s k
      by (rule page) (use that in \<open>cases "stale_key_from_cursor (w_text_of w) s ?fp"; simp\<close>)
    show "stale_step w sha256_hex table_bytes now f stale_days source limit config None =
        Inr (keyset_page (stale_key usage) (stale_cursor ?fp) limit ?S None)" by (rule page) simp
  qed
qed

section \<open>Properties\<close>

text \<open>The catalog list under a usage filter, with no other filter but the source.\<close>

definition usage_query :: "client_filter \<Rightarrow> int \<Rightarrow> data_source option \<Rightarrow> usage_filter option \<Rightarrow> nat \<Rightarrow> catalog_query" where
  "usage_query f stale_days source usage limit =
     \<lparr>q_filter = \<lparr>cf_prefix = None, cf_source = source, cf_update_type = None\<rparr>, q_status = None, q_attention = False,
      q_running = False, q_clients = f, q_usage = usage, q_stale_days = stale_days, q_expires_before = None,
      q_sort = SYMBOL, q_cursor = None, q_limit = limit\<rparr>"

lemma usage_query_total:
  assumes ok: "world_ok w" and judge: "judgeable w now config" and limit: "0 < limit" and u: "read_usage w None f now = Inr usage"
  shows "list_total w (usage_query f stale_days source g limit) now config =
    Some (number (\<lambda>r. case g of None \<Rightarrow> True | Some g \<Rightarrow> usage_predicate g usage now stale_days r) (source_catalog w source))"
proof -
  let ?q = "usage_query f stale_days source g limit"
  obtain ua where ua: "usage_for_all w ?q now = Inr ua" using usage_for_all_aware by blast
  have "listed w ?q now config ua =
      filter (\<lambda>r. case g of None \<Rightarrow> True | Some g \<Rightarrow> usage_predicate g usage now stale_days r) (source_catalog w source)"
  proof (cases g)
    case None
    then show ?thesis by (simp add: listed_def usage_query_def)
  next
    case (Some a)
    then have "ua = Some usage" using ua u by (simp add: usage_for_all_def usage_query_def)
    then show ?thesis using Some by (simp add: listed_def usage_query_def)
  qed
  moreover have "list_total w ?q now config = Some (number (passes w ?q now) (prefix_views w ?q now config))"
    using limit by (intro list_total_number [OF ok judge]) (simp add: usage_query_def)
  moreover have "number (passes w ?q now) (prefix_views w ?q now config) = length (listed w ?q now config ua)"
    using arg_cong [OF listed_passes [OF judge ua], of length] by simp
  ultimately show ?thesis by simp
qed

lemma summary_figures:
  assumes u: "read_usage w None f now = Inr usage" and s: "usage_summary_of w (Aware now) f stale_days source = Inr su"
  shows "su_stale su = number (usage_predicate STALE usage now stale_days) (source_catalog w source)"
    and "su_read_last_30d su = number (usage_predicate READ_30D usage now stale_days) (source_catalog w source)"
    and "su_never_read su = number (usage_predicate NEVER_READ usage now stale_days) (source_catalog w source)"
    and "su_total su = length (source_catalog w source)"
proof -
  have p: "usage_predicate STALE usage now stale_days = (\<lambda>r. \<not> read_within (last_read usage (cat_id r)) now stale_days)"
    "usage_predicate READ_30D usage now stale_days = (\<lambda>r. read_within (last_read usage (cat_id r)) now 30)"
    "usage_predicate NEVER_READ usage now stale_days = (\<lambda>r. last_read usage (cat_id r) = None)"
    by (simp_all add: usage_predicate_def fun_eq_iff)
  show "su_stale su = number (usage_predicate STALE usage now stale_days) (source_catalog w source)"
    "su_read_last_30d su = number (usage_predicate READ_30D usage now stale_days) (source_catalog w source)"
    "su_never_read su = number (usage_predicate NEVER_READ usage now stale_days) (source_catalog w source)"
    "su_total su = length (source_catalog w source)"
    using s unfolding p by (auto simp: usage_summary_of_def utc_today_def u Let_def comp_def bind_r_Inr_iff)
qed

lemma read_day_reads_aware: "\<exists>m. read_day_reads w ids f (Aware now) days = Inr m"
  by (simp add: read_day_reads_def read_client_day_reads_def window_start_day_def)

lemma usage_summary_aware: "\<exists>su. usage_summary_of w (Aware now) f stale_days source = Inr su"
proof -
  obtain usage where u: "read_usage w None f now = Inr usage" using read_usage_aware by blast
  obtain m where "read_day_reads w (if source = None then None else Some (map cat_id (source_catalog w source))) f (Aware now) 1 = Inr m"
    using read_day_reads_aware by blast
  then show ?thesis by (simp add: usage_summary_of_def utc_today_def u Let_def)
qed

text \<open>Every view of staleness counts the same datasets: for one client filter, threshold and source, the paged
  stale list walked to its end, the catalog list under the STALE filter and the summary's figure have the same
  total, the summary's other figures equal the catalog list's totals, and stale and read within the threshold
  are complementary.\<close>

theorem stale_views_agree:
  assumes "world_ok w" and "judgeable w now config" and "0 < limit"
    and "list_all (\<lambda>c. c < 256) (stale_fingerprint sha256_hex f stale_days source)"
    and "usage_summary_of w (Aware now) f stale_days source = Inr su"
  shows "\<exists>ps. walk_pages (stale_step w sha256_hex table_bytes now f stale_days source limit config) None = Some ps
    \<and> distinct (map cat_id (concat ps)) \<and> length (concat ps) = su_stale su
    \<and> list_total w (usage_query f stale_days source (Some STALE) limit) now config = Some (su_stale su)
    \<and> list_total w (usage_query f stale_days source (Some READ_30D) limit) now config = Some (su_read_last_30d su)
    \<and> list_total w (usage_query f stale_days source (Some NEVER_READ) limit) now config = Some (su_never_read su)
    \<and> list_total w (usage_query f stale_days source None limit) now config = Some (su_total su)
    \<and> (stale_days = 30 \<longrightarrow> su_stale su + su_read_last_30d su = su_total su) \<and> su_never_read su \<le> su_stale su"
proof -
  obtain usage where u: "read_usage w None f now = Inr usage" using read_usage_aware by blast
  note total = usage_query_total [OF assms(1-3) u] and figures = summary_figures [OF u assms(5)]
  from stale_walk [OF assms(1-3) u assms(4)] obtain ps where ps:
    "walk_pages (stale_step w sha256_hex table_bytes now f stale_days source limit config) None = Some ps"
    "concat ps = sort_key (stale_key usage) (stale_rows w usage now stale_days source)" by blast
  have "distinct (map cat_id (stale_rows w usage now stale_days source))"
    unfolding stale_rows_def using assms(1) by (intro distinct_map_filter prefix_ids_distinct) (simp add: world_ok_def)
  moreover have "distinct (map f (sort_key g xs)) \<longleftrightarrow> distinct (map f xs)" for f g and xs :: "catalog_row list"
    by (simp add: distinct_map)
  ultimately have dist: "distinct (map cat_id (concat ps))" unfolding ps(2) by blast
  have len: "length (concat ps) = su_stale su" unfolding ps(2) figures by (simp add: stale_rows_def)
  have comp: "number (\<lambda>r. \<not> P r) xs + number P xs = length xs" for P and xs :: "catalog_row list" by (induction xs) simp_all
  have all: "su_stale su + su_read_last_30d su = su_total su" if "stale_days = 30"
  proof -
    have "usage_predicate STALE usage now 30 = (\<lambda>r. \<not> usage_predicate READ_30D usage now 30 r)"
      by (simp add: usage_predicate_def fun_eq_iff)
    then show ?thesis using comp [of "usage_predicate READ_30D usage now 30"] that unfolding figures by simp
  qed
  have mono: "number P xs \<le> number Q xs" if "\<And>x. P x \<Longrightarrow> Q x" for P Q and xs :: "catalog_row list"
    using that by (induction xs) auto
  have never: "su_never_read su \<le> su_stale su"
    unfolding figures by (rule mono) (simp add: usage_predicate_def read_within_def)
  show ?thesis using ps(1) dist len all never total [of stale_days source "Some STALE"] total [of stale_days source "Some READ_30D"]
      total [of stale_days source "Some NEVER_READ"] total [of stale_days source None]
    by (intro exI [of _ ps] conjI) (simp_all add: figures)
qed

theorem stale_views_agree_witness:
  "\<exists>su. usage_summary_of sample_world (Aware one_day) default_clients 90 None = Inr su
     \<and> list_total sample_world (usage_query default_clients 90 None (Some STALE) 1) one_day None = Some (su_stale su)"
proof -
  let ?hex = "\<lambda>s :: ustring. replicate 64 (48 :: nat)"
  have hex: "list_all (\<lambda>c. c < 256) (stale_fingerprint ?hex default_clients 90 None)"
    by (auto simp: stale_fingerprint_def list_all_iff dest!: in_set_takeD)
  obtain su where "usage_summary_of sample_world (Aware one_day) default_clients 90 None = Inr su"
    using usage_summary_aware by blast
  with stale_views_agree [OF sample_world_ok sample_judgeable _ hex this, of 1 None] show ?thesis by auto
qed

lemma bucket_position_eq:
  "0 \<le> days \<Longrightarrow> bucket_position days = (if days < 1 then 0 else if days < 8 then 1 else if days < 31 then 2 else if days < 91 then 3 else 4)"
  by (simp add: bucket_position_def LAST_READ_BUCKET_STARTS_def)

text \<open>Which bucket a last read falls in.\<close>

definition bucket_of :: "day \<Rightarrow> instant option \<Rightarrow> nat option" where
  "bucket_of today l = map_option (\<lambda>t. bucket_position (max 0 (today - utc_day t))) l"

lemma count_last_reads_numbers:
  assumes "length counts = 5"
  shows "count_last_reads today ls (counts, never) =
    (map (\<lambda>p. counts ! p + number (\<lambda>l. bucket_of today l = Some p) ls) [0..<5], never + number (\<lambda>l. l = None) ls)"
  using assms
proof (induction ls arbitrary: counts never)
  case Nil
  then show ?case using map_nth [of counts] by simp
next
  case (Cons l ls)
  show ?case
  proof (cases l)
    case None
    then show ?thesis using Cons by (simp add: bucket_of_def)
  next
    case (Some t)
    let ?p = "bucket_position (max 0 (today - utc_day t))"
    have p: "?p < 5" by (simp add: bucket_position_eq)
    have "map (\<lambda>i. counts[?p := counts ! ?p + 1] ! i + number (\<lambda>l. bucket_of today l = Some i) ls) [0..<5] =
        map (\<lambda>i. counts ! i + number (\<lambda>l. bucket_of today l = Some i) (l # ls)) [0..<5]"
      using Cons.prems p Some by (auto simp: nth_list_update bucket_of_def)
    then show ?thesis using Cons.IH [of "counts[?p := counts ! ?p + 1]"] Cons.prems Some by (simp add: Let_def)
  qed
qed

lemma count_from_zero:
  "count_last_reads today ls (replicate (length LAST_READ_BUCKET_STARTS) 0, 0) =
     (map (\<lambda>p. number (\<lambda>l. bucket_of today l = Some p) ls) [0..<5], number (\<lambda>l. l = None) ls)"
proof -
  have "length LAST_READ_BUCKET_STARTS = 5" by (simp add: LAST_READ_BUCKET_STARTS_def)
  moreover have "map (\<lambda>p. replicate 5 0 ! p + f p) [0..<5] = map f [0..<5]" for f :: "nat \<Rightarrow> nat" by (rule map_cong) auto
  ultimately show ?thesis using count_last_reads_numbers [of "replicate 5 0" today ls 0] by simp
qed

lemma numbers_partition:
  "sum_list (map (\<lambda>p. number (\<lambda>l. bucket_of today l = Some p) ls) [0..<5]) + number (\<lambda>l. l = None) ls = length ls"
proof (induction ls)
  case (Cons l ls)
  have "sum_list (map (\<lambda>p. number (\<lambda>l. bucket_of today l = Some p) (l # ls)) [0..<5]) =
      sum_list (map (\<lambda>p. number (\<lambda>l. bucket_of today l = Some p) ls) [0..<5]) + (if l = None then 0 else 1)"
  proof (cases l)
    case (Some t)
    let ?p = "bucket_position (max 0 (today - utc_day t))"
    have "?p < 5" by (simp add: bucket_position_eq)
    then have "?p \<in> {0, 1, 2, 3, 4}" by auto
    then show ?thesis using Some by (auto simp: bucket_of_def upt_rec)
  qed (simp add: bucket_of_def)
  then show ?case using Cons by simp
qed (simp add: upt_rec)

text \<open>The last-read buckets partition the datasets: there are five, half-open and adjoining, the last one open;
  each counts the datasets whose last read lies that many whole UTC days back (a read dated after today counts as
  today's), and with the never-read ones they add up to every dataset of the source.\<close>

theorem last_read_buckets_partition:
  assumes "last_read_buckets_of w (Aware now) f source = Inr b" and "read_usage w None f now = Inr usage"
  shows "map (\<lambda>(a, e, n). (a, e)) (lb_buckets b) = [(0, Some 1), (1, Some 8), (8, Some 31), (31, Some 91), (91, None)]
    \<and> (\<forall>(a, e, n)\<in>set (lb_buckets b). n = number (\<lambda>row. \<exists>t. last_read usage (cat_id row) = Some t \<and>
          a \<le> max 0 (utc_day now - utc_day t) \<and> (case e of None \<Rightarrow> True | Some e \<Rightarrow> max 0 (utc_day now - utc_day t) < e))
        (source_catalog w source))
    \<and> sum_list (map (\<lambda>(a, e, n). n) (lb_buckets b)) + lb_never_read b = length (source_catalog w source)"
proof -
  let ?ls = "map (\<lambda>row. last_read usage (cat_id row)) (source_catalog w source)"
  let ?n = "\<lambda>p. number (\<lambda>l. bucket_of (utc_day now) l = Some p) ?ls"
  have five: "[0..<5] = [0, 1, 2, 3, 4 :: nat]" by (simp add: upt_rec)
  have c: "count_last_reads (utc_day now) ?ls (replicate (length LAST_READ_BUCKET_STARTS) 0, 0) =
      ([?n 0, ?n 1, ?n 2, ?n 3, ?n 4], number (\<lambda>l. l = None) ?ls)"
    unfolding count_from_zero five by (simp only: list.map)
  have b: "lb_buckets b = [(0, Some 1, ?n 0), (1, Some 8, ?n 1), (8, Some 31, ?n 2), (31, Some 91, ?n 3), (91, None, ?n 4)]"
    "lb_never_read b = number (\<lambda>l. l = None) ?ls"
    using assms(1) unfolding last_read_buckets_of_def utc_today_def stamp.case bind_r.simps instant_of.simps assms(2) Let_def c
    by (auto simp: LAST_READ_BUCKET_STARTS_def)
  have "?n p = number (\<lambda>row. \<exists>t. last_read usage (cat_id row) = Some t \<and> lo \<le> max 0 (utc_day now - utc_day t) \<and>
        (case e of None \<Rightarrow> True | Some e \<Rightarrow> max 0 (utc_day now - utc_day t) < e)) (source_catalog w source)"
    if "\<And>d. 0 \<le> d \<Longrightarrow> bucket_position d = p \<longleftrightarrow> lo \<le> d \<and> (case e of None \<Rightarrow> True | Some e \<Rightarrow> d < e)" for p lo e
    using that by (simp add: bucket_of_def comp_def)
  from this [of 0 0 "Some 1"] this [of 1 1 "Some 8"] this [of 2 8 "Some 31"] this [of 3 31 "Some 91"] this [of 4 91 None]
  have "\<forall>(a, e, n)\<in>set (lb_buckets b). n = number (\<lambda>row. \<exists>t. last_read usage (cat_id row) = Some t \<and>
      a \<le> max 0 (utc_day now - utc_day t) \<and> (case e of None \<Rightarrow> True | Some e \<Rightarrow> max 0 (utc_day now - utc_day t) < e))
      (source_catalog w source)" by (simp add: b bucket_position_eq)
  moreover have "sum_list (map (\<lambda>(a, e, n). n) (lb_buckets b)) + lb_never_read b = length ?ls"
    using numbers_partition [of "utc_day now" ?ls] by (simp add: b five)
  ultimately show ?thesis by (simp add: b(1))
qed

theorem last_read_buckets_partition_witness:
  "\<exists>b. last_read_buckets_of sample_world (Aware one_day) default_clients None = Inr b
     \<and> sum_list (map (\<lambda>(a, e, n). n) (lb_buckets b)) + lb_never_read b = 2"
proof -
  obtain usage where u: "read_usage sample_world None default_clients one_day = Inr usage" using read_usage_aware by blast
  have "\<exists>b. last_read_buckets_of sample_world (Aware one_day) default_clients None = Inr b"
    by (simp add: last_read_buckets_of_def utc_today_def u Let_def split_beta)
  then obtain b where b: "last_read_buckets_of sample_world (Aware one_day) default_clients None = Inr b" by blast
  have "length (source_catalog sample_world None) = 2"
    by (simp add: list_catalog_def sample_world_def catalog_filter_matches_def)
  then show ?thesis using last_read_buckets_partition [OF b u] b by auto
qed

lemma estimate_parts:
  fixes bytes :: int
  assumes "0 < N"
  shows "int N * sum_list (map (\<lambda>n. estimate_bytes n bytes N) ns) \<le> int (sum_list ns) * bytes
    \<and> int (sum_list ns) * bytes \<le> int N * sum_list (map (\<lambda>n. estimate_bytes n bytes N) ns) + (int N - 1) * int (length ns)"
proof (induction ns)
  case (Cons n ns)
  have "int n * bytes = int N * estimate_bytes n bytes N + (int n * bytes) mod int N"
    using assms by (simp add: estimate_bytes_def)
  moreover have "0 \<le> (int n * bytes) mod int N" "(int n * bytes) mod int N \<le> int N - 1"
    using assms by (simp, simp add: pos_mod_bound zle_diff1_eq)
  ultimately show ?case using Cons by (simp add: algebra_simps)
qed simp

lemma estimate_sum:
  assumes "0 < sum_list ns"
  shows "sum_list (map (\<lambda>n. estimate_bytes n bytes (sum_list ns)) ns) \<le> bytes
    \<and> bytes < sum_list (map (\<lambda>n. estimate_bytes n bytes (sum_list ns)) ns) + int (length ns)"
proof -
  let ?S = "sum_list (map (\<lambda>n. estimate_bytes n bytes (sum_list ns)) ns)" and ?N = "int (sum_list ns)"
  have N: "0 < ?N" using assms by simp
  note parts = estimate_parts [OF assms, of bytes ns]
  have low: "?S \<le> bytes" using parts N by (simp add: mult_le_cancel_left_pos)
  have "ns \<noteq> []" using assms by auto
  then have "(?N - 1) * int (length ns) < ?N * int (length ns)" by simp
  then have "?N * bytes < ?N * (?S + int (length ns))" using parts by (simp only: distrib_left) linarith
  then show ?thesis using low N by (simp add: mult_less_cancel_left_pos)
qed

text \<open>Every bar is counted under its source and tape.\<close>

lemma storage_counts:
  "sum_list (map (\<lambda>(s, f, n). n) (bs_by_source (read_bar_storage table_bytes d))) = length (bars d)"
proof -
  let ?g = "grouped (\<lambda>b. (b_source b, b_feed b)) (bars d)" and ?m = "\<lambda>((s, f), bs). (s, f, length bs)"
  have "sum_list (map g (sort_key k xs)) = sum_list (map g xs)" for g :: "data_source \<times> feed \<times> nat \<Rightarrow> nat" and k :: "_ \<Rightarrow> nat \<times> nat" and xs
    by (metis mset_map mset_sort sum_mset_sum_list)
  then have "sum_list (map (\<lambda>(s, f, n). n) (bs_by_source (read_bar_storage table_bytes d))) =
      sum_list (map (\<lambda>(s, f, n). n) (map ?m ?g))" by (simp add: read_bar_storage_def)
  also have "\<dots> = sum_list (map (\<lambda>x. length (snd x)) (filter (\<lambda>x. True) ?g))" by (simp add: comp_def split_beta)
  also have "\<dots> = sum_list (map (\<lambda>_. 1) (filter (\<lambda>_. True) (bars d)))"
    by (rule grouped_sum) (simp add: length_sum)
  finally show ?thesis by (simp add: sum_list_triv)
qed

text \<open>The storage split is an estimate that loses less than one byte per part: without a source the shares add
  up to at most the measured size, and to it within one byte for each share; with a source the reported total is
  the sum of its shares. No share is negative, and every bar is in exactly one.\<close>

theorem storage_split_sums_to_total:
  assumes "0 \<le> bytes" and "bars d \<noteq> []"
    and "storage_current_of (Some bytes) d (Aware now) None = Inr whole"
    and "storage_current_of (Some bytes) d (Aware now) (Some src) = Inr part"
  shows "sc_total_bytes whole = bytes
    \<and> sum_list (map sh_est_bytes (sc_by_source whole)) \<le> bytes
    \<and> bytes < sum_list (map sh_est_bytes (sc_by_source whole)) + int (length (sc_by_source whole))
    \<and> sum_list (map sh_bar_count (sc_by_source whole)) = length (bars d)
    \<and> (\<forall>s\<in>set (sc_by_source whole). 0 \<le> sh_est_bytes s)
    \<and> sc_total_bytes part = sum_list (map sh_est_bytes (sc_by_source part))
    \<and> sc_by_source part = filter (\<lambda>s. sh_source s = src) (sc_by_source whole)"
proof -
  let ?st = "read_bar_storage (Some bytes) d"
  let ?ns = "map (\<lambda>(s, f, n). n) (bs_by_source ?st)"
  let ?share = "\<lambda>(s, f, n). \<lparr>sh_source = s, sh_feed = f, sh_bar_count = n, sh_est_bytes = estimate_bytes n bytes (sum_list ?ns)\<rparr>"
  have t: "bs_total_bytes ?st = bytes" by (simp add: read_bar_storage_def)
  have w: "sc_total_bytes whole = bytes" "sc_by_source whole = map ?share (bs_by_source ?st)"
    using assms(3) by (auto simp: storage_current_of_def utc_today_def Let_def t total_bars_of_def)
  have p: "sc_by_source part = map ?share (filter (\<lambda>(s, f, n). s = src) (bs_by_source ?st))"
    "sc_total_bytes part = sum_list (map sh_est_bytes (sc_by_source part))"
    using assms(4) by (auto simp: storage_current_of_def utc_today_def Let_def t total_bars_of_def)
  have est: "map sh_est_bytes (sc_by_source whole) = map (\<lambda>n. estimate_bytes n bytes (sum_list ?ns)) ?ns"
    unfolding w(2) by (simp add: comp_def split_beta)
  have n: "map sh_bar_count (sc_by_source whole) = ?ns" unfolding w(2) by (simp add: comp_def split_beta)
  have "0 < sum_list ?ns" using assms(2) by (simp add: storage_counts)
  note sum = estimate_sum [OF this, of bytes]
  have "filter (\<lambda>s. sh_source s = src) (sc_by_source whole) = sc_by_source part"
  proof -
    have "(\<lambda>(s, f, n). s = src) = (\<lambda>x. sh_source (?share x) = src)" by (simp add: fun_eq_iff)
    then show ?thesis unfolding w(2) p(1) filter_map comp_def by (simp only:)
  qed
  moreover have "\<forall>s\<in>set (sc_by_source whole). 0 \<le> sh_est_bytes s"
    unfolding w(2) using assms(1) by (auto simp: estimate_bytes_def div_int_pos_iff)
  moreover have "length (sc_by_source whole) = length ?ns" unfolding w(2) by simp
  ultimately show ?thesis using w(1) p(2) sum est n storage_counts [of "Some bytes" d] by simp
qed

theorem storage_split_sums_to_total_witness:
  "\<exists>whole. storage_current_of (Some 99) bars_db (Aware 0) None = Inr whole
     \<and> sum_list (map sh_bar_count (sc_by_source whole)) = 5"
proof -
  have "\<exists>s. storage_current_of (Some 99) bars_db (Aware 0) src = Inr s" for src
    by (simp add: storage_current_of_def utc_today_def Let_def)
  then obtain whole part where s: "storage_current_of (Some 99) bars_db (Aware 0) None = Inr whole"
    "storage_current_of (Some 99) bars_db (Aware 0) (Some ALPACA_API) = Inr part" by metis
  have "bars bars_db \<noteq> []" "length (bars bars_db) = 5" by (simp_all add: bars_db_def)
  with storage_split_sums_to_total [OF _ _ s] s(1) show ?thesis by auto
qed

end
