(* ===== verification/Catalog_Bars.thy ===== *)
theory Catalog_Bars
  imports Catalog_Pending
begin

text \<open>
  One dataset's runs and bars, page by page, and the page index: \<open>run_page\<close>, \<open>bar_page\<close> and \<open>bar_page_index\<close> of
  \<open>server/data/store/app/dataset_catalog.py\<close>. The text of an instant in a cursor is an argument: \<open>it_format\<close> is
  \<open>datetime.isoformat\<close> and \<open>it_parse\<close> is \<open>datetime.fromisoformat\<close> (\<open>None\<close> for \<open>ValueError\<close>), of which only
  their documented inverse law on the instants at hand is relied on (\<open>reads_back\<close>).
\<close>

record iso_text =
  it_format :: "instant \<Rightarrow> ustring"
  it_parse :: "ustring \<Rightarrow> stamp option"

definition reads_back :: "iso_text \<Rightarrow> instant \<Rightarrow> bool" where
  "reads_back fmt t \<longleftrightarrow> it_parse fmt (it_format fmt t) = Some (Aware t) \<and> list_all (\<lambda>c. c < 256) (it_format fmt t)"

section \<open>Runs\<close>

definition run_cursor :: "iso_text \<Rightarrow> instant \<times> uuid \<Rightarrow> string" where
  "run_cursor fmt k =
     encode_cursor (JObj [(code_points ''o'', JStr (code_points ''runs'')),
       (code_points ''k'', JList [JStr (it_format fmt (fst k)), JStr (uuid_text (snd k))])])"

definition run_cursor_key ::
  "(nat list \<Rightarrow> ustring option) \<Rightarrow> iso_text \<Rightarrow> string \<Rightarrow> page_error + instant \<times> uuid" where
  "run_cursor_key text_of fmt cursor =
     (case decode_cursor text_of cursor of
        None \<Rightarrow> Inl invalid_cursor
      | Some payload \<Rightarrow>
          if jget payload ''o'' \<noteq> Some (JStr (code_points ''runs'')) then Inl invalid_cursor
          else case jget payload ''k'' of
                 Some (JList [JStr started_at, JStr run_id]) \<Rightarrow>
                   (case (it_parse fmt started_at, uuid_of run_id) of
                      (Some (Aware t), Some i) \<Rightarrow> Inr (t, i)
                    | _ \<Rightarrow> Inl invalid_cursor)
               | _ \<Rightarrow> Inl invalid_cursor)"

record run_page =
  rp_runs :: "run_row list"
  rp_next_cursor :: string

definition run_page_of ::
  "world \<Rightarrow> iso_text \<Rightarrow> uuid \<Rightarrow> string option \<Rightarrow> nat \<Rightarrow> page_error + run_page option" where
  "run_page_of w fmt dataset_id cursor limit =
     bind_r (case cursor of
               None \<Rightarrow> Inr None
             | Some c \<Rightarrow> bind_r (run_cursor_key (w_text_of w) fmt c) (\<lambda>k. Inr (Some k))) (\<lambda>after.
     if \<not> dataset_exists dataset_id (w_db w) then Inr None
     else let runs = list_runs_for_dataset dataset_id (limit + 1) after (w_db w);
              page = take limit runs
          in Inr (Some \<lparr>rp_runs = page,
               rp_next_cursor = (if length runs > limit then run_cursor fmt (run_order (last page)) else [])\<rparr>))"

section \<open>Bars\<close>

definition bar_cursor :: "iso_text \<Rightarrow> instant \<Rightarrow> string" where
  "bar_cursor fmt t = encode_cursor (JObj [(code_points ''t'', JStr (it_format fmt t))])"

definition bar_cursor_timestamp :: "(nat list \<Rightarrow> ustring option) \<Rightarrow> iso_text \<Rightarrow> string \<Rightarrow> page_error + instant" where
  "bar_cursor_timestamp text_of fmt cursor =
     (case decode_cursor text_of cursor of
        None \<Rightarrow> Inl invalid_cursor
      | Some payload \<Rightarrow>
          (case jget payload ''t'' of
             Some (JStr raw) \<Rightarrow>
               if fst ` set payload \<noteq> {code_points ''t''} then Inl invalid_cursor
               else (case it_parse fmt raw of Some (Aware t) \<Rightarrow> Inr t | _ \<Rightarrow> Inl invalid_cursor)
           | _ \<Rightarrow> Inl invalid_cursor))"

record bar_page =
  bp_bars :: "bar list"
  bp_next_cursor :: string

definition bar_page_of ::
  "world \<Rightarrow> iso_text \<Rightarrow> uuid \<Rightarrow> instant option \<Rightarrow> instant option \<Rightarrow> string option \<Rightarrow> nat \<Rightarrow>
   page_error + bar_page option" where
  "bar_page_of w fmt dataset_id start until cursor limit =
     bind_r (case cursor of
               None \<Rightarrow> Inr None
             | Some c \<Rightarrow> bind_r (bar_cursor_timestamp (w_text_of w) fmt c) (\<lambda>k. Inr (Some k))) (\<lambda>after.
     case get_catalog_row dataset_id (w_db w) of
       None \<Rightarrow> Inr None
     | Some row \<Rightarrow>
         let found = read_bar_page row start until after (limit + 1) (w_db w);
             page = take limit found
         in Inr (Some \<lparr>bp_bars = page,
              bp_next_cursor = (if length found > limit then bar_cursor fmt (b_timestamp (last page)) else [])\<rparr>))"

definition MAX_PAGE_INDEX_SIZE :: int where "MAX_PAGE_INDEX_SIZE = 1000"

record bar_page_index =
  bi_bar_count :: nat
  bi_page_size :: int
  bi_overlap :: int
  bi_pages :: "bar_page_offset list"

definition bar_page_index_of ::
  "world \<Rightarrow> uuid \<Rightarrow> instant option \<Rightarrow> instant option \<Rightarrow> int \<Rightarrow> int \<Rightarrow> page_error + bar_page_index option" where
  "bar_page_index_of w dataset_id start until page_size overlap =
     (if \<not> (1 \<le> page_size \<and> page_size \<le> MAX_PAGE_INDEX_SIZE) then Inl (InvalidRequest INVALID_REQUEST)
      else if \<not> (0 \<le> overlap \<and> overlap < page_size) then Inl (InvalidRequest INVALID_REQUEST)
      else case get_catalog_row dataset_id (w_db w) of
             None \<Rightarrow> Inr None
           | Some row \<Rightarrow>
               let (bar_count, pages) = read_bar_page_starts row start until (nat page_size) (w_db w)
               in Inr (Some \<lparr>bi_bar_count = bar_count, bi_page_size = page_size, bi_overlap = overlap, bi_pages = pages\<rparr>))"

section \<open>The cursors read back\<close>

lemma run_payload_ok: "reads_back fmt (fst k) \<Longrightarrow>
   payload_ok (JObj [(code_points ''o'', JStr (code_points ''runs'')),
     (code_points ''k'', JList [JStr (it_format fmt (fst k)), JStr (uuid_text (snd k))])])"
  using code_points_small uuid_text_small by (simp add: reads_back_def)

lemma run_cursor_reads:
  assumes "reads_ascii text_of" and fmt: "reads_back fmt (fst k)" and "snd k < 2 ^ 128"
  shows "run_cursor_key text_of fmt (run_cursor fmt k) = Inr k"
proof -
  have "decode_cursor text_of (run_cursor fmt k) = Some [(code_points ''o'', JStr (code_points ''runs'')),
      (code_points ''k'', JList [JStr (it_format fmt (fst k)), JStr (uuid_text (snd k))])]"
    unfolding run_cursor_def by (rule cursor_round_trip [OF assms(1) run_payload_ok [OF fmt]])
  then show ?thesis using fmt uuid_round_trip [OF assms(3)] by (simp add: run_cursor_key_def jget_def reads_back_def)
qed

lemma bar_payload_ok: "reads_back fmt t \<Longrightarrow> payload_ok (JObj [(code_points ''t'', JStr (it_format fmt t))])"
  using code_points_small by (simp add: reads_back_def)

lemma bar_cursor_reads:
  assumes "reads_ascii text_of" and fmt: "reads_back fmt t"
  shows "bar_cursor_timestamp text_of fmt (bar_cursor fmt t) = Inr t"
proof -
  have "decode_cursor text_of (bar_cursor fmt t) = Some [(code_points ''t'', JStr (it_format fmt t))]"
    unfolding bar_cursor_def by (rule cursor_round_trip [OF assms(1) bar_payload_ok [OF fmt]])
  then show ?thesis using fmt by (simp add: bar_cursor_timestamp_def jget_def reads_back_def)
qed

text \<open>Newest first is ascending in the negated key.\<close>

definition run_key :: "run_row \<Rightarrow> int \<times> int" where
  "run_key r = (- r_started_at r, - int (r_id r))"

abbreviation run_key_of :: "instant \<times> uuid \<Rightarrow> int \<times> int" where
  "run_key_of k \<equiv> (- fst k, - int (snd k))"

abbreviation key_run :: "int \<times> int \<Rightarrow> instant \<times> uuid" where
  "key_run k \<equiv> (- fst k, nat (- snd k))"

interpretation run_keys: keyset_pages run_key "\<lambda>k. run_cursor fmt (key_run k)"
  "\<lambda>c. map_option run_key_of (right_of (run_cursor_key text_of fmt c))"
  "\<lambda>k. reads_ascii text_of \<and> reads_back fmt (- fst k) \<and> snd k \<le> 0 \<and> nat (- snd k) < 2 ^ 128"
  for fmt text_of
proof unfold_locales
  fix k :: "int \<times> int"
  assume k: "reads_ascii text_of \<and> reads_back fmt (- fst k) \<and> snd k \<le> 0 \<and> nat (- snd k) < 2 ^ 128"
  then have "run_cursor_key text_of fmt (run_cursor fmt (key_run k)) = Inr (key_run k)" by (intro run_cursor_reads) simp_all
  then show "map_option run_key_of (right_of (run_cursor_key text_of fmt (run_cursor fmt (key_run k)))) = Some k"
    using k by simp
  show "run_cursor fmt (key_run k) \<noteq> []"
    unfolding run_cursor_def by (rule cursor_not_empty [where text_of = text_of, OF _ run_payload_ok]) (use k in simp_all)
qed

interpretation bar_keys: keyset_pages b_timestamp "bar_cursor fmt"
  "\<lambda>c. right_of (bar_cursor_timestamp text_of fmt c)" "\<lambda>t. reads_ascii text_of \<and> reads_back fmt t"
  for fmt text_of
proof unfold_locales
  fix t
  assume t: "reads_ascii text_of \<and> reads_back fmt t"
  then show "right_of (bar_cursor_timestamp text_of fmt (bar_cursor fmt t)) = Some t" by (simp add: bar_cursor_reads)
  show "bar_cursor fmt t \<noteq> []"
    unfolding bar_cursor_def by (rule cursor_not_empty [where text_of = text_of, OF _ bar_payload_ok]) (use t in simp_all)
qed

section \<open>The walks\<close>

text \<open>An unknown dataset has no pages: the route answers 404.\<close>

fun found :: "page_error + 'a option \<Rightarrow> page_error option + 'a" where
  "found (Inl e) = Inl (Some e)"
| "found (Inr None) = Inl None"
| "found (Inr (Some x)) = Inr x"

definition bar_step ::
  "world \<Rightarrow> iso_text \<Rightarrow> uuid \<Rightarrow> instant option \<Rightarrow> instant option \<Rightarrow> nat \<Rightarrow> string option \<Rightarrow>
   page_error option + bar list \<times> string" where
  "bar_step w fmt dataset_id start until limit c =
     map_right (\<lambda>p. (bp_bars p, bp_next_cursor p)) (found (bar_page_of w fmt dataset_id start until c limit))"

definition run_step ::
  "world \<Rightarrow> iso_text \<Rightarrow> uuid \<Rightarrow> nat \<Rightarrow> string option \<Rightarrow> page_error option + run_row list \<times> string" where
  "run_step w fmt dataset_id limit c =
     map_right (\<lambda>p. (rp_runs p, rp_next_cursor p)) (found (run_page_of w fmt dataset_id c limit))"

lemma bar_page_shown:
  assumes row: "get_catalog_row dataset_id (w_db w) = Some row"
    and c: "(case c of None \<Rightarrow> Inr None | Some c \<Rightarrow> bind_r (bar_cursor_timestamp (w_text_of w) fmt c) (\<lambda>k. Inr (Some k))) = Inr after"
  shows "bar_step w fmt dataset_id start until limit c =
    Inr (keyset_page b_timestamp (bar_cursor fmt) limit (filter (window_conditions row start until) (bars (w_db w))) after)"
proof -
  have "filter (\<lambda>b. window_conditions row start until b \<and> (case after of None \<Rightarrow> True | Some t \<Rightarrow> b_timestamp b > t)) (bars (w_db w)) =
      filter (after_key b_timestamp after) (filter (window_conditions row start until) (bars (w_db w)))"
    unfolding filter_filter by (rule filter_cong) (auto simp: after_key_def split: option.split)
  then have "read_bar_page row start until after (limit + 1) (w_db w) =
      take (limit + 1) (filter (after_key b_timestamp after) (sort_key b_timestamp (filter (window_conditions row start until) (bars (w_db w)))))"
    by (simp only: read_bar_page_def filter_sort)
  then show ?thesis
    unfolding bar_step_def bar_page_of_def c bind_r.simps row option.case Let_def keyset_page_def
    by (simp only: found.simps map_right.simps bar_page.simps)
qed

text \<open>A client that follows the cursors of a dataset's bars reads every bar of the window exactly once, in ascending
  order, whatever the page size, and then stops.\<close>

theorem bar_walk_reads_the_window:
  assumes "db_ok (w_db w)" and "reads_ascii (w_text_of w)" and "get_catalog_row dataset_id (w_db w) = Some row"
    and "list_all (\<lambda>b. reads_back fmt (b_timestamp b)) (bars (w_db w))" and "0 < limit"
  shows "\<exists>ps. walk_pages (bar_step w fmt dataset_id start until limit) None = Some ps
    \<and> concat ps = bar_window row start until (w_db w)
    \<and> sorted_wrt (\<lambda>a b. b_timestamp a < b_timestamp b) (concat ps)
    \<and> length ps = page_count limit (length (concat ps)) \<and> (\<forall>p\<in>set ps. length p \<le> limit)"
proof -
  let ?W = "filter (window_conditions row start until) (bars (w_db w))"
  have page: "bar_step w fmt dataset_id start until limit c = Inr (keyset_page b_timestamp (bar_cursor fmt) limit ?W after)"
    if "(case c of None \<Rightarrow> Inr None | Some c \<Rightarrow> bind_r (bar_cursor_timestamp (w_text_of w) fmt c) (\<lambda>k. Inr (Some k))) = Inr after"
    for c after by (rule bar_page_shown [OF assms(3) that])
  have fits: "reads_ascii (w_text_of w) \<and> reads_back fmt (b_timestamp b)" if "b \<in> set ?W" for b using that assms(2,4) by (simp add: list_all_iff)
  have "\<exists>ps. walk_pages (bar_step w fmt dataset_id start until limit) None = Some ps \<and> concat ps = sort_key b_timestamp ?W
      \<and> length ps = page_count limit (length ?W) \<and> (\<forall>p\<in>set ps. length p \<le> limit)"
  proof (rule bar_keys.walk_all [OF window_timestamps_distinct [OF assms(1)] fits assms(5)])
    show "bar_step w fmt dataset_id start until limit (Some s) = Inr (keyset_page b_timestamp (bar_cursor fmt) limit ?W (Some k))"
      if "right_of (bar_cursor_timestamp (w_text_of w) fmt s) = Some k" for s k
      by (rule page) (use that in \<open>cases "bar_cursor_timestamp (w_text_of w) fmt s"; simp\<close>)
    show "bar_step w fmt dataset_id start until limit None = Inr (keyset_page b_timestamp (bar_cursor fmt) limit ?W None)"
      by (rule page) simp
  qed
  then obtain ps where ps: "walk_pages (bar_step w fmt dataset_id start until limit) None = Some ps" "concat ps = sort_key b_timestamp ?W"
    "length ps = page_count limit (length ?W)" "\<forall>p\<in>set ps. length p \<le> limit" by blast
  have "length (concat ps) = length ?W" unfolding ps(2) by simp
  then show ?thesis using ps window_ascending [OF assms(1), of row start until] by (intro exI [of _ ps] conjI) simp_all
qed

definition sample_iso :: iso_text where
  "sample_iso = \<lparr>it_format = (\<lambda>t. code_points ''1970-01-01T00:00:00.0000'' @ decimal (nat t) @ code_points ''+00:00''),
     it_parse = (\<lambda>s. Some (Aware (int (digits_nat (take 2 (drop 24 s))))))\<rparr>"

lemma sample_reads_back: "reads_back sample_iso t" if "t \<in> {10, 20, 30, 40, 50}"
proof -
  have "decimal 10 = [49, 48]" "decimal 20 = [50, 48]" "decimal 30 = [51, 48]" "decimal 40 = [52, 48]" "decimal 50 = [53, 48]"
    by (simp_all add: decimal.simps [of 10] decimal.simps [of 20] decimal.simps [of 30] decimal.simps [of 40] decimal.simps [of 50]
        decimal.simps [of "Suc 0"] decimal.simps [of 2] decimal.simps [of 3] decimal.simps [of 4] decimal.simps [of 5])
  then show ?thesis using that by (auto simp: reads_back_def sample_iso_def code_points_def digits_nat_def)
qed

theorem bar_walk_reads_the_window_witness:
  "\<exists>ps. walk_pages (bar_step (sample_world\<lparr>w_db := bars_db\<rparr>) sample_iso 1 None None 2) None = Some ps
     \<and> map b_timestamp (concat ps) = [10, 20, 30, 40, 50] \<and> length ps = 3"
proof -
  let ?w = "sample_world\<lparr>w_db := bars_db\<rparr>"
  have a: "reads_ascii (w_text_of ?w)" using sample_world_ok by (simp add: world_ok_def)
  have d: "db_ok (w_db ?w)" using bars_db_ok by simp
  have row: "get_catalog_row 1 (w_db ?w) = Some sample_row"
    by (simp add: sample_row_def get_catalog_row_def bars_db_def sample_db_def sample_row_fields)
  have t: "list_all (\<lambda>b. reads_back sample_iso (b_timestamp b)) (bars (w_db ?w))"
    by (simp add: bars_db_def sample_bar_def sample_reads_back)
  have "map b_timestamp (bar_window sample_row None None bars_db) = [10, 20, 30, 40, 50]" by code_simp
  moreover from arg_cong [OF this, of length] have "length (bar_window sample_row None None bars_db) = 5" by (simp del: length_sort)
  ultimately show ?thesis using bar_walk_reads_the_window [OF d a row t, of 2 None None] by (auto simp: page_count_def)
qed

text \<open>The run history pages the same way: following its cursors gives every run of the dataset exactly once,
  newest first. An unknown dataset has no page, and a cursor that is no run cursor is refused before the
  dataset is looked up.\<close>

theorem run_walk_reads_the_history:
  assumes "db_ok (w_db w)" and "reads_ascii (w_text_of w)" and "dataset_exists dataset_id (w_db w)"
    and "list_all (\<lambda>r. reads_back fmt (r_started_at r) \<and> r_id r < 2 ^ 128) (ingest_runs (w_db w))" and "0 < limit"
    and "decode_cursor (w_text_of w) garbage = None"
  shows "(\<exists>ps. walk_pages (run_step w fmt dataset_id limit) None = Some ps
      \<and> concat ps = newest_first dataset_id (w_db w)
      \<and> length ps = page_count limit (length (concat ps)) \<and> (\<forall>p\<in>set ps. length p \<le> limit))
    \<and> run_page_of w fmt unknown (Some garbage) limit = Inl (InvalidRequest INVALID_REQUEST)
    \<and> (\<not> dataset_exists unknown (w_db w) \<longrightarrow> run_page_of w fmt unknown None limit = Inr None)"
proof -
  let ?R = "filter (\<lambda>r. r_dataset r = Some dataset_id) (ingest_runs (w_db w))"
  have ids: "distinct (map r_id (ingest_runs (w_db w)))" using assms(1) by (simp add: db_ok_def)
  have R: "distinct (map r_id ?R)" by (rule distinct_map_filter [OF ids])
  have keys: "distinct (map run_key ?R)"
  proof -
    have "inj_on run_key (set ?R)" using R by (auto simp: inj_on_def run_key_def distinct_map)
    then show ?thesis using R by (simp add: distinct_map)
  qed
  have order: "sort_key run_key ?R = newest_first dataset_id (w_db w)"
  proof (rule sort_key_inj_key_eq)
    show "mset ?R = mset (newest_first dataset_id (w_db w))" by (simp add: newest_first_def)
    show "inj_on run_key (set ?R)" using keys by (simp only: distinct_map)
    have "sorted_wrt (\<lambda>r s. run_key r \<le> run_key s) (newest_first dataset_id (w_db w))"
      using newest_first_sorted [OF ids] by (rule sorted_wrt_mono_rel [rotated]) (auto simp: run_key_def less_eq_prod_def less_prod_def)
    then show "sorted (map run_key (newest_first dataset_id (w_db w)))" by (simp add: sorted_wrt_map)
  qed
  have step: "run_step w fmt dataset_id limit c = Inr (keyset_page run_key (\<lambda>k. run_cursor fmt (key_run k)) limit ?R after)"
    if "(case c of None \<Rightarrow> Inr None | Some c \<Rightarrow> bind_r (run_cursor_key (w_text_of w) fmt c) (\<lambda>k. Inr (Some k))) = Inr r"
      "after = map_option run_key_of r" for c r after
  proof -
    have "before_key r x \<longleftrightarrow> after_key run_key after x" for x
      using that(2) by (cases r) (auto simp: before_key_def after_key_def run_key_def less_prod_def')
    then have "before_key r = after_key run_key after" by blast
    then have "list_runs_for_dataset dataset_id (limit + 1) r (w_db w) = take (limit + 1) (filter (after_key run_key after) (sort_key run_key ?R))"
      by (simp add: list_runs_newest_first order)
    moreover have "key_run (run_key x) = run_order x" for x by (simp add: run_key_def)
    ultimately show ?thesis
      unfolding run_step_def run_page_of_def that(1) bind_r.simps Let_def keyset_page_def
      using assms(3) by (simp only: found.simps map_right.simps run_page.simps not_True_eq_False if_False)
  qed
  have fits: "reads_ascii (w_text_of w) \<and> reads_back fmt (- fst (run_key r)) \<and> snd (run_key r) \<le> 0 \<and> nat (- snd (run_key r)) < 2 ^ 128"
    if "r \<in> set ?R" for r using that assms(2,4) by (simp add: run_key_def list_all_iff)
  have "\<exists>ps. walk_pages (run_step w fmt dataset_id limit) None = Some ps \<and> concat ps = sort_key run_key ?R
      \<and> length ps = page_count limit (length ?R) \<and> (\<forall>p\<in>set ps. length p \<le> limit)"
  proof (rule run_keys.walk_all [OF keys fits assms(5)])
    show "run_step w fmt dataset_id limit (Some s) = Inr (keyset_page run_key (\<lambda>k. run_cursor fmt (key_run k)) limit ?R (Some k))"
      if k: "map_option run_key_of (right_of (run_cursor_key (w_text_of w) fmt s)) = Some k" for s k
    proof -
      obtain r where r: "run_cursor_key (w_text_of w) fmt s = Inr r" "k = run_key_of r"
        using k by (cases "run_cursor_key (w_text_of w) fmt s") auto
      show ?thesis by (rule step [where r = "Some r"]) (simp_all add: r)
    qed
    show "run_step w fmt dataset_id limit None = Inr (keyset_page run_key (\<lambda>k. run_cursor fmt (key_run k)) limit ?R None)"
      by (rule step [where r = None]) simp_all
  qed
  moreover have "length (newest_first dataset_id (w_db w)) = length ?R" by (simp add: newest_first_def)
  ultimately have walk: "\<exists>ps. walk_pages (run_step w fmt dataset_id limit) None = Some ps \<and> concat ps = newest_first dataset_id (w_db w)
      \<and> length ps = page_count limit (length (concat ps)) \<and> (\<forall>p\<in>set ps. length p \<le> limit)"
    unfolding order by (metis (no_types, lifting))
  have "run_page_of w fmt unknown (Some garbage) limit = Inl (InvalidRequest INVALID_REQUEST)"
    by (simp add: run_page_of_def run_cursor_key_def assms(6) invalid_cursor_def)
  moreover have "\<not> dataset_exists unknown (w_db w) \<longrightarrow> run_page_of w fmt unknown None limit = Inr None"
    by (simp add: run_page_of_def)
  ultimately show ?thesis using walk by blast
qed

definition runs_db :: db where
  "runs_db = sample_db\<lparr>ingest_runs := map (\<lambda>n. new_run_row n (10 * int n) sample_run\<lparr>r_dataset := Some 1\<rparr>) [1, 2, 3]\<rparr>"

theorem run_walk_reads_the_history_witness:
  "\<exists>ps. walk_pages (run_step (sample_world\<lparr>w_db := runs_db\<rparr>) sample_iso 1 2) None = Some ps \<and> map r_id (concat ps) = [3, 2, 1]"
proof -
  let ?w = "sample_world\<lparr>w_db := runs_db\<rparr>"
  have a: "reads_ascii (w_text_of ?w)" using sample_world_ok by (simp add: world_ok_def)
  have "db_ok runs_db" by code_simp
  then have d: "db_ok (w_db ?w)" by simp
  have e: "dataset_exists 1 (w_db ?w)"
    by (simp add: dataset_exists_def runs_db_def sample_db_def sample_row_fields)
  have t: "list_all (\<lambda>r. reads_back sample_iso (r_started_at r) \<and> r_id r < 2 ^ 128) (ingest_runs (w_db ?w))"
    by (simp add: runs_db_def new_run_row_def sample_reads_back)
  have g: "decode_cursor (w_text_of ?w) ''!'' = None"
  proof -
    have "decode_cursor Some ''!'' = None" by code_simp
    then show ?thesis by (simp only: sample_world_def world.simps)
  qed
  have "map r_id (newest_first 1 runs_db) = [3, 2, 1]" by code_simp
  then have ids: "map r_id (newest_first 1 (w_db ?w)) = [3, 2, 1]" by simp
  have "(0::nat) < 2" by simp
  from run_walk_reads_the_history [OF d a e t this g, THEN conjunct1]
  obtain ps where ps: "walk_pages (run_step ?w sample_iso 1 2) None = Some ps" "concat ps = newest_first 1 (w_db ?w)"
    by (elim conjE exE) (rule that)
  show ?thesis by (rule exI [of _ ps], rule conjI [OF ps(1)]) (simp only: ps(2) ids)
qed

end
