(* ===== verification/Rate_Budget.thy ===== *)
theory Rate_Budget
  imports Market_Enums Vocabulary Catalog_Reads
begin

text \<open>
  \<open>server/data/ingest/app/brokers/rate_budget.py\<close>: the token bucket of one vendor. A \<open>float\<close> is an exact
  rational here, so the code's rounding of tokens and waits is left out, and with it the infinities and
  NaN: a draw that lands exactly on the threshold may go the other way in the code, by one unit in the last place of the
  tokens, and a sleep may end just short of its token and be followed by another. The monotonic clock reads seconds; wall time is an instant. The waiting loop is modelled with what
  other callers do to the bucket during each of its sleeps.
\<close>

section \<open>Reading a number\<close>

text \<open>\<open>float(text)\<close>: \<open>None\<close> is \<open>ValueError\<close>. An underscore may stand between two digits.\<close>

datatype py_float = Finite rat | Infinite bool | NotANumber

definition digits_count :: "string \<Rightarrow> nat" where
  "digits_count s = length (filter (\<lambda>c. c \<noteq> CHR ''_'') s)"

definition fraction_value :: "string \<Rightarrow> string \<Rightarrow> rat option" where
  "fraction_value whole part =
     (if whole = [] \<and> part = [] then None
      else case (if whole = [] then Some 0 else digits_value False 0 whole, if part = [] then Some 0 else digits_value False 0 part) of
             (Some w, Some p) \<Rightarrow> Some (of_int w + of_int p / 10 ^ digits_count part)
           | _ \<Rightarrow> None)"

definition split_at :: "(char \<Rightarrow> bool) \<Rightarrow> string \<Rightarrow> string \<times> string option" where
  "split_at P s = (takeWhile (\<lambda>c. \<not> P c) s, case dropWhile (\<lambda>c. \<not> P c) s of [] \<Rightarrow> None | _ # t \<Rightarrow> Some t)"

definition signed :: "(string \<Rightarrow> 'a option) \<Rightarrow> ('a \<Rightarrow> 'a) \<Rightarrow> string \<Rightarrow> 'a option" where
  "signed read negate s =
     (case s of
        [] \<Rightarrow> None
      | c # t \<Rightarrow> if c = CHR ''-'' then map_option negate (read t) else if c = CHR ''+'' then read t else read s)"

definition exponent_value :: "int \<Rightarrow> rat" where
  "exponent_value n = (if 0 \<le> n then 10 ^ nat n else 1 / 10 ^ nat (- n))"

definition unsigned_float :: "string \<Rightarrow> py_float option" where
  "unsigned_float s =
     (if lower s \<in> {''inf'', ''infinity''} then Some (Infinite False)
      else if lower s = ''nan'' then Some NotANumber
      else let (mantissa, exponent) = split_at (\<lambda>c. c \<in> {CHR ''e'', CHR ''E''}) s;
               (whole, part) = split_at (\<lambda>c. c = CHR ''.'') mantissa
           in case (fraction_value whole (case part of None \<Rightarrow> [] | Some p \<Rightarrow> p),
                    case exponent of None \<Rightarrow> Some 0 | Some e \<Rightarrow> signed (digits_value False 0) uminus e) of
                (Some m, Some e) \<Rightarrow> Some (Finite (m * exponent_value e))
              | _ \<Rightarrow> None)"

fun negated :: "py_float \<Rightarrow> py_float" where
  "negated (Finite x) = Finite (- x)"
| "negated (Infinite b) = Infinite (\<not> b)"
| "negated NotANumber = NotANumber"

definition py_float_of :: "string \<Rightarrow> py_float option" where
  "py_float_of s = signed unsigned_float negated (strip s)"

section \<open>Priorities\<close>

datatype request_priority = LIVE | INTERACTIVE | BACKFILL

fun priority_for_update_type :: "update_type \<Rightarrow> request_priority" where
  "priority_for_update_type STREAM = LIVE"
| "priority_for_update_type STATIC = BACKFILL"
| "priority_for_update_type DAILY = INTERACTIVE"

section \<open>The bucket\<close>

record rate_budget =
  rb_vendor :: string
  rb_rate :: "rat option"
  rb_burst :: rat
  rb_reserve :: rat
  rb_tokens :: rat
  rb_updated :: rat

definition mk_budget :: "string \<Rightarrow> rat option \<Rightarrow> rat option \<Rightarrow> rat option \<Rightarrow> rat \<Rightarrow> rate_budget" where
  "mk_budget vendor rate_per_sec burst backfill_reserve now =
     (let held = max (case burst of Some b \<Rightarrow> b | None \<Rightarrow> (case rate_per_sec of Some r \<Rightarrow> r | None \<Rightarrow> 0)) 1;
          reserve = (case backfill_reserve of Some r \<Rightarrow> r | None \<Rightarrow> held / 2)
      in \<lparr>rb_vendor = vendor, rb_rate = rate_per_sec, rb_burst = held,
          rb_reserve = min (max reserve 0) (held - 1), rb_tokens = held, rb_updated = now\<rparr>)"

text \<open>\<open>get_env_var(name, cast_type=float)\<close>, which has no default: what is no number raises.\<close>

datatype budget_error = BadSetting | NotFinite | DivisionByZero

definition env_float :: "(string \<rightharpoonup> string) \<Rightarrow> string \<Rightarrow> budget_error + rat option" where
  "env_float env name =
     (case env name of
        None \<Rightarrow> Inr None
      | Some raw \<Rightarrow> (case py_float_of raw of
            None \<Rightarrow> Inl BadSetting
          | Some (Finite x) \<Rightarrow> Inr (Some x)
          | Some _ \<Rightarrow> Inl NotFinite))"

fun source_value :: "data_source \<Rightarrow> string" where
  "source_value IB_API = ''IB''"
| "source_value ALPACA_API = ''ALPACA''"
| "source_value MANUAL_ENTRY = ''MANUAL''"

definition budget_from_env :: "(string \<rightharpoonup> string) \<Rightarrow> data_source \<Rightarrow> rat \<Rightarrow> budget_error + rate_budget" where
  "budget_from_env env source now =
     bind_r (env_float env (source_value source @ ''_RATE_LIMIT_PER_SEC'')) (\<lambda>rate.
     bind_r (env_float env (source_value source @ ''_RATE_BURST'')) (\<lambda>burst.
     bind_r (env_float env (source_value source @ ''_BACKFILL_RESERVE'')) (\<lambda>reserve.
       Inr (mk_budget (source_value source) rate burst reserve now))))"

definition refill :: "rat \<Rightarrow> rate_budget \<Rightarrow> rate_budget" where
  "refill now b =
     (case rb_rate b of
        None \<Rightarrow> b
      | Some rate \<Rightarrow>
          let elapsed = now - rb_updated b
          in if elapsed \<le> 0 then b
             else b\<lparr>rb_updated := now, rb_tokens := min (rb_burst b) (rb_tokens b + elapsed * rate)\<rparr>)"

definition tokens :: "rat \<Rightarrow> rate_budget \<Rightarrow> rat \<times> rate_budget" where
  "tokens now b = (let b = refill now b in (rb_tokens b, b))"

definition full_refill_seconds :: "rate_budget \<Rightarrow> budget_error + rat" where
  "full_refill_seconds b =
     (case rb_rate b of
        None \<Rightarrow> Inr 0
      | Some rate \<Rightarrow> if rate = 0 then Inl DivisionByZero else Inr (rb_burst b / rate))"

definition floor_of :: "request_priority \<Rightarrow> rate_budget \<Rightarrow> rat" where
  "floor_of priority b = (if priority = BACKFILL then rb_reserve b else 0)"

definition try_acquire :: "rat \<Rightarrow> request_priority \<Rightarrow> rate_budget \<Rightarrow> bool \<times> rate_budget" where
  "try_acquire now priority b =
     (if rb_rate b = None then (True, b)
      else let b = refill now b
           in if rb_tokens b - floor_of priority b \<ge> 1
              then (True, b\<lparr>rb_tokens := rb_tokens b - 1\<rparr>)
              else (False, b))"

text \<open>Only called once a token was refused, so with a rate.\<close>

definition wait_for :: "request_priority \<Rightarrow> rate_budget \<Rightarrow> budget_error + rat" where
  "wait_for priority b =
     (case rb_rate b of
        None \<Rightarrow> Inr 0
      | Some rate \<Rightarrow>
          let deficit = 1 + floor_of priority b - rb_tokens b
          in if rate = 0 then Inl DivisionByZero else Inr (max deficit 0 / rate))"

text \<open>One pass of the loop in \<open>acquire\<close>, at a reading of both clocks.\<close>

datatype acquire_step = Granted | Refused tj_error | Sleeps rat | Crashes

definition acquire_pass ::
  "rat \<Rightarrow> instant \<Rightarrow> request_priority \<Rightarrow> instant option \<Rightarrow> rate_budget \<Rightarrow> acquire_step \<times> rate_budget" where
  "acquire_pass now wall priority deadline b =
     (let (granted, b) = try_acquire now priority b
      in (if granted then Granted
          else case wait_for priority b of
                 Inl e \<Rightarrow> Crashes
               | Inr wait \<Rightarrow>
                   let reset_at = wall + timedelta_of_seconds wait
                   in if (case deadline of None \<Rightarrow> False | Some d \<Rightarrow> reset_at > d)
                      then (case build_tj_error ExogenousError RATE_BUDGET [(''vendor'', Text (rb_vendor b))] (Some (Aware reset_at)) of
                              Inl e \<Rightarrow> Crashes
                            | Inr e \<Rightarrow> Refused e)
                      else Sleeps wait, b))"

text \<open>
  \<open>acquire\<close>: each pass with what others did to the bucket before it and the clocks' readings. The waits
  slept are listed with the wall time at which each began; \<open>None\<close> is a loop still running at the end of the list.
\<close>

datatype acquire_end = Spent | Raised tj_error | Failed

fun acquire ::
  "((rate_budget \<Rightarrow> rate_budget) \<times> rat \<times> instant) list \<Rightarrow> request_priority \<Rightarrow> instant option \<Rightarrow> rate_budget \<Rightarrow>
   acquire_end option \<times> (instant \<times> rat) list \<times> rate_budget" where
  "acquire [] priority deadline b = (None, [], b)"
| "acquire ((others, now, wall) # passes) priority deadline b =
     (case acquire_pass now wall priority deadline (others b) of
        (Granted, b) \<Rightarrow> (Some Spent, [], b)
      | (Refused e, b) \<Rightarrow> (Some (Raised e), [], b)
      | (Crashes, b) \<Rightarrow> (Some Failed, [], b)
      | (Sleeps w, b) \<Rightarrow> (let (r, ws, b) = acquire passes priority deadline b in (r, (wall, w) # ws, b)))"

text \<open>A history of draws: each at its reading of the clock, with its priority; the answers in order.\<close>

fun draws :: "(rat \<times> request_priority) list \<Rightarrow> rate_budget \<Rightarrow> bool list \<times> rate_budget" where
  "draws [] b = ([], b)"
| "draws ((now, p) # calls) b =
     (let (granted, b) = try_acquire now p b; (rest, b) = draws calls b in (granted # rest, b))"

section \<open>The invariant\<close>

definition budget_ok :: "rate_budget \<Rightarrow> bool" where
  "budget_ok b \<longleftrightarrow>
     (\<forall>r. rb_rate b = Some r \<longrightarrow> 0 < r) \<and> 1 \<le> rb_burst b \<and> 0 \<le> rb_reserve b \<and> rb_reserve b \<le> rb_burst b - 1
     \<and> 0 \<le> rb_tokens b \<and> rb_tokens b \<le> rb_burst b"

lemma mk_budget_ok:
  "(\<And>r. rate = Some r \<Longrightarrow> 0 < r) \<Longrightarrow> budget_ok (mk_budget vendor rate burst reserve now)"
  by (auto simp: budget_ok_def mk_budget_def Let_def)

lemma mk_budget_fields [simp]:
  "rb_rate (mk_budget vendor rate burst reserve now) = rate"
  "rb_tokens (mk_budget vendor rate burst reserve now) = rb_burst (mk_budget vendor rate burst reserve now)"
  "rb_updated (mk_budget vendor rate burst reserve now) = now"
  "rb_vendor (mk_budget vendor rate burst reserve now) = vendor"
  by (simp_all add: mk_budget_def Let_def)

text \<open>What no operation changes.\<close>

definition same_limits :: "rate_budget \<Rightarrow> rate_budget \<Rightarrow> bool" where
  "same_limits b b' \<longleftrightarrow> rb_rate b' = rb_rate b \<and> rb_burst b' = rb_burst b \<and> rb_reserve b' = rb_reserve b \<and> rb_vendor b' = rb_vendor b"

lemma refill_limits: "same_limits b (refill now b)"
  by (auto simp: same_limits_def refill_def Let_def split: option.splits)

lemma try_limits: "try_acquire now p b = (g, b') \<Longrightarrow> same_limits b b'"
  using refill_limits [of b now] by (auto simp: try_acquire_def same_limits_def Let_def split: if_splits)

lemma refill_ok: "budget_ok b \<Longrightarrow> budget_ok (refill now b)"
  by (auto simp: budget_ok_def refill_def Let_def add_nonneg_nonneg mult_nonneg_nonneg less_imp_le split: option.splits)

lemma try_ok: "budget_ok b \<Longrightarrow> try_acquire now p b = (g, b') \<Longrightarrow> budget_ok b'"
  using refill_ok [of b now]
  by (auto simp: try_acquire_def Let_def floor_of_def budget_ok_def split: if_splits)

lemma refill_tokens:
  assumes "budget_ok b" and "rb_rate b = Some rate" and "rb_updated b \<le> now"
  shows "rb_tokens (refill now b) = min (rb_burst b) (rb_tokens b + (now - rb_updated b) * rate)"
    and "rb_updated (refill now b) = now"
  using assms by (auto simp: refill_def budget_ok_def Let_def min_def)

lemma try_granted_iff:
  assumes "budget_ok b" and "rb_rate b = Some rate" and "rb_updated b \<le> now"
  shows "fst (try_acquire now p b) \<longleftrightarrow> 1 + floor_of p b \<le> rb_tokens b + (now - rb_updated b) * rate"
proof -
  have "floor_of p (refill now b) = floor_of p b"
    using refill_limits [of b now] by (simp add: floor_of_def same_limits_def)
  moreover have "1 + floor_of p b \<le> rb_burst b" using assms(1) by (auto simp: floor_of_def budget_ok_def)
  ultimately show ?thesis
    using assms refill_tokens [OF assms] by (auto simp: try_acquire_def Let_def min_def)
qed

section \<open>Histories of draws\<close>

abbreviation grants :: "bool list \<Rightarrow> nat" where
  "grants gs \<equiv> length (filter id gs)"

abbreviation backfill_grants :: "(rat \<times> request_priority) list \<Rightarrow> bool list \<Rightarrow> nat" where
  "backfill_grants calls gs \<equiv> length (filter (\<lambda>(c, g). g \<and> snd c = BACKFILL) (zip calls gs))"

lemma sorted_from_last: "sorted ((x # xs) @ ys) \<Longrightarrow> sorted (last (x # xs) # ys)"
  unfolding sorted_append by (metis last_in_set list.distinct(1) sorted_simps(2))

lemma draws_length: "draws calls b = (gs, b') \<Longrightarrow> length gs = length calls"
  by (induction calls b arbitrary: gs b' rule: draws.induct) (auto split: prod.splits)

lemma draws_append:
  "draws (xs @ ys) b = (case draws xs b of (gs, b1) \<Rightarrow> case draws ys b1 of (hs, b2) \<Rightarrow> (gs @ hs, b2))"
  by (induction xs b rule: draws.induct) (auto split: prod.splits)

lemma draws_ok: "draws calls b = (gs, b') \<Longrightarrow> budget_ok b \<Longrightarrow> budget_ok b' \<and> same_limits b b'"
proof (induction calls b arbitrary: gs b' rule: draws.induct)
  case (2 now p calls b)
  obtain g b1 where g: "try_acquire now p b = (g, b1)" by fastforce
  obtain hs b2 where h: "draws calls b1 = (hs, b2)" by fastforce
  have "b2 = b'" using 2(2) g h by simp
  then show ?case
    using 2(1) [OF g [symmetric] refl h [unfolded \<open>b2 = b'\<close>]] try_ok [OF 2(3) g] try_limits [OF g] by (simp add: same_limits_def)
qed (simp add: same_limits_def)

text \<open>A grant is paid for by the tokens held and the refill since; a backfill grant by those above the reserve.\<close>

lemma draw_paid:
  assumes "budget_ok b" and "rb_rate b = Some rate" and "rb_updated b \<le> now" and "try_acquire now p b = (g, b')"
  shows "rb_updated b' = now" and "of_bool g + rb_tokens b' \<le> rb_tokens b + rate * (now - rb_updated b)"
    and "of_bool g + rb_tokens b' \<le> rb_burst b"
    and "of_bool (g \<and> p = BACKFILL) + max (rb_tokens b') (rb_reserve b) \<le> max (rb_tokens b) (rb_reserve b) + rate * (now - rb_updated b)"
    and "of_bool (g \<and> p = BACKFILL) + max (rb_tokens b') (rb_reserve b) \<le> rb_burst b"
proof -
  have up: "0 \<le> rate * (now - rb_updated b)" using assms(1-3) by (auto simp: budget_ok_def less_imp_le)
  note refill = refill_tokens [OF assms(1-3)]
  have lim: "floor_of p (refill now b) = floor_of p b" "rb_burst (refill now b) = rb_burst b" "rb_reserve (refill now b) = rb_reserve b"
    using refill_limits [of b now] by (simp_all add: floor_of_def same_limits_def)
  have res: "rb_reserve b \<le> rb_burst b - 1" using assms(1) by (simp add: budget_ok_def)
  show "rb_updated b' = now"
    using assms refill by (auto simp: try_acquire_def Let_def split: if_splits)
  show "of_bool g + rb_tokens b' \<le> rb_tokens b + rate * (now - rb_updated b)" "of_bool g + rb_tokens b' \<le> rb_burst b"
    using assms(2,4) refill(1) up by (auto simp: try_acquire_def Let_def algebra_simps split: if_splits)
  show "of_bool (g \<and> p = BACKFILL) + max (rb_tokens b') (rb_reserve b) \<le> max (rb_tokens b) (rb_reserve b) + rate * (now - rb_updated b)"
    "of_bool (g \<and> p = BACKFILL) + max (rb_tokens b') (rb_reserve b) \<le> rb_burst b"
    using assms(2,4) refill(1) up lim res
    by (auto simp: try_acquire_def Let_def floor_of_def max_def min_def algebra_simps split: if_splits)
qed

lemma draws_paid:
  assumes "budget_ok b" and "rb_rate b = Some rate" and "sorted (rb_updated b # map fst calls)" and "draws calls b = (gs, b')"
  shows "rb_updated b' = last (rb_updated b # map fst calls)
    \<and> of_nat (grants gs) + rb_tokens b' \<le> rb_tokens b + rate * (rb_updated b' - rb_updated b)
    \<and> of_nat (backfill_grants calls gs) + max (rb_tokens b') (rb_reserve b) \<le> max (rb_tokens b) (rb_reserve b) + rate * (rb_updated b' - rb_updated b)"
  using assms
proof (induction calls b arbitrary: gs b' rule: draws.induct)
  case (2 now p calls b)
  obtain g b1 where g: "try_acquire now p b = (g, b1)" by fastforce
  obtain hs b2 where h: "draws calls b1 = (hs, b2)" by fastforce
  have gs: "gs = g # hs" and b2: "b2 = b'" using 2(5) g h by auto
  have now: "rb_updated b \<le> now" using 2(4) by simp
  note paid = draw_paid [OF 2(2,3) now g]
  note lim = try_limits [OF g, unfolded same_limits_def]
  have "sorted (rb_updated b1 # map fst calls)" using 2(4) paid(1) by simp
  note rest = 2(1) [OF g [symmetric] refl try_ok [OF 2(2) g] _ this h [unfolded b2]]
  show ?case
    using rest paid lim 2(3) by (cases g; cases "p = BACKFILL") (auto simp: gs algebra_simps)
qed simp

lemma window_paid:
  assumes "budget_ok b" and "rb_rate b = Some rate" and "sorted (rb_updated b # map fst calls)" and "draws calls b = (gs, b')"
    and "calls \<noteq> []"
  shows "of_nat (grants gs) \<le> rb_burst b + rate * (fst (last calls) - fst (hd calls))"
    and "of_nat (backfill_grants calls gs) \<le> rb_burst b - rb_reserve b + rate * (fst (last calls) - fst (hd calls))"
proof -
  obtain now p more where c: "calls = (now, p) # more" using assms(5) by (cases calls) auto
  obtain g b1 where g: "try_acquire now p b = (g, b1)" by fastforce
  obtain hs b2 where h: "draws more b1 = (hs, b2)" by fastforce
  have gs: "gs = g # hs" and b2: "b2 = b'" using assms(4) g h c by auto
  have now: "rb_updated b \<le> now" using assms(3) c by simp
  note paid = draw_paid [OF assms(1,2) now g]
  note lim = try_limits [OF g, unfolded same_limits_def]
  have ok: "budget_ok b1" by (rule try_ok [OF assms(1) g])
  have srt: "sorted (rb_updated b1 # map fst more)" using assms(3) c paid(1) by simp
  have upto: "fst (last calls) = last (rb_updated b1 # map fst more)" using c paid(1) by (cases "more = []") (auto simp: last_map)
  have rest: "of_nat (grants hs) + rb_tokens b2 \<le> rb_tokens b1 + rate * (fst (last calls) - now)"
    "of_nat (backfill_grants more hs) + max (rb_tokens b2) (rb_reserve b1) \<le> max (rb_tokens b1) (rb_reserve b1) + rate * (fst (last calls) - now)"
    using draws_paid [OF ok _ srt h] lim assms(2) upto paid(1) by auto
  have left: "0 \<le> rb_tokens b2" using draws_ok [OF h ok] by (simp add: budget_ok_def)
  show "of_nat (grants gs) \<le> rb_burst b + rate * (fst (last calls) - fst (hd calls))"
    using rest(1) left paid(3) by (cases g) (auto simp: gs c)
  show "of_nat (backfill_grants calls gs) \<le> rb_burst b - rb_reserve b + rate * (fst (last calls) - fst (hd calls))"
    using rest(2) paid(5) lim by (cases g; cases "p = BACKFILL") (auto simp: gs c)
qed



section \<open>The reserve\<close>

lemma backfill_keeps:
  assumes "budget_ok b" and "rb_reserve b \<le> rb_tokens b" and "draws calls b = (gs, b')" and "list_all (\<lambda>c. snd c = BACKFILL) calls"
  shows "rb_reserve b' \<le> rb_tokens b'"
  using assms
proof (induction calls b arbitrary: gs b' rule: draws.induct)
  case (2 now p calls b)
  obtain g b1 where g: "try_acquire now p b = (g, b1)" by fastforce
  obtain hs b2 where h: "draws calls b1 = (hs, b2)" by fastforce
  have b2: "b2 = b'" and p: "p = BACKFILL" using 2(4,5) g h by auto
  have "rb_tokens b \<le> rb_tokens (refill now b)"
    using 2(2) by (auto simp: refill_def Let_def budget_ok_def less_imp_le split: option.splits)
  then have "rb_reserve b1 \<le> rb_tokens b1"
    using g 2(3) refill_limits [of b now] p
    by (auto simp: try_acquire_def Let_def floor_of_def same_limits_def split: if_splits)
  from 2(1) [OF g [symmetric] refl try_ok [OF 2(2) g] this h [unfolded b2]] 2(5) show ?case by simp
qed simp

lemma urgent_granted:
  assumes "budget_ok b" and "of_nat (length calls) \<le> rb_tokens b" and "list_all (\<lambda>c. snd c \<noteq> BACKFILL) calls"
  shows "fst (draws calls b) = replicate (length calls) True"
  using assms
proof (induction calls b rule: draws.induct)
  case (2 now p calls b)
  obtain g b1 where g: "try_acquire now p b = (g, b1)" by fastforce
  have "rb_tokens b \<le> rb_tokens (refill now b)"
    using 2(2) by (auto simp: refill_def Let_def budget_ok_def less_imp_le split: option.splits)
  then have "g" "rb_tokens b - 1 \<le> rb_tokens b1"
    using g 2(3,4) by (auto simp: try_acquire_def Let_def floor_of_def split: if_splits)
  moreover have "fst (draws calls b1) = replicate (length calls) True"
    using 2(1) [OF g [symmetric] refl try_ok [OF 2(2) g]] 2(3,4) calculation(2) by simp
  ultimately show ?case using g by (simp add: case_prod_beta)
qed simp

text \<open>C27. However many backfill draws came before, as many live and interactive draws as the reserve holds whole
  tokens are granted at once.\<close>

theorem backfill_leaves_the_reserve:
  assumes "\<And>r. rate = Some r \<Longrightarrow> 0 < r"
    and "list_all (\<lambda>c. snd c = BACKFILL) history" and "list_all (\<lambda>c. snd c \<noteq> BACKFILL) urgent"
    and "of_nat (length urgent) \<le> rb_reserve (mk_budget vendor rate burst reserve start)"
  shows "drop (length history) (fst (draws (history @ urgent) (mk_budget vendor rate burst reserve start)))
    = replicate (length urgent) True"
proof -
  let ?b = "mk_budget vendor rate burst reserve start"
  obtain gs b1 where h: "draws history ?b = (gs, b1)" by fastforce
  have ok: "budget_ok ?b" by (rule mk_budget_ok [OF assms(1)])
  then have "rb_reserve ?b \<le> rb_tokens ?b" by (simp add: budget_ok_def)
  from backfill_keeps [OF ok this h assms(2)] draws_ok [OF h ok] assms(4)
  have "of_nat (length urgent) \<le> rb_tokens b1" "budget_ok b1" by (simp_all add: same_limits_def)
  from urgent_granted [OF this(2,1) assms(3)] show ?thesis
    using h draws_length [OF h] by (simp add: draws_append case_prod_beta)
qed

theorem backfill_leaves_the_reserve_witness:
  "drop 5 (fst (draws (replicate 5 (0, BACKFILL) @ [(0, LIVE), (0, LIVE)]) (mk_budget ''ALPACA'' (Some 4) None None 0))) = [True, True]"
proof -
  have "rb_reserve (mk_budget ''ALPACA'' (Some 4) None None 0) = 2" by (simp add: mk_budget_def)
  then show ?thesis
    using backfill_leaves_the_reserve [of "Some 4" "replicate 5 (0, BACKFILL)" "[(0, LIVE), (0, LIVE)]" "''ALPACA''" None None 0]
    by (simp add: list_all_iff numeral_2_eq_2)
qed

text \<open>
  With a burst below two the reserve is less than one token (of a burst of one, nothing), and one backfill draw
  makes a live draw wait: the class's promise that a live call always finds headroom needs a burst of two.
\<close>

lemma small_burst_has_no_headroom:
  "fst (draws [(0, BACKFILL), (0, LIVE)] (mk_budget ''IB'' (Some (1 / 5)) None None 0)) = [True, False]"
  by code_simp

section \<open>Waiting\<close>

lemma wait_reaches:
  assumes "budget_ok b" and "rb_rate b = Some rate" and "rb_updated b \<le> now" and "try_acquire now p b = (False, b1)"
  shows "wait_for p b1 = Inr ((1 + floor_of p b1 - rb_tokens b1) / rate)" and "rb_tokens b1 < 1 + floor_of p b1"
    and "rb_updated b1 = now" and "rb_rate b1 = Some rate" and "budget_ok b1"
proof -
  note lim = try_limits [OF assms(4), unfolded same_limits_def]
  have r: "0 < rate" using assms(1,2) by (simp add: budget_ok_def)
  show "rb_updated b1 = now" by (rule draw_paid(1) [OF assms])
  show rate: "rb_rate b1 = Some rate" using lim assms(2) by simp
  show "budget_ok b1" by (rule try_ok [OF assms(1,4)])
  show less: "rb_tokens b1 < 1 + floor_of p b1"
    using assms(2,4) by (auto simp: try_acquire_def Let_def floor_of_def split: if_splits)
  show "wait_for p b1 = Inr ((1 + floor_of p b1 - rb_tokens b1) / rate)"
    using less r rate by (simp add: wait_for_def Let_def max_def)
qed

text \<open>In exact arithmetic a draw that must wait is told exactly how long: without another caller in between it is refused at any
  moment before the wait has passed and granted at any moment after, so that \<open>acquire\<close> returns after at most
  one sleep. With the code's floats the rounding of the tokens and of the wait can leave the bucket just short at the end of the
  sleep: the draw is then refused once more and \<open>acquire\<close> sleeps for the remainder.\<close>

theorem acquire_waits_exactly:
  assumes "0 < rate" and "draws history (mk_budget vendor (Some rate) burst reserve start) = (gs, b)"
    and "sorted (start # map fst history @ [now])"
  shows "fst (acquire [(id, now, wall)] p None b) = Some Spent
    \<or> (\<exists>w b1. acquire [(id, now, wall)] p None b = (None, [(wall, w)], b1) \<and> 0 < w
         \<and> (\<forall>later\<ge>now. fst (try_acquire later p b1) \<longleftrightarrow> now + w \<le> later)
         \<and> (\<forall>later\<ge>now + w. \<forall>wall'. fst (acquire [(id, now, wall), (id, later, wall')] p None b) = Some Spent))"
proof -
  have ok0: "budget_ok (mk_budget vendor (Some rate) burst reserve start)" using assms(1) by (intro mk_budget_ok) simp
  note lim = draws_ok [OF assms(2) ok0, unfolded same_limits_def]
  have ok: "budget_ok b" and rate: "rb_rate b = Some rate" using lim by simp_all
  have "rb_updated b = last (start # map fst history)"
    using draws_paid [OF ok0 _ _ assms(2)] assms(3) by (simp add: sorted_append)
  then have now: "rb_updated b \<le> now" using sorted_from_last [of start "map fst history" "[now]"] assms(3) by simp
  show ?thesis
  proof (cases "fst (try_acquire now p b)")
    case True
    then show ?thesis by (intro disjI1) (simp add: acquire_pass_def case_prod_beta)
  next
    case False
    then obtain b1 where t: "try_acquire now p b = (False, b1)" by (cases "try_acquire now p b") auto
    note w = wait_reaches [OF ok rate now t]
    define wait where "wait = (1 + floor_of p b1 - rb_tokens b1) / rate"
    have pos: "0 < wait" using w(2) assms(1) by (simp add: wait_def)
    have first: "acquire_pass now wall p None b = (Sleeps wait, b1)"
      using t w(1) by (simp add: acquire_pass_def wait_def)
    have exact: "fst (try_acquire later p b1) \<longleftrightarrow> now + wait \<le> later" if "now \<le> later" for later
    proof -
      have "fst (try_acquire later p b1) \<longleftrightarrow> 1 + floor_of p b1 \<le> rb_tokens b1 + (later - now) * rate"
        using try_granted_iff [OF w(5,4)] that w(3) by simp
      also have "\<dots> \<longleftrightarrow> 1 + floor_of p b1 - rb_tokens b1 \<le> (later - now) * rate" by linarith
      also have "\<dots> \<longleftrightarrow> wait \<le> later - now" unfolding wait_def using assms(1) by (simp only: pos_divide_le_eq)
      finally show ?thesis by (simp add: algebra_simps)
    qed
    have again: "fst (acquire [(id, now, wall), (id, later, wall')] p None b) = Some Spent" if "now + wait \<le> later" for later wall'
    proof -
      have "fst (try_acquire later p b1)" using exact [of later] that pos by simp
      then show ?thesis using first by (simp add: acquire_pass_def [of later] case_prod_beta)
    qed
    show ?thesis using first pos exact again by (intro disjI2 exI [of _ wait] exI [of _ b1]) simp
  qed
qed

theorem acquire_waits_exactly_witness:
  "\<exists>w b1. acquire [(id, 1, 7)] LIVE None (snd (draws [(0, LIVE)] (mk_budget ''IB'' (Some (1 / 5)) None None 0))) = (None, [(7, w)], b1)
     \<and> (\<forall>later\<ge>1 + w. \<forall>wall. fst (acquire [(id, 1, 7), (id, later, wall)] LIVE None
          (snd (draws [(0, LIVE)] (mk_budget ''IB'' (Some (1 / 5)) None None 0)))) = Some Spent)"
proof -
  let ?b = "mk_budget ''IB'' (Some (1 / 5)) None None 0"
  obtain gs b where d: "draws [(0, LIVE)] ?b = (gs, b)" by fastforce
  have srt: "sorted (0 # map fst [(0, LIVE)] @ [1 :: rat])" by simp
  have "fst (acquire [(id, 1, 7)] LIVE None (snd (draws [(0, LIVE)] ?b))) \<noteq> Some Spent" by code_simp
  with acquire_waits_exactly [OF _ d srt, of 7 LIVE] show ?thesis using d by auto
qed

text \<open>Other callers draw from the bucket and leave its settings alone.\<close>

definition fair_passes :: "rat option \<Rightarrow> ((rate_budget \<Rightarrow> rate_budget) \<times> rat \<times> instant) list \<Rightarrow> bool" where
  "fair_passes rate passes \<longleftrightarrow>
     (\<forall>(others, now, wall) \<in> set passes. \<forall>x. budget_ok x \<and> rb_rate x = rate \<longrightarrow> budget_ok (others x) \<and> rb_rate (others x) = rate)"

lemma pass_cases:
  assumes "budget_ok b" and "acquire_pass now wall p deadline b = (step, b')"
  shows "budget_ok b' \<and> rb_rate b' = rb_rate b \<and> step \<noteq> Crashes
    \<and> (\<forall>w. step = Sleeps w \<longrightarrow> pred_option (\<lambda>d. wall + timedelta_of_seconds w \<le> d) deadline)
    \<and> (\<forall>e. step = Refused e \<longrightarrow> te_reason e = RATE_BUDGET \<and> tj_error_ok e \<and> (\<exists>d t. deadline = Some d \<and> te_reset_at e = Some t \<and> d < t))"
proof -
  obtain g b2 where g: "try_acquire now p b = (g, b2)" by fastforce
  have b': "b' = b2" using assms(2) g by (simp add: acquire_pass_def)
  have b2: "budget_ok b2" "rb_rate b2 = rb_rate b"
    using try_ok [OF assms(1) g] try_limits [OF g] by (auto simp: same_limits_def)
  have "\<exists>w. wait_for p b2 = Inr w" using b2(1) by (auto simp: wait_for_def budget_ok_def Let_def split: option.split)
  then obtain wait where w: "wait_for p b2 = Inr wait" by blast
  define e where "e = \<lparr>te_class = ExogenousError, te_reason = RATE_BUDGET, te_metadata = [(''vendor'', Text (rb_vendor b2))],
      te_reset_at = Some (wall + timedelta_of_seconds wait)\<rparr>"
  have built: "build_tj_error ExogenousError RATE_BUDGET [(''vendor'', Text (rb_vendor b2))] (Some (Aware (wall + timedelta_of_seconds wait))) = Inr e"
    by (simp add: build_tj_error_def row_of_def REASONS_def checked_reset_at_def METADATA_KEYS_def DERIVED_METADATA_KEYS_def e_def)
  have step: "step = (if g then Granted
      else if (case deadline of None \<Rightarrow> False | Some d \<Rightarrow> d < wall + timedelta_of_seconds wait) then Refused e else Sleeps wait)"
    using assms(2) unfolding b' acquire_pass_def g prod.case w sum.case Let_def by (auto simp: built)
  have "tj_error_ok e" "te_reason e = RATE_BUDGET" using build_tj_error_ok [OF built] by simp_all
  then show ?thesis using b' b2 step by (auto simp: e_def split: option.splits)
qed

lemma acquire_cases:
  assumes "budget_ok b" and "fair_passes (rb_rate b) passes" and "acquire passes p deadline b = (r, ws, b')"
  shows "budget_ok b' \<and> rb_rate b' = rb_rate b \<and> r \<noteq> Some Failed
    \<and> (\<forall>(wall, w) \<in> set ws. pred_option (\<lambda>d. wall + timedelta_of_seconds w \<le> d) deadline)
    \<and> (\<forall>e. r = Some (Raised e) \<longrightarrow> te_reason e = RATE_BUDGET \<and> tj_error_ok e \<and> (\<exists>d t. deadline = Some d \<and> te_reset_at e = Some t \<and> d < t))"
  using assms
proof (induction passes p deadline b arbitrary: r ws b' rule: acquire.induct)
  case (2 others now wall passes p deadline b)
  have ob: "budget_ok (others b)" "rb_rate (others b) = rb_rate b" using 2(2,3) by (auto simp: fair_passes_def)
  obtain step b1 where s: "acquire_pass now wall p deadline (others b) = (step, b1)" by fastforce
  note cases = pass_cases [OF ob(1) s]
  show ?case
  proof (cases step)
    case (Sleeps w)
    obtain r2 ws2 b3 where rest: "acquire passes p deadline b1 = (r2, ws2, b3)" by (metis prod_cases3)
    have "fair_passes (rb_rate b1) passes" using 2(3) cases ob(2) by (simp add: fair_passes_def)
    from 2(1) [OF s [symmetric] Sleeps _ this rest] show ?thesis
      using 2(4) s Sleeps rest cases ob(2) by auto
  qed (use 2(4) s cases ob in auto)
qed simp

text \<open>C28. With a deadline, \<open>acquire\<close> never begins a sleep that would end after it, whatever other callers do to the
  bucket meanwhile, leaving the budget's settings as they are, and however often it has to sleep again: it raises RATE_BUDGET, with
  a reset time past the deadline, instead. A token available at once is spent whatever the deadline, and no call fails in another
  way. That holds for any rate above zero or none. The waits are exact here, and an instant has no last year: a wait past the year
  9999, at a rate near zero, overflows \<open>datetime\<close> in the code.\<close>

theorem deadline_is_never_overslept:
  assumes "budget_ok b" and "fair_passes (rb_rate b) passes" and "acquire passes p (Some deadline) b = (r, ws, b')"
  shows "(\<forall>(wall, w) \<in> set ws. wall + timedelta_of_seconds w \<le> deadline)
    \<and> r \<noteq> Some Failed
    \<and> (\<forall>e. r = Some (Raised e) \<longrightarrow> te_reason e = RATE_BUDGET \<and> tj_error_ok e \<and> (\<exists>t. te_reset_at e = Some t \<and> deadline < t))
    \<and> (\<forall>others now wall. fst (try_acquire now p (others b)) \<longrightarrow>
         fst (acquire ((others, now, wall) # passes) p (Some deadline) b) = Some Spent)"
  using acquire_cases [OF assms] by (simp add: acquire_pass_def case_prod_beta)

theorem deadline_is_never_overslept_witness:
  "fst (acquire [(id, 1, 7)] LIVE (Some 8) (snd (draws [(0, LIVE)] (mk_budget ''IB'' (Some (1 / 5)) None None 0)))) \<noteq> Some Failed
   \<and> fst (acquire [(id, 1, 7)] LIVE (Some 8) (snd (draws [(0, LIVE)] (mk_budget ''IB'' (Some (1 / 5)) None None 0)))) \<notin> {None, Some Spent}"
proof -
  let ?b = "mk_budget ''IB'' (Some (1 / 5)) None None 0"
  obtain gs b where d: "draws [(0, LIVE)] ?b = (gs, b)" by fastforce
  have "budget_ok ?b" by (intro mk_budget_ok) simp
  from draws_ok [OF d this] have ok: "budget_ok b" by simp
  have fair: "fair_passes (rb_rate b) [(id, 1, 7)]" by (simp add: fair_passes_def)
  obtain r ws b' where a: "acquire [(id, 1, 7)] LIVE (Some 8) b = (r, ws, b')" by (metis prod_cases3)
  have "fst (acquire [(id, 1, 7)] LIVE (Some 8) (snd (draws [(0, LIVE)] ?b))) \<notin> {None, Some Spent}" by code_simp
  with deadline_is_never_overslept [OF ok fair a] show ?thesis using a d by simp
qed

text \<open>A rate of zero is accepted; the first draw spends the token the bucket starts with, the next divides by zero.\<close>

lemma zero_rate_divides_by_zero:
  "budget_from_env [''ALPACA_RATE_LIMIT_PER_SEC'' \<mapsto> ''0''] ALPACA_API 0 = Inr (mk_budget ''ALPACA'' (Some 0) None None 0)
    \<and> fst (acquire [(id, 1, 7)] LIVE None (snd (draws [(0, LIVE)] (mk_budget ''ALPACA'' (Some 0) None None 0)))) = Some Failed
    \<and> full_refill_seconds (mk_budget ''ALPACA'' (Some 0) None None 0) = Inl DivisionByZero"
  by (intro conjI; code_simp)

end
