(* ===== verification/Single_Flight.thy ===== *)
theory Single_Flight
  imports Prelude
begin

text \<open>
  \<open>server/data/ingest/app/brokers/single_flight.py\<close>: concurrent calls of one key collapsed onto one
  execution. A step is what a task does between two suspensions of the event loop: a call of \<open>run\<close> up to
  its first await, the end of the leader's \<open>factory\<close> with all that follows it, the resumption of a follower
  once the shared future is done, and the cancellation of a follower. A future and a task are numbered in
  the order of their creation.
\<close>

section \<open>The guard\<close>

datatype 'r call_answer = Answered 'r | Failed_With string | Cancelled

record ('k, 'r) flight_task =
  ft_key :: 'k
  ft_future :: nat
  ft_leader :: bool
  ft_answer :: "'r call_answer option"
  ft_abandoned :: bool

record ('k, 'r) flights =
  fl_in_flight :: "('k \<times> nat) list"
  fl_futures :: "'r call_answer option list"
  fl_tasks :: "('k, 'r) flight_task list"

definition no_flights :: "('k, 'r) flights" where
  "no_flights = \<lparr>fl_in_flight = [], fl_futures = [], fl_tasks = []\<rparr>"

definition in_flight :: "('k, 'r) flights \<Rightarrow> nat" where
  "in_flight s = length (fl_in_flight s)"

text \<open>\<open>run\<close>, up to the await of the leader's future or of the factory\<close>

definition run_call :: "'k \<Rightarrow> ('k, 'r) flights \<Rightarrow> ('k, 'r) flights" where
  "run_call key s =
     (case map_of (fl_in_flight s) key of
        Some f \<Rightarrow>
          s\<lparr>fl_tasks := fl_tasks s @ [\<lparr>ft_key = key, ft_future = f, ft_leader = False, ft_answer = None, ft_abandoned = False\<rparr>]\<rparr>
      | None \<Rightarrow>
          let f = length (fl_futures s)
          in \<lparr>fl_in_flight = (key, f) # fl_in_flight s, fl_futures = fl_futures s @ [None],
              fl_tasks = fl_tasks s @ [\<lparr>ft_key = key, ft_future = f, ft_leader = True, ft_answer = None, ft_abandoned = False\<rparr>]\<rparr>)"

definition release :: "'k \<Rightarrow> nat \<Rightarrow> ('k \<times> nat) list \<Rightarrow> ('k \<times> nat) list" where
  "release key leader flying =
     (if map_of flying key = Some leader then filter (\<lambda>p. fst p \<noteq> key) flying else flying)"

definition end_task :: "nat \<Rightarrow> 'r call_answer \<Rightarrow> bool \<Rightarrow> ('k, 'r) flight_task list \<Rightarrow> ('k, 'r) flight_task list" where
  "end_task i a abandoned ts = ts[i := (ts ! i)\<lparr>ft_answer := Some a, ft_abandoned := abandoned\<rparr>]"

text \<open>The factory returns, raises, or is cancelled with its task: the entry is dropped, then the future is settled.\<close>

definition leader_ends :: "nat \<Rightarrow> 'r call_answer \<Rightarrow> ('k, 'r) flights \<Rightarrow> ('k, 'r) flights option" where
  "leader_ends i a s =
     (if i < length (fl_tasks s) \<and> ft_leader (fl_tasks s ! i) \<and> ft_answer (fl_tasks s ! i) = None
      then let t = fl_tasks s ! i
           in Some \<lparr>fl_in_flight = release (ft_key t) (ft_future t) (fl_in_flight s),
                fl_futures = (fl_futures s)[ft_future t := Some a],
                fl_tasks = end_task i a False (fl_tasks s)\<rparr>
      else None)"

definition follower_wakes :: "nat \<Rightarrow> ('k, 'r) flights \<Rightarrow> ('k, 'r) flights option" where
  "follower_wakes i s =
     (if i < length (fl_tasks s) \<and> \<not> ft_leader (fl_tasks s ! i) \<and> ft_answer (fl_tasks s ! i) = None
      then map_option (\<lambda>a. s\<lparr>fl_tasks := end_task i a False (fl_tasks s)\<rparr>) (fl_futures s ! ft_future (fl_tasks s ! i))
      else None)"

text \<open>\<open>asyncio.shield\<close>: the cancellation of a follower stops at its own await.\<close>

definition follower_cancelled :: "nat \<Rightarrow> ('k, 'r) flights \<Rightarrow> ('k, 'r) flights option" where
  "follower_cancelled i s =
     (if i < length (fl_tasks s) \<and> \<not> ft_leader (fl_tasks s ! i) \<and> ft_answer (fl_tasks s ! i) = None
      then Some (s\<lparr>fl_tasks := end_task i Cancelled True (fl_tasks s)\<rparr>)
      else None)"

inductive flight_step :: "('k, 'r) flights \<Rightarrow> ('k, 'r) flights \<Rightarrow> bool" where
  call: "flight_step s (run_call key s)"
| ends: "leader_ends i a s = Some s' \<Longrightarrow> flight_step s s'"
| wakes: "follower_wakes i s = Some s' \<Longrightarrow> flight_step s s'"
| cancelled: "follower_cancelled i s = Some s' \<Longrightarrow> flight_step s s'"

abbreviation flights_reachable :: "('k, 'r) flights \<Rightarrow> bool" where
  "flights_reachable \<equiv> flight_step\<^sup>*\<^sup>* no_flights"

section \<open>The invariant\<close>

definition running :: "('k, 'r) flights \<Rightarrow> 'k \<Rightarrow> nat set" where
  "running s k = {i. i < length (fl_tasks s) \<and> ft_leader (fl_tasks s ! i) \<and> ft_answer (fl_tasks s ! i) = None \<and> ft_key (fl_tasks s ! i) = k}"

text \<open>A task's future is settled with its answer, unless the task abandoned it; a leader answers by settling it.\<close>

definition task_ok :: "('k, 'r) flights \<Rightarrow> ('k, 'r) flight_task \<Rightarrow> bool" where
  "task_ok s t \<longleftrightarrow>
     ft_future t < length (fl_futures s)
     \<and> (ft_leader t \<longrightarrow> ft_answer t = fl_futures s ! ft_future t \<and> \<not> ft_abandoned t)
     \<and> (ft_answer t \<noteq> None \<and> \<not> ft_abandoned t \<longrightarrow> ft_answer t = fl_futures s ! ft_future t)
     \<and> (fl_futures s ! ft_future t = None \<longrightarrow> (ft_key t, ft_future t) \<in> set (fl_in_flight s))"

definition flights_ok :: "('k, 'r) flights \<Rightarrow> bool" where
  "flights_ok s \<longleftrightarrow>
     (\<forall>t \<in> set (fl_tasks s). task_ok s t)
     \<and> distinct (map fst (fl_in_flight s)) \<and> distinct (map snd (fl_in_flight s))
     \<and> (\<forall>(k, f) \<in> set (fl_in_flight s). f < length (fl_futures s) \<and> fl_futures s ! f = None
          \<and> (\<exists>t \<in> set (fl_tasks s). ft_leader t \<and> ft_key t = k \<and> ft_future t = f \<and> ft_answer t = None))
     \<and> (\<forall>i < length (fl_tasks s). \<forall>j < length (fl_tasks s).
          ft_leader (fl_tasks s ! i) \<and> ft_leader (fl_tasks s ! j) \<and> ft_future (fl_tasks s ! i) = ft_future (fl_tasks s ! j) \<longrightarrow> i = j)"

lemma no_flights_ok: "flights_ok no_flights"
  by (simp add: flights_ok_def no_flights_def)

lemma task_ok_grow: "task_ok s t \<Longrightarrow> set (fl_in_flight s) \<subseteq> set F \<Longrightarrow> task_ok \<lparr>fl_in_flight = F, fl_futures = fl_futures s @ fs, fl_tasks = T\<rparr> t"
  by (auto simp: task_ok_def nth_append)

lemma task_ok_tasks [simp]: "task_ok (s\<lparr>fl_tasks := T\<rparr>) t = task_ok s t"
  by (simp add: task_ok_def)

lemma add_follower_ok:
  assumes "flights_ok s" and "task_ok s t" and "\<not> ft_leader t"
  shows "flights_ok (s\<lparr>fl_tasks := fl_tasks s @ [t]\<rparr>)"
proof -
  have "i = j" if "i < Suc (length (fl_tasks s))" "j < Suc (length (fl_tasks s))"
    "ft_leader ((fl_tasks s @ [t]) ! i)" "ft_leader ((fl_tasks s @ [t]) ! j)"
    "ft_future ((fl_tasks s @ [t]) ! i) = ft_future ((fl_tasks s @ [t]) ! j)" for i j
  proof -
    have "i < length (fl_tasks s)" "j < length (fl_tasks s)"
      using that(1-4) assms(3) by (auto simp: nth_append less_Suc_eq split: if_splits)
    then show ?thesis using that(3-5) assms(1) by (simp add: flights_ok_def nth_append)
  qed
  moreover have "\<forall>(k, f) \<in> set (fl_in_flight s). f < length (fl_futures s) \<and> fl_futures s ! f = None
      \<and> (\<exists>t \<in> set (fl_tasks s @ [t]). ft_leader t \<and> ft_key t = k \<and> ft_future t = f \<and> ft_answer t = None)"
    using assms(1) unfolding flights_ok_def by fastforce
  ultimately show ?thesis using assms(1,2) by (simp add: flights_ok_def)
qed

lemma run_call_ok:
  assumes "flights_ok s"
  shows "flights_ok (run_call key s)"
proof (cases "map_of (fl_in_flight s) key")
  case None
  let ?f = "length (fl_futures s)"
  let ?t = "\<lparr>ft_key = key, ft_future = ?f, ft_leader = True, ft_answer = None, ft_abandoned = False\<rparr>"
  let ?s = "\<lparr>fl_in_flight = (key, ?f) # fl_in_flight s, fl_futures = fl_futures s @ [None], fl_tasks = fl_tasks s @ [?t]\<rparr>"
  have s: "run_call key s = ?s" using None by (simp add: run_call_def Let_def)
  have old: "task_ok s t" "ft_future t < ?f" if "t \<in> set (fl_tasks s)" for t
    using assms that by (auto simp: flights_ok_def task_ok_def)
  have flying: "f < ?f \<and> fl_futures s ! f = None \<and> (\<exists>t \<in> set (fl_tasks s). ft_leader t \<and> ft_key t = k \<and> ft_future t = f \<and> ft_answer t = None)"
    if "(k, f) \<in> set (fl_in_flight s)" for k f using assms that by (auto simp: flights_ok_def)
  have "task_ok ?s t" if "t \<in> set (fl_tasks ?s)" for t
    using that task_ok_grow [OF old(1), of t "(key, ?f) # fl_in_flight s" "[None]" "fl_tasks s @ [?t]"]
    by (auto simp: task_ok_def)
  moreover have "distinct (map fst (fl_in_flight ?s))" "distinct (map snd (fl_in_flight ?s))"
    using assms None flying by (auto simp: flights_ok_def map_of_eq_None_iff)
  moreover have "f < length (fl_futures ?s) \<and> fl_futures ?s ! f = None
      \<and> (\<exists>t \<in> set (fl_tasks ?s). ft_leader t \<and> ft_key t = k \<and> ft_future t = f \<and> ft_answer t = None)"
    if "(k, f) \<in> set (fl_in_flight ?s)" for k f
    using that flying [of k f] by (auto simp: nth_append)
  moreover have "i = j" if "i < length (fl_tasks ?s)" "j < length (fl_tasks ?s)"
    "ft_leader (fl_tasks ?s ! i) \<and> ft_leader (fl_tasks ?s ! j) \<and> ft_future (fl_tasks ?s ! i) = ft_future (fl_tasks ?s ! j)" for i j
    using that assms old(2) [OF nth_mem, of i] old(2) [OF nth_mem, of j]
    by (auto simp: flights_ok_def nth_append less_Suc_eq split: if_splits)
  ultimately show ?thesis unfolding s flights_ok_def by blast
next
  case (Some f)
  then have "(key, f) \<in> set (fl_in_flight s)" by (rule map_of_SomeD)
  moreover have "f < length (fl_futures s)" "fl_futures s ! f = None" using assms calculation by (auto simp: flights_ok_def)
  ultimately show ?thesis using add_follower_ok [OF assms] Some by (simp add: run_call_def task_ok_def)
qed

lemma leader_flying:
  assumes "flights_ok s" and "i < length (fl_tasks s)" and "ft_leader (fl_tasks s ! i)" and "ft_answer (fl_tasks s ! i) = None"
  shows "map_of (fl_in_flight s) (ft_key (fl_tasks s ! i)) = Some (ft_future (fl_tasks s ! i))"
    and "fl_futures s ! ft_future (fl_tasks s ! i) = None" and "ft_future (fl_tasks s ! i) < length (fl_futures s)"
proof -
  have t: "task_ok s (fl_tasks s ! i)" using assms(1,2) by (simp add: flights_ok_def)
  then show "fl_futures s ! ft_future (fl_tasks s ! i) = None" "ft_future (fl_tasks s ! i) < length (fl_futures s)"
    using assms(3,4) by (auto simp: task_ok_def)
  then show "map_of (fl_in_flight s) (ft_key (fl_tasks s ! i)) = Some (ft_future (fl_tasks s ! i))"
    using t assms(1) by (simp add: task_ok_def flights_ok_def)
qed

lemma end_task_fields [simp]:
  assumes "j < length ts"
  shows "length (end_task i a ab ts) = length ts"
    and "ft_key (end_task i a ab ts ! j) = ft_key (ts ! j)" and "ft_future (end_task i a ab ts ! j) = ft_future (ts ! j)"
    and "ft_leader (end_task i a ab ts ! j) = ft_leader (ts ! j)"
    and "ft_answer (end_task i a ab ts ! j) = (if i = j then Some a else ft_answer (ts ! j))"
    and "ft_abandoned (end_task i a ab ts ! j) = (if i = j then ab else ft_abandoned (ts ! j))"
  using assms by (cases "i = j"; simp add: end_task_def)+

lemma end_task_length [simp]: "length (end_task i a ab ts) = length ts"
  by (simp add: end_task_def)

lemma end_task_other: "i \<noteq> j \<Longrightarrow> end_task i a ab ts ! j = ts ! j"
  by (simp add: end_task_def)

text \<open>The invariant over positions, the form the steps are proved in.\<close>

lemma flights_ok_nth:
  "flights_ok s \<longleftrightarrow>
     (\<forall>i < length (fl_tasks s). task_ok s (fl_tasks s ! i))
     \<and> distinct (map fst (fl_in_flight s)) \<and> distinct (map snd (fl_in_flight s))
     \<and> (\<forall>k f. (k, f) \<in> set (fl_in_flight s) \<longrightarrow> f < length (fl_futures s) \<and> fl_futures s ! f = None
          \<and> (\<exists>i < length (fl_tasks s). ft_leader (fl_tasks s ! i) \<and> ft_key (fl_tasks s ! i) = k \<and> ft_future (fl_tasks s ! i) = f
               \<and> ft_answer (fl_tasks s ! i) = None))
     \<and> (\<forall>i < length (fl_tasks s). \<forall>j < length (fl_tasks s).
          ft_leader (fl_tasks s ! i) \<and> ft_leader (fl_tasks s ! j) \<and> ft_future (fl_tasks s ! i) = ft_future (fl_tasks s ! j) \<longrightarrow> i = j)"
proof -
  have all: "(\<forall>t \<in> set ts. P t) \<longleftrightarrow> (\<forall>i < length ts. P (ts ! i))" for P :: "('a, 'b) flight_task \<Rightarrow> bool" and ts
    by (rule all_set_conv_all_nth)
  have ex: "(\<exists>t \<in> set ts. P t) \<longleftrightarrow> (\<exists>i < length ts. P (ts ! i))" for P :: "('a, 'b) flight_task \<Rightarrow> bool" and ts
    by (metis in_set_conv_nth)
  show ?thesis unfolding flights_ok_def all ex by auto
qed

lemma end_follower_ok:
  assumes "flights_ok s" and "i < length (fl_tasks s)" and "\<not> ft_leader (fl_tasks s ! i)"
    and "ab \<or> fl_futures s ! ft_future (fl_tasks s ! i) = Some a"
  shows "flights_ok (s\<lparr>fl_tasks := end_task i a ab (fl_tasks s)\<rparr>)"
proof -
  note ok = assms(1) [unfolded flights_ok_nth]
  have "task_ok s (end_task i a ab (fl_tasks s) ! j)" if "j < length (fl_tasks s)" for j
  proof (cases "i = j")
    case True
    have "task_ok s (fl_tasks s ! j)" using ok that by blast
    then show ?thesis using that assms(3,4) by (auto simp: task_ok_def True)
  qed (use ok that in \<open>simp add: end_task_other\<close>)
  moreover have "\<exists>j < length (fl_tasks s). ft_leader (end_task i a ab (fl_tasks s) ! j) \<and> ft_key (end_task i a ab (fl_tasks s) ! j) = k
      \<and> ft_future (end_task i a ab (fl_tasks s) ! j) = f \<and> ft_answer (end_task i a ab (fl_tasks s) ! j) = None"
    if "(k, f) \<in> set (fl_in_flight s)" for k f
  proof -
    obtain j where "j < length (fl_tasks s)" "ft_leader (fl_tasks s ! j)" "ft_key (fl_tasks s ! j) = k" "ft_future (fl_tasks s ! j) = f"
      "ft_answer (fl_tasks s ! j) = None" using ok \<open>(k, f) \<in> _\<close> by blast
    then show ?thesis using assms(3) by (intro exI [of _ j]) (auto simp: end_task_other)
  qed
  ultimately show ?thesis unfolding flights_ok_nth using ok by simp
qed

lemma release_flying:
  assumes "map_of flying key = Some f" and "distinct (map fst flying)"
  shows "release key f flying = filter (\<lambda>p. fst p \<noteq> key) flying" and "map_of (release key f flying) key = None"
proof -
  show eq: "release key f flying = filter (\<lambda>p. fst p \<noteq> key) flying"
    using assms(1) by (simp add: release_def)
  show "map_of (release key f flying) key = None" unfolding eq by (auto simp: map_of_eq_None_iff)
qed

lemma leader_ends_ok:
  assumes "flights_ok s" and "leader_ends i a s = Some s'"
  shows "flights_ok s'" and "map_of (fl_in_flight s') (ft_key (fl_tasks s ! i)) = None"
proof -
  note ok = assms(1) [unfolded flights_ok_nth]
  let ?t = "fl_tasks s ! i"
  have i: "i < length (fl_tasks s)" "ft_leader ?t" "ft_answer ?t = None"
    and s': "s' = \<lparr>fl_in_flight = release (ft_key ?t) (ft_future ?t) (fl_in_flight s),
                fl_futures = (fl_futures s)[ft_future ?t := Some a], fl_tasks = end_task i a False (fl_tasks s)\<rparr>"
    using assms(2) by (auto simp: leader_ends_def Let_def split: if_splits)
  note fly = leader_flying [OF assms(1) i]
  have dist: "distinct (map fst (fl_in_flight s))" using ok by blast
  note rel = release_flying [OF fly(1) dist]
  show "map_of (fl_in_flight s') (ft_key ?t) = None" using rel(2) by (simp add: s')
  have kept: "(k, f) \<in> set (fl_in_flight s') \<longleftrightarrow> (k, f) \<in> set (fl_in_flight s) \<and> f \<noteq> ft_future ?t" for k f
  proof -
    have mem: "(ft_key ?t, ft_future ?t) \<in> set (fl_in_flight s)" using fly(1) by (rule map_of_SomeD)
    have "(k, f) \<in> set (fl_in_flight s) \<Longrightarrow> k = ft_key ?t \<longleftrightarrow> f = ft_future ?t"
      using mem ok by (metis map_of_is_SomeI option.inject dist eq_snd_iff inj_onD distinct_map fst_conv)
    then show ?thesis by (auto simp: s' rel(1))
  qed
  have task: "task_ok s' (fl_tasks s' ! j)" if j: "j < length (fl_tasks s')" for j
  proof -
    have jj: "j < length (fl_tasks s)" using j by (simp add: s')
    then have task_ok: "task_ok s (fl_tasks s ! j)" using ok by blast
    show ?thesis
    proof (cases "i = j")
      case True
      then show ?thesis using i fly(3) jj by (simp add: task_ok_def s')
    next
      case False
      then have same: "fl_tasks s' ! j = fl_tasks s ! j" by (simp add: s' end_task_other)
      show ?thesis
      proof (cases "ft_future (fl_tasks s ! j) = ft_future ?t")
        case True
        then have "\<not> ft_leader (fl_tasks s ! j)" using ok i(1,2) jj False by metis
        then show ?thesis using task_ok True fly(2,3) unfolding task_ok_def same by (auto simp: s')
      next
        case other: False
        then have "fl_futures s' ! ft_future (fl_tasks s ! j) = fl_futures s ! ft_future (fl_tasks s ! j)"
          "length (fl_futures s') = length (fl_futures s)" by (simp_all add: s')
        then show ?thesis using task_ok other unfolding task_ok_def same by (simp add: kept)
      qed
    qed
  qed
  have flying: "f < length (fl_futures s') \<and> fl_futures s' ! f = None \<and> (\<exists>j < length (fl_tasks s'). ft_leader (fl_tasks s' ! j)
      \<and> ft_key (fl_tasks s' ! j) = k \<and> ft_future (fl_tasks s' ! j) = f \<and> ft_answer (fl_tasks s' ! j) = None)"
    if "(k, f) \<in> set (fl_in_flight s')" for k f
  proof -
    have kf: "(k, f) \<in> set (fl_in_flight s)" "f \<noteq> ft_future ?t" using that kept by blast+
    then obtain j where "j < length (fl_tasks s)" "ft_leader (fl_tasks s ! j)" "ft_key (fl_tasks s ! j) = k" "ft_future (fl_tasks s ! j) = f"
      "ft_answer (fl_tasks s ! j) = None" "f < length (fl_futures s)" "fl_futures s ! f = None" using ok by blast
    then show ?thesis using kf(2) by (auto simp: s' intro!: exI [of _ j])
  qed
  have "distinct (map fst (fl_in_flight s'))" "distinct (map snd (fl_in_flight s'))"
    using ok by (simp_all add: s' rel(1) distinct_map_filter)
  moreover have "\<forall>j < length (fl_tasks s'). \<forall>l < length (fl_tasks s').
      ft_leader (fl_tasks s' ! j) \<and> ft_leader (fl_tasks s' ! l) \<and> ft_future (fl_tasks s' ! j) = ft_future (fl_tasks s' ! l) \<longrightarrow> j = l"
    using ok by (simp add: s')
  ultimately show "flights_ok s'" unfolding flights_ok_nth using task flying by blast
qed

lemma flight_step_ok: "flight_step s s' \<Longrightarrow> flights_ok s \<Longrightarrow> flights_ok s'"
proof (induction rule: flight_step.induct)
  case (wakes i s s')
  then show ?case by (auto simp: follower_wakes_def split: if_splits intro!: end_follower_ok)
next
  case (cancelled i s s')
  then show ?case by (auto simp: follower_cancelled_def split: if_splits intro!: end_follower_ok)
qed (auto intro: run_call_ok leader_ends_ok)

lemma reachable_ok: "flights_reachable s \<Longrightarrow> flights_ok s"
  by (induction rule: rtranclp_induct) (auto intro: no_flights_ok flight_step_ok)

lemma running_unique:
  assumes "flights_ok s" and "i \<in> running s k" and "j \<in> running s k"
  shows "i = j"
proof -
  have i: "i < length (fl_tasks s)" "ft_leader (fl_tasks s ! i)" "ft_answer (fl_tasks s ! i) = None" "ft_key (fl_tasks s ! i) = k"
    and j: "j < length (fl_tasks s)" "ft_leader (fl_tasks s ! j)" "ft_answer (fl_tasks s ! j) = None" "ft_key (fl_tasks s ! j) = k"
    using assms(2,3) by (auto simp: running_def)
  have "ft_future (fl_tasks s ! i) = ft_future (fl_tasks s ! j)"
    using leader_flying(1) [OF assms(1) i(1-3)] leader_flying(1) [OF assms(1) j(1-3)] i(4) j(4) by simp
  then show ?thesis using assms(1) i j unfolding flights_ok_nth by blast
qed

lemma flying_running:
  assumes "flights_ok s"
  shows "map_of (fl_in_flight s) k = Some f \<longleftrightarrow> (\<exists>i \<in> running s k. ft_future (fl_tasks s ! i) = f)"
proof
  assume "map_of (fl_in_flight s) k = Some f"
  then have "(k, f) \<in> set (fl_in_flight s)" by (rule map_of_SomeD)
  then show "\<exists>i \<in> running s k. ft_future (fl_tasks s ! i) = f" using assms unfolding flights_ok_nth running_def by blast
next
  assume "\<exists>i \<in> running s k. ft_future (fl_tasks s ! i) = f"
  then show "map_of (fl_in_flight s) k = Some f" using leader_flying(1) [OF assms] by (auto simp: running_def)
qed

definition led :: "('k, 'r) flights \<Rightarrow> bool" where
  "led s \<longleftrightarrow> (\<forall>i < length (fl_tasks s). \<exists>j < length (fl_tasks s). ft_leader (fl_tasks s ! j)
     \<and> ft_future (fl_tasks s ! j) = ft_future (fl_tasks s ! i) \<and> ft_key (fl_tasks s ! j) = ft_key (fl_tasks s ! i))"

lemma led_end [simp]: "led \<lparr>fl_in_flight = F, fl_futures = fs, fl_tasks = end_task i a ab (fl_tasks s)\<rparr> = led s"
  by (simp add: led_def cong: conj_cong)

lemma led_ended [simp]: "led (s\<lparr>fl_tasks := end_task i a ab (fl_tasks s)\<rparr>) = led s"
  by (simp add: led_def cong: conj_cong)

lemma flights_ok_task: "flights_ok s \<Longrightarrow> i < length (fl_tasks s) \<Longrightarrow> task_ok s (fl_tasks s ! i)"
  by (simp add: flights_ok_def)

lemma led_add:
  assumes "led s" and "ft_leader t \<or> (\<exists>l \<in> set (fl_tasks s). ft_leader l \<and> ft_future l = ft_future t \<and> ft_key l = ft_key t)"
  shows "led \<lparr>fl_in_flight = F, fl_futures = fs, fl_tasks = fl_tasks s @ [t]\<rparr>"
proof -
  have new: "\<exists>j < Suc (length (fl_tasks s)). ft_leader ((fl_tasks s @ [t]) ! j)
     \<and> ft_future ((fl_tasks s @ [t]) ! j) = ft_future t \<and> ft_key ((fl_tasks s @ [t]) ! j) = ft_key t"
    using assms(2) by (metis in_set_conv_nth less_Suc_eq nth_append nth_append_length)
  have old: "\<exists>j < Suc (length (fl_tasks s)). ft_leader ((fl_tasks s @ [t]) ! j)
     \<and> ft_future ((fl_tasks s @ [t]) ! j) = ft_future (fl_tasks s ! i) \<and> ft_key ((fl_tasks s @ [t]) ! j) = ft_key (fl_tasks s ! i)"
    if "i < length (fl_tasks s)" for i
    using assms(1) that unfolding led_def by (metis less_Suc_eq nth_append)
  show ?thesis using new old by (auto simp: led_def less_Suc_eq nth_append)
qed

lemma led_step: "flight_step s s' \<Longrightarrow> flights_ok s \<Longrightarrow> led s \<Longrightarrow> led s'"
proof (induction rule: flight_step.induct)
  case (call s key)
  show ?case
  proof (cases "map_of (fl_in_flight s) key")
    case None
    then have "run_call key s = \<lparr>fl_in_flight = (key, length (fl_futures s)) # fl_in_flight s, fl_futures = fl_futures s @ [None],
        fl_tasks = fl_tasks s @ [\<lparr>ft_key = key, ft_future = length (fl_futures s), ft_leader = True, ft_answer = None, ft_abandoned = False\<rparr>]\<rparr>"
      by (simp add: run_call_def Let_def)
    then show ?thesis by (simp only:) (rule led_add [OF call(2)], simp)
  next
    case (Some f)
    obtain i where "i \<in> running s key" "ft_future (fl_tasks s ! i) = f"
      using flying_running [OF call(1), of key f] Some by auto
    then have "\<exists>l \<in> set (fl_tasks s). ft_leader l \<and> ft_future l = f \<and> ft_key l = key"
      by (intro bexI [of _ "fl_tasks s ! i"]) (auto simp: running_def)
    then have "led \<lparr>fl_in_flight = fl_in_flight s, fl_futures = fl_futures s, fl_tasks = fl_tasks s @
        [\<lparr>ft_key = key, ft_future = f, ft_leader = False, ft_answer = None, ft_abandoned = False\<rparr>]\<rparr>"
      by (intro led_add [OF call(2)]) simp
    then show ?thesis using Some by (simp add: run_call_def led_def)
  qed
next
  case (ends i a s s')
  then show ?case by (auto simp: leader_ends_def Let_def split: if_splits)
next
  case (wakes i s s')
  then show ?case by (auto simp: follower_wakes_def split: if_splits)
next
  case (cancelled i s s')
  then show ?case by (auto simp: follower_cancelled_def split: if_splits)
qed

lemma reachable_led: "flights_reachable s \<Longrightarrow> led s"
proof (induction rule: rtranclp_induct)
  case base
  then show ?case by (simp add: led_def no_flights_def)
next
  case (step s s')
  then show ?case by (blast intro: led_step reachable_ok)
qed

text \<open>C29. At any point of any interleaving at most one execution per key is running, the map holds exactly the
  keys of the running ones, and every caller with an answer that was not itself cancelled has the answer of one
  execution of its own key, which it led or attached to.\<close>

theorem single_flight_invariant:
  assumes "flights_reachable s"
  shows "(\<forall>k. \<forall>i \<in> running s k. \<forall>j \<in> running s k. i = j)
    \<and> (\<forall>k. map_of (fl_in_flight s) k \<noteq> None \<longleftrightarrow> running s k \<noteq> {})
    \<and> (in_flight s = 0 \<longleftrightarrow> (\<forall>k. running s k = {}))
    \<and> (\<forall>i < length (fl_tasks s). ft_answer (fl_tasks s ! i) \<noteq> None \<and> \<not> ft_abandoned (fl_tasks s ! i) \<longrightarrow>
         (\<exists>l < length (fl_tasks s). ft_leader (fl_tasks s ! l) \<and> ft_key (fl_tasks s ! l) = ft_key (fl_tasks s ! i)
            \<and> ft_future (fl_tasks s ! l) = ft_future (fl_tasks s ! i) \<and> ft_answer (fl_tasks s ! l) = ft_answer (fl_tasks s ! i)))"
proof -
  note ok = reachable_ok [OF assms]
  have held: "map_of (fl_in_flight s) k \<noteq> None \<longleftrightarrow> running s k \<noteq> {}" for k
    using flying_running [OF ok, of k] by (metis all_not_in_conv not_None_eq)
  have "fl_in_flight s = [] \<longleftrightarrow> (\<forall>k. map_of (fl_in_flight s) k = None)"
    by (cases "fl_in_flight s") (auto simp: fun_eq_iff split: if_splits)
  then have empty: "in_flight s = 0 \<longleftrightarrow> (\<forall>k. running s k = {})" using held unfolding in_flight_def length_0_conv by metis
  have one_answer: "\<exists>l < length (fl_tasks s). ft_leader (fl_tasks s ! l) \<and> ft_key (fl_tasks s ! l) = ft_key (fl_tasks s ! i)
            \<and> ft_future (fl_tasks s ! l) = ft_future (fl_tasks s ! i) \<and> ft_answer (fl_tasks s ! l) = ft_answer (fl_tasks s ! i)"
    if i: "i < length (fl_tasks s)" and a: "ft_answer (fl_tasks s ! i) \<noteq> None \<and> \<not> ft_abandoned (fl_tasks s ! i)" for i
  proof -
    obtain l where l: "l < length (fl_tasks s)" "ft_leader (fl_tasks s ! l)"
      "ft_future (fl_tasks s ! l) = ft_future (fl_tasks s ! i)" "ft_key (fl_tasks s ! l) = ft_key (fl_tasks s ! i)"
      using reachable_led [OF assms] i unfolding led_def by blast
    have "task_ok s (fl_tasks s ! i)" "task_ok s (fl_tasks s ! l)" using flights_ok_task [OF ok] i l(1) by simp_all
    then have "ft_answer (fl_tasks s ! l) = ft_answer (fl_tasks s ! i)" using a l(2,3) unfolding task_ok_def by metis
    then show ?thesis using l by (intro exI [of _ l] conjI)
  qed
  have ans: "\<forall>i < length (fl_tasks s). ft_answer (fl_tasks s ! i) \<noteq> None \<and> \<not> ft_abandoned (fl_tasks s ! i) \<longrightarrow>
         (\<exists>l < length (fl_tasks s). ft_leader (fl_tasks s ! l) \<and> ft_key (fl_tasks s ! l) = ft_key (fl_tasks s ! i)
            \<and> ft_future (fl_tasks s ! l) = ft_future (fl_tasks s ! i) \<and> ft_answer (fl_tasks s ! l) = ft_answer (fl_tasks s ! i))"
    by (intro allI impI) (rule one_answer)
  have one: "\<forall>k. \<forall>i \<in> running s k. \<forall>j \<in> running s k. i = j" using running_unique [OF ok] by blast
  show ?thesis by (rule conjI [OF one conjI [OF allI [OF held] conjI [OF empty ans]]])
qed

theorem single_flight_invariant_witness:
  "\<exists>s :: (nat, nat) flights. flights_reachable s \<and> in_flight s = 0 \<and> (\<forall>k. running s k = {}) \<and> length (fl_tasks s) = 2"
proof -
  let ?s1 = "run_call 7 (run_call 7 no_flights) :: (nat, nat) flights"
  let ?s = "\<lparr>fl_in_flight = [], fl_futures = [Some (Answered 5)],
    fl_tasks = [\<lparr>ft_key = 7, ft_future = 0, ft_leader = True, ft_answer = Some (Answered 5), ft_abandoned = False\<rparr>,
      \<lparr>ft_key = 7, ft_future = 0, ft_leader = False, ft_answer = None, ft_abandoned = False\<rparr>]\<rparr> :: (nat, nat) flights"
  have "leader_ends 0 (Answered 5) ?s1 = Some ?s"
    by (simp add: run_call_def no_flights_def leader_ends_def end_task_def release_def)
  then have "flights_reachable ?s"
    using flight_step.call [of "no_flights :: (nat, nat) flights" 7] flight_step.call [of "run_call 7 no_flights :: (nat, nat) flights" 7]
    by (meson flight_step.ends r_into_rtranclp rtranclp_trans)
  then show ?thesis using single_flight_invariant [of ?s] by (intro exI [of _ ?s]) (simp add: in_flight_def)
qed

text \<open>C30. A call made while another of its key is running attaches to it and starts no execution, any other call
  starts a fresh one; when the execution ends the key is free at once, and every caller still attached
  resumes with exactly its answer.\<close>

theorem calls_collapse_and_nothing_is_retained:
  assumes "flights_reachable s"
  shows "length (fl_futures (run_call key s)) = length (fl_futures s) + of_bool (running s key = {})
    \<and> (let t = last (fl_tasks (run_call key s))
       in ft_key t = key \<and> ft_answer t = None \<and> fl_futures (run_call key s) ! ft_future t = None
          \<and> (if running s key = {} then ft_leader t else \<exists>i \<in> running s key. ft_future t = ft_future (fl_tasks s ! i)))
    \<and> (\<forall>i a s'. leader_ends i a s = Some s' \<longrightarrow> running s' (ft_key (fl_tasks s ! i)) = {}
         \<and> (\<forall>j < length (fl_tasks s). \<not> ft_leader (fl_tasks s ! j) \<and> ft_answer (fl_tasks s ! j) = None
              \<and> ft_future (fl_tasks s ! j) = ft_future (fl_tasks s ! i) \<longrightarrow>
              (\<exists>s''. follower_wakes j s' = Some s'' \<and> ft_answer (fl_tasks s'' ! j) = Some a)))"
proof -
  note ok = reachable_ok [OF assms]
  have held: "map_of (fl_in_flight s) k = None \<longleftrightarrow> running s k = {}" if "flights_ok s" for s :: "('a, 'b) flights" and k
    using flying_running [OF that, of k] by (metis all_not_in_conv not_None_eq)
  have start: "length (fl_futures (run_call key s)) = length (fl_futures s) + of_bool (running s key = {})
    \<and> (let t = last (fl_tasks (run_call key s))
       in ft_key t = key \<and> ft_answer t = None \<and> fl_futures (run_call key s) ! ft_future t = None
          \<and> (if running s key = {} then ft_leader t else \<exists>i \<in> running s key. ft_future t = ft_future (fl_tasks s ! i)))"
  proof (cases "map_of (fl_in_flight s) key")
    case None
    then have "running s key = {}" using held [OF ok] by blast
    then show ?thesis by (simp add: run_call_def Let_def None)
  next
    case (Some f)
    then have "fl_futures s ! f = None" using ok map_of_SomeD [OF Some] unfolding flights_ok_nth by blast
    moreover have "running s key \<noteq> {}" using held [OF ok, of key] Some by auto
    moreover have "\<exists>i \<in> running s key. f = ft_future (fl_tasks s ! i)" using flying_running [OF ok, of key f] Some by auto
    ultimately show ?thesis using Some by (simp add: run_call_def)
  qed
  have "running s' (ft_key (fl_tasks s ! i)) = {}
         \<and> (\<forall>j < length (fl_tasks s). \<not> ft_leader (fl_tasks s ! j) \<and> ft_answer (fl_tasks s ! j) = None
              \<and> ft_future (fl_tasks s ! j) = ft_future (fl_tasks s ! i) \<longrightarrow>
              (\<exists>s''. follower_wakes j s' = Some s'' \<and> ft_answer (fl_tasks s'' ! j) = Some a))"
    if e: "leader_ends i a s = Some s'" for i a s'
  proof -
    have i: "i < length (fl_tasks s)" "ft_leader (fl_tasks s ! i)" "ft_answer (fl_tasks s ! i) = None"
      using e by (auto simp: leader_ends_def split: if_splits)
    have "running s' (ft_key (fl_tasks s ! i)) = {}"
      using leader_ends_ok [OF ok e] held by blast
    moreover have "\<exists>s''. follower_wakes j s' = Some s'' \<and> ft_answer (fl_tasks s'' ! j) = Some a"
      if "j < length (fl_tasks s)" "\<not> ft_leader (fl_tasks s ! j)" "ft_answer (fl_tasks s ! j) = None"
        "ft_future (fl_tasks s ! j) = ft_future (fl_tasks s ! i)" for j
    proof -
      have "i \<noteq> j" using that(2) i(2) by blast
      moreover have "fl_futures s' ! ft_future (fl_tasks s ! i) = Some a"
        using e leader_flying(3) [OF ok i] by (auto simp: leader_ends_def Let_def split: if_splits)
      ultimately show ?thesis
        using that e by (auto simp: follower_wakes_def leader_ends_def Let_def split: if_splits)
    qed
    ultimately show ?thesis by blast
  qed
  then show ?thesis using start by blast
qed

theorem calls_collapse_and_nothing_is_retained_witness:
  "\<exists>s :: (nat, nat) flights. flights_reachable s \<and> length (fl_futures (run_call 7 (run_call 7 s))) = 1"
proof -
  let ?s = "run_call 7 no_flights :: (nat, nat) flights"
  have "flights_reachable ?s" by (rule r_into_rtranclp) (rule flight_step.call)
  from calls_collapse_and_nothing_is_retained [OF this, of 7]
  have "length (fl_futures (run_call 7 ?s)) = 1"
    by (auto simp: running_def run_call_def no_flights_def)
  then show ?thesis by blast
qed

end
