(* ===== verification/Wire_Values.thy ===== *)
theory Wire_Values
  imports Daily_Refresh
begin

text \<open>
  \<open>server/common/rpc/mapping/values.py\<close>: the leaves of every message, enums by member name and
  timestamps. An enum of \<open>proto/trader_joe/proto/market/v1/enums.proto\<close> is its name and its table of value
  names and numbers; a member of a Python enum is its name. The checks a mapping makes at import are the
  assumptions of a locale, discharged for each of the six enums.
\<close>

section \<open>Enums\<close>

datatype mapping_error = ProtoMappingError | EncodingError

record enum_mapping =
  em_values :: "(string \<times> int) list"
  em_members :: "string list"
  em_prefix :: string

fun camel_boundary :: "string \<Rightarrow> string" where
  "camel_boundary (c # d # s) =
     (if (c \<in> set chars_lower \<or> c \<in> set chars_digit) \<and> d \<in> set chars_upper
      then c # CHR ''_'' # camel_boundary (d # s) else c # camel_boundary (d # s))"
| "camel_boundary s = s"

definition value_prefix :: "string \<Rightarrow> string" where
  "value_prefix enum_name = upper (camel_boundary enum_name) @ ''_''"

definition removeprefix :: "string \<Rightarrow> string \<Rightarrow> string" where
  "removeprefix pre s = (case drop_prefix pre s of None \<Rightarrow> s | Some t \<Rightarrow> t)"

definition values_by_number :: "(string \<times> int) list \<Rightarrow> int \<Rightarrow> (string \<times> int) option" where
  "values_by_number values number = find (\<lambda>v. snd v = number) values"

definition values_by_name :: "(string \<times> int) list \<Rightarrow> string \<Rightarrow> (string \<times> int) option" where
  "values_by_name values name = find (\<lambda>v. fst v = name) values"

definition mapping_of :: "string \<Rightarrow> (string \<times> int) list \<Rightarrow> string list \<Rightarrow> build_error + enum_mapping" where
  "mapping_of enum_name values python_members =
     (let pre = value_prefix enum_name in
      if map_option fst (values_by_number values 0) \<noteq> Some (pre @ ''UNSPECIFIED'') then Inl ValueError
      else if list_ex (\<lambda>v. drop_prefix pre (fst v) = None) values then Inl ValueError
      else if set (map (\<lambda>v. removeprefix pre (fst v)) (filter (\<lambda>v. snd v \<noteq> 0) values)) \<noteq> set python_members then Inl ValueError
      else Inr \<lparr>em_values = values, em_members = python_members, em_prefix = pre\<rparr>)"

text \<open>\<open>python_type[name]\<close> of a name that is no member is a \<open>KeyError\<close>, which the check at import rules out.\<close>

definition to_domain :: "enum_mapping \<Rightarrow> int \<Rightarrow> mapping_error + string" where
  "to_domain em number =
     (case values_by_number (em_values em) number of
        None \<Rightarrow> Inl ProtoMappingError
      | Some v \<Rightarrow>
          if snd v = 0 then Inl ProtoMappingError
          else let name = removeprefix (em_prefix em) (fst v)
               in if name \<in> set (em_members em) then Inr name else Inl EncodingError)"

definition to_proto :: "enum_mapping \<Rightarrow> string \<Rightarrow> mapping_error + int" where
  "to_proto em name =
     (case values_by_name (em_values em) (em_prefix em @ name) of
        None \<Rightarrow> Inl ProtoMappingError
      | Some v \<Rightarrow> Inr (snd v))"

text \<open>The same on the enum's own type: the name of each member, and the member of a name.\<close>

definition member_to_proto :: "enum_mapping \<Rightarrow> ('e \<Rightarrow> string) \<Rightarrow> 'e \<Rightarrow> mapping_error + int" where
  "member_to_proto em name_of e = to_proto em (name_of e)"

definition member_to_domain :: "enum_mapping \<Rightarrow> ('e \<Rightarrow> string) \<Rightarrow> 'e list \<Rightarrow> int \<Rightarrow> mapping_error + 'e" where
  "member_to_domain em name_of members number =
     bind_r (to_domain em number) (\<lambda>name.
       case find (\<lambda>e. name_of e = name) members of None \<Rightarrow> Inl EncodingError | Some e \<Rightarrow> Inr e)"

lemma find_first_key:
  assumes "distinct (map f xs)"
  shows "find (\<lambda>x. f x = k) xs = Some x \<longleftrightarrow> x \<in> set xs \<and> f x = k"
  using assms by (induction xs) (auto simp: image_iff)

lemma find_inj: "inj f \<Longrightarrow> find (\<lambda>x. f x = k) xs = Some x \<longleftrightarrow> x \<in> set xs \<and> f x = k"
  by (induction xs) (auto dest: injD)

lemma removeprefix_append [simp]: "removeprefix p (p @ s) = s"
  by (simp add: removeprefix_def)

locale mirrored_enum =
  fixes enum_name :: string and table :: "(string \<times> int) list" and name_of :: "'e \<Rightarrow> string" and members :: "'e list"
    and em :: enum_mapping
  assumes checked: "mapping_of enum_name table (map name_of members) = Inr em"
    and names: "distinct (map fst table)" and numbers: "distinct (map snd table)"
    and member_names: "inj name_of" and all_members: "\<And>e. e \<in> set members"
begin

lemma mapping:
  "em = \<lparr>em_values = table, em_members = map name_of members, em_prefix = value_prefix enum_name\<rparr>"
  using checked by (auto simp: mapping_of_def Let_def split: if_splits)

lemma prefixed: "v \<in> set table \<Longrightarrow> \<exists>name. fst v = value_prefix enum_name @ name"
proof -
  assume "v \<in> set table"
  moreover have "\<not> list_ex (\<lambda>v. drop_prefix (value_prefix enum_name) (fst v) = None) table"
    using checked by (auto simp: mapping_of_def Let_def split: if_splits)
  moreover have "drop_prefix p s = Some t \<Longrightarrow> s = p @ t" for p s t
    by (induction p s rule: drop_prefix.induct) (auto split: if_splits)
  ultimately show ?thesis by (fastforce simp: list_ex_iff)
qed

lemma on_wire: "set (map (\<lambda>v. removeprefix (value_prefix enum_name) (fst v)) (filter (\<lambda>v. snd v \<noteq> 0) table)) = name_of ` set members"
  using checked by (auto simp: mapping_of_def Let_def split: if_splits)

lemma by_number: "values_by_number table n = Some v \<longleftrightarrow> v \<in> set table \<and> snd v = n"
  unfolding values_by_number_def by (rule find_first_key [OF numbers])

lemma by_name: "values_by_name table s = Some v \<longleftrightarrow> v \<in> set table \<and> fst v = s"
  unfolding values_by_name_def by (rule find_first_key [OF names])

lemma member_value: "\<exists>n. n \<noteq> 0 \<and> (value_prefix enum_name @ name_of e, n) \<in> set table"
proof -
  have "name_of e \<in> set (map (\<lambda>v. removeprefix (value_prefix enum_name) (fst v)) (filter (\<lambda>v. snd v \<noteq> 0) table))"
    unfolding on_wire using all_members by simp
  then obtain v where v: "v \<in> set table" "snd v \<noteq> 0" "removeprefix (value_prefix enum_name) (fst v) = name_of e" by auto
  then have "v = (value_prefix enum_name @ name_of e, snd v)" using prefixed [OF v(1)] by (auto simp: prod_eq_iff)
  then show ?thesis using v(1,2) by metis
qed

lemma encodes: "member_to_proto em name_of e = Inr n \<longleftrightarrow> n \<noteq> 0 \<and> (value_prefix enum_name @ name_of e, n) \<in> set table"
proof -
  obtain k where k: "k \<noteq> 0" "(value_prefix enum_name @ name_of e, k) \<in> set table" using member_value by blast
  then have "values_by_name table (value_prefix enum_name @ name_of e) = Some (value_prefix enum_name @ name_of e, k)"
    by (simp add: by_name)
  then have "member_to_proto em name_of e = Inr k" by (simp add: member_to_proto_def to_proto_def mapping)
  moreover have "(value_prefix enum_name @ name_of e, n) \<in> set table \<Longrightarrow> n = k"
    using k(2) names by (metis eq_key_imp_eq_value)
  ultimately show ?thesis using k by auto
qed

lemma always_encodes: "\<exists>n. n \<noteq> 0 \<and> member_to_proto em name_of e = Inr n"
  using member_value encodes by blast

lemma member_named: "find (\<lambda>e. name_of e = s) members = Some e \<longleftrightarrow> name_of e = s"
  using find_inj [OF member_names, of s members e] all_members by simp

lemma decodes: "member_to_domain em name_of members n = Inr e \<longleftrightarrow> member_to_proto em name_of e = Inr n"
proof
  assume "member_to_domain em name_of members n = Inr e"
  then obtain v where v: "values_by_number table n = Some v" "snd v \<noteq> 0" "name_of e = removeprefix (value_prefix enum_name) (fst v)"
    by (auto simp: member_to_domain_def to_domain_def mapping bind_r_Inr_iff Let_def member_named
        split: option.splits if_splits)
  then have "v \<in> set table" "snd v = n" by (simp_all add: by_number)
  moreover have "v = (value_prefix enum_name @ name_of e, n)" using prefixed [OF calculation(1)] v(3) calculation(2) by (cases v) auto
  ultimately show "member_to_proto em name_of e = Inr n" using v(2) by (simp add: encodes)
next
  assume "member_to_proto em name_of e = Inr n"
  then have "n \<noteq> 0" "values_by_number table n = Some (value_prefix enum_name @ name_of e, n)"
    by (simp_all add: encodes by_number)
  then show "member_to_domain em name_of members n = Inr e"
    using all_members by (simp add: member_to_domain_def to_domain_def mapping Let_def member_named [THEN iffD2, OF refl])
qed

lemma refuses:
  "(\<nexists>e. member_to_domain em name_of members n = Inr e) \<longleftrightarrow> n = 0 \<or> n \<notin> snd ` set table"
proof -
  have "(\<exists>e. member_to_domain em name_of members n = Inr e) \<longleftrightarrow> n \<noteq> 0 \<and> n \<in> snd ` set table"
  proof
    assume "\<exists>e. member_to_domain em name_of members n = Inr e"
    then show "n \<noteq> 0 \<and> n \<in> snd ` set table" unfolding decodes encodes by force
  next
    assume n: "n \<noteq> 0 \<and> n \<in> snd ` set table"
    then obtain v where v: "v \<in> set table" "snd v = n" by blast
    then have "removeprefix (value_prefix enum_name) (fst v) \<in> name_of ` set members"
      unfolding on_wire [symmetric] using n by force
    then obtain e where "name_of e = removeprefix (value_prefix enum_name) (fst v)" by auto
    then have "v = (value_prefix enum_name @ name_of e, n)" using prefixed [OF v(1)] v(2) by (cases v) auto
    then show "\<exists>e. member_to_domain em name_of members n = Inr e" unfolding decodes encodes using v(1) n by blast
  qed
  then show ?thesis by blast
qed

end

section \<open>The six enums\<close>

fun asset_type_name :: "asset_type \<Rightarrow> string" where
  "asset_type_name STOCK = ''STOCK''"
| "asset_type_name CRYPTO = ''CRYPTO''"
| "asset_type_name OPTION = ''OPTION''"

fun data_source_name :: "data_source \<Rightarrow> string" where
  "data_source_name IB_API = ''IB_API''"
| "data_source_name ALPACA_API = ''ALPACA_API''"
| "data_source_name MANUAL_ENTRY = ''MANUAL_ENTRY''"

fun data_type_name :: "data_type \<Rightarrow> string" where
  "data_type_name MARKET_ACTIVITY = ''MARKET_ACTIVITY''"
| "data_type_name QUOTE = ''QUOTE''"
| "data_type_name TRADE = ''TRADE''"

fun feed_name :: "feed \<Rightarrow> string" where
  "feed_name IEX = ''IEX''"
| "feed_name SIP = ''SIP''"
| "feed_name NOT_APPLICABLE = ''NOT_APPLICABLE''"

fun granularity_name :: "granularity \<Rightarrow> string" where
  "granularity_name ONE_MINUTE = ''ONE_MINUTE''"
| "granularity_name FIVE_MINUTES = ''FIVE_MINUTES''"
| "granularity_name THIRTY_MINUTES = ''THIRTY_MINUTES''"
| "granularity_name ONE_HOUR = ''ONE_HOUR''"
| "granularity_name ONE_DAY = ''ONE_DAY''"
| "granularity_name ONE_WEEK = ''ONE_WEEK''"
| "granularity_name ONE_MONTH = ''ONE_MONTH''"

fun update_type_name :: "update_type \<Rightarrow> string" where
  "update_type_name STATIC = ''STATIC''"
| "update_type_name DAILY = ''DAILY''"
| "update_type_name STREAM = ''STREAM''"

definition AssetType_values :: "(string \<times> int) list" where
  "AssetType_values = [(''ASSET_TYPE_UNSPECIFIED'', 0), (''ASSET_TYPE_STOCK'', 1), (''ASSET_TYPE_CRYPTO'', 2), (''ASSET_TYPE_OPTION'', 3)]"

definition DataSource_values :: "(string \<times> int) list" where
  "DataSource_values = [(''DATA_SOURCE_UNSPECIFIED'', 0), (''DATA_SOURCE_IB_API'', 1), (''DATA_SOURCE_ALPACA_API'', 2),
     (''DATA_SOURCE_MANUAL_ENTRY'', 3)]"

definition DataType_values :: "(string \<times> int) list" where
  "DataType_values = [(''DATA_TYPE_UNSPECIFIED'', 0), (''DATA_TYPE_MARKET_ACTIVITY'', 1), (''DATA_TYPE_QUOTE'', 2), (''DATA_TYPE_TRADE'', 3)]"

definition Feed_values :: "(string \<times> int) list" where
  "Feed_values = [(''FEED_UNSPECIFIED'', 0), (''FEED_IEX'', 1), (''FEED_SIP'', 2), (''FEED_NOT_APPLICABLE'', 3)]"

definition Granularity_values :: "(string \<times> int) list" where
  "Granularity_values = [(''GRANULARITY_UNSPECIFIED'', 0), (''GRANULARITY_ONE_MINUTE'', 1), (''GRANULARITY_FIVE_MINUTES'', 2),
     (''GRANULARITY_THIRTY_MINUTES'', 3), (''GRANULARITY_ONE_HOUR'', 4), (''GRANULARITY_ONE_DAY'', 5), (''GRANULARITY_ONE_WEEK'', 6),
     (''GRANULARITY_ONE_MONTH'', 7)]"

definition UpdateType_values :: "(string \<times> int) list" where
  "UpdateType_values = [(''UPDATE_TYPE_UNSPECIFIED'', 0), (''UPDATE_TYPE_STATIC'', 1), (''UPDATE_TYPE_DAILY'', 2), (''UPDATE_TYPE_STREAM'', 3)]"

definition mapping_or :: "build_error + enum_mapping \<Rightarrow> enum_mapping" where
  "mapping_or r = (case r of Inl e \<Rightarrow> \<lparr>em_values = [], em_members = [], em_prefix = []\<rparr> | Inr em \<Rightarrow> em)"

definition ASSET_TYPE :: enum_mapping where
  "ASSET_TYPE = mapping_or (mapping_of ''AssetType'' AssetType_values (map asset_type_name [STOCK, CRYPTO, OPTION]))"

definition DATA_SOURCE :: enum_mapping where
  "DATA_SOURCE = mapping_or (mapping_of ''DataSource'' DataSource_values (map data_source_name [IB_API, ALPACA_API, MANUAL_ENTRY]))"

definition DATA_TYPE :: enum_mapping where
  "DATA_TYPE = mapping_or (mapping_of ''DataType'' DataType_values (map data_type_name [MARKET_ACTIVITY, QUOTE, TRADE]))"

definition FEED :: enum_mapping where
  "FEED = mapping_or (mapping_of ''Feed'' Feed_values (map feed_name [IEX, SIP, NOT_APPLICABLE]))"

definition GRANULARITY :: enum_mapping where
  "GRANULARITY = mapping_or (mapping_of ''Granularity'' Granularity_values (map granularity_name [ONE_MINUTE, FIVE_MINUTES, THIRTY_MINUTES, ONE_HOUR, ONE_DAY, ONE_WEEK, ONE_MONTH]))"

definition UPDATE_TYPE :: enum_mapping where
  "UPDATE_TYPE = mapping_or (mapping_of ''UpdateType'' UpdateType_values (map update_type_name [STATIC, DAILY, STREAM]))"

lemma mapping_orI: "r \<noteq> Inl ValueError \<Longrightarrow> r \<noteq> Inl TypeError \<Longrightarrow> r = Inr (mapping_or r)"
  by (cases r) (use build_error.exhaust in \<open>auto simp: mapping_or_def\<close>)

lemma asset_type_checked: "mapping_of ''AssetType'' AssetType_values (map asset_type_name [STOCK, CRYPTO, OPTION]) = Inr ASSET_TYPE"
  unfolding ASSET_TYPE_def by (rule mapping_orI; code_simp)

lemma inj_asset_type_name: "inj asset_type_name"
proof (rule injI)
  show "asset_type_name x = asset_type_name y \<Longrightarrow> x = y" for x y by (cases x; cases y) simp_all
qed

interpretation asset_types: mirrored_enum "''AssetType''" AssetType_values asset_type_name "[STOCK, CRYPTO, OPTION]" ASSET_TYPE
  by (rule mirrored_enum.intro [OF asset_type_checked _ _ inj_asset_type_name])
    (code_simp, code_simp, auto intro: asset_type.exhaust)

lemma data_source_checked: "mapping_of ''DataSource'' DataSource_values (map data_source_name [IB_API, ALPACA_API, MANUAL_ENTRY]) = Inr DATA_SOURCE"
  unfolding DATA_SOURCE_def by (rule mapping_orI; code_simp)

lemma inj_data_source_name: "inj data_source_name"
proof (rule injI)
  show "data_source_name x = data_source_name y \<Longrightarrow> x = y" for x y by (cases x; cases y) simp_all
qed

interpretation data_sources: mirrored_enum "''DataSource''" DataSource_values data_source_name "[IB_API, ALPACA_API, MANUAL_ENTRY]" DATA_SOURCE
  by (rule mirrored_enum.intro [OF data_source_checked _ _ inj_data_source_name])
    (code_simp, code_simp, auto intro: data_source.exhaust)

lemma data_type_checked: "mapping_of ''DataType'' DataType_values (map data_type_name [MARKET_ACTIVITY, QUOTE, TRADE]) = Inr DATA_TYPE"
  unfolding DATA_TYPE_def by (rule mapping_orI; code_simp)

lemma inj_data_type_name: "inj data_type_name"
proof (rule injI)
  show "data_type_name x = data_type_name y \<Longrightarrow> x = y" for x y by (cases x; cases y) simp_all
qed

interpretation data_types: mirrored_enum "''DataType''" DataType_values data_type_name "[MARKET_ACTIVITY, QUOTE, TRADE]" DATA_TYPE
  by (rule mirrored_enum.intro [OF data_type_checked _ _ inj_data_type_name])
    (code_simp, code_simp, auto intro: data_type.exhaust)

lemma feed_checked: "mapping_of ''Feed'' Feed_values (map feed_name [IEX, SIP, NOT_APPLICABLE]) = Inr FEED"
  unfolding FEED_def by (rule mapping_orI; code_simp)

lemma inj_feed_name: "inj feed_name"
proof (rule injI)
  show "feed_name x = feed_name y \<Longrightarrow> x = y" for x y by (cases x; cases y) simp_all
qed

interpretation feeds: mirrored_enum "''Feed''" Feed_values feed_name "[IEX, SIP, NOT_APPLICABLE]" FEED
  by (rule mirrored_enum.intro [OF feed_checked _ _ inj_feed_name])
    (code_simp, code_simp, auto intro: feed.exhaust)

lemma granularity_checked: "mapping_of ''Granularity'' Granularity_values (map granularity_name [ONE_MINUTE, FIVE_MINUTES, THIRTY_MINUTES, ONE_HOUR, ONE_DAY, ONE_WEEK, ONE_MONTH]) = Inr GRANULARITY"
  unfolding GRANULARITY_def by (rule mapping_orI; code_simp)

lemma inj_granularity_name: "inj granularity_name"
proof (rule injI)
  show "granularity_name x = granularity_name y \<Longrightarrow> x = y" for x y by (cases x; cases y) simp_all
qed

interpretation granularities: mirrored_enum "''Granularity''" Granularity_values granularity_name "[ONE_MINUTE, FIVE_MINUTES, THIRTY_MINUTES, ONE_HOUR, ONE_DAY, ONE_WEEK, ONE_MONTH]" GRANULARITY
  by (rule mirrored_enum.intro [OF granularity_checked _ _ inj_granularity_name])
    (code_simp, code_simp, auto intro: granularity.exhaust)

lemma update_type_checked: "mapping_of ''UpdateType'' UpdateType_values (map update_type_name [STATIC, DAILY, STREAM]) = Inr UPDATE_TYPE"
  unfolding UPDATE_TYPE_def by (rule mapping_orI; code_simp)

lemma inj_update_type_name: "inj update_type_name"
proof (rule injI)
  show "update_type_name x = update_type_name y \<Longrightarrow> x = y" for x y by (cases x; cases y) simp_all
qed

interpretation update_types: mirrored_enum "''UpdateType''" UpdateType_values update_type_name "[STATIC, DAILY, STREAM]" UPDATE_TYPE
  by (rule mirrored_enum.intro [OF update_type_checked _ _ inj_update_type_name])
    (code_simp, code_simp, auto intro: update_type.exhaust)


section \<open>Timestamps\<close>

text \<open>
  \<open>google.protobuf.Timestamp\<close>: \<open>FromDatetime\<close> of an aware datetime, and \<open>ToDatetime\<close>, which raises outside
  the years 1 to 9999 and outside a second's nanoseconds.
\<close>

record wire_timestamp =
  ts_seconds :: int
  ts_nanos :: int

definition EARLIEST :: instant where
  "EARLIEST = -62135596800000000"

definition LATEST :: instant where
  "LATEST = 253402300799999999"

definition to_timestamp :: "stamp \<Rightarrow> mapping_error + wire_timestamp" where
  "to_timestamp value =
     (case value of
        Naive t \<Rightarrow> Inl ProtoMappingError
      | Aware t \<Rightarrow> Inr \<lparr>ts_seconds = t div second, ts_nanos = t mod second * 1000\<rparr>)"

definition to_datetime :: "wire_timestamp \<Rightarrow> mapping_error + instant" where
  "to_datetime value =
     (if ts_nanos value mod 1000 \<noteq> 0 then Inl ProtoMappingError
      else let t = ts_seconds value * second + ts_nanos value div 1000
           in if EARLIEST div second \<le> ts_seconds value \<and> ts_seconds value \<le> LATEST div second
                 \<and> 0 \<le> ts_nanos value \<and> ts_nanos value < 1000000000
              then Inr t else Inl ProtoMappingError)"

definition timestamp_field :: "wire_timestamp option \<Rightarrow> mapping_error + instant" where
  "timestamp_field field = (case field of None \<Rightarrow> Inl ProtoMappingError | Some value \<Rightarrow> to_datetime value)"

definition dated :: "instant \<Rightarrow> bool" where
  "dated t \<longleftrightarrow> EARLIEST \<le> t \<and> t \<le> LATEST"

lemma timestamps:
  "to_datetime ts = Inr t \<longleftrightarrow> dated t \<and> to_timestamp (Aware t) = Inr ts"
proof
  assume "to_datetime ts = Inr t"
  then have ts: "t = ts_seconds ts * second + ts_nanos ts div 1000" "ts_nanos ts mod 1000 = 0" "0 \<le> ts_nanos ts" "ts_nanos ts < 1000000000"
    "-62135596800 \<le> ts_seconds ts" "ts_seconds ts \<le> 253402300799"
    by (auto simp: to_datetime_def Let_def EARLIEST_def LATEST_def split: if_splits)
  have q: "0 \<le> ts_nanos ts div 1000" "ts_nanos ts div 1000 < second" "ts_nanos ts div 1000 * 1000 = ts_nanos ts"
    using ts(2-4) by auto
  then have "t div second = ts_seconds ts" "t mod second = ts_nanos ts div 1000" by (simp_all add: ts(1))
  then show "dated t \<and> to_timestamp (Aware t) = Inr ts"
    using ts(1,5,6) q by (auto simp: to_timestamp_def dated_def EARLIEST_def LATEST_def)
next
  assume "dated t \<and> to_timestamp (Aware t) = Inr ts"
  then have "ts = \<lparr>ts_seconds = t div second, ts_nanos = t mod second * 1000\<rparr>" "EARLIEST \<le> t" "t \<le> LATEST"
    by (auto simp: to_timestamp_def dated_def)
  moreover have "t mod second * 1000 < 1000000000" using pos_mod_bound [of second t] by simp
  moreover have "EARLIEST div second \<le> t div second" "t div second \<le> LATEST div second"
    using calculation(2,3) by (simp_all add: zdiv_mono1)
  ultimately show "to_datetime ts = Inr t" by (simp add: to_datetime_def Let_def)
qed

end
