(* ===== verification/Wire_Messages.thy ===== *)
theory Wire_Messages
  imports Wire_Values
begin

text \<open>
  \<open>server/common/rpc/mapping/fetch_dataset.py\<close>: the messages of the FetchDataset contract, each with its
  encoding and its decoding. A field with presence is an \<open>option\<close>, a oneof a datatype, a double a rational (so no
  infinity and no NaN, which the wire would carry); the widths of the integer fields are those of
  \<open>proto/trader_joe/proto\<close>, and protobuf refuses a Python value outside them. The fields that ingest does not set yet and
  no decoder reads, \<open>FetchAccepted.quota_key\<close> and \<open>FetchDone.vendor_stats\<close>, are there with their defaults. The one
  field left out is the text for humans of a refusal, which both directions copy.
\<close>

section \<open>Messages on the wire\<close>

record wire_request =
  wq_owner :: string
  wq_source :: int
  wq_symbol :: string
  wq_asset_type :: int
  wq_data_types :: "int list"
  wq_granularity :: int
  wq_start :: "wire_timestamp option"
  wq_end :: "wire_timestamp option"
  wq_update_type :: int
  wq_feed :: int
  wq_request_id :: string
  wq_ready_by :: "wire_timestamp option"
  wq_best_effort :: bool

record wire_bar =
  wb_bar_start :: "wire_timestamp option"
  wb_open :: rat
  wb_high :: rat
  wb_low :: rat
  wb_close :: rat
  wb_volume :: rat
  wb_trade_count :: "int option"
  wb_vwap :: "rat option"
  wb_feed :: int

record wire_range =
  wr_start :: "wire_timestamp option"
  wr_end :: "wire_timestamp option"

record wire_vendor_reported =
  wv_limit :: "int option"
  wv_remaining :: "int option"
  wv_reset_at :: "wire_timestamp option"

record wire_vendor_stats =
  ws_calls :: int
  ws_pages :: int
  ws_throttled_429 :: int
  ws_retries :: int
  ws_first_call_at :: "wire_timestamp option"
  ws_last_call_at :: "wire_timestamp option"
  ws_vendor_reported :: "wire_vendor_reported option"

record wire_done =
  wd_bar_count :: int
  wd_served_range :: "wire_range option"
  wd_as_of :: "wire_timestamp option"
  wd_vendor_stats :: "wire_vendor_stats option"

text \<open>\<open>WireAccepted feed quota_key\<close>\<close>

datatype wire_ack = NoOutcome | WireAccepted int string | WireRefused fetch_refused

datatype wire_response = NoEvent | WireAck wire_ack | WirePage "wire_bar list" | WireDone wire_done

section \<open>Encoding\<close>

definition int64 :: "int \<Rightarrow> mapping_error + int" where
  "int64 n = (if - (2 ^ 63) \<le> n \<and> n < 2 ^ 63 then Inr n else Inl EncodingError)"

definition uint64 :: "int \<Rightarrow> mapping_error + int" where
  "uint64 n = (if 0 \<le> n \<and> n < 2 ^ 64 then Inr n else Inl EncodingError)"

fun optional :: "('a \<Rightarrow> 'e + 'b) \<Rightarrow> 'a option \<Rightarrow> 'e + 'b option" where
  "optional f None = Inr None"
| "optional f (Some x) = bind_r (f x) (\<lambda>y. Inr (Some y))"

abbreviation stamped :: "instant \<Rightarrow> mapping_error + wire_timestamp" where
  "stamped t \<equiv> to_timestamp (Aware t)"

definition FEED_UNSPECIFIED :: int where
  "FEED_UNSPECIFIED = 0"

definition request_to_proto :: "fetch_request \<Rightarrow> mapping_error + wire_request" where
  "request_to_proto r =
     bind_r (member_to_proto DATA_SOURCE data_source_name (rq_source r)) (\<lambda>source.
     bind_r (member_to_proto ASSET_TYPE asset_type_name (rq_asset_type r)) (\<lambda>asset_type.
     bind_r (map_r (member_to_proto DATA_TYPE data_type_name) (rq_data_types r)) (\<lambda>data_types.
     bind_r (member_to_proto GRANULARITY granularity_name (rq_granularity r)) (\<lambda>granularity.
     bind_r (member_to_proto UPDATE_TYPE update_type_name (rq_update_type r)) (\<lambda>update_type.
     bind_r (stamped (rq_start r)) (\<lambda>start.
     bind_r (optional stamped (rq_end r)) (\<lambda>until.
     bind_r (case rq_feed r of None \<Rightarrow> Inr FEED_UNSPECIFIED | Some f \<Rightarrow> member_to_proto FEED feed_name f) (\<lambda>feed.
     bind_r (optional stamped (rq_ready_by r)) (\<lambda>ready_by.
       Inr \<lparr>wq_owner = rq_owner r, wq_source = source, wq_symbol = rq_symbol r, wq_asset_type = asset_type,
            wq_data_types = data_types, wq_granularity = granularity, wq_start = Some start, wq_end = until,
            wq_update_type = update_type, wq_feed = feed,
            wq_request_id = (case rq_request_id r of None \<Rightarrow> [] | Some i \<Rightarrow> i),
            wq_ready_by = ready_by, wq_best_effort = rq_best_effort r\<rparr>)))))))))"

definition request_to_domain :: "wire_request \<Rightarrow> mapping_error + fetch_request" where
  "request_to_domain m =
     bind_r (member_to_domain DATA_SOURCE data_source_name [IB_API, ALPACA_API, MANUAL_ENTRY] (wq_source m)) (\<lambda>source.
     bind_r (member_to_domain ASSET_TYPE asset_type_name [STOCK, CRYPTO, OPTION] (wq_asset_type m)) (\<lambda>asset_type.
     bind_r (map_r (member_to_domain DATA_TYPE data_type_name [MARKET_ACTIVITY, QUOTE, TRADE]) (wq_data_types m)) (\<lambda>data_types.
     bind_r (member_to_domain GRANULARITY granularity_name
       [ONE_MINUTE, FIVE_MINUTES, THIRTY_MINUTES, ONE_HOUR, ONE_DAY, ONE_WEEK, ONE_MONTH] (wq_granularity m)) (\<lambda>granularity.
     bind_r (timestamp_field (wq_start m)) (\<lambda>start.
     bind_r (optional to_datetime (wq_end m)) (\<lambda>until.
     bind_r (member_to_domain UPDATE_TYPE update_type_name [STATIC, DAILY, STREAM] (wq_update_type m)) (\<lambda>update_type.
     bind_r (if wq_feed m = FEED_UNSPECIFIED then Inr None
             else bind_r (member_to_domain FEED feed_name [IEX, SIP, NOT_APPLICABLE] (wq_feed m)) (\<lambda>f. Inr (Some f))) (\<lambda>feed.
     bind_r (optional to_datetime (wq_ready_by m)) (\<lambda>ready_by.
       Inr \<lparr>rq_owner = wq_owner m, rq_source = source, rq_feed = feed, rq_symbol = wq_symbol m, rq_asset_type = asset_type,
            rq_data_types = data_types, rq_granularity = granularity, rq_start = start, rq_end = until,
            rq_update_type = update_type, rq_request_id = (if wq_request_id m = [] then None else Some (wq_request_id m)),
            rq_ready_by = ready_by, rq_best_effort = wq_best_effort m\<rparr>)))))))))"

definition bar_to_proto :: "fetched_bar \<Rightarrow> mapping_error + wire_bar" where
  "bar_to_proto b =
     bind_r (member_to_proto FEED feed_name (fb_feed b)) (\<lambda>feed.
     bind_r (stamped (fb_start b)) (\<lambda>start.
     bind_r (optional int64 (fb_trade_count b)) (\<lambda>trade_count.
       Inr \<lparr>wb_bar_start = Some start, wb_open = fb_open b, wb_high = fb_high b, wb_low = fb_low b, wb_close = fb_close b,
            wb_volume = fb_volume b, wb_trade_count = trade_count, wb_vwap = fb_vwap b, wb_feed = feed\<rparr>)))"

definition bar_to_domain :: "wire_bar \<Rightarrow> mapping_error + fetched_bar" where
  "bar_to_domain m =
     bind_r (timestamp_field (wb_bar_start m)) (\<lambda>start.
     bind_r (member_to_domain FEED feed_name [IEX, SIP, NOT_APPLICABLE] (wb_feed m)) (\<lambda>feed.
       Inr \<lparr>fb_start = start, fb_open = wb_open m, fb_high = wb_high m, fb_low = wb_low m, fb_close = wb_close m,
            fb_volume = wb_volume m, fb_trade_count = wb_trade_count m, fb_vwap = wb_vwap m, fb_feed = feed\<rparr>))"

definition page_to_proto :: "fetched_bar list \<Rightarrow> mapping_error + wire_bar list" where
  "page_to_proto page = map_r bar_to_proto page"

definition page_to_domain :: "wire_bar list \<Rightarrow> mapping_error + fetched_bar list" where
  "page_to_domain message = map_r bar_to_domain message"

text \<open>An ack of the domain sets exactly one arm, so the encoder's last branch is not reached.\<close>

definition ack_to_proto :: "ack \<Rightarrow> mapping_error + wire_ack" where
  "ack_to_proto a =
     (case a of
        AckAccepted f \<Rightarrow> bind_r (member_to_proto FEED feed_name f) (\<lambda>feed. Inr (WireAccepted feed []))
      | AckRefused refusal \<Rightarrow> Inr (WireRefused refusal))"

definition ack_to_domain :: "wire_ack \<Rightarrow> mapping_error + ack" where
  "ack_to_domain m =
     (case m of
        WireAccepted feed quota_key \<Rightarrow> bind_r (member_to_domain FEED feed_name [IEX, SIP, NOT_APPLICABLE] feed) (\<lambda>f. Inr (AckAccepted f))
      | WireRefused refusal \<Rightarrow> Inr (AckRefused refusal)
      | NoOutcome \<Rightarrow> Inl ProtoMappingError)"

definition served_range_to_proto :: "instant \<times> instant \<Rightarrow> mapping_error + wire_range" where
  "served_range_to_proto served =
     bind_r (stamped (fst served)) (\<lambda>start.
     bind_r (stamped (snd served)) (\<lambda>until. Inr \<lparr>wr_start = Some start, wr_end = Some until\<rparr>))"

definition served_range_to_domain :: "wire_range \<Rightarrow> mapping_error + instant \<times> instant" where
  "served_range_to_domain m =
     bind_r (timestamp_field (wr_start m)) (\<lambda>start.
     bind_r (timestamp_field (wr_end m)) (\<lambda>until. Inr (start, until)))"

definition done_to_proto :: "fetch_done \<Rightarrow> mapping_error + wire_done" where
  "done_to_proto fin =
     bind_r (uint64 (int (fd_bar_count fin))) (\<lambda>count.
     bind_r (served_range_to_proto (fd_served fin)) (\<lambda>served.
     bind_r (stamped (fd_as_of fin)) (\<lambda>as_of.
       Inr \<lparr>wd_bar_count = count, wd_served_range = Some served, wd_as_of = Some as_of, wd_vendor_stats = None\<rparr>)))"

text \<open>\<open>NonNegativeInt\<close>: a count below zero is refused by the domain model, though the wire cannot carry one.\<close>

definition done_to_domain :: "wire_done \<Rightarrow> mapping_error + fetch_done" where
  "done_to_domain m =
     (case wd_served_range m of
        None \<Rightarrow> Inl ProtoMappingError
      | Some served \<Rightarrow>
          bind_r (served_range_to_domain served) (\<lambda>served.
          bind_r (timestamp_field (wd_as_of m)) (\<lambda>as_of.
            if wd_bar_count m < 0 then Inl ProtoMappingError
            else Inr \<lparr>fd_bar_count = nat (wd_bar_count m), fd_served = served, fd_as_of = as_of\<rparr>)))"

section \<open>Field by field\<close>

lemma optional_Inr: "optional f x = Inr y \<longleftrightarrow> rel_option (\<lambda>a b. f a = Inr b) x y"
  by (cases x; cases y) (auto simp: bind_r_Inr_iff)

lemma optional_dates: "optional to_datetime x = Inr y \<longleftrightarrow> pred_option dated y \<and> optional stamped y = Inr x"
  by (cases x; cases y) (auto simp: bind_r_Inr_iff timestamps)

lemma field_dates: "timestamp_field x = Inr t \<longleftrightarrow> dated t \<and> (\<exists>ts. x = Some ts \<and> stamped t = Inr ts)"
  by (cases x) (auto simp: timestamp_field_def timestamps)

lemmas members_decode = asset_types.decodes data_sources.decodes data_types.decodes feeds.decodes granularities.decodes update_types.decodes

lemma data_types_decode:
  "map_r (member_to_domain DATA_TYPE data_type_name [MARKET_ACTIVITY, QUOTE, TRADE]) ns = Inr ds \<longleftrightarrow>
     map_r (member_to_proto DATA_TYPE data_type_name) ds = Inr ns"
  unfolding map_r_all2 data_types.decodes by (auto simp: list_all2_conv_all_nth)

lemma feed_not_zero: "member_to_proto FEED feed_name f = Inr n \<Longrightarrow> n \<noteq> FEED_UNSPECIFIED"
  using feeds.encodes [of f n] by (simp add: FEED_UNSPECIFIED_def)

lemma request_to_domain_fields:
  "request_to_domain m = Inr r \<longleftrightarrow>
     member_to_proto DATA_SOURCE data_source_name (rq_source r) = Inr (wq_source m)
     \<and> member_to_proto ASSET_TYPE asset_type_name (rq_asset_type r) = Inr (wq_asset_type m)
     \<and> map_r (member_to_proto DATA_TYPE data_type_name) (rq_data_types r) = Inr (wq_data_types m)
     \<and> member_to_proto GRANULARITY granularity_name (rq_granularity r) = Inr (wq_granularity m)
     \<and> timestamp_field (wq_start m) = Inr (rq_start r)
     \<and> optional to_datetime (wq_end m) = Inr (rq_end r)
     \<and> member_to_proto UPDATE_TYPE update_type_name (rq_update_type r) = Inr (wq_update_type m)
     \<and> (if wq_feed m = FEED_UNSPECIFIED then rq_feed r = None
        else \<exists>f. rq_feed r = Some f \<and> member_to_proto FEED feed_name f = Inr (wq_feed m))
     \<and> optional to_datetime (wq_ready_by m) = Inr (rq_ready_by r)
     \<and> rq_owner r = wq_owner m \<and> rq_symbol r = wq_symbol m
     \<and> rq_request_id r = (if wq_request_id m = [] then None else Some (wq_request_id m))
     \<and> rq_best_effort r = wq_best_effort m"
  unfolding request_to_domain_def bind_r_Inr_iff members_decode data_types_decode
  by (cases r) (auto simp: bind_r_Inr_iff members_decode split: if_splits)

lemma request_to_proto_fields:
  "request_to_proto r = Inr m \<longleftrightarrow>
     member_to_proto DATA_SOURCE data_source_name (rq_source r) = Inr (wq_source m)
     \<and> member_to_proto ASSET_TYPE asset_type_name (rq_asset_type r) = Inr (wq_asset_type m)
     \<and> map_r (member_to_proto DATA_TYPE data_type_name) (rq_data_types r) = Inr (wq_data_types m)
     \<and> member_to_proto GRANULARITY granularity_name (rq_granularity r) = Inr (wq_granularity m)
     \<and> (\<exists>ts. wq_start m = Some ts \<and> stamped (rq_start r) = Inr ts)
     \<and> optional stamped (rq_end r) = Inr (wq_end m)
     \<and> member_to_proto UPDATE_TYPE update_type_name (rq_update_type r) = Inr (wq_update_type m)
     \<and> (case rq_feed r of None \<Rightarrow> Inr FEED_UNSPECIFIED | Some f \<Rightarrow> member_to_proto FEED feed_name f) = Inr (wq_feed m)
     \<and> optional stamped (rq_ready_by r) = Inr (wq_ready_by m)
     \<and> wq_owner m = rq_owner r \<and> wq_symbol m = rq_symbol r
     \<and> wq_request_id m = (case rq_request_id r of None \<Rightarrow> [] | Some i \<Rightarrow> i)
     \<and> wq_best_effort m = rq_best_effort r"
  unfolding request_to_proto_def bind_r_Inr_iff by (cases m) auto

lemma request_codec:
  "request_to_domain m = Inr r \<longleftrightarrow>
     request_to_proto r = Inr m \<and> dated (rq_start r) \<and> pred_option dated (rq_end r) \<and> pred_option dated (rq_ready_by r)
     \<and> rq_request_id r \<noteq> Some []"
proof -
  have feed: "(if wq_feed m = FEED_UNSPECIFIED then rq_feed r = None
        else \<exists>f. rq_feed r = Some f \<and> member_to_proto FEED feed_name f = Inr (wq_feed m)) \<longleftrightarrow>
      (case rq_feed r of None \<Rightarrow> Inr FEED_UNSPECIFIED | Some f \<Rightarrow> member_to_proto FEED feed_name f) = Inr (wq_feed m)"
    using feed_not_zero by (auto split: option.splits)
  have name: "rq_request_id r = (if wq_request_id m = [] then None else Some (wq_request_id m)) \<longleftrightarrow>
      wq_request_id m = (case rq_request_id r of None \<Rightarrow> [] | Some i \<Rightarrow> i) \<and> rq_request_id r \<noteq> Some []"
    by (auto split: option.splits)
  show ?thesis
    unfolding request_to_domain_fields request_to_proto_fields feed name optional_dates field_dates by auto
qed

lemma request_encodes: "\<exists>m. request_to_proto r = Inr m"
proof -
  have "\<exists>ns. map_r (member_to_proto DATA_TYPE data_type_name) ds = Inr ns" for ds
    using data_types.always_encodes by (induction ds) (auto simp: bind_r_Inr_iff, metis)
  moreover have "\<exists>y. optional stamped x = Inr y" for x by (cases x) (simp_all add: to_timestamp_def)
  moreover have "\<exists>n. (case x of None \<Rightarrow> Inr FEED_UNSPECIFIED | Some f \<Rightarrow> member_to_proto FEED feed_name f) = Inr n" for x
    using feeds.always_encodes by (cases x) auto
  moreover have "\<exists>ts. stamped t = Inr ts" for t by (simp add: to_timestamp_def)
  ultimately show ?thesis
    unfolding request_to_proto_def bind_r_Inr_iff
    using data_sources.always_encodes asset_types.always_encodes granularities.always_encodes update_types.always_encodes
    by (metis (no_types, lifting))
qed

lemma int64_Inr: "int64 n = Inr k \<longleftrightarrow> k = n \<and> int64 n = Inr n"
  by (auto simp: int64_def)

lemma optional_int64: "optional int64 x = Inr y \<longleftrightarrow> y = x \<and> pred_option (\<lambda>n. int64 n = Inr n) x"
  by (cases x; cases y) (auto simp: bind_r_Inr_iff int64_def)

lemma bar_codec:
  "bar_to_domain m = Inr b \<and> pred_option (\<lambda>n. int64 n = Inr n) (wb_trade_count m) \<longleftrightarrow> bar_to_proto b = Inr m \<and> dated (fb_start b)"
  unfolding bar_to_domain_def bar_to_proto_def bind_r_Inr_iff feeds.decodes field_dates optional_int64
  by (cases m; cases b) auto

lemma page_codec:
  "page_to_domain m = Inr page \<and> list_all (\<lambda>b. pred_option (\<lambda>n. int64 n = Inr n) (wb_trade_count b)) m \<longleftrightarrow>
     page_to_proto page = Inr m \<and> list_all (\<lambda>b. dated (fb_start b)) page"
  unfolding page_to_domain_def page_to_proto_def map_r_all2
proof (induction m arbitrary: page)
  case Nil
  then show ?case by auto
next
  case (Cons b m)
  show ?case
  proof (cases page)
    case (Cons c cs)
    then show ?thesis using Cons.IH [of cs] bar_codec [of b c] by auto
  qed simp
qed

text \<open>A message without the fields that the encoders never set.\<close>

definition bare_ack :: "wire_ack \<Rightarrow> wire_ack" where
  "bare_ack m = (case m of WireAccepted feed quota_key \<Rightarrow> WireAccepted feed [] | _ \<Rightarrow> m)"

definition bare_done :: "wire_done \<Rightarrow> wire_done" where
  "bare_done m = m\<lparr>wd_vendor_stats := None\<rparr>"

lemma ack_reads: "ack_to_domain m = Inr a \<longleftrightarrow> ack_to_proto a = Inr (bare_ack m)"
  by (cases m; cases a) (auto simp: ack_to_domain_def ack_to_proto_def bare_ack_def bind_r_Inr_iff feeds.decodes)

lemma ack_codec: "ack_to_domain m = Inr a \<and> bare_ack m = m \<longleftrightarrow> ack_to_proto a = Inr m"
  by (cases m; cases a) (auto simp: ack_to_domain_def ack_to_proto_def bare_ack_def bind_r_Inr_iff feeds.decodes)

lemma range_codec:
  "served_range_to_domain m = Inr served \<longleftrightarrow> served_range_to_proto served = Inr m \<and> dated (fst served) \<and> dated (snd served)"
  unfolding served_range_to_domain_def served_range_to_proto_def bind_r_Inr_iff field_dates
  by (cases m; cases served) auto

lemma uint64_Inr: "uint64 n = Inr k \<longleftrightarrow> k = n \<and> 0 \<le> n \<and> n < 2 ^ 64"
  by (auto simp: uint64_def)

lemma done_reads:
  "done_to_domain m = Inr fin \<and> wd_bar_count m < 2 ^ 64 \<longleftrightarrow>
     done_to_proto fin = Inr (bare_done m) \<and> dated (fst (fd_served fin)) \<and> dated (snd (fd_served fin)) \<and> dated (fd_as_of fin)"
proof (cases "wd_served_range m")
  case None
  then show ?thesis by (auto simp: done_to_domain_def done_to_proto_def bare_done_def bind_r_Inr_iff dest: arg_cong [of _ _ wd_served_range])
next
  case (Some wr)
  have "done_to_domain m = Inr fin \<longleftrightarrow>
      served_range_to_domain wr = Inr (fd_served fin) \<and> timestamp_field (wd_as_of m) = Inr (fd_as_of fin)
      \<and> 0 \<le> wd_bar_count m \<and> wd_bar_count m = int (fd_bar_count fin)"
    unfolding done_to_domain_def Some option.case bind_r_Inr_iff by (cases fin) auto
  moreover have "done_to_proto fin = Inr (bare_done m) \<longleftrightarrow>
      wd_bar_count m = int (fd_bar_count fin) \<and> int (fd_bar_count fin) < 2 ^ 64 \<and> served_range_to_proto (fd_served fin) = Inr wr
      \<and> (\<exists>ts. wd_as_of m = Some ts \<and> stamped (fd_as_of fin) = Inr ts)"
    unfolding done_to_proto_def bind_r_Inr_iff uint64_Inr bare_done_def using Some by (cases m) auto
  ultimately show ?thesis unfolding range_codec field_dates by auto
qed

lemma done_to_proto_bare: "done_to_proto fin = Inr m \<Longrightarrow> bare_done m = m"
  by (auto simp: done_to_proto_def bare_done_def bind_r_Inr_iff)

lemma done_codec:
  "done_to_domain m = Inr fin \<and> wd_bar_count m < 2 ^ 64 \<and> bare_done m = m \<longleftrightarrow>
     done_to_proto fin = Inr m \<and> dated (fst (fd_served fin)) \<and> dated (snd (fd_served fin)) \<and> dated (fd_as_of fin)"
  using done_reads [of m fin] done_to_proto_bare [of fin m] by (metis (no_types))

section \<open>Properties\<close>

text \<open>Every one of the six enums of the wire mirrors its Python enum: a member has a number other than zero,
  that number reads back as the member and no other number does, and a number is refused exactly when it is
  the unspecified zero or unknown to the table.\<close>

theorem enums_mirror_the_wire:
  "(\<exists>n. n \<noteq> 0 \<and> member_to_proto FEED feed_name f = Inr n)
    \<and> (member_to_domain FEED feed_name [IEX, SIP, NOT_APPLICABLE] n = Inr f \<longleftrightarrow> member_to_proto FEED feed_name f = Inr n)
    \<and> ((\<nexists>f. member_to_domain FEED feed_name [IEX, SIP, NOT_APPLICABLE] n = Inr f) \<longleftrightarrow> n = 0 \<or> n \<notin> snd ` set Feed_values)
    \<and> (\<exists>n. n \<noteq> 0 \<and> member_to_proto GRANULARITY granularity_name g = Inr n)
    \<and> (member_to_domain GRANULARITY granularity_name [ONE_MINUTE, FIVE_MINUTES, THIRTY_MINUTES, ONE_HOUR, ONE_DAY, ONE_WEEK, ONE_MONTH] n = Inr g
         \<longleftrightarrow> member_to_proto GRANULARITY granularity_name g = Inr n)
    \<and> (member_to_domain DATA_SOURCE data_source_name [IB_API, ALPACA_API, MANUAL_ENTRY] n = Inr s
         \<longleftrightarrow> member_to_proto DATA_SOURCE data_source_name s = Inr n)
    \<and> (member_to_domain ASSET_TYPE asset_type_name [STOCK, CRYPTO, OPTION] n = Inr a \<longleftrightarrow> member_to_proto ASSET_TYPE asset_type_name a = Inr n)
    \<and> (member_to_domain DATA_TYPE data_type_name [MARKET_ACTIVITY, QUOTE, TRADE] n = Inr d \<longleftrightarrow> member_to_proto DATA_TYPE data_type_name d = Inr n)
    \<and> (member_to_domain UPDATE_TYPE update_type_name [STATIC, DAILY, STREAM] n = Inr u
         \<longleftrightarrow> member_to_proto UPDATE_TYPE update_type_name u = Inr n)"
  by (intro conjI) (rule feeds.always_encodes feeds.refuses granularities.always_encodes members_decode)+

lemma request_written:
  assumes "dated (rq_start r) \<and> pred_option dated (rq_end r) \<and> pred_option dated (rq_ready_by r)"
  shows "\<exists>wr. request_to_proto r = Inr wr \<and> wq_owner wr = rq_owner r \<and> wq_symbol wr = rq_symbol r
      \<and> optional to_datetime (wq_start wr) = Inr (Some (rq_start r)) \<and> optional to_datetime (wq_end wr) = Inr (rq_end r)
      \<and> optional to_datetime (wq_ready_by wr) = Inr (rq_ready_by r) \<and> wq_best_effort wr = rq_best_effort r"
proof -
  obtain m where m: "request_to_proto r = Inr m" using request_encodes by blast
  then show ?thesis using assms unfolding optional_dates by (intro exI [of _ m]) (auto simp: request_to_proto_fields)
qed

lemma bar_written:
  "bar_to_proto b = Inr wb \<Longrightarrow> wb_open wb = fb_open b \<and> wb_high wb = fb_high b \<and> wb_low wb = fb_low b \<and> wb_close wb = fb_close b
     \<and> wb_volume wb = fb_volume b \<and> wb_trade_count wb = fb_trade_count b \<and> wb_vwap wb = fb_vwap b"
  by (auto simp: bar_to_proto_def bind_r_Inr_iff optional_int64)

lemma done_written:
  "done_to_proto fin = Inr wd \<Longrightarrow> bare_done wd = wd \<and> wd_bar_count wd = int (fd_bar_count fin)
     \<and> (\<exists>range. wd_served_range wd = Some range \<and> optional stamped (Some (fst (fd_served fin))) = Inr (wr_start range)
          \<and> optional stamped (Some (snd (fd_served fin))) = Inr (wr_end range))"
  by (auto simp: done_to_proto_def bare_done_def served_range_to_proto_def bind_r_Inr_iff uint64_Inr)

text \<open>C22. The messages of the FetchDataset contract round trip in both directions: a request, a bar, an ack or a done
  reads back from what it was written as, and whatever reads back is written as the message read, without the quota key
  and the vendor statistics that no mapper reads or writes, for instants of the years 1 to 9999, integers of the fields'
  widths and a request id that is not empty. Each field goes under its own name: no price, bound or count is taken for
  another. Every request with instants of those years can be written. A double is an exact rational here.\<close>

theorem messages_round_trip:
  "(request_to_domain wr = Inr r \<longleftrightarrow> request_to_proto r = Inr wr \<and> dated (rq_start r) \<and> pred_option dated (rq_end r)
       \<and> pred_option dated (rq_ready_by r) \<and> rq_request_id r \<noteq> Some [])
    \<and> (dated (rq_start r) \<and> pred_option dated (rq_end r) \<and> pred_option dated (rq_ready_by r) \<longrightarrow>
         (\<exists>wr. request_to_proto r = Inr wr \<and> wq_owner wr = rq_owner r \<and> wq_symbol wr = rq_symbol r
            \<and> optional to_datetime (wq_start wr) = Inr (Some (rq_start r)) \<and> optional to_datetime (wq_end wr) = Inr (rq_end r)
            \<and> optional to_datetime (wq_ready_by wr) = Inr (rq_ready_by r) \<and> wq_best_effort wr = rq_best_effort r))
    \<and> (bar_to_domain wb = Inr b \<and> pred_option (\<lambda>n. int64 n = Inr n) (wb_trade_count wb) \<longleftrightarrow> bar_to_proto b = Inr wb \<and> dated (fb_start b))
    \<and> (bar_to_proto b = Inr wb \<longrightarrow> wb_open wb = fb_open b \<and> wb_high wb = fb_high b \<and> wb_low wb = fb_low b \<and> wb_close wb = fb_close b
         \<and> wb_volume wb = fb_volume b \<and> wb_trade_count wb = fb_trade_count b \<and> wb_vwap wb = fb_vwap b)
    \<and> (ack_to_domain wa = Inr a \<longleftrightarrow> ack_to_proto a = Inr (bare_ack wa))
    \<and> (ack_to_proto a = Inr wa \<longleftrightarrow> ack_to_domain wa = Inr a \<and> bare_ack wa = wa)
    \<and> (done_to_domain wd = Inr fin \<and> wd_bar_count wd < 2 ^ 64 \<longleftrightarrow>
         done_to_proto fin = Inr (bare_done wd) \<and> dated (fst (fd_served fin)) \<and> dated (snd (fd_served fin)) \<and> dated (fd_as_of fin))
    \<and> (done_to_proto fin = Inr wd \<longrightarrow> bare_done wd = wd \<and> wd_bar_count wd = int (fd_bar_count fin)
         \<and> (\<exists>range. wd_served_range wd = Some range \<and> optional stamped (Some (fst (fd_served fin))) = Inr (wr_start range)
              \<and> optional stamped (Some (snd (fd_served fin))) = Inr (wr_end range)))"
proof (rule conjI [OF request_codec conjI [OF impI conjI [OF bar_codec conjI [OF impI conjI [OF ack_reads
      conjI [OF ack_codec [symmetric] conjI [OF done_reads impI]]]]]]])
qed (erule request_written bar_written done_written)+

definition sample_wire_request :: fetch_request where
  "sample_wire_request =
     \<lparr>rq_owner = ''me'', rq_source = ALPACA_API, rq_feed = Some SIP, rq_symbol = ''AAPL'', rq_asset_type = STOCK,
      rq_data_types = [MARKET_ACTIVITY], rq_granularity = ONE_DAY, rq_start = 10, rq_end = Some 30, rq_update_type = DAILY,
      rq_request_id = Some ''r1'', rq_ready_by = None, rq_best_effort = False\<rparr>"

theorem messages_round_trip_witness:
  "\<exists>wr. request_to_proto sample_wire_request = Inr wr \<and> request_to_domain wr = Inr sample_wire_request \<and> wq_symbol wr = ''AAPL''"
proof -
  have d: "dated (rq_start sample_wire_request)" "pred_option dated (rq_end sample_wire_request)"
    "pred_option dated (rq_ready_by sample_wire_request)" "rq_request_id sample_wire_request \<noteq> Some []"
    "rq_symbol sample_wire_request = ''AAPL''" by (simp_all add: sample_wire_request_def dated_def EARLIEST_def LATEST_def)
  note round = messages_round_trip [where r = sample_wire_request]
  from round [THEN conjunct2, THEN conjunct1] d obtain wr where
    wr: "request_to_proto sample_wire_request = Inr wr" "wq_symbol wr = ''AAPL''" by auto
  from round [of wr, THEN conjunct1] wr d show ?thesis by blast
qed

end
