(* ===== verification/Alpaca_Read.thy ===== *)
theory Alpaca_Read
  imports Rate_Budget Single_Flight Wire_Values
begin

text \<open>
  The read side of a broker, \<open>server/data/ingest/app/brokers/interface.py\<close>, and its one implementation,
  \<open>brokers/alpaca\<close> (\<open>read.py\<close>, \<open>broker_api.py\<close>, \<open>classify.py\<close>) with \<open>request_key.py\<close>. The vendor's SDK and the
  service behind it are a function from the call's parameters to what the call answers or raises;
  \<open>http_date\<close> is \<open>email.utils.parsedate_to_datetime\<close>. A caller that attaches to another's call is the step relation
  of \<open>Single_Flight\<close>; here the call is the leader's.
\<close>

section \<open>The interface\<close>

record instrument =
  in_symbol :: string
  in_asset_type :: asset_type
  in_exchange :: "string option"
  in_currency :: "string option"

record bars_query =
  bq_instrument :: instrument
  bq_granularity :: granularity
  bq_start :: instant
  bq_end :: "instant option"
  bq_adjustment :: string
  bq_priority :: request_priority
  bq_feed :: "feed option"
  bq_deadline :: "instant option"

record broker_bar =
  bb_timestamp :: instant
  bb_open :: rat
  bb_high :: rat
  bb_low :: rat
  bb_close :: rat
  bb_volume :: rat
  bb_trade_count :: "int option"
  bb_vwap :: "rat option"

record bars_response =
  br_feed :: feed
  br_bars :: "broker_bar list"
  br_served :: "instant \<times> instant"
  br_as_of :: instant

text \<open>What \<open>get_bars\<close> does; a failure that is expected is returned, anything else raises.\<close>

datatype get_bars_result = BarsResponse bars_response | BarsFailure tj_error | BarsRaises

definition UNSUPPORTED_REASONS :: "reason set" where
  "UNSUPPORTED_REASONS = {UNSUPPORTED_INSTRUMENT, UNSUPPORTED_ASSET_TYPE, FEED_NOT_AVAILABLE}"

definition broker_unsupported_error :: "reason \<Rightarrow> metadata \<Rightarrow> build_error + tj_error" where
  "broker_unsupported_error r metadata =
     (if r \<notin> UNSUPPORTED_REASONS then Inl ValueError else build_tj_error InvalidRequestError r metadata None)"

definition missing_credentials_error :: "build_error + tj_error" where
  "missing_credentials_error = build_tj_error ExogenousError VENDOR_AUTH [] None"

definition failed_with :: "build_error + tj_error \<Rightarrow> get_bars_result" where
  "failed_with e = (case e of Inl _ \<Rightarrow> BarsRaises | Inr e \<Rightarrow> BarsFailure e)"

section \<open>The vendor's client\<close>

record vendor_bar =
  vb_timestamp :: instant
  vb_open :: rat
  vb_high :: rat
  vb_low :: rat
  vb_close :: rat
  vb_volume :: rat
  vb_trade_count :: "py_float option"
  vb_vwap :: "rat option"

record vendor_params =
  vp_symbol :: string
  vp_timeframe :: "int \<times> time_unit"
  vp_start :: instant
  vp_end :: "instant option"
  vp_feed :: feed

text \<open>\<open>APIError\<close> with its status and headers; a connection error, a timeout or a cut body; anything else.\<close>

datatype vendor_exception = APIError "int option" "(string \<rightharpoonup> string) option" | TransportFailure | OtherException

datatype vendor_answer = BarSet "string \<rightharpoonup> vendor_bar list" | VendorRaises vendor_exception

section \<open>Classification\<close>

definition VENDOR :: metadata where
  "VENDOR = [(''vendor'', Text (source_value ALPACA_API))]"

definition RATE_LIMIT_RESET_HEADER :: string where
  "RATE_LIMIT_RESET_HEADER = ''X-RateLimit-Reset''"

definition RETRY_AFTER_HEADER :: string where
  "RETRY_AFTER_HEADER = ''Retry-After''"

definition reset_from_header :: "string option \<Rightarrow> instant option" where
  "reset_from_header value =
     (case value of
        None \<Rightarrow> None
      | Some v \<Rightarrow> (case py_float_of v of
            Some (Finite x) \<Rightarrow> let t = timedelta_of_seconds x in if dated t then Some t else None
          | _ \<Rightarrow> None))"

definition reset_from_retry_after :: "(string \<Rightarrow> stamp option) \<Rightarrow> string option \<Rightarrow> instant \<Rightarrow> instant option" where
  "reset_from_retry_after http_date value now =
     (case value of
        None \<Rightarrow> None
      | Some v \<Rightarrow> (case py_float_of v of
            None \<Rightarrow> map_option instant_of (http_date v)
          | Some (Finite x) \<Rightarrow>
              if x < 0 then None
              else let t = now + timedelta_of_seconds x in if dated t then Some t else None
          | Some _ \<Rightarrow> None))"

definition rate_limited ::
  "(string \<Rightarrow> stamp option) \<Rightarrow> (string \<rightharpoonup> string) option \<Rightarrow> rate_budget \<Rightarrow> instant \<Rightarrow> budget_error + build_error + tj_error" where
  "rate_limited http_date response rate_budget now =
     (let headers = (case response of None \<Rightarrow> Map.empty | Some h \<Rightarrow> h) in
      bind_r (case reset_from_header (headers RATE_LIMIT_RESET_HEADER) of
                Some t \<Rightarrow> Inr t
              | None \<Rightarrow> (case reset_from_retry_after http_date (headers RETRY_AFTER_HEADER) now of
                  Some t \<Rightarrow> Inr t
                | None \<Rightarrow> bind_r (full_refill_seconds rate_budget) (\<lambda>s. Inr (now + timedelta_of_seconds s))))
        (\<lambda>reset_at. Inr (build_tj_error ExogenousError VENDOR_RATE_LIMITED VENDOR (Some (Aware reset_at)))))"

text \<open>\<open>Some (Inr e)\<close> is the typed error, \<open>None\<close> a failure nobody can name, \<open>Some (Inl _)\<close> a bug met on the way.\<close>

definition classify_status ::
  "(string \<Rightarrow> stamp option) \<Rightarrow> int option \<Rightarrow> (string \<rightharpoonup> string) option \<Rightarrow> rate_budget \<Rightarrow> instant \<Rightarrow> (build_error + tj_error) option" where
  "classify_status http_date status response rate_budget now =
     (case status of
        None \<Rightarrow> None
      | Some s \<Rightarrow>
          if s = 429 then Some (case rate_limited http_date response rate_budget now of Inl _ \<Rightarrow> Inl ValueError | Inr e \<Rightarrow> e)
          else if s \<in> {401, 403} then Some (build_tj_error ExogenousError VENDOR_AUTH VENDOR None)
          else if s = 400 then Some (build_tj_error InvalidRequestError VENDOR_INVALID_REQUEST VENDOR None)
          else if 400 \<le> s \<and> s < 500 then Some (build_tj_error ExogenousError VENDOR_REJECTED VENDOR None)
          else if 500 \<le> s \<and> s < 600 then Some (build_tj_error ExogenousError VENDOR_UNAVAILABLE VENDOR None)
          else None)"

definition classify_vendor_error ::
  "(string \<Rightarrow> stamp option) \<Rightarrow> vendor_exception \<Rightarrow> rate_budget \<Rightarrow> instant \<Rightarrow> (build_error + tj_error) option" where
  "classify_vendor_error http_date error rate_budget now =
     (case error of
        APIError status response \<Rightarrow> classify_status http_date status response rate_budget now
      | TransportFailure \<Rightarrow> Some (build_tj_error ExogenousError VENDOR_UNAVAILABLE VENDOR None)
      | OtherException \<Rightarrow> None)"

section \<open>The vendor call\<close>

definition ALPACA_ADJUSTMENT :: string where
  "ALPACA_ADJUSTMENT = ''raw''"

definition ALPACA_CURRENCY :: string where
  "ALPACA_CURRENCY = ''USD''"

definition ALPACA_CREDENTIAL_VARS :: "string \<times> string" where
  "ALPACA_CREDENTIAL_VARS = (''ALPACA_API_KEY'', ''ALPACA_API_SECRET'')"

definition sip_enabled :: "(string \<rightharpoonup> string) \<Rightarrow> bool" where
  "sip_enabled env \<longleftrightarrow>
     (case env ''ALPACA_SIP_ENABLED'' of None \<Rightarrow> False | Some v \<Rightarrow> lower v \<in> {''true'', ''1''})"

definition resolve_feed :: "(string \<rightharpoonup> string) \<Rightarrow> feed" where
  "resolve_feed env = (if sip_enabled env then SIP else IEX)"

type_synonym vendor_client = "vendor_params \<Rightarrow> vendor_answer"

text \<open>The process's client, built from both credentials on first use and kept; \<open>connect\<close> is the SDK's constructor.\<close>

definition get_client ::
  "(string \<Rightarrow> string \<Rightarrow> vendor_client) \<Rightarrow> (string \<rightharpoonup> string) \<Rightarrow> vendor_client option \<Rightarrow> (build_error + tj_error) + vendor_client" where
  "get_client connect env built =
     (case built of
        Some c \<Rightarrow> Inr c
      | None \<Rightarrow>
          (case (env (fst ALPACA_CREDENTIAL_VARS), env (snd ALPACA_CREDENTIAL_VARS)) of
             (Some k, Some s) \<Rightarrow> if k = [] \<or> s = [] then Inl missing_credentials_error else Inr (connect k s)
           | _ \<Rightarrow> Inl missing_credentials_error))"

datatype endpoint = StockBars | StockLatestBar | StockQuotes | StockLatestQuote | StockTrades | StockLatestTrade

definition match_client_request :: "asset_type \<Rightarrow> data_type \<Rightarrow> bool \<Rightarrow> (build_error + tj_error) + endpoint" where
  "match_client_request a d request_latest =
     (case (a, d, request_latest) of
        (STOCK, MARKET_ACTIVITY, False) \<Rightarrow> Inr StockBars
      | (STOCK, MARKET_ACTIVITY, True) \<Rightarrow> Inr StockLatestBar
      | (STOCK, QUOTE, False) \<Rightarrow> Inr StockQuotes
      | (STOCK, QUOTE, True) \<Rightarrow> Inr StockLatestQuote
      | (STOCK, TRADE, False) \<Rightarrow> Inr StockTrades
      | (STOCK, TRADE, True) \<Rightarrow> Inr StockLatestTrade
      | _ \<Rightarrow> Inl (build_tj_error InvalidRequestError UNSUPPORTED_ASSET_TYPE [] None))"

record vendor_request_key =
  vk_broker :: data_source
  vk_feed :: string
  vk_asset_type :: asset_type
  vk_symbol :: string
  vk_data_type :: data_type
  vk_granularity :: granularity
  vk_start :: instant
  vk_end :: "instant option"
  vk_adjustment :: string

definition request_key :: "bars_query \<Rightarrow> data_type \<Rightarrow> feed \<Rightarrow> vendor_request_key" where
  "request_key q d feed =
     \<lparr>vk_broker = ALPACA_API, vk_feed = lower (feed_name feed), vk_asset_type = STOCK, vk_symbol = in_symbol (bq_instrument q),
      vk_data_type = d, vk_granularity = bq_granularity q, vk_start = bq_start q, vk_end = bq_end q,
      vk_adjustment = ALPACA_ADJUSTMENT\<rparr>"

text \<open>The leader's \<open>call_vendor\<close>: a token under the priority and deadline of its query, then the call. \<open>None\<close>: still waiting.\<close>

datatype fetched = Fetched "string \<rightharpoonup> vendor_bar list" | FetchTyped tj_error | FetchVendor vendor_exception | FetchBug

definition call_vendor ::
  "vendor_client \<Rightarrow> vendor_params \<Rightarrow> bars_query \<Rightarrow> ((rate_budget \<Rightarrow> rate_budget) \<times> rat \<times> instant) list \<Rightarrow> rate_budget \<Rightarrow>
   fetched option \<times> rate_budget" where
  "call_vendor client params q passes b =
     (let (ended, slept, b) = acquire passes (bq_priority q) (bq_deadline q) b
      in (map_option (\<lambda>e. case e of
            Spent \<Rightarrow> (case client params of BarSet bs \<Rightarrow> Fetched bs | VendorRaises x \<Rightarrow> FetchVendor x)
          | Raised e \<Rightarrow> FetchTyped e
          | Failed \<Rightarrow> FetchBug) ended, b))"

section \<open>\<open>get_bars\<close>\<close>

definition to_trade_count :: "py_float option \<Rightarrow> build_error + int option" where
  "to_trade_count value =
     (case value of
        None \<Rightarrow> Inr None
      | Some (Finite x) \<Rightarrow> if of_int \<lfloor>x\<rfloor> = x then Inr (Some \<lfloor>x\<rfloor>) else Inl ValueError
      | Some _ \<Rightarrow> Inl ValueError)"

definition convert_bar :: "vendor_bar \<Rightarrow> build_error + broker_bar" where
  "convert_bar b =
     bind_r (to_trade_count (vb_trade_count b)) (\<lambda>n.
       Inr \<lparr>bb_timestamp = vb_timestamp b, bb_open = vb_open b, bb_high = vb_high b, bb_low = vb_low b, bb_close = vb_close b,
            bb_volume = vb_volume b, bb_trade_count = n, bb_vwap = vb_vwap b\<rparr>)"

definition before_end :: "instant option \<Rightarrow> vendor_bar \<Rightarrow> bool" where
  "before_end until b \<longleftrightarrow> (case until of None \<Rightarrow> True | Some e \<Rightarrow> vb_timestamp b < e)"

definition convert :: "(string \<rightharpoonup> vendor_bar list) \<Rightarrow> string \<Rightarrow> instant option \<Rightarrow> build_error + broker_bar list" where
  "convert bar_set symbol until =
     (case bar_set symbol of
        None \<Rightarrow> Inr []
      | Some vendor_bars \<Rightarrow> map_r convert_bar (filter (before_end until) vendor_bars))"

definition refusal_before_call :: "(string \<rightharpoonup> string) \<Rightarrow> (instant \<Rightarrow> string) \<Rightarrow> instant \<Rightarrow> bars_query \<Rightarrow> (build_error + tj_error) option" where
  "refusal_before_call env isofmt now q =
     (let i = bq_instrument q in
      if in_asset_type i \<noteq> STOCK then Some (broker_unsupported_error UNSUPPORTED_ASSET_TYPE [])
      else if bq_adjustment q \<noteq> ALPACA_ADJUSTMENT then Some (broker_unsupported_error UNSUPPORTED_INSTRUMENT [])
      else if in_exchange i \<noteq> None then Some (broker_unsupported_error UNSUPPORTED_INSTRUMENT [])
      else if in_currency i \<notin> {None, Some ALPACA_CURRENCY} then Some (broker_unsupported_error UNSUPPORTED_INSTRUMENT [])
      else if bq_feed q \<notin> {None, Some (resolve_feed env)}
      then Some (broker_unsupported_error FEED_NOT_AVAILABLE
                   (case bq_feed q of None \<Rightarrow> [] | Some f \<Rightarrow> [(''feed'', Text (feed_name f))]))
      else if bq_start q \<ge> now
      then Some (build_tj_error InvalidRequestError RANGE_IN_FUTURE [(''range_start'', Text (isofmt (bq_start q)))] None)
      else None)"

text \<open>What a deployment and a moment fix: the environment, the process's client, the clock at the check and after the call.\<close>

record reader_world =
  rw_env :: "string \<rightharpoonup> string"
  rw_isofmt :: "instant \<Rightarrow> string"
  rw_http_date :: "string \<Rightarrow> stamp option"
  rw_connect :: "string \<Rightarrow> string \<Rightarrow> vendor_client"
  rw_client :: "vendor_client option"
  rw_now :: instant
  rw_later :: instant
  rw_passes :: "((rate_budget \<Rightarrow> rate_budget) \<times> rat \<times> instant) list"

definition params_of :: "bars_query \<Rightarrow> feed \<Rightarrow> int \<times> time_unit \<Rightarrow> vendor_params" where
  "params_of q feed timeframe =
     \<lparr>vp_symbol = in_symbol (bq_instrument q), vp_timeframe = timeframe, vp_start = bq_start q, vp_end = bq_end q, vp_feed = feed\<rparr>"

definition answered :: "reader_world \<Rightarrow> bars_query \<Rightarrow> fetched \<Rightarrow> rate_budget \<Rightarrow> get_bars_result" where
  "answered w q f b =
     (case f of
        FetchTyped e \<Rightarrow> BarsFailure e
      | FetchBug \<Rightarrow> BarsRaises
      | FetchVendor x \<Rightarrow> (case classify_vendor_error (rw_http_date w) x b (rw_later w) of
            None \<Rightarrow> BarsRaises
          | Some e \<Rightarrow> failed_with e)
      | Fetched bar_set \<Rightarrow>
          let as_of = rw_later w;
              served_end = (case bq_end q of None \<Rightarrow> as_of | Some e \<Rightarrow> min e as_of)
          in (case convert bar_set (in_symbol (bq_instrument q)) (bq_end q) of
                Inl _ \<Rightarrow> BarsRaises
              | Inr bs \<Rightarrow> BarsResponse \<lparr>br_feed = resolve_feed (rw_env w), br_bars = bs,
                             br_served = (bq_start q, served_end), br_as_of = as_of\<rparr>))"

definition get_bars :: "reader_world \<Rightarrow> rate_budget \<Rightarrow> bars_query \<Rightarrow> get_bars_result option \<times> rate_budget" where
  "get_bars w b q =
     (case refusal_before_call (rw_env w) (rw_isofmt w) (rw_now w) q of
        Some e \<Rightarrow> (Some (failed_with e), b)
      | None \<Rightarrow>
          (case get_client (rw_connect w) (rw_env w) (rw_client w) of
             Inl e \<Rightarrow> (Some (failed_with e), b)
           | Inr client \<Rightarrow>
               (case from_standard AlpacaGranularity (bq_granularity q) of
                  Inl _ \<Rightarrow> (Some BarsRaises, b)
                | Inr m \<Rightarrow>
                    let (f, b) = call_vendor client (params_of q (resolve_feed (rw_env w)) (fst m)) q (rw_passes w) b
                    in (map_option (\<lambda>f. answered w q f b) f, b))))"

section \<open>What a reader promises\<close>

text \<open>A failure of the vendor's client that no classification can name.\<close>

definition unclassifiable :: "vendor_exception \<Rightarrow> bool" where
  "unclassifiable x \<longleftrightarrow>
     (case x of APIError (Some s) _ \<Rightarrow> s < 400 \<or> 600 \<le> s | APIError None _ \<Rightarrow> True | TransportFailure \<Rightarrow> False | OtherException \<Rightarrow> True)"

definition whole_counts :: "instant option \<Rightarrow> vendor_bar list \<Rightarrow> bool" where
  "whole_counts until vbs \<longleftrightarrow> list_all (\<lambda>b. to_trade_count (vb_trade_count b) \<noteq> Inl ValueError) (filter (before_end until) vbs)"

fun status_reason :: "int \<Rightarrow> reason" where
  "status_reason s =
     (if s = 429 then VENDOR_RATE_LIMITED else if s = 401 \<or> s = 403 then VENDOR_AUTH else if s = 400 then VENDOR_INVALID_REQUEST
      else if s < 500 then VENDOR_REJECTED else VENDOR_UNAVAILABLE)"

lemma metadata_keys [simp]:
  "checked_metadata VENDOR = Inr VENDOR" "checked_metadata [(''feed'', v)] = Inr [(''feed'', v)]"
  "checked_metadata [(''range_start'', v)] = Inr [(''range_start'', v)]"
  by (simp_all add: VENDOR_def METADATA_KEYS_def DERIVED_METADATA_KEYS_def)

lemma to_trade_count_cases: "to_trade_count v = Inl ValueError \<or> (\<exists>n. to_trade_count v = Inr n)"
  by (auto simp: to_trade_count_def split: option.split py_float.split)

lemma built_without_reset:
  assumes "sp_branch (row_of r) = c" and "c \<noteq> TraderJoeError" and "\<not> sp_requires_reset_at (row_of r)" and "checked_metadata m = Inr m"
  shows "\<exists>e. build_tj_error c r m None = Inr e \<and> tj_error_ok e \<and> te_reason e = r \<and> te_reset_at e = None"
proof -
  have "build_tj_error c r m None = Inr \<lparr>te_class = c, te_reason = r, te_metadata = m, te_reset_at = None\<rparr>"
    using assms by (simp add: build_tj_error_def checked_reset_at_def)
  then show ?thesis using build_tj_error_ok by fastforce
qed

lemma unsupported_built:
  assumes "r \<in> UNSUPPORTED_REASONS" and "checked_metadata m = Inr m"
  shows "\<exists>e. broker_unsupported_error r m = Inr e \<and> tj_error_ok e \<and> te_reason e = r"
  using assms built_without_reset [of r InvalidRequestError m]
  by (auto simp: broker_unsupported_error_def UNSUPPORTED_REASONS_def row_of_def REASONS_def)

lemma refusal_is_typed:
  assumes "refusal_before_call env isofmt now q = Some e"
  shows "\<exists>t. e = Inr t \<and> tj_error_ok t \<and> te_reason t \<in> insert RANGE_IN_FUTURE UNSUPPORTED_REASONS"
proof -
  have nil: "e = broker_unsupported_error r [] \<Longrightarrow> r \<in> UNSUPPORTED_REASONS \<Longrightarrow> ?thesis" for r
    using unsupported_built [of r "[]"] by auto
  have feed: "e = broker_unsupported_error FEED_NOT_AVAILABLE [(''feed'', v)] \<Longrightarrow> ?thesis" for v
    using unsupported_built [OF _ metadata_keys(2), of FEED_NOT_AVAILABLE v] by (auto simp: UNSUPPORTED_REASONS_def)
  have range: "e = build_tj_error InvalidRequestError RANGE_IN_FUTURE [(''range_start'', v)] None \<Longrightarrow> ?thesis" for v
    using built_without_reset [OF _ _ _ metadata_keys(3), of RANGE_IN_FUTURE InvalidRequestError v] by (auto simp: row_of_def REASONS_def)
  consider r where "e = broker_unsupported_error r []" "r \<in> UNSUPPORTED_REASONS"
    | f where "e = broker_unsupported_error FEED_NOT_AVAILABLE [(''feed'', Text (feed_name f))]"
    | "e = build_tj_error InvalidRequestError RANGE_IN_FUTURE [(''range_start'', Text (isofmt (bq_start q)))] None"
    using assms by (auto simp: refusal_before_call_def Let_def UNSUPPORTED_REASONS_def split: if_splits option.splits)
  then show ?thesis using nil feed range by cases blast+
qed

lemma classified:
  assumes "budget_ok b" and "\<not> unclassifiable x"
  shows "\<exists>e. classify_vendor_error http_date x b now = Some (Inr e) \<and> tj_error_ok e
    \<and> te_reason e = (case x of APIError (Some s) _ \<Rightarrow> status_reason s | _ \<Rightarrow> VENDOR_UNAVAILABLE)
    \<and> (te_reset_at e \<noteq> None \<longleftrightarrow> te_reason e = VENDOR_RATE_LIMITED)"
proof -
  have built: "\<exists>e. build_tj_error c r VENDOR None = Inr e \<and> tj_error_ok e \<and> te_reason e = r \<and> te_reset_at e = None"
    if "(c, r) \<in> {(ExogenousError, VENDOR_AUTH), (InvalidRequestError, VENDOR_INVALID_REQUEST), (ExogenousError, VENDOR_REJECTED),
      (ExogenousError, VENDOR_UNAVAILABLE)}" for c r
    using that built_without_reset [of r c VENDOR] by (auto simp: row_of_def REASONS_def)
  have full: "\<exists>t. full_refill_seconds b = Inr t"
    using assms(1) by (auto simp: full_refill_seconds_def budget_ok_def split: option.split)
  have limited: "\<exists>e. rate_limited http_date h b now = Inr (Inr e) \<and> tj_error_ok e \<and> te_reason e = VENDOR_RATE_LIMITED \<and> te_reset_at e \<noteq> None" for h
  proof -
    have t: "\<exists>e. build_tj_error ExogenousError VENDOR_RATE_LIMITED VENDOR (Some (Aware t)) = Inr e \<and> tj_error_ok e
        \<and> te_reason e = VENDOR_RATE_LIMITED \<and> te_reset_at e \<noteq> None" for t
      using build_tj_error_ok [of ExogenousError VENDOR_RATE_LIMITED VENDOR "Some (Aware t)"]
      by (auto simp: build_tj_error_def row_of_def REASONS_def checked_reset_at_def)
    then show ?thesis using full by (auto simp: rate_limited_def Let_def split: option.split)
  qed
  show ?thesis
  proof (cases x)
    case (APIError status h)
    then obtain s where s: "status = Some s" "400 \<le> s" "s < 600" using assms(2) by (auto simp: unclassifiable_def split: option.splits)
    show ?thesis
    proof (cases "s = 429")
      case True
      then show ?thesis using limited [of h] APIError s by (auto simp: classify_vendor_error_def classify_status_def)
    next
      case False
      then show ?thesis using APIError s built [of ExogenousError VENDOR_AUTH] built [of InvalidRequestError VENDOR_INVALID_REQUEST]
          built [of ExogenousError VENDOR_REJECTED] built [of ExogenousError VENDOR_UNAVAILABLE]
        by (auto simp: classify_vendor_error_def classify_status_def)
    qed
  next
    case TransportFailure
    then show ?thesis using built [of ExogenousError VENDOR_UNAVAILABLE] by (auto simp: classify_vendor_error_def)
  next
    case OtherException
    then show ?thesis using assms(2) by (simp add: unclassifiable_def)
  qed
qed

lemma map_r_total: "\<forall>x \<in> set xs. \<exists>y. f x = Inr y \<Longrightarrow> \<exists>ys. map_r f xs = Inr ys"
proof (induction xs)
  case (Cons x xs)
  then obtain y ys where "f x = Inr y" "map_r f xs = Inr ys" by auto
  then show ?case by simp
qed simp

definition vendor_bars :: "(string \<rightharpoonup> vendor_bar list) \<Rightarrow> string \<Rightarrow> vendor_bar list" where
  "vendor_bars bar_set symbol = (case bar_set symbol of None \<Rightarrow> [] | Some bs \<Rightarrow> bs)"

lemma convert_Inr:
  "convert bar_set symbol until = Inr bs \<longleftrightarrow>
     list_all2 (\<lambda>v b. convert_bar v = Inr b) (filter (before_end until) (vendor_bars bar_set symbol)) bs"
  by (auto simp: convert_def vendor_bars_def map_r_all2 split: option.split)

lemma convert_total: "whole_counts until (vendor_bars bar_set symbol) \<Longrightarrow> \<exists>bs. convert bar_set symbol until = Inr bs"
proof -
  assume w: "whole_counts until (vendor_bars bar_set symbol)"
  have "\<exists>b. convert_bar v = Inr b" if "to_trade_count (vb_trade_count v) \<noteq> Inl ValueError" for v
    using that to_trade_count_cases [of "vb_trade_count v"] by (auto simp: convert_bar_def)
  then show ?thesis
    using w map_r_total [of "filter (before_end until) (vendor_bars bar_set symbol)" convert_bar]
    by (auto simp: convert_def vendor_bars_def whole_counts_def list_all_iff split: option.splits)
qed

text \<open>What a call that got past the refusals comes to.\<close>

lemma get_bars_called:
  assumes "get_bars w b q = (res, b')" and "refusal_before_call (rw_env w) (rw_isofmt w) (rw_now w) q = None"
    and "get_client (rw_connect w) (rw_env w) (rw_client w) = Inr client"
  obtains timeframe f where "from_standard AlpacaGranularity (bq_granularity q) = Inr (timeframe, bq_granularity q)"
    and "call_vendor client (params_of q (resolve_feed (rw_env w)) timeframe) q (rw_passes w) b = (f, b')"
    and "res = map_option (\<lambda>f. answered w q f b') f"
proof -
  obtain timeframe where m: "from_standard AlpacaGranularity (bq_granularity q) = Inr (timeframe, bq_granularity q)"
    using from_standard_total [of "bq_granularity q"] by auto
  obtain f b1 where c: "call_vendor client (params_of q (resolve_feed (rw_env w)) timeframe) q (rw_passes w) b = (f, b1)" by fastforce
  have both: "map_option (\<lambda>f. answered w q f b1) f = res \<and> b1 = b'"
    using assms(1) unfolding get_bars_def assms(2,3) m option.case sum.case fst_conv c Let_def prod.case prod.inject .
  note b1 = both [THEN conjunct2]
  show ?thesis by (rule that [OF m c [unfolded b1] both [THEN conjunct1, symmetric, unfolded b1]])
qed

lemma call_vendor_cases:
  assumes "call_vendor client params q passes b = (f, b')" and "acquire passes (bq_priority q) (bq_deadline q) b = (r, ws, b'')"
  shows "b' = b''" and "f = (case r of None \<Rightarrow> None
    | Some Spent \<Rightarrow> Some (case client params of BarSet bs \<Rightarrow> Fetched bs | VendorRaises x \<Rightarrow> FetchVendor x)
    | Some (Raised e) \<Rightarrow> Some (FetchTyped e)
    | Some Failed \<Rightarrow> Some FetchBug)"
  using assms by (auto simp: call_vendor_def split: option.split acquire_end.split)

lemma call_vendor_fetched:
  assumes "call_vendor client params q passes b = (Some (Fetched bs), b')"
  shows "fst (acquire passes (bq_priority q) (bq_deadline q) b) = Some Spent \<and> client params = BarSet bs"
proof -
  obtain r ws b'' where a: "acquire passes (bq_priority q) (bq_deadline q) b = (r, ws, b'')" by (metis prod_cases3)
  from call_vendor_cases(2) [OF assms a] show ?thesis
    unfolding a by (cases r; cases "the r") (auto split: vendor_answer.splits)
qed

lemma answered_response:
  "answered w q f b = BarsResponse r \<longleftrightarrow>
     (\<exists>bar_set bs. f = Fetched bar_set \<and> convert bar_set (in_symbol (bq_instrument q)) (bq_end q) = Inr bs
        \<and> r = \<lparr>br_feed = resolve_feed (rw_env w), br_bars = bs,
             br_served = (bq_start q, case bq_end q of None \<Rightarrow> rw_later w | Some e \<Rightarrow> min e (rw_later w)), br_as_of = rw_later w\<rparr>)"
  by (cases f) (auto simp: answered_def failed_with_def Let_def split: option.splits sum.splits)

lemma served_answers:
  assumes "get_bars w b q = (Some (BarsResponse r), b')"
  shows "\<exists>client timeframe bar_set. get_client (rw_connect w) (rw_env w) (rw_client w) = Inr client
    \<and> fst (acquire (rw_passes w) (bq_priority q) (bq_deadline q) b) = Some Spent
    \<and> from_standard AlpacaGranularity (bq_granularity q) = Inr (timeframe, bq_granularity q)
    \<and> client (params_of q (br_feed r) timeframe) = BarSet bar_set
    \<and> (let kept = filter (before_end (bq_end q)) (vendor_bars bar_set (in_symbol (bq_instrument q)))
       in list_all2 (\<lambda>v x. convert_bar v = Inr x) kept (br_bars r)
          \<and> (ascending (map vb_timestamp (vendor_bars bar_set (in_symbol (bq_instrument q))))
              \<and> list_all (\<lambda>v. bq_start q \<le> vb_timestamp v) (vendor_bars bar_set (in_symbol (bq_instrument q))) \<longrightarrow>
             ascending (map bb_timestamp (br_bars r))
              \<and> list_all (\<lambda>x. bq_start q \<le> bb_timestamp x \<and> pred_option (\<lambda>e. bb_timestamp x < e) (bq_end q)) (br_bars r)))
    \<and> br_feed r = resolve_feed (rw_env w) \<and> bq_feed q \<in> {None, Some (br_feed r)} \<and> bq_start q < rw_now w
    \<and> br_as_of r = rw_later w
    \<and> br_served r = (bq_start q, case bq_end q of None \<Rightarrow> br_as_of r | Some e \<Rightarrow> min e (br_as_of r))"
proof -
  have none: "refusal_before_call (rw_env w) (rw_isofmt w) (rw_now w) q = None"
    using assms by (auto simp: get_bars_def failed_with_def split: option.splits sum.splits)
  obtain client where client: "get_client (rw_connect w) (rw_env w) (rw_client w) = Inr client"
    using assms none by (auto simp: get_bars_def failed_with_def split: sum.splits)
  obtain timeframe f where f: "from_standard AlpacaGranularity (bq_granularity q) = Inr (timeframe, bq_granularity q)"
    "call_vendor client (params_of q (resolve_feed (rw_env w)) timeframe) q (rw_passes w) b = (f, b')"
    "Some (BarsResponse r) = map_option (\<lambda>f. answered w q f b') f"
    using get_bars_called [OF assms none client] .
  from f(3) obtain g where "f = Some g" "answered w q g b' = BarsResponse r" by (cases f) auto
  then obtain bar_set bs where set: "f = Some (Fetched bar_set)"
    and bs: "convert bar_set (in_symbol (bq_instrument q)) (bq_end q) = Inr bs"
    and r: "r = \<lparr>br_feed = resolve_feed (rw_env w), br_bars = bs,
       br_served = (bq_start q, case bq_end q of None \<Rightarrow> rw_later w | Some e \<Rightarrow> min e (rw_later w)), br_as_of = rw_later w\<rparr>"
    by (auto simp: answered_response)
  have spent: "fst (acquire (rw_passes w) (bq_priority q) (bq_deadline q) b) = Some Spent"
    "client (params_of q (resolve_feed (rw_env w)) timeframe) = BarSet bar_set"
    using call_vendor_fetched [OF f(2) [unfolded set]] by simp_all
  let ?vs = "vendor_bars bar_set (in_symbol (bq_instrument q))"
  let ?kept = "filter (before_end (bq_end q)) ?vs"
  have all2: "list_all2 (\<lambda>v x. convert_bar v = Inr x) ?kept bs" using bs by (simp add: convert_Inr)
  have stamp: "convert_bar v = Inr x \<Longrightarrow> bb_timestamp x = vb_timestamp v" for v x by (auto simp: convert_bar_def bind_r_Inr_iff)
  have times: "map bb_timestamp bs = map vb_timestamp ?kept"
    using all2 by (induction rule: list_all2_induct) (auto dest: stamp)
  have asc: "ascending (map bb_timestamp bs) \<and> list_all (\<lambda>x. bq_start q \<le> bb_timestamp x \<and> pred_option (\<lambda>e. bb_timestamp x < e) (bq_end q)) bs"
    if vs: "ascending (map vb_timestamp ?vs) \<and> list_all (\<lambda>v. bq_start q \<le> vb_timestamp v) ?vs"
  proof
    show "ascending (map bb_timestamp bs)" unfolding times using vs by (simp add: sorted_wrt_map sorted_wrt_filter)
    have "bb_timestamp ` set bs = vb_timestamp ` set ?kept" using arg_cong [OF times, of set] by simp
    have "bq_start q \<le> bb_timestamp x \<and> pred_option (\<lambda>e. bb_timestamp x < e) (bq_end q)" if "x \<in> set bs" for x
    proof -
      obtain v where "v \<in> set ?kept" "bb_timestamp x = vb_timestamp v"
        using \<open>x \<in> set bs\<close> \<open>bb_timestamp ` set bs = vb_timestamp ` set ?kept\<close> by blast
      moreover have "bq_start q \<le> vb_timestamp v" using calculation(1) vs by (simp add: list_all_iff)
      ultimately show ?thesis by (cases "bq_end q") (simp_all add: before_end_def)
    qed
    then show "list_all (\<lambda>x. bq_start q \<le> bb_timestamp x \<and> pred_option (\<lambda>e. bb_timestamp x < e) (bq_end q)) bs"
      by (simp add: list_all_iff)
  qed
  have asked: "bq_feed q \<in> {None, Some (resolve_feed (rw_env w))}" "bq_start q < rw_now w"
    using none by (auto simp: refusal_before_call_def Let_def split: if_splits)
  have fields: "br_feed r = resolve_feed (rw_env w)" "br_bars r = bs" "br_as_of r = rw_later w"
    "br_served r = (bq_start q, case bq_end q of None \<Rightarrow> rw_later w | Some e \<Rightarrow> min e (rw_later w))"
    by (simp_all add: r)
  show ?thesis
    unfolding fields Let_def
    by (rule exI [of _ client], rule exI [of _ timeframe], rule exI [of _ bar_set])
      (rule conjI client spent f(1) all2 asked refl | (rule impI, rule asc, assumption))+
qed

lemma converted_fields:
  "convert_bar v = Inr x \<Longrightarrow> bb_timestamp x = vb_timestamp v \<and> bb_open x = vb_open v \<and> bb_high x = vb_high v \<and> bb_low x = vb_low v
     \<and> bb_close x = vb_close v \<and> bb_volume x = vb_volume v \<and> bb_vwap x = vb_vwap v
     \<and> vb_trade_count v = map_option (\<lambda>n. Finite (of_int n)) (bb_trade_count x)"
  by (auto simp: convert_bar_def to_trade_count_def bind_r_Inr_iff split: option.splits py_float.splits if_splits)

text \<open>C23. A served answer is the vendor's own: a token was spent, the call asked for the query's symbol, window and granularity on
  the entitled tape, which is the caller's when it named one, and the bars are those the vendor has under the symbol, in their order,
  less those at or after the end, each with the time, open, high, low, close, volume, number of trades and vwap of the
  vendor's; the served window is the one asked for with its end clamped to the moment of the answer. So when the
  vendor's bars ascend and start in the range, so do those served, half open.\<close>

theorem served_answers_are_the_vendors:
  assumes "get_bars w b q = (Some (BarsResponse r), b')"
  shows "\<exists>client timeframe bar_set vs. get_client (rw_connect w) (rw_env w) (rw_client w) = Inr client
    \<and> fst (acquire (rw_passes w) (bq_priority q) (bq_deadline q) b) = Some Spent
    \<and> from_standard AlpacaGranularity (bq_granularity q) = Inr (timeframe, bq_granularity q)
    \<and> client \<lparr>vp_symbol = in_symbol (bq_instrument q), vp_timeframe = timeframe, vp_start = bq_start q, vp_end = bq_end q,
         vp_feed = br_feed r\<rparr> = BarSet bar_set
    \<and> vs = (case bar_set (in_symbol (bq_instrument q)) of None \<Rightarrow> [] | Some vs \<Rightarrow> vs)
    \<and> list_all2 (\<lambda>v x. bb_timestamp x = vb_timestamp v \<and> bb_open x = vb_open v \<and> bb_high x = vb_high v \<and> bb_low x = vb_low v
           \<and> bb_close x = vb_close v \<and> bb_volume x = vb_volume v \<and> bb_vwap x = vb_vwap v
           \<and> vb_trade_count v = map_option (\<lambda>n. Finite (of_int n)) (bb_trade_count x))
         (filter (\<lambda>v. pred_option (\<lambda>e. vb_timestamp v < e) (bq_end q)) vs) (br_bars r)
    \<and> (ascending (map vb_timestamp vs) \<and> list_all (\<lambda>v. bq_start q \<le> vb_timestamp v) vs \<longrightarrow>
         ascending (map bb_timestamp (br_bars r))
         \<and> list_all (\<lambda>x. bq_start q \<le> bb_timestamp x \<and> pred_option (\<lambda>e. bb_timestamp x < e) (bq_end q)) (br_bars r))
    \<and> br_feed r = resolve_feed (rw_env w) \<and> bq_feed q \<in> {None, Some (br_feed r)} \<and> bq_start q < rw_now w
    \<and> br_as_of r = rw_later w
    \<and> br_served r = (bq_start q, case bq_end q of None \<Rightarrow> br_as_of r | Some e \<Rightarrow> min e (br_as_of r))"
proof -
  from served_answers [OF assms] obtain client timeframe bar_set where
    call: "get_client (rw_connect w) (rw_env w) (rw_client w) = Inr client"
      "fst (acquire (rw_passes w) (bq_priority q) (bq_deadline q) b) = Some Spent"
      "from_standard AlpacaGranularity (bq_granularity q) = Inr (timeframe, bq_granularity q)"
      "client (params_of q (br_feed r) timeframe) = BarSet bar_set"
    and bars: "list_all2 (\<lambda>v x. convert_bar v = Inr x)
        (filter (before_end (bq_end q)) (vendor_bars bar_set (in_symbol (bq_instrument q)))) (br_bars r)"
    and order: "ascending (map vb_timestamp (vendor_bars bar_set (in_symbol (bq_instrument q))))
        \<and> list_all (\<lambda>v. bq_start q \<le> vb_timestamp v) (vendor_bars bar_set (in_symbol (bq_instrument q))) \<longrightarrow>
      ascending (map bb_timestamp (br_bars r))
        \<and> list_all (\<lambda>x. bq_start q \<le> bb_timestamp x \<and> pred_option (\<lambda>e. bb_timestamp x < e) (bq_end q)) (br_bars r)"
    and rest: "br_feed r = resolve_feed (rw_env w)" "bq_feed q \<in> {None, Some (br_feed r)}" "bq_start q < rw_now w" "br_as_of r = rw_later w"
      "br_served r = (bq_start q, case bq_end q of None \<Rightarrow> br_as_of r | Some e \<Rightarrow> min e (br_as_of r))"
    unfolding Let_def by blast
  let ?vs = "vendor_bars bar_set (in_symbol (bq_instrument q))"
  have vs: "?vs = (case bar_set (in_symbol (bq_instrument q)) of None \<Rightarrow> [] | Some vs \<Rightarrow> vs)"
    by (simp add: vendor_bars_def)
  have kept: "before_end (bq_end q) = (\<lambda>v. pred_option (\<lambda>e. vb_timestamp v < e) (bq_end q))"
    by (intro ext) (simp add: before_end_def split: option.split)
  have asked: "params_of q (br_feed r) timeframe = \<lparr>vp_symbol = in_symbol (bq_instrument q), vp_timeframe = timeframe, vp_start = bq_start q,
      vp_end = bq_end q, vp_feed = br_feed r\<rparr>"
    by (simp add: params_of_def)
  note fields = list_all2_mono [OF bars converted_fields]
  show ?thesis
    by (intro exI [of _ client] exI [of _ timeframe] exI [of _ bar_set] exI [of _ ?vs] conjI)
      (rule call(1-3) call(4) [unfolded asked] vs fields [unfolded kept] | use order rest in simp)+
qed

definition sample_vendor_bar :: "instant \<Rightarrow> vendor_bar" where
  "sample_vendor_bar t = \<lparr>vb_timestamp = t, vb_open = 1, vb_high = 2, vb_low = 1, vb_close = 2, vb_volume = 7,
     vb_trade_count = Some (Finite 3), vb_vwap = None\<rparr>"

definition sample_reader :: "vendor_answer \<Rightarrow> reader_world" where
  "sample_reader answer =
     \<lparr>rw_env = Map.empty, rw_isofmt = unary, rw_http_date = (\<lambda>_. None), rw_connect = (\<lambda>_ _ _. answer),
      rw_client = Some (\<lambda>_. answer), rw_now = 100, rw_later = 101, rw_passes = [(id, 0, 100)]\<rparr>"

definition sample_query :: bars_query where
  "sample_query = \<lparr>bq_instrument = \<lparr>in_symbol = ''AAPL'', in_asset_type = STOCK, in_exchange = None, in_currency = None\<rparr>,
     bq_granularity = ONE_DAY, bq_start = 10, bq_end = Some 30, bq_adjustment = ''raw'', bq_priority = LIVE, bq_feed = None,
     bq_deadline = None\<rparr>"

definition sample_budget :: rate_budget where
  "sample_budget = mk_budget ''ALPACA'' (Some 2) None None 0"

definition sample_served :: bars_response where
  "sample_served = \<lparr>br_feed = IEX, br_bars = map (\<lambda>t. \<lparr>bb_timestamp = t, bb_open = 1, bb_high = 2, bb_low = 1, bb_close = 2, bb_volume = 7,
     bb_trade_count = Some 3, bb_vwap = None\<rparr>) [10, 20], br_served = (10, 30), br_as_of = 101\<rparr>"

lemma sample_get_bars:
  "fst (get_bars (sample_reader (BarSet [''AAPL'' \<mapsto> map sample_vendor_bar [10, 20, 30]])) sample_budget sample_query)
    = Some (BarsResponse sample_served)"
  by code_simp

theorem served_answers_are_the_vendors_witness:
  "ascending (map bb_timestamp (br_bars sample_served)) \<and> br_served sample_served = (10, 30)"
proof -
  let ?w = "sample_reader (BarSet [''AAPL'' \<mapsto> map sample_vendor_bar [10, 20, 30]])"
  obtain b' where g: "get_bars ?w sample_budget sample_query = (Some (BarsResponse sample_served), b')"
    using sample_get_bars by (metis prod.collapse)
  show ?thesis
    using served_answers_are_the_vendors [OF g] by (auto simp: sample_query_def sample_served_def)
qed

definition expected_reasons :: "reason set" where
  "expected_reasons = {UNSUPPORTED_INSTRUMENT, UNSUPPORTED_ASSET_TYPE, FEED_NOT_AVAILABLE, RANGE_IN_FUTURE, VENDOR_AUTH, RATE_BUDGET,
     VENDOR_INVALID_REQUEST, VENDOR_REJECTED, VENDOR_RATE_LIMITED, VENDOR_UNAVAILABLE}"

definition expected_failure :: "tj_error \<Rightarrow> bool" where
  "expected_failure e \<longleftrightarrow> tj_error_ok e \<and> te_reason e \<in> expected_reasons
     \<and> (te_reset_at e \<noteq> None \<longleftrightarrow> te_reason e \<in> {RATE_BUDGET, VENDOR_RATE_LIMITED})"

lemma refusal_expected: "refusal_before_call env isofmt now q = Some e \<Longrightarrow> \<exists>t. e = Inr t \<and> expected_failure t"
proof -
  assume "refusal_before_call env isofmt now q = Some e"
  then obtain t where t: "e = Inr t" "tj_error_ok t" "te_reason t \<in> insert RANGE_IN_FUTURE UNSUPPORTED_REASONS"
    using refusal_is_typed by blast
  have "refused (te_reason t)" using t(3) by (auto simp: UNSUPPORTED_REASONS_def refused_def row_of_def REASONS_def)
  then have "te_reset_at t = None" using t(2) by (simp add: tj_error_ok_def)
  then show ?thesis using t by (auto simp: expected_failure_def expected_reasons_def UNSUPPORTED_REASONS_def)
qed

lemma missing_credentials_expected: "\<exists>t. missing_credentials_error = Inr t \<and> expected_failure t"
  using built_without_reset [of VENDOR_AUTH ExogenousError "[]"]
  by (auto simp: missing_credentials_error_def expected_failure_def expected_reasons_def row_of_def REASONS_def)

lemma get_client_cases: "get_client connect env built = Inl e \<Longrightarrow> e = missing_credentials_error"
  by (auto simp: get_client_def split: option.splits if_splits)

lemma budget_failure_expected: "te_reason e = RATE_BUDGET \<Longrightarrow> tj_error_ok e \<Longrightarrow> te_reset_at e = Some t \<Longrightarrow> expected_failure e"
  by (simp add: expected_failure_def expected_reasons_def)

lemma classified_expected:
  assumes "budget_ok b" and "\<not> unclassifiable x"
  shows "\<exists>e. classify_vendor_error http_date x b now = Some (Inr e) \<and> expected_failure e"
proof -
  obtain e where e: "classify_vendor_error http_date x b now = Some (Inr e)" "tj_error_ok e"
    "te_reason e = (case x of APIError (Some s) _ \<Rightarrow> status_reason s | _ \<Rightarrow> VENDOR_UNAVAILABLE)"
    "te_reset_at e \<noteq> None \<longleftrightarrow> te_reason e = VENDOR_RATE_LIMITED" using classified [OF assms] by blast
  have "te_reason e \<in> {VENDOR_AUTH, VENDOR_INVALID_REQUEST, VENDOR_REJECTED, VENDOR_RATE_LIMITED, VENDOR_UNAVAILABLE}"
    unfolding e(3) by (auto split: vendor_exception.split option.split)
  then show ?thesis using e(1,2,4) by (auto simp: expected_failure_def expected_reasons_def)
qed

lemma answered_raises:
  assumes "budget_ok b" and "answered w q f b = BarsRaises" and "f \<noteq> FetchBug"
  shows "(\<exists>x. f = FetchVendor x \<and> unclassifiable x)
    \<or> (\<exists>bs. f = Fetched bs \<and> \<not> whole_counts (bq_end q) (vendor_bars bs (in_symbol (bq_instrument q))))"
proof (cases f)
  case (Fetched bs)
  then show ?thesis using assms(2) convert_total [of "bq_end q" bs "in_symbol (bq_instrument q)"]
    by (auto simp: answered_def Let_def split: sum.splits)
next
  case (FetchVendor x)
  then show ?thesis using assms(2) classified_expected [OF assms(1), of x "rw_http_date w" "rw_later w"]
    by (auto simp: answered_def failed_with_def split: option.splits sum.splits)
qed (use assms in \<open>simp_all add: answered_def\<close>)

lemma answered_failure:
  assumes "budget_ok b" and "answered w q f b = BarsFailure e" and "\<And>t. f = FetchTyped t \<Longrightarrow> expected_failure t"
  shows "expected_failure e"
proof (cases f)
  case (FetchVendor x)
  then have c: "classify_vendor_error (rw_http_date w) x b (rw_later w) = Some (Inr e)"
    using assms(2) by (auto simp: answered_def failed_with_def split: option.splits sum.splits)
  have "\<not> unclassifiable x"
    using c by (auto simp: unclassifiable_def classify_vendor_error_def classify_status_def split: vendor_exception.splits option.splits if_splits)
  then show ?thesis using classified_expected [OF assms(1), of x "rw_http_date w" "rw_later w"] c by auto
qed (use assms in \<open>auto simp: answered_def Let_def split: sum.splits\<close>)

lemma expected_failures:
  assumes "budget_ok b" and "fair_passes (rb_rate b) (rw_passes w)" and "get_bars w b q = (Some res, b')"
  shows "(res = BarsRaises \<longrightarrow>
           (\<exists>client params. get_client (rw_connect w) (rw_env w) (rw_client w) = Inr client
              \<and> (case client params of
                   VendorRaises x \<Rightarrow> unclassifiable x
                 | BarSet bs \<Rightarrow> \<not> whole_counts (bq_end q) (vendor_bars bs (in_symbol (bq_instrument q))))))
    \<and> (\<forall>e. res = BarsFailure e \<longrightarrow> expected_failure e)"
proof (cases "refusal_before_call (rw_env w) (rw_isofmt w) (rw_now w) q")
  case (Some e)
  then show ?thesis using assms(3) refusal_expected [OF Some] by (auto simp: get_bars_def failed_with_def)
next
  case None
  show ?thesis
  proof (cases "get_client (rw_connect w) (rw_env w) (rw_client w)")
    case (Inl e)
    obtain t where t: "missing_credentials_error = Inr t" "expected_failure t" using missing_credentials_expected by blast
    have "fst (get_bars w b q) = Some (failed_with missing_credentials_error)"
      using None Inl get_client_cases [OF Inl] by (simp only: get_bars_def option.case sum.case fst_conv)
    also have "\<dots> = Some (BarsFailure t)" unfolding t(1) failed_with_def by simp
    finally have "res = BarsFailure t" unfolding assms(3) by simp
    then show ?thesis using t(2) by simp
  next
    case (Inr client)
    obtain timeframe f where c: "call_vendor client (params_of q (resolve_feed (rw_env w)) timeframe) q (rw_passes w) b = (f, b')"
      "Some res = map_option (\<lambda>f. answered w q f b') f"
      using get_bars_called [OF assms(3) None Inr] by metis
    obtain r ws b'' where a: "acquire (rw_passes w) (bq_priority q) (bq_deadline q) b = (r, ws, b'')" by (metis prod_cases3)
    note f = call_vendor_cases [OF c(1) a]
    note acq = acquire_cases [OF assms(1,2) a, folded f(1)]
    obtain g where g: "f = Some g" "res = answered w q g b'" using c(2) by (cases f) auto
    have typed: "expected_failure t" if "g = FetchTyped t" for t
    proof -
      have "r = Some (Raised t)" using f(2) g(1) that
        by (cases r; cases "the r") (auto split: vendor_answer.splits)
      then show ?thesis using acq budget_failure_expected by blast
    qed
    have call: "client (params_of q (resolve_feed (rw_env w)) timeframe) = VendorRaises x" if "g = FetchVendor x" for x
      using f(2) g(1) that by (cases r; cases "the r") (auto split: vendor_answer.splits)
    have call': "client (params_of q (resolve_feed (rw_env w)) timeframe) = BarSet bs" if "g = Fetched bs" for bs
      using f(2) g(1) that by (cases r; cases "the r") (auto split: vendor_answer.splits)
    have "g \<noteq> FetchBug" using f(2) g(1) acq by (cases r; cases "the r") (auto split: vendor_answer.splits)
    then have "res = BarsRaises \<Longrightarrow> (case client (params_of q (resolve_feed (rw_env w)) timeframe) of
        VendorRaises x \<Rightarrow> unclassifiable x
      | BarSet bs \<Rightarrow> \<not> whole_counts (bq_end q) (vendor_bars bs (in_symbol (bq_instrument q))))"
      using answered_raises [of b' w q g] acq g(2) call call' by auto
    moreover have "expected_failure e" if "res = BarsFailure e" for e
      using answered_failure [of b' w q g e] acq g(2) that typed by simp
    ultimately show ?thesis using Inr by blast
  qed
qed



end
