(* ===== verification/Ingest_Server.thy ===== *)
theory Ingest_Server
  imports Wire_Messages Alpaca_Read
begin

text \<open>
  The server's side of a FetchDataset call: \<open>server/routers/data_ingest/fetch_dataset_handler.py\<close> (a reader's
  answer as events), \<open>server/common/rpc/mapping/fetch_stream.py\<close> (events as messages) and
  \<open>server/common/rpc/ingest.py\<close> (the servicer), and the whole hop between it and the client's seam of
  \<open>Fetch_Stream\<close>. A generator is what it yields, in order, with what it raises at its end, if anything; a consumer
  that stops early is not modelled. \<open>minted\<close> is what \<open>new_error_id()\<close> answers, \<open>detail_of\<close> an error's text for humans.
\<close>

section \<open>The handler\<close>

definition MAX_PAGE_BARS :: nat where
  "MAX_PAGE_BARS = 5000"

text \<open>\<open>BrokerRead\<close>: an answer with what its iterator raises after its bars, a failure returned, or a raise.\<close>

datatype reader_answer = Answers bars_response "escaped option" | Refuses tj_error | Breaks

type_synonym broker_read = "bars_query \<Rightarrow> reader_answer"

definition rejected :: "(tj_error \<Rightarrow> string) \<Rightarrow> reason \<Rightarrow> escaped" where
  "rejected detail_of r =
     (case build_tj_error InvalidRequestError r [] None of
        Inl _ \<Rightarrow> RaisedOther
      | Inr e \<Rightarrow> RaisedTyped e (detail_of e))"

definition query_of :: "fetch_request \<Rightarrow> instant option \<Rightarrow> bars_query" where
  "query_of r deadline =
     \<lparr>bq_instrument = \<lparr>in_symbol = rq_symbol r, in_asset_type = rq_asset_type r, in_exchange = None, in_currency = None\<rparr>,
      bq_granularity = rq_granularity r, bq_start = rq_start r, bq_end = rq_end r, bq_adjustment = ''raw'',
      bq_priority = priority_for_update_type (rq_update_type r), bq_feed = rq_feed r, bq_deadline = deadline\<rparr>"

definition fetched_of :: "feed \<Rightarrow> broker_bar \<Rightarrow> fetched_bar" where
  "fetched_of f b =
     \<lparr>fb_start = bb_timestamp b, fb_open = bb_open b, fb_high = bb_high b, fb_low = bb_low b, fb_close = bb_close b,
      fb_volume = bb_volume b, fb_trade_count = bb_trade_count b, fb_vwap = bb_vwap b, fb_feed = f\<rparr>"

text \<open>The loop over the bars: the pages it yields, the count and the batch left over.\<close>

fun drain :: "feed \<Rightarrow> nat \<Rightarrow> fetched_bar list \<Rightarrow> broker_bar list \<Rightarrow> fetch_event list \<times> nat \<times> fetched_bar list" where
  "drain f served batch [] = ([], served, batch)"
| "drain f served batch (b # bs) =
     (let batch = batch @ [fetched_of f b]; served = Suc served in
      if length batch \<ge> MAX_PAGE_BARS
      then (let (evs, rest) = drain f served [] bs in (BarPage batch # evs, rest))
      else drain f served batch bs)"

definition served_events :: "bars_response \<Rightarrow> escaped option \<Rightarrow> fetch_event list \<times> escaped option" where
  "served_events response raised =
     (let (pages, served, batch) = drain (br_feed response) 0 [] (br_bars response) in
      case raised of
        Some exc \<Rightarrow> (FetchAccepted (br_feed response) # pages, Some exc)
      | None \<Rightarrow>
          (FetchAccepted (br_feed response) # pages @ (if batch = [] then [] else [BarPage batch]) @
             [FetchDone \<lparr>fd_bar_count = served, fd_served = br_served response, fd_as_of = br_as_of response\<rparr>],
           None))"

definition handler_fetch ::
  "(data_source \<rightharpoonup> broker_read) \<Rightarrow> (tj_error \<Rightarrow> string) \<Rightarrow> fetch_request \<Rightarrow> instant option \<Rightarrow> fetch_event list \<times> escaped option" where
  "handler_fetch readers detail_of r deadline =
     (if rq_data_types r = [] then ([], Some (rejected detail_of INVALID_REQUEST))
      else if QUOTE \<in> set (rq_data_types r) then ([], Some (rejected detail_of UNSUPPORTED_ASSET_TYPE))
      else if TRADE \<in> set (rq_data_types r) then ([], Some (rejected detail_of UNSUPPORTED_ASSET_TYPE))
      else if rq_asset_type r \<noteq> STOCK then ([], Some (rejected detail_of UNSUPPORTED_ASSET_TYPE))
      else case readers (rq_source r) of
             None \<Rightarrow> ([], Some RaisedOther)
           | Some reader \<Rightarrow>
               (case reader (query_of r deadline) of
                  Refuses e \<Rightarrow> ([], Some (RaisedTyped e (detail_of e)))
                | Breaks \<Rightarrow> ([], Some RaisedOther)
                | Answers response raised \<Rightarrow> served_events response raised))"

section \<open>The encoder\<close>

text \<open>\<open>_carried_error_id\<close>\<close>

definition carried_error_id :: "tj_error \<Rightarrow> string option" where
  "carried_error_id e =
     (case map_of (te_metadata e) ERROR_ID_KEY of
        Some (Text s) \<Rightarrow> if s = [] then None else Some s
      | Some (Texts ss) \<Rightarrow> if \<not> list_ex (\<lambda>s. s \<noteq> []) ss then None else Some (join_with '','' ss)
      | None \<Rightarrow> None)"

definition refused_response :: "tj_error \<Rightarrow> string option \<Rightarrow> string \<Rightarrow> mapping_error + wire_response" where
  "refused_response e error_id minted =
     (if te_reason e \<noteq> FEED_NOT_AVAILABLE then Inl ProtoMappingError
      else let m = map (\<lambda>(k, v). (k, wire_value v)) (te_metadata e);
               m = (if carried_error_id e = None
                    then dict_set ERROR_ID_KEY (case error_id of None \<Rightarrow> minted | Some i \<Rightarrow> if i = [] then minted else i) m
                    else m)
           in Inr (WireAck (WireRefused \<lparr>fr_reason = reason_name (te_reason e), fr_domain = ERROR_DOMAIN, fr_metadata = m\<rparr>)))"

record stream_encoder =
  en_wire_feed :: int
  en_feed :: feed

definition mk_encoder :: "feed \<Rightarrow> mapping_error + stream_encoder" where
  "mk_encoder f = bind_r (member_to_proto FEED feed_name f) (\<lambda>n. Inr \<lparr>en_wire_feed = n, en_feed = f\<rparr>)"

definition encode_accepted :: "stream_encoder \<Rightarrow> wire_response" where
  "encode_accepted en = WireAck (WireAccepted (en_wire_feed en) [])"

definition encode_page :: "stream_encoder \<Rightarrow> fetched_bar list \<Rightarrow> mapping_error + wire_response" where
  "encode_page en page =
     (if length page > MAX_PAGE_BARS then Inl ProtoMappingError
      else if list_ex (\<lambda>b. fb_feed b \<noteq> en_feed en) page then Inl ProtoMappingError
      else bind_r (page_to_proto page) (\<lambda>m. Inr (WirePage m)))"

definition encode_done :: "fetch_done \<Rightarrow> mapping_error + wire_response" where
  "encode_done fin = bind_r (done_to_proto fin) (\<lambda>m. Inr (WireDone m))"

section \<open>The servicer\<close>

text \<open>
  \<open>FetchDataset\<close>: each event is encoded as it comes. An error of the mapping escapes; the one typed error converted
  is a feed that cannot be served, while nothing has been yielded.
\<close>

definition put_on_wire :: "mapping_error + wire_response \<Rightarrow> wire_response list \<times> escaped option \<Rightarrow> wire_response list \<times> escaped option" where
  "put_on_wire encoded rest =
     (case encoded of
        Inl _ \<Rightarrow> ([], Some RaisedOther)
      | Inr m \<Rightarrow> (m # fst rest, snd rest))"

definition in_band :: "string \<Rightarrow> escaped \<Rightarrow> wire_response list \<times> escaped option" where
  "in_band minted exc =
     (case exc of
        RaisedTyped e detail \<Rightarrow>
          if te_reason e \<noteq> FEED_NOT_AVAILABLE then ([], Some exc)
          else put_on_wire (refused_response e None minted) ([], None)
      | RaisedOther \<Rightarrow> ([], Some exc))"

fun serve :: "string \<Rightarrow> stream_encoder option \<Rightarrow> fetch_event list \<Rightarrow> escaped option \<Rightarrow> wire_response list \<times> escaped option" where
  "serve minted enc [] None = ([], None)"
| "serve minted (Some en) [] (Some exc) = ([], Some exc)"
| "serve minted None [] (Some exc) = in_band minted exc"
| "serve minted (Some en) (FetchAccepted f # evs) raised = ([], Some RaisedOther)"
| "serve minted None (FetchAccepted f # evs) raised =
     (case mk_encoder f of
        Inl _ \<Rightarrow> ([], Some RaisedOther)
      | Inr en \<Rightarrow> put_on_wire (Inr (encode_accepted en)) (serve minted (Some en) evs raised))"
| "serve minted None (BarPage page # evs) raised = ([], Some RaisedOther)"
| "serve minted None (FetchDone fin # evs) raised = ([], Some RaisedOther)"
| "serve minted (Some en) (BarPage page # evs) raised = put_on_wire (encode_page en page) (serve minted (Some en) evs raised)"
| "serve minted (Some en) (FetchDone fin # evs) raised = put_on_wire (encode_done fin) (serve minted (Some en) evs raised)"

text \<open>What one deployment and one call fix. \<open>se_remaining\<close> is \<open>context.time_remaining()\<close>.\<close>

record ingest_service =
  se_readers :: "data_source \<rightharpoonup> broker_read"
  se_detail_of :: "tj_error \<Rightarrow> string"
  se_minted :: string
  se_isofmt :: "instant \<Rightarrow> string"
  se_parse :: "string \<Rightarrow> stamp option"
  se_now :: instant
  se_remaining :: "rat option"
  se_later :: instant

definition call_deadline :: "ingest_service \<Rightarrow> instant option" where
  "call_deadline s = (case se_remaining s of None \<Rightarrow> None | Some seconds \<Rightarrow> Some (se_now s + timedelta_of_seconds seconds))"

definition FetchDataset :: "ingest_service \<Rightarrow> wire_request \<Rightarrow> wire_response list \<times> escaped option" where
  "FetchDataset s message =
     (case request_to_domain message of
        Inl _ \<Rightarrow> ([], Some RaisedOther)
      | Inr r \<Rightarrow>
          let (evs, raised) = handler_fetch (se_readers s) (se_detail_of s) r (call_deadline s)
          in serve (se_minted s) None evs raised)"

section \<open>The hop\<close>

text \<open>What the client's reader is given of a message, and of the status the boundary ends the call with.\<close>

fun mapped_of :: "mapping_error + 'a \<Rightarrow> 'a mapped" where
  "mapped_of (Inl e) = Unreadable"
| "mapped_of (Inr x) = Readable x"

fun decoded :: "wire_response \<Rightarrow> wire_event" where
  "decoded NoEvent = NoArm"
| "decoded (WireAck m) = AckArm (mapped_of (ack_to_domain m))"
| "decoded (WirePage m) = PageArm (mapped_of (page_to_domain m))"
| "decoded (WireDone m) = DoneArm (mapped_of (done_to_domain m))"

definition call_ends :: "ingest_service \<Rightarrow> escaped option \<Rightarrow> call_item list" where
  "call_ends s raised =
     (case raised of
        None \<Rightarrow> []
      | Some exc \<Rightarrow>
          (case abort_for (se_isofmt s) exc (se_minted s) (se_later s) of
             Inl _ \<Rightarrow> []
           | Inr failure \<Rightarrow> [CallFailed (from_rpc_error (se_parse s) (se_later s) failure)]))"

text \<open>
  The transport under the call, which the client makes with a timeout and \<open>wait_for_ready\<close>: it delivers the server's messages and
  the status it ended with; or it breaks, after any number of messages, with a status of its own (an \<open>AioRpcError\<close>):
  \<open>UNAVAILABLE\<close> when the peer goes away, \<open>DEADLINE_EXCEEDED\<close> when the timeout has passed. A call to a peer that
  is down waits for it, so it is \<open>Broken 0\<close> at the deadline. When that happens is the environment's choice; no clock is
  modelled.
\<close>

datatype transport = Delivered | Broken nat rpc_failure

definition through :: "ingest_service \<Rightarrow> transport \<Rightarrow> wire_response list \<times> escaped option \<Rightarrow> call_item list" where
  "through s tr served =
     (case tr of
        Delivered \<Rightarrow> map (\<lambda>m. Response (decoded m)) (fst served) @ call_ends s (snd served)
      | Broken n failure \<Rightarrow>
          map (\<lambda>m. Response (decoded m)) (take n (fst served)) @ [CallFailed (from_rpc_error (se_parse s) (se_later s) failure)])"

definition call_of :: "ingest_service \<Rightarrow> transport \<Rightarrow> wire_request \<Rightarrow> call_item list" where
  "call_of s tr message = through s tr (FetchDataset s message)"

text \<open>\<open>GrpcIngestFetchClient.fetch\<close> over that call; \<open>None\<close> is a request that cannot be put on the wire.\<close>

definition client_fetch :: "ingest_service \<Rightarrow> transport \<Rightarrow> fetch_request \<Rightarrow> (fetch_event list \<times> tj_error option) option" where
  "client_fetch s tr r =
     (case request_to_proto r of
        Inl _ \<Rightarrow> None
      | Inr message \<Rightarrow> Some (fetch reader_init (call_of s tr message)))"

section \<open>Pages\<close>

lemma drain_pages:
  assumes "drain f served batch bs = (evs, served', rest)" and "length batch < MAX_PAGE_BARS"
  shows "\<exists>pages. evs = map BarPage pages \<and> concat pages @ rest = batch @ map (fetched_of f) bs \<and> served' = served + length bs
    \<and> length rest < MAX_PAGE_BARS \<and> (\<forall>page\<in>set pages. length page = MAX_PAGE_BARS)"
  using assms
proof (induction f served batch bs arbitrary: evs rule: drain.induct)
  case (1 f served batch)
  then show ?case by (intro exI [of _ "[]"]) simp
next
  case (2 f served batch b bs)
  let ?batch = "batch @ [fetched_of f b]"
  show ?case
  proof (cases "length ?batch \<ge> MAX_PAGE_BARS")
    case True
    then obtain evs' where e: "evs = BarPage ?batch # evs'" "drain f (Suc served) [] bs = (evs', served', rest)"
      using "2.prems"(1) by (auto simp: Let_def split: prod.splits)
    have "length ([] :: fetched_bar list) < MAX_PAGE_BARS" by (simp add: MAX_PAGE_BARS_def)
    from "2.IH"(1) [OF refl refl True e(2) this] obtain pages where "evs' = map BarPage pages"
      "concat pages @ rest = map (fetched_of f) bs" "served' = Suc served + length bs" "length rest < MAX_PAGE_BARS"
      "\<forall>page\<in>set pages. length page = MAX_PAGE_BARS" by auto
    then show ?thesis using e(1) True "2.prems"(2) by (intro exI [of _ "?batch # pages"]) auto
  next
    case False
    then have "drain f (Suc served) ?batch bs = (evs, served', rest)" using "2.prems"(1) by (simp add: Let_def)
    from "2.IH"(2) [OF refl refl False this] False show ?thesis by auto
  qed
qed

lemma served_events_raise:
  assumes "served_events response (Some exc) = (evs, raised)"
  shows "raised = Some exc \<and> (\<exists>pages rest. evs = FetchAccepted (br_feed response) # map BarPage pages
    \<and> concat pages @ rest = map (fetched_of (br_feed response)) (br_bars response)
    \<and> (\<forall>page\<in>set pages. length page = MAX_PAGE_BARS))"
proof -
  obtain pages served rest where d: "drain (br_feed response) 0 [] (br_bars response) = (pages, served, rest)" by (metis prod_cases3)
  have "length ([] :: fetched_bar list) < MAX_PAGE_BARS" by (simp add: MAX_PAGE_BARS_def)
  from drain_pages [OF d this] assms d show ?thesis by (auto simp: served_events_def)
qed

lemma served_events_done:
  assumes "served_events response None = (evs, raised)"
  shows "raised = None \<and> (\<exists>pages. evs = FetchAccepted (br_feed response) # map BarPage pages @
      [FetchDone \<lparr>fd_bar_count = length (br_bars response), fd_served = br_served response, fd_as_of = br_as_of response\<rparr>]
    \<and> concat pages = map (fetched_of (br_feed response)) (br_bars response)
    \<and> (\<forall>page\<in>set pages. page \<noteq> [] \<and> length page \<le> MAX_PAGE_BARS)
    \<and> (\<forall>page\<in>set (butlast pages). length page = MAX_PAGE_BARS))"
proof -
  obtain evs' served rest where d: "drain (br_feed response) 0 [] (br_bars response) = (evs', served, rest)" by (metis prod_cases3)
  have pos: "length ([] :: fetched_bar list) < MAX_PAGE_BARS" by (simp add: MAX_PAGE_BARS_def)
  from drain_pages [OF d pos] obtain pages where p: "evs' = map BarPage pages"
    "concat pages @ rest = map (fetched_of (br_feed response)) (br_bars response)" "served = length (br_bars response)"
    "length rest < MAX_PAGE_BARS" "\<forall>page\<in>set pages. length page = MAX_PAGE_BARS" by auto
  let ?pages = "pages @ (if rest = [] then [] else [rest])"
  have "page \<noteq> [] \<and> length page \<le> MAX_PAGE_BARS" if "page \<in> set ?pages" for page
    using that p(4,5) pos by (auto split: if_splits)
  moreover have "length page = MAX_PAGE_BARS" if "page \<in> set (butlast ?pages)" for page
    using that p(5) by (auto simp: butlast_append split: if_splits dest: in_set_butlastD)
  moreover have "concat ?pages = map (fetched_of (br_feed response)) (br_bars response)" using p(2) by auto
  moreover have "raised = None" "evs = FetchAccepted (br_feed response) # map BarPage ?pages @
      [FetchDone \<lparr>fd_bar_count = length (br_bars response), fd_served = br_served response, fd_as_of = br_as_of response\<rparr>]"
    using assms d p(1,3) by (auto simp: served_events_def)
  ultimately show ?thesis by blast
qed

section \<open>Encoding what the handler yields\<close>

definition bar_fits :: "broker_bar \<Rightarrow> bool" where
  "bar_fits b \<longleftrightarrow> dated (bb_timestamp b) \<and> pred_option (\<lambda>n. int64 n = Inr n) (bb_trade_count b)"

text \<open>What the wire can carry of an answer: instants of the years 1 to 9999 and integers of the fields' widths.\<close>

definition answer_fits :: "bars_response \<Rightarrow> bool" where
  "answer_fits response \<longleftrightarrow>
     list_all bar_fits (br_bars response) \<and> length (br_bars response) < 2 ^ 64
     \<and> dated (fst (br_served response)) \<and> dated (snd (br_served response)) \<and> dated (br_as_of response)"

lemma encoder_total: "\<exists>n. mk_encoder f = Inr \<lparr>en_wire_feed = n, en_feed = f\<rparr> \<and> member_to_proto FEED feed_name f = Inr n"
  using feeds.always_encodes [of f] by (auto simp: mk_encoder_def)

lemma accepted_decodes:
  "mk_encoder f = Inr en \<Longrightarrow> decoded (encode_accepted en) = AckArm (Readable (AckAccepted f))"
  using ack_codec [of "WireAccepted (en_wire_feed en) []" "AckAccepted f"]
  by (auto simp: mk_encoder_def encode_accepted_def bind_r_Inr_iff ack_to_proto_def)

lemma bar_encodes:
  "bar_fits b \<Longrightarrow> \<exists>m. bar_to_proto (fetched_of f b) = Inr m"
  using feeds.always_encodes [of f] optional_int64 [of "bb_trade_count b" "bb_trade_count b"]
  by (auto simp: bar_fits_def bar_to_proto_def fetched_of_def bind_r_Inr_iff to_timestamp_def)

lemma page_encodes:
  assumes "list_all bar_fits bs"
  shows "\<exists>m. page_to_proto (map (fetched_of f) bs) = Inr m \<and> page_to_domain m = Inr (map (fetched_of f) bs)"
proof -
  have "\<exists>ms. map_r bar_to_proto (map (fetched_of f) bs) = Inr ms"
    using assms
  proof (induction bs)
    case (Cons b bs)
    then show ?case using bar_encodes [of b f] by (auto simp: bind_r_Inr_iff)
  qed simp
  then obtain m where m: "page_to_proto (map (fetched_of f) bs) = Inr m" by (auto simp: page_to_proto_def)
  moreover have "list_all (\<lambda>b. dated (fb_start b)) (map (fetched_of f) bs)"
    using assms by (auto simp: list_all_iff bar_fits_def fetched_of_def)
  ultimately show ?thesis using page_codec [of m "map (fetched_of f) bs"] by blast
qed

lemma page_on_wire:
  assumes "list_all bar_fits bs" and "length bs \<le> MAX_PAGE_BARS" and "mk_encoder f = Inr en"
  shows "\<exists>m. encode_page en (map (fetched_of f) bs) = Inr m \<and> decoded m = PageArm (Readable (map (fetched_of f) bs))"
proof -
  have "en_feed en = f" using assms(3) by (auto simp: mk_encoder_def bind_r_Inr_iff)
  then have "\<not> list_ex (\<lambda>b. fb_feed b \<noteq> en_feed en) (map (fetched_of f) bs)" by (simp add: list_ex_iff fetched_of_def)
  then show ?thesis using page_encodes [OF assms(1), of f] assms(2) by (auto simp: encode_page_def)
qed

lemma done_on_wire:
  assumes "answer_fits response"
  defines "fin \<equiv> \<lparr>fd_bar_count = length (br_bars response), fd_served = br_served response, fd_as_of = br_as_of response\<rparr>"
  shows "\<exists>m. encode_done fin = Inr m \<and> decoded m = DoneArm (Readable fin)"
proof -
  have "\<exists>m. done_to_proto fin = Inr m"
    using assms by (simp add: done_to_proto_def answer_fits_def uint64_def served_range_to_proto_def to_timestamp_def)
  then obtain m where m: "done_to_proto fin = Inr m" by blast
  then have "done_to_domain m = Inr fin"
    using done_codec [of m fin] assms by (simp add: answer_fits_def)
  then show ?thesis using m by (simp add: encode_done_def)
qed

section \<open>Errors through the hop\<close>

text \<open>An error as the client rebuilds it: the same but for its metadata, joined, with the id it was logged under.\<close>

definition carried_over :: "string \<Rightarrow> tj_error \<Rightarrow> tj_error \<Rightarrow> bool" where
  "carried_over minted e e' \<longleftrightarrow>
     te_reason e' = te_reason e \<and> te_class e' = te_class e \<and> te_reset_at e' = te_reset_at e
     \<and> own_error_id e' = Some (case own_error_id e of None \<Rightarrow> minted | Some i \<Rightarrow> i)
     \<and> (\<forall>k. k \<noteq> ''error_id'' \<longrightarrow> map_of (te_metadata e') k = map_option (Text \<circ> wire_value) (map_of (te_metadata e) k))"

lemma carried_is_own: "carried_error_id e = own_error_id e"
  by (auto simp: carried_error_id_def own_error_id_def ERROR_ID_KEY_def list_ex_iff list_all_iff
      split: option.splits meta_value.splits)

lemma wire_metadata_keys_ok:
  assumes "tj_error_ok e" and "k \<in> fst ` set (wire_metadata e x y)"
  shows "key_ok k"
proof -
  have "k = ERROR_ID_KEY \<or> k \<in> fst ` set (te_metadata e)" using assms(2) wire_metadata_keys by blast
  then show ?thesis using assms(1) by (auto simp: tj_error_ok_def ERROR_ID_KEY_def METADATA_KEYS_def DERIVED_METADATA_KEYS_def)
qed

lemma refusal_rebuilds:
  assumes "tj_error_ok e" and "te_reason e = FEED_NOT_AVAILABLE" and "minted \<noteq> []"
  shows "\<exists>refusal. refused_response e None minted = Inr (WireAck (WireRefused refusal)) \<and> carried_over minted e (refusal_error refusal)"
proof -
  let ?m = "wire_metadata e None minted"
  let ?refusal = "\<lparr>fr_reason = reason_name (te_reason e), fr_domain = ERROR_DOMAIN, fr_metadata = ?m\<rparr>"
  let ?e' = "e\<lparr>te_metadata := map (\<lambda>(k, v). (k, Text v)) ?m\<rparr>"
  have r: "refused_response e None minted = Inr (WireAck (WireRefused ?refusal))"
    using assms(2) by (simp add: refused_response_def carried_is_own wire_metadata_def Let_def)
  have "checked_metadata (map (\<lambda>(k, v). (k, Text v)) ?m) = Inr (map (\<lambda>(k, v). (k, Text v)) ?m)"
    unfolding checked_metadata_iff keys_map_snd using wire_metadata_keys_ok [OF assms(1)] by (intro if_P) blast
  moreover have "te_class e = sp_branch (row_of (te_reason e))" "sp_branch (row_of (te_reason e)) \<noteq> TraderJoeError"
    using assms(1) spec_ok_REASONS [of "te_reason e"] by (auto simp: tj_error_ok_def spec_ok_def)
  moreover have "sp_outcome (row_of (te_reason e)) = REFUSED" "\<not> sp_requires_reset_at (row_of (te_reason e))"
    unfolding assms(2) by (simp_all add: row_of_def REASONS_def)
  moreover have "te_reset_at e = None" using assms(1) calculation(4) by (auto simp: tj_error_ok_def refused_def)
  ultimately have "refusal_error ?refusal = ?e'"
    by (simp add: refusal_error_def build_tj_error_def checked_reset_at_def)
  moreover have "carried_over minted e ?e'"
    using settled_own_id [OF assms(3), of e None]
    by (auto simp: carried_over_def settled_id_def map_of_wire wire_metadata_map ERROR_ID_KEY_def option.map_comp
        split: option.splits)
  ultimately show ?thesis using r by auto
qed

text \<open>What the model relies on: \<open>fromisoformat\<close> reads what \<open>isoformat\<close> writes, and an error id is a word.\<close>

definition hop_laws :: "ingest_service \<Rightarrow> bool" where
  "hop_laws s \<longleftrightarrow> (\<forall>t. se_isofmt s t \<noteq> [] \<and> se_parse s (se_isofmt s t) = Some (Aware t))
     \<and> se_minted s \<noteq> [] \<and> strip (se_minted s) = se_minted s"

text \<open>How an exception that escapes the servicer reads on the client's side.\<close>

definition seen_as :: "string \<Rightarrow> escaped \<Rightarrow> tj_error \<Rightarrow> bool" where
  "seen_as minted exc e' \<longleftrightarrow>
     (case exc of
        RaisedTyped e detail \<Rightarrow>
          if sp_grpc (row_of (te_reason e)) \<noteq> None then carried_over minted e e'
          else te_reason e' = PEER_INTERNAL \<and> own_error_id e' = Some minted
      | RaisedOther \<Rightarrow> te_reason e' = PEER_INTERNAL \<and> own_error_id e' = Some minted)"

lemma bug_seen:
  "hop_laws s \<Longrightarrow> te_reason (from_rpc_error (se_parse s) now (abort_with_bug (se_minted s))) = PEER_INTERNAL
     \<and> own_error_id (from_rpc_error (se_parse s) now (abort_with_bug (se_minted s))) = Some (se_minted s)"
  by (simp add: hop_laws_def abort_with_bug_def from_rpc_error_def peer_error_def bug_error_id_def own_error_id_def ERROR_ID_KEY_def)

lemma call_ends_seen:
  assumes laws: "hop_laws s" and ok: "\<And>e detail. exc = RaisedTyped e detail \<Longrightarrow> tj_error_ok e"
  shows "\<exists>e'. call_ends s (Some exc) = [CallFailed e'] \<and> seen_as (se_minted s) exc e'"
proof (cases "\<exists>e detail. exc = RaisedTyped e detail \<and> sp_grpc (row_of (te_reason e)) \<noteq> None")
  case False
  then show ?thesis using bug_seen [OF laws] by (auto simp: call_ends_def abort_for_def seen_as_def split: escaped.splits)
next
  case True
  then obtain e detail code where x: "exc = RaisedTyped e detail" "sp_grpc (row_of (te_reason e)) = Some code" by auto
  let ?id = "case own_error_id e of None \<Rightarrow> se_minted s | Some i \<Rightarrow> i"
  obtain st where st: "render (se_isofmt s) e detail (Some ?id) (se_minted s) (se_later s) = Inr st"
    using x(2) renderable_code [OF x(2)] by (simp add: render_def Let_def)
  have "settled_id e (Some ?id) (se_minted s) = ?id"
    using laws by (simp add: settled_id_def hop_laws_def split: option.split)
  moreover have "\<forall>t. se_isofmt s t \<noteq> [] \<and> se_parse s (se_isofmt s t) = Some (Aware t)" "se_minted s \<noteq> []"
    using laws by (auto simp: hop_laws_def)
  ultimately have "carried_over (se_minted s) e (from_rpc_error (se_parse s) (se_later s) (sent st))"
    using round_trip [OF ok [OF x(1)] _ _ st, of "se_parse s" "se_later s"] by (simp add: carried_over_def Let_def)
  then show ?thesis using x st by (simp add: call_ends_def abort_for_def abort_with_error_def seen_as_def)
qed

section \<open>The whole hop\<close>

abbreviation reading :: "feed \<Rightarrow> stream_reader" where
  "reading f \<equiv> \<lparr>sr_accepted = Some f, sr_done = False\<rparr>"

abbreviation items_of :: "ingest_service \<Rightarrow> wire_response list \<times> escaped option \<Rightarrow> call_item list" where
  "items_of s served \<equiv> map (\<lambda>m. Response (decoded m)) (fst served) @ call_ends s (snd served)"

lemma items_put: "items_of s (put_on_wire (Inr m) served) = Response (decoded m) # items_of s served"
  by (simp add: put_on_wire_def)

lemma pages_cross:
  assumes "mk_encoder f = Inr en" and "\<forall>bs\<in>set chunks. list_all bar_fits bs \<and> length bs \<le> MAX_PAGE_BARS"
    and "fetch (reading f) (items_of s (serve minted (Some en) rest raised)) = (evs, err)"
  shows "fetch (reading f) (items_of s (serve minted (Some en) (map (\<lambda>bs. BarPage (map (fetched_of f) bs)) chunks @ rest) raised)) =
     (map (\<lambda>bs. BarPage (map (fetched_of f) bs)) chunks @ evs, err)"
  using assms(2)
proof (induction chunks)
  case Nil
  then show ?case using assms(3) by simp
next
  case (Cons bs chunks)
  let ?page = "map (fetched_of f) bs"
  obtain m where m: "encode_page en ?page = Inr m" "decoded m = PageArm (Readable ?page)"
    using page_on_wire [of bs f en] assms(1) Cons.prems by auto
  have read: "reader_event (PageArm (Readable ?page)) (reading f) = Inr (BarPage ?page, reading f)"
    by (simp add: reader_event_def read_page_def list_ex_iff fetched_of_def)
  have IH: "fetch (reading f) (items_of s (serve minted (Some en) (map (\<lambda>bs. BarPage (map (fetched_of f) bs)) chunks @ rest) raised)) =
     (map (\<lambda>bs. BarPage (map (fetched_of f) bs)) chunks @ evs, err)" using Cons.IH Cons.prems by simp
  show ?case
    unfolding list.map append_Cons serve.simps m(1) items_put fetch.simps m(2) read sum.case prod.case IH Let_def by simp
qed

lemma done_crosses:
  assumes "answer_fits response"
  defines "fin \<equiv> \<lparr>fd_bar_count = length (br_bars response), fd_served = br_served response, fd_as_of = br_as_of response\<rparr>"
  shows "fetch (reading f) (items_of s (serve minted (Some en) [FetchDone fin] None)) = ([FetchDone fin], None)"
proof -
  obtain m where m: "encode_done fin = Inr m" "decoded m = DoneArm (Readable fin)"
    using done_on_wire [OF assms(1)] unfolding fin_def by blast
  have "reader_event (DoneArm (Readable fin)) (reading f) = Inr (FetchDone fin, \<lparr>sr_accepted = Some f, sr_done = True\<rparr>)"
    by (simp add: reader_event_def)
  then show ?thesis unfolding serve.simps m(1) items_put fetch.simps m(2) by (simp add: call_ends_def)
qed

lemma ack_crosses:
  assumes "mk_encoder f = Inr en" and "fetch (reading f) (items_of s (serve minted (Some en) evs raised)) = (evs', err)"
  shows "fetch reader_init (items_of s (serve minted None (FetchAccepted f # evs) raised)) = (FetchAccepted f # evs', err)"
proof -
  have "reader_event (AckArm (Readable (AckAccepted f))) reader_init = Inr (FetchAccepted f, reading f)"
    by (simp add: reader_event_def reader_init_def read_ack_def)
  then show ?thesis
    unfolding serve.simps assms(1) sum.case items_put fetch.simps accepted_decodes [OF assms(1)] using assms(2) by simp
qed

lemma pages_of_map:
  "concat pages @ rest = map g bs \<Longrightarrow> \<exists>chunks rest'. pages = map (map g) chunks \<and> rest = map g rest' \<and> concat chunks @ rest' = bs"
proof (induction pages arbitrary: bs)
  case Nil
  then show ?case by (intro exI [of _ "[]"] exI [of _ bs]) simp
next
  case (Cons page pages)
  then have "map g bs = page @ (concat pages @ rest)" by simp
  then obtain bs1 bs2 where b: "bs = bs1 @ bs2" "page = map g bs1" "map g bs2 = concat pages @ rest"
    using map_eq_append_conv [of g bs page "concat pages @ rest"] by metis
  from Cons.IH [OF b(3) [symmetric]] obtain chunks rest' where
    "pages = map (map g) chunks" "rest = map g rest'" "concat chunks @ rest' = bs2" by blast
  then show ?case using b by (intro exI [of _ "bs1 # chunks"] exI [of _ rest']) simp
qed

text \<open>What the client sees of what the handler raises: the one refusal in band is rebuilt like an error of a status.\<close>

definition client_sees :: "string \<Rightarrow> fetch_event list \<Rightarrow> escaped \<Rightarrow> tj_error \<Rightarrow> bool" where
  "client_sees minted evs exc e' \<longleftrightarrow>
     (case exc of
        RaisedTyped e detail \<Rightarrow>
          if evs = [] \<and> te_reason e = FEED_NOT_AVAILABLE then carried_over minted e e' else seen_as minted exc e'
      | RaisedOther \<Rightarrow> seen_as minted exc e')"

definition typed_ok :: "escaped option \<Rightarrow> bool" where
  "typed_ok raised \<longleftrightarrow> (\<forall>e detail. raised = Some (RaisedTyped e detail) \<longrightarrow> tj_error_ok e)"

lemma refusal_crosses:
  assumes "hop_laws s" and "typed_ok (Some exc)"
  shows "\<exists>e'. fetch reader_init (items_of s (serve (se_minted s) None [] (Some exc))) = ([], Some e')
    \<and> client_sees (se_minted s) [] exc e'"
proof (cases "\<exists>e detail. exc = RaisedTyped e detail \<and> te_reason e = FEED_NOT_AVAILABLE")
  case False
  then have "serve (se_minted s) None [] (Some exc) = ([], Some exc)" by (auto simp: in_band_def split: escaped.splits)
  moreover obtain e' where "call_ends s (Some exc) = [CallFailed e']" "seen_as (se_minted s) exc e'"
    using call_ends_seen [OF assms(1), of exc] assms(2) by (auto simp: typed_ok_def)
  ultimately show ?thesis using False by (auto simp: client_sees_def split: escaped.splits)
next
  case True
  then obtain e detail where x: "exc = RaisedTyped e detail" "te_reason e = FEED_NOT_AVAILABLE" by blast
  then obtain refusal where r: "refused_response e None (se_minted s) = Inr (WireAck (WireRefused refusal))"
    "carried_over (se_minted s) e (refusal_error refusal)"
    using refusal_rebuilds [of e "se_minted s"] assms by (auto simp: typed_ok_def hop_laws_def)
  have "decoded (WireAck (WireRefused refusal)) = AckArm (Readable (AckRefused refusal))" by (simp add: ack_to_domain_def)
  moreover have "reader_event (AckArm (Readable (AckRefused refusal))) reader_init = Inl (refusal_error refusal)"
    by (simp add: reader_event_def reader_init_def read_ack_def)
  moreover have "serve (se_minted s) None [] (Some exc) = put_on_wire (Inr (WireAck (WireRefused refusal))) ([], None)"
    using x r(1) by (simp add: in_band_def)
  ultimately have "fetch reader_init (items_of s (serve (se_minted s) None [] (Some exc))) = ([], Some (refusal_error refusal))"
    by (simp add: put_on_wire_def)
  then show ?thesis using r(2) x by (auto simp: client_sees_def)
qed

lemma answer_crosses:
  assumes laws: "hop_laws s" and fits: "answer_fits response" and ev: "served_events response x = (evs, raised)" and ok: "typed_ok raised"
  shows "\<exists>err. fetch reader_init (items_of s (serve (se_minted s) None evs raised)) = (evs, err)
    \<and> (case raised of None \<Rightarrow> err = None | Some exc \<Rightarrow> \<exists>e'. err = Some e' \<and> client_sees (se_minted s) evs exc e')"
proof -
  let ?f = "br_feed response"
  obtain en where en: "mk_encoder ?f = Inr en" using encoder_total [of ?f] by blast
  have chunks_fit: "\<forall>bs\<in>set chunks. list_all bar_fits bs" if "concat chunks @ rest = br_bars response" for chunks rest
    using fits that unfolding answer_fits_def list_all_iff by (metis UN_I UnCI set_append set_concat)
  show ?thesis
  proof (cases x)
    case None
    from served_events_done [OF ev [unfolded None]] obtain pages where raised: "raised = None"
      and p: "concat pages = map (fetched_of ?f) (br_bars response)" "\<forall>page\<in>set pages. length page \<le> MAX_PAGE_BARS"
      and evs: "evs = FetchAccepted ?f # map BarPage pages @
        [FetchDone \<lparr>fd_bar_count = length (br_bars response), fd_served = br_served response, fd_as_of = br_as_of response\<rparr>]"
      by blast
    from pages_of_map [of pages "[]"] p(1) obtain chunks where c: "pages = map (map (fetched_of ?f)) chunks" "concat chunks = br_bars response"
      by auto
    have small: "\<forall>bs\<in>set chunks. list_all bar_fits bs \<and> length bs \<le> MAX_PAGE_BARS"
      using chunks_fit [of chunks "[]"] c p(2) by auto
    have "evs = FetchAccepted ?f # map (\<lambda>bs. BarPage (map (fetched_of ?f) bs)) chunks @
        [FetchDone \<lparr>fd_bar_count = length (br_bars response), fd_served = br_served response, fd_as_of = br_as_of response\<rparr>]"
      using evs c(1) by simp
    then show ?thesis
      using ack_crosses [OF en pages_cross [OF en small done_crosses [OF fits, of ?f "se_minted s" en s]]] raised by simp
  next
    case (Some exc)
    from served_events_raise [OF ev [unfolded Some]] obtain pages rest where raised: "raised = Some exc"
      and p: "concat pages @ rest = map (fetched_of ?f) (br_bars response)" "\<forall>page\<in>set pages. length page = MAX_PAGE_BARS"
      and evs: "evs = FetchAccepted ?f # map BarPage pages" by blast
    from pages_of_map [OF p(1)] obtain chunks rest' where c: "pages = map (map (fetched_of ?f)) chunks"
      "concat chunks @ rest' = br_bars response" by blast
    have small: "\<forall>bs\<in>set chunks. list_all bar_fits bs \<and> length bs \<le> MAX_PAGE_BARS"
      using chunks_fit [OF c(2)] c(1) p(2) by auto
    obtain e' where e': "call_ends s (Some exc) = [CallFailed e']" "seen_as (se_minted s) exc e'"
      using call_ends_seen [OF laws, of exc] ok raised by (auto simp: typed_ok_def)
    have "fetch (reading ?f) (items_of s (serve (se_minted s) (Some en) [] (Some exc))) = ([], Some e')" using e'(1) by simp
    from ack_crosses [OF en pages_cross [OF en small this]]
    show ?thesis using raised evs c(1) e'(2) by (auto simp: client_sees_def comp_def split: escaped.splits)
  qed
qed

lemma handler_cases:
  assumes "handler_fetch readers detail_of r deadline = (evs, raised)"
  shows "(\<exists>exc. evs = [] \<and> raised = Some exc) \<or>
    (\<exists>reader response x. readers (rq_source r) = Some reader \<and> reader (query_of r deadline) = Answers response x
      \<and> served_events response x = (evs, raised))"
  using assms by (auto simp: handler_fetch_def split: if_splits option.splits reader_answer.splits)

section \<open>Properties\<close>

lemma handler_pages:
  assumes "handler_fetch readers detail_of r deadline = (evs, None)"
  shows "\<exists>reader response pages. readers (rq_source r) = Some reader \<and> reader (query_of r deadline) = Answers response None
    \<and> set (rq_data_types r) = {MARKET_ACTIVITY} \<and> rq_asset_type r = STOCK
    \<and> evs = FetchAccepted (br_feed response) # map BarPage pages @
        [FetchDone \<lparr>fd_bar_count = length (br_bars response), fd_served = br_served response, fd_as_of = br_as_of response\<rparr>]
    \<and> concat pages = map (fetched_of (br_feed response)) (br_bars response)
    \<and> (\<forall>page\<in>set pages. page \<noteq> [] \<and> length page \<le> 5000) \<and> (\<forall>page\<in>set (butlast pages). length page = 5000)"
proof -
  obtain reader response x where h: "readers (rq_source r) = Some reader" "reader (query_of r deadline) = Answers response x"
    "served_events response x = (evs, None)" using handler_cases [OF assms] by blast
  have "x = None" using h(3) served_events_raise [of response] by (cases x) fastforce+
  have g: "rq_data_types r \<noteq> []" "QUOTE \<notin> set (rq_data_types r)" "TRADE \<notin> set (rq_data_types r)" "rq_asset_type r = STOCK"
    using assms by (simp_all add: handler_fetch_def split: if_splits)
  have "set (rq_data_types r) \<subseteq> {MARKET_ACTIVITY}"
    using g(2,3) by (metis data_type.exhaust insertI1 subsetI)
  then have "set (rq_data_types r) = {MARKET_ACTIVITY}" using g(1) by (simp add: subset_singleton_iff)
  moreover from served_events_done [OF h(3) [unfolded \<open>x = None\<close>]] obtain pages where
    "evs = FetchAccepted (br_feed response) # map BarPage pages @
        [FetchDone \<lparr>fd_bar_count = length (br_bars response), fd_served = br_served response, fd_as_of = br_as_of response\<rparr>]"
    "concat pages = map (fetched_of (br_feed response)) (br_bars response)"
    "\<forall>page\<in>set pages. page \<noteq> [] \<and> length page \<le> 5000" "\<forall>page\<in>set (butlast pages). length page = 5000"
    unfolding MAX_PAGE_BARS_def by blast
  ultimately show ?thesis
    using h(1,2) g(4) \<open>x = None\<close> by (intro exI [of _ reader] exI [of _ response] exI [of _ pages] conjI) simp_all
qed

text \<open>C25. The handler answers bars of stocks and nothing else, and its stream is the reader's answer cut into pages: the
  acknowledgement of the feed the reader resolved, then the reader's bars in their order, each stamped with that feed, in
  pages of at most 5000 that are never empty and all full but the last, then one done with their true number, the
  window served and the time of the answer.\<close>

theorem handler_pages_the_answer:
  assumes "handler_fetch readers detail_of r deadline = (evs, None)"
  shows "\<exists>reader response pages. readers (rq_source r) = Some reader \<and> reader (query_of r deadline) = Answers response None
    \<and> set (rq_data_types r) = {MARKET_ACTIVITY} \<and> rq_asset_type r = STOCK
    \<and> evs = FetchAccepted (br_feed response) # map BarPage pages @
        [FetchDone \<lparr>fd_bar_count = length (br_bars response), fd_served = br_served response, fd_as_of = br_as_of response\<rparr>]
    \<and> concat pages = map (fetched_of (br_feed response)) (br_bars response)
    \<and> (\<forall>page\<in>set pages. page \<noteq> [] \<and> length page \<le> 5000) \<and> (\<forall>page\<in>set (butlast pages). length page = 5000)"
  using assms by (rule handler_pages)

definition request_fits :: "fetch_request \<Rightarrow> bool" where
  "request_fits r \<longleftrightarrow> dated (rq_start r) \<and> pred_option dated (rq_end r) \<and> pred_option dated (rq_ready_by r) \<and> rq_request_id r \<noteq> Some []"

lemma hop_transparent:
  assumes "hop_laws s" and "request_fits r"
    and "handler_fetch (se_readers s) (se_detail_of s) r (call_deadline s) = (evs, raised)" and "typed_ok raised"
    and "\<And>reader response x. se_readers s (rq_source r) = Some reader \<Longrightarrow> reader (query_of r (call_deadline s)) = Answers response x
          \<Longrightarrow> answer_fits response"
  shows "\<exists>err. client_fetch s Delivered r = Some (evs, err)
    \<and> (case raised of None \<Rightarrow> err = None | Some exc \<Rightarrow> \<exists>e'. err = Some e' \<and> client_sees (se_minted s) evs exc e')"
proof -
  obtain m where m: "request_to_proto r = Inr m" using request_encodes by blast
  then have "request_to_domain m = Inr r" using assms(2) by (simp add: request_codec request_fits_def)
  then have call: "client_fetch s Delivered r = Some (fetch reader_init (items_of s (serve (se_minted s) None evs raised)))"
    using m assms(3) by (simp add: client_fetch_def call_of_def through_def FetchDataset_def case_prod_beta)
  from handler_cases [OF assms(3)] consider exc where "evs = []" "raised = Some exc"
    | reader response x where "se_readers s (rq_source r) = Some reader" "reader (query_of r (call_deadline s)) = Answers response x"
        "served_events response x = (evs, raised)" by blast
  then show ?thesis
  proof cases
    case 1
    then show ?thesis using refusal_crosses [of s exc] assms(1,4) call by auto
  next
    case 2
    then show ?thesis using answer_crosses [OF assms(1) assms(5) [OF 2(1,2)] 2(3) assms(4)] call by auto
  qed
qed

text \<open>A call that breaks: the client has the first events of the whole call, and an error.\<close>

lemma fetch_broken:
  assumes "fetch r (map (\<lambda>m. Response (decoded m)) ms @ ends) = (evs, err)" and "ends = [] \<or> (\<exists>e. ends = [CallFailed e])"
  shows "\<exists>e'. fetch r (map (\<lambda>m. Response (decoded m)) (take n ms) @ [CallFailed x]) = (take n evs, Some e')
    \<and> (e' = x \<or> err = Some e' \<and> length evs < n)"
  using assms(1)
proof (induction ms arbitrary: r evs n)
  case Nil
  then show ?case using assms(2) by auto
next
  case (Cons m ms)
  show ?case
  proof (cases n)
    case (Suc k)
    show ?thesis
    proof (cases "reader_event (decoded m) r")
      case (Inl e)
      then show ?thesis using Cons.prems Suc by auto
    next
      case (Inr step)
      obtain ev r' where step: "step = (ev, r')" by (cases step)
      obtain evs' where evs': "fetch r' (map (\<lambda>m. Response (decoded m)) ms @ ends) = (evs', err)" "evs = ev # evs'"
        using Cons.prems Inr step by (auto simp: Let_def split: prod.splits)
      from Cons.IH [OF evs'(1), of k] show ?thesis using Inr step Suc evs'(2) by auto
    qed
  qed simp
qed

lemma call_ends_shape: "call_ends s raised = [] \<or> (\<exists>e. call_ends s raised = [CallFailed e])"
  by (auto simp: call_ends_def split: option.split sum.split)

lemma client_broken:
  assumes "client_fetch s Delivered r = Some (evs, err)"
  shows "\<exists>e'. client_fetch s (Broken n failure) r = Some (take n evs, Some e')
    \<and> (e' = from_rpc_error (se_parse s) (se_later s) failure \<or> err = Some e' \<and> length evs < n)"
proof -
  obtain m where m: "request_to_proto r = Inr m" using request_encodes by blast
  with assms have "fetch reader_init (map (\<lambda>m. Response (decoded m)) (fst (FetchDataset s m)) @ call_ends s (snd (FetchDataset s m))) = (evs, err)"
    by (simp add: client_fetch_def call_of_def through_def)
  from fetch_broken [OF this call_ends_shape, of n "from_rpc_error (se_parse s) (se_later s) failure"] m show ?thesis
    by (simp add: client_fetch_def call_of_def through_def)
qed

text \<open>C3. The hop is transparent, and a channel that breaks is never mistaken for an end. When the transport delivers, a client
  that fetches sees exactly the events the handler yields on the other side, in their order, as if it called the handler itself;
  and the call fails for it exactly when the handler raises, with the error the handler raised (its reason, branch, reset time and
  metadata, and an error id) where that is typed and has a status or is the refusal of a feed before anything was sent, and as a
  failure inside the peer otherwise. When the transport breaks, after any number of messages and for any cause, the client has
  the first of those events and then an error, even if every event had arrived: \<open>DEADLINE\<close> past the timeout of the call,
  \<open>PEER_UNAVAILABLE\<close> without a peer, what the status of the failure says otherwise, or the error of the call that
  it had already read. It holds for values the wire can carry.\<close>

theorem the_hop_is_transparent:
  assumes "hop_laws s" and "request_fits r"
    and "handler_fetch (se_readers s) (se_detail_of s) r (call_deadline s) = (evs, raised)" and "typed_ok raised"
    and "\<And>reader response x. se_readers s (rq_source r) = Some reader \<Longrightarrow> reader (query_of r (call_deadline s)) = Answers response x
          \<Longrightarrow> answer_fits response"
  shows "\<exists>err. client_fetch s Delivered r = Some (evs, err)
    \<and> (case raised of None \<Rightarrow> err = None | Some exc \<Rightarrow> \<exists>e'. err = Some e' \<and> client_sees (se_minted s) evs exc e')
    \<and> (\<forall>n failure. \<exists>e'. client_fetch s (Broken n failure) r = Some (take n evs, Some e')
         \<and> (err = Some e' \<and> length evs < n
            \<or> e' = from_rpc_error (se_parse s) (se_later s) failure
              \<and> (rf_code failure = ''DEADLINE_EXCEEDED'' \<longrightarrow> te_reason e' = DEADLINE)
              \<and> (rf_code failure = ''UNAVAILABLE'' \<longrightarrow> te_reason e' = PEER_UNAVAILABLE)))"
proof -
  have "\<exists>err. client_fetch s Delivered r = Some (evs, err)
      \<and> (case raised of None \<Rightarrow> err = None | Some exc \<Rightarrow> \<exists>e'. err = Some e' \<and> client_sees (se_minted s) evs exc e')"
    using assms by (rule hop_transparent)
  then obtain err where err: "client_fetch s Delivered r = Some (evs, err)"
    "case raised of None \<Rightarrow> err = None | Some exc \<Rightarrow> \<exists>e'. err = Some e' \<and> client_sees (se_minted s) evs exc e'" by blast
  have codes: "(rf_code failure = ''DEADLINE_EXCEEDED'' \<longrightarrow> te_reason (from_rpc_error (se_parse s) (se_later s) failure) = DEADLINE)
      \<and> (rf_code failure = ''UNAVAILABLE'' \<longrightarrow> te_reason (from_rpc_error (se_parse s) (se_later s) failure) = PEER_UNAVAILABLE)" for failure
    by (simp add: from_rpc_error_def peer_error_def)
  have "\<exists>e'. client_fetch s (Broken n failure) r = Some (take n evs, Some e')
         \<and> (err = Some e' \<and> length evs < n
            \<or> e' = from_rpc_error (se_parse s) (se_later s) failure
              \<and> (rf_code failure = ''DEADLINE_EXCEEDED'' \<longrightarrow> te_reason e' = DEADLINE)
              \<and> (rf_code failure = ''UNAVAILABLE'' \<longrightarrow> te_reason e' = PEER_UNAVAILABLE))" for n failure
  proof -
    from client_broken [OF err(1)] obtain e' where "client_fetch s (Broken n failure) r = Some (take n evs, Some e')"
      "e' = from_rpc_error (se_parse s) (se_later s) failure \<or> err = Some e' \<and> length evs < n" by blast
    then show ?thesis using codes [of failure] by (intro exI [of _ e']) blast
  qed
  then show ?thesis using err by blast
qed

definition sample_service :: "reader_answer \<Rightarrow> ingest_service" where
  "sample_service answer =
     \<lparr>se_readers = [ALPACA_API \<mapsto> (\<lambda>q. answer)], se_detail_of = (\<lambda>e. ''detail''), se_minted = ''id-1'', se_isofmt = unary,
      se_parse = read_unary, se_now = 50, se_remaining = Some 3, se_later = 60\<rparr>"

definition sample_request :: fetch_request where
  "sample_request =
     \<lparr>rq_owner = ''me'', rq_source = ALPACA_API, rq_feed = None, rq_symbol = ''AAPL'', rq_asset_type = STOCK,
      rq_data_types = [MARKET_ACTIVITY], rq_granularity = ONE_DAY, rq_start = 10, rq_end = Some 30, rq_update_type = DAILY,
      rq_request_id = None, rq_ready_by = None, rq_best_effort = False\<rparr>"

lemma sample_hop: "hop_laws (sample_service answer)"
  using read_unary by (auto simp: hop_laws_def sample_service_def strip_def white_def)

lemma sample_fits: "request_fits sample_request" "answer_fits sample_served"
  by (simp_all add: request_fits_def answer_fits_def sample_request_def sample_served_def bar_fits_def dated_def EARLIEST_def
      LATEST_def int64_def)

lemma sample_handler:
  "handler_fetch (se_readers (sample_service (Answers sample_served None))) (se_detail_of (sample_service (Answers sample_served None)))
     sample_request deadline =
   ([FetchAccepted IEX, BarPage (map (fetched_of IEX) (br_bars sample_served)),
     FetchDone \<lparr>fd_bar_count = 2, fd_served = (10, 30), fd_as_of = 101\<rparr>], None)"
  by (simp add: handler_fetch_def sample_service_def sample_request_def served_events_def sample_served_def MAX_PAGE_BARS_def)

theorem handler_pages_the_answer_witness:
  "\<exists>pages. concat pages = map (fetched_of IEX) (br_bars sample_served) \<and> (\<forall>page\<in>set pages. page \<noteq> [] \<and> length page \<le> 5000)"
proof -
  let ?s = "sample_service (Answers sample_served None)"
  from handler_pages_the_answer [OF sample_handler [of None]] obtain reader response pages where
    p: "se_readers ?s (rq_source sample_request) = Some reader" "reader (query_of sample_request None) = Answers response None"
    "concat pages = map (fetched_of (br_feed response)) (br_bars response)" "\<forall>page\<in>set pages. page \<noteq> [] \<and> length page \<le> 5000"
    by blast
  have "reader = (\<lambda>q. Answers sample_served None)" using p(1) by (simp add: sample_service_def sample_request_def)
  then have "response = sample_served" "br_feed response = IEX" using p(2) by (auto simp: sample_served_def)
  then show ?thesis using p(3,4) by auto
qed

theorem the_hop_is_transparent_witness:
  "client_fetch (sample_service (Answers sample_served None)) Delivered sample_request =
     Some ([FetchAccepted IEX, BarPage (map (fetched_of IEX) (br_bars sample_served)),
       FetchDone \<lparr>fd_bar_count = 2, fd_served = (10, 30), fd_as_of = 101\<rparr>], None)
   \<and> (\<exists>e'. client_fetch (sample_service (Answers sample_served None)) (Broken 0 \<lparr>rf_code = ''DEADLINE_EXCEEDED'', rf_details = [], rf_status = None\<rparr>)
        sample_request = Some ([], Some e') \<and> te_reason e' = DEADLINE)"
proof -
  let ?down = "\<lparr>rf_code = ''DEADLINE_EXCEEDED'', rf_details = [], rf_status = None\<rparr>"
  have "answer_fits response"
    if "se_readers (sample_service (Answers sample_served None)) (rq_source sample_request) = Some reader"
      "reader (query_of sample_request (call_deadline (sample_service (Answers sample_served None)))) = Answers response x" for reader response x
    using that sample_fits(2) by (auto simp: sample_service_def sample_request_def)
  from the_hop_is_transparent [OF sample_hop sample_fits(1) sample_handler _ this]
  have "client_fetch (sample_service (Answers sample_served None)) Delivered sample_request =
     Some ([FetchAccepted IEX, BarPage (map (fetched_of IEX) (br_bars sample_served)),
       FetchDone \<lparr>fd_bar_count = 2, fd_served = (10, 30), fd_as_of = 101\<rparr>], None)"
    and "\<exists>e'. client_fetch (sample_service (Answers sample_served None)) (Broken 0 ?down) sample_request = Some ([], Some e') \<and> te_reason e' = DEADLINE"
    by (simp_all add: typed_ok_def)
  then show ?thesis by blast
qed

end
