(* ===== verification/Vendor_To_Table.thy ===== *)
theory Vendor_To_Table
  imports Ingest_Server
begin

text \<open>
  The services together: the store's fetch worker (\<open>Fetch_Worker\<close>) on a channel to the ingest service
  (\<open>Ingest_Server\<close>), whose reader is the Alpaca one (\<open>Alpaca_Read\<close>). A bar the vendor answers is followed to the row
  the store commits.
\<close>

section \<open>The Alpaca reader behind the handler\<close>

text \<open>A call still waiting for its token at the end of the passes given has no answer; the properties exclude it.\<close>

definition alpaca_reader :: "reader_world \<Rightarrow> rate_budget \<Rightarrow> broker_read" where
  "alpaca_reader w b q =
     (case fst (get_bars w b q) of
        Some (BarsResponse response) \<Rightarrow> Answers response None
      | Some (BarsFailure e) \<Rightarrow> Refuses e
      | Some BarsRaises \<Rightarrow> Breaks
      | None \<Rightarrow> Breaks)"

text \<open>The channel as the worker's client: every request can be written.\<close>

definition channel_over :: "ingest_service \<Rightarrow> transport \<Rightarrow> fetch_request \<Rightarrow> call_item list" where
  "channel_over s tr r = (case request_to_proto r of Inl _ \<Rightarrow> [] | Inr message \<Rightarrow> call_of s tr message)"

abbreviation channel_to :: "ingest_service \<Rightarrow> fetch_request \<Rightarrow> call_item list" where
  "channel_to s \<equiv> channel_over s Delivered"

lemma channel_fetch: "client_fetch s tr r = Some (fetch reader_init (channel_over s tr r))"
  using request_encodes [of r] by (auto simp: client_fetch_def channel_over_def)

section \<open>The rows of several pages\<close>

lemma all_some_append: "all_some (xs @ ys) = Some zs \<longleftrightarrow> (\<exists>us vs. all_some xs = Some us \<and> all_some ys = Some vs \<and> zs = us @ vs)"
  by (induction xs arbitrary: zs) (auto split: option.splits)

lemma page_rows_eq:
  "page_rows k i f now page = (case all_some (map bar_of_fetched page) of None \<Rightarrow> []
     | Some bs \<Rightarrow> map (row_of_bar (batch_for k i f []) now) bs)"
  by (auto simp: page_rows_def page_batch_def from_batch_create_def batch_for_def row_of_bar_def split: option.splits)

lemma page_rows_concat:
  assumes "\<forall>page\<in>set pages. all_some (map bar_of_fetched page) \<noteq> None"
  shows "(\<exists>bs. all_some (map bar_of_fetched (concat pages)) = Some bs)
    \<and> concat (map (page_rows k i f now) pages) = page_rows k i f now (concat pages)"
  using assms
proof (induction pages)
  case (Cons page pages)
  then obtain us vs where "all_some (map bar_of_fetched page) = Some us" "all_some (map bar_of_fetched (concat pages)) = Some vs"
    by auto
  moreover have "all_some (map bar_of_fetched (concat (page # pages))) = Some (us @ vs)"
    using calculation all_some_append [of "map bar_of_fetched page" "map bar_of_fetched (concat pages)"] by simp
  ultimately show ?case using Cons by (simp add: page_rows_eq)
qed (simp add: page_rows_eq)

lemma consumed_pages_validate:
  assumes "consume w other (map BarPage pages @ rest) p d = (p', Returns u d')"
  shows "\<forall>page\<in>set pages. all_some (map bar_of_fetched page) \<noteq> None"
  using assms
proof (induction pages arbitrary: p d)
  case (Cons page pages)
  obtain q blk where q: "on_page w page p d = (q, blk)" by fastforce
  obtain v d1 where blk: "blk = Returns v d1" using Cons.prems q by (cases blk) auto
  have "all_some (map bar_of_fetched page) \<noteq> None"
    using q blk by (auto simp: on_page_def page_batch_def split: option.splits)
  moreover have "consume w other (map BarPage pages @ rest) q d1 = (p', Returns u d')" using Cons.prems q blk by simp
  ultimately show ?case using Cons.IH by simp
qed simp

lemma completed_pages_validate:
  assumes "store_market_activity_worker w client start_at other fault d = (Inr s, d')"
    and "fetch reader_init (client (fetch_request_of (w_body w) start_at)) = (FetchAccepted f # map BarPage pages @ rest, None)"
  shows "\<forall>page\<in>set pages. all_some (map bar_of_fetched page) \<noteq> None"
proof -
  let ?p0 = "\<lparr>p_dataset = None, p_feed = None, p_count = 0, p_served = None, p_flip = None, p_committed = d\<rparr>"
  obtain u d0 where ov: "check_own_overlap (sb_key (w_body w)) d = Returns u d0"
    using assms(1) by (cases "check_own_overlap (sb_key (w_body w)) d")
      (auto simp: store_market_activity_worker_def write_transaction_Inr)
  obtain p body where c: "consume w other (FetchAccepted f # map BarPage pages @ rest) ?p0 d0 = (p, body)" by fastforce
  obtain v where v: "body = Returns v d'"
    using assms ov c by (auto simp: store_market_activity_worker_def write_transaction_Inr bind_b_Returns_iff split: option.splits)
  obtain q blk where q: "on_accepted w other f ?p0 d0 = (q, blk)" by fastforce
  obtain v' d1 where blk: "blk = Returns v' d1" using c v q by (cases blk) auto
  then have "consume w other (map BarPage pages @ rest) q d1 = (p, Returns v d')" using c v q by simp
  then show ?thesis by (rule consumed_pages_validate)
qed

section \<open>Errors of the handler\<close>

lemma handler_typed:
  assumes "handler_fetch readers detail_of r deadline = (evs, raised)"
    and "\<And>reader e. readers (rq_source r) = Some reader \<Longrightarrow> reader (query_of r deadline) = Refuses e \<Longrightarrow> tj_error_ok e"
    and "\<And>reader response x. readers (rq_source r) = Some reader \<Longrightarrow> reader (query_of r deadline) = Answers response x \<Longrightarrow> typed_ok x"
  shows "typed_ok raised"
proof -
  have reject: "tj_error_ok e" if "rejected detail_of c = RaisedTyped e detail" for c e detail
    using that build_tj_error_ok by (auto simp: rejected_def split: sum.splits)
  have "typed_ok raised" if "readers (rq_source r) = Some reader" "reader (query_of r deadline) = Answers response x"
    "served_events response x = (evs, raised)" for reader response x
  proof (cases x)
    case None
    then show ?thesis using served_events_done [of response evs raised] that(3) by (auto simp: typed_ok_def)
  next
    case (Some exc)
    then show ?thesis using served_events_raise [of response exc evs raised] that(3) assms(3) [OF that(1,2)] by simp
  qed
  then show ?thesis
    using assms(1,2) by (auto simp: handler_fetch_def typed_ok_def dest: reject split: if_splits option.splits reader_answer.splits)
qed

lemma alpaca_answers:
  "alpaca_reader a b q = Answers response x \<longleftrightarrow> fst (get_bars a b q) = Some (BarsResponse response) \<and> x = None"
  by (auto simp: alpaca_reader_def split: option.splits get_bars_result.splits)

lemma alpaca_fails: "alpaca_reader a b q = Refuses e \<longleftrightarrow> fst (get_bars a b q) = Some (BarsFailure e)"
  by (auto simp: alpaca_reader_def split: option.splits get_bars_result.splits)

section \<open>Properties\<close>

lemma vendor_bars_stored:
  assumes "hop_laws s" and "request_fits (fetch_request_of (w_body w) start_at)"
    and "se_readers s (k_source (sb_key (w_body w))) = Some (alpaca_reader a b)"
    and "get_bars a b (query_of (fetch_request_of (w_body w) start_at) (call_deadline s)) = (Some (BarsResponse response), b')"
    and "answer_fits response" and "reports_only (w_on_ack w)"
    and "store_market_activity_worker w (channel_over s tr) start_at other fault d = (Inr stored, d')"
  shows "\<exists>i bs. (\<exists>e\<in>set (entries d'). e_id e = i \<and> names_row (entry_on_ack (sb_key (w_body w)) (sb_expiry (w_body w)) (br_feed response)) e)
    \<and> all_some (map (bar_of_fetched \<circ> fetched_of (br_feed response)) (br_bars response)) = Some bs
    \<and> bars d' = fold (\<lambda>row. upsert_row bar_key (bar_update row) row)
         (map (row_of_bar (batch_for (sb_key (w_body w)) i (br_feed response) []) (db_now (other d))) bs) (bars (other d))
    \<and> sd_data_points stored = length (br_bars response) \<and> sd_served_range stored = Some (br_served response) \<and> tr = Delivered"
proof -
  let ?r = "fetch_request_of (w_body w) start_at"
  let ?f = "br_feed response"
  let ?k = "sb_key (w_body w)"
  have source: "rq_source ?r = k_source ?k" by (simp add: fetch_request_of_def Let_def)
  obtain evs raised where h: "handler_fetch (se_readers s) (se_detail_of s) ?r (call_deadline s) = (evs, raised)" by fastforce
  have reader: "fst (get_bars a b (query_of ?r (call_deadline s))) = Some (BarsResponse response)" using assms(4) by simp
  have "typed_ok raised"
    by (rule handler_typed [OF h]) (use source assms(3) reader in \<open>auto simp: alpaca_answers alpaca_fails typed_ok_def\<close>)
  from hop_transparent [OF assms(1,2) h this] obtain err where
    cf: "client_fetch s Delivered ?r = Some (evs, err)" and err: "raised \<noteq> None \<longrightarrow> err \<noteq> None"
    using source assms(3,5) reader by (fastforce simp: alpaca_answers split: option.splits)
  from assms(6,7) obtain f pages fin i d2 where g: "channel_over s tr ?r = accepted_stream f pages fin" "on_feed f pages"
    and up: "upsert_entry_in_transaction (w_new_id w) (acknowledged_entry w f) (w_preserve w)
       (if w_preserve w then None else sb_collect (w_body w)) (other d) = Returns i d2" "entries d' = entries d2"
    and bars: "bars d' = bar_table.upserts (concat (map (page_rows ?k i f (db_now (other d))) pages)) (bars (other d))"
    and stored: "sd_data_points stored = length (concat pages)" "sd_served_range stored = Some (fd_served fin)"
    by (rule worker_done) auto
  have fetched: "fetch reader_init (channel_over s tr ?r) = (FetchAccepted f # map BarPage pages @ [FetchDone fin], None)"
    using g fetch_grammar by blast
  have tr: "tr = Delivered"
  proof (cases tr)
    case (Broken n failure)
    then show ?thesis using client_broken [OF cf, of n failure] fetched unfolding channel_fetch by auto
  qed
  have c: "fetch reader_init (channel_over s tr ?r) = (evs, err)" using cf unfolding channel_fetch tr by simp
  then have "raised = None" using fetched err by auto
  from handler_pages [OF h [unfolded this]] obtain reader response' pages' where
    p: "se_readers s (rq_source ?r) = Some reader" "reader (query_of ?r (call_deadline s)) = Answers response' None"
    "evs = FetchAccepted (br_feed response') # map BarPage pages' @
        [FetchDone \<lparr>fd_bar_count = length (br_bars response'), fd_served = br_served response', fd_as_of = br_as_of response'\<rparr>]"
    "concat pages' = map (fetched_of (br_feed response')) (br_bars response')" by blast
  have "reader = alpaca_reader a b" using p(1) source assms(3) by simp
  then have "response' = response" using p(2) reader by (simp add: alpaca_answers)
  with p(3) fetched c have same: "f = ?f" "map BarPage pages = map BarPage pages'" "fd_served fin = br_served response" by auto
  have "inj BarPage" by (rule injI) simp
  then have pages: "concat pages = map (fetched_of ?f) (br_bars response)"
    using same(2) p(4) \<open>response' = response\<close> by simp
  from page_rows_concat [OF completed_pages_validate [OF assms(7) fetched], of ?k i ?f "db_now (other d)"] pages
  obtain bs where bs: "all_some (map (bar_of_fetched \<circ> fetched_of ?f) (br_bars response)) = Some bs"
    "concat (map (page_rows ?k i ?f (db_now (other d))) pages) = map (row_of_bar (batch_for ?k i ?f []) (db_now (other d))) bs"
    by (auto simp: page_rows_eq)
  have "\<exists>e\<in>set (entries d'). e_id e = i \<and> names_row (entry_on_ack ?k (sb_expiry (w_body w)) ?f) e"
    using upserted_names [OF up(1)] unfolding up(2) acknowledged_entry_def same(1) .
  then show ?thesis
    using bars bs stored pages same tr by (intro exI [of _ i] exI [of _ bs] conjI) simp_all
qed

text \<open>A row against the bar of the vendor that it stores.\<close>

lemma stored_rows:
  assumes "all_some (map (\<lambda>v. bar_of_fetched (fetched_of f v)) vs) = Some bs"
  shows "list_all2 (\<lambda>v row. b_dataset row = i \<and> b_symbol row = k_symbol k \<and> b_source row = k_source k \<and> b_feed row = f
      \<and> b_granularity row = k_granularity k \<and> b_timestamp row = bb_timestamp v
      \<and> o_open (b_data row) = bb_open v \<and> o_high (b_data row) = bb_high v \<and> o_low (b_data row) = bb_low v \<and> o_close (b_data row) = bb_close v
      \<and> of_int (o_volume (b_data row)) = bb_volume v \<and> Some (o_trade_count (b_data row)) = bb_trade_count v
      \<and> b_created_at row = now \<and> b_updated_at row = now) vs (map (row_of_bar (batch_for k i f []) now) bs)"
  using assms
proof (induction vs arbitrary: bs)
  case (Cons v vs)
  from Cons.prems obtain b bs' where b: "bar_of_fetched (fetched_of f v) = Some b" "bs = b # bs'"
    and rest: "all_some (map (\<lambda>v. bar_of_fetched (fetched_of f v)) vs) = Some bs'"
    by (auto split: option.splits)
  show ?case using Cons.IH [OF rest] b
    by (auto simp: row_of_bar_def batch_for_def bar_of_fetched_def fetched_of_def split: option.splits if_splits)
qed simp

text \<open>C2. From the vendor to the table. When the store's fetch worker, on a channel to the ingest service, completes a fetch
  that the Alpaca reader answered, the transport held, the database holds the entry of the request on the feed the reader
  resolved, and its bars are those there were before with one row for each of the reader's bars written over them, in their
  order: a row has the key of the request and the reader's feed, the time of its bar, and the open, high, low, close, volume and
  number of trades of its bar, each under its own name. The number and the window the store reports are those of the answer.\<close>

theorem vendor_bars_reach_the_table:
  assumes "hop_laws s" and "request_fits (fetch_request_of (w_body w) start_at)"
    and "se_readers s (k_source (sb_key (w_body w))) = Some (alpaca_reader a b)"
    and "get_bars a b (query_of (fetch_request_of (w_body w) start_at) (call_deadline s)) = (Some (BarsResponse response), b')"
    and "answer_fits response" and "reports_only (w_on_ack w)"
    and "store_market_activity_worker w (channel_over s tr) start_at other fault d = (Inr stored, d')"
    and "k = sb_key (w_body w)"
  shows "\<exists>i rows. (\<exists>e\<in>set (entries d'). e_id e = i \<and> names_row (entry_on_ack k (sb_expiry (w_body w)) (br_feed response)) e)
    \<and> list_all2 (\<lambda>v row. b_dataset row = i \<and> b_symbol row = k_symbol k \<and> b_source row = k_source k \<and> b_feed row = br_feed response
      \<and> b_granularity row = k_granularity k \<and> b_timestamp row = bb_timestamp v
      \<and> o_open (b_data row) = bb_open v \<and> o_high (b_data row) = bb_high v \<and> o_low (b_data row) = bb_low v \<and> o_close (b_data row) = bb_close v
      \<and> of_int (o_volume (b_data row)) = bb_volume v \<and> Some (o_trade_count (b_data row)) = bb_trade_count v
      \<and> b_created_at row = db_now (other d) \<and> b_updated_at row = db_now (other d)) (br_bars response) rows
    \<and> bars d' = fold (\<lambda>row. upsert_row bar_key (bar_update row) row) rows (bars (other d))
    \<and> sd_data_points stored = length (br_bars response) \<and> sd_served_range stored = Some (br_served response) \<and> tr = Delivered"
proof -
  from vendor_bars_stored [OF assms(1-7)] obtain i bs where
    e: "\<exists>e\<in>set (entries d'). e_id e = i \<and> names_row (entry_on_ack k (sb_expiry (w_body w)) (br_feed response)) e"
    and bs: "all_some (map (bar_of_fetched \<circ> fetched_of (br_feed response)) (br_bars response)) = Some bs"
    and rest: "bars d' = fold (\<lambda>row. upsert_row bar_key (bar_update row) row)
         (map (row_of_bar (batch_for k i (br_feed response) []) (db_now (other d))) bs) (bars (other d))"
      "sd_data_points stored = length (br_bars response)" "sd_served_range stored = Some (br_served response)" "tr = Delivered"
    unfolding assms(8) by blast
  show ?thesis by (intro exI [of _ i] exI conjI) (rule e stored_rows [OF bs [unfolded comp_def]] rest)+
qed

lemma expected_renders:
  "expected_failure e \<Longrightarrow> te_reason e = FEED_NOT_AVAILABLE \<or> sp_grpc (row_of (te_reason e)) \<noteq> None"
  by (auto simp: expected_failure_def expected_reasons_def row_of_def REASONS_def)

lemma vendor_failure_through:
  assumes "hop_laws s" and "request_fits (fetch_request_of (w_body w) start_at)"
    and "se_readers s (k_source (sb_key (w_body w))) = Some (alpaca_reader a b)"
    and "budget_ok b" and "fair_passes (rb_rate b) (rw_passes a)"
    and "get_bars a b (query_of (fetch_request_of (w_body w) start_at) (call_deadline s)) = (Some (BarsFailure e), b')"
    and "k_asset_type (sb_key (w_body w)) = STOCK" and "k_data_type (sb_key (w_body w)) = MARKET_ACTIVITY"
    and "find_own_overlap d (sb_key (w_body w)) = []"
  shows "expected_failure e \<and> (\<exists>e'. carried_over (se_minted s) e e'
    \<and> store_market_activity_worker w (channel_to s) start_at other fault d = (Inl (FetchFailed e'), d))"
proof -
  let ?r = "fetch_request_of (w_body w) start_at"
  have r: "rq_source ?r = k_source (sb_key (w_body w))" "rq_asset_type ?r = STOCK" "rq_data_types ?r = [MARKET_ACTIVITY]"
    using assms(7,8) by (simp_all add: fetch_request_of_def Let_def)
  have e: "expected_failure e" using expected_failures [OF assms(4-6)] by blast
  have "alpaca_reader a b (query_of ?r (call_deadline s)) = Refuses e" using assms(6) by (simp add: alpaca_fails)
  then have h: "handler_fetch (se_readers s) (se_detail_of s) ?r (call_deadline s) = ([], Some (RaisedTyped e (se_detail_of s e)))"
    using r assms(3) by (simp add: handler_fetch_def)
  have typed: "typed_ok (Some (RaisedTyped e (se_detail_of s e)))" using e by (simp add: typed_ok_def expected_failure_def)
  have fits: "answer_fits response" if "se_readers s (rq_source ?r) = Some reader"
    "reader (query_of ?r (call_deadline s)) = Answers response x" for reader response x
  proof -
    have "reader = alpaca_reader a b" using that(1) r(1) assms(3) by simp
    then show ?thesis using that(2) assms(6) by (simp add: alpaca_answers)
  qed
  have "\<exists>err. client_fetch s Delivered ?r = Some ([], err) \<and> (case Some (RaisedTyped e (se_detail_of s e)) of None \<Rightarrow> err = None
      | Some exc \<Rightarrow> \<exists>e'. err = Some e' \<and> client_sees (se_minted s) [] exc e')"
    by (rule hop_transparent [OF assms(1,2) h typed]) (rule fits)
  then obtain e' where
    c: "fetch reader_init (channel_to s ?r) = ([], Some e')" "client_sees (se_minted s) [] (RaisedTyped e (se_detail_of s e)) e'"
    unfolding channel_fetch by auto
  have "carried_over (se_minted s) e e'"
    using c(2) expected_renders [OF e] by (auto simp: client_sees_def seen_as_def split: if_splits)
  moreover have "check_own_overlap (sb_key (w_body w)) d = Returns () d" using assms(9) by (simp add: check_own_overlap_def)
  then have "store_market_activity_worker w (channel_to s) start_at other fault d = (Inl (FetchFailed e'), d)"
    using c(1) by (simp add: store_market_activity_worker_def write_transaction_def)
  ultimately show ?thesis using e by blast
qed

text \<open>A failure of the vendor reaches whoever asked the store under its own name. When the Alpaca reader returns a failure,
  the fetch of the store, on a channel to the ingest service, fails with that error: the reason, branch, time of reset and
  metadata the reader gave it, and an error id; and the database is as it was.\<close>

theorem vendor_failure_reaches_the_caller:
  assumes "hop_laws s" and "request_fits (fetch_request_of (w_body w) start_at)"
    and "se_readers s (k_source (sb_key (w_body w))) = Some (alpaca_reader a b)"
    and "budget_ok b" and "fair_passes (rb_rate b) (rw_passes a)"
    and "get_bars a b (query_of (fetch_request_of (w_body w) start_at) (call_deadline s)) = (Some (BarsFailure e), b')"
    and "k_asset_type (sb_key (w_body w)) = STOCK" and "k_data_type (sb_key (w_body w)) = MARKET_ACTIVITY"
    and "find_own_overlap d (sb_key (w_body w)) = []"
  shows "expected_failure e \<and> (\<exists>e'. carried_over (se_minted s) e e'
    \<and> store_market_activity_worker w (channel_to s) start_at other fault d = (Inl (FetchFailed e'), d))"
  using assms by (rule vendor_failure_through)

definition vendor_world :: "vendor_answer \<Rightarrow> reader_world" where
  "vendor_world answer = (sample_reader answer)\<lparr>rw_now := 1000, rw_later := 1001\<rparr>"

definition vendor_service :: "vendor_answer \<Rightarrow> ingest_service" where
  "vendor_service answer =
     (sample_service Breaks)\<lparr>se_readers := [ALPACA_API \<mapsto> alpaca_reader (vendor_world answer) sample_budget]\<rparr>"

lemma vendor_service_laws: "hop_laws (vendor_service answer)"
  using sample_hop [of Breaks] by (simp add: hop_laws_def vendor_service_def)

lemma vendor_request_fits: "request_fits (fetch_request_of (w_body (sample_worker False)) None)"
  by (simp add: request_fits_def fetch_request_of_def sample_worker_def sample_key_def Let_def dated_def EARLIEST_def LATEST_def)

definition vendor_served :: bars_response where
  "vendor_served = sample_served\<lparr>br_bars := map (\<lambda>b. b\<lparr>bb_timestamp := bb_timestamp b + 100\<rparr>) (br_bars sample_served),
     br_served := (100, 200), br_as_of := 1001\<rparr>"

lemma vendor_get_bars:
  "fst (get_bars (vendor_world (BarSet [''AAPL'' \<mapsto> map sample_vendor_bar [110, 120, 200]])) sample_budget
     (query_of (fetch_request_of (w_body (sample_worker False)) None) (call_deadline (vendor_service answer)))) = Some (BarsResponse vendor_served)"
  by code_simp

lemma vendor_fails:
  "case fst (get_bars (vendor_world (VendorRaises TransportFailure)) sample_budget
     (query_of (fetch_request_of (w_body (sample_worker False)) None) (call_deadline (vendor_service answer)))) of
     Some (BarsFailure e) \<Rightarrow> te_reason e = VENDOR_UNAVAILABLE | _ \<Rightarrow> False"
  by code_simp

abbreviation sample_vendor :: vendor_answer where
  "sample_vendor \<equiv> BarSet [''AAPL'' \<mapsto> map sample_vendor_bar [110, 120, 200]]"

lemma vendor_channel:
  "fetch reader_init (channel_to (vendor_service sample_vendor) (fetch_request_of (w_body (sample_worker False)) None)) =
     ([FetchAccepted IEX, BarPage (map (fetched_of IEX) (br_bars vendor_served)),
       FetchDone \<lparr>fd_bar_count = 2, fd_served = (100, 200), fd_as_of = 1001\<rparr>], None)"
proof -
  let ?s = "vendor_service sample_vendor"
  let ?r = "fetch_request_of (w_body (sample_worker False)) None"
  have r: "rq_source ?r = ALPACA_API" "rq_asset_type ?r = STOCK" "rq_data_types ?r = [MARKET_ACTIVITY]"
    by (simp_all add: fetch_request_of_def sample_worker_def sample_key_def Let_def)
  have reader: "se_readers ?s ALPACA_API = Some (alpaca_reader (vendor_world sample_vendor) sample_budget)"
    by (simp add: vendor_service_def)
  have answer: "alpaca_reader (vendor_world sample_vendor) sample_budget (query_of ?r (call_deadline ?s)) = Answers vendor_served None"
    using vendor_get_bars [of sample_vendor] by (simp add: alpaca_answers)
  have h: "handler_fetch (se_readers ?s) (se_detail_of ?s) ?r (call_deadline ?s) =
      ([FetchAccepted IEX, BarPage (map (fetched_of IEX) (br_bars vendor_served)),
       FetchDone \<lparr>fd_bar_count = 2, fd_served = (100, 200), fd_as_of = 1001\<rparr>], None)"
    unfolding handler_fetch_def r using reader answer
    by (simp add: served_events_def vendor_served_def sample_served_def MAX_PAGE_BARS_def)
  have "answer_fits vendor_served"
    by (simp add: answer_fits_def vendor_served_def sample_served_def bar_fits_def dated_def EARLIEST_def LATEST_def int64_def)
  then have "answer_fits response" if "se_readers ?s (rq_source ?r) = Some reader"
    "reader (query_of ?r (call_deadline ?s)) = Answers response x" for reader response x
    using that r(1) reader answer by simp
  from hop_transparent [OF vendor_service_laws vendor_request_fits h _ this] show ?thesis
    unfolding channel_fetch by (simp add: typed_ok_def)
qed

lemma vendor_rows:
  "all_some (map (bar_of_fetched \<circ> fetched_of IEX) (br_bars vendor_served)) =
     Some (map (\<lambda>t. \<lparr>bc_timestamp = Aware t, bc_data = \<lparr>o_open = 1, o_high = 2, o_low = 1, o_close = 2, o_volume = 7, o_trade_count = 3\<rparr>\<rparr>) [110, 120])"
  by (simp add: vendor_served_def sample_served_def bar_of_fetched_def fetched_of_def)

lemma vendor_worker:
  "\<exists>stored. fst (store_market_activity_worker (sample_worker False) (channel_to (vendor_service sample_vendor)) None id None sample_db) = Inr stored"
proof -
  obtain i d2 where "upsert_entry_in_transaction 5 (entry_on_ack sample_key (Some 900) IEX) False None sample_db = Returns i d2"
    using upsert_returns by blast
  moreover have "check_own_overlap sample_key sample_db = Returns () sample_db" by code_simp
  ultimately show ?thesis
    using upserted_id [of 5 _ False None sample_db i d2] on_page_ok [OF _ _ _ vendor_rows [folded map_map]] vendor_channel
    by (simp add: store_market_activity_worker_def sample_worker_def on_accepted_def handle_acknowledge_def record_write_def
        write_transaction_def row_fits_def int4_def)
qed

theorem vendor_bars_reach_the_table_witness:
  "\<exists>stored. fst (store_market_activity_worker (sample_worker False) (channel_to (vendor_service sample_vendor)) None id None sample_db) = Inr stored
     \<and> sd_data_points stored = 2 \<and> sd_served_range stored = Some (100, 200)"
proof -
  let ?call = "store_market_activity_worker (sample_worker False) (channel_to (vendor_service sample_vendor)) None id None sample_db"
  obtain stored where "fst ?call = Inr stored" using vendor_worker by blast
  then have stored: "?call = (Inr stored, snd ?call)" by (metis prod.collapse)
  obtain b' where g: "get_bars (vendor_world sample_vendor) sample_budget
      (query_of (fetch_request_of (w_body (sample_worker False)) None) (call_deadline (vendor_service sample_vendor))) =
      (Some (BarsResponse vendor_served), b')"
    using vendor_get_bars [of sample_vendor] by (metis prod.collapse)
  have "answer_fits vendor_served"
    by (simp add: answer_fits_def vendor_served_def sample_served_def bar_fits_def dated_def EARLIEST_def LATEST_def int64_def)
  moreover have "se_readers (vendor_service sample_vendor) (k_source (sb_key (w_body (sample_worker False)))) =
      Some (alpaca_reader (vendor_world sample_vendor) sample_budget)"
    by (simp add: vendor_service_def sample_worker_def sample_key_def)
  moreover have "length (br_bars vendor_served) = 2" "br_served vendor_served = (100, 200)"
    by (simp_all add: vendor_served_def sample_served_def)
  ultimately show ?thesis
    using vendor_bars_reach_the_table [OF vendor_service_laws vendor_request_fits _ g _ sample_hook stored refl] \<open>fst ?call = Inr stored\<close>
    by auto
qed

theorem vendor_failure_reaches_the_caller_witness:
  "\<exists>e'. te_reason e' = VENDOR_UNAVAILABLE
     \<and> store_market_activity_worker (sample_worker False) (channel_to (vendor_service (VendorRaises TransportFailure))) None id None sample_db
       = (Inl (FetchFailed e'), sample_db)"
proof -
  let ?v = "VendorRaises TransportFailure"
  let ?q = "query_of (fetch_request_of (w_body (sample_worker False)) None) (call_deadline (vendor_service ?v))"
  obtain e where e: "fst (get_bars (vendor_world ?v) sample_budget ?q) = Some (BarsFailure e)" "te_reason e = VENDOR_UNAVAILABLE"
    using vendor_fails [of ?v] by (auto split: option.splits get_bars_result.splits)
  then have g: "get_bars (vendor_world ?v) sample_budget ?q = (Some (BarsFailure e), snd (get_bars (vendor_world ?v) sample_budget ?q))"
    by (metis prod.collapse)
  have ok: "budget_ok sample_budget" unfolding sample_budget_def by (rule mk_budget_ok) simp
  have fair: "fair_passes (rb_rate sample_budget) (rw_passes (vendor_world ?v))"
    by (simp add: fair_passes_def sample_reader_def vendor_world_def)
  have reader: "se_readers (vendor_service ?v) (k_source (sb_key (w_body (sample_worker False)))) =
      Some (alpaca_reader (vendor_world ?v) sample_budget)"
    and key: "k_asset_type (sb_key (w_body (sample_worker False))) = STOCK" "k_data_type (sb_key (w_body (sample_worker False))) = MARKET_ACTIVITY"
    by (simp_all add: vendor_service_def sample_worker_def sample_key_def)
  have free: "find_own_overlap sample_db (sb_key (w_body (sample_worker False))) = []" by code_simp
  from vendor_failure_reaches_the_caller [OF vendor_service_laws vendor_request_fits reader ok fair g key free, of id None]
  show ?thesis using e(2) by (auto simp: carried_over_def)
qed

end
