(* ===== verification/Http_Errors.thy ===== *)
theory Http_Errors
  imports Rpc_Errors
begin

text \<open>
  The vocabulary at the HTTP edge: \<open>server/routers/common/errors.py\<close>. \<open>phrase\<close> is \<open>http.HTTPStatus(n).phrase\<close>, \<open>None\<close> where
  the standard library does not know the status; \<open>now\<close> is the one reading of the error's clock, \<open>minted\<close> what
  \<open>new_error_id()\<close> answers, \<open>chained\<close> what \<open>has_cause_chain\<close> says of the exception. An error's \<open>detail\<close> travels beside
  the \<open>tj_error\<close>. The members of a body are those that are present: an absent one is left out, never null.
\<close>

section \<open>The body\<close>

record validation_issue =
  vi_loc :: "string list"
  vi_msg :: string
  vi_type :: string

record problem =
  pr_title :: string
  pr_status :: int
  pr_detail :: "string option"
  pr_reason :: "string option"
  pr_domain :: "string option"
  pr_retry_after :: "int option"
  pr_reset_at :: "instant option"
  pr_metadata :: metadata
  pr_errors :: "validation_issue list option"

record http_response =
  hr_status :: int
  hr_headers :: "(string \<times> string) list"
  hr_body :: "problem option"

datatype log_level = LogError | LogWarning | LogInfo

record log_line =
  ll_level :: log_level
  ll_error_id :: string
  ll_chain :: bool

fun LOG_LEVELS :: "disposition \<Rightarrow> log_level" where
  "LOG_LEVELS PAGE = LogError"
| "LOG_LEVELS RECORD = LogWarning"
| "LOG_LEVELS CLIENT_FIX = LogInfo"

definition INTERNAL_SERVER_ERROR :: int where
  "INTERNAL_SERVER_ERROR = 500"

text \<open>\<open>str(n)\<close> of a number of seconds, which is not negative\<close>

fun digits :: "nat \<Rightarrow> string" where
  "digits n = (if n < 10 then [char_of (48 + n)] else digits (n div 10) @ [char_of (48 + n mod 10)])"

declare digits.simps [simp del]

definition seconds_text :: "int \<Rightarrow> string" where
  "seconds_text n = digits (nat n)"

definition status_phrase :: "(int \<Rightarrow> string option) \<Rightarrow> int \<Rightarrow> string" where
  "status_phrase phrase status = (case phrase status of None \<Rightarrow> ''HTTP '' @ seconds_text status | Some p \<Rightarrow> p)"

definition respond :: "problem \<Rightarrow> (string \<times> string) list \<Rightarrow> http_response" where
  "respond p headers = \<lparr>hr_status = pr_status p, hr_headers = headers, hr_body = Some p\<rparr>"

definition RETRY_AFTER :: string where
  "RETRY_AFTER = ''Retry-After''"

definition describe ::
  "(int \<Rightarrow> string option) \<Rightarrow> instant \<Rightarrow> string \<Rightarrow> tj_error \<Rightarrow> string \<Rightarrow> string option \<Rightarrow> validation_issue list option \<Rightarrow>
   problem \<times> (string \<times> string) list" where
  "describe phrase now minted e detail error_id issues =
     (let status = sp_http (row_of (te_reason e));
          wait = retry_after e now;
          headers = (case wait of None \<Rightarrow> [] | Some n \<Rightarrow> [(RETRY_AFTER, seconds_text n)]);
          m = (if own_error_id e = None
               then dict_set ERROR_ID_KEY (Text (case error_id of None \<Rightarrow> minted | Some i \<Rightarrow> if i = [] then minted else i)) (te_metadata e)
               else te_metadata e)
      in (\<lparr>pr_title = status_phrase phrase status, pr_status = status, pr_detail = Some detail,
           pr_reason = Some (reason_name (te_reason e)), pr_domain = Some ERROR_DOMAIN, pr_retry_after = wait,
           pr_reset_at = te_reset_at e, pr_metadata = m, pr_errors = issues\<rparr>, headers))"

text \<open>\<open>render\<close>\<close>

definition render_problem ::
  "(int \<Rightarrow> string option) \<Rightarrow> instant \<Rightarrow> string \<Rightarrow> tj_error \<Rightarrow> string \<Rightarrow> string option \<Rightarrow> http_response" where
  "render_problem phrase now minted e detail error_id =
     (let (p, headers) = describe phrase now minted e detail error_id None in respond p headers)"

definition answer_error ::
  "(int \<Rightarrow> string option) \<Rightarrow> instant \<Rightarrow> string \<Rightarrow> bool \<Rightarrow> tj_error \<Rightarrow> string \<Rightarrow> validation_issue list option \<Rightarrow> http_response \<times> log_line" where
  "answer_error phrase now minted chained e detail issues =
     (let own = own_error_id e;
          error_id = (case own of None \<Rightarrow> minted | Some i \<Rightarrow> i);
          (p, headers) = describe phrase now minted e detail (Some error_id) issues
      in (respond p headers,
          \<lparr>ll_level = LOG_LEVELS (sp_disposition (row_of (te_reason e))), ll_error_id = error_id, ll_chain = own = None \<and> chained\<rparr>))"

section \<open>The handlers\<close>

text \<open>A problem as the validator reports it, with the input and the context that are never sent.\<close>

record validation_error =
  ve_loc :: "string list"
  ve_msg :: string
  ve_type :: string
  ve_input :: string
  ve_ctx :: "(string \<times> string) list"

definition VALIDATION_DETAIL :: string where
  "VALIDATION_DETAIL = ''The request does not match its declared schema; each entry in errors names one problem.''"

datatype raised_http =
  RaisedError tj_error string bool
| RaisedValidation "validation_error list"
| RaisedHttp int "string option" "(string \<times> string) list"
| RaisedBug

definition on_request_validation_error ::
  "(int \<Rightarrow> string option) \<Rightarrow> instant \<Rightarrow> string \<Rightarrow> validation_error list \<Rightarrow> build_error + http_response \<times> log_line option" where
  "on_request_validation_error phrase now minted problems =
     bind_r (build_tj_error InvalidRequestError INVALID_REQUEST [] None) (\<lambda>e.
       let issues = map (\<lambda>v. \<lparr>vi_loc = ve_loc v, vi_msg = ve_msg v, vi_type = ve_type v\<rparr>) problems;
           (response, line) = answer_error phrase now minted False e VALIDATION_DETAIL (Some issues)
       in Inr (response, Some line))"

definition on_http_exception ::
  "(int \<Rightarrow> string option) \<Rightarrow> int \<Rightarrow> string option \<Rightarrow> (string \<times> string) list \<Rightarrow> http_response" where
  "on_http_exception phrase status detail headers =
     (if status < 200 \<or> status \<in> {204, 205, 304} then \<lparr>hr_status = status, hr_headers = headers, hr_body = None\<rparr>
      else respond \<lparr>pr_title = status_phrase phrase status, pr_status = status, pr_detail = detail, pr_reason = None,
             pr_domain = None, pr_retry_after = None, pr_reset_at = None, pr_metadata = [], pr_errors = None\<rparr> headers)"

definition on_unhandled_exception :: "(int \<Rightarrow> string option) \<Rightarrow> string \<Rightarrow> http_response \<times> log_line" where
  "on_unhandled_exception phrase minted =
     (respond \<lparr>pr_title = status_phrase phrase INTERNAL_SERVER_ERROR, pr_status = INTERNAL_SERVER_ERROR, pr_detail = None,
        pr_reason = None, pr_domain = None, pr_retry_after = None, pr_reset_at = None,
        pr_metadata = [(ERROR_ID_KEY, Text minted)], pr_errors = None\<rparr> [],
      \<lparr>ll_level = LogError, ll_error_id = minted, ll_chain = True\<rparr>)"

text \<open>\<open>install_error_handlers\<close>: which handler answers what. \<open>None\<close> is a handler that itself fails.\<close>

definition handle_http ::
  "(int \<Rightarrow> string option) \<Rightarrow> instant \<Rightarrow> string \<Rightarrow> raised_http \<Rightarrow> (http_response \<times> log_line option) option" where
  "handle_http phrase now minted exc =
     (case exc of
        RaisedError e detail chained \<Rightarrow>
          (let (response, line) = answer_error phrase now minted chained e detail None in Some (response, Some line))
      | RaisedValidation problems \<Rightarrow>
          (case on_request_validation_error phrase now minted problems of Inl _ \<Rightarrow> None | Inr answer \<Rightarrow> Some answer)
      | RaisedHttp status detail headers \<Rightarrow> Some (on_http_exception phrase status detail headers, None)
      | RaisedBug \<Rightarrow> (let (response, line) = on_unhandled_exception phrase minted in Some (response, Some line)))"

text \<open>\<open>PROBLEM_RESPONSES\<close>: the statuses the document declares.\<close>

definition declared_statuses :: "int list" where
  "declared_statuses = remdups (sort (map (\<lambda>r. sp_http (row_of r)) Reason @ [INTERNAL_SERVER_ERROR]))"

section \<open>What an answer says\<close>

definition member :: "string \<Rightarrow> problem \<Rightarrow> meta_value option" where
  "member k p = map_of (pr_metadata p) k"

lemma describe_fields:
  assumes "describe phrase now minted e detail error_id issues = (p, headers)"
  shows "pr_status p = sp_http (row_of (te_reason e))" "pr_reason p = Some (reason_name (te_reason e))"
    "pr_domain p = Some ERROR_DOMAIN" "pr_detail p = Some detail" "pr_errors p = issues"
    "pr_reset_at p = te_reset_at e" "pr_retry_after p = retry_after e now"
    "headers = (case retry_after e now of None \<Rightarrow> [] | Some n \<Rightarrow> [(RETRY_AFTER, seconds_text n)])"
    "k \<noteq> ERROR_ID_KEY \<Longrightarrow> member k p = map_of (te_metadata e) k"
    "member ERROR_ID_KEY p = (if own_error_id e = None
       then Some (Text (case error_id of None \<Rightarrow> minted | Some i \<Rightarrow> if i = [] then minted else i))
       else map_of (te_metadata e) ERROR_ID_KEY)"
  using assms by (auto simp: describe_def Let_def member_def map_of_dict_set)

text \<open>The id a body's member stands for: what an operator looks up.\<close>

definition body_error_id :: "problem \<Rightarrow> string option" where
  "body_error_id p = map_option wire_value (member ERROR_ID_KEY p)"

lemma answered_id:
  assumes "minted \<noteq> []" and "answer_error phrase now minted chained e detail issues = (response, line)"
  shows "\<exists>p. hr_body response = Some p \<and> hr_status response = pr_status p
    \<and> (describe phrase now minted e detail (Some (ll_error_id line)) issues = (p, hr_headers response))
    \<and> body_error_id p = Some (ll_error_id line)
    \<and> ll_error_id line = (case own_error_id e of None \<Rightarrow> minted | Some i \<Rightarrow> i)
    \<and> ll_level line = LOG_LEVELS (sp_disposition (row_of (te_reason e))) \<and> (ll_chain line \<longleftrightarrow> own_error_id e = None \<and> chained)"
proof -
  let ?id = "case own_error_id e of None \<Rightarrow> minted | Some i \<Rightarrow> i"
  obtain p headers where d: "describe phrase now minted e detail (Some ?id) issues = (p, headers)" by fastforce
  have l: "response = respond p headers" "ll_error_id line = ?id" "ll_chain line \<longleftrightarrow> own_error_id e = None \<and> chained"
    "ll_level line = LOG_LEVELS (sp_disposition (row_of (te_reason e)))"
    using assms(2) d by (auto simp: answer_error_def Let_def split: prod.splits)
  have "body_error_id p = Some ?id"
    using describe_fields(10) [OF d] own_error_id_wire [of e] assms(1)
    by (auto simp: body_error_id_def split: option.splits)
  then show ?thesis using l d by (simp add: respond_def)
qed

lemma refusal_statuses: "refused r \<Longrightarrow> 400 \<le> sp_http (row_of r) \<and> sp_http (row_of r) < 500"
  by (cases r) (auto simp: refused_def row_of_def REASONS_def)

lemma status_declared: "sp_http (row_of r) \<in> set declared_statuses"
  using Reason_complete [of r] by (auto simp: declared_statuses_def)

text \<open>A typed error is always answered, with what follows.\<close>

lemma typed_is_answered: "\<exists>response line. handle_http phrase now minted (RaisedError e detail chained) = Some (response, Some line)"
  by (simp add: handle_http_def case_prod_beta)

lemma typed_answer:
  assumes "minted \<noteq> []" and "handle_http phrase now minted (RaisedError e detail chained) = Some (response, Some line)"
  shows "\<exists>p. hr_body response = Some p \<and> hr_status response = sp_http (row_of (te_reason e))
    \<and> pr_status p = hr_status response \<and> pr_reason p = Some (reason_name (te_reason e)) \<and> pr_domain p = Some ERROR_DOMAIN
    \<and> pr_detail p = Some detail \<and> pr_reset_at p = te_reset_at e
    \<and> (\<forall>k. k \<noteq> ''error_id'' \<longrightarrow> member k p = map_of (te_metadata e) k)
    \<and> hr_headers response = (case pr_retry_after p of None \<Rightarrow> [] | Some n \<Rightarrow> [(''Retry-After'', seconds_text n)])
    \<and> (pr_retry_after p \<noteq> None \<longleftrightarrow> te_reset_at e \<noteq> None)
    \<and> body_error_id p = Some (ll_error_id line) \<and> ll_error_id line = (case own_error_id e of None \<Rightarrow> minted | Some i \<Rightarrow> i)
    \<and> ll_level line = LOG_LEVELS (sp_disposition (row_of (te_reason e))) \<and> (ll_chain line \<longrightarrow> own_error_id e = None)"
proof -
  have "answer_error phrase now minted chained e detail None = (response, line)"
    using assms(2) by (auto simp: handle_http_def split: prod.splits)
  from answered_id [OF assms(1) this] obtain p where p: "hr_body response = Some p" "hr_status response = pr_status p"
    "describe phrase now minted e detail (Some (ll_error_id line)) None = (p, hr_headers response)"
    "body_error_id p = Some (ll_error_id line)" "ll_error_id line = (case own_error_id e of None \<Rightarrow> minted | Some i \<Rightarrow> i)"
    "ll_level line = LOG_LEVELS (sp_disposition (row_of (te_reason e)))" "ll_chain line \<longleftrightarrow> own_error_id e = None \<and> chained" by blast
  note d = describe_fields [OF p(3)]
  have "retry_after e now \<noteq> None \<longleftrightarrow> te_reset_at e \<noteq> None" by (simp add: retry_after_def Let_def split: option.split)
  then show ?thesis
    using p d(1-8) d(9) by (intro exI [of _ p]) (auto simp: ERROR_ID_KEY_def RETRY_AFTER_def)
qed

section \<open>Properties\<close>

text \<open>C36. A typed error is answered as itself. Whoever gets the response reads its reason, its detail and every metadata
  value it carried, under the status its reason's row names, one the document declares; a header and a member give one
  number of seconds, the same, exactly when the error knows when it clears, so never on a refusal, which is a 4xx; and the
  body holds the very id of the one log line, at the level of the reason's disposition, with the cause chain only when that
  id was made here.\<close>

theorem typed_errors_are_answered_as_themselves:
  assumes "tj_error_ok e" and "minted \<noteq> []"
    and "handle_http phrase now minted (RaisedError e detail chained) = Some (response, Some line)"
  shows "\<exists>p. hr_body response = Some p \<and> hr_status response = sp_http (row_of (te_reason e))
    \<and> hr_status response \<in> set declared_statuses
    \<and> pr_status p = hr_status response \<and> pr_reason p = Some (reason_name (te_reason e)) \<and> pr_domain p = Some ERROR_DOMAIN
    \<and> pr_detail p = Some detail \<and> pr_reset_at p = te_reset_at e
    \<and> (\<forall>k. k \<noteq> ''error_id'' \<longrightarrow> member k p = map_of (te_metadata e) k)
    \<and> hr_headers response = (case pr_retry_after p of None \<Rightarrow> [] | Some n \<Rightarrow> [(''Retry-After'', seconds_text n)])
    \<and> (pr_retry_after p \<noteq> None \<longleftrightarrow> te_reset_at e \<noteq> None)
    \<and> (refused (te_reason e) \<longrightarrow> 400 \<le> hr_status response \<and> hr_status response < 500 \<and> hr_headers response = [])
    \<and> body_error_id p = Some (ll_error_id line)
    \<and> ll_level line = LOG_LEVELS (sp_disposition (row_of (te_reason e)))
    \<and> (ll_chain line \<longrightarrow> own_error_id e = None \<and> ll_error_id line = minted)"
proof -
  have "te_reset_at e = None" if "refused (te_reason e)" using assms(1) that by (simp add: tj_error_ok_def)
  then show ?thesis
    using typed_answer [OF assms(2,3)] refusal_statuses [of "te_reason e"] status_declared [of "te_reason e"]
    by (elim exE) (rule exI, auto)
qed

theorem typed_errors_are_answered_as_themselves_witness:
  "\<exists>response line p. handle_http (\<lambda>_. None) 0 ''made'' (RaisedError sample_error ''why'' True) = Some (response, Some line)
    \<and> hr_body response = Some p \<and> pr_reason p = Some (reason_name (te_reason sample_error)) \<and> pr_detail p = Some ''why''"
proof -
  obtain response line where h: "handle_http (\<lambda>_. None) 0 ''made'' (RaisedError sample_error ''why'' True) = Some (response, Some line)"
    using typed_is_answered by blast
  have "tj_error_ok sample_error" by code_simp
  from typed_errors_are_answered_as_themselves [OF this _ h] show ?thesis using h by auto
qed

end
