(* ===== verification/Store_Routes.thy ===== *)
theory Store_Routes
  imports Vendor_To_Table Http_Errors Events_Hub Daily_Refresh Catalog_Views Usage_Recorder
begin

text \<open>
  The write routes of the store over HTTP: \<open>server/routers/common/instance_secret.py\<close>, the routes of
  \<open>server/routers/data_store\<close> in \<open>asset_dataset_store.py\<close>, \<open>ui_dataset_writes.py\<close> and \<open>internal_asset_data.py\<close>. A request is
  what FastAPI hands the handler once path, query and body are parsed; a route answers a value or raises what the handlers
  of \<open>Http_Errors\<close> render. Events are published to the hub of \<open>Events_Hub\<close>. \<open>other\<close> is what other transactions commit meanwhile.
\<close>

section \<open>The instance secret\<close>

definition INSTANCE_SECRET_ENV_VAR :: string where
  "INSTANCE_SECRET_ENV_VAR = ''INSTANCE_WRITE_SECRET''"

definition INSTANCE_SECRET_REJECTION_DETAIL :: string where
  "INSTANCE_SECRET_REJECTION_DETAIL = ''Invalid or missing instance write secret''"

definition require_instance_secret :: "(string \<rightharpoonup> string) \<Rightarrow> string option \<Rightarrow> raised_http option" where
  "require_instance_secret env instance_secret =
     (let expected_secret = (case env INSTANCE_SECRET_ENV_VAR of None \<Rightarrow> [] | Some v \<Rightarrow> v) in
      if expected_secret = [] then Some (RaisedHttp 401 (Some INSTANCE_SECRET_REJECTION_DETAIL) [])
      else if (case instance_secret of None \<Rightarrow> True | Some v \<Rightarrow> v \<noteq> expected_secret)
      then Some (RaisedHttp 401 (Some INSTANCE_SECRET_REJECTION_DETAIL) [])
      else None)"

section \<open>What the application raises\<close>

record edge =
  ed_detail :: "reason \<Rightarrow> string"
  ed_chained :: "tj_error \<Rightarrow> bool"
  ed_minted :: string

definition typed_as :: "edge \<Rightarrow> err_class \<Rightarrow> reason \<Rightarrow> metadata \<Rightarrow> run_error" where
  "typed_as ed cls r metadata =
     (case build_tj_error cls r metadata None of
        Inl _ \<Rightarrow> Untyped
      | Inr t \<Rightarrow> Typed t (ed_detail ed r))"

definition id_text :: "uuid \<Rightarrow> string" where
  "id_text i = map char_of (uuid_text i)"

text \<open>The exceptions of the crud layer, each with the reason and the metadata its constructor passes on.\<close>

fun raised_by :: "edge \<Rightarrow> store_error \<Rightarrow> run_error" where
  "raised_by ed (EntryNotFound i) = typed_as ed InvalidRequestError NOT_FOUND []"
| "raised_by ed (OwnerMismatch i) = typed_as ed InvalidRequestError OWNER_MISMATCH []"
| "raised_by ed (OwnOverlapConflict ids) =
     typed_as ed InvalidRequestError OWN_OVERLAP_CONFLICT [(''colliding_ids'', Texts (map id_text ids))]"
| "raised_by ed (RangeShrink i) = typed_as ed InvalidRequestError RANGE_SHRINK []"
| "raised_by ed (RangeCollision i) =
     typed_as ed InvalidRequestError RANGE_COLLISION [(''colliding_ids'', Texts [id_text i])]"
| "raised_by ed OverrideRequired = typed_as ed InvalidRequestError OVERRIDE_REQUIRED []"
| "raised_by ed AuditUnavailable = typed_as ed ExogenousError DATABASE_UNAVAILABLE []"
| "raised_by ed StaticHasNoCollect = typed_as ed InvalidRequestError INVALID_REQUEST []"
| "raised_by ed (DuplicateBatchTimestamp t) =
     typed_as ed InvalidRequestError DUPLICATE_BAR_TIMESTAMP []"
| "raised_by ed (FetchFailed e) = Typed e (ed_detail ed (te_reason e))"
| "raised_by ed InvalidPage = Untyped"
| "raised_by ed DatasetRetiredDuringFetch = Untyped"
| "raised_by ed (DatabaseFailure r) =
     typed_as ed ExogenousError r [(''error_id'', Text (ed_minted ed))]"
| "raised_by ed (DatabaseBug e) = Untyped"

fun http_of :: "edge \<Rightarrow> run_error \<Rightarrow> raised_http" where
  "http_of ed (Typed e detail) = RaisedError e detail (ed_chained ed e)"
| "http_of ed run_error.Cancelled = RaisedBug"
| "http_of ed Untyped = RaisedBug"

section \<open>The routes\<close>

record 'e app =
  ap_db :: db
  ap_hub :: "'e hub"

datatype 'a answer = Answered 'a | Denied raised_http

definition guarded :: "(string \<rightharpoonup> string) \<Rightarrow> string option \<Rightarrow> ('e app \<Rightarrow> 'a answer \<times> 'e app) \<Rightarrow> 'e app \<Rightarrow> 'a answer \<times> 'e app" where
  "guarded env instance_secret route s =
     (case require_instance_secret env instance_secret of
        Some exc \<Rightarrow> (Denied exc, s)
      | None \<Rightarrow> route s)"

text \<open>A write and then its announcement: the hub hears of it after the commit, and only of a commit.\<close>

definition announce :: "edge \<Rightarrow> ('a \<Rightarrow> 'e domain_event list) \<Rightarrow> (store_error + 'a) \<times> db \<Rightarrow> 'e app \<Rightarrow> (raised_http + 'a) \<times> 'e app" where
  "announce ed events outcome s =
     (case outcome of
        (Inl e, d) \<Rightarrow> (Inl (http_of ed (raised_by ed e)), s\<lparr>ap_db := d\<rparr>)
      | (Inr x, d) \<Rightarrow> (Inr x, s\<lparr>ap_db := d, ap_hub := fold publish (events x) (ap_hub s)\<rparr>))"

subsection \<open>\<open>DELETE /store/{id}\<close>\<close>

definition delete_data :: "edge \<Rightarrow> uuid \<Rightarrow> string option \<Rightarrow> sql_error option \<Rightarrow> (db \<Rightarrow> db) \<Rightarrow> 'e app \<Rightarrow> unit answer \<times> 'e app" where
  "delete_data ed i owner fault other s =
     (case announce ed (\<lambda>_. [DatasetChanged i DELETED]) (delete_entry_by_id i owner fault other (ap_db s)) s of
        (Inl exc, s') \<Rightarrow> (Denied exc, s')
      | (Inr _, s') \<Rightarrow> (Answered (), s'))"

subsection \<open>The operator's writes\<close>

text \<open>\<open>dataset_detail\<close> after the write, on the database as it is then.\<close>

definition detail_answer :: "edge \<Rightarrow> world \<Rightarrow> uuid \<Rightarrow> instant \<Rightarrow> 'e app \<Rightarrow> dataset_detail answer" where
  "detail_answer ed w i now s =
     (case dataset_detail_of (w\<lparr>w_db := ap_db s\<rparr>) i now None None of
        Inl (InvalidRequest r) \<Rightarrow> Denied (http_of ed (typed_as ed InvalidRequestError r []))
      | Inl _ \<Rightarrow> Denied RaisedBug
      | Inr None \<Rightarrow> Denied (http_of ed (raised_by ed (EntryNotFound i)))
      | Inr (Some detail) \<Rightarrow> Answered detail)"

definition set_dataset_expiry ::
  "edge \<Rightarrow> world \<Rightarrow> uuid \<Rightarrow> instant option \<Rightarrow> override_input option \<Rightarrow> instant \<Rightarrow> sql_error option \<Rightarrow> (db \<Rightarrow> db) \<Rightarrow> 'e app \<Rightarrow>
   dataset_detail answer \<times> 'e app" where
  "set_dataset_expiry ed w i expiry override now fault other s =
     (case announce ed (\<lambda>_. [DatasetChanged i UPDATED]) (operator_set_expiry i expiry override fault other (ap_db s)) s of
        (Inl exc, s') \<Rightarrow> (Denied exc, s')
      | (Inr _, s') \<Rightarrow> (detail_answer ed w i now s', s'))"

definition set_dataset_collecting ::
  "edge \<Rightarrow> world \<Rightarrow> uuid \<Rightarrow> bool option \<Rightarrow> override_input option \<Rightarrow> instant \<Rightarrow> sql_error option \<Rightarrow> (db \<Rightarrow> db) \<Rightarrow> 'e app \<Rightarrow>
   dataset_detail answer \<times> 'e app" where
  "set_dataset_collecting ed w i collect override now fault other s =
     (case collect of
        None \<Rightarrow> (Denied (http_of ed (typed_as ed InvalidRequestError INVALID_REQUEST [])), s)
      | Some c \<Rightarrow>
          (case announce ed (\<lambda>changed_to. case changed_to of
                   None \<Rightarrow> []
                 | Some v \<Rightarrow> [DatasetChanged i (if v then RESUMED else CHANGE_RETIRED)])
               (operator_set_collecting i c override fault other (ap_db s)) s of
             (Inl exc, s') \<Rightarrow> (Denied exc, s')
           | (Inr _, s') \<Rightarrow> (detail_answer ed w i now s', s')))"

definition delete_dataset ::
  "edge \<Rightarrow> uuid \<Rightarrow> override_input option \<Rightarrow> sql_error option \<Rightarrow> (db \<Rightarrow> db) \<Rightarrow> (db \<Rightarrow> db) \<Rightarrow> 'e app \<Rightarrow> unit answer \<times> 'e app" where
  "delete_dataset ed i override fault seen other s =
     (case announce ed (\<lambda>_. [DatasetChanged i DELETED]) (operator_delete_entry i override fault seen other (ap_db s)) s of
        (Inl exc, s') \<Rightarrow> (Denied exc, s')
      | (Inr _, s') \<Rightarrow> (Answered (), s'))"

subsection \<open>\<open>POST /store\<close>\<close>

text \<open>The dataset and feed the worker's acknowledgement named, if it came so far: when \<open>on_ack\<close> was called.\<close>

definition acknowledged :: "worker \<Rightarrow> (fetch_request \<Rightarrow> call_item list) \<Rightarrow> (db \<Rightarrow> db) \<Rightarrow> db \<Rightarrow> (uuid \<times> feed) option" where
  "acknowledged w client other d =
     (case check_own_overlap (sb_key (w_body w)) d of
        Returns _ d0 \<Rightarrow>
          (let (evs, failure) = fetch reader_init (client (fetch_request_of (w_body w) None));
               (p, body) = consume w other evs
                 \<lparr>p_dataset = None, p_feed = None, p_count = 0, p_served = None, p_flip = None, p_committed = d\<rparr> d0
           in (case (p_dataset p, p_feed p) of (Some i, Some f) \<Rightarrow> Some (i, f) | _ \<Rightarrow> None))
      | _ \<Rightarrow> None)"

text \<open>The faults of the five commits: the run's start, its acknowledgement, the fetch, the run's success, its failure.\<close>

record commit_faults =
  cf_start :: "sql_error option"
  cf_ack :: "sql_error option"
  cf_fetch :: "sql_error option"
  cf_succeed :: "sql_error option"
  cf_fail :: "sql_error option"

definition store_worker :: "store_body \<Rightarrow> int option \<Rightarrow> uuid \<Rightarrow> sql_error option \<Rightarrow> run_handle \<Rightarrow> worker" where
  "store_worker body batch_size new_id ack_fault h =
     \<lparr>w_body = body, w_preserve = False, w_batch_size = batch_size, w_new_id = new_id,
      w_on_ack = (\<lambda>i f d. snd (snd (handle_acknowledge i f ack_fault h d)))\<rparr>"

text \<open>The \<open>async with\<close> block: the fetch, then \<open>run.succeed\<close>. The acknowledgement's own session reads what is committed.\<close>

definition store_block ::
  "edge \<Rightarrow> store_body \<Rightarrow> int option \<Rightarrow> uuid \<Rightarrow> commit_faults \<Rightarrow> (fetch_request \<Rightarrow> call_item list) \<Rightarrow> (db \<Rightarrow> db) \<Rightarrow>
   run_handle \<Rightarrow> db \<Rightarrow> (run_error + stored_dataset) \<times> run_handle \<times> run_row list \<times> db" where
  "store_block ed body batch_size new_id faults client other h d =
     (let w = store_worker body batch_size new_id (cf_ack faults) h;
          (res, d1) = store_market_activity_worker w client None other (cf_fetch faults) d;
          (h1, acked) = (case acknowledged w client other d of
              None \<Rightarrow> (h, [])
            | Some (i, f) \<Rightarrow> (let (h', rows, _) = handle_acknowledge i f (cf_ack faults) h (other d) in (h', rows)))
      in case res of
           Inl e \<Rightarrow> (Inl (raised_by ed e), h1, acked, d1)
         | Inr stored \<Rightarrow>
             (let (h2, rows, d2) = handle_succeed (sd_data_points stored) (cf_succeed faults) h1 d1
              in (Inr stored, h2, acked @ rows, d2)))"

text \<open>\<open>_change_kind\<close>\<close>

fun change_kind :: "bool option \<Rightarrow> dataset_change" where
  "change_kind None = UPDATED"
| "change_kind (Some True) = RESUMED"
| "change_kind (Some False) = CHANGE_RETIRED"

record store_answer =
  sa_data_points :: nat
  sa_served_range :: "instant \<times> instant"

text \<open>\<open>StoreAssetDatasetPath\<close> upper-cases the symbol.\<close>

definition routed :: "store_body \<Rightarrow> store_body" where
  "routed body = body\<lparr>sb_key := (sb_key body)\<lparr>k_symbol := upper (k_symbol (sb_key body))\<rparr>\<rparr>"

definition store_data ::
  "edge \<Rightarrow> store_body \<Rightarrow> validation_error list \<Rightarrow> int option \<Rightarrow> uuid \<Rightarrow> uuid \<Rightarrow> commit_faults \<Rightarrow>
   (fetch_request \<Rightarrow> call_item list) \<Rightarrow> (db \<Rightarrow> db) \<Rightarrow> 'e app \<Rightarrow> store_answer answer \<times> 'e app" where
  "store_data ed body problems batch_size run_id new_id faults client other s =
     (if \<not> body_valid body then (Denied (RaisedValidation problems), s)
      else let (res, h, rows, d) =
             recorded_run run_id (label_of (sb_key (routed body)) REQUEST None None None) (cf_start faults) (cf_fail faults)
               (store_block ed (routed body) batch_size new_id faults client other) (ap_db s);
               hub = fold publish (map IngestRunChanged rows) (ap_hub s)
           in case res of
                Inl e \<Rightarrow> (Denied (http_of ed e), s\<lparr>ap_db := d, ap_hub := hub\<rparr>)
              | Inr stored \<Rightarrow>
                  (case sd_served_range stored of
                     None \<Rightarrow> Denied RaisedBug
                   | Some served \<Rightarrow> Answered \<lparr>sa_data_points = sd_data_points stored, sa_served_range = served\<rparr>,
                   s\<lparr>ap_db := d, ap_hub := (case h_dataset_id h of
                        None \<Rightarrow> hub
                      | Some i \<Rightarrow> publish (DatasetChanged i (change_kind (sd_collect_changed_to stored))) hub)\<rparr>))"

subsection \<open>The bars\<close>

text \<open>\<open>POST\<close> of one bar: a body the model refuses is a validation failure, each \<open>loc\<close> under \<open>body\<close>.\<close>

definition create_stock_market_activity_data ::
  "edge \<Rightarrow> validation_error list + bar \<Rightarrow> sql_error option \<Rightarrow> 'e app \<Rightarrow> bar answer \<times> 'e app" where
  "create_stock_market_activity_data ed asset_data fault s =
     (case asset_data of
        Inl problems \<Rightarrow> (Denied (RaisedValidation (map (\<lambda>v. v\<lparr>ve_loc := ''body'' # ve_loc v\<rparr>) problems)), s)
      | Inr b \<Rightarrow>
          (case create_market_activity_data b fault (ap_db s) of
             (Inl e, d) \<Rightarrow> (Denied (http_of ed (raised_by ed e)), s\<lparr>ap_db := d\<rparr>)
           | (Inr row, d) \<Rightarrow> (Answered row, s\<lparr>ap_db := d\<rparr>)))"

text \<open>\<open>GET\<close> of bars: the answer, and one read recorded for each dataset it returned bars of or was asked for.\<close>

definition read_counts :: "bar_query \<Rightarrow> bar list \<Rightarrow> (uuid \<times> int) list" where
  "read_counts q rows =
     (let counts = map (\<lambda>i. (i, int (length (filter (\<lambda>b. b_dataset b = i) rows)))) (from_keys (map b_dataset rows))
      in (case qb_dataset_id q of
            None \<Rightarrow> counts
          | Some i \<Rightarrow> if i \<in> fst ` set counts then counts else counts @ [(i, 0)]))"

definition read_stock_market_activity_data ::
  "bar_query \<Rightarrow> string option \<Rightarrow> string \<Rightarrow> uuid list \<Rightarrow> instant \<Rightarrow> db \<Rightarrow> recorder \<Rightarrow> bar list \<times> recorder" where
  "read_stock_market_activity_data q client_id_header route ids now d rec =
     (let rows = read_market_activity_data q d;
          label = classify_client_label client_id_header
      in (rows, fold (\<lambda>(read_id, dataset, returned). record_read read_id dataset label route returned now)
                  (zip ids (read_counts q rows)) rec))"

section \<open>Every write route\<close>

text \<open>What a deployment and a moment fix for the routes; \<open>dp_seen\<close> is what others commit before the count of an operator's delete.\<close>

record deployment =
  dp_env :: "string \<rightharpoonup> string"
  dp_edge :: edge
  dp_world :: world
  dp_now :: instant
  dp_fault :: "sql_error option"
  dp_seen :: "db \<Rightarrow> db"
  dp_faults :: commit_faults
  dp_client :: "fetch_request \<Rightarrow> call_item list"
  dp_batch_size :: "int option"
  dp_run_id :: uuid
  dp_new_id :: uuid

datatype write_request =
  PostStore store_body "validation_error list"
| DeleteStore uuid "string option"
| PatchExpiry uuid "instant option" "override_input option"
| PatchCollecting uuid "bool option" "override_input option"
| DeleteDataset uuid "override_input option"
| PostBar "validation_error list + bar"

fun denial :: "'a answer \<times> 'e app \<Rightarrow> raised_http option \<times> 'e app" where
  "denial (Answered x, s) = (None, s)"
| "denial (Denied exc, s) = (Some exc, s)"

fun write_route :: "deployment \<Rightarrow> string option \<Rightarrow> (db \<Rightarrow> db) \<Rightarrow> write_request \<Rightarrow> 'e app \<Rightarrow> raised_http option \<times> 'e app" where
  "write_route dp header other (PostStore body problems) s =
     denial (guarded (dp_env dp) header (store_data (dp_edge dp) body problems (dp_batch_size dp) (dp_run_id dp) (dp_new_id dp)
       (dp_faults dp) (dp_client dp) other) s)"
| "write_route dp header other (DeleteStore i owner) s =
     denial (guarded (dp_env dp) header (delete_data (dp_edge dp) i owner (dp_fault dp) other) s)"
| "write_route dp header other (PatchExpiry i expiry override) s =
     denial (guarded (dp_env dp) header (set_dataset_expiry (dp_edge dp) (dp_world dp) i expiry override (dp_now dp) (dp_fault dp) other) s)"
| "write_route dp header other (PatchCollecting i collect override) s =
     denial (guarded (dp_env dp) header (set_dataset_collecting (dp_edge dp) (dp_world dp) i collect override (dp_now dp) (dp_fault dp) other) s)"
| "write_route dp header other (DeleteDataset i override) s =
     denial (guarded (dp_env dp) header (delete_dataset (dp_edge dp) i override (dp_fault dp) (dp_seen dp) other) s)"
| "write_route dp header other (PostBar asset_data) s =
     denial (guarded (dp_env dp) header (create_stock_market_activity_data (dp_edge dp) asset_data (dp_fault dp)) s)"

section \<open>The guard\<close>

lemma guard_refuses:
  assumes "require_instance_secret env header \<noteq> None"
  shows "require_instance_secret env header = Some (RaisedHttp 401 (Some INSTANCE_SECRET_REJECTION_DETAIL) [])"
  using assms by (auto simp: require_instance_secret_def Let_def split: if_splits)

lemma guard_passes:
  "require_instance_secret env header = None \<longleftrightarrow> header \<noteq> None \<and> header \<noteq> Some [] \<and> env INSTANCE_SECRET_ENV_VAR = header"
  by (auto simp: require_instance_secret_def Let_def split: option.splits if_splits)

lemma guarded_refused: "require_instance_secret env header = Some exc \<Longrightarrow> guarded env header route s = (Denied exc, s)"
  by (simp add: guarded_def)

lemma guarded_passed: "require_instance_secret env header = None \<Longrightarrow> guarded env header route s = route s"
  by (simp add: guarded_def)

lemma write_route_refused:
  "require_instance_secret (dp_env dp) header = Some exc \<Longrightarrow> write_route dp header other req s = (Some exc, s)"
  by (cases req) (simp_all add: guarded_refused)

section \<open>What is announced\<close>

text \<open>What an event tells a client is so.\<close>

fun tells_truth :: "db \<Rightarrow> 'e domain_event \<Rightarrow> bool" where
  "tells_truth d (DatasetChanged i k) =
     (case k of
        DELETED \<Rightarrow> get_entry d i = None \<and> (\<forall>b\<in>set (bars d). b_dataset b \<noteq> i)
      | CHANGE_RETIRED \<Rightarrow> \<exists>e. get_entry d i = Some e \<and> e_collect e = Some False
      | RESUMED \<Rightarrow> \<exists>e. get_entry d i = Some e \<and> e_collect e = Some True
      | _ \<Rightarrow> \<exists>e. get_entry d i = Some e)"
| "tells_truth d (IngestRunChanged r) = (r \<in> set (ingest_runs d))"
| "tells_truth d _ = True"

definition shows_same :: "db \<Rightarrow> db \<Rightarrow> bool" where
  "shows_same d d' \<longleftrightarrow> bars d' = bars d
     \<and> (\<forall>i. map_option (\<lambda>e. (e_expiry e, e_collect e)) (get_entry d' i) = map_option (\<lambda>e. (e_expiry e, e_collect e)) (get_entry d i))"

lemma get_updated:
  assumes "\<And>e. e_id (f e) = e_id e"
  shows "get_entry (snd (update_row i f d)) j = map_option (\<lambda>e. if e_id e = i then f e else e) (get_entry d j)"
proof -
  have "find (\<lambda>e. e_id e = j) (map (\<lambda>e. if e_id e = i then f e else e) es) =
      map_option (\<lambda>e. if e_id e = i then f e else e) (find (\<lambda>e. e_id e = j) es)" for es
    using assms by (induction es) auto
  then show ?thesis by (simp add: get_entry_def update_row_def)
qed

lemma get_cong: "entries d' = entries d \<Longrightarrow> get_entry d' i = get_entry d i"
  by (simp add: get_entry_def)

lemma deleted_truth:
  assumes "entries d' = filter (\<lambda>x. e_id x \<noteq> i) es" and "bars d' = filter (\<lambda>b. b_dataset b \<noteq> i) bs"
  shows "tells_truth d' (DatasetChanged i DELETED)"
  using assms by (auto simp: get_entry_None)

text \<open>One announced write: what it published is so, and what it did not publish it did not do.\<close>

definition announced :: "(db \<Rightarrow> db) \<Rightarrow> 'e app \<Rightarrow> 'e app \<Rightarrow> bool" where
  "announced other s s' \<longleftrightarrow>
     (\<exists>events. length events \<le> 1 \<and> ap_hub s' = fold publish events (ap_hub s)
        \<and> (\<forall>ev\<in>set events. tells_truth (ap_db s') ev)
        \<and> (events = [] \<longrightarrow> shows_same (ap_db s) (ap_db s') \<or> shows_same (other (ap_db s)) (ap_db s')))"

lemma unchanged_announced: "announced other s s"
  unfolding announced_def shows_same_def by (intro exI [of _ "[]"]) simp

lemma announce_cases:
  assumes "announce ed events (outcome, d) s = (r, s')"
    and "\<And>e. outcome = Inl e \<Longrightarrow> d = other (ap_db s)"
    and "\<And>x. outcome = Inr x \<Longrightarrow> length (events x) \<le> 1 \<and> (\<forall>ev\<in>set (events x). tells_truth d ev) \<and>
      (events x = [] \<longrightarrow> shows_same (other (ap_db s)) d)"
  shows "announced other s s'"
proof (cases outcome)
  case (Inl e)
  then have "ap_hub s' = ap_hub s" "ap_db s' = other (ap_db s)" using assms(1,2) by (auto simp: announce_def)
  then show ?thesis unfolding announced_def shows_same_def by (intro exI [of _ "[]"]) simp
next
  case (Inr x)
  then show ?thesis using assms(1,3) unfolding announced_def announce_def by (intro exI [of _ "events x"]) auto
qed

lemma refused_keeps:
  "delete_entry_by_id i owner fault other d = (Inl e, d') \<Longrightarrow> d' = other d"
  "operator_delete_entry i override fault seen other d = (Inl e, d') \<Longrightarrow> d' = other d"
  "operator_set_expiry i expiry override fault other d = (Inl e, d') \<Longrightarrow> d' = other d"
  "operator_set_collecting i c override fault other d = (Inl e, d') \<Longrightarrow> d' = other d"
  by (auto simp: delete_entry_by_id_def operator_delete_entry_def operator_set_expiry_def operator_set_collecting_def Let_def
    dest: write_transaction_Inl)

lemma delete_announced:
  assumes "announce ed (\<lambda>_. [DatasetChanged i DELETED]) (delete_entry_by_id i owner fault other (ap_db s)) s = (r, s')"
  shows "announced other s s'"
proof -
  obtain outcome d where o: "delete_entry_by_id i owner fault other (ap_db s) = (outcome, d)" by fastforce
  have "tells_truth d (DatasetChanged i DELETED)" if "outcome = Inr u" for u
  proof -
    have o': "delete_entry_by_id i owner fault other (ap_db s) = (Inr u, d)" using o that by simp
    obtain e where "delete_entry_row i (other (ap_db s)) = Returns () d" using delete_entry_by_id_done [OF o'] by auto
    from delete_entry_row_done [OF this] show ?thesis by (intro deleted_truth) auto
  qed
  moreover have "d = other (ap_db s)" if "outcome = Inl e" for e using refused_keeps(1) o that by fast
  ultimately show ?thesis by (intro announce_cases [OF assms [unfolded o]]) simp_all
qed

lemma operator_delete_announced:
  assumes "announce ed (\<lambda>_. [DatasetChanged i DELETED]) (operator_delete_entry i override fault seen other (ap_db s)) s = (r, s')"
  shows "announced other s s'"
proof -
  obtain outcome d where o: "operator_delete_entry i override fault seen other (ap_db s) = (outcome, d)" by fastforce
  have "tells_truth d (DatasetChanged i DELETED)" if "outcome = Inr u" for u
  proof -
    have o': "operator_delete_entry i override fault seen other (ap_db s) = (Inr u, d)" using o that by simp
    obtain e reason d1 where e: "get_entry (ap_db s) i = Some e"
      "delete_and_record e CAUSE_OPERATOR Store_Entries.OPERATOR_PRINCIPAL (seen (ap_db s)) (other (ap_db s)) = Returns () d1"
      "append_override Store_Entries.OPERATOR_PRINCIPAL i (e_owner e) DELETE reason d1 = Returns () d"
      using operator_delete_entry_done [OF o'] by metis
    have "e_id e = i" using get_entry_Some [OF e(1)] by simp
    then show ?thesis using delete_and_record_done(2,3) [OF e(2)] append_override_db [OF e(3)] by (intro deleted_truth) auto
  qed
  moreover have "d = other (ap_db s)" if "outcome = Inl e" for e using refused_keeps(2) o that by fast
  ultimately show ?thesis by (intro announce_cases [OF assms [unfolded o]]) simp_all
qed

lemma set_expiry_announced:
  assumes "announce ed (\<lambda>_. [DatasetChanged i UPDATED]) (operator_set_expiry i expiry override fault other (ap_db s)) s = (r, s')"
  shows "announced other s s'"
proof -
  obtain outcome d where o: "operator_set_expiry i expiry override fault other (ap_db s) = (outcome, d)" by fastforce
  have "tells_truth d (DatasetChanged i UPDATED)" if "outcome = Inr u" for u
  proof -
    have o': "operator_set_expiry i expiry override fault other (ap_db s) = (Inr u, d)" using o that by simp
    let ?d = "snd (update_row i (\<lambda>e. e\<lparr>e_expiry := expiry, e_updated_at := db_now (ap_db s)\<rparr>) (other (ap_db s)))"
    obtain e reason where "get_entry (ap_db s) i = Some e" and e: "i \<in> e_id ` set (entries (other (ap_db s)))"
      "append_override Store_Entries.OPERATOR_PRINCIPAL i (e_owner e) SET_EXPIRY reason ?d = Returns () d"
      using operator_set_expiry_done [OF o'] by metis
    have "get_entry d i = get_entry ?d i" using append_override_db [OF e(2)] by (intro get_cong) simp
    moreover have "get_entry (other (ap_db s)) i \<noteq> None" using e(1) by (simp add: get_entry_None)
    ultimately show ?thesis by (auto simp: get_updated)
  qed
  moreover have "d = other (ap_db s)" if "outcome = Inl e" for e using refused_keeps(3) o that by fast
  ultimately show ?thesis by (intro announce_cases [OF assms [unfolded o]]) simp_all
qed

lemma set_collecting_done_rows:
  assumes "operator_set_collecting i c override fault other d = (Inr v, d')"
  shows "\<exists>l before. get_entry (other d) i = Some l \<and> e_collect l = Some before \<and> v = collect_change (Some before) (Some c)
    \<and> bars d' = bars (other d) \<and> (\<forall>j. get_entry d' j = map_option (\<lambda>e. if e_id e = i
       then e\<lparr>e_collect := Some c, e_updated_at := db_now d\<rparr> else e) (get_entry (other d) j))"
proof -
  let ?d = "snd (update_row i (\<lambda>e. e\<lparr>e_collect := Some c, e_updated_at := db_now d\<rparr>) (other d))"
  obtain e reason before where "get_entry d i = Some e" and e: "\<exists>l. get_entry (other d) i = Some l \<and> e_collect l = Some before"
    "append_override Store_Entries.OPERATOR_PRINCIPAL i (e_owner e) SET_COLLECTING reason ?d = Returns () d'"
    "v = collect_change (Some before) (Some c)"
    using operator_set_collecting_done [OF assms] by metis
  have b: "bars d' = bars (other d)" using append_override_db [OF e(2)] by (simp add: update_row_def)
  have g: "get_entry d' j = map_option (\<lambda>e. if e_id e = i
       then e\<lparr>e_collect := Some c, e_updated_at := db_now d\<rparr> else e) (get_entry (other d) j)" for j
  proof -
    have "get_entry d' j = get_entry ?d j" using append_override_db [OF e(2)] by (intro get_cong) simp
    then show ?thesis by (simp add: get_updated)
  qed
  show ?thesis using e(1,3) b g by fastforce
qed

abbreviation collecting_events :: "uuid \<Rightarrow> bool option \<Rightarrow> 'e domain_event list" where
  "collecting_events i changed_to \<equiv>
     (case changed_to of None \<Rightarrow> [] | Some v \<Rightarrow> [DatasetChanged i (if v then RESUMED else CHANGE_RETIRED)])"

lemma set_collecting_announced:
  assumes "announce ed (collecting_events i) (operator_set_collecting i c override fault other (ap_db s)) s = (r, s')"
  shows "announced other s s'"
proof -
  obtain outcome d where o: "operator_set_collecting i c override fault other (ap_db s) = (outcome, d)" by fastforce
  have told: "length (collecting_events i v) \<le> 1 \<and> (\<forall>ev\<in>set (collecting_events i v). tells_truth d ev) \<and>
      (collecting_events i v = [] \<longrightarrow> shows_same (other (ap_db s)) d)" if "outcome = Inr v" for v
  proof -
    have o': "operator_set_collecting i c override fault other (ap_db s) = (Inr v, d)" using o that by simp
    obtain l before where l: "get_entry (other (ap_db s)) i = Some l" "e_collect l = Some before"
      "v = collect_change (Some before) (Some c)" "bars d = bars (other (ap_db s))"
      "\<forall>j. get_entry d j = map_option (\<lambda>e. if e_id e = i then e\<lparr>e_collect := Some c, e_updated_at := db_now (ap_db s)\<rparr> else e)
         (get_entry (other (ap_db s)) j)" using set_collecting_done_rows [OF o'] by blast
    have "e_id l = i" using get_entry_Some [OF l(1)] by simp
    then have now: "\<exists>e. get_entry d i = Some e \<and> e_collect e = Some c" using l(1,5) by simp
    have same: "shows_same (other (ap_db s)) d" if "v = None"
    proof -
      have "before = c" using that l(3) by (auto simp: collect_change_def split: if_splits)
      then have "map_option (\<lambda>e. (e_expiry e, e_collect e)) (get_entry d j) =
          map_option (\<lambda>e. (e_expiry e, e_collect e)) (get_entry (other (ap_db s)) j)" for j
        using l(1,2,5) get_entry_Some [of "other (ap_db s)" j] by (cases "get_entry (other (ap_db s)) j") auto
      then show ?thesis using l(4) by (simp add: shows_same_def)
    qed
    show ?thesis
    proof (cases v)
      case None
      then show ?thesis using same by simp
    next
      case (Some c')
      then have "c' = c" using l(3) by (simp add: collect_change_def split: if_splits)
      then show ?thesis using Some now by (cases c) simp_all
    qed
  qed
  have kept: "d = other (ap_db s)" if "outcome = Inl e" for e using refused_keeps(4) o that by fast
  from assms [unfolded o] show ?thesis by (rule announce_cases) (fact kept told)+
qed

section \<open>A failed fetch, over HTTP\<close>

lemma finish_keeps:
  "finish_run i st n fl fault d = (res, d') \<Longrightarrow> entries d' = entries d \<and> bars d' = bars d"
  unfolding finish_run_def by (drule update_run_done) auto

lemma begin_run_keeps:
  "begin_run i run fault d = (record, d') \<Longrightarrow> entries d' = entries d \<and> bars d' = bars d"
  by (auto simp: begin_run_def split: prod.splits sum.splits dest: start_run_done)

lemma handle_fail_keeps:
  "handle_fail e fault h d = (h', rows, d') \<Longrightarrow> entries d' = entries d \<and> bars d' = bars d"
  by (auto simp: handle_fail_def record_write_def split: option.splits prod.splits sum.splits dest: finish_keeps)

lemma no_dataset_event: "\<forall>ev\<in>set (map IngestRunChanged rows). \<forall>i k. ev \<noteq> DatasetChanged i k"
  by auto

text \<open>A store call whose worker fails: what is answered, and what is left.\<close>

lemma store_data_fails:
  assumes "body_valid body"
    and "\<And>h d. entries d = entries (ap_db s) \<Longrightarrow>
      \<exists>e. P e \<and> store_market_activity_worker (store_worker (routed body) batch_size new_id (cf_ack faults) h) client None other
        (cf_fetch faults) d = (Inl e, d)"
  shows "\<exists>e s' rows. P e \<and> store_data ed body problems batch_size run_id new_id faults client other s = (Denied (http_of ed (raised_by ed e)), s')
    \<and> entries (ap_db s') = entries (ap_db s) \<and> bars (ap_db s') = bars (ap_db s)
    \<and> ap_hub s' = fold publish (map IngestRunChanged rows) (ap_hub s)"
proof -
  let ?run = "label_of (sb_key (routed body)) REQUEST None None None"
  obtain r0 d1 where b: "begin_run run_id ?run (cf_start faults) (ap_db s) = (r0, d1)" by fastforce
  note k1 = begin_run_keeps [OF b]
  let ?h = "\<lparr>h_record = r0, h_dataset_id = None\<rparr>"
  obtain e where e: "P e" "store_market_activity_worker (store_worker (routed body) batch_size new_id (cf_ack faults) ?h) client None other
      (cf_fetch faults) d1 = (Inl e, d1)" using assms(2) [of d1 ?h] k1 by blast
  obtain h2 rows2 where block: "store_block ed (routed body) batch_size new_id faults client other ?h d1 =
      (Inl (raised_by ed e), h2, rows2, d1)"
    using e(2) by (simp add: store_block_def Let_def case_prod_beta)
  obtain h3 rows3 d3 where f: "handle_fail (raised_by ed e) (cf_fail faults) h2 d1 = (h3, rows3, d3)" by (metis prod.collapse)
  have "\<exists>rows. recorded_run run_id ?run (cf_start faults) (cf_fail faults)
      (store_block ed (routed body) batch_size new_id faults client other) (ap_db s) = (Inl (raised_by ed e), h3, rows, d3)"
    using b block f by (simp add: recorded_run_def)
  then obtain rows where "recorded_run run_id ?run (cf_start faults) (cf_fail faults)
      (store_block ed (routed body) batch_size new_id faults client other) (ap_db s) = (Inl (raised_by ed e), h3, rows, d3)" ..
  then show ?thesis using assms(1) e(1) k1 handle_fail_keeps [OF f] by (auto simp: store_data_def)
qed

section \<open>Properties\<close>

text \<open>C6. Writes fail closed. A write whose header does not carry the deployment's secret, or of a deployment whose secret is unset or
  empty, gets the one refusal, the same for every cause, and nothing is read, written or published; a write that does carry
  it is decided by nothing else of the environment or the header.\<close>

theorem writes_fail_closed:
  assumes "write_route dp header other req s = (denied, s')"
  shows "if header = None \<or> header = Some [] \<or> dp_env dp ''INSTANCE_WRITE_SECRET'' \<noteq> header
    then denied = Some (RaisedHttp 401 (Some ''Invalid or missing instance write secret'') []) \<and> s' = s
    else \<forall>secret. secret \<noteq> [] \<longrightarrow>
      write_route (dp\<lparr>dp_env := [''INSTANCE_WRITE_SECRET'' \<mapsto> secret]\<rparr>) (Some secret) other req s = (denied, s')"
proof (cases "header = None \<or> header = Some [] \<or> dp_env dp ''INSTANCE_WRITE_SECRET'' \<noteq> header")
  case True
  then have "require_instance_secret (dp_env dp) header \<noteq> None" by (auto simp: guard_passes INSTANCE_SECRET_ENV_VAR_def)
  note refused = write_route_refused [OF guard_refuses [OF this]]
  have "(denied, s') = (Some (RaisedHttp 401 (Some INSTANCE_SECRET_REJECTION_DETAIL) []), s)" unfolding assms [symmetric] by (rule refused)
  then show ?thesis using True by (simp add: INSTANCE_SECRET_REJECTION_DETAIL_def)
next
  case False
  then have "require_instance_secret (dp_env dp) header = None" by (auto simp: guard_passes INSTANCE_SECRET_ENV_VAR_def)
  moreover have "require_instance_secret [''INSTANCE_WRITE_SECRET'' \<mapsto> secret] (Some secret) = None" if "secret \<noteq> []" for secret
    using that by (simp add: guard_passes INSTANCE_SECRET_ENV_VAR_def)
  ultimately show ?thesis using False assms by (cases req) (auto simp: guarded_passed)
qed

lemma denial_snd: "snd (denial x) = snd x"
  by (cases x rule: denial.cases) simp_all

lemma routes_announced:
  "announced other s (snd (delete_data ed i owner fault other s))"
  "announced other s (snd (set_dataset_expiry ed w i expiry override now fault other s))"
  "announced other s (snd (set_dataset_collecting ed w i collect override now fault other s))"
  "announced other s (snd (delete_dataset ed i override fault seen other s))"
  unfolding delete_data_def set_dataset_expiry_def set_dataset_collecting_def delete_dataset_def
  by (auto split: prod.split sum.split option.split_asm option.split
    dest: delete_announced set_expiry_announced set_collecting_announced operator_delete_announced intro: unchanged_announced)

lemma route_announced:
  assumes "announced other s (snd (route s))"
  shows "announced other s (snd (denial (guarded env header route s)))"
  using assms unchanged_announced by (auto simp: guarded_def denial_snd split: option.split)

text \<open>C5. What the store announces is true. A delete, a change of the expiry or a change of the collect intent publishes at most one
  event, after its commit: \<open>DELETED\<close> only once the entry and every one of its bars are gone, \<open>RETIRED\<close> or \<open>RESUMED\<close> only when
  the stored intent is now that, \<open>UPDATED\<close> only of an entry that is there. When it publishes nothing, the bars and every
  entry's expiry and intent are what they were, its own refusal and its failed commit included.\<close>

theorem announcements_are_true:
  assumes "write_route dp header other req s = (denied, s')"
    and "(\<exists>i owner. req = DeleteStore i owner) \<or> (\<exists>i expiry override. req = PatchExpiry i expiry override)
      \<or> (\<exists>i collect override. req = PatchCollecting i collect override) \<or> (\<exists>i override. req = DeleteDataset i override)"
  shows "announced other s s'"
proof -
  have "announced other s (snd (write_route dp header other req s))"
    using assms(2) by (elim disjE exE) (auto intro!: route_announced routes_announced)
  then show ?thesis using assms(1) by simp
qed

lemma owed_overlap: "entries d' = entries d \<Longrightarrow> find_own_overlap d' k = find_own_overlap d k"
  by (simp add: find_own_overlap_def)

text \<open>C4. A failure of the vendor, as the client of the store sees it over HTTP. When the Alpaca reader behind the ingest service returns
  a failure, \<open>POST /store\<close> answers the status of that failure's row with its reason, its time of reset and every metadata value
  it carried, a \<open>Retry-After\<close> exactly for the two rate limits, and in the body the error id of the log line, the one the ingest
  service gave it; the entries and the bars are as they were, and nothing but the run's record is announced.\<close>

theorem vendor_failure_is_answered:
  assumes "body_valid body" and "hop_laws sv" and "request_fits (fetch_request_of (routed body) None)"
    and "se_readers sv (k_source (sb_key (routed body))) = Some (alpaca_reader a b)"
    and "budget_ok b" and "fair_passes (rb_rate b) (rw_passes a)"
    and "get_bars a b (query_of (fetch_request_of (routed body) None) (call_deadline sv)) = (Some (BarsFailure e), b')"
    and "k_asset_type (sb_key (routed body)) = STOCK" and "k_data_type (sb_key (routed body)) = MARKET_ACTIVITY"
    and "find_own_overlap (ap_db s) (sb_key (routed body)) = []" and "minted \<noteq> []"
  shows "\<exists>exc s' response line p rows.
    store_data ed body problems batch_size run_id new_id faults (channel_to sv) other s = (Denied exc, s')
    \<and> handle_http phrase now minted exc = Some (response, Some line) \<and> hr_body response = Some p
    \<and> hr_status response = sp_http (row_of (te_reason e)) \<and> pr_reason p = Some (reason_name (te_reason e))
    \<and> pr_reset_at p = te_reset_at e
    \<and> (\<forall>k. k \<noteq> ''error_id'' \<longrightarrow> member k p = map_option (Text \<circ> wire_value) (map_of (te_metadata e) k))
    \<and> (map fst (hr_headers response) = (if te_reason e \<in> {RATE_BUDGET, VENDOR_RATE_LIMITED} then [''Retry-After''] else []))
    \<and> body_error_id p = Some (ll_error_id line) \<and> \<not> ll_chain line
    \<and> ll_error_id line = (case own_error_id e of None \<Rightarrow> se_minted sv | Some i \<Rightarrow> i)
    \<and> entries (ap_db s') = entries (ap_db s) \<and> bars (ap_db s') = bars (ap_db s)
    \<and> ap_hub s' = fold publish (map IngestRunChanged rows) (ap_hub s)"
proof -
  let ?w = "\<lambda>h. store_worker (routed body) batch_size new_id (cf_ack faults) h"
  have w: "w_body (?w h) = routed body" for h by (simp add: store_worker_def)
  let ?P = "\<lambda>x. \<exists>e'. x = FetchFailed e' \<and> carried_over (se_minted sv) e e'"
  have worker: "expected_failure e \<and> (\<exists>x. ?P x \<and>
      store_market_activity_worker (?w h) (channel_to sv) None other (cf_fetch faults) d = (Inl x, d))"
    if "entries d = entries (ap_db s)" for h d
  proof -
    have "find_own_overlap d (sb_key (routed body)) = []" by (simp add: owed_overlap [OF that] assms(10))
    from vendor_failure_through [of sv "?w h" None a b e b' d, unfolded w, OF assms(2-9) this] show ?thesis by blast
  qed
  from store_data_fails [OF assms(1), of s ?P batch_size new_id faults "channel_to sv" other ed problems run_id] worker
  obtain x s' rows where x: "?P x"
    "store_data ed body problems batch_size run_id new_id faults (channel_to sv) other s = (Denied (http_of ed (raised_by ed x)), s')"
    "entries (ap_db s') = entries (ap_db s)" "bars (ap_db s') = bars (ap_db s)"
    "ap_hub s' = fold publish (map IngestRunChanged rows) (ap_hub s)" by blast
  obtain e' where e': "x = FetchFailed e'" "carried_over (se_minted sv) e e'" using x(1) by blast
  have expected: "expected_failure e" using worker [OF refl] by blast
  have carried: "te_reason e' = te_reason e" "te_reset_at e' = te_reset_at e"
    "own_error_id e' = Some (case own_error_id e of None \<Rightarrow> se_minted sv | Some i \<Rightarrow> i)"
    "k \<noteq> ''error_id'' \<Longrightarrow> map_of (te_metadata e') k = map_option (Text \<circ> wire_value) (map_of (te_metadata e) k)" for k
    using e'(2) by (auto simp: carried_over_def)
  let ?exc = "RaisedError e' (ed_detail ed (te_reason e')) (ed_chained ed e')"
  note s' = x(2-5) [unfolded e'(1), simplified]
  obtain response line where answer: "handle_http phrase now minted ?exc = Some (response, Some line)"
    using typed_is_answered by blast
  obtain p where p: "hr_body response = Some p" "hr_status response = sp_http (row_of (te_reason e))"
    "pr_reason p = Some (reason_name (te_reason e))" "pr_reset_at p = te_reset_at e"
    "hr_headers response = (case pr_retry_after p of None \<Rightarrow> [] | Some n \<Rightarrow> [(''Retry-After'', seconds_text n)])"
    "pr_retry_after p \<noteq> None \<longleftrightarrow> te_reset_at e \<noteq> None" "body_error_id p = Some (ll_error_id line)"
    "\<forall>k. k \<noteq> ''error_id'' \<longrightarrow> member k p = map_of (te_metadata e') k"
    "ll_error_id line = (case own_error_id e' of None \<Rightarrow> minted | Some i \<Rightarrow> i)" "ll_chain line \<longrightarrow> own_error_id e' = None"
    using typed_answer [OF assms(11) answer] unfolding carried(1,2) by blast
  have "map fst (hr_headers response) = (if te_reason e \<in> {RATE_BUDGET, VENDOR_RATE_LIMITED} then [''Retry-After''] else [])"
    using expected p(5,6) by (auto simp: expected_failure_def split: option.splits)
  then show ?thesis
    using s' answer p carried(3,4) by (intro exI [of _ ?exc] exI [of _ s'] exI [of _ response] exI [of _ line] exI [of _ p] exI [of _ rows]) simp
qed

section \<open>Evaluations\<close>

definition sample_edge :: edge where
  "sample_edge = \<lparr>ed_detail = reason_name, ed_chained = (\<lambda>_. False), ed_minted = ''made''\<rparr>"

definition no_faults :: commit_faults where
  "no_faults = \<lparr>cf_start = None, cf_ack = None, cf_fetch = None, cf_succeed = None, cf_fail = None\<rparr>"

definition sample_app :: "nat app" where
  "sample_app = \<lparr>ap_db = sample_db, ap_hub = mk_hub (Some 5) Map.empty\<rparr>"

definition sample_deployment :: deployment where
  "sample_deployment = \<lparr>dp_env = [INSTANCE_SECRET_ENV_VAR \<mapsto> ''key''], dp_edge = sample_edge, dp_world = sample_world, dp_now = 300,
     dp_fault = None, dp_seen = id, dp_faults = no_faults, dp_client = sample_client, dp_batch_size = None, dp_run_id = 7, dp_new_id = 5\<rparr>"

text \<open>A STATIC request, as \<open>POST /store\<close> takes one.\<close>

definition static_body :: store_body where
  "static_body = \<lparr>sb_key = sample_key\<lparr>k_update_type := STATIC\<rparr>, sb_feed = None, sb_expiry = Some 900, sb_collect = None\<rparr>"

lemma static_request: "request_fits (fetch_request_of (routed static_body) None)"
  by (simp add: request_fits_def fetch_request_of_def static_body_def routed_def sample_key_def
    dated_def EARLIEST_def LATEST_def upper_def Let_def)

lemma static_request_fails:
  "case fst (get_bars (vendor_world (VendorRaises TransportFailure)) sample_budget
     (query_of (fetch_request_of (routed static_body) None) (call_deadline (vendor_service answer)))) of
     Some (BarsFailure e) \<Rightarrow> te_reason e = VENDOR_UNAVAILABLE | _ \<Rightarrow> False"
  by code_simp

lemma static_body_facts:
  "body_valid static_body" "k_source (sb_key (routed static_body)) = ALPACA_API" "k_asset_type (sb_key (routed static_body)) = STOCK"
  "k_data_type (sb_key (routed static_body)) = MARKET_ACTIVITY" "find_own_overlap sample_db (sb_key (routed static_body)) = []"
  by code_simp+

lemma deleted_by_owner:
  "fst (write_route sample_deployment (Some ''key'') id (DeleteStore 1 (Some ''ann'')) sample_app) = None"
  "entries (ap_db (snd (write_route sample_deployment (Some ''key'') id (DeleteStore 1 (Some ''ann'')) sample_app))) = []"
  by code_simp+

theorem writes_fail_closed_witness:
  "write_route sample_deployment (Some ''wrong'') id (DeleteStore 1 (Some ''ann'')) sample_app =
     (Some (RaisedHttp 401 (Some ''Invalid or missing instance write secret'') []), sample_app)
   \<and> entries (ap_db (snd (write_route (sample_deployment\<lparr>dp_env := [''INSTANCE_WRITE_SECRET'' \<mapsto> ''other key'']\<rparr>) (Some ''other key'') id
        (DeleteStore 1 (Some ''ann'')) sample_app))) = []"
proof
  have env: "dp_env sample_deployment ''INSTANCE_WRITE_SECRET'' = Some ''key''"
    by (simp add: sample_deployment_def INSTANCE_SECRET_ENV_VAR_def)
  show "write_route sample_deployment (Some ''wrong'') id (DeleteStore 1 (Some ''ann'')) sample_app =
      (Some (RaisedHttp 401 (Some ''Invalid or missing instance write secret'') []), sample_app)"
    using writes_fail_closed [of sample_deployment "Some ''wrong''" id "DeleteStore 1 (Some ''ann'')" sample_app, OF surjective_pairing] env
    by (simp add: prod_eq_iff)
  show "entries (ap_db (snd (write_route (sample_deployment\<lparr>dp_env := [''INSTANCE_WRITE_SECRET'' \<mapsto> ''other key'']\<rparr>) (Some ''other key'') id
      (DeleteStore 1 (Some ''ann'')) sample_app))) = []"
    using writes_fail_closed [of sample_deployment "Some ''key''" id "DeleteStore 1 (Some ''ann'')" sample_app, OF surjective_pairing]
      env deleted_by_owner(2) by simp
qed

theorem announcements_are_true_witness:
  "announced id sample_app (snd (write_route sample_deployment (Some ''key'') id (DeleteStore 1 (Some ''ann'')) sample_app))
   \<and> entries (ap_db (snd (write_route sample_deployment (Some ''key'') id (DeleteStore 1 (Some ''ann'')) sample_app))) = []"
  using announcements_are_true [of sample_deployment "Some ''key''" id "DeleteStore 1 (Some ''ann'')" sample_app, OF surjective_pairing]
    deleted_by_owner(2) by simp

theorem vendor_failure_is_answered_witness:
  "\<exists>exc s' response line p. store_data sample_edge static_body [] None 7 5 no_faults
       (channel_to (vendor_service (VendorRaises TransportFailure))) id sample_app = (Denied exc, s')
     \<and> handle_http (\<lambda>_. None) 300 ''made'' exc = Some (response, Some line) \<and> hr_body response = Some p
     \<and> hr_status response = 503 \<and> pr_reason p = Some ''VENDOR_UNAVAILABLE'' \<and> hr_headers response = []
     \<and> bars (ap_db s') = []"
proof -
  let ?v = "VendorRaises TransportFailure"
  let ?q = "query_of (fetch_request_of (routed static_body) None) (call_deadline (vendor_service ?v))"
  obtain e where e: "fst (get_bars (vendor_world ?v) sample_budget ?q) = Some (BarsFailure e)" "te_reason e = VENDOR_UNAVAILABLE"
    using static_request_fails [of ?v] by (auto split: option.splits get_bars_result.splits)
  then have g: "get_bars (vendor_world ?v) sample_budget ?q = (Some (BarsFailure e), snd (get_bars (vendor_world ?v) sample_budget ?q))"
    by (metis prod.collapse)
  have ok: "budget_ok sample_budget" unfolding sample_budget_def by (rule mk_budget_ok) simp
  have fair: "fair_passes (rb_rate sample_budget) (rw_passes (vendor_world ?v))"
    by (simp add: fair_passes_def sample_reader_def vendor_world_def)
  have reader: "se_readers (vendor_service ?v) (k_source (sb_key (routed static_body))) = Some (alpaca_reader (vendor_world ?v) sample_budget)"
    by (simp add: vendor_service_def static_body_facts)
  have free: "find_own_overlap (ap_db sample_app) (sb_key (routed static_body)) = []"
    using static_body_facts(5) by (simp add: sample_app_def)
  have row: "sp_http (row_of VENDOR_UNAVAILABLE) = 503" "reason_name VENDOR_UNAVAILABLE = ''VENDOR_UNAVAILABLE''" "bars (ap_db sample_app) = []"
    by code_simp+
  from vendor_failure_is_answered [where s = sample_app and minted = "''made''" and problems = "[]" and ed = sample_edge and faults = no_faults
      and batch_size = None and run_id = 7 and new_id = 5 and other = id and phrase = "\<lambda>_. None" and now = 300,
      OF static_body_facts(1) vendor_service_laws static_request reader ok fair g static_body_facts(3,4) free]
  show ?thesis using e(2) row by auto
qed

end
