(* ===== verification/Spec2Isabelle.thy ===== *)
theory Spec2Isabelle
  imports Vocabulary Health Scheduling Market_Enums Fetch_Worker Rpc_Errors Bar_Writes Ingest_Runs
    Catalog_Reads Events_Hub Reaper Daily_Refresh Usage_Recorder Catalog_Pending Catalog_Usage Catalog_Bars
    Rate_Budget Single_Flight Store_Routes
begin

text \<open>
  Verification library of the market data services: the store under \<open>src/server/data/store\<close>, the ingest service under
  \<open>src/server/data/ingest\<close> and the shared code under \<open>src/server/common\<close> and \<open>src/server/routers\<close>. The store keeps dataset
  entries and their bars in Postgres, fetches bars from the ingest service over gRPC, which reads them from a vendor within a rate
  budget, judges what each dataset should hold from the exchange's calendar, refreshes and expires datasets on a schedule, answers
  its operators in pages, counts its readers, and tells its clients what changed.

  \<^bold>\<open>Parts, theories and sources\<close> (paths under \<open>src/server\<close>).

  \<^item> \<open>Prelude\<close>: instants as microseconds, results \<open>'e + 'a\<close>, sorted lists, Python's \<open>int\<close>, \<open>dict.fromkeys\<close>
    and rounding.
  \<^item> \<open>Market_Enums\<close> (\<open>common/enums\<close>, \<open>brokers/alpaca/broker_codes.py\<close>): the enums, their composition out of
    per-market subsets, the broker code tables.
  \<^item> \<open>Vocabulary\<close> (\<open>common/errors/vocabulary.py\<close>): the reasons, their one table, the building of an error.
    \<open>Rpc_Errors\<close> (\<open>common/rpc/errors.py\<close>): an error rendered as a gRPC status, the boundary around a handler, and the error rebuilt
    on the client's side. \<open>Http_Errors\<close> (\<open>routers/common/errors.py\<close>): the same errors answered over HTTP, with their log lines.
  \<^item> \<open>Civil_Dates\<close>, \<open>Calendar_Protocols\<close>, \<open>Trading_Calendar\<close> (\<open>data/store/app/trading_calendar.py\<close>): dates as
    ordinals, the two calendar protocols as locales, and the adapter over the exchange calendar library.
    \<open>Completeness\<close> (\<open>completeness.py\<close>) and \<open>Health\<close> (\<open>health.py\<close>): what a dataset should hold, its gaps,
    its coverage strip and its freshness. Both are clients of the calendar locale only.
  \<^item> \<open>Scheduling\<close> (\<open>common/scheduling.py\<close>): the schedules and the periodic loop as a step relation.
  \<^item> \<open>Store_Tables\<close> (\<open>database/models\<close>, \<open>transaction.py\<close>): the tables, unique keys and the
    upsert as a locale, and the transaction boundary. \<open>Store_Entries\<close> (\<open>crud/stock/store_dataset_entry.py\<close>,
    \<open>crud/dataset_override.py\<close>): every write of an entry, the operator's edits with their audit rows, the
    reaper's delete. \<open>Bar_Writes\<close> (\<open>crud/stock/asset_market_activity.py\<close>): the chunked upsert of a batch of
    bars and the read. \<open>Catalog_Reads\<close> (\<open>crud/stock/dataset_catalog.py\<close>): the catalog, the pending set, the
    bar pages and their index. \<open>Ingest_Runs\<close> (\<open>crud/ingest_run.py\<close>, \<open>ingest/run_recording.py\<close>): the
    collection record around every fetch. \<open>Usage_Reads\<close> (\<open>crud/dataset_read.py\<close>): the reads counted and rolled up;
    \<open>Usage_Recorder\<close> (\<open>usage_recorder.py\<close>): the buffer in front of them.
  \<^item> \<open>Cursors\<close> and \<open>Keyset_Pages\<close>: the opaque cursor and the locale of a list cut into pages. \<open>Catalog_Views\<close>,
    \<open>Catalog_Pending\<close>, \<open>Catalog_Usage\<close>, \<open>Catalog_Bars\<close> (\<open>app/dataset_catalog.py\<close>): the lists, facets, details, usage and bar
    pages of the operator.
  \<^item> \<open>Fetch_Stream\<close> (\<open>common/rpc/clients/ingest_fetch.py\<close>): the grammar of a fetch's stream.
    \<open>Fetch_Worker\<close> (\<open>ingest/data_action_request.py\<close>): the stream consumed in one transaction. \<open>Wire_Values\<close>, \<open>Wire_Messages\<close>
    (\<open>common/rpc/mapping\<close>): the messages of a fetch.
  \<^item> \<open>Rate_Budget\<close>, \<open>Single_Flight\<close>, \<open>Alpaca_Read\<close> (\<open>data/ingest/app/brokers\<close>): the token bucket, one call for equal requests, the
    vendor's reader with its classification of failures. \<open>Ingest_Server\<close> (\<open>fetch_dataset_handler.py\<close>, the servicer): the
    handler, its pages and the hop. \<open>Vendor_To_Table\<close>: the whole way from the vendor to the table of bars.
  \<^item> \<open>Events_Hub\<close> (\<open>events.py\<close>): bounded queues and fan-out. \<open>Reaper\<close> (\<open>reaper.py\<close>): a pass over the expired
    datasets. \<open>Daily_Refresh\<close> (\<open>daily_refresh.py\<close>): what is behind, what to ask for and in which order,
    the loop over the batch and one recorded fetch.
  \<^item> \<open>Store_Routes\<close> (\<open>routers/data_store\<close>, \<open>routers/common/instance_secret.py\<close>): every write over HTTP and the bar read, each with
    its guard, its call, its announcement and its answer.

  \<^bold>\<open>State.\<close> \<open>Store_Tables.db\<close> is the database; a table is a list of rows, a UUID a number. A function that
  runs in a caller's transaction is a \<open>block\<close> on the session's view; one that opens its own returns the
  error or the value with the database afterwards. The hub, the bucket, the flights, the recorder's buffer, the reaper's previous
  set and the run handle are records or arguments of the operations that keep them; \<open>Store_Routes.app\<close> is the database with the hub.

  \<^bold>\<open>What is a parameter.\<close> \<open>other\<close>: what concurrent transactions commit between the statements of an
  operation; \<open>seen\<close>: what they commit before the count of an operator's delete, which is a statement of its own; \<open>passes\<close>: what other
  callers do to the bucket while one waits. \<open>fault\<close>: an error of a commit. \<open>transport\<close>: whether a call to the ingest service is delivered
  or breaks, after how many messages and with which status. New identifiers, the
  instant, the environment, the vendor's client, the fetch client (from a request to the items of its stream), the hook \<open>on_ack\<close>, the
  zone and the exchange calendar's table, the sizes Postgres answers, SHA-256, ISO texts and the decoding of bytes, the status
  phrases of the standard library. Their hypotheses are named (\<open>reports_only\<close>, \<open>zone_ok\<close>, \<open>adapter_ok\<close>, \<open>db_ok\<close>, \<open>hop_laws\<close>,
  \<open>fair_passes\<close>) and met in the witnesses by concrete values. A catalog request reads one snapshot. A float is an exact rational:
  prices and volumes are only copied, but the bucket's tokens and waits are computed, and there the code rounds, so a draw at the
  very end of its wait may be refused once more and \<open>acquire\<close> sleep again. A commit that is reported as failed is taken as not
  done; a commit that was done although it was reported as failed (a lost acknowledgement) is modelled for the recorder's buffer
  only, whose rows are written twice by it.

  \<^bold>\<open>What the lemmas show.\<close> The entry table keeps its keys, checks and references through any operation
  and interleaving; overlap, growth, ownership and audit rules are exact; a fetch stores all of its bars
  or nothing and never resurrects a retired dataset; the vendor's bars reach the table field by field and its failures reach the HTTP
  client under their own name and id; a broken channel is an error and never the end of a fetch; a batch is written unless a
  number is too large for its column; chunking, paging, the page index and the roll-up neither lose
  nor repeat a row; a walk over the catalog ends and visits each dataset once, and the facets are the totals of its lists;
  verdicts are exact for the calendar's table and OVERDUE is permanent for a final bar;
  a schedule fires at the earliest due instant and runs are spaced; the vendor is called no faster than its budget and a backfill
  leaves the reserve; equal requests make one call and nothing of it is kept; a reaper pass deletes nothing unless it is switched on
  and the audit tables exist, and then exactly the expired idle datasets; a refresh pass asks only for what is owed, each once, within its cap, stops at
  a dead peer and leaves every entry's identity and lifecycle alone; the hub delivers in order or drops; writes fail closed
  and what a write announces is true.

  \<^bold>\<open>Bounds and fuel.\<close> Loops of the code are recursions on their list or have a measure: the chunks of a batch, the two
  bisections, the sessions scanned for a firing (at most \<open>MAX_SESSIONS_SCANNED\<close>, as in the code), the pages of an answer (at most
  \<open>MAX_PAGE_BARS\<close> bars each). The parser of a cursor takes fuel twice the length of its text and one more, which the round trip
  shows enough for every cursor that is given out. The walk over a list is a partial function, and that it ends is proved. The wait
  for the budget is a recursion over the passes of the other callers, and it never ends after the deadline of the call.

  \<^bold>\<open>Not modelled.\<close> Python's overflow outside the years 1 to 9999 and the rounding of floats; text for humans (details, log lines);
  letter case and digits outside ASCII; the collation of Postgres (symbols order by code point); SQL
  errors other than those of the statements' own constraints, of the integer columns of a bar and of the commit; the clock of a call's
  timeout, whose end is a choice of the transport. Of the routers: the read routes of the
  operator interface, which pass their arguments on to the catalog, their protobuf messages and the WebSocket. Of the
  rest: gRPC hosting and channels, a generator cancelled or left early, the history of storage sizes, and the tools under \<open>src/tools\<close>,
  which orchestrate processes. The order of events within one refresh is not modelled.
\<close>

end
